(* ===== verification/Astra_Prelude.thy ===== *)
theory Astra_Prelude
  imports Main "HOL-Library.Word"
begin

text \<open>
  Shared vocabulary of the development: the machine integer types of the sources
  (\<^verbatim>\<open>std::uint64_t\<close> and its narrower relatives), the two functions of the standard
  header \<^verbatim>\<open>bit\<close> the sources call (\<^verbatim>\<open>std::bit_width\<close>, \<^verbatim>\<open>std::countr_zero\<close>), unsigned
  wrap-around written out on \<open>nat\<close>, and the lemmas on words, division and lists that the
  component theories share.  The collections \<open>unfolds\<close> and \<open>keeps\<close> gather the defining
  equations and the invariant-preservation facts of the components.
\<close>

unbundle bit_operations_syntax

named_theorems unfolds \<open>defining equations a component proof may unfold\<close>
named_theorems keeps \<open>invariant preservation, one fact per operation\<close>

type_synonym u8 = "8 word"
type_synonym u16 = "16 word"
type_synonym u32 = "32 word"
type_synonym u64 = "64 word"
type_synonym bytes = "u8 list"

text \<open>Nanosecond and millisecond coordinates are signed 64-bit counts: they are modelled as
  \<open>int\<close>, with the representable range written out where the code tests or relies on it.\<close>

type_synonym ns = int

definition i64_max :: int where
  "i64_max = 2 ^ 63 - 1"

definition i64 :: "int \<Rightarrow> bool" where
  "i64 x \<longleftrightarrow> - (2 ^ 63) \<le> x \<and> x < 2 ^ 63"

text \<open>Unsigned 64-bit wrap-around on \<open>nat\<close>.\<close>

definition wrap64 :: "nat \<Rightarrow> nat" where
  "wrap64 n = n mod 2 ^ 64"

lemma wrap64_id [simp]: "n < 2 ^ 64 \<Longrightarrow> wrap64 n = n"
  by (simp add: wrap64_def)

lemma wrap64_less [simp]: "wrap64 n < 2 ^ 64"
  by (simp add: wrap64_def)

text \<open>The same on \<open>int\<close>, for the components that mix signed and unsigned 64-bit values.\<close>

definition u64w :: "int \<Rightarrow> int" where
  "u64w x = x mod 2 ^ 64"

lemma u64w_id [simp]: "0 \<le> x \<Longrightarrow> x < 2 ^ 64 \<Longrightarrow> u64w x = x"
  by (simp add: u64w_def)

definition i64w :: "int \<Rightarrow> int" where
  "i64w x = (x + 2 ^ 63) mod 2 ^ 64 - 2 ^ 63"

lemma i64w_id [simp]: "i64 x \<Longrightarrow> i64w x = x"
  by (simp add: i64w_def i64_def)

subsection \<open>Bit counting\<close>

fun bit_width_nat :: "nat \<Rightarrow> nat" where
  "bit_width_nat n = (if n = 0 then 0 else Suc (bit_width_nat (n div 2)))"

declare bit_width_nat.simps [simp del]

definition bit_width :: "u64 \<Rightarrow> nat" where
  "bit_width w = bit_width_nat (unat w)"

fun countr_zero_nat :: "nat \<Rightarrow> nat" where
  "countr_zero_nat n = (if n = 0 \<or> odd n then 0 else Suc (countr_zero_nat (n div 2)))"

declare countr_zero_nat.simps [simp del]

definition countr_zero :: "u64 \<Rightarrow> nat" where
  "countr_zero w = (if w = 0 then 64 else countr_zero_nat (unat w))"

lemma bit_width_nat_0 [simp]: "bit_width_nat 0 = 0"
  by (simp add: bit_width_nat.simps)

lemma bit_width_nat_bounds:
  "0 < n \<Longrightarrow> 0 < bit_width_nat n \<and> 2 ^ (bit_width_nat n - 1) \<le> n \<and> n < 2 ^ bit_width_nat n"
proof (induction n rule: bit_width_nat.induct)
  case (1 n)
  show ?case
  proof (cases "n div 2 = 0")
    case True
    with "1.prems" have "n = 1" by simp
    then show ?thesis by (simp add: bit_width_nat.simps)
  next
    case False
    with 1 have IH: "0 < bit_width_nat (n div 2)" "2 ^ (bit_width_nat (n div 2) - 1) \<le> n div 2"
      "n div 2 < 2 ^ bit_width_nat (n div 2)" by auto
    have w: "bit_width_nat n = Suc (bit_width_nat (n div 2))"
      using "1.prems" by (simp add: bit_width_nat.simps [of n])
    have "2 ^ bit_width_nat (n div 2) = (2::nat) * 2 ^ (bit_width_nat (n div 2) - 1)"
      using IH(1) by (simp flip: power_Suc)
    also have "\<dots> \<le> n" using IH(2) by linarith
    finally have "2 ^ bit_width_nat (n div 2) \<le> n" .
    moreover have "n < 2 * 2 ^ bit_width_nat (n div 2)" using IH(3) by linarith
    ultimately show ?thesis by (simp add: w)
  qed
qed

lemma bit_width_nat_le: "n < 2 ^ k \<Longrightarrow> bit_width_nat n \<le> k"
proof (cases "n = 0")
  case False
  assume "n < 2 ^ k"
  with False have "2 ^ (bit_width_nat n - 1) < (2::nat) ^ k"
    using bit_width_nat_bounds [of n] by (meson le_less_trans gr0I)
  then have "bit_width_nat n - 1 < k" by simp
  then show ?thesis by linarith
qed simp

text \<open>\<open>countr_zero\<close> is the exponent of the largest power of two that divides its argument; the
  value 64 for zero makes the statement hold for every exponent up to the width.\<close>

lemma countr_zero_nat_dvd: "0 < n \<Longrightarrow> 2 ^ k dvd n \<longleftrightarrow> k \<le> countr_zero_nat n"
proof (induction n arbitrary: k rule: countr_zero_nat.induct)
  case (1 n)
  show ?case
  proof (cases "odd n")
    case True
    then show ?thesis
      by (cases k) (auto simp: countr_zero_nat.simps [of n])
  next
    case False
    then have n: "n = 2 * (n div 2)" by simp
    with "1.prems" have pos: "0 < n div 2" by linarith
    show ?thesis
    proof (cases k)
      case (Suc j)
      have "2 ^ Suc j dvd n \<longleftrightarrow> 2 ^ j dvd n div 2"
        by (subst n) simp
      also have "\<dots> \<longleftrightarrow> j \<le> countr_zero_nat (n div 2)"
        using "1.IH" [of j] False pos "1.prems" by simp
      finally show ?thesis
        using False "1.prems" Suc by (simp add: countr_zero_nat.simps [of n])
    qed simp
  qed
qed

lemma countr_zero_dvd: "k \<le> 64 \<Longrightarrow> 2 ^ k dvd unat w \<longleftrightarrow> k \<le> countr_zero w"
  by (cases "w = 0") (simp_all add: countr_zero_def countr_zero_nat_dvd unat_gt_0)

subsection \<open>Words as numbers\<close>

lemma unat_drop_bit: "unat (drop_bit k w) = unat w div 2 ^ k"
  by (simp add: unat_drop_bit_eq [unfolded drop_bit_eq_div [where 'a = nat]] flip: drop_bit_eq_div)

lemma unat_and_mask: "unat (w AND mask k) = unat w mod 2 ^ k"
  by (simp flip: take_bit_eq_mask take_bit_eq_mod add: unsigned_take_bit_eq)

lemma unat_less64 [simp]: "unat (w :: u64) < 2 ^ 64"
  using unsigned_less [of w] by simp

lemma unat_succ: "unat (w + 1 :: u64) = (if unat w = 2 ^ 64 - 1 then 0 else unat w + 1)"
proof -
  have "unat (w + 1) = (unat w + 1) mod 2 ^ 64" by (simp add: unat_word_ariths)
  then show ?thesis using unat_less64 [of w] by auto
qed

lemma unat_diff_succ: "(d :: u64) \<noteq> c \<Longrightarrow> unat (d - (c + 1)) = unat (d - c) - 1"
proof -
  assume "d \<noteq> c"
  then have "d - c \<noteq> 0" by simp
  then have "unat (d - c - 1) = unat (d - c) - 1" by (rule unat_minus_one)
  moreover have "d - (c + 1) = d - c - 1" by (rule diff_diff_add [symmetric])
  ultimately show ?thesis by (simp only:)
qed

lemma unat_add_diff: "(unat c + unat (d - c)) mod 2 ^ 64 = unat (d :: u64)"
proof -
  have "unat (c + (d - c)) = (unat c + unat (d - c)) mod 2 ^ LENGTH(64)"
    by (rule unat_word_ariths)
  moreover have "c + (d - c) = d" by simp
  ultimately show ?thesis by (simp only: len_num1 len_bit0) simp
qed

text \<open>The next version, below the largest.\<close>

lemma unat_next: "v \<noteq> - 1 \<Longrightarrow> unat (v + 1 :: u64) = unat v + 1"
  by (metis add.commute add_eq_0_iff2 unatSuc Suc_eq_plus1 equation_minus_iff)

text \<open>Dropping while a condition holds, given where it first fails.\<close>

lemma dropWhile_prefix:
  assumes "\<And>i. i < n \<Longrightarrow> i < length xs \<Longrightarrow> P (xs ! i)" "n < length xs \<Longrightarrow> \<not> P (xs ! n)"
  shows "dropWhile P xs = drop n xs"
  using assms
proof (induction xs arbitrary: n)
  case (Cons x xs)
  show ?case
  proof (cases n)
    case 0
    then show ?thesis using Cons.prems(2) by simp
  next
    case (Suc m)
    have "P x" using Cons.prems(1) [of 0] Suc by simp
    moreover have "dropWhile P xs = drop m xs"
    proof (rule Cons.IH)
      fix i assume "i < m" "i < length xs"
      then show "P (xs ! i)" using Cons.prems(1) [of "Suc i"] Suc by simp
    next
      assume "m < length xs"
      then show "\<not> P (xs ! m)" using Cons.prems(2) Suc by simp
    qed
    ultimately show ?thesis using Suc by simp
  qed
qed simp

end
