(* ===== verification/Wheel_Place.thy ===== *)
theory Wheel_Place
  imports Wheel
begin

text \<open>
  Where the timing wheel keeps its hooks: the arithmetic of digits across the 64-bit wrap, the
  placement invariant and its preservation by schedule and cancel, and the cascade, which
  leaves in the ready queue exactly the hooks due at the new clock value.
\<close>

subsection \<open>Placement of a deadline\<close>

text \<open>A deadline \<open>d\<close> lies in slot \<open>s\<close> of level \<open>l\<close> at clock \<open>c\<close> when \<open>s\<close> is its digit there and its
  block of \<open>2 ^ (l * B)\<close> ticks is one of the next \<open>2 ^ B\<close> (the current one excluded).  The
  unwrapped deadline is \<open>unat c + unat (d - c)\<close>.\<close>

definition placed :: "nat \<Rightarrow> u64 \<Rightarrow> u64 \<Rightarrow> nat \<Rightarrow> nat \<Rightarrow> bool" where
  "placed B c d l s \<longleftrightarrow>
     (let D = unat c + unat (d - c); P = 2 ^ (l * B)
      in s = D div P mod 2 ^ B \<and> unat c div P < D div P \<and>
         D div P \<le> unat c div P + (if l = 0 then 2 ^ B - 1 else 2 ^ B))"

lemma digit_mod64:
  fixes D :: nat
  assumes "l * B + B \<le> 64"
  shows "(D mod 2 ^ 64) div 2 ^ (l * B) mod 2 ^ B = D div 2 ^ (l * B) mod 2 ^ B"
proof -
  have "take_bit B (drop_bit (l * B) (take_bit 64 D)) = take_bit B (drop_bit (l * B) D)"
    using assms by (simp add: drop_bit_take_bit min_absorb1 le_diff_conv2)
  then show ?thesis by (simp add: drop_bit_eq_div take_bit_eq_mod)
qed

lemma wheel_slot_eq: "wheel_slot B t l = unat t div 2 ^ (l * B) mod 2 ^ B"
  by (simp add: wheel_slot_def unat_and_mask unat_drop_bit)

lemma wheel_slot_digit:
  assumes "l * B + B \<le> 64"
  shows "wheel_slot B d l = (unat c + unat (d - c)) div 2 ^ (l * B) mod 2 ^ B"
  using digit_mod64 [OF assms, of "unat c + unat (d - c)"]
  by (simp only: wheel_slot_eq unat_add_diff)

lemma dvd_wrap: "k \<le> 64 \<Longrightarrow> 2 ^ k dvd n mod 2 ^ 64 \<longleftrightarrow> (2::nat) ^ k dvd n"
proof -
  assume "k \<le> 64"
  then have "(2::nat) ^ k dvd 2 ^ 64" by (rule le_imp_power_dvd)
  then show ?thesis by (rule dvd_mod_iff)
qed

text \<open>Advancing the clock by one tick, with the wrap at the width of the counter: quotients by a
  level's unit shift by the same multiple of the slot count.\<close>

lemma placed_shift:
  fixes c d :: u64
  assumes "l * B + B \<le> 64" and "d \<noteq> c"
  shows "\<exists>K. 2 ^ B dvd K \<and>
    (unat c + unat (d - c)) div 2 ^ (l * B) = (unat (c + 1) + unat (d - (c + 1))) div 2 ^ (l * B) + K \<and>
    (unat c + 1) div 2 ^ (l * B) = unat (c + 1) div 2 ^ (l * B) + K"
proof (cases "unat c = 2 ^ 64 - 1")
  case False
  have "unat (d - c) \<noteq> 0" using assms(2) by (simp add: unat_eq_zero)
  then have "unat (c + 1) + unat (d - (c + 1)) = unat c + unat (d - c)" using False assms(2)
    by (simp add: unat_succ unat_diff_succ)
  moreover have "unat (c + 1) = unat c + 1" using False by (simp add: unat_succ)
  ultimately show ?thesis by (intro exI [of _ 0]) (simp only: dvd_0_right add_0_right simp_thms)
next
  case True
  define K where "K = (2::nat) ^ (64 - l * B)"
  have r: "unat (d - c) \<noteq> 0" using assms(2) by (simp add: unat_eq_zero)
  have p: "(2::nat) ^ 64 = 2 ^ (l * B) * K"
    using assms(1) by (simp add: K_def flip: power_add)
  have "2 ^ B dvd K" using assms(1) by (simp add: K_def le_imp_power_dvd)
  moreover have "(unat c + unat (d - c)) div 2 ^ (l * B) = (unat (d - c) - 1) div 2 ^ (l * B) + K"
  proof -
    have "unat c + unat (d - c) = 2 ^ 64 + (unat (d - c) - 1)" using r True by simp
    then have "unat c + unat (d - c) = 2 ^ (l * B) * K + (unat (d - c) - 1)" by (simp only: p)
    then show ?thesis by simp
  qed
  moreover have "(unat c + 1) div 2 ^ (l * B) = K"
  proof -
    have "unat c + 1 = 2 ^ (l * B) * K" using True by (simp add: p [symmetric])
    then show ?thesis by simp
  qed
  ultimately show ?thesis using True assms(2)
    by (intro exI [of _ K]) (simp add: unat_succ unat_diff_succ)
qed

lemma placed_tick:
  fixes c d :: u64
  assumes pl: "placed B c d l s" and fit: "l * B + B \<le> 64"
  shows "if 2 ^ (l * B) dvd unat (c + 1) \<and> s = wheel_slot B (c + 1) l
         then unat (d - (c + 1)) < 2 ^ (l * B) else placed B (c + 1) d l s"
proof -
  define P where "P = (2::nat) ^ (l * B)"
  define r where "r = unat (d - (c + 1))"
  define q where "q = (unat (c + 1) + r) div P"
  define q0 where "q0 = unat (c + 1) div P"
  define M where "M = (if l = 0 then 2 ^ B - 1 else (2::nat) ^ B)"
  have P: "0 < P" by (simp add: P_def)
  have M: "M \<le> 2 ^ B" by (simp add: M_def)
  have ne: "d \<noteq> c" using pl by (auto simp: placed_def Let_def)
  obtain K where K: "2 ^ B dvd K" "(unat c + unat (d - c)) div P = q + K" "(unat c + 1) div P = q0 + K"
    using placed_shift [OF fit ne] unfolding P_def q_def q0_def r_def by blast
  have s: "s = q mod 2 ^ B"
  proof -
    have "s = (q + K) mod 2 ^ B" using pl K(2) by (simp add: placed_def Let_def P_def)
    then show ?thesis using K(1) by (auto elim!: dvdE)
  qed
  have lo: "unat c div P < q + K" and hi: "q + K \<le> unat c div P + M"
    using pl K(2) by (simp_all add: placed_def Let_def P_def M_def)
  have dvd: "P dvd unat (c + 1) \<longleftrightarrow> P dvd unat c + 1"
  proof -
    have "unat (c + 1) = (unat c + 1) mod 2 ^ 64" by (simp add: unat_word_ariths)
    then show ?thesis using dvd_wrap [of "l * B" "unat c + 1"] fit by (simp add: P_def)
  qed
  have q0: "q0 + K = unat c div P + (if P dvd unat (c + 1) then 1 else 0)"
    using K(3) dvd P by (auto simp: div_Suc dvd_eq_mod_eq_0 split: if_splits)
  have slot: "wheel_slot B (c + 1) l = q0 mod 2 ^ B"
    by (simp add: wheel_slot_eq q0_def P_def)
  show ?thesis
  proof (cases "P dvd unat (c + 1) \<and> s = wheel_slot B (c + 1) l")
    case True
    then have le: "q0 \<le> q" "q < q0 + 2 ^ B" using lo hi q0 M by auto
    have "q0 mod 2 ^ B = q mod 2 ^ B" using True s slot by simp
    then have "2 ^ B dvd q - q0" using mod_eq_dvd_iff_nat [OF le(1), of "2 ^ B"] by simp
    moreover have "q - q0 < 2 ^ B" using le by linarith
    ultimately have "q - q0 = 0" by (meson nat_dvd_not_less not_gr_zero)
    then have "q = q0" using le(1) by linarith
    obtain k where "unat (c + 1) = P * k" using True by (auto elim: dvdE)
    with \<open>q = q0\<close> P have "r div P = 0" by (simp add: q_def q0_def)
    then have "r < P" using P by (simp add: div_eq_0_iff)
    then show ?thesis using True by (simp add: r_def P_def)
  next
    case False
    have "q0 < q \<and> q \<le> q0 + M"
    proof (cases "P dvd unat (c + 1)")
      case True
      have "q \<noteq> q0" using True False s slot by auto
      then show ?thesis using True lo hi q0 by auto
    next
      case no: False
      then show ?thesis using lo hi q0 by auto
    qed
    then have "placed B (c + 1) d l s"
      using s by (simp add: placed_def Let_def q_def q0_def r_def P_def M_def)
    then show ?thesis using False by (auto simp: P_def)
  qed
qed

text \<open>Where an insertion lands.\<close>

lemma wheel_level_bounds:
  assumes "0 < B"
  shows "unat r < 2 ^ (Suc (wheel_level B r) * B)"
    and "r \<noteq> 0 \<Longrightarrow> 2 ^ (wheel_level B r * B) \<le> unat r"
proof -
  define m where "m = unat (r OR 1)"
  have m: "m = unat r OR 1" by (simp add: m_def unsigned_or_eq)
  then have odd: "odd m" "m div 2 = unat r div 2"
    by (simp_all add: or_Suc_0_eq)
  then have pos: "0 < m" by (auto intro: gr0I)
  have rm: "unat r \<le> m" using odd by (cases "odd (unat r)") presburger+
  have mr: "r \<noteq> 0 \<Longrightarrow> m = unat r \<or> m = unat r + 1 \<and> even (unat r)" using odd by presburger
  define k where "k = bit_width_nat m"
  have k: "0 < k" "2 ^ (k - 1) \<le> m" "m < 2 ^ k"
    using bit_width_nat_bounds [OF pos] by (auto simp: k_def)
  have lv: "wheel_level B r = (k - 1) div B"
    by (simp add: wheel_level_def bit_width_def k_def m_def)
  have "k - 1 < Suc ((k - 1) div B) * B"
    using assms by (simp add: dividend_less_div_times add.commute)
  then have "k \<le> Suc ((k - 1) div B) * B" using k(1) by linarith
  then have "(2::nat) ^ k \<le> 2 ^ (Suc ((k - 1) div B) * B)" by (rule power_increasing) simp
  then show "unat r < 2 ^ (Suc (wheel_level B r) * B)"
    using rm k(3) unfolding lv by linarith
  assume "r \<noteq> 0"
  then have "0 < unat r" by (simp add: unat_gt_0)
  have "2 ^ (k - 1) \<le> unat r"
  proof (cases "m = unat r")
    case False
    then have m: "m = unat r + 1" "even (unat r)" using mr [OF \<open>r \<noteq> 0\<close>] by auto
    have "k - 1 \<noteq> 0"
    proof
      assume "k - 1 = 0"
      then have "m < 2" using k(1,3) by (cases k) auto
      then show False using m \<open>0 < unat r\<close> by simp
    qed
    then have "even ((2::nat) ^ (k - 1))" by simp
    then show ?thesis using k(2) m by presburger
  qed (use k in simp)
  moreover have "(2::nat) ^ ((k - 1) div B * B) \<le> 2 ^ (k - 1)"
    by (rule power_increasing) simp_all
  ultimately show "2 ^ (wheel_level B r * B) \<le> unat r" unfolding lv by linarith
qed

lemma wheel_level_0 [simp]: "wheel_level B 0 = 0"
  by (simp add: wheel_level_def bit_width_def bit_width_nat.simps)

lemma wheel_level_less:
  assumes "0 < B" and "unat r < 2 ^ (k * B)" and "0 < k"
  shows "wheel_level B r < k"
proof (cases "r = 0")
  case False
  have "2 ^ (wheel_level B r * B) \<le> unat r" by (rule wheel_level_bounds(2)) (use assms False in auto)
  then have "(2::nat) ^ (wheel_level B r * B) < 2 ^ (k * B)" using assms(2) by linarith
  then show ?thesis using assms(1) by (simp add: power_strict_increasing_iff)
qed (use assms in simp)

lemma insert_placed:
  fixes c d :: u64 and B :: nat
  defines "l \<equiv> wheel_level B (d - c)"
  assumes B: "0 < B" and fit: "l * B + B \<le> 64" and ne: "d \<noteq> c"
  shows "placed B c d l (wheel_slot B d l)"
    and "2 ^ (l * B) dvd unat c \<Longrightarrow> wheel_slot B d l \<noteq> wheel_slot B c l"
proof -
  define P where "P = (2::nat) ^ (l * B)"
  define r where "r = unat (d - c)"
  have P: "0 < P" by (simp add: P_def)
  have r: "P \<le> r" "r < P * 2 ^ B"
    using wheel_level_bounds [OF B, of "d - c"] ne
    by (simp_all add: P_def r_def l_def power_add algebra_simps)
  have slot: "wheel_slot B d l = (unat c + r) div P mod 2 ^ B"
    using wheel_slot_digit [OF fit, of d c] by (simp add: r_def P_def)
  have lo: "unat c div P < (unat c + r) div P"
  proof -
    have "unat c div P + 1 = (unat c + P) div P" using P by (simp add: div_add_self2)
    also have "\<dots> \<le> (unat c + r) div P" using r(1) by (intro div_le_mono) simp
    finally show ?thesis by simp
  qed
  have hi: "(unat c + r) div P \<le> unat c div P + (if l = 0 then 2 ^ B - 1 else 2 ^ B)"
  proof (cases "l = 0")
    case True
    then show ?thesis using r by (simp add: P_def)
  next
    case False
    have "(unat c + r) div P \<le> (unat c + P * 2 ^ B) div P" using r(2) by (intro div_le_mono) simp
    then show ?thesis using False P by simp
  qed
  show "placed B c d l (wheel_slot B d l)"
    using slot lo hi by (simp add: placed_def Let_def r_def P_def)
  assume "2 ^ (l * B) dvd unat c"
  then obtain k where k: "unat c = P * k" by (auto simp: P_def elim: dvdE)
  have "(unat c + r) div P = k + r div P" using P by (simp add: k)
  moreover have "0 < r div P" using r(1) P by (simp add: div_greater_zero_iff)
  moreover have "r div P < 2 ^ B" using r(2) P by (simp add: less_mult_imp_div_less mult.commute)
  ultimately have "(unat c + r) div P mod 2 ^ B \<noteq> k mod 2 ^ B"
    using mod_eq_dvd_iff_nat [of k "k + r div P" "2 ^ B"] by (auto dest: nat_dvd_not_less)
  then show "wheel_slot B d l \<noteq> wheel_slot B c l"
    using P by (simp add: slot wheel_slot_eq [of B c] k flip: P_def)
qed

subsection \<open>The invariant\<close>

definition wheel_nodes :: "wheel \<Rightarrow> node set" where
  "wheel_nodes w = {n. \<exists>l s. n \<in> set (w_slots w l s)}"

definition wheel_distinct :: "wheel \<Rightarrow> bool" where
  "wheel_distinct w \<longleftrightarrow>
     distinct (w_ready w) \<and> set (w_ready w) \<inter> wheel_nodes w = {} \<and>
     (\<forall>l s. distinct (w_slots w l s)) \<and>
     (\<forall>l s l' s' n. n \<in> set (w_slots w l s) \<and> n \<in> set (w_slots w l' s') \<longrightarrow> l = l' \<and> s = s')"

definition wheel_placed :: "nat \<Rightarrow> nat \<Rightarrow> wheel \<Rightarrow> bool" where
  "wheel_placed L B w \<longleftrightarrow>
     (\<forall>l s n. n \<in> set (w_slots w l s) \<longrightarrow> l < L \<and> placed B (w_clock w) (w_deadline w n) l s)"

definition wheel_inv :: "nat \<Rightarrow> nat \<Rightarrow> wheel \<Rightarrow> bool" where
  "wheel_inv L B w \<longleftrightarrow>
     wheel_placed L B w \<and> wheel_distinct w \<and> (\<forall>n \<in> set (w_ready w). w_deadline w n = w_clock w)"

lemma wheel_params_fit: "wheel_params L B \<Longrightarrow> l < L \<Longrightarrow> l * B + B \<le> 64"
proof -
  assume p: "wheel_params L B" and "l < L"
  have "l * B + B = Suc l * B" by simp
  also have "\<dots> \<le> L * B" using \<open>l < L\<close> by (intro mult_right_mono) auto
  also have "\<dots> \<le> 64 div B * B" using p by (intro mult_right_mono) (auto simp: wheel_params_def)
  also have "\<dots> \<le> 64" by simp
  finally show ?thesis .
qed

lemma mult_pred_div: "0 < a \<Longrightarrow> 0 < b \<Longrightarrow> (b * a - 1) div b = a - (1::nat)"
proof (cases a)
  case (Suc k)
  assume "0 < b"
  then show ?thesis using Suc by (intro div_nat_eqI) simp_all
qed simp

lemma unat_wheel_limit: "wheel_params L B \<Longrightarrow> unat (wheel_limit L B) = 2 ^ (L * B) - 1"
proof -
  assume p: "wheel_params L B"
  then have "L * B \<le> 64" using wheel_params_fit [OF p, of "L - 1"]
    by (cases L) (auto simp: wheel_params_def)
  then have split: "(2::nat) ^ 64 = 2 ^ (64 - L * B) * 2 ^ (L * B)" by (simp flip: power_add)
  have "unat (wheel_limit L B) = (2 ^ 64 - 1) div 2 ^ (64 - L * B)"
    unfolding wheel_limit_def unat_drop_bit by (simp add: unsigned_minus_1_eq_mask mask_eq_exp_minus_1)
  also have "\<dots> = 2 ^ (L * B) - 1"
    unfolding split by (rule mult_pred_div) simp_all
  finally show ?thesis .
qed

lemma placed_ne: "placed B c d l s \<Longrightarrow> d \<noteq> c"
  by (auto simp: placed_def Let_def)

subsection \<open>Insertion and cancellation\<close>

lemma wheel_insert_fields [simp]:
  "w_clock (wheel_insert B w n) = w_clock w" "w_busy (wheel_insert B w n) = w_busy w"
  "w_deadline (wheel_insert B w n) = w_deadline w"
  by (simp_all add: wheel_insert_def Let_def)

lemma wheel_insert_mem:
  "m \<in> set (w_slots (wheel_insert B w n) l s) \<longleftrightarrow>
     m \<in> set (w_slots w l s) \<or>
     m = n \<and> l = wheel_level B (w_deadline w n - w_clock w) \<and> s = wheel_slot B (w_deadline w n) l"
  by (auto simp: wheel_insert_def Let_def)

lemma wheel_insert_nodes [simp]: "wheel_nodes (wheel_insert B w n) = insert n (wheel_nodes w)"
  by (auto simp: wheel_nodes_def wheel_insert_mem)

lemma wheel_insert_distinct:
  "wheel_distinct w \<Longrightarrow> n \<notin> wheel_nodes w \<Longrightarrow> n \<notin> set (w_ready w) \<Longrightarrow> wheel_distinct (wheel_insert B w n)"
proof -
  assume a: "wheel_distinct w" "n \<notin> wheel_nodes w" "n \<notin> set (w_ready w)"
  have "\<forall>l s. distinct (w_slots (wheel_insert B w n) l s)"
    using a(1,2) by (auto simp: wheel_insert_def Let_def wheel_distinct_def wheel_nodes_def)
  moreover have "\<forall>l s l' s' m. m \<in> set (w_slots (wheel_insert B w n) l s) \<and>
      m \<in> set (w_slots (wheel_insert B w n) l' s') \<longrightarrow> l = l' \<and> s = s'"
    using a(1,2) unfolding wheel_insert_mem wheel_distinct_def wheel_nodes_def by blast
  ultimately show ?thesis using a by (simp add: wheel_distinct_def)
qed

lemma wheel_cancel_fields [simp]:
  "w_clock (wheel_cancel w n) = w_clock w" "w_busy (wheel_cancel w n) = w_busy w"
  "w_deadline (wheel_cancel w n) = w_deadline w"
  "w_slots (wheel_cancel w n) l s = removeAll n (w_slots w l s)"
  by (simp_all add: wheel_cancel_def)

lemma wheel_cancel_nodes [simp]: "wheel_nodes (wheel_cancel w n) = wheel_nodes w - {n}"
  by (auto simp: wheel_nodes_def)

lemma wheel_cancel_inv [keeps]: "wheel_inv L B w \<Longrightarrow> wheel_inv L B (wheel_cancel w n)"
proof -
  assume inv: "wheel_inv L B w"
  have "wheel_distinct (wheel_cancel w n)"
    using inv unfolding wheel_inv_def wheel_distinct_def
    by (simp add: distinct_removeAll) blast
  then show ?thesis using inv by (auto simp: wheel_inv_def wheel_placed_def)
qed

lemma wheel_schedule_inv [keeps]:
  assumes p: "wheel_params L B" and inv: "wheel_inv L B w"
  shows "wheel_inv L B (snd (wheel_schedule L B w n delay))"
proof (cases "wheel_limit L B < delay")
  case False
  define w1 where "w1 = wheel_cancel w n"
  define w2 where "w2 = w1\<lparr>w_deadline := (w_deadline w1)(n := w_clock w1 + max delay 1)\<rparr>"
  define l where "l = wheel_level B (max delay 1)"
  have eq: "snd (wheel_schedule L B w n delay) = wheel_insert B w2 n"
    using False by (simp add: wheel_schedule_def w2_def w1_def Let_def)
  have inv1: "wheel_inv L B w1" and out: "n \<notin> wheel_nodes w1" "n \<notin> set (w_ready w1)"
    using inv by (simp_all add: w1_def wheel_cancel_inv)
  have B: "0 < B" and L: "0 < L" using p by (auto simp: wheel_params_def)
  have ne: "max delay 1 \<noteq> (0 :: u64)" by (auto simp: max_def word_le_nat_alt)
  have "unat (max delay 1) < 2 ^ (L * B)"
  proof -
    have "(1 :: u64) \<le> wheel_limit L B"
      using unat_wheel_limit [OF p] power_increasing [of 1 "L * B" "2::nat"] B L
      by (simp add: word_le_nat_alt)
    then have "max delay 1 \<le> wheel_limit L B" using False by simp
    then have "unat (max delay 1) \<le> 2 ^ (L * B) - 1" using unat_wheel_limit [OF p] by (simp add: word_le_nat_alt)
    moreover have "(0::nat) < 2 ^ (L * B)" by simp
    ultimately show ?thesis by linarith
  qed
  then have "l < L" unfolding l_def by (rule wheel_level_less [OF B _ L])
  have c2: "w_clock w2 = w_clock w1" "w_deadline w2 n = w_clock w1 + max delay 1"
    "\<And>m. m \<noteq> n \<Longrightarrow> w_deadline w2 m = w_deadline w1 m" "w_slots w2 = w_slots w1" "w_ready w2 = w_ready w1"
    by (simp_all add: w2_def)
  have new: "placed B (w_clock w1) (w_clock w1 + max delay 1) l (wheel_slot B (w_clock w1 + max delay 1) l)"
    using insert_placed(1) [OF B, where c = "w_clock w1" and d = "w_clock w1 + max delay 1"]
      wheel_params_fit [OF p \<open>l < L\<close>] ne by (simp add: l_def)
  have nodes: "wheel_nodes w2 = wheel_nodes w1" by (simp add: wheel_nodes_def c2)
  have "wheel_distinct w2" using inv1 nodes by (simp add: wheel_inv_def wheel_distinct_def c2)
  then have "wheel_distinct (wheel_insert B w2 n)"
    using out nodes by (intro wheel_insert_distinct) (simp_all add: c2)
  moreover have "wheel_placed L B (wheel_insert B w2 n)"
    unfolding wheel_placed_def wheel_insert_mem
  proof (intro allI impI)
    fix k s m
    assume m: "m \<in> set (w_slots w2 k s) \<or>
      m = n \<and> k = wheel_level B (w_deadline w2 n - w_clock w2) \<and> s = wheel_slot B (w_deadline w2 n) k"
    show "k < L \<and> placed B (w_clock (wheel_insert B w2 n)) (w_deadline (wheel_insert B w2 n) m) k s"
    proof (cases "m = n")
      case True
      with m out(1) have "k = l" "s = wheel_slot B (w_deadline w2 n) k"
        by (auto simp: c2 l_def wheel_nodes_def)
      then show ?thesis using True new \<open>l < L\<close> by (simp add: c2)
    next
      case False
      with m inv1 show ?thesis by (simp add: c2 wheel_inv_def wheel_placed_def)
    qed
  qed
  moreover have "\<forall>m \<in> set (w_ready (wheel_insert B w2 n)). w_deadline (wheel_insert B w2 n) m = w_clock (wheel_insert B w2 n)"
  proof
    fix m assume "m \<in> set (w_ready (wheel_insert B w2 n))"
    then have "m \<in> set (w_ready w1)" "m \<noteq> n" using out(2) by (auto simp: c2)
    then show "w_deadline (wheel_insert B w2 n) m = w_clock (wheel_insert B w2 n)"
      using inv1 by (simp add: c2 wheel_inv_def)
  qed
  ultimately show ?thesis unfolding eq wheel_inv_def by blast
qed (simp add: wheel_schedule_def inv)

lemma wheel_request_inv [keeps]:
  "wheel_params L B \<Longrightarrow> wheel_inv L B w \<Longrightarrow> wheel_inv L B (wheel_request L B w r)"
  by (cases r) (simp_all add: keeps)

lemma wheel_requests_inv [keeps]:
  "wheel_params L B \<Longrightarrow> wheel_inv L B w \<Longrightarrow> wheel_inv L B (wheel_requests L B w rs)"
  unfolding wheel_requests_def by (induction rs arbitrary: w) (simp_all add: wheel_request_inv)

subsection \<open>The cascade\<close>

text \<open>Between the clock step and the end of the cascade, the current slots of the levels not yet
  processed hold hooks due within the level's unit; everything else is placed.\<close>

definition cascading :: "nat \<Rightarrow> nat \<Rightarrow> nat \<Rightarrow> wheel \<Rightarrow> bool" where
  "cascading L B k w \<longleftrightarrow>
     (\<forall>l s n. n \<in> set (w_slots w l s) \<longrightarrow> l < L \<and>
        (if l \<le> k \<and> 2 ^ (l * B) dvd unat (w_clock w) \<and> s = wheel_slot B (w_clock w) l
         then unat (w_deadline w n - w_clock w) < 2 ^ (l * B)
         else placed B (w_clock w) (w_deadline w n) l s))"

lemma cascadingD:
  assumes "cascading L B k w" and "n \<in> set (w_slots w l s)"
  shows "l < L"
    and "if l \<le> k \<and> 2 ^ (l * B) dvd unat (w_clock w) \<and> s = wheel_slot B (w_clock w) l
         then unat (w_deadline w n - w_clock w) < 2 ^ (l * B)
         else placed B (w_clock w) (w_deadline w n) l s"
  using assms unfolding cascading_def by blast+

lemma wheel_slots_nodes: "set (w_slots w l s) \<subseteq> wheel_nodes w"
  by (auto simp: wheel_nodes_def)

lemma wheel_insert_cascading:
  assumes p: "wheel_params L B" and k: "Suc k < L" "2 ^ (Suc k * B) dvd unat (w_clock w)"
    and mid: "cascading L B k w" and due: "unat (w_deadline w n - w_clock w) < 2 ^ (Suc k * B)"
  shows "cascading L B k (wheel_insert B w n)"
  unfolding cascading_def wheel_insert_mem
proof (intro allI impI)
  fix l s m
  assume m: "m \<in> set (w_slots w l s) \<or>
    m = n \<and> l = wheel_level B (w_deadline w n - w_clock w) \<and> s = wheel_slot B (w_deadline w n) l"
  have B: "0 < B" using p by (simp add: wheel_params_def)
  let ?c = "w_clock w" and ?d = "w_deadline w n"
  show "l < L \<and> (if l \<le> k \<and> 2 ^ (l * B) dvd unat (w_clock (wheel_insert B w n)) \<and>
        s = wheel_slot B (w_clock (wheel_insert B w n)) l
      then unat (w_deadline (wheel_insert B w n) m - w_clock (wheel_insert B w n)) < 2 ^ (l * B)
      else placed B (w_clock (wheel_insert B w n)) (w_deadline (wheel_insert B w n) m) l s)"
  proof (cases "m \<in> set (w_slots w l s)")
    case True
    then show ?thesis using mid by (simp add: cascading_def)
  next
    case False
    with m have mn: "m = n" "l = wheel_level B (?d - ?c)" "s = wheel_slot B ?d l" by auto
    have lk: "l \<le> k" using wheel_level_less [OF B due] mn(2) by simp
    then have lL: "l < L" using k(1) by simp
    have dv: "2 ^ (l * B) dvd unat ?c"
    proof -
      have "(2::nat) ^ (l * B) dvd 2 ^ (Suc k * B)" using lk by (intro le_imp_power_dvd mult_right_mono) simp_all
      then show ?thesis using k(2) by (rule dvd_trans)
    qed
    show ?thesis
    proof (cases "?d = ?c")
      case True
      then show ?thesis using mn lL by simp
    next
      case ne: False
      have fit: "wheel_level B (?d - ?c) * B + B \<le> 64"
        using wheel_params_fit [OF p lL] by (simp add: mn(2))
      show ?thesis using insert_placed [OF B fit ne] dv lL by (simp add: mn)
    qed
  qed
qed

lemma wheel_inserts_cascading:
  assumes "wheel_params L B" "Suc k < L" "2 ^ (Suc k * B) dvd unat (w_clock w)" "cascading L B k w"
    and "\<forall>n \<in> set ns. unat (w_deadline w n - w_clock w) < 2 ^ (Suc k * B)"
  shows "cascading L B k (foldl (wheel_insert B) w ns)"
  using assms by (induction ns arbitrary: w) (simp_all add: wheel_insert_cascading)

lemma wheel_inserts_fields [simp]:
  "w_clock (foldl (wheel_insert B) w ns) = w_clock w" "w_busy (foldl (wheel_insert B) w ns) = w_busy w"
  "w_deadline (foldl (wheel_insert B) w ns) = w_deadline w" "w_ready (foldl (wheel_insert B) w ns) = w_ready w"
  "wheel_nodes (foldl (wheel_insert B) w ns) = wheel_nodes w \<union> set ns"
  by (induction ns arbitrary: w) simp_all

lemma wheel_inserts_distinct:
  "wheel_distinct w \<Longrightarrow> distinct ns \<Longrightarrow> set ns \<inter> wheel_nodes w = {} \<Longrightarrow> set ns \<inter> set (w_ready w) = {} \<Longrightarrow>
   wheel_distinct (foldl (wheel_insert B) w ns)"
  by (induction ns arbitrary: w) (simp_all add: wheel_insert_distinct)

text \<open>Emptying one slot: what remains, and what was taken.\<close>

definition wheel_empty_slot :: "wheel \<Rightarrow> nat \<Rightarrow> nat \<Rightarrow> wheel" where
  "wheel_empty_slot w l s = w\<lparr>w_slots := (w_slots w)(l := (w_slots w l)(s := []))\<rparr>"

lemma wheel_empty_slot_fields [simp]:
  "w_clock (wheel_empty_slot w l s) = w_clock w" "w_busy (wheel_empty_slot w l s) = w_busy w"
  "w_deadline (wheel_empty_slot w l s) = w_deadline w" "w_ready (wheel_empty_slot w l s) = w_ready w"
  by (simp_all add: wheel_empty_slot_def)

lemma wheel_empty_slot_mem:
  "n \<in> set (w_slots (wheel_empty_slot w l s) l' s') \<longleftrightarrow> n \<in> set (w_slots w l' s') \<and> (l', s') \<noteq> (l, s)"
  by (auto simp: wheel_empty_slot_def)

lemma wheel_empty_slot_nodes:
  "wheel_distinct w \<Longrightarrow> wheel_nodes (wheel_empty_slot w l s) = wheel_nodes w - set (w_slots w l s)"
  unfolding wheel_nodes_def wheel_empty_slot_mem wheel_distinct_def by blast

lemma wheel_empty_slot_distinct: "wheel_distinct w \<Longrightarrow> wheel_distinct (wheel_empty_slot w l s)"
proof -
  assume d: "wheel_distinct w"
  have "\<forall>k t. distinct (w_slots (wheel_empty_slot w l s) k t)"
    using d by (auto simp: wheel_empty_slot_def wheel_distinct_def)
  moreover have "set (w_ready w) \<inter> wheel_nodes (wheel_empty_slot w l s) = {}"
    using d wheel_empty_slot_nodes [OF d] by (auto simp: wheel_distinct_def)
  ultimately show ?thesis
    using d unfolding wheel_distinct_def wheel_empty_slot_mem wheel_empty_slot_fields by blast
qed

lemma wheel_respread_alt:
  "wheel_respread B w l = foldl (wheel_insert B) (wheel_empty_slot w l (wheel_slot B (w_clock w) l))
     (w_slots w l (wheel_slot B (w_clock w) l))"
  by (simp add: wheel_respread_def wheel_empty_slot_def Let_def)

lemma wheel_respread_fields [simp]:
  "w_clock (wheel_respread B w l) = w_clock w" "w_busy (wheel_respread B w l) = w_busy w"
  "w_deadline (wheel_respread B w l) = w_deadline w" "w_ready (wheel_respread B w l) = w_ready w"
  by (simp_all add: wheel_respread_alt)

lemma wheel_respread_nodes:
  assumes "wheel_distinct w"
  shows "wheel_nodes (wheel_respread B w l) = wheel_nodes w"
  using assms wheel_slots_nodes by (auto simp: wheel_respread_alt wheel_empty_slot_nodes)

lemma wheel_respread_distinct:
  assumes d: "wheel_distinct w"
  shows "wheel_distinct (wheel_respread B w l)"
proof -
  let ?s = "wheel_slot B (w_clock w) l"
  have "set (w_slots w l ?s) \<subseteq> wheel_nodes w" by (auto simp: wheel_nodes_def)
  then show ?thesis unfolding wheel_respread_alt using d
    by (intro wheel_inserts_distinct wheel_empty_slot_distinct d)
      (auto simp: wheel_empty_slot_nodes wheel_distinct_def)
qed

lemma wheel_respread_cascading:
  assumes p: "wheel_params L B" and k: "Suc k < L" "2 ^ (Suc k * B) dvd unat (w_clock w)"
    and mid: "cascading L B (Suc k) w"
  shows "cascading L B k (wheel_respread B w (Suc k))"
proof -
  let ?s = "wheel_slot B (w_clock w) (Suc k)"
  let ?w = "wheel_empty_slot w (Suc k) ?s"
  have "cascading L B k ?w"
    unfolding cascading_def wheel_empty_slot_mem
  proof (intro allI impI)
    fix l s n
    assume a: "n \<in> set (w_slots w l s) \<and> (l, s) \<noteq> (Suc k, ?s)"
    then have m: "l < L \<and> (if l \<le> Suc k \<and> 2 ^ (l * B) dvd unat (w_clock w) \<and> s = wheel_slot B (w_clock w) l
         then unat (w_deadline w n - w_clock w) < 2 ^ (l * B)
         else placed B (w_clock w) (w_deadline w n) l s)"
      using cascadingD [OF mid] by blast
    have "l \<le> Suc k \<and> s = wheel_slot B (w_clock w) l \<longrightarrow> l \<le> k" using a by (auto simp: le_Suc_eq)
    with m show "l < L \<and> (if l \<le> k \<and> 2 ^ (l * B) dvd unat (w_clock ?w) \<and> s = wheel_slot B (w_clock ?w) l
         then unat (w_deadline ?w n - w_clock ?w) < 2 ^ (l * B)
         else placed B (w_clock ?w) (w_deadline ?w n) l s)"
      by (auto split: if_splits)
  qed
  moreover have "\<forall>n \<in> set (w_slots w (Suc k) ?s). unat (w_deadline w n - w_clock w) < 2 ^ (Suc k * B)"
    using cascadingD(2) [OF mid] k(2) by (metis le_refl)
  ultimately show ?thesis
    unfolding wheel_respread_alt using p k by (intro wheel_inserts_cascading) auto
qed

lemma wheel_cascade_fields [simp]:
  "w_clock (wheel_cascade B w k) = w_clock w" "w_busy (wheel_cascade B w k) = w_busy w"
  "w_deadline (wheel_cascade B w k) = w_deadline w" "w_ready (wheel_cascade B w k) = w_ready w"
  by (induction k arbitrary: w) simp_all

lemma wheel_cascade_nodes:
  "wheel_distinct w \<Longrightarrow>
   wheel_nodes (wheel_cascade B w k) = wheel_nodes w \<and> wheel_distinct (wheel_cascade B w k)"
  by (induction k arbitrary: w) (simp_all add: wheel_respread_nodes wheel_respread_distinct)

lemma wheel_cascade_cascading:
  assumes "wheel_params L B" "k < L" "2 ^ (k * B) dvd unat (w_clock w)" "cascading L B k w"
  shows "cascading L B 0 (wheel_cascade B w k)"
  using assms
proof (induction k arbitrary: w)
  case (Suc k)
  have "(2::nat) ^ (k * B) dvd 2 ^ (Suc k * B)" by (intro le_imp_power_dvd mult_right_mono) simp_all
  then have "2 ^ (k * B) dvd unat (w_clock w)" using Suc.prems(3) by (rule dvd_trans)
  moreover have "cascading L B k (wheel_respread B w (Suc k))"
    using Suc.prems by (intro wheel_respread_cascading) auto
  ultimately show ?case using Suc.prems by (simp add: Suc.IH)
qed simp

text \<open>The clock step itself.\<close>

lemma clock_step_cascading:
  assumes p: "wheel_params L B" and inv: "wheel_placed L B w"
  defines "w1 \<equiv> w\<lparr>w_clock := w_clock w + 1\<rparr>"
  shows "cascading L B (min (L - 1) (countr_zero (w_clock w1) div B)) w1"
  unfolding cascading_def
proof (intro allI impI)
  fix l s n
  assume "n \<in> set (w_slots w1 l s)"
  with inv have lL: "l < L" and pl: "placed B (w_clock w) (w_deadline w n) l s"
    by (auto simp: w1_def wheel_placed_def)
  have fit: "l * B + B \<le> 64" using wheel_params_fit [OF p lL] .
  let ?c = "w_clock w1"
  have c: "?c = w_clock w + 1" "w_deadline w1 n = w_deadline w n" by (simp_all add: w1_def)
  have low: "2 ^ (l * B) dvd unat ?c \<longrightarrow> l \<le> min (L - 1) (countr_zero ?c div B)"
    using countr_zero_dvd [of "l * B" ?c] fit lL p
    by (auto simp: wheel_params_def less_eq_div_iff_mult_less_eq)
  show "l < L \<and> (if l \<le> min (L - 1) (countr_zero ?c div B) \<and> 2 ^ (l * B) dvd unat ?c \<and> s = wheel_slot B ?c l
      then unat (w_deadline w1 n - ?c) < 2 ^ (l * B) else placed B ?c (w_deadline w1 n) l s)"
    using placed_tick [OF pl fit] lL low by (auto simp: c split: if_splits)
qed

lemma wheel_advance_fields [simp]:
  "w_clock (wheel_advance L B w) = w_clock w + 1" "w_busy (wheel_advance L B w) = w_busy w"
  "w_deadline (wheel_advance L B w) = w_deadline w"
  by (simp_all add: wheel_advance_def wheel_collect_def Let_def)

text \<open>One clock step with its cascade: the ready queue receives exactly the hooks whose deadline
  is the new clock value, the others stay and keep their deadlines.\<close>

lemma wheel_advance_spec:
  assumes p: "wheel_params L B" and inv: "wheel_inv L B w" and idle: "w_ready w = []"
  shows "wheel_inv L B (wheel_advance L B w)"
    and "set (w_ready (wheel_advance L B w)) = {n \<in> wheel_nodes w. w_deadline w n = w_clock w + 1}"
    and "wheel_nodes (wheel_advance L B w) = {n \<in> wheel_nodes w. w_deadline w n \<noteq> w_clock w + 1}"
proof -
  define w1 where "w1 = w\<lparr>w_clock := w_clock w + 1\<rparr>"
  define k where "k = min (L - 1) (countr_zero (w_clock w1) div B)"
  define w2 where "w2 = wheel_cascade B w1 k"
  let ?s = "wheel_slot B (w_clock w2) 0"
  have adv: "wheel_advance L B w = wheel_collect B w2"
    by (simp add: wheel_advance_def w1_def w2_def k_def Let_def)
  have B: "0 < B" "0 < L" using p by (auto simp: wheel_params_def)
  have n1: "wheel_nodes w1 = wheel_nodes w" "wheel_distinct w1"
    using inv idle by (simp_all add: w1_def wheel_nodes_def wheel_inv_def wheel_distinct_def)
  have n2: "wheel_nodes w2 = wheel_nodes w" "wheel_distinct w2"
    using wheel_cascade_nodes [OF n1(2), of B k] n1(1) by (simp_all add: w2_def)
  have f2: "w_clock w2 = w_clock w + 1" "w_deadline w2 = w_deadline w" "w_ready w2 = []"
    by (simp_all add: w2_def w1_def idle)
  have "k < L" using B by (auto simp: k_def)
  moreover have "2 ^ (k * B) dvd unat (w_clock w1)"
  proof -
    have "k * B \<le> countr_zero (w_clock w1)"
      using B by (simp add: k_def flip: less_eq_div_iff_mult_less_eq)
    moreover have "k * B \<le> 64" using wheel_params_fit [OF p \<open>k < L\<close>] by simp
    ultimately show ?thesis by (simp add: countr_zero_dvd)
  qed
  moreover have "cascading L B k w1"
    using clock_step_cascading [OF p] inv by (simp add: wheel_inv_def w1_def k_def)
  ultimately have c2: "cascading L B 0 w2"
    unfolding w2_def by (intro wheel_cascade_cascading p)
  have got: "w_deadline w n = w_clock w + 1" if "n \<in> set (w_slots w2 0 ?s)" for n
  proof -
    have "unat (w_deadline w2 n - w_clock w2) < 2 ^ (0 * B)"
      using c2 that unfolding cascading_def by (metis div_by_1 le_refl mult_0 one_dvd power_0)
    then show ?thesis by (simp add: f2 unat_eq_zero)
  qed
  have left: "l < L \<and> placed B (w_clock w2) (w_deadline w n) l s"
    if "n \<in> set (w_slots w2 l s)" "(l, s) \<noteq> (0, ?s)" for n l s
    using c2 that by (auto simp: cascading_def f2 split: if_splits)
  have coll: "wheel_collect B w2 = (wheel_empty_slot w2 0 ?s)\<lparr>w_ready := w_slots w2 0 ?s\<rparr>"
    by (simp add: wheel_collect_def wheel_empty_slot_def Let_def)
  have nodes: "wheel_nodes (wheel_collect B w2) = wheel_nodes w - set (w_slots w2 0 ?s)"
    using wheel_empty_slot_nodes [OF n2(2), of 0 ?s] n2(1) by (simp add: coll wheel_nodes_def)
  have rest: "w_deadline w n \<noteq> w_clock w + 1" if "n \<in> wheel_nodes w - set (w_slots w2 0 ?s)" for n
  proof -
    from that n2(1) have "n \<in> wheel_nodes w2" by simp
    then obtain l s where "n \<in> set (w_slots w2 l s)" by (auto simp: wheel_nodes_def)
    moreover from this have "(l, s) \<noteq> (0, ?s)" using that by auto
    ultimately have "placed B (w_clock w2) (w_deadline w n) l s" using left by blast
    then show ?thesis using placed_ne f2(1) by metis
  qed
  show "set (w_ready (wheel_advance L B w)) = {n \<in> wheel_nodes w. w_deadline w n = w_clock w + 1}"
    using got rest wheel_slots_nodes [of w2 0 ?s] by (auto simp: adv coll n2(1))
  show "wheel_nodes (wheel_advance L B w) = {n \<in> wheel_nodes w. w_deadline w n \<noteq> w_clock w + 1}"
    using nodes got rest by (auto simp: adv)
  have "wheel_distinct (wheel_advance L B w)"
    using wheel_empty_slot_distinct [OF n2(2), of 0 ?s] n2(2) wheel_empty_slot_nodes [OF n2(2), of 0 ?s]
    unfolding adv coll wheel_distinct_def by (auto simp: wheel_nodes_def)
  moreover have "wheel_placed L B (wheel_advance L B w)"
    unfolding wheel_placed_def
  proof (intro allI impI)
    fix l s n assume "n \<in> set (w_slots (wheel_advance L B w) l s)"
    then have "n \<in> set (w_slots w2 l s)" "(l, s) \<noteq> (0, ?s)"
      by (simp_all add: adv coll wheel_empty_slot_mem)
    then have "l < L \<and> placed B (w_clock w2) (w_deadline w n) l s" by (rule left)
    then show "l < L \<and> placed B (w_clock (wheel_advance L B w)) (w_deadline (wheel_advance L B w) n) l s"
      by (simp add: f2)
  qed
  ultimately show "wheel_inv L B (wheel_advance L B w)"
    using got by (simp add: wheel_inv_def adv coll f2)
qed

end
