(* ===== verification/Wheel_Fire.thy ===== *)
theory Wheel_Fire
  imports Wheel_Place
begin

text \<open>
  When the timing wheel fires its hooks: the effect of the callbacks of one tick, the contract
  of a timer queue as a locale, its consequences over runs of ticks, and the proof that the
  wheel meets the contract for all template parameters the source admits.
\<close>

subsection \<open>Running the callbacks\<close>

text \<open>The deadline of a hook that is held in a slot, and the effect of one callback's requests on
  the hook it was called for.\<close>

definition wheel_due :: "wheel \<Rightarrow> node \<Rightarrow> u64 option" where
  "wheel_due w n = (if n \<in> wheel_nodes w then Some (w_deadline w n) else None)"

fun request_due :: "u64 \<Rightarrow> u64 \<Rightarrow> node \<Rightarrow> u64 option \<Rightarrow> request \<Rightarrow> u64 option" where
  "request_due reach now n old (Schedule m d) = (if m = n \<and> d \<le> reach then Some (now + max d 1) else old)"
| "request_due reach now n old (Cancel m) = (if m = n then None else old)"

definition requests_due :: "u64 \<Rightarrow> u64 \<Rightarrow> node \<Rightarrow> u64 option \<Rightarrow> request list \<Rightarrow> u64 option" where
  "requests_due reach now n old rs = foldl (request_due reach now n) old rs"

fun touches :: "request \<Rightarrow> node" where
  "touches (Schedule n d) = n"
| "touches (Cancel n) = n"

text \<open>A callback leaves \<open>n\<close> to itself when only the call made for \<open>n\<close> may schedule or cancel \<open>n\<close>.\<close>

definition leaves_alone :: "'u callback \<Rightarrow> node \<Rightarrow> bool" where
  "leaves_alone fire n \<longleftrightarrow> (\<forall>u c m. m \<noteq> n \<longrightarrow> n \<notin> touches ` set (fst (snd (fire u c m))))"

definition never_throws :: "'u callback \<Rightarrow> bool" where
  "never_throws fire \<longleftrightarrow> (\<forall>u c m. \<not> snd (snd (fire u c m)))"

lemma wheel_schedule_fields [simp]:
  "w_clock (snd (wheel_schedule L B w n d)) = w_clock w" "w_busy (snd (wheel_schedule L B w n d)) = w_busy w"
  by (simp_all add: wheel_schedule_def Let_def)

lemma wheel_schedule_ready:
  "w_ready (snd (wheel_schedule L B w n d)) = (if wheel_limit L B < d then w_ready w else removeAll n (w_ready w))"
  by (simp add: wheel_schedule_def Let_def)

lemma wheel_schedule_due:
  "wheel_due (snd (wheel_schedule L B w n d)) m =
     (if m = n \<and> d \<le> wheel_limit L B then Some (w_clock w + max d 1) else wheel_due w m)"
proof -
  have "wheel_nodes (w\<lparr>w_deadline := f\<rparr>) = wheel_nodes w" for w f by (simp add: wheel_nodes_def)
  then show ?thesis by (auto simp: wheel_schedule_def wheel_due_def Let_def)
qed

lemma wheel_cancel_due: "wheel_due (wheel_cancel w n) m = (if m = n then None else wheel_due w m)"
  by (simp add: wheel_due_def)

lemma wheel_requests_fields [simp]:
  "w_clock (wheel_requests L B w rs) = w_clock w" "w_busy (wheel_requests L B w rs) = w_busy w"
proof -
  have "w_clock (wheel_request L B w r) = w_clock w \<and> w_busy (wheel_request L B w r) = w_busy w" for w r
    by (cases r) simp_all
  then show "w_clock (wheel_requests L B w rs) = w_clock w" "w_busy (wheel_requests L B w rs) = w_busy w"
    unfolding wheel_requests_def by (induction rs arbitrary: w) simp_all
qed

lemma wheel_requests_due:
  "wheel_due (wheel_requests L B w rs) n = requests_due (wheel_limit L B) (w_clock w) n (wheel_due w n) rs"
proof -
  have step: "wheel_due (wheel_request L B w r) n = request_due (wheel_limit L B) (w_clock w) n (wheel_due w n) r"
    and clock: "w_clock (wheel_request L B w r) = w_clock w" for w r
    by (cases r; auto simp: wheel_schedule_due wheel_cancel_due)+
  show ?thesis unfolding wheel_requests_def requests_due_def
    by (induction rs arbitrary: w) (simp_all add: step clock)
qed

lemma wheel_requests_ready:
  "n \<notin> touches ` set rs \<Longrightarrow> n \<in> set (w_ready (wheel_requests L B w rs)) \<longleftrightarrow> n \<in> set (w_ready w)"
  unfolding wheel_requests_def
proof (induction rs arbitrary: w)
  case (Cons r rs)
  have "n \<in> set (w_ready (wheel_request L B w r)) \<longleftrightarrow> n \<in> set (w_ready w)"
    using Cons.prems by (cases r) (auto simp: wheel_schedule_ready)
  then show ?case using Cons by simp
qed simp

lemma wheel_requests_ready_subset: "set (w_ready (wheel_requests L B w rs)) \<subseteq> set (w_ready w)"
  unfolding wheel_requests_def
proof (induction rs arbitrary: w)
  case (Cons r rs)
  have "set (w_ready (wheel_request L B w r)) \<subseteq> set (w_ready w)"
    by (cases r) (auto simp: wheel_schedule_ready)
  then show ?case using Cons [of "wheel_request L B w r"] by auto
qed simp

lemma requests_due_untouched: "n \<notin> touches ` set rs \<Longrightarrow> requests_due reach now n old rs = old"
  unfolding requests_due_def
proof (induction rs)
  case (Cons r rs)
  then show ?case by (cases r) auto
qed simp

lemma wheel_pop_inv: "wheel_inv L B w \<Longrightarrow> w_ready w = n # ns \<Longrightarrow> wheel_inv L B (w\<lparr>w_ready := ns\<rparr>)"
  by (auto simp: wheel_inv_def wheel_placed_def wheel_distinct_def wheel_nodes_def)

lemma wheel_drain_Nil [simp]: "w_ready w = [] \<Longrightarrow> wheel_drain L B fire u w = (u, w, False, [])"
  by (simp add: wheel_drain.simps)

lemma wheel_drain_Cons:
  assumes "w_ready w = n # ns" and "fire u (w_clock w) n = (v, rs, t)"
    and "wheel_drain L B fire v (wheel_requests L B (w\<lparr>w_ready := ns\<rparr>) rs) = (u', w', threw, log)"
  shows "wheel_drain L B fire u w =
    (if t then (v, wheel_requests L B (w\<lparr>w_ready := ns\<rparr>) rs, True, [n]) else (u', w', threw, n # log))"
  using assms by (simp add: wheel_drain.simps [of L B fire u w])

lemma wheel_drain_induct [case_names Nil Cons]:
  assumes nil: "\<And>u w. w_ready w = [] \<Longrightarrow> P u w"
    and cons: "\<And>u w n ns v rs t. w_ready w = n # ns \<Longrightarrow> fire u (w_clock w) n = (v, rs, t) \<Longrightarrow>
      P v (wheel_requests L B (w\<lparr>w_ready := ns\<rparr>) rs) \<Longrightarrow> P u w"
  shows "P u w"
proof (induction "length (w_ready w)" arbitrary: u w rule: less_induct)
  case less
  show ?case
  proof (cases "w_ready w")
    case Nil
    then show ?thesis by (rule nil)
  next
    case (Cons n ns)
    obtain v rs t where f: "fire u (w_clock w) n = (v, rs, t)" by (cases "fire u (w_clock w) n") auto
    have "P v (wheel_requests L B (w\<lparr>w_ready := ns\<rparr>) rs)"
      by (rule less.hyps) (simp add: Cons wheel_requests_pops_less)
    then show ?thesis by (rule cons [OF Cons f])
  qed
qed

text \<open>Draining keeps the invariant and the clock, whatever the callbacks do.\<close>

lemma wheel_drain_inv:
  assumes p: "wheel_params L B" and "wheel_inv L B w" and "wheel_drain L B fire u w = (u', w', threw, log)"
  shows "wheel_inv L B w' \<and> w_clock w' = w_clock w \<and> w_busy w' = w_busy w \<and> (threw \<or> w_ready w' = [])"
  using assms(2,3)
proof (induction u w arbitrary: u' w' threw log rule: wheel_drain_induct [where fire = fire and L = L and B = B])
  case (Cons u w n ns v rs t)
  let ?w2 = "wheel_requests L B (w\<lparr>w_ready := ns\<rparr>) rs"
  have inv2: "wheel_inv L B ?w2"
    using Cons.prems(1) Cons.hyps(1) p by (intro wheel_requests_inv wheel_pop_inv)
  obtain u3 w3 t3 log3 where d: "wheel_drain L B fire v ?w2 = (u3, w3, t3, log3)"
    by (cases "wheel_drain L B fire v ?w2") auto
  show ?case
    using Cons.IH [OF inv2 d] Cons.prems(2) inv2 wheel_drain_Cons [OF Cons.hyps d]
    by (auto split: if_splits)
qed simp

text \<open>What draining means for one hook that the other callbacks leave alone: it fires if it was
  ready and no earlier callback threw; otherwise nothing about it changes.\<close>

definition fired_effect :: "nat \<Rightarrow> nat \<Rightarrow> 'u callback \<Rightarrow> u64 \<Rightarrow> wheel \<Rightarrow> node \<Rightarrow> bool" where
  "fired_effect L B fire now w' n \<longleftrightarrow>
     (\<exists>v. wheel_due w' n = requests_due (wheel_limit L B) now n None (fst (snd (fire v now n))))"

lemma wheel_drain_node:
  assumes p: "wheel_params L B" and "wheel_inv L B w" and alone: "leaves_alone fire n"
    and "wheel_drain L B fire u w = (u', w', threw, log)"
  shows "if n \<in> set log then n \<in> set (w_ready w) \<and> n \<notin> set (w_ready w') \<and> fired_effect L B fire (w_clock w) w' n
         else wheel_due w' n = wheel_due w n \<and> (n \<in> set (w_ready w') \<longleftrightarrow> n \<in> set (w_ready w))"
  using assms(2,4)
proof (induction u w arbitrary: u' w' threw log rule: wheel_drain_induct [where fire = fire and L = L and B = B])
  case (Cons u w m ms v rs t)
  let ?w1 = "w\<lparr>w_ready := ms\<rparr>"
  let ?w2 = "wheel_requests L B ?w1 rs"
  have inv2: "wheel_inv L B ?w2"
    using Cons.prems(1) Cons.hyps(1) p by (intro wheel_requests_inv wheel_pop_inv)
  have due1: "wheel_due ?w1 k = wheel_due w k" for k by (simp add: wheel_due_def wheel_nodes_def)
  have due2: "wheel_due ?w2 n = requests_due (wheel_limit L B) (w_clock w) n (wheel_due w n) rs"
    by (simp add: wheel_requests_due due1)
  have mine: "wheel_due w m = None" "m \<notin> set ms"
    using Cons.prems(1) Cons.hyps(1) by (auto simp: wheel_inv_def wheel_distinct_def wheel_due_def)
  have step: "if n = m then n \<notin> set (w_ready ?w2) \<and> fired_effect L B fire (w_clock w) ?w2 n
      else wheel_due ?w2 n = wheel_due w n \<and> (n \<in> set (w_ready ?w2) \<longleftrightarrow> n \<in> set (w_ready w))"
  proof (cases "n = m")
    case True
    have "n \<notin> set (w_ready ?w2)" using wheel_requests_ready_subset [of L B ?w1 rs] mine True by auto
    then show ?thesis using due2 mine Cons.hyps(2) True
      by (auto simp: fired_effect_def intro!: exI [of _ u])
  next
    case False
    then have "n \<notin> touches ` set rs"
      using alone Cons.hyps(2) unfolding leaves_alone_def by (metis fst_conv snd_conv)
    then show ?thesis using due2 Cons.hyps(1) False by (simp add: requests_due_untouched wheel_requests_ready)
  qed
  obtain u3 w3 t3 log3 where d: "wheel_drain L B fire v ?w2 = (u3, w3, t3, log3)"
    by (cases "wheel_drain L B fire v ?w2") auto
  note IH = Cons.IH [OF inv2 d]
  show ?case
  proof (cases t)
    case True
    then have "w' = ?w2" "log = [m]" using Cons.prems(2) wheel_drain_Cons [OF Cons.hyps d] by simp_all
    then show ?thesis using step Cons.hyps(1) by (auto split: if_splits)
  next
    case False
    then have res: "w' = w3" "log = m # log3" using Cons.prems(2) wheel_drain_Cons [OF Cons.hyps d] by simp_all
    show ?thesis using step IH Cons.hyps(1) unfolding res
      by (auto simp: fired_effect_def split: if_splits)
  qed
qed simp

lemma wheel_drain_threw: "never_throws fire \<Longrightarrow> wheel_drain L B fire u w = (u', w', threw, log) \<Longrightarrow> \<not> threw"
proof (induction u w arbitrary: u' w' threw log rule: wheel_drain_induct [where fire = fire and L = L and B = B])
  case (Cons u w n ns v rs t)
  let ?w2 = "wheel_requests L B (w\<lparr>w_ready := ns\<rparr>) rs"
  have "\<not> t" using Cons.prems(1) Cons.hyps(2) unfolding never_throws_def by (metis snd_conv)
  obtain u3 w3 t3 log3 where d: "wheel_drain L B fire v ?w2 = (u3, w3, t3, log3)"
    by (cases "wheel_drain L B fire v ?w2") auto
  show ?case
    using Cons.IH [OF Cons.prems(1) d] Cons.prems(2) \<open>\<not> t\<close> wheel_drain_Cons [OF Cons.hyps d] by simp
qed simp

subsection \<open>A whole tick\<close>

lemma wheel_tick_quiet:
  "never_throws fire \<Longrightarrow> wheel_tick L B fire u w = (out, u', w', log) \<Longrightarrow> out \<noteq> Threw"
  by (auto simp: wheel_tick_def split: if_splits prod.splits dest: wheel_drain_threw)

definition wheel_ok :: "nat \<Rightarrow> nat \<Rightarrow> wheel \<Rightarrow> bool" where
  "wheel_ok L B w \<longleftrightarrow> wheel_inv L B w \<and> \<not> w_busy w"

lemma busy_inv [simp]: "wheel_inv L B (w\<lparr>w_busy := b\<rparr>) = wheel_inv L B w"
  by (simp add: wheel_inv_def wheel_placed_def wheel_distinct_def wheel_nodes_def)

lemma busy_due [simp]: "wheel_due (w\<lparr>w_busy := b\<rparr>) = wheel_due w"
  by (simp add: wheel_due_def wheel_nodes_def fun_eq_iff)

lemma wheel_tick_inv [keeps]:
  assumes p: "wheel_params L B" and ok: "wheel_ok L B w" and t: "wheel_tick L B fire u w = (out, u', w', log)"
  shows "wheel_ok L B w' \<and> out \<noteq> Reentered \<and>
    (out = Ticked \<longrightarrow> w_clock w' = w_clock w + 1 \<and> w_ready w' = [])"
proof -
  have nb: "\<not> w_busy w" and inv: "wheel_inv L B (w\<lparr>w_busy := True\<rparr>)" using ok by (simp_all add: wheel_ok_def)
  obtain u1 w1 t1 log1 where d1: "wheel_drain L B fire u (w\<lparr>w_busy := True\<rparr>) = (u1, w1, t1, log1)"
    by (cases "wheel_drain L B fire u (w\<lparr>w_busy := True\<rparr>)") auto
  obtain u2 w2 t2 log2 where d2: "wheel_drain L B fire u1 (wheel_advance L B w1) = (u2, w2, t2, log2)"
    by (cases "wheel_drain L B fire u1 (wheel_advance L B w1)") auto
  note i1 = wheel_drain_inv [OF p inv d1]
  show ?thesis
  proof (cases t1)
    case True
    then show ?thesis using t nb d1 i1 by (auto simp: wheel_tick_def wheel_ok_def)
  next
    case False
    then have "wheel_inv L B (wheel_advance L B w1)" using i1 by (intro wheel_advance_spec(1) p) auto
    note i2 = wheel_drain_inv [OF p this d2]
    show ?thesis using t nb d1 d2 i1 i2 False by (auto simp: wheel_tick_def wheel_ok_def split: if_splits)
  qed
qed

text \<open>One hook over one tick, when nothing was left over and no callback throws.\<close>

lemma wheel_tick_node:
  assumes p: "wheel_params L B" and ok: "wheel_ok L B w" "w_ready w = []"
    and alone: "leaves_alone fire n" and quiet: "never_throws fire"
    and t: "wheel_tick L B fire u w = (out, u', w', log)"
  shows "out = Ticked"
    and "n \<in> set log \<longleftrightarrow> wheel_due w n = Some (w_clock w + 1)"
    and "n \<notin> set log \<Longrightarrow> wheel_due w' n = wheel_due w n"
    and "n \<in> set log \<Longrightarrow> fired_effect L B fire (w_clock w + 1) w' n"
proof -
  let ?w = "w\<lparr>w_busy := True\<rparr>"
  have nb: "\<not> w_busy w" and inv: "wheel_inv L B ?w" "w_ready ?w = []" using ok by (simp_all add: wheel_ok_def)
  obtain u2 w2 t2 log2 where d2: "wheel_drain L B fire u (wheel_advance L B ?w) = (u2, w2, t2, log2)"
    by (cases "wheel_drain L B fire u (wheel_advance L B ?w)") auto
  have q: "\<not> t2" using wheel_drain_threw [OF quiet d2] .
  have res: "out = Ticked" "w' = w2\<lparr>w_busy := False\<rparr>" "log = log2"
    using t nb d2 q ok(2) by (simp_all add: wheel_tick_def)
  note adv = wheel_advance_spec [OF p inv]
  note nd = wheel_drain_node [OF p adv(1) alone d2]
  have empty: "w_ready w2 = []" using wheel_drain_inv [OF p adv(1) d2] q by simp
  have nodes: "wheel_nodes ?w = wheel_nodes w" by (simp add: wheel_nodes_def)
  have rdy: "n \<in> set (w_ready (wheel_advance L B ?w)) \<longleftrightarrow> wheel_due w n = Some (w_clock w + 1)"
    using adv(2) by (auto simp: nodes wheel_due_def)
  show "out = Ticked" by (rule res)
  show mem: "n \<in> set log \<longleftrightarrow> wheel_due w n = Some (w_clock w + 1)"
    using nd rdy empty by (auto simp: res split: if_splits)
  show "wheel_due w' n = wheel_due w n" if "n \<notin> set log"
  proof -
    have "wheel_due (wheel_advance L B ?w) n = wheel_due w n"
    proof -
      have "wheel_due w n \<noteq> Some (w_clock w + 1)" using that mem by simp
      moreover have "n \<in> wheel_nodes (wheel_advance L B ?w) \<longleftrightarrow> n \<in> wheel_nodes w \<and> w_deadline w n \<noteq> w_clock w + 1"
        unfolding adv(3) nodes by simp
      ultimately show ?thesis by (auto simp: wheel_due_def split: if_splits)
    qed
    then show ?thesis using nd that by (simp add: res)
  qed
  show "fired_effect L B fire (w_clock w + 1) w' n" if "n \<in> set log"
    using nd that by (simp add: res fired_effect_def)
qed

text \<open>No hook is lost, whatever throws: one that did not fire is still held.\<close>

definition wheel_held :: "wheel \<Rightarrow> node \<Rightarrow> bool" where
  "wheel_held w n \<longleftrightarrow> n \<in> wheel_nodes w \<or> n \<in> set (w_ready w)"

lemma wheel_held_due: "wheel_held w n \<longleftrightarrow> wheel_due w n \<noteq> None \<or> n \<in> set (w_ready w)"
  by (simp add: wheel_held_def wheel_due_def)

lemma wheel_drain_held:
  assumes "wheel_params L B" "wheel_inv L B w" "leaves_alone fire n"
    and "wheel_drain L B fire u w = (u', w', threw, log)" "wheel_held w n"
  shows "n \<in> set log \<or> wheel_held w' n"
  using wheel_drain_node [OF assms(1-4)] assms(5) by (auto simp: wheel_held_due split: if_splits)

lemma wheel_tick_held:
  assumes p: "wheel_params L B" and ok: "wheel_ok L B w" and alone: "leaves_alone fire n"
    and t: "wheel_tick L B fire u w = (out, u', w', log)" and h: "wheel_held w n"
  shows "n \<in> set log \<or> wheel_held w' n"
proof -
  let ?w = "w\<lparr>w_busy := True\<rparr>"
  have busy: "wheel_held (v\<lparr>w_busy := b\<rparr>) n = wheel_held v n" for v b by (simp add: wheel_held_due)
  have nb: "\<not> w_busy w" and inv: "wheel_inv L B ?w" using ok by (simp_all add: wheel_ok_def)
  obtain u1 w1 t1 log1 where d1: "wheel_drain L B fire u ?w = (u1, w1, t1, log1)"
    by (cases "wheel_drain L B fire u ?w") auto
  obtain u2 w2 t2 log2 where d2: "wheel_drain L B fire u1 (wheel_advance L B w1) = (u2, w2, t2, log2)"
    by (cases "wheel_drain L B fire u1 (wheel_advance L B w1)") auto
  note i1 = wheel_drain_inv [OF p inv d1]
  have h1: "n \<in> set log1 \<or> wheel_held w1 n" using wheel_drain_held [OF p inv alone d1] h by (simp add: busy)
  show ?thesis
  proof (cases t1)
    case True
    then show ?thesis using t nb d1 h1 by (auto simp: wheel_tick_def busy)
  next
    case False
    with i1 have iw: "wheel_inv L B w1" "w_ready w1 = []" by auto
    note adv = wheel_advance_spec [OF p iw]
    have "wheel_held (wheel_advance L B w1) n" if "wheel_held w1 n"
      using that iw(2) adv(2,3) by (auto simp: wheel_held_def)
    then have "n \<in> set (log1 @ log2) \<or> wheel_held w2 n"
      using h1 wheel_drain_held [OF p adv(1) alone d2] by auto
    then show ?thesis using t nb d1 d2 False by (auto simp: wheel_tick_def busy split: if_splits)
  qed
qed

subsection \<open>The contract a client relies on\<close>

text \<open>The flat specification: a clock and a table of deadlines.  Advancing the clock takes out the
  hooks due at the new time.\<close>

record table =
  t_clock :: u64
  t_due :: "node \<Rightarrow> u64 option"

definition table_schedule :: "u64 \<Rightarrow> table \<Rightarrow> node \<Rightarrow> u64 \<Rightarrow> bool \<times> table" where
  "table_schedule reach t n delay =
     (if delay \<le> reach then (True, t\<lparr>t_due := (t_due t)(n := Some (t_clock t + max delay 1))\<rparr>) else (False, t))"

definition table_cancel :: "table \<Rightarrow> node \<Rightarrow> table" where
  "table_cancel t n = t\<lparr>t_due := (t_due t)(n := None)\<rparr>"

definition table_advance :: "table \<Rightarrow> node set \<times> table" where
  "table_advance t =
     ({n. t_due t n = Some (t_clock t + 1)},
      \<lparr>t_clock = t_clock t + 1, t_due = (\<lambda>n. if t_due t n = Some (t_clock t + 1) then None else t_due t n)\<rparr>)"

definition wheel_table :: "wheel \<Rightarrow> table" where
  "wheel_table w = \<lparr>t_clock = w_clock w, t_due = wheel_due w\<rparr>"

lemma wheel_table_schedule:
  "map_prod id wheel_table (wheel_schedule L B w n d) = table_schedule (wheel_limit L B) (wheel_table w) n d"
proof -
  have "fst (wheel_schedule L B w n d) = (d \<le> wheel_limit L B)"
    by (auto simp: wheel_schedule_def Let_def)
  moreover have "wheel_table (snd (wheel_schedule L B w n d)) = snd (table_schedule (wheel_limit L B) (wheel_table w) n d)"
    by (auto simp: wheel_table_def table_schedule_def wheel_schedule_due fun_eq_iff)
  ultimately show ?thesis
    by (cases "wheel_schedule L B w n d") (auto simp: table_schedule_def)
qed

lemma wheel_table_cancel: "wheel_table (wheel_cancel w n) = table_cancel (wheel_table w) n"
  by (auto simp: wheel_table_def table_cancel_def wheel_cancel_due fun_eq_iff)

lemma wheel_table_advance:
  assumes "wheel_params L B" "wheel_inv L B w" "w_ready w = []"
  shows "(set (w_ready (wheel_advance L B w)), wheel_table (wheel_advance L B w)) = table_advance (wheel_table w)"
  using wheel_advance_spec [OF assms]
  by (auto simp: wheel_table_def table_advance_def wheel_due_def fun_eq_iff)

text \<open>A run of whole ticks, with the hooks fired in each.\<close>

fun ticks :: "('u \<Rightarrow> 's \<Rightarrow> outcome \<times> 'u \<times> 's \<times> node list) \<Rightarrow> nat \<Rightarrow> 'u \<Rightarrow> 's \<Rightarrow> 'u \<times> 's \<times> node list list" where
  "ticks step 0 u s = (u, s, [])"
| "ticks step (Suc k) u s =
     (let (out, u1, s1, log) = step u s; (u2, s2, logs) = ticks step k u1 s1 in (u2, s2, log # logs))"

text \<open>What a timer queue promises: whatever it keeps, each hook has at most one deadline, a
  schedule within reach sets it to now plus the delay (at least one tick), and a tick fires a
  hook exactly when its deadline is the new time.\<close>

locale timer_queue =
  fixes ok :: "'s \<Rightarrow> bool"
    and now :: "'s \<Rightarrow> u64"
    and due :: "'s \<Rightarrow> node \<Rightarrow> u64 option"
    and reach :: u64
    and sched :: "'s \<Rightarrow> node \<Rightarrow> u64 \<Rightarrow> bool \<times> 's"
    and cancel :: "'s \<Rightarrow> node \<Rightarrow> 's"
    and tick :: "'u callback \<Rightarrow> 'u \<Rightarrow> 's \<Rightarrow> outcome \<times> 'u \<times> 's \<times> node list"
  assumes sched_ok: "ok s \<Longrightarrow> ok (snd (sched s n d))"
    and sched_now: "now (snd (sched s n d)) = now s"
    and sched_due: "due (snd (sched s n d)) m = (if m = n \<and> d \<le> reach then Some (now s + max d 1) else due s m)"
    and cancel_ok: "ok s \<Longrightarrow> ok (cancel s n)"
    and cancel_now: "now (cancel s n) = now s"
    and cancel_due: "due (cancel s n) m = (if m = n then None else due s m)"
    and tick_ok: "ok s \<Longrightarrow> never_throws fire \<Longrightarrow> tick fire u s = (out, u', s', log) \<Longrightarrow>
      ok s' \<and> now s' = now s + 1 \<and> out = Ticked"
    and tick_fires: "ok s \<Longrightarrow> never_throws fire \<Longrightarrow> leaves_alone fire n \<Longrightarrow>
      tick fire u s = (out, u', s', log) \<Longrightarrow> n \<in> set log \<longleftrightarrow> due s n = Some (now s + 1)"
    and tick_keeps: "ok s \<Longrightarrow> never_throws fire \<Longrightarrow> leaves_alone fire n \<Longrightarrow>
      tick fire u s = (out, u', s', log) \<Longrightarrow> n \<notin> set log \<Longrightarrow> due s' n = due s n"
begin

lemma ticks_ok:
  "ok s \<Longrightarrow> never_throws fire \<Longrightarrow> ticks (tick fire) k u s = (u', s', logs) \<Longrightarrow>
   ok s' \<and> now s' = now s + of_nat k \<and> length logs = k"
proof (induction k arbitrary: u s u' s' logs)
  case (Suc k)
  obtain out u1 s1 log where t: "tick fire u s = (out, u1, s1, log)" by (cases "tick fire u s") auto
  obtain u2 s2 ls where r: "ticks (tick fire) k u1 s1 = (u2, s2, ls)" by (cases "ticks (tick fire) k u1 s1") auto
  note one = tick_ok [OF Suc.prems(1,2) t]
  show ?case using Suc.IH [OF _ Suc.prems(2) r] one Suc.prems(3) t r by (auto simp: algebra_simps)
qed simp

lemma fires_on_time:
  assumes "ok s" "never_throws fire" "leaves_alone fire n" "due s n = Some (now s + of_nat k)" "0 < k" "k < 2 ^ 64"
    and "ticks (tick fire) k u s = (u', s', logs)" "i < k"
  shows "n \<in> set (logs ! i) \<longleftrightarrow> Suc i = k"
  using assms
proof (induction k arbitrary: u s u' s' logs i)
  case (Suc k)
  obtain out u1 s1 log where t: "tick fire u s = (out, u1, s1, log)" by (cases "tick fire u s") auto
  obtain u2 s2 ls where r: "ticks (tick fire) k u1 s1 = (u2, s2, ls)" by (cases "ticks (tick fire) k u1 s1") auto
  have logs: "logs = log # ls" using Suc.prems(7) t r by simp
  note one = tick_ok [OF Suc.prems(1,2) t]
  have k0: "(of_nat k :: u64) = 0 \<longleftrightarrow> k = 0"
    using Suc.prems(6) by (auto simp: word_of_nat_eq_0_iff dest: dvd_imp_le)
  have first: "n \<in> set log \<longleftrightarrow> k = 0"
    using tick_fires [OF Suc.prems(1,2,3) t] Suc.prems(4) k0 by (simp add: add.left_commute)
  show ?case
  proof (cases i)
    case 0
    then show ?thesis using first logs by simp
  next
    case (Suc j)
    then have "0 < k" using Suc.prems(8) by simp
    then have "due s1 n = Some (now s1 + of_nat k)"
      using tick_keeps [OF Suc.prems(1,2,3) t] first one Suc.prems(4) by (simp add: algebra_simps)
    then have "n \<in> set (ls ! j) \<longleftrightarrow> Suc j = k"
      using one Suc.prems(2,3,6,8) \<open>0 < k\<close> r Suc by (intro Suc.IH [of s1 u1 u2 s2]) auto
    then show ?thesis using logs Suc by simp
  qed
qed simp

lemma scheduled_fires_on_time:
  assumes "ok s" "never_throws fire" "leaves_alone fire n" "d \<le> reach"
    and "ticks (tick fire) (unat (max d 1)) u (snd (sched s n d)) = (u', s', logs)" "i < unat (max d 1)"
  shows "n \<in> set (logs ! i) \<longleftrightarrow> Suc i = unat (max d 1)"
proof (rule fires_on_time [OF sched_ok [OF assms(1)] assms(2,3) _ _ _ assms(5,6)])
  show "due (snd (sched s n d)) n = Some (now (snd (sched s n d)) + of_nat (unat (max d 1)))"
    using assms(4) by (simp add: sched_due sched_now)
  show "0 < unat (max d 1)" by (metis assms(6) gr_implies_not0 gr0I)
  show "unat (max d 1) < 2 ^ 64" by (rule unat_less64)
qed

lemma cancelled_never_fires:
  assumes "ok s" "never_throws fire" "leaves_alone fire n" "due s n = None"
    and "ticks (tick fire) k u s = (u', s', logs)"
  shows "n \<notin> set (concat logs)"
  using assms
proof (induction k arbitrary: u s u' s' logs)
  case (Suc k)
  obtain out u1 s1 log where t: "tick fire u s = (out, u1, s1, log)" by (cases "tick fire u s") auto
  obtain u2 s2 ls where r: "ticks (tick fire) k u1 s1 = (u2, s2, ls)" by (cases "ticks (tick fire) k u1 s1") auto
  have "n \<notin> set log" using tick_fires [OF Suc.prems(1,2,3) t] Suc.prems(4) by simp
  moreover from this have "due s1 n = None" using tick_keeps [OF Suc.prems(1,2,3) t] Suc.prems(4) by simp
  then have "n \<notin> set (concat ls)"
    using Suc.IH [OF _ Suc.prems(2,3) _ r] tick_ok [OF Suc.prems(1,2) t] by blast
  ultimately show ?case using Suc.prems(5) t r by auto
qed simp

end

definition wheel_idle :: "nat \<Rightarrow> nat \<Rightarrow> wheel \<Rightarrow> bool" where
  "wheel_idle L B w \<longleftrightarrow> wheel_ok L B w \<and> w_ready w = []"

lemma wheel_timer_queue:
  assumes p: "wheel_params L B"
  shows "timer_queue (wheel_idle L B) w_clock wheel_due (wheel_limit L B) (wheel_schedule L B) wheel_cancel
    (wheel_tick L B :: 'u callback \<Rightarrow> _)"
proof
  fix s n m d
  show "wheel_idle L B s \<Longrightarrow> wheel_idle L B (snd (wheel_schedule L B s n d))"
    using p by (simp add: wheel_idle_def wheel_ok_def wheel_schedule_inv wheel_schedule_ready)
  show "wheel_idle L B s \<Longrightarrow> wheel_idle L B (wheel_cancel s n)"
    by (auto simp: wheel_idle_def wheel_ok_def wheel_cancel_inv)
  show "w_clock (wheel_cancel s n) = w_clock s" by (simp add: wheel_cancel_def)
  show "wheel_due (wheel_cancel s n) m = (if m = n then None else wheel_due s m)" by (rule wheel_cancel_due)
next
  fix s and fire :: "'u callback" and u out u' s' log
  assume ok: "wheel_idle L B s" and q: "never_throws fire" and t: "wheel_tick L B fire u s = (out, u', s', log)"
  then have ok': "wheel_ok L B s" "w_ready s = []" by (simp_all add: wheel_idle_def)
  have "out = Ticked" using ok' t wheel_tick_quiet [OF q t] wheel_tick_inv [OF p ok'(1) t] by (cases out) auto
  then show "wheel_idle L B s' \<and> w_clock s' = w_clock s + 1 \<and> out = Ticked"
    using wheel_tick_inv [OF p ok'(1) t] by (simp add: wheel_idle_def)
  show "n \<in> set log \<longleftrightarrow> wheel_due s n = Some (w_clock s + 1)" if "leaves_alone fire n" for n
    using wheel_tick_node(2) [OF p ok' that q t] .
  show "wheel_due s' n = wheel_due s n" if "leaves_alone fire n" "n \<notin> set log" for n
    using wheel_tick_node(3) [OF p ok' that(1) q t that(2)] .
qed (simp_all add: wheel_schedule_due)

lemma wheel_new_idle: "wheel_idle L B (wheel_new c)"
  by (simp add: wheel_idle_def wheel_ok_def wheel_inv_def wheel_placed_def wheel_distinct_def wheel_nodes_def
      wheel_new_def)

interpretation store_wheel: timer_queue "wheel_idle 4 10" w_clock wheel_due "wheel_limit 4 10"
  "wheel_schedule 4 10" wheel_cancel "wheel_tick 4 10"
  by (rule wheel_timer_queue) (simp add: wheel_params_def)

interpretation agenda_wheel: timer_queue "wheel_idle 4 8" w_clock wheel_due "wheel_limit 4 8"
  "wheel_schedule 4 8" wheel_cancel "wheel_tick 4 8"
  by (rule wheel_timer_queue) (simp add: wheel_params_def)

subsection \<open>Properties\<close>

definition quiet_fire :: "unit callback" where
  "quiet_fire u c n = (u, [], False)"

lemma quiet_fire_ok [simp]: "never_throws quiet_fire" "leaves_alone quiet_fire n"
  by (simp_all add: never_throws_def leaves_alone_def quiet_fire_def)

text \<open>C9: for every admissible number of levels and bits, and from every clock value (so also across
  the 64-bit wrap), a hook scheduled with a delay within the limit fires in the tick whose
  number is the delay (a zero delay counts as one) and in no tick before it, as long as no
  callback throws and the other callbacks leave this hook alone.\<close>

theorem wheel_fires_on_time:
  assumes "wheel_params L B" "wheel_idle L B w" "never_throws fire" "leaves_alone fire n"
    and "d \<le> wheel_limit L B" "i < unat (max d 1)"
  shows "n \<in> set (snd (snd (ticks (wheel_tick L B fire) (unat (max d 1)) u (snd (wheel_schedule L B w n d)))) ! i)
    \<longleftrightarrow> Suc i = unat (max d 1)"
proof -
  obtain u' s' logs
    where "ticks (wheel_tick L B fire) (unat (max d 1)) u (snd (wheel_schedule L B w n d)) = (u', s', logs)"
    by (cases "ticks (wheel_tick L B fire) (unat (max d 1)) u (snd (wheel_schedule L B w n d))") auto
  note timer_queue.scheduled_fires_on_time [OF wheel_timer_queue [OF assms(1)] assms(2-5) this assms(6)]
  then show ?thesis using \<open>ticks _ _ _ _ = _\<close> by simp
qed

theorem wheel_fires_on_time_witness:
  "7 \<in> set (snd (snd (ticks (wheel_tick 4 8 quiet_fire) (unat (max 3 1 :: u64)) ()
      (snd (wheel_schedule 4 8 (wheel_new (- 2)) 7 3)))) ! 2) \<longleftrightarrow> Suc 2 = unat (max 3 1 :: u64)"
  by (rule wheel_fires_on_time) (simp_all add: wheel_params_def wheel_new_idle wheel_limit_def mask_numeral)

text \<open>C13: the wheel refines a flat table of deadlines.  Scheduling and cancelling are the table's
  operations on the table the wheel stands for, and advancing the clock (the cascade from the
  highest level down, then the removal of the current slot) takes out exactly the hooks due
  at the new time, none late and none early.\<close>

theorem wheel_refines_table:
  assumes "wheel_params L B" "wheel_inv L B w" "w_ready w = []"
  shows "map_prod id wheel_table (wheel_schedule L B w n d) = table_schedule (wheel_limit L B) (wheel_table w) n d \<and>
    wheel_table (wheel_cancel w n) = table_cancel (wheel_table w) n \<and>
    (set (w_ready (wheel_advance L B w)), wheel_table (wheel_advance L B w)) = table_advance (wheel_table w)"
  using wheel_table_schedule wheel_table_cancel wheel_table_advance [OF assms] by blast

theorem wheel_refines_table_witness:
  "7 \<in> set (w_ready (wheel_advance 4 8 (snd (wheel_schedule 4 8 (wheel_new 0) 7 1))))
   \<and> 7 \<in> fst (table_advance (wheel_table (snd (wheel_schedule 4 8 (wheel_new 0) 7 1))))"
proof -
  let ?w = "snd (wheel_schedule 4 8 (wheel_new 0) 7 1)"
  have "wheel_idle 4 8 ?w" using agenda_wheel.sched_ok [OF wheel_new_idle] by simp
  then have "wheel_inv 4 8 ?w" "w_ready ?w = []"
    by (simp_all add: wheel_idle_def wheel_ok_def)
  moreover have "7 \<in> set (w_ready (wheel_advance 4 8 ?w))" by code_simp
  ultimately show ?thesis using wheel_refines_table [of 4 8 ?w] by (simp add: wheel_params_def) (metis fst_conv)
qed

text \<open>C36: a tick keeps the wheel well formed whatever the callbacks do.  They may schedule or cancel
  any hook and throw at any point; afterwards the reentry mark is cleared and every hook is placed where
  its deadline says, a completed tick has moved the clock by one and left no hook waiting,
  and a hook that the other callbacks leave alone has either fired or is still held.\<close>

theorem wheel_tick_safe:
  assumes "wheel_params L B" "wheel_ok L B w" "wheel_tick L B fire u w = (out, u', w', log)"
  shows "wheel_ok L B w' \<and> out \<noteq> Reentered \<and>
    (out = Ticked \<longrightarrow> w_clock w' = w_clock w + 1 \<and> w_ready w' = []) \<and>
    (\<forall>n. leaves_alone fire n \<and> wheel_held w n \<longrightarrow> n \<in> set log \<or> wheel_held w' n)"
  using wheel_tick_inv [OF assms] wheel_tick_held [OF assms(1,2) _ assms(3)] by blast

definition throwing_fire :: "unit callback" where
  "throwing_fire u c n = (u, [Cancel (n + 1), Schedule n 5], True)"

theorem wheel_tick_safe_witness:
  "\<exists>out u' w' log. wheel_tick 4 8 throwing_fire () (snd (wheel_schedule 4 8 (wheel_new 0) 7 1)) = (out, u', w', log) \<and>
    wheel_ok 4 8 w' \<and> out \<noteq> Reentered"
proof -
  have p: "wheel_params 4 8" by (simp add: wheel_params_def)
  have "wheel_ok 4 8 (snd (wheel_schedule 4 8 (wheel_new 0) 7 1))"
    using agenda_wheel.sched_ok [OF wheel_new_idle] by (simp add: wheel_idle_def)
  note wheel_tick_safe [OF p this]
  then show ?thesis by (metis prod_cases4)
qed

end
