(* ===== verification/Clock.thy ===== *)
theory Clock
  imports Astra_Prelude
begin

text \<open>
  The epoch clock of \<^verbatim>\<open>astra/common/src/clock.cpp\<close> and its headers: the four-timestamp sample
  filter, the clock that follows accepted estimates by slewing, the readings it gives and the
  finite deadlines made from them, and the measurement of the local clock's precision.

  Times are nanosecond counts (\<open>ns\<close>, that is \<open>int\<close>).  Unsigned 64-bit arithmetic carries its
  wrap-around (\<open>u64w\<close>), conversions to signed values theirs (\<open>i64w\<close>); the lemmas show that
  neither ever changes a value.  The mutex of the source makes every operation atomic, so an
  operation is a function on the clock's state.
\<close>

subsection \<open>Data\<close>

definition clock_uncertainty_limit_ns :: int where
  "clock_uncertainty_limit_ns = 500000000"

definition freshness :: int where
  "freshness = 5000000000"

record estimate =
  e_time :: ns
  e_sampled :: ns
  e_uncertainty :: int
  e_rtt :: int

datatype clock_error = Clock_unready | Invalid_time | Clock_exhausted

record reading =
  r_time :: ns
  r_uncertainty :: int
  r_rtt :: int
  r_sampled :: ns
  r_ready :: bool
  r_synchronized :: bool

record clock =
  c_slew :: int
  c_estimate :: "estimate option"
  c_local :: ns
  c_epoch :: ns
  c_debt :: int
  c_fraction :: int
  c_trusted :: bool
  c_failed :: bool

subsection \<open>Arithmetic helpers\<close>

definition drift :: "int \<Rightarrow> int \<Rightarrow> int" where
  "drift age ppm =
     u64w (u64w (age div 1000000 * ppm) + u64w (u64w (age mod 1000000 * ppm) + 999999) div 1000000)"

definition magnitude :: "int \<Rightarrow> int" where
  "magnitude value = (if value < 0 then - value else value)"

text \<open>\<^verbatim>\<open>std::midpoint\<close> rounds toward its first argument.\<close>

definition midpoint :: "int \<Rightarrow> int \<Rightarrow> int" where
  "midpoint a b = (if a \<le> b then a + (b - a) div 2 else a - (a - b) div 2)"

text \<open>\<^verbatim>\<open>Clock::Elapsed::now\<close>, from what \<^verbatim>\<open>clock_gettime\<close> returned and stored; \<open>None\<close> is the throw.\<close>

definition elapsed_now :: "int \<Rightarrow> int \<Rightarrow> int \<Rightarrow> ns option" where
  "elapsed_now rc sec nsec =
     (if rc \<noteq> 0 \<or> sec < 0 \<or> nsec < 0 \<or> nsec \<ge> 1000000000 \<or> sec > (i64_max - nsec) div 1000000000 then None
      else Some (sec * 1000000000 + nsec))"

subsection \<open>The sample filter\<close>

record sample_filter =
  f_precision :: int
  f_best :: "estimate option"
  f_count :: nat

definition filter_new :: "int \<Rightarrow> sample_filter option" where
  "filter_new local_precision =
     (if local_precision = 0 \<or> local_precision > 20000000 then None
      else Some \<lparr>f_precision = local_precision, f_best = None, f_count = 0\<rparr>)"

definition filter_observe ::
  "sample_filter \<Rightarrow> int \<Rightarrow> int \<Rightarrow> int \<Rightarrow> ns \<Rightarrow> int \<Rightarrow> int \<Rightarrow> bool \<Rightarrow> bool \<times> sample_filter" where
  "filter_observe f t0 t1 t2 received precision uncertainty synchronized =
     (let t3 = received; limit = i64_max in
      if \<not> synchronized \<or> precision = 0 \<or> precision > 20000000 \<or> uncertainty > clock_uncertainty_limit_ns
         \<or> t0 > limit \<or> t1 > limit \<or> t2 > limit \<or> t3 < 0 \<or> t0 > t3 \<or> t2 < t1 then (False, f)
      else let elapsed = u64w (t3 - t0); processing = u64w (t2 - t1) in
      if elapsed > 200000000 \<or> processing > 200000000 then (False, f)
      else let dispersion = u64w (u64w (f_precision f + precision) + drift elapsed 1500) in
      if processing > elapsed \<and> u64w (processing - elapsed) > u64w (2 * dispersion) then (False, f)
      else let offset = midpoint (t1 - t0) (t2 - t3) in
      if (offset > 0 \<and> t3 > i64_max - offset) \<or> (offset < 0 \<and> offset < - t3) then (False, f)
      else let rtt = max (if elapsed > processing then u64w (elapsed - processing) else 0) (f_precision f);
               error = u64w (u64w (u64w (uncertainty + dispersion) + u64w (rtt + 1) div 2) + 1);
               better = (case f_best f of None \<Rightarrow> True | Some b \<Rightarrow> rtt \<le> e_rtt b);
               best = (if better then Some \<lparr>e_time = t3 + offset, e_sampled = received, e_uncertainty = error, e_rtt = rtt\<rparr>
                       else f_best f)
           in (True, f\<lparr>f_best := best, f_count := min (f_count f + 1) 8\<rparr>))"

definition filter_result :: "sample_filter \<Rightarrow> estimate option" where
  "filter_result f = (if f_count f \<ge> 3 then f_best f else None)"

subsection \<open>The clock\<close>

definition deadline_after :: "reading \<Rightarrow> int \<Rightarrow> clock_error + ns" where
  "deadline_after r ttl =
     (let base = r_time r in
      if \<not> r_ready r then Inl Clock_unready
      else if base < 0 \<or> ttl < 0 then Inl Invalid_time
      else if ttl > i64_max - base then Inl Clock_exhausted
      else Inr (r_time r + ttl))"

definition clock_new :: "int \<Rightarrow> clock option" where
  "clock_new slew_ppm =
     (if slew_ppm = 0 \<or> slew_ppm > 1000 then None
      else Some \<lparr>c_slew = slew_ppm, c_estimate = None, c_local = 0, c_epoch = 0, c_debt = 0, c_fraction = 0,
        c_trusted = False, c_failed = False\<rparr>)"

definition clock_advance :: "clock \<Rightarrow> ns \<Rightarrow> bool \<times> clock" where
  "clock_advance c local =
     (if c_failed c \<or> local < c_local c then (False, c\<lparr>c_failed := True\<rparr>)
      else let elapsed = u64w (local - c_local c);
               fraction = u64w (u64w (elapsed mod 1000000 * c_slew c) + c_fraction c);
               budget = u64w (u64w (elapsed div 1000000 * c_slew c) + fraction div 1000000);
               correction = min (magnitude (c_debt c)) budget;
               step = (if c_debt c < 0 then u64w (elapsed - correction) else u64w (elapsed + correction));
               base = c_epoch c
           in if step > u64w (i64_max - base) then (False, c\<lparr>c_failed := True\<rparr>)
              else let debt = c_debt c + (if c_debt c < 0 then i64w correction else - i64w correction)
                   in (True, c\<lparr>c_epoch := c_epoch c + i64w step, c_debt := debt,
                        c_fraction := (if debt = 0 then 0 else fraction mod 1000000), c_local := local\<rparr>))"

definition clock_read :: "clock \<Rightarrow> ns \<Rightarrow> reading option \<times> clock" where
  "clock_read c local =
     (case c_estimate c of
        None \<Rightarrow> (None, c)
      | Some e \<Rightarrow>
          (case clock_advance c local of
             (False, c') \<Rightarrow> (None, c')
           | (True, c') \<Rightarrow>
               let age = u64w (local - e_sampled e);
                   uncertainty = u64w (u64w (e_uncertainty e + drift age 2000) + magnitude (c_debt c'))
               in (Some \<lparr>r_time = c_epoch c', r_uncertainty = uncertainty, r_rtt = e_rtt e, r_sampled = e_sampled e,
                     r_ready = True,
                     r_synchronized = (c_trusted c' \<and> age \<le> freshness \<and> uncertainty \<le> clock_uncertainty_limit_ns)\<rparr>, c')))"

definition clock_now :: "clock \<Rightarrow> ns \<Rightarrow> reading option \<times> clock" where
  "clock_now c local = clock_read c local"

definition clock_observe :: "clock \<Rightarrow> estimate \<Rightarrow> ns \<Rightarrow> bool \<times> clock" where
  "clock_observe c e local =
     (let target = e_time e in
      if c_failed c \<or> target < 0 \<or> e_sampled e < 0 \<or> local < e_sampled e \<or> e_uncertainty e > 1000000000
         \<or> e_rtt e > 200000000 \<or> (case c_estimate c of None \<Rightarrow> False | Some e0 \<Rightarrow> e_sampled e \<le> e_sampled e0)
      then (False, c)
      else let age = local - e_sampled e in
      if u64w age > freshness \<or> target > i64_max - age then (False, c)
      else let predicted = e_time e + age in
      case c_estimate c of
        None \<Rightarrow>
          if u64w (e_uncertainty e + drift (u64w age) 2000) > clock_uncertainty_limit_ns then (False, c)
          else (True, c\<lparr>c_epoch := predicted, c_local := local, c_estimate := Some e, c_trusted := True\<rparr>)
      | Some _ \<Rightarrow>
          (case clock_advance c local of
             (False, c') \<Rightarrow> (False, c')
           | (True, c') \<Rightarrow>
               let debt = predicted - c_epoch c';
                   c2 = (if (debt < 0) \<noteq> (c_debt c' < 0) \<or> debt = 0 then c'\<lparr>c_fraction := 0\<rparr> else c')
               in (True, c2\<lparr>c_debt := debt, c_estimate := Some e, c_trusted := True\<rparr>)))"

definition clock_publish :: "clock \<Rightarrow> estimate \<Rightarrow> ns \<Rightarrow> bool \<times> clock" where
  "clock_publish c e local = clock_observe c e local"

definition clock_revoke :: "clock \<Rightarrow> clock" where
  "clock_revoke c = c\<lparr>c_trusted := False\<rparr>"

subsection \<open>Measuring the local precision\<close>

text \<open>\<^verbatim>\<open>measure_clock_precision\<close>: \<open>read\<close> and \<open>running\<close> are the two callables of the source on a state of
  the environment; \<open>running\<close> gives \<open>None\<close> when it throws.  The inner loop makes at most 128
  reads, the outer one runs while the budget lasts.\<close>

datatype precision_error = Invalid_minimum | Negative_reading | Moved_backwards | Budget_threw | Too_few_edges

fun precision_batch ::
  "nat \<Rightarrow> ('s \<Rightarrow> int \<times> 's) \<Rightarrow> 's \<Rightarrow> int \<Rightarrow> int \<Rightarrow> nat \<Rightarrow> precision_error + int \<times> int \<times> nat \<times> 's" where
  "precision_batch 0 read s before best edges = Inr (before, best, edges, s)"
| "precision_batch (Suc samples) read s before best edges =
     (if edges \<ge> 32 then Inr (before, best, edges, s)
      else let (after, s') = read s in
      if after < before then Inl Moved_backwards
      else if after > before then precision_batch samples read s' after (min best (after - before)) (Suc edges)
      else precision_batch samples read s' after best edges)"

partial_function (option) precision_loop ::
  "('s \<Rightarrow> int \<times> 's) \<Rightarrow> ('s \<Rightarrow> bool option \<times> 's) \<Rightarrow> 's \<Rightarrow> int \<Rightarrow> int \<Rightarrow> nat \<Rightarrow> (precision_error + int \<times> nat) option" where
  "precision_loop read running s before best edges =
     (if edges \<ge> 32 then Some (Inr (best, edges))
      else case running s of
        (None, s') \<Rightarrow> Some (Inl Budget_threw)
      | (Some go, s') \<Rightarrow>
          if go then
            (case precision_batch 128 read s' before best edges of
               Inl e \<Rightarrow> Some (Inl e)
             | Inr (before', best', edges', s'') \<Rightarrow> precision_loop read running s'' before' best' edges')
          else Some (Inr (best, edges)))"

definition measure_clock_precision ::
  "('s \<Rightarrow> int \<times> 's) \<Rightarrow> ('s \<Rightarrow> bool option \<times> 's) \<Rightarrow> 's \<Rightarrow> int \<Rightarrow> (precision_error + int) option" where
  "measure_clock_precision read running s minimum =
     (if minimum = 0 \<or> minimum > 20000000 then Some (Inl Invalid_minimum)
      else let (before, s') = read s in
      if before < 0 then Some (Inl Negative_reading)
      else case precision_loop read running s' before (2 ^ 64 - 1) 0 of
        None \<Rightarrow> None
      | Some (Inl e) \<Rightarrow> Some (Inl e)
      | Some (Inr (best, edges)) \<Rightarrow>
          if edges < 3 \<or> best > 20000000 then Some (Inl Too_few_edges) else Some (Inr (max minimum best)))"

end
