(* ===== verification/Clock_Slew.thy ===== *)
theory Clock_Slew
  imports Clock
begin

text \<open>
  The epoch clock in exact arithmetic: the unsigned computations of the source never wrap, one
  successful advance is the function \<open>stepped\<close>, and the invariant (which includes that public
  time plus debt equals the last accepted estimate extrapolated to the present) is kept by
  every operation.
\<close>

subsection \<open>The unsigned arithmetic never wraps\<close>

lemma split_million:
  fixes e p f :: int
  shows "e div 1000000 * p + (e mod 1000000 * p + f) div 1000000 = (e * p + f) div 1000000"
    and "(e mod 1000000 * p + f) mod 1000000 = (e * p + f) mod 1000000"
proof -
  have "e * p + f = (e mod 1000000 * p + f) + e div 1000000 * p * 1000000"
  proof -
    define q r where "q = e div 1000000" and "r = e mod 1000000"
    have e: "e = q * 1000000 + r" by (simp add: q_def r_def)
    show ?thesis unfolding q_def [symmetric] r_def [symmetric] by (simp add: e algebra_simps)
  qed
  note cut = this
  show "e div 1000000 * p + (e mod 1000000 * p + f) div 1000000 = (e * p + f) div 1000000"
    unfolding cut by (subst div_mult_self1) simp_all
  show "(e mod 1000000 * p + f) mod 1000000 = (e * p + f) mod 1000000"
    unfolding cut by (rule mod_mult_self1 [symmetric])
qed

lemma million_parts:
  fixes e p :: int
  assumes "0 \<le> e" "e \<le> i64_max" "0 \<le> p" "p \<le> 2000"
  shows "0 \<le> e div 1000000 * p" "e div 1000000 * p \<le> 2 ^ 63" "0 \<le> e mod 1000000 * p" "e mod 1000000 * p \<le> 2000000000"
proof -
  have "e div 1000000 * p \<le> e div 1000000 * 2000" using assms by (intro mult_left_mono) auto
  also have "\<dots> \<le> 2 ^ 63" using assms by (simp add: i64_max_def)
  finally show "e div 1000000 * p \<le> 2 ^ 63" .
  have "e mod 1000000 * p \<le> 1000000 * 2000" using assms by (intro mult_mono) auto
  then show "e mod 1000000 * p \<le> 2000000000" by simp
qed (use assms in \<open>auto simp: pos_imp_zdiv_nonneg_iff\<close>)

lemma drift_eq:
  assumes "0 \<le> age" "age \<le> i64_max" "0 \<le> ppm" "ppm \<le> 2000"
  shows "drift age ppm = (age * ppm + 999999) div 1000000"
proof -
  note parts = million_parts [OF assms]
  have "(age mod 1000000 * ppm + 999999) div 1000000 \<le> 2001" using parts by linarith
  moreover have "0 \<le> (age mod 1000000 * ppm + 999999) div 1000000" using parts by simp
  ultimately show ?thesis using parts by (simp add: drift_def flip: split_million(1) [of age ppm 999999])
qed

lemma drift_bounds:
  assumes "0 \<le> age" "age \<le> i64_max" "0 \<le> ppm" "ppm \<le> 2000"
  shows "0 \<le> drift age ppm" "drift age ppm \<le> age div 500 + 2" "age * ppm \<le> drift age ppm * 1000000"
proof -
  have "age * ppm \<le> age * 2000" using assms by (intro mult_left_mono) auto
  then show "drift age ppm \<le> age div 500 + 2" using drift_eq [OF assms] by simp
  show "0 \<le> drift age ppm" using assms drift_eq [OF assms] by (simp add: pos_imp_zdiv_nonneg_iff)
  show "age * ppm \<le> drift age ppm * 1000000" using drift_eq [OF assms] by simp
qed

lemma magnitude_abs [simp]: "magnitude x = \<bar>x\<bar>"
  by (simp add: magnitude_def)

text \<open>The slewing budget of an interval, its unspent part carried in the fraction.\<close>

lemma budget_le_elapsed:
  fixes el p f :: int
  assumes "0 \<le> el" "0 \<le> p" "p \<le> 1000" "0 \<le> f" "f < 1000000"
  shows "0 \<le> (el * p + f) div 1000000" "(el * p + f) div 1000000 \<le> el"
proof -
  have "el * p \<le> el * 1000" using assms by (intro mult_left_mono) auto
  moreover have "(x + f) div 1000000 \<le> el" if "0 \<le> x" "x \<le> el * 1000" for x using that assms by linarith
  ultimately show "(el * p + f) div 1000000 \<le> el" using assms by simp
  show "0 \<le> (el * p + f) div 1000000" using assms by (simp add: pos_imp_zdiv_nonneg_iff)
qed

definition clock_inv :: "clock \<Rightarrow> bool" where
  "clock_inv c \<longleftrightarrow>
     1 \<le> c_slew c \<and> c_slew c \<le> 1000 \<and> 0 \<le> c_fraction c \<and> c_fraction c < 1000000 \<and>
     0 \<le> c_local c \<and> c_local c \<le> i64_max \<and> 0 \<le> c_epoch c \<and> c_epoch c \<le> i64_max \<and> \<bar>c_debt c\<bar> \<le> i64_max \<and>
     (c_debt c = 0 \<longrightarrow> c_fraction c = 0) \<and>
     (case c_estimate c of
        None \<Rightarrow> c_debt c = 0
      | Some e \<Rightarrow> 0 \<le> e_time e \<and> 0 \<le> e_sampled e \<and> e_sampled e \<le> c_local c \<and>
          0 \<le> e_uncertainty e \<and> e_uncertainty e \<le> 1000000000 \<and> 0 \<le> e_rtt e \<and> e_rtt e \<le> 200000000 \<and>
          c_epoch c + c_debt c = e_time e + (c_local c - e_sampled e))"

text \<open>What one successful advance does, in exact arithmetic.\<close>

definition slewed :: "clock \<Rightarrow> ns \<Rightarrow> int" where
  "slewed c local = min \<bar>c_debt c\<bar> (((local - c_local c) * c_slew c + c_fraction c) div 1000000)"

definition stepped :: "clock \<Rightarrow> ns \<Rightarrow> clock" where
  "stepped c local =
     (let s = sgn (c_debt c) * slewed c local; debt = c_debt c - s
      in c\<lparr>c_epoch := c_epoch c + (local - c_local c) + s, c_debt := debt,
           c_fraction := (if debt = 0 then 0 else ((local - c_local c) * c_slew c + c_fraction c) mod 1000000),
           c_local := local\<rparr>)"

definition slew_core :: "clock \<Rightarrow> bool" where
  "slew_core c \<longleftrightarrow> 1 \<le> c_slew c \<and> c_slew c \<le> 1000 \<and> 0 \<le> c_fraction c \<and> c_fraction c < 1000000"

lemma clock_inv_core: "clock_inv c \<Longrightarrow> slew_core c"
  by (simp add: clock_inv_def slew_core_def)

lemma stepped_core: "slew_core c \<Longrightarrow> slew_core (stepped c local)"
  by (simp add: slew_core_def stepped_def Let_def)

lemma slewed_core_bounds:
  assumes "slew_core c" "c_local c \<le> local"
  shows "0 \<le> slewed c local" "slewed c local \<le> \<bar>c_debt c\<bar>" "slewed c local \<le> local - c_local c"
  using assms budget_le_elapsed [of "local - c_local c" "c_slew c" "c_fraction c"]
  by (auto simp: slewed_def slew_core_def)

lemmas slewed_bounds = slewed_core_bounds [OF clock_inv_core]

lemma clock_advance_eq:
  assumes inv: "clock_inv c" and loc: "local \<le> i64_max"
  shows "clock_advance c local =
    (if c_failed c \<or> local < c_local c \<or> c_epoch (stepped c local) > i64_max then (False, c\<lparr>c_failed := True\<rparr>)
     else (True, stepped c local))"
proof (cases "c_failed c \<or> local < c_local c")
  case False
  then have le: "c_local c \<le> local" by simp
  define el where "el = local - c_local c"
  define tot where "tot = el * c_slew c + c_fraction c"
  have el: "0 \<le> el" "el \<le> i64_max" using inv le loc by (auto simp: el_def clock_inv_def)
  have elw: "u64w (local - c_local c) = el" using el by (simp add: el_def i64_max_def)
  have sl: "1 \<le> c_slew c" "c_slew c \<le> 1000" and fr: "0 \<le> c_fraction c" "c_fraction c < 1000000"
    using inv by (auto simp: clock_inv_def)
  have p: "0 \<le> el div 1000000 * c_slew c" "el div 1000000 * c_slew c \<le> 2 ^ 63"
    "0 \<le> el mod 1000000 * c_slew c" "el mod 1000000 * c_slew c \<le> 2000000000"
    using million_parts [OF el, of "c_slew c"] sl by auto
  have fw: "u64w (u64w (el mod 1000000 * c_slew c) + c_fraction c) = el mod 1000000 * c_slew c + c_fraction c"
    using p fr by simp
  have q: "0 \<le> (el mod 1000000 * c_slew c + c_fraction c) div 1000000"
    "(el mod 1000000 * c_slew c + c_fraction c) div 1000000 \<le> 2001" using p fr by simp_all
  have bw: "u64w (u64w (el div 1000000 * c_slew c) + (el mod 1000000 * c_slew c + c_fraction c) div 1000000) = tot div 1000000"
    using p q unfolding tot_def split_million(1) [of el "c_slew c" "c_fraction c", symmetric] by simp
  have tm: "(el mod 1000000 * c_slew c + c_fraction c) mod 1000000 = tot mod 1000000"
    unfolding tot_def by (rule split_million(2))
  let ?s = "slewed c local"
  note s = slewed_bounds [OF inv le]
  have sdef: "min \<bar>c_debt c\<bar> (tot div 1000000) = ?s" by (simp add: slewed_def tot_def el_def)
  have sx: "i64w ?s = ?s" using s el by (simp add: i64_def el_def i64_max_def)
  have stw: "u64w (el - ?s) = el - ?s" "u64w (el + ?s) = el + ?s" using s el by (simp_all add: el_def i64_max_def)
  have room: "u64w (i64_max - c_epoch c) = i64_max - c_epoch c" using inv by (simp add: clock_inv_def i64_max_def)
  have small: "i64w st = st" if "st \<le> i64_max - c_epoch c" "0 \<le> st" for st
    using that inv by (simp add: i64_def clock_inv_def i64_max_def)
  show ?thesis
    using False s el small [of "el - ?s"] small [of "el + ?s"]
    unfolding clock_advance_def Let_def elw fw bw tm magnitude_abs sdef stw room sx
    by (auto simp: stepped_def Let_def el_def tot_def sgn_if)
qed (auto simp: clock_advance_def)

lemma stepped_inv [keeps]:
  assumes inv: "clock_inv c" and le: "c_local c \<le> local" "local \<le> i64_max" and "c_epoch (stepped c local) \<le> i64_max"
  shows "clock_inv (stepped c local)"
proof -
  note s = slewed_bounds [OF inv le(1)]
  have "0 \<le> c_epoch (stepped c local)" using inv s by (auto simp: stepped_def Let_def clock_inv_def sgn_if)
  moreover have "\<bar>c_debt (stepped c local)\<bar> \<le> i64_max" using inv s by (auto simp: stepped_def Let_def clock_inv_def sgn_if)
  ultimately show ?thesis
    using assms s unfolding clock_inv_def by (auto simp: stepped_def Let_def split: option.splits)
qed

lemma failed_inv [simp]: "clock_inv (c\<lparr>c_failed := b\<rparr>) = clock_inv c"
  by (simp add: clock_inv_def split: option.split)

lemma stepped_core_le:
  assumes "slew_core c" "c_local c \<le> local"
  shows "c_epoch c \<le> c_epoch (stepped c local)"
  using slewed_core_bounds [OF assms] assms by (auto simp: stepped_def Let_def sgn_if)

lemmas stepped_le = stepped_core_le [OF clock_inv_core]

lemma clock_advance_inv [keeps]:
  "clock_inv c \<Longrightarrow> local \<le> i64_max \<Longrightarrow> clock_inv (snd (clock_advance c local))"
  by (auto simp: clock_advance_eq intro: stepped_inv)

text \<open>Cutting an interval in two makes no difference as long as the debt is not replaced.\<close>

lemma add_div_step:
  fixes a b f :: int
  shows "(a + f) div 1000000 + (b + (a + f) mod 1000000) div 1000000 = (a + b + f) div 1000000"
    and "(b + (a + f) mod 1000000) mod 1000000 = (a + b + f) mod 1000000"
proof -
  have "a + b + f = (b + (a + f) mod 1000000) + (a + f) div 1000000 * 1000000"
    using div_mult_mod_eq [of "a + f" 1000000] by linarith
  note cut = this
  show "(a + f) div 1000000 + (b + (a + f) mod 1000000) div 1000000 = (a + b + f) div 1000000"
    unfolding cut by (subst div_mult_self1) simp_all
  show "(b + (a + f) mod 1000000) mod 1000000 = (a + b + f) mod 1000000"
    unfolding cut by (rule mod_mult_self1 [symmetric])
qed

lemma stepped_twice:
  assumes inv: "clock_inv c" and le: "c_local c \<le> a" "a \<le> b"
  shows "stepped (stepped c a) b = stepped c b"
proof -
  define x where "x = (a - c_local c) * c_slew c"
  define y where "y = (b - a) * c_slew c"
  define f where "f = c_fraction c"
  have xy: "0 \<le> x" "0 \<le> y" "0 \<le> f" using inv le by (auto simp: x_def y_def f_def clock_inv_def)
  have tot: "(b - c_local c) * c_slew c + c_fraction c = x + y + f" by (simp add: x_def y_def f_def algebra_simps)
  have one: "(a - c_local c) * c_slew c + c_fraction c = x + f" by (simp add: x_def f_def)
  note cut = add_div_step [where a = x and b = y and f = f]
  let ?A = "(x + f) div 1000000" and ?B = "(y + (x + f) mod 1000000) div 1000000"
  have pos: "0 \<le> ?A" "0 \<le> ?B" using xy by (simp_all add: pos_imp_zdiv_nonneg_iff)
  show ?thesis
  proof (cases "\<bar>c_debt c\<bar> \<le> ?A")
    case True
    then have "\<bar>c_debt c\<bar> \<le> (x + y + f) div 1000000" using cut(1) pos by linarith
    then have "slewed c a = \<bar>c_debt c\<bar>" "slewed c b = \<bar>c_debt c\<bar>"
      using True by (simp_all add: slewed_def tot one)
    then have "stepped c t = c\<lparr>c_epoch := c_epoch c + (t - c_local c) + c_debt c, c_debt := 0, c_fraction := 0, c_local := t\<rparr>"
      if "t = a \<or> t = b" for t using that by (auto simp: stepped_def mult_sgn_abs)
    then show ?thesis by (simp add: stepped_def [of "_\<lparr>c_epoch := _, c_debt := _, c_fraction := _, c_local := _\<rparr>"])
  next
    case False
    define d where "d = c_debt c - sgn (c_debt c) * ?A"
    have d: "sgn d = sgn (c_debt c)" "\<bar>d\<bar> = \<bar>c_debt c\<bar> - ?A" "d \<noteq> 0" using False pos by (auto simp: d_def sgn_if)
    have s1: "stepped c a = c\<lparr>c_epoch := c_epoch c + (a - c_local c) + sgn (c_debt c) * ?A, c_debt := d,
        c_fraction := (x + f) mod 1000000, c_local := a\<rparr>"
      using False d(3) by (simp add: stepped_def slewed_def Let_def one d_def)
    have sl: "slewed (stepped c a) b = min (\<bar>c_debt c\<bar> - ?A) ?B"
      unfolding slewed_def s1 by (simp add: d(2) flip: y_def)
    have sl2: "slewed c b = ?A + slewed (stepped c a) b"
      unfolding slewed_def [of c b] tot cut(1) [symmetric] sl by linarith
    have fr: "((b - c_local (stepped c a)) * c_slew (stepped c a) + c_fraction (stepped c a)) mod 1000000 = (x + y + f) mod 1000000"
      unfolding s1 using cut(2) by (simp flip: y_def)
    have "c_debt (stepped c a) - sgn (c_debt (stepped c a)) * slewed (stepped c a) b = c_debt c - sgn (c_debt c) * slewed c b"
      unfolding sl2 by (simp add: s1 d(1)) (simp add: d_def algebra_simps)
    moreover have "c_epoch (stepped c a) + (b - a) + sgn d * slewed (stepped c a) b =
        c_epoch c + (b - c_local c) + sgn (c_debt c) * slewed c b"
      unfolding sl2 d(1) by (simp add: s1 algebra_simps)
    ultimately show ?thesis
      unfolding stepped_def [of "stepped c a"] stepped_def [of c b] Let_def fr tot
      by (simp add: s1)
  qed
qed

subsection \<open>The operations keep the clock well formed\<close>

definition estimate_typed :: "estimate \<Rightarrow> bool" where
  "estimate_typed e \<longleftrightarrow> i64 (e_time e) \<and> i64 (e_sampled e) \<and> 0 \<le> e_uncertainty e \<and> 0 \<le> e_rtt e"

lemma clock_new_inv [keeps]: "1 \<le> p \<Longrightarrow> clock_new p = Some c \<Longrightarrow> clock_inv c \<and> \<not> c_failed c \<and> c_estimate c = None"
  by (auto simp: clock_new_def clock_inv_def i64_max_def split: if_splits)

lemma trusted_inv [simp]: "clock_inv (c\<lparr>c_trusted := b\<rparr>) = clock_inv c"
  by (simp add: clock_inv_def split: option.split)

lemma stepped_fields [simp]:
  "c_estimate (stepped c l) = c_estimate c" "c_slew (stepped c l) = c_slew c" "c_local (stepped c l) = l"
  "c_trusted (stepped c l) = c_trusted c" "c_failed (stepped c l) = c_failed c"
  by (simp_all add: stepped_def Let_def)

text \<open>A reading: the time the clock has advanced to, with the uncertainty in exact arithmetic.\<close>

lemma clock_read_eq:
  assumes inv: "clock_inv c" and loc: "local \<le> i64_max" and e: "c_estimate c = Some e"
  shows "clock_read c local =
    (if c_failed c \<or> local < c_local c \<or> c_epoch (stepped c local) > i64_max then (None, c\<lparr>c_failed := True\<rparr>)
     else let c' = stepped c local; age = local - e_sampled e;
              u = e_uncertainty e + drift age 2000 + \<bar>c_debt c'\<bar>
          in (Some \<lparr>r_time = c_epoch c', r_uncertainty = u, r_rtt = e_rtt e, r_sampled = e_sampled e, r_ready = True,
               r_synchronized = (c_trusted c \<and> age \<le> freshness \<and> u \<le> clock_uncertainty_limit_ns)\<rparr>, c'))"
proof (cases "c_failed c \<or> local < c_local c \<or> c_epoch (stepped c local) > i64_max")
  case False
  then have le: "c_local c \<le> local" and ep: "c_epoch (stepped c local) \<le> i64_max" by auto
  have inv': "clock_inv (stepped c local)" using stepped_inv [OF inv le loc ep] .
  have age: "0 \<le> local - e_sampled e" "local - e_sampled e \<le> i64_max"
    using inv e le loc by (auto simp: clock_inv_def)
  have agew: "u64w (local - e_sampled e) = local - e_sampled e" using age by (simp add: i64_max_def)
  note d = drift_bounds [OF age, of 2000]
  have d2: "0 \<le> drift (local - e_sampled e) 2000" "drift (local - e_sampled e) 2000 \<le> 2 ^ 62" "0 \<le> e_uncertainty e" "e_uncertainty e \<le> 1000000000"
    "\<bar>c_debt (stepped c local)\<bar> \<le> 2 ^ 63" using d age inv e inv' by (auto simp: i64_max_def clock_inv_def)
  have uw: "u64w (u64w (e_uncertainty e + drift (local - e_sampled e) 2000) + \<bar>c_debt (stepped c local)\<bar>) =
      e_uncertainty e + drift (local - e_sampled e) 2000 + \<bar>c_debt (stepped c local)\<bar>" using d2 by simp
  show ?thesis using False by (simp add: clock_read_def e clock_advance_eq [OF inv loc] agew uw Let_def)
qed (auto simp: clock_read_def e clock_advance_eq [OF inv loc])

lemma clock_read_inv [keeps]: "clock_inv c \<Longrightarrow> local \<le> i64_max \<Longrightarrow> clock_inv (snd (clock_read c local))"
  using clock_read_eq [of c local] by (cases "c_estimate c") (auto simp: Let_def clock_read_def intro: stepped_inv)

text \<open>An accepted estimate either sets the clock for the first time or becomes the new debt.\<close>

definition acceptable :: "clock \<Rightarrow> estimate \<Rightarrow> ns \<Rightarrow> bool" where
  "acceptable c e local \<longleftrightarrow>
     \<not> c_failed c \<and> 0 \<le> e_time e \<and> 0 \<le> e_sampled e \<and> e_sampled e \<le> local \<and> e_uncertainty e \<le> 1000000000 \<and>
     e_rtt e \<le> 200000000 \<and> (case c_estimate c of None \<Rightarrow> True | Some e0 \<Rightarrow> e_sampled e0 < e_sampled e) \<and>
     local - e_sampled e \<le> freshness \<and> e_time e \<le> i64_max - (local - e_sampled e)"

lemma clock_observe_reject: "local \<le> i64_max \<Longrightarrow> \<not> acceptable c e local \<Longrightarrow> clock_observe c e local = (False, c)"
  by (auto simp: clock_observe_def acceptable_def Let_def i64_max_def split: option.splits)

lemma clock_observe_first:
  assumes "acceptable c e local" "c_estimate c = None" "estimate_typed e" "local \<le> i64_max"
  shows "clock_observe c e local =
    (if e_uncertainty e + drift (local - e_sampled e) 2000 > clock_uncertainty_limit_ns then (False, c)
     else (True, c\<lparr>c_epoch := e_time e + (local - e_sampled e), c_local := local, c_estimate := Some e, c_trusted := True\<rparr>))"
proof -
  let ?age = "local - e_sampled e"
  have age: "0 \<le> ?age" "?age \<le> i64_max" "?age \<le> freshness" using assms by (auto simp: acceptable_def)
  have "0 \<le> drift ?age 2000" "drift ?age 2000 \<le> 2 ^ 62"
    using drift_bounds [OF age(1,2), of 2000] age by (auto simp: i64_max_def)
  then have "u64w (e_uncertainty e + drift ?age 2000) = e_uncertainty e + drift ?age 2000"
    using assms by (simp add: estimate_typed_def acceptable_def)
  then show ?thesis using assms age by (simp add: clock_observe_def acceptable_def Let_def i64_max_def)
qed

lemma clock_observe_next:
  assumes "acceptable c e local" "c_estimate c = Some e0" "clock_inv c" "local \<le> i64_max"
  shows "clock_observe c e local =
    (if local < c_local c \<or> c_epoch (stepped c local) > i64_max then (False, c\<lparr>c_failed := True\<rparr>)
     else let c' = stepped c local; debt = e_time e + (local - e_sampled e) - c_epoch c'
          in (True, c'\<lparr>c_fraction := (if (debt < 0) \<noteq> (c_debt c' < 0) \<or> debt = 0 then 0 else c_fraction c'),
                c_debt := debt, c_estimate := Some e, c_trusted := True\<rparr>))"
proof -
  have "u64w (local - e_sampled e) = local - e_sampled e" using assms by (simp add: acceptable_def i64_max_def)
  then show ?thesis using assms
    by (auto simp: clock_observe_def acceptable_def clock_advance_eq [OF assms(3,4)] Let_def)
qed

lemma clock_observe_inv [keeps]:
  assumes inv: "clock_inv c" and t: "estimate_typed e" and loc: "local \<le> i64_max"
  shows "clock_inv (snd (clock_observe c e local))"
proof (cases "acceptable c e local")
  case False
  then show ?thesis using inv loc by (simp add: clock_observe_reject)
next
  case acc: True
  show ?thesis
  proof (cases "c_estimate c")
    case None
    have f: "c_debt c = 0" "c_fraction c = 0" using inv None by (auto simp: clock_inv_def)
    show ?thesis using inv acc t loc None f
      unfolding clock_observe_first [OF acc None t loc]
      by (auto simp: clock_inv_def acceptable_def estimate_typed_def)
  next
    case (Some e0)
    show ?thesis
    proof (cases "local < c_local c \<or> c_epoch (stepped c local) > i64_max")
      case False
      then have i: "clock_inv (stepped c local)" using stepped_inv [OF inv _ loc] by simp
      show ?thesis using i acc t loc False
        unfolding clock_observe_next [OF acc Some inv loc]
        by (auto simp: clock_inv_def acceptable_def estimate_typed_def Let_def split: option.splits)
    qed (use inv in \<open>simp add: clock_observe_next [OF acc Some inv loc]\<close>)
  qed
qed

end
