(* ===== verification/Clock_Source.thy ===== *)
theory Clock_Source
  imports Clock_Slew
begin

text \<open>
  The epoch clock as its clients see it: the contract of a time source as a locale, the clock's
  interpretation of it, the bound on its rate over runs of operations, and the accuracy of
  its readings against the true time.
\<close>

subsection \<open>Runs of operations\<close>

datatype clock_op = Now ns | Publish estimate ns | Revoke

fun clock_step :: "clock \<Rightarrow> clock_op \<Rightarrow> reading option \<times> clock" where
  "clock_step c (Now l) = clock_now c l"
| "clock_step c (Publish e l) = (None, snd (clock_publish c e l))"
| "clock_step c Revoke = (None, clock_revoke c)"

fun op_typed :: "clock_op \<Rightarrow> bool" where
  "op_typed (Now l) = i64 l"
| "op_typed (Publish e l) = (i64 l \<and> estimate_typed e)"
| "op_typed Revoke = True"

text \<open>A source of time is what its clients see of the clock: operations may yield readings, the
  public time never goes back once it is set, and a reading shows it.\<close>

fun op_run :: "('s \<Rightarrow> 'o \<Rightarrow> 'r option \<times> 's) \<Rightarrow> 's \<Rightarrow> 'o list \<Rightarrow> 'r list \<times> 's" where
  "op_run step s [] = ([], s)"
| "op_run step s (x # xs) =
     (let (r, s1) = step s x; (rs, s2) = op_run step s1 xs in ((case r of None \<Rightarrow> rs | Some v \<Rightarrow> v # rs), s2))"

locale time_source =
  fixes ok :: "'s \<Rightarrow> bool"
    and typed :: "'o \<Rightarrow> bool"
    and step :: "'s \<Rightarrow> 'o \<Rightarrow> reading option \<times> 's"
    and public :: "'s \<Rightarrow> ns option"
  assumes step_ok: "ok s \<Longrightarrow> typed x \<Longrightarrow> ok (snd (step s x))"
    and step_public: "ok s \<Longrightarrow> typed x \<Longrightarrow> public s = Some t \<Longrightarrow> \<exists>t'. public (snd (step s x)) = Some t' \<and> t \<le> t'"
    and step_reading: "ok s \<Longrightarrow> typed x \<Longrightarrow> step s x = (Some r, s') \<Longrightarrow>
      r_ready r \<and> 0 \<le> r_time r \<and> r_time r \<le> i64_max \<and> public s' = Some (r_time r)"
begin

lemma run_ok: "ok s \<Longrightarrow> list_all typed xs \<Longrightarrow> ok (snd (op_run step s xs))"
proof (induction xs arbitrary: s)
  case (Cons x xs)
  then have "ok (snd (op_run step (snd (step s x)) xs))" by (simp add: step_ok)
  then show ?case by (simp add: case_prod_beta)
qed simp

lemma run_bounded:
  "ok s \<Longrightarrow> list_all typed xs \<Longrightarrow> op_run step s xs = (rs, s') \<Longrightarrow> r \<in> set rs \<Longrightarrow>
   r_ready r \<and> 0 \<le> r_time r \<and> r_time r \<le> i64_max \<and> (\<forall>t. public s = Some t \<longrightarrow> t \<le> r_time r)"
proof (induction xs arbitrary: s rs)
  case (Cons x xs)
  obtain q s1 where x: "step s x = (q, s1)" by (cases "step s x") auto
  obtain rs1 where y: "op_run step s1 xs = (rs1, s')" using Cons.prems(3) x by (cases "op_run step s1 xs") auto
  have ok1: "ok s1" using step_ok [OF Cons.prems(1), of x] Cons.prems(2) x by simp
  have up: "\<exists>t'. public s1 = Some t' \<and> t \<le> t'" if "public s = Some t" for t
    using step_public [OF Cons.prems(1) _ that, of x] Cons.prems(2) x by simp
  consider "q = Some r" | "r \<in> set rs1" using Cons.prems(3,4) x y by (auto split: option.splits)
  then show ?case
  proof cases
    case 1
    then show ?thesis using step_reading [OF Cons.prems(1) _, of x r s1] Cons.prems(2) x up by fastforce
  next
    case 2
    then show ?thesis using Cons.IH [OF ok1 _ y 2] Cons.prems(2) up by fastforce
  qed
qed simp

lemma run_sorted:
  "ok s \<Longrightarrow> list_all typed xs \<Longrightarrow> op_run step s xs = (rs, s') \<Longrightarrow> sorted (map r_time rs)"
proof (induction xs arbitrary: s rs)
  case (Cons x xs)
  obtain q s1 where x: "step s x = (q, s1)" by (cases "step s x") auto
  obtain rs1 where y: "op_run step s1 xs = (rs1, s')" using Cons.prems(3) x by (cases "op_run step s1 xs") auto
  have ok1: "ok s1" using step_ok [OF Cons.prems(1), of x] Cons.prems(2) x by simp
  have s1: "sorted (map r_time rs1)" using Cons.IH [OF ok1 _ y] Cons.prems(2) by simp
  have "r_time v \<le> r_time r" if "q = Some v" "r \<in> set rs1" for v r
    using run_bounded [OF ok1 _ y that(2)] step_reading [OF Cons.prems(1) _, of x v s1] Cons.prems(2) x that(1) by auto
  then show ?case using s1 Cons.prems(3) x y by (auto split: option.splits)
qed simp

text \<open>A deadline made from an earlier reading lies in the future of that reading by exactly its
  time to live, and once a later reading has reached it, every reading after that has too.\<close>

lemma deadline_stays_reached:
  assumes "ok s" "list_all typed xs" "op_run step s xs = (rs, s')" "i \<le> j" "j < length rs" "d \<le> r_time (rs ! i)"
  shows "d \<le> r_time (rs ! j)"
  using run_sorted [OF assms(1-3)] assms(4-6) by (force simp: sorted_iff_nth_mono)

end

definition clock_public :: "clock \<Rightarrow> ns option" where
  "clock_public c = map_option (\<lambda>_. c_epoch c) (c_estimate c)"

lemma i64_le: "i64 l \<Longrightarrow> l \<le> i64_max"
  by (simp add: i64_def i64_max_def)

lemma clock_observe_public:
  assumes "clock_inv c" "estimate_typed e" "local \<le> i64_max" "c_estimate c = Some e0"
  shows "c_estimate (snd (clock_observe c e local)) \<noteq> None \<and> c_epoch c \<le> c_epoch (snd (clock_observe c e local))"
proof (cases "acceptable c e local")
  case True
  show ?thesis using assms stepped_le [OF assms(1)]
    by (simp add: clock_observe_next [OF True assms(4,1,3)] Let_def)
qed (use assms in \<open>simp add: clock_observe_reject\<close>)

interpretation epoch_clock: time_source clock_inv op_typed clock_step clock_public
proof
  fix c x
  assume inv: "clock_inv c" and t: "op_typed x"
  show "clock_inv (snd (clock_step c x))"
    using inv t by (cases x) (auto simp: clock_now_def clock_publish_def clock_revoke_def keeps i64_le)
  show "\<exists>t'. clock_public (snd (clock_step c x)) = Some t' \<and> t \<le> t'" if pub: "clock_public c = Some t" for t
  proof -
    obtain e0 where e0: "c_estimate c = Some e0" "t = c_epoch c" using pub by (cases "c_estimate c") (auto simp: clock_public_def)
    show ?thesis
    proof (cases x)
      case (Now l)
      then show ?thesis using inv t e0 stepped_le [OF inv]
        by (simp add: clock_now_def clock_read_eq i64_le clock_public_def Let_def)
    next
      case (Publish e l)
      then show ?thesis using clock_observe_public [OF inv _ _ e0(1)] t e0
        by (auto simp: clock_publish_def clock_public_def i64_le)
    qed (use e0 in \<open>simp add: clock_revoke_def clock_public_def\<close>)
  qed
  show "r_ready r \<and> 0 \<le> r_time r \<and> r_time r \<le> i64_max \<and> clock_public c' = Some (r_time r)"
    if st: "clock_step c x = (Some r, c')" for r c'
  proof -
    obtain l where l: "x = Now l" using st by (cases x) auto
    then obtain e where e: "c_estimate c = Some e"
      using st by (cases "c_estimate c") (auto simp: clock_now_def clock_read_def)
    have le: "l \<le> i64_max" using t l by (simp add: i64_le)
    show ?thesis using st stepped_le [OF inv, of l] inv
      by (auto simp: l clock_now_def clock_read_eq [OF inv le e] clock_public_def e Let_def clock_inv_def split: if_splits)
  qed
qed

subsection \<open>Rate and accuracy\<close>

text \<open>Over any run the public time moves with the local clock up to the slewing allowance: the
  correction taken and the fraction carried never exceed what the elapsed time granted.\<close>

definition slew_gap :: "clock \<Rightarrow> clock \<Rightarrow> int" where
  "slew_gap c c' = \<bar>(c_epoch c' - c_epoch c) - (c_local c' - c_local c)\<bar>"

definition slew_ok :: "clock \<Rightarrow> clock \<Rightarrow> bool" where
  "slew_ok c c' \<longleftrightarrow> c_local c \<le> c_local c' \<and> c_slew c' = c_slew c \<and>
     slew_gap c c' * 1000000 + c_fraction c' \<le> (c_local c' - c_local c) * c_slew c + c_fraction c"

lemma slew_ok_refl: "slew_ok c c"
  by (simp add: slew_ok_def slew_gap_def)

lemma slew_ok_trans: "slew_ok a b \<Longrightarrow> slew_ok b c \<Longrightarrow> slew_ok a c"
proof -
  assume ab: "slew_ok a b" and bc: "slew_ok b c"
  have "slew_gap a c \<le> slew_gap a b + slew_gap b c"
    using abs_triangle_ineq [of "(c_epoch b - c_epoch a) - (c_local b - c_local a)" "(c_epoch c - c_epoch b) - (c_local c - c_local b)"]
    by (simp add: slew_gap_def algebra_simps)
  moreover have "(c_local b - c_local a) * c_slew a + (c_local c - c_local b) * c_slew a = (c_local c - c_local a) * c_slew a"
    by (simp add: algebra_simps)
  ultimately show ?thesis using ab bc unfolding slew_ok_def by auto
qed

lemma stepped_slew:
  assumes inv: "clock_inv c" and le: "c_local c \<le> l"
  shows "slew_ok c (stepped c l)"
proof -
  let ?tot = "(l - c_local c) * c_slew c + c_fraction c"
  note s = slewed_bounds [OF assms]
  have tot: "0 \<le> ?tot" using inv le by (simp add: clock_inv_def)
  have gap: "slew_gap c (stepped c l) = (if c_debt c = 0 then 0 else slewed c l)"
    using s by (auto simp: slew_gap_def stepped_def Let_def sgn_if)
  have "slewed c l * 1000000 + c_fraction (stepped c l) \<le> ?tot"
  proof (cases "\<bar>c_debt c\<bar> \<le> ?tot div 1000000")
    case True
    then have "slewed c l = \<bar>c_debt c\<bar>" by (simp add: slewed_def)
    moreover from this have "c_fraction (stepped c l) = 0" by (simp add: stepped_def Let_def mult_sgn_abs)
    ultimately show ?thesis using True by linarith
  next
    case False
    then have "slewed c l = ?tot div 1000000" by (simp add: slewed_def)
    moreover have "c_fraction (stepped c l) \<le> ?tot mod 1000000" by (simp add: stepped_def Let_def)
    ultimately show ?thesis by (metis (no_types, lifting) add_left_mono div_mult_mod_eq)
  qed
  then show ?thesis using le s(1) gap unfolding slew_ok_def by (auto simp: stepped_def Let_def split: if_splits)
qed

lemma clock_step_slew:
  assumes inv: "clock_inv c" and t: "op_typed x" and e: "c_estimate c = Some e"
  shows "slew_ok c (snd (clock_step c x))"
proof -
  have fld: "slew_ok c (c\<lparr>c_failed := b\<rparr>)" "slew_ok c (c\<lparr>c_trusted := b\<rparr>)" for b
    by (simp_all add: slew_ok_def slew_gap_def)
  show ?thesis
  proof (cases x)
    case (Now l)
    then show ?thesis using inv t e stepped_slew [OF inv, of l] fld
      by (simp add: clock_now_def clock_read_eq i64_le Let_def)
  next
    case (Publish p l)
    have l: "l \<le> i64_max" using t Publish by (simp add: i64_le)
    show ?thesis
    proof (cases "acceptable c p l")
      case True
      show ?thesis using Publish fld stepped_slew [OF inv, of l] stepped_inv [OF inv _ l]
        by (auto simp: clock_publish_def clock_observe_next [OF True e inv l] Let_def slew_ok_def slew_gap_def clock_inv_def)
    qed (use Publish l in \<open>simp add: clock_publish_def clock_observe_reject slew_ok_refl\<close>)
  qed (simp add: clock_revoke_def fld)
qed

lemma clock_run_slew:
  "clock_inv c \<Longrightarrow> list_all op_typed xs \<Longrightarrow> c_estimate c \<noteq> None \<Longrightarrow> slew_ok c (snd (op_run clock_step c xs))"
proof (induction xs arbitrary: c)
  case (Cons x xs)
  have t: "op_typed x" "list_all op_typed xs" using Cons.prems(2) by auto
  let ?c = "snd (clock_step c x)"
  have "slew_ok c ?c" using clock_step_slew [OF Cons.prems(1) t(1)] Cons.prems(3) by auto
  moreover have "c_estimate ?c \<noteq> None"
    using epoch_clock.step_public [OF Cons.prems(1) t(1)] Cons.prems(3) by (auto simp: clock_public_def)
  then have "slew_ok ?c (snd (op_run clock_step ?c xs))"
    using Cons.IH [OF epoch_clock.step_ok [OF Cons.prems(1) t(1)] t(2)] by simp
  ultimately show ?case using slew_ok_trans by (simp add: case_prod_beta)
qed (simp add: slew_ok_refl)

text \<open>Accuracy: \<open>T\<close> gives the true Unix time at each local instant; the local clock's rate is off by
  at most 2000 ppm, and every published estimate lies within its stated uncertainty.\<close>

definition rate_within :: "int \<Rightarrow> (ns \<Rightarrow> int) \<Rightarrow> bool" where
  "rate_within ppm T \<longleftrightarrow> (\<forall>a b. a \<le> b \<longrightarrow> \<bar>(T b - T a) - (b - a)\<bar> * 1000000 \<le> ppm * (b - a))"

definition accurate :: "(ns \<Rightarrow> int) \<Rightarrow> estimate \<Rightarrow> bool" where
  "accurate T e \<longleftrightarrow> \<bar>e_time e - T (e_sampled e)\<bar> \<le> e_uncertainty e"

fun op_accurate :: "(ns \<Rightarrow> int) \<Rightarrow> clock_op \<Rightarrow> bool" where
  "op_accurate T (Publish e l) = accurate T e"
| "op_accurate T _ = True"

lemma clock_step_estimate:
  assumes inv: "clock_inv c" and t: "op_typed x"
  shows "c_estimate (snd (clock_step c x)) = c_estimate c \<or> (\<exists>e l. x = Publish e l \<and> c_estimate (snd (clock_step c x)) = Some e)"
proof -
  show ?thesis
  proof (cases x)
    case (Now l)
    then have l: "l \<le> i64_max" using t by (simp add: i64_le)
    show ?thesis
      using Now by (cases "c_estimate c") (simp add: clock_now_def clock_read_def, simp add: clock_now_def clock_read_eq [OF inv l] Let_def)
  next
    case (Publish e l)
    then have l: "l \<le> i64_max" "estimate_typed e" using t by (simp_all add: i64_le)
    show ?thesis
    proof (cases "acceptable c e l")
      case True
      show ?thesis using Publish clock_observe_first [OF True _ l(2,1)] clock_observe_next [OF True _ inv l(1)]
        by (cases "c_estimate c") (auto simp: clock_publish_def Let_def)
    qed (use Publish l in \<open>simp add: clock_publish_def clock_observe_reject\<close>)
  qed (simp add: clock_revoke_def)
qed

lemma clock_run_accurate:
  assumes "clock_inv c" "list_all op_typed xs" "list_all (op_accurate T) xs" "\<forall>e. c_estimate c = Some e \<longrightarrow> accurate T e"
    and "c_estimate (snd (op_run clock_step c xs)) = Some e"
  shows "accurate T e"
  using assms
proof (induction xs arbitrary: c)
  case (Cons x xs)
  have "\<forall>e. c_estimate (snd (clock_step c x)) = Some e \<longrightarrow> accurate T e"
    using clock_step_estimate [of c x] Cons.prems(1-4) by auto
  moreover have "clock_inv (snd (clock_step c x))" using epoch_clock.step_ok Cons.prems(1,2) by simp
  ultimately show ?case using Cons by (simp add: case_prod_beta)
qed auto

lemma clock_read_accurate:
  assumes inv: "clock_inv c" and loc: "l \<le> i64_max" and e: "c_estimate c = Some e" "accurate T e"
    and rate: "rate_within 2000 T" and r: "clock_read c l = (Some r, c')"
  shows "\<bar>r_time r - T l\<bar> \<le> r_uncertainty r"
proof -
  let ?c = "stepped c l" and ?age = "l - e_sampled e"
  have ok: "\<not> (c_failed c \<or> l < c_local c \<or> c_epoch ?c > i64_max)"
    using r by (auto simp: clock_read_eq [OF inv loc e(1)])
  then have inv': "clock_inv ?c" using stepped_inv [OF inv _ loc] by simp
  have age: "0 \<le> ?age" "?age \<le> i64_max" using inv' e(1) loc by (auto simp: clock_inv_def)
  have track: "c_epoch ?c + c_debt ?c = e_time e + ?age" using inv' e(1) by (simp add: clock_inv_def)
  have "\<bar>(T l - T (e_sampled e)) - ?age\<bar> * 1000000 \<le> 2000 * ?age" using rate age(1) by (simp add: rate_within_def)
  also have "\<dots> \<le> drift ?age 2000 * 1000000" using drift_bounds(3) [OF age, of 2000] by (simp add: mult.commute)
  finally have "\<bar>(T l - T (e_sampled e)) - ?age\<bar> \<le> drift ?age 2000" by simp
  then have "\<bar>c_epoch ?c - T l\<bar> \<le> e_uncertainty e + drift ?age 2000 + \<bar>c_debt ?c\<bar>"
    using track e(2) unfolding accurate_def by linarith
  then show ?thesis using r ok by (auto simp: clock_read_eq [OF inv loc e(1)] Let_def)
qed

end
