(* ===== verification/Clock_Filter.thy ===== *)
theory Clock_Filter
  imports Clock_Source
begin

text \<open>
  The sample filter and the precision measurement, and the properties of the clock component.
\<close>

subsection \<open>The filter\<close>

definition sample_typed :: "int \<Rightarrow> int \<Rightarrow> int \<Rightarrow> ns \<Rightarrow> int \<Rightarrow> int \<Rightarrow> bool" where
  "sample_typed t0 t1 t2 t3 precision uncertainty \<longleftrightarrow>
     0 \<le> t0 \<and> 0 \<le> t1 \<and> 0 \<le> t2 \<and> i64 t3 \<and> 0 \<le> precision \<and> 0 \<le> uncertainty"

text \<open>The estimate a sample stands for, in exact arithmetic.\<close>

definition sample_dispersion :: "sample_filter \<Rightarrow> int \<Rightarrow> int \<Rightarrow> int \<Rightarrow> int" where
  "sample_dispersion f t0 t3 precision = f_precision f + precision + drift (t3 - t0) 1500"

definition sample_rtt :: "sample_filter \<Rightarrow> int \<Rightarrow> int \<Rightarrow> int \<Rightarrow> int \<Rightarrow> int" where
  "sample_rtt f t0 t1 t2 t3 = max (max 0 ((t3 - t0) - (t2 - t1))) (f_precision f)"

definition sample_estimate :: "sample_filter \<Rightarrow> int \<Rightarrow> int \<Rightarrow> int \<Rightarrow> int \<Rightarrow> int \<Rightarrow> int \<Rightarrow> estimate" where
  "sample_estimate f t0 t1 t2 t3 precision uncertainty =
     (let rtt = sample_rtt f t0 t1 t2 t3 in
      \<lparr>e_time = t3 + midpoint (t1 - t0) (t2 - t3), e_sampled = t3,
       e_uncertainty = uncertainty + sample_dispersion f t0 t3 precision + (rtt + 1) div 2 + 1, e_rtt = rtt\<rparr>)"

definition estimate_fit :: "estimate \<Rightarrow> bool" where
  "estimate_fit e \<longleftrightarrow> 0 \<le> e_time e \<and> e_time e \<le> i64_max \<and> 0 \<le> e_sampled e \<and> e_sampled e \<le> i64_max \<and>
     0 \<le> e_uncertainty e \<and> e_uncertainty e \<le> 1000000000 \<and> 0 \<le> e_rtt e \<and> e_rtt e \<le> 200000000"

definition filter_inv :: "sample_filter \<Rightarrow> bool" where
  "filter_inv f \<longleftrightarrow> 1 \<le> f_precision f \<and> f_precision f \<le> 20000000 \<and> f_count f \<le> 8 \<and>
     (f_best f = None \<longleftrightarrow> f_count f = 0) \<and> (\<forall>e. f_best f = Some e \<longrightarrow> estimate_fit e)"

lemma sample_bounds:
  assumes f: "filter_inv f" and t: "sample_typed t0 t1 t2 t3 precision uncertainty"
    and g: "precision \<le> 20000000" "uncertainty \<le> clock_uncertainty_limit_ns" "t0 \<le> t3" "t1 \<le> t2"
      "t3 - t0 \<le> 200000000" "t2 - t1 \<le> 200000000"
  shows "0 \<le> drift (t3 - t0) 1500" "drift (t3 - t0) 1500 \<le> 400002" "0 \<le> sample_rtt f t0 t1 t2 t3" "sample_rtt f t0 t1 t2 t3 \<le> 200000000"
  using drift_bounds [of "t3 - t0" 1500] f t g
  by (auto simp: i64_max_def sample_rtt_def filter_inv_def)

lemma filter_observe_accept:
  assumes f: "filter_inv f" and t: "sample_typed t0 t1 t2 t3 precision uncertainty"
    and r: "filter_observe f t0 t1 t2 t3 precision uncertainty synchronized = (True, f')"
  shows "synchronized \<and> precision \<noteq> 0 \<and> precision \<le> 20000000 \<and> uncertainty \<le> clock_uncertainty_limit_ns \<and>
      t1 \<le> i64_max \<and> t2 \<le> i64_max \<and> t0 \<le> t3 \<and> t1 \<le> t2 \<and> t3 - t0 \<le> 200000000 \<and> t2 - t1 \<le> 200000000"
    and "0 \<le> t3 + midpoint (t1 - t0) (t2 - t3) \<and> t3 + midpoint (t1 - t0) (t2 - t3) \<le> i64_max"
    and "f' = f\<lparr>f_best := (let e = sample_estimate f t0 t1 t2 t3 precision uncertainty in
        if (case f_best f of None \<Rightarrow> True | Some b \<Rightarrow> e_rtt e \<le> e_rtt b) then Some e else f_best f),
        f_count := min (f_count f + 1) 8\<rparr>"
proof -
  have g: "synchronized" "precision \<noteq> 0" "precision \<le> 20000000" "uncertainty \<le> clock_uncertainty_limit_ns"
    "t1 \<le> i64_max" "t2 \<le> i64_max" "0 \<le> t3" "t0 \<le> t3" "t1 \<le> t2"
    using r by (simp_all add: filter_observe_def Let_def del: u64w_id split: if_splits)
  have w: "u64w (t3 - t0) = t3 - t0" "u64w (t2 - t1) = t2 - t1" using g t by (auto simp: sample_typed_def i64_def i64_max_def)
  have el: "t3 - t0 \<le> 200000000" "t2 - t1 \<le> 200000000"
    using r by (auto simp: filter_observe_def Let_def w simp del: u64w_id split: if_splits)
  note b = sample_bounds [OF f t g(3,4,8,9) el]
  have p: "1 \<le> f_precision f" "f_precision f \<le> 20000000" "0 \<le> precision" "0 \<le> uncertainty"
    using f t by (auto simp: filter_inv_def sample_typed_def)
  have dw: "u64w (u64w (f_precision f + precision) + drift (t3 - t0) 1500) = sample_dispersion f t0 t3 precision"
    using b p g by (simp add: sample_dispersion_def)
  have rw: "max (if t3 - t0 > t2 - t1 then u64w ((t3 - t0) - (t2 - t1)) else 0) (f_precision f) = sample_rtt f t0 t1 t2 t3"
    using el g by (auto simp: sample_rtt_def)
  let ?disp = "sample_dispersion f t0 t3 precision" and ?rtt = "sample_rtt f t0 t1 t2 t3"
  have d: "0 \<le> ?disp" "?disp \<le> 41000000" using b p g by (simp_all add: sample_dispersion_def)
  have h: "0 \<le> (?rtt + 1) div 2" "(?rtt + 1) div 2 \<le> 100000001" "u64w (?rtt + 1) = ?rtt + 1" using b by simp_all
  have ew: "u64w (u64w (u64w (uncertainty + ?disp) + u64w (?rtt + 1) div 2) + 1) = uncertainty + ?disp + (?rtt + 1) div 2 + 1"
    unfolding h(3) using d h p g by (simp add: clock_uncertainty_limit_ns_def)
  let ?off = "midpoint (t1 - t0) (t2 - t3)"
  have off: "\<not> ((?off > 0 \<and> t3 > i64_max - ?off) \<or> (?off < 0 \<and> ?off < - t3))"
    using r by (auto simp: filter_observe_def Let_def w simp del: u64w_id split: if_splits)
  then show "0 \<le> t3 + ?off \<and> t3 + ?off \<le> i64_max" using g t by (auto simp: sample_typed_def i64_def i64_max_def)
  show "synchronized \<and> precision \<noteq> 0 \<and> precision \<le> 20000000 \<and> uncertainty \<le> clock_uncertainty_limit_ns \<and>
      t1 \<le> i64_max \<and> t2 \<le> i64_max \<and> t0 \<le> t3 \<and> t1 \<le> t2 \<and> t3 - t0 \<le> 200000000 \<and> t2 - t1 \<le> 200000000"
    using g el by blast
  show "f' = f\<lparr>f_best := (let e = sample_estimate f t0 t1 t2 t3 precision uncertainty in
        if (case f_best f of None \<Rightarrow> True | Some b \<Rightarrow> e_rtt e \<le> e_rtt b) then Some e else f_best f),
        f_count := min (f_count f + 1) 8\<rparr>"
    using r g el off unfolding filter_observe_def Let_def w dw rw ew
    by (auto simp: sample_estimate_def Let_def simp del: u64w_id split: if_splits option.splits)
qed

lemma sample_estimate_fit:
  assumes f: "filter_inv f" and t: "sample_typed t0 t1 t2 t3 precision uncertainty"
    and r: "filter_observe f t0 t1 t2 t3 precision uncertainty synchronized = (True, f')"
  shows "estimate_fit (sample_estimate f t0 t1 t2 t3 precision uncertainty)"
proof -
  note a = filter_observe_accept [OF assms]
  have g: "precision \<le> 20000000" "uncertainty \<le> clock_uncertainty_limit_ns" "t0 \<le> t3" "t1 \<le> t2"
      "t3 - t0 \<le> 200000000" "t2 - t1 \<le> 200000000" using a(1) by auto
  note b = sample_bounds [OF f t g]
  show ?thesis using a(2) b g f t
    by (auto simp: estimate_fit_def sample_estimate_def Let_def sample_dispersion_def filter_inv_def sample_typed_def
        clock_uncertainty_limit_ns_def i64_def i64_max_def)
qed

lemma filter_observe_inv [keeps]:
  assumes f: "filter_inv f" and t: "sample_typed t0 t1 t2 t3 precision uncertainty"
    and r: "filter_observe f t0 t1 t2 t3 precision uncertainty synchronized = (b, f')"
  shows "filter_inv f' \<and> f_precision f' = f_precision f \<and> (\<not> b \<longrightarrow> f' = f)"
proof (cases b)
  case True
  then have r': "filter_observe f t0 t1 t2 t3 precision uncertainty synchronized = (True, f')" using r by simp
  note a = filter_observe_accept [OF f t r'] and e = sample_estimate_fit [OF f t r']
  show ?thesis using a(3) e f True by (auto simp: filter_inv_def Let_def split: option.splits)
next
  case False
  then have "f' = f" using r by (simp add: filter_observe_def Let_def del: u64w_id split: if_splits)
  then show ?thesis using f by simp
qed

text \<open>An honest exchange: the server stamped \<open>t1\<close> and \<open>t2\<close> at local instants \<open>a\<close> and \<open>b\<close> inside the round
  trip, with a common offset within its stated uncertainty and rounding within the two
  precisions.  Nothing is assumed about how the round trip splits into its two directions.\<close>

definition honest_sample :: "(ns \<Rightarrow> int) \<Rightarrow> int \<Rightarrow> int \<Rightarrow> int \<Rightarrow> int \<Rightarrow> int \<Rightarrow> int \<Rightarrow> bool" where
  "honest_sample T quantum t0 t1 t2 t3 uncertainty \<longleftrightarrow>
     (\<exists>a b s q1 q2. t0 \<le> a \<and> a \<le> t3 \<and> t0 \<le> b \<and> b \<le> t3 \<and> \<bar>s\<bar> \<le> uncertainty \<and> \<bar>q1\<bar> \<le> quantum \<and> \<bar>q2\<bar> \<le> quantum \<and>
        t1 = T a + s + q1 \<and> t2 = T b + s + q2)"

lemma midpoint_near: "\<bar>2 * midpoint a b - (a + b)\<bar> \<le> 1"
  unfolding midpoint_def by auto

lemma half_bound:
  fixes x r d :: int
  shows "2 * x \<le> r + 2 * d + 1 \<Longrightarrow> - (r + 2 * d + 1) \<le> 2 * x \<Longrightarrow> \<bar>x\<bar> \<le> d + (r + 1) div 2 + 1"
  by presburger

lemma sample_estimate_accurate:
  assumes rate: "rate_within 1500 T" and h: "honest_sample T (f_precision f + precision) t0 t1 t2 t3 uncertainty"
    and el: "t0 \<le> t3" "t3 - t0 \<le> i64_max" and f: "1 \<le> f_precision f" "0 \<le> precision"
  shows "accurate T (sample_estimate f t0 t1 t2 t3 precision uncertainty)"
proof -
  obtain a b s q1 q2 where ab: "t0 \<le> a" "a \<le> t3" "t0 \<le> b" "b \<le> t3" and s: "\<bar>s\<bar> \<le> uncertainty"
    and q: "\<bar>q1\<bar> \<le> f_precision f + precision" "\<bar>q2\<bar> \<le> f_precision f + precision"
    and t: "t1 = T a + s + q1" "t2 = T b + s + q2" using h unfolding honest_sample_def by blast
  let ?D = "drift (t3 - t0) 1500" and ?th = "\<lambda>x. T x - x"
  have D: "\<bar>?th x - ?th t3\<bar> \<le> ?D" if "t0 \<le> x" "x \<le> t3" for x
  proof -
    have "\<bar>(T t3 - T x) - (t3 - x)\<bar> * 1000000 \<le> 1500 * (t3 - x)" using rate that by (simp add: rate_within_def)
    also have "\<dots> \<le> (t3 - t0) * 1500" using that by simp
    also have "\<dots> \<le> ?D * 1000000" using el by (intro drift_bounds(3)) auto
    finally have "\<bar>(T t3 - T x) - (t3 - x)\<bar> \<le> ?D" by simp
    then show ?thesis by linarith
  qed
  define e1 where "e1 = q1 + (?th a - ?th t3)"
  define e2 where "e2 = q2 + (?th b - ?th t3)"
  have e: "\<bar>e1\<bar> \<le> sample_dispersion f t0 t3 precision" "\<bar>e2\<bar> \<le> sample_dispersion f t0 t3 precision"
    using q D [OF ab(1,2)] D [OF ab(3,4)] unfolding e1_def e2_def sample_dispersion_def by linarith+
  let ?off = "midpoint (t1 - t0) (t2 - t3)" and ?rtt = "sample_rtt f t0 t1 t2 t3"
  have split: "(t3 - t0) - (t2 - t1) = (a - t0) + (t3 - b) - e2 + e1"
    and sum: "(t1 - t0) + (t2 - t3) = (a - t0) - (t3 - b) + e1 + e2 + 2 * (?th t3) + 2 * s"
    by (simp_all add: t e1_def e2_def)
  have r: "(t3 - t0) - (t2 - t1) \<le> ?rtt" "0 \<le> ?rtt" by (auto simp: sample_rtt_def)
  have near: "2 * ?off \<le> (t1 - t0) + (t2 - t3) + 1" "(t1 - t0) + (t2 - t3) - 1 \<le> 2 * ?off"
    using midpoint_near [of "t1 - t0" "t2 - t3"] by linarith+
  have e': "e1 \<le> sample_dispersion f t0 t3 precision" "- e1 \<le> sample_dispersion f t0 t3 precision"
    "e2 \<le> sample_dispersion f t0 t3 precision" "- e2 \<le> sample_dispersion f t0 t3 precision" using e by linarith+
  have reach: "(a - t0) - (t3 - b) + e1 + e2 \<le> ?rtt + 2 * sample_dispersion f t0 t3 precision"
    using split r(1) ab(4) e'(3) by linarith
  have reach': "- (?rtt + 2 * sample_dispersion f t0 t3 precision) \<le> (a - t0) - (t3 - b) + e1 + e2"
    using split r(1) ab(1) e'(2) by linarith
  have up: "2 * (?off - ?th t3 - s) \<le> ?rtt + 2 * sample_dispersion f t0 t3 precision + 1"
    using near(1) sum reach unfolding right_diff_distrib by linarith
  have lo: "- (?rtt + 2 * sample_dispersion f t0 t3 precision + 1) \<le> 2 * (?off - ?th t3 - s)"
    using near(2) sum reach' unfolding right_diff_distrib by linarith
  have "\<bar>?off - ?th t3 - s\<bar> \<le> sample_dispersion f t0 t3 precision + (?rtt + 1) div 2 + 1" by (rule half_bound [OF up lo])
  then have "\<bar>t3 + ?off - T t3\<bar> \<le> uncertainty + sample_dispersion f t0 t3 precision + (?rtt + 1) div 2 + 1"
    using s by linarith
  then show ?thesis by (simp add: accurate_def sample_estimate_def Let_def)
qed

record sample =
  s_t0 :: int
  s_t1 :: int
  s_t2 :: int
  s_t3 :: ns
  s_precision :: int
  s_uncertainty :: int
  s_synchronized :: bool

definition filter_take :: "sample_filter \<Rightarrow> sample \<Rightarrow> sample_filter" where
  "filter_take f s = snd (filter_observe f (s_t0 s) (s_t1 s) (s_t2 s) (s_t3 s) (s_precision s) (s_uncertainty s) (s_synchronized s))"

definition sample_good :: "(ns \<Rightarrow> int) \<Rightarrow> int \<Rightarrow> sample \<Rightarrow> bool" where
  "sample_good T p s \<longleftrightarrow> sample_typed (s_t0 s) (s_t1 s) (s_t2 s) (s_t3 s) (s_precision s) (s_uncertainty s) \<and>
     honest_sample T (p + s_precision s) (s_t0 s) (s_t1 s) (s_t2 s) (s_t3 s) (s_uncertainty s)"

lemma filter_new_inv [keeps]: "1 \<le> p \<Longrightarrow> filter_new p = Some f \<Longrightarrow> filter_inv f \<and> f_precision f = p \<and> f_best f = None"
  by (auto simp: filter_new_def filter_inv_def split: if_splits)

lemma filter_take_good:
  assumes f: "filter_inv f" and rate: "rate_within 1500 T" and g: "sample_good T (f_precision f) s"
    and best: "\<forall>e. f_best f = Some e \<longrightarrow> accurate T e"
  shows "filter_inv (filter_take f s) \<and> f_precision (filter_take f s) = f_precision f \<and>
    (\<forall>e. f_best (filter_take f s) = Some e \<longrightarrow> accurate T e)"
proof -
  obtain b f' where r: "filter_observe f (s_t0 s) (s_t1 s) (s_t2 s) (s_t3 s) (s_precision s) (s_uncertainty s) (s_synchronized s) = (b, f')"
    by fastforce
  have t: "sample_typed (s_t0 s) (s_t1 s) (s_t2 s) (s_t3 s) (s_precision s) (s_uncertainty s)"
    and h: "honest_sample T (f_precision f + s_precision s) (s_t0 s) (s_t1 s) (s_t2 s) (s_t3 s) (s_uncertainty s)"
    using g by (auto simp: sample_good_def)
  have take: "filter_take f s = f'" by (simp add: filter_take_def r)
  have kept: "filter_inv f'" "f_precision f' = f_precision f" "\<not> b \<longrightarrow> f' = f" using filter_observe_inv [OF f t r] by auto
  have "accurate T e" if e: "f_best f' = Some e" for e
  proof (cases b)
    case True
    then have r': "filter_observe f (s_t0 s) (s_t1 s) (s_t2 s) (s_t3 s) (s_precision s) (s_uncertainty s) (s_synchronized s) = (True, f')"
      using r by simp
    note a = filter_observe_accept [OF f t r']
    have "accurate T (sample_estimate f (s_t0 s) (s_t1 s) (s_t2 s) (s_t3 s) (s_precision s) (s_uncertainty s))"
      using a(1) t f by (intro sample_estimate_accurate [OF rate h]) (auto simp: i64_max_def filter_inv_def sample_typed_def)
    then show ?thesis using e best unfolding a(3) by (auto simp: Let_def split: if_splits)
  next
    case False
    then show ?thesis using kept(3) e best by simp
  qed
  then show ?thesis using kept take by simp
qed

lemma filter_run_good:
  assumes "rate_within 1500 T" "filter_inv f" "\<forall>e. f_best f = Some e \<longrightarrow> accurate T e"
    and "list_all (sample_good T (f_precision f)) ss"
  shows "filter_inv (foldl filter_take f ss) \<and> (\<forall>e. f_best (foldl filter_take f ss) = Some e \<longrightarrow> accurate T e)"
  using assms(2-4)
proof (induction ss arbitrary: f)
  case (Cons s ss)
  have g: "sample_good T (f_precision f) s" "list_all (sample_good T (f_precision f)) ss" using Cons.prems(3) by simp_all
  note one = filter_take_good [OF Cons.prems(1) assms(1) g(1) Cons.prems(2)]
  show ?case using Cons.IH [of "filter_take f s"] one g(2) by simp
qed simp

subsection \<open>Measuring precision\<close>

lemma precision_batch_state:
  assumes "precision_batch k read s before best edges = Inr (before', best', edges', s')"
    and "\<And>s. m (snd (read s)) \<le> (m s :: nat)"
  shows "m s' \<le> m s"
  using assms(1)
proof (induction k arbitrary: s before best edges)
  case (Suc k)
  obtain after s1 where r: "read s = (after, s1)" by (cases "read s")
  have le: "m s1 \<le> m s" using assms(2) [of s] r by simp
  show ?case using Suc.prems r le Suc.IH [of s1] by (fastforce split: if_splits dest: Suc.IH)
qed auto

text \<open>If every granted batch uses up some of a finite budget, the loop ends.\<close>

lemma precision_loop_ends:
  assumes read: "\<And>s. m (snd (read s)) \<le> (m s :: nat)"
    and run: "\<And>s s'. running s = (Some True, s') \<Longrightarrow> m s' < m s"
  shows "\<exists>r. precision_loop read running s before best edges = Some r"
proof (induction "m s" arbitrary: s before best edges rule: less_induct)
  case less
  show ?case
  proof (cases "edges < 32 \<and> fst (running s) = Some True")
    case True
    then obtain s1 where s1: "running s = (Some True, s1)" by (cases "running s") auto
    show ?thesis
    proof (cases "precision_batch 128 read s1 before best edges")
      case (Inl e)
      then show ?thesis using True s1 by (subst precision_loop.simps) simp
    next
      case (Inr x)
      obtain b2 best2 e2 s2 where x: "x = (b2, best2, e2, s2)" by (cases x) auto
      have "m s2 \<le> m s1" using precision_batch_state [where m = m, OF Inr [unfolded x] read] .
      then have "m s2 < m s" using run [OF s1] by simp
      then show ?thesis using less [of s2] True s1 Inr x by (subst precision_loop.simps) simp
    qed
  next
    case False
    then show ?thesis
      by (subst precision_loop.simps) (auto split: prod.splits option.splits)
  qed
qed

subsection \<open>Properties\<close>

definition sample_estimate_0 :: estimate where
  "sample_estimate_0 = \<lparr>e_time = 1000000000, e_sampled = 5, e_uncertainty = 1000, e_rtt = 100\<rparr>"

definition clock_0 :: clock where
  "clock_0 = \<lparr>c_slew = 1000, c_estimate = None, c_local = 0, c_epoch = 0, c_debt = 0, c_fraction = 0,
     c_trusted = False, c_failed = False\<rparr>"

lemma clock_0_new: "clock_new 1000 = Some clock_0"
  by (simp add: clock_new_def clock_0_def)

text \<open>C18: whatever sequence of readings, publications and revocations a clock goes through (local
  times may even run backwards), the readings it gives never go back, are never negative or
  beyond the representable range, and are always marked ready.\<close>

theorem clock_readings_monotone:
  assumes "1 \<le> p" "clock_new p = Some c" "list_all op_typed ops"
  shows "sorted (map r_time (fst (op_run clock_step c ops))) \<and>
    (\<forall>r \<in> set (fst (op_run clock_step c ops)). r_ready r \<and> 0 \<le> r_time r \<and> r_time r \<le> i64_max)"
proof -
  have inv: "clock_inv c" using clock_new_inv [OF assms(1,2)] by simp
  obtain rs c' where r: "op_run clock_step c ops = (rs, c')" by (cases "op_run clock_step c ops")
  show ?thesis using epoch_clock.run_sorted [OF inv assms(3) r] epoch_clock.run_bounded [OF inv assms(3) r] by (simp add: r)
qed

theorem clock_readings_monotone_witness:
  "sorted (map r_time (fst (op_run clock_step clock_0 [Publish sample_estimate_0 10, Now 20, Revoke, Now 15]))) \<and>
   map r_time (fst (op_run clock_step clock_0 [Publish sample_estimate_0 10, Now 20, Revoke, Now 15])) = [1000000015]"
  using clock_readings_monotone [OF _ clock_0_new, of "[Publish sample_estimate_0 10, Now 20, Revoke, Now 15]"]
  by (simp add: i64_def estimate_typed_def sample_estimate_0_def)
    (simp add: clock_0_def clock_publish_def clock_observe_def Let_def drift_def freshness_def i64_max_def
      clock_uncertainty_limit_ns_def clock_now_def clock_read_def clock_advance_def magnitude_def i64_def clock_revoke_def)

text \<open>C29: the public time never jumps.  Once calibrated, over any further run of operations the
  public time has moved by the elapsed local time up to the slewing allowance of
  \<open>slew_ppm\<close> millionths, however often estimates are replaced in between.\<close>

theorem clock_rate_bounded:
  assumes "clock_inv c" "c_estimate c \<noteq> None" "list_all op_typed ops"
  shows "let c' = snd (op_run clock_step c ops); elapsed = c_local c' - c_local c in
    0 \<le> elapsed \<and> \<bar>(c_epoch c' - c_epoch c) - elapsed\<bar> \<le> (elapsed * c_slew c + 999999) div 1000000"
proof -
  let ?c = "snd (op_run clock_step c ops)"
  have s: "slew_ok c ?c" using clock_run_slew [OF assms(1,3,2)] .
  have "clock_inv ?c" using epoch_clock.run_ok [OF assms(1,3)] .
  then have f: "0 \<le> c_fraction ?c" "c_fraction c < 1000000" using assms(1) by (auto simp: clock_inv_def)
  have "g \<le> (t + 999999) div 1000000" if "g * 1000000 + f' \<le> t + f" "0 \<le> f'" "f < 1000000" for g t f f' :: int
    using that by linarith
  from this [OF _ f] show ?thesis using s unfolding slew_ok_def slew_gap_def Let_def by auto
qed

definition clock_1 :: clock where
  "clock_1 = \<lparr>c_slew = 1000, c_estimate = Some sample_estimate_0, c_local = 10, c_epoch = 1000000000, c_debt = 5,
     c_fraction = 1000, c_trusted = True, c_failed = False\<rparr>"

lemma clock_1_inv: "clock_inv clock_1"
  by (simp add: clock_inv_def clock_1_def sample_estimate_0_def i64_max_def)

theorem clock_rate_bounded_witness:
  "\<bar>(c_epoch (snd (op_run clock_step clock_1 [Now 5000])) - c_epoch clock_1) - 4990\<bar> \<le> (4990 * 1000 + 999999) div 1000000"
proof -
  have "c_local (snd (op_run clock_step clock_1 [Now 5000])) = 5000"
    by (simp add: clock_now_def clock_read_eq clock_1_inv clock_1_def sample_estimate_0_def i64_max_def stepped_def slewed_def Let_def)
      (use clock_1_inv in \<open>simp add: clock_read_eq clock_1_def i64_max_def sample_estimate_0_def stepped_def slewed_def Let_def\<close>)
  then show ?thesis using clock_rate_bounded [OF clock_1_inv, of "[Now 5000]"]
    by (simp add: Let_def i64_def) (simp add: clock_1_def)
qed

text \<open>C28: the stated uncertainty is sound.  Let \<open>T\<close> be the true Unix time at each local instant, the
  local oscillator off by at most 2000 ppm, and every estimate published to a new clock
  within its own uncertainty; then every reading of the clock is within its stated
  uncertainty of the true time, whatever was published, revoked and read before.\<close>

theorem clock_reading_sound:
  assumes "1 \<le> p" "clock_new p = Some c" "list_all op_typed ops" "list_all (op_accurate T) ops" "rate_within 2000 T"
    and "i64 l" "clock_now (snd (op_run clock_step c ops)) l = (Some r, c')"
  shows "\<bar>r_time r - T l\<bar> \<le> r_uncertainty r"
proof -
  let ?c = "snd (op_run clock_step c ops)"
  have c: "clock_inv c" "c_estimate c = None" using clock_new_inv [OF assms(1,2)] by simp_all
  have inv: "clock_inv ?c" using epoch_clock.run_ok [OF c(1) assms(3)] .
  obtain e where e: "c_estimate ?c = Some e"
    using assms(7) by (cases "c_estimate ?c") (simp_all add: clock_now_def clock_read_def)
  have "accurate T e" using clock_run_accurate [OF c(1) assms(3,4) _ e] c(2) by simp
  then show ?thesis
    using clock_read_accurate [OF inv i64_le [OF assms(6)] e _ assms(5)] assms(7) by (simp add: clock_now_def)
qed

theorem clock_reading_sound_witness:
  "\<exists>r c'. clock_now (snd (op_run clock_step clock_0 [Publish sample_estimate_0 10])) 20 = (Some r, c') \<and>
     \<bar>r_time r - (1000000000 + 20)\<bar> \<le> r_uncertainty r"
proof -
  let ?c = "snd (op_run clock_step clock_0 [Publish sample_estimate_0 10])"
  have "fst (clock_now ?c 20) \<noteq> None"
    by (simp add: sample_estimate_0_def clock_0_def clock_publish_def clock_observe_def Let_def drift_def freshness_def i64_max_def
      clock_uncertainty_limit_ns_def clock_now_def clock_read_def clock_advance_def magnitude_def i64_def)
  then obtain r c' where r: "clock_now ?c 20 = (Some r, c')" by (cases "clock_now ?c 20") auto
  have "list_all (op_accurate (\<lambda>x. 1000000000 + x)) [Publish sample_estimate_0 10]"
    by (simp add: accurate_def sample_estimate_0_def)
  moreover have "rate_within 2000 (\<lambda>x. 1000000000 + x)" by (simp add: rate_within_def)
  ultimately have "\<bar>r_time r - (1000000000 + 20)\<bar> \<le> r_uncertainty r"
    using clock_reading_sound [OF _ clock_0_new _ _ _ _ r, of "\<lambda>x. 1000000000 + x"]
    by (simp add: i64_def estimate_typed_def sample_estimate_0_def)
  then show ?thesis using r by blast
qed

text \<open>Cutting an interval does not change the clock.  Advancing to \<open>a\<close> and then to \<open>b\<close> succeeds
  exactly when advancing to \<open>b\<close> at once does, and leaves the same epoch, debt and carried
  fraction, so frequent readers neither speed up nor slow down the correction.\<close>

theorem clock_advance_split:
  assumes "clock_inv c" "c_local c \<le> a" "a \<le> b" "b \<le> i64_max"
  shows "(fst (clock_advance c b) \<longleftrightarrow> fst (clock_advance c a) \<and> fst (clock_advance (snd (clock_advance c a)) b)) \<and>
    (fst (clock_advance c b) \<longrightarrow> snd (clock_advance (snd (clock_advance c a)) b) = snd (clock_advance c b))"
proof -
  note cut = stepped_twice [OF assms(1-3)]
  have "c_epoch (stepped c a) \<le> c_epoch (stepped c b)"
    using stepped_core_le [of "stepped c a" b, OF stepped_core [OF clock_inv_core [OF assms(1)]]] assms(3) by (simp add: cut)
  then show ?thesis
    using assms stepped_inv [OF assms(1,2)] by (auto simp: clock_advance_eq cut)
qed

theorem clock_advance_split_witness:
  "fst (clock_advance clock_1 30) \<longleftrightarrow> fst (clock_advance clock_1 20) \<and> fst (clock_advance (snd (clock_advance clock_1 20)) 30)"
  using clock_advance_split [OF clock_1_inv, of 20 30] by (simp add: clock_1_def i64_max_def)

text \<open>C37: the correction is finite.  A reading taken after the clock's debt could be worked off
  (elapsed time times \<open>slew_ppm\<close> at least the debt in millionths) shows exactly the last accepted
  estimate extrapolated to the present, and its uncertainty has no debt left in it.\<close>

theorem clock_converges:
  assumes "clock_inv c" "c_estimate c = Some e" "\<not> c_failed c" "c_local c \<le> l"
    and "e_time e + (l - e_sampled e) \<le> i64_max" "l \<le> i64_max"
    and "\<bar>c_debt c\<bar> * 1000000 \<le> (l - c_local c) * c_slew c"
  shows "\<exists>r c'. clock_now c l = (Some r, c') \<and> c_debt c' = 0 \<and> r_time r = e_time e + (l - e_sampled e) \<and>
    r_uncertainty r = e_uncertainty e + drift (l - e_sampled e) 2000"
proof -
  let ?c = "stepped c l"
  have "\<bar>c_debt c\<bar> \<le> ((l - c_local c) * c_slew c + c_fraction c) div 1000000"
    using assms(1,7) unfolding clock_inv_def by linarith
  then have "slewed c l = \<bar>c_debt c\<bar>" by (simp add: slewed_def)
  then have c: "c_debt ?c = 0" "c_epoch ?c = c_epoch c + (l - c_local c) + c_debt c"
    by (simp_all add: stepped_def Let_def mult_sgn_abs)
  have "c_epoch c + c_debt c = e_time e + (c_local c - e_sampled e)" using assms(1,2) by (simp add: clock_inv_def)
  then have "c_epoch ?c = e_time e + (l - e_sampled e)" using c(2) by simp
  then show ?thesis using assms c(1) by (simp add: clock_now_def clock_read_eq Let_def)
qed

theorem clock_converges_witness:
  "\<exists>r c'. clock_now clock_1 10000 = (Some r, c') \<and> c_debt c' = 0 \<and> r_time r = 1000000000 + (10000 - 5) \<and>
    r_uncertainty r = 1000 + drift (10000 - 5) 2000"
  using clock_converges [OF clock_1_inv, of sample_estimate_0 10000]
  by (simp add: clock_1_def sample_estimate_0_def i64_max_def)

text \<open>C38: the four-timestamp filter is sound.  If the server's two stamps were taken somewhere inside
  the round trip (in no particular proportion), with a common offset within its stated
  uncertainty and rounding within the two precisions, and the clocks drift by at most
  1500 ppm, then the estimate the filter returns after any batch of samples, accepted or
  not, is within its stated uncertainty of the true time, and in the range in which the
  clock takes estimates.\<close>

theorem filter_estimate_sound:
  assumes "1 \<le> p" "filter_new p = Some f" "rate_within 1500 T" "list_all (sample_good T p) ss"
    and "filter_result (foldl filter_take f ss) = Some e"
  shows "accurate T e \<and> estimate_fit e"
proof -
  have f: "filter_inv f" "f_precision f = p" "f_best f = None" using filter_new_inv [OF assms(1,2)] by simp_all
  have "f_best (foldl filter_take f ss) = Some e" using assms(5) by (simp add: filter_result_def split: if_splits)
  then show ?thesis using filter_run_good [OF assms(3) f(1)] f assms(4) by (auto simp: filter_inv_def)
qed

definition sample_0 :: sample where
  "sample_0 = \<lparr>s_t0 = 100, s_t1 = 1000000000 + 140, s_t2 = 1000000000 + 150, s_t3 = 200, s_precision = 1,
     s_uncertainty = 50, s_synchronized = True\<rparr>"

lemma sample_0_good: "sample_good (\<lambda>x. 1000000000 + x) 1 sample_0"
proof -
  have "honest_sample (\<lambda>x. 1000000000 + x) 2 100 (1000000000 + 140) (1000000000 + 150) 200 50"
    unfolding honest_sample_def
    by (rule exI [of _ 140], rule exI [of _ 150], rule exI [of _ 0], rule exI [of _ 0], rule exI [of _ 0]) simp
  then show ?thesis by (simp add: sample_good_def sample_0_def sample_typed_def i64_def)
qed

theorem filter_estimate_sound_witness:
  "\<exists>f e. filter_new 1 = Some f \<and> filter_result (foldl filter_take f [sample_0, sample_0, sample_0]) = Some e \<and>
    accurate (\<lambda>x. 1000000000 + x) e \<and> estimate_fit e"
proof -
  obtain f where f: "filter_new 1 = Some f" by (simp add: filter_new_def)
  have "filter_result (foldl filter_take f [sample_0, sample_0, sample_0]) \<noteq> None"
    using f by (auto simp: filter_new_def filter_result_def filter_take_def filter_observe_def sample_0_def Let_def drift_def
      midpoint_def i64_max_def clock_uncertainty_limit_ns_def)
  then obtain e where e: "filter_result (foldl filter_take f [sample_0, sample_0, sample_0]) = Some e" by blast
  have "rate_within 1500 (\<lambda>x. 1000000000 + x)" by (simp add: rate_within_def)
  then have "accurate (\<lambda>x. 1000000000 + x) e \<and> estimate_fit e"
    using filter_estimate_sound [OF _ f _ _ e] sample_0_good by simp
  then show ?thesis using f e by blast
qed

text \<open>C39: measuring the local precision ends whenever the budget does (each granted batch uses some of
  a finite budget), and a measured precision is at least the reported minimum and at most
  20 ms.\<close>

theorem precision_measured:
  assumes "\<And>s. m (snd (read s)) \<le> (m s :: nat)" "\<And>s s'. running s = (Some True, s') \<Longrightarrow> m s' < m s"
  shows "\<exists>r. measure_clock_precision read running s minimum = Some r \<and>
    (\<forall>p. r = Inr p \<longrightarrow> minimum \<le> p \<and> p \<le> 20000000)"
proof -
  obtain before s1 where s1: "read s = (before, s1)" by (cases "read s")
  obtain r where r: "precision_loop read running s1 before (2 ^ 64 - 1) 0 = Some r"
    using precision_loop_ends [where m = m, OF assms] by blast
  show ?thesis using s1 r
    by (auto simp: measure_clock_precision_def Let_def split: sum.splits prod.splits)
qed

theorem precision_measured_witness:
  "\<exists>r. measure_clock_precision (\<lambda>(k, t). (t, (k, t + 100))) (\<lambda>(k, t). (Some (0 < k), (k - 1, t))) (5 :: nat, 0 :: int) 1 = Some r \<and>
    (\<forall>p. r = Inr p \<longrightarrow> 1 \<le> p \<and> p \<le> 20000000)"
  by (rule precision_measured [where m = fst]) (auto split: prod.splits)

end
