(* ===== verification/Lease.thy ===== *)
theory Lease
  imports Clock
begin

text \<open>
  Records with a finite deadline.  The locale states what renewing operations promise; the catalog
  and the ephemeris interpret it for their own operations.
\<close>

text \<open>What renewing operations promise, for both kinds of records: an operation is accepted only while
  the record's deadline lies ahead of the reading, it never brings the deadline forward, and
  it puts it at most \<open>limit\<close> after the reading.\<close>

fun lease_run :: "('r \<Rightarrow> 'o \<Rightarrow> reading \<Rightarrow> 'e + 'r) \<Rightarrow> 'r \<Rightarrow> ('o \<times> reading) list \<Rightarrow> 'r" where
  "lease_run step r [] = r"
| "lease_run step r ((x, rd) # xs) = (case step r x rd of Inl _ \<Rightarrow> lease_run step r xs | Inr r' \<Rightarrow> lease_run step r' xs)"

locale lease =
  fixes ok :: "'r \<Rightarrow> bool"
    and deadline :: "'r \<Rightarrow> ns"
    and step :: "'r \<Rightarrow> 'o \<Rightarrow> reading \<Rightarrow> 'e + 'r"
    and limit :: int
  assumes step_ok: "ok r \<Longrightarrow> step r x rd = Inr r' \<Longrightarrow> ok r'"
    and step_live: "ok r \<Longrightarrow> step r x rd = Inr r' \<Longrightarrow> r_ready rd \<and> r_time rd < deadline r"
    and step_extends: "ok r \<Longrightarrow> step r x rd = Inr r' \<Longrightarrow> deadline r \<le> deadline r' \<and> deadline r' \<le> max (deadline r) (r_time rd + limit)"
begin

lemma run_ok: "ok r \<Longrightarrow> ok (lease_run step r xs)"
  by (induction xs arbitrary: r) (auto split: sum.split, metis step_ok)

lemma run_extends: "ok r \<Longrightarrow> deadline r \<le> deadline (lease_run step r xs)"
proof (induction xs arbitrary: r)
  case (Cons p xs)
  obtain x rd where p: "p = (x, rd)" by (cases p)
  show ?case
  proof (cases "step r x rd")
    case (Inl e)
    then show ?thesis using Cons p by simp
  next
    case (Inr r')
    then show ?thesis using Cons.IH [OF step_ok [OF Cons.prems Inr]] step_extends [OF Cons.prems Inr] p by simp
  qed
qed simp

lemma run_bounded:
  "ok r \<Longrightarrow> (\<forall>(x, rd) \<in> set xs. r_time rd \<le> t) \<Longrightarrow> deadline (lease_run step r xs) \<le> max (deadline r) (t + limit)"
proof (induction xs arbitrary: r)
  case (Cons p xs)
  obtain x rd where p: "p = (x, rd)" by (cases p)
  show ?case
  proof (cases "step r x rd")
    case (Inl e)
    then show ?thesis using Cons p by simp
  next
    case (Inr r')
    have "deadline (lease_run step r' xs) \<le> max (deadline r') (t + limit)"
      using Cons.IH [OF step_ok [OF Cons.prems(1) Inr]] Cons.prems(2) by simp
    then show ?thesis using step_extends [OF Cons.prems(1) Inr] Cons.prems(2) p Inr by auto
  qed
qed simp

lemma expired_final:
  "ok r \<Longrightarrow> (\<forall>(x, rd) \<in> set xs. deadline r \<le> r_time rd) \<Longrightarrow> lease_run step r xs = r"
proof (induction xs)
  case (Cons p xs)
  obtain x rd where p: "p = (x, rd)" by (cases p)
  have "\<exists>e. step r x rd = Inl e"
    using step_live [OF Cons.prems(1), of x rd] Cons.prems(2) p by (cases "step r x rd") auto
  then show ?case using Cons p by auto
qed simp

end

lemma deadline_after_Inr:
  "deadline_after rd ttl = Inr d \<longleftrightarrow> r_ready rd \<and> 0 \<le> r_time rd \<and> 0 \<le> ttl \<and> r_time rd + ttl \<le> i64_max \<and> d = r_time rd + ttl"
  by (auto simp: deadline_after_def Let_def)

end
