(* ===== verification/Catalog.thy ===== *)
theory Catalog
  imports Lease
begin

text \<open>
  The catalog's records and merge rules (\<^verbatim>\<open>astra/star/src/catalog.hpp\<close>, \<^verbatim>\<open>catalog.cpp\<close>): publishing,
  renewing, expiry and the merge of facts from several sources.

  A shared pointer to immutable bytes is an optional byte list (\<open>None\<close> the null pointer); the
  source compares such pointers by identity first and by content otherwise, which is equality
  of contents.  An absent record (a null \<^verbatim>\<open>const Record*\<close>) is \<open>None\<close>.
\<close>

subsection \<open>Records\<close>

datatype catalog_error = Cat_input | Cat_clock | Cat_ended | Cat_version | Cat_conflict | Cat_exhausted

record catalog_record =
  cr_version :: u64
  cr_value :: "bytes option"
  cr_deadline :: "ns option"

record catalog_change =
  cc_record :: catalog_record
  cc_visible :: bool

definition catalog_valid :: "catalog_record \<Rightarrow> bool" where
  "catalog_valid r \<longleftrightarrow>
     cr_version r \<noteq> 0 \<and> (cr_value r \<noteq> None) = (cr_deadline r \<noteq> None) \<and>
     (case cr_value r of None \<Rightarrow> True | Some v \<Rightarrow> length v \<le> 1024 * 1024 \<and> 0 \<le> the (cr_deadline r))"

definition catalog_valid2 :: "catalog_record option \<Rightarrow> catalog_record option \<Rightarrow> bool" where
  "catalog_valid2 source merged \<longleftrightarrow>
     (case source of None \<Rightarrow> True | Some r \<Rightarrow> catalog_valid r) \<and> (case merged of None \<Rightarrow> True | Some r \<Rightarrow> catalog_valid r)"

fun catalog_clock_error :: "clock_error \<Rightarrow> catalog_error" where
  "catalog_clock_error Clock_unready = Cat_clock"
| "catalog_clock_error Invalid_time = Cat_input"
| "catalog_clock_error Clock_exhausted = Cat_exhausted"

definition catalog_ready :: "reading \<Rightarrow> catalog_error option" where
  "catalog_ready r = (if r_time r < 0 then Some Cat_input else if \<not> r_ready r then Some Cat_clock else None)"

definition catalog_check :: "catalog_record option \<Rightarrow> u64 \<Rightarrow> bytes \<Rightarrow> catalog_error option" where
  "catalog_check current version value =
     (case current of
        None \<Rightarrow> None
      | Some c \<Rightarrow>
          if version < cr_version c then Some Cat_version
          else if version = cr_version c \<and> cr_value c \<noteq> None \<and> value \<noteq> the (cr_value c) then Some Cat_conflict
          else None)"

subsection \<open>Operations\<close>

text \<open>The time to live arrives in milliseconds and becomes nanoseconds at \<^verbatim>\<open>deadline_after\<close>.\<close>

definition catalog_publish ::
  "catalog_record option \<Rightarrow> catalog_record option \<Rightarrow> bytes option \<Rightarrow> u64 \<Rightarrow> int \<Rightarrow> reading \<Rightarrow> catalog_error + catalog_record" where
  "catalog_publish source merged value version ttl reading =
     (case value of
        None \<Rightarrow> Inl Cat_input
      | Some v \<Rightarrow>
          if \<not> catalog_valid2 source merged \<or> length v > 1024 * 1024 \<or> version = 0 \<or> ttl < 1000 \<or> ttl > 600000
          then Inl Cat_input
          else case catalog_check source version v of
            Some e \<Rightarrow> Inl e
          | None \<Rightarrow>
              (case catalog_check merged version v of
                 Some e \<Rightarrow> Inl e
               | None \<Rightarrow>
                   (case deadline_after reading (ttl * 1000000) of
                      Inl e \<Rightarrow> Inl (catalog_clock_error e)
                    | Inr deadline \<Rightarrow>
                        let rec = \<lparr>cr_version = version, cr_value = Some v, cr_deadline = Some deadline\<rparr> in
                        (case source of
                           Some s \<Rightarrow>
                             if cr_version s = version \<and> cr_value s \<noteq> None
                             then Inr (rec\<lparr>cr_value := cr_value s, cr_deadline := Some (max (the (cr_deadline s)) deadline)\<rparr>)
                             else (case merged of
                                     Some m \<Rightarrow> if cr_version m = version \<and> cr_value m \<noteq> None
                                               then Inr (rec\<lparr>cr_value := cr_value m\<rparr>) else Inr rec
                                   | None \<Rightarrow> Inr rec)
                         | None \<Rightarrow>
                             (case merged of
                                Some m \<Rightarrow> if cr_version m = version \<and> cr_value m \<noteq> None
                                          then Inr (rec\<lparr>cr_value := cr_value m\<rparr>) else Inr rec
                              | None \<Rightarrow> Inr rec)))))"

definition catalog_renew ::
  "catalog_record option \<Rightarrow> catalog_record option \<Rightarrow> u64 \<Rightarrow> int \<Rightarrow> reading \<Rightarrow> catalog_error + catalog_record" where
  "catalog_renew source merged version ttl reading =
     (if \<not> catalog_valid2 source merged \<or> version = 0 \<or> ttl < 1000 \<or> ttl > 600000 then Inl Cat_input
      else case catalog_ready reading of
        Some e \<Rightarrow> Inl e
      | None \<Rightarrow>
          if (case merged of None \<Rightarrow> False | Some m \<Rightarrow> cr_version m > version) \<or>
             (case source of None \<Rightarrow> False | Some s \<Rightarrow> cr_version s \<noteq> version) then Inl Cat_version
          else case source of
            None \<Rightarrow> Inl Cat_ended
          | Some s \<Rightarrow>
              if cr_value s = None \<or> r_time reading \<ge> the (cr_deadline s) then Inl Cat_ended
              else case deadline_after reading (ttl * 1000000) of
                Inl e \<Rightarrow> Inl (catalog_clock_error e)
              | Inr deadline \<Rightarrow> Inr (s\<lparr>cr_deadline := Some (max (the (cr_deadline s)) deadline)\<rparr>))"

definition catalog_expire :: "catalog_record \<Rightarrow> ns \<Rightarrow> catalog_record" where
  "catalog_expire c now =
     (case cr_deadline c of
        Some d \<Rightarrow> if now \<ge> d then \<lparr>cr_version = cr_version c, cr_value = None, cr_deadline = None\<rparr> else c
      | None \<Rightarrow> c)"

definition catalog_visible :: "catalog_record option \<Rightarrow> catalog_record \<Rightarrow> bool" where
  "catalog_visible current candidate =
     (case current of
        None \<Rightarrow> cr_value candidate \<noteq> None
      | Some c \<Rightarrow>
          if cr_value c = None then cr_value candidate \<noteq> None
          else if cr_value candidate = None \<or> cr_version c \<noteq> cr_version candidate then True
          else the (cr_value c) \<noteq> the (cr_value candidate))"

definition catalog_merge :: "catalog_record option \<Rightarrow> catalog_record \<Rightarrow> ns \<Rightarrow> catalog_error + catalog_change" where
  "catalog_merge current incoming now =
     (if \<not> catalog_valid2 current (Some incoming) \<or> now < 0 then Inl Cat_input
      else if (case current of None \<Rightarrow> False | Some c \<Rightarrow>
                 cr_version c = cr_version incoming \<and> cr_value c \<noteq> None \<and> cr_value incoming \<noteq> None \<and>
                 the (cr_value c) \<noteq> the (cr_value incoming)) then Inl Cat_conflict
      else let fact = catalog_expire incoming now;
               rec = (case current of
                  None \<Rightarrow> fact
                | Some c \<Rightarrow>
                    let old = catalog_expire c now in
                    if cr_version incoming > cr_version c then fact
                    else if cr_version incoming = cr_version c \<and> cr_value fact \<noteq> None then
                      (if cr_value old = None then fact
                       else old\<lparr>cr_deadline := Some (max (the (cr_deadline old)) (the (cr_deadline fact)))\<rparr>)
                    else old)
           in Inr \<lparr>cc_record = rec, cc_visible = catalog_visible current rec\<rparr>)"

end
