(* ===== verification/Catalog_Merge.thy ===== *)
theory Catalog_Merge
  imports Catalog
begin

text \<open>
  The catalog's correctness: merging is the join of views, so the outcome depends only on the set of
  facts; publications and renewals in full; the exactness of the visibility flag.
\<close>

subsection \<open>What a reader sees of a record\<close>

text \<open>At time \<open>T\<close> a record shows its version and, while its deadline lies ahead, its content.  Views are
  joined by taking the higher version and, at equal versions, the later deadline.\<close>

type_synonym view = "u64 \<times> (bytes \<times> ns) option"

definition alive :: "catalog_record \<Rightarrow> ns \<Rightarrow> bool" where
  "alive r T \<longleftrightarrow> cr_value r \<noteq> None \<and> T < the (cr_deadline r)"

definition view :: "catalog_record \<Rightarrow> ns \<Rightarrow> view" where
  "view r T = (cr_version r, if alive r T then Some (the (cr_value r), the (cr_deadline r)) else None)"

fun content_join :: "(bytes \<times> ns) option \<Rightarrow> (bytes \<times> ns) option \<Rightarrow> (bytes \<times> ns) option" where
  "content_join None y = y"
| "content_join x None = x"
| "content_join (Some (b, d)) (Some (b', d')) = Some (b, max d d')"

definition view_join :: "view \<Rightarrow> view \<Rightarrow> view" where
  "view_join x y = (if fst x < fst y then y else if fst y < fst x then x else (fst x, content_join (snd x) (snd y)))"

lemma fst_view [simp]: "fst (view r T) = cr_version r"
  by (simp add: view_def)

lemma content_join_None [simp]: "content_join x None = x"
  by (cases x) auto

lemma expire_fields [simp]: "cr_version (catalog_expire r T) = cr_version r"
  by (simp add: catalog_expire_def split: option.splits)

lemma expire_alive: "catalog_valid r \<Longrightarrow> catalog_expire r T = (if alive r T then r else \<lparr>cr_version = cr_version r, cr_value = None, cr_deadline = None\<rparr>)"
  by (auto simp: catalog_expire_def alive_def catalog_valid_def split: option.splits)

lemma alive_mono: "alive r T \<Longrightarrow> t \<le> T \<Longrightarrow> alive r t"
  by (simp add: alive_def)

lemma expire_valid [keeps]: "catalog_valid r \<Longrightarrow> catalog_valid (catalog_expire r T)"
  by (auto simp: catalog_expire_def catalog_valid_def split: option.splits)

lemma expire_view: "catalog_valid r \<Longrightarrow> t \<le> T \<Longrightarrow> view (catalog_expire r t) T = view r T"
  using alive_mono [of r T t] by (auto simp: expire_alive view_def) (auto simp: alive_def)

definition agree :: "catalog_record \<Rightarrow> catalog_record \<Rightarrow> bool" where
  "agree a b \<longleftrightarrow> (cr_version a = cr_version b \<and> cr_value a \<noteq> None \<and> cr_value b \<noteq> None \<longrightarrow> cr_value a = cr_value b)"

text \<open>Merging is joining: seen from any later time, the merged record shows the join of the two
  views, and nothing else of it matters.\<close>

lemma merge_agree:
  assumes "catalog_valid c" "catalog_valid f" "0 \<le> now" "agree c f"
  shows "\<exists>ch. catalog_merge (Some c) f now = Inr ch"
proof -
  have "\<not> (cr_version c = cr_version f \<and> cr_value c \<noteq> None \<and> cr_value f \<noteq> None \<and> the (cr_value c) \<noteq> the (cr_value f))"
    using assms(4) by (auto simp: agree_def)
  then show ?thesis using assms by (simp add: catalog_merge_def catalog_valid2_def Let_def)
qed

lemma merge_view:
  assumes v: "catalog_valid c" "catalog_valid f" and m: "catalog_merge (Some c) f now = Inr ch" and T: "now \<le> T"
  shows "view (cc_record ch) T = view_join (view c T) (view f T)"
proof -
  let ?c = "catalog_expire c now" and ?f = "catalog_expire f now"
  have r: "cc_record ch = (if cr_version f > cr_version c then ?f
      else if cr_version f = cr_version c \<and> cr_value ?f \<noteq> None then
        (if cr_value ?c = None then ?f else ?c\<lparr>cr_deadline := Some (max (the (cr_deadline ?c)) (the (cr_deadline ?f)))\<rparr>)
      else ?c)"
    and same: "cr_version c = cr_version f \<longrightarrow> cr_value c \<noteq> None \<longrightarrow> cr_value f \<noteq> None \<longrightarrow> cr_value c = cr_value f"
    using m by (auto simp: catalog_merge_def Let_def split: if_splits)
  have vf: "view ?f T = view f T" and vc: "view ?c T = view c T" using expire_view v T by simp_all
  have dead: "\<not> alive r T" if "\<not> alive r now" for r using that T alive_mono by blast
  consider (gt) "cr_version f > cr_version c" | (lt) "cr_version f < cr_version c" | (eq) "cr_version f = cr_version c"
    by fastforce
  then show ?thesis
  proof cases
    case gt
    then show ?thesis using vf by (simp add: r view_join_def)
  next
    case lt
    then show ?thesis using vc by (auto simp: r view_join_def)
  next
    case eq
    then show ?thesis using v vf vc dead [of c] dead [of f] same
      by (cases "alive f now"; cases "alive c now")
        (auto simp: r view_join_def view_def expire_alive, auto simp: alive_def max_def split: if_splits)
  qed
qed

lemma merge_valid [keeps]:
  assumes "catalog_merge current f now = Inr ch"
  shows "catalog_valid (cc_record ch)"
proof -
  have v: "catalog_valid f" "\<forall>c. current = Some c \<longrightarrow> catalog_valid c"
    using assms by (auto simp: catalog_merge_def catalog_valid2_def split: if_splits option.splits)
  show ?thesis
  proof (cases current)
    case None
    then show ?thesis using assms v by (auto simp: catalog_merge_def Let_def expire_valid split: if_splits)
  next
    case (Some c)
    have e: "catalog_valid (catalog_expire c now)" "catalog_valid (catalog_expire f now)" using v Some expire_valid by simp_all
    show ?thesis using assms Some e
      by (auto simp: catalog_merge_def Let_def split: if_splits) (auto simp: catalog_valid_def split: option.splits)
  qed
qed

lemma merge_first:
  assumes "catalog_valid f" "0 \<le> now"
  shows "\<exists>ch. catalog_merge None f now = Inr ch \<and> cc_record ch = catalog_expire f now"
  using assms by (simp add: catalog_merge_def catalog_valid2_def Let_def)

subsection \<open>Merging many facts\<close>

text \<open>The specification: among the facts of the highest version, those still alive at \<open>T\<close> give the
  content and the latest deadline.\<close>

definition live :: "catalog_record set \<Rightarrow> ns \<Rightarrow> catalog_record set" where
  "live F T = {f \<in> F. cr_version f = Max (cr_version ` F) \<and> alive f T}"

definition spec_view :: "catalog_record set \<Rightarrow> ns \<Rightarrow> view" where
  "spec_view F T =
     (Max (cr_version ` F),
      if live F T = {} then None
      else Some (the (the_elem (cr_value ` live F T)), Max ((\<lambda>f. the (cr_deadline f)) ` live F T)))"

definition consistent :: "catalog_record set \<Rightarrow> bool" where
  "consistent F \<longleftrightarrow> (\<forall>a \<in> F. \<forall>b \<in> F. agree a b)"

lemma live_values:
  assumes "consistent F" "f \<in> live F T"
  shows "cr_value ` live F T = {cr_value f}"
proof -
  have "cr_value g = cr_value f" if "g \<in> live F T" for g
  proof -
    have "g \<in> F" "cr_version g = Max (cr_version ` F)" "cr_value g \<noteq> None"
      and "f \<in> F" "cr_version f = Max (cr_version ` F)" "cr_value f \<noteq> None"
      using that assms(2) by (simp_all add: live_def alive_def)
    moreover from this have "agree g f" using assms(1) by (simp add: consistent_def)
    ultimately show ?thesis by (simp add: agree_def)
  qed
  then show ?thesis using assms(2) by blast
qed

lemma spec_view_single: "spec_view {f} T = view f T"
proof -
  have "live {f} T = (if alive f T then {f} else {})" by (auto simp: live_def)
  then show ?thesis by (simp add: spec_view_def view_def)
qed

lemma spec_view_insert:
  assumes fin: "finite F" "F \<noteq> {}" and con: "consistent (insert f F)"
  shows "spec_view (insert f F) T = view_join (spec_view F T) (view f T)"
proof -
  let ?M = "Max (cr_version ` F)" and ?M' = "Max (cr_version ` insert f F)"
  have M': "?M' = max (cr_version f) ?M" using fin by simp
  have le: "cr_version g \<le> ?M" if "g \<in> F" for g using fin that by simp
  have cF: "consistent F" using con by (auto simp: consistent_def)
  consider (gt) "?M < cr_version f" | (lt) "cr_version f < ?M" | (eq) "cr_version f = ?M" by fastforce
  then show ?thesis
  proof cases
    case gt
    have "live (insert f F) T = (if alive f T then {f} else {})"
    proof -
      have ne: "cr_version g \<noteq> cr_version f" if "g \<in> F" for g using le [OF that] gt by auto
      have "g \<in> live (insert f F) T \<longleftrightarrow> g = f \<and> alive f T" for g
        using gt ne unfolding live_def M' by (auto simp: max_absorb1)
      then show ?thesis by auto
    qed
    then show ?thesis using gt M' by (auto simp: spec_view_def view_join_def view_def)
  next
    case lt
    then have "live (insert f F) T = live F T" using M' by (auto simp: live_def max_def)
    then show ?thesis using lt M' by (auto simp: spec_view_def view_join_def view_def)
  next
    case eq
    then have l: "live (insert f F) T = (if alive f T then insert f (live F T) else live F T)"
      using M' by (auto simp: live_def)
    show ?thesis
    proof (cases "live F T = {}")
      case True
      then show ?thesis using eq l M' by (auto simp: spec_view_def view_join_def view_def)
    next
      case False
      then obtain g where g: "g \<in> live F T" by blast
      have fl: "finite (live F T)" using fin by (simp add: live_def)
      have same: "alive f T \<longrightarrow> cr_value f = cr_value g"
        using con g eq by (auto simp: consistent_def agree_def live_def alive_def)
      note vals = live_values [OF cF g]
      have "alive f T \<longrightarrow> cr_value ` insert f (live F T) = {cr_value g}" using vals same by auto
      then show ?thesis using eq l M' False vals same fl
        by (auto simp: spec_view_def view_join_def view_def max.commute)
    qed
  qed
qed

fun merge_all :: "catalog_record option \<Rightarrow> (catalog_record \<times> ns) list \<Rightarrow> catalog_error + catalog_record option" where
  "merge_all current [] = Inr current"
| "merge_all current ((f, now) # fs) =
     (case catalog_merge current f now of Inl e \<Rightarrow> Inl e | Inr ch \<Rightarrow> merge_all (Some (cc_record ch)) fs)"

lemma merge_all_view:
  assumes "catalog_valid c" "finite F" "F \<noteq> {}" "\<forall>T \<ge> t. view c T = spec_view F T"
    and "cr_value c \<noteq> None \<longrightarrow> (\<exists>g \<in> F. cr_version g = cr_version c \<and> cr_value g = cr_value c)"
    and "consistent (F \<union> fst ` set fs)" "\<forall>(f, now) \<in> set fs. catalog_valid f \<and> 0 \<le> now \<and> t \<le> now" "sorted (map snd fs)"
    and "\<forall>(f, now) \<in> set fs. now \<le> T" "t \<le> T"
  shows "\<exists>c'. merge_all (Some c) fs = Inr (Some c') \<and> view c' T = spec_view (F \<union> fst ` set fs) T"
  using assms
proof (induction fs arbitrary: c F t)
  case (Cons p fs)
  obtain f now where p: "p = (f, now)" by (cases p)
  have f: "catalog_valid f" "0 \<le> now" "t \<le> now" "now \<le> T" using Cons.prems(7,9) p by auto
  have ag: "agree c f"
    using Cons.prems(5,6) p unfolding agree_def consistent_def by (metis (no_types, lifting) UnI1 UnI2 fst_conv image_eqI list.set_intros(1))
  obtain ch where ch: "catalog_merge (Some c) f now = Inr ch" using merge_agree [OF Cons.prems(1) f(1,2) ag] by blast
  have src: "cr_value (cc_record ch) \<noteq> None \<longrightarrow> (\<exists>g \<in> insert f F. cr_version g = cr_version (cc_record ch) \<and> cr_value g = cr_value (cc_record ch))"
  proof -
    have "cr_value (cc_record ch) \<noteq> None \<longrightarrow> cr_version (cc_record ch) = cr_version f \<and> cr_value (cc_record ch) = cr_value f \<or>
        cr_version (cc_record ch) = cr_version c \<and> cr_value (cc_record ch) = cr_value c"
      using ch Cons.prems(1) f(1) by (auto simp: catalog_merge_def Let_def expire_alive split: if_splits)
    then show ?thesis using Cons.prems(5) by auto
  qed
  have "consistent (insert f F)" using Cons.prems(6) p by (auto simp: consistent_def)
  then have "\<forall>T \<ge> now. view (cc_record ch) T = spec_view (insert f F) T"
    using merge_view [OF Cons.prems(1) f(1) ch] spec_view_insert [OF Cons.prems(2,3)] Cons.prems(4) f(3) by auto
  note later = this
  have rest: "\<forall>(g, n) \<in> set fs. catalog_valid g \<and> 0 \<le> n \<and> now \<le> n" "sorted (map snd fs)" "\<forall>(g, n) \<in> set fs. n \<le> T"
    using Cons.prems(7,8,9) p by auto
  have un: "insert f F \<union> fst ` set fs = F \<union> fst ` set (p # fs)" using p by auto
  have "\<exists>c'. merge_all (Some (cc_record ch)) fs = Inr (Some c') \<and> view c' T = spec_view (insert f F \<union> fst ` set fs) T"
    using later src Cons.prems(2,6) un by (intro Cons.IH [OF merge_valid [OF ch] _ _ _ _ _ rest f(4)]) auto
  then show ?case using ch p un by simp
qed auto

subsection \<open>Renewal as a lease\<close>

definition catalog_renewal ::
  "catalog_record \<Rightarrow> catalog_record option \<times> u64 \<times> int \<Rightarrow> reading \<Rightarrow> catalog_error + catalog_record" where
  "catalog_renewal r x rd = (case x of (merged, version, ttl) \<Rightarrow> catalog_renew (Some r) merged version ttl rd)"

definition catalog_live_ok :: "catalog_record \<Rightarrow> bool" where
  "catalog_live_ok r \<longleftrightarrow> catalog_valid r \<and> cr_value r \<noteq> None"

lemma catalog_renew_Inr:
  assumes "catalog_renew (Some s) merged version ttl rd = Inr r"
  shows "catalog_valid s \<and> cr_value s \<noteq> None \<and> r_ready rd \<and> 0 \<le> r_time rd \<and> r_time rd < the (cr_deadline s) \<and>
    cr_version s = version \<and> 1000 \<le> ttl \<and> ttl \<le> 600000 \<and>
    r = s\<lparr>cr_deadline := Some (max (the (cr_deadline s)) (r_time rd + ttl * 1000000))\<rparr>"
  using assms
  by (auto simp: catalog_renew_def catalog_valid2_def catalog_ready_def deadline_after_Inr split: if_splits option.splits sum.splits)

interpretation catalog_lease: lease catalog_live_ok "\<lambda>r. the (cr_deadline r)" catalog_renewal 600000000000
proof
  fix r x rd r'
  assume ok: "catalog_live_ok r" and s: "catalog_renewal r x rd = Inr r'"
  obtain merged version ttl where x: "x = (merged, version, ttl)" by (cases x)
  note d = catalog_renew_Inr [of r merged version ttl rd r']
  show "catalog_live_ok r'" using d s ok by (auto simp: x catalog_renewal_def catalog_live_ok_def catalog_valid_def)
  show "r_ready rd \<and> r_time rd < the (cr_deadline r)" using d s by (simp add: x catalog_renewal_def)
  show "the (cr_deadline r) \<le> the (cr_deadline r') \<and> the (cr_deadline r') \<le> max (the (cr_deadline r)) (r_time rd + 600000000000)"
    using d s by (auto simp: x catalog_renewal_def)
qed

subsection \<open>Properties\<close>

lemma catalog_check_None:
  "catalog_check current version v = None \<longleftrightarrow>
     (\<forall>c. current = Some c \<longrightarrow> cr_version c \<le> version \<and> (cr_version c = version \<longrightarrow> cr_value c \<in> {None, Some v}))"
  by (cases current; cases "cr_value (the current)") (auto simp: catalog_check_def)

lemma catalog_publish_Inr:
  "catalog_publish source merged (Some v) version ttl rd = Inr r \<longleftrightarrow>
     catalog_valid2 source merged \<and> length v \<le> 1024 * 1024 \<and> version \<noteq> 0 \<and> 1000 \<le> ttl \<and> ttl \<le> 600000 \<and>
     catalog_check source version v = None \<and> catalog_check merged version v = None \<and>
     r_ready rd \<and> 0 \<le> r_time rd \<and> r_time rd + ttl * 1000000 \<le> i64_max \<and>
     r = \<lparr>cr_version = version, cr_value = Some v,
          cr_deadline = Some (case source of
             Some s \<Rightarrow> if cr_version s = version \<and> cr_value s \<noteq> None then max (the (cr_deadline s)) (r_time rd + ttl * 1000000)
                        else r_time rd + ttl * 1000000
           | None \<Rightarrow> r_time rd + ttl * 1000000)\<rparr>"
proof (cases "catalog_valid2 source merged \<and> length v \<le> 1024 * 1024 \<and> version \<noteq> 0 \<and> 1000 \<le> ttl \<and> ttl \<le> 600000 \<and>
     catalog_check source version v = None \<and> catalog_check merged version v = None")
  case True
  have s: "cr_value s = Some v" if "source = Some s" "cr_version s = version" "cr_value s \<noteq> None" for s
    using True that catalog_check_None [of source version v] by auto
  have m: "cr_value s = Some v" if "merged = Some s" "cr_version s = version" "cr_value s \<noteq> None" for s
    using True that catalog_check_None [of merged version v] by auto
  show ?thesis
  proof (cases "deadline_after rd (ttl * 1000000)")
    case (Inl e)
    then show ?thesis using True deadline_after_Inr [of rd "ttl * 1000000"] by (auto simp: catalog_publish_def)
  next
    case (Inr d)
    then show ?thesis using True s m deadline_after_Inr [of rd "ttl * 1000000" d]
      by (cases source; cases merged) (auto simp: catalog_publish_def Let_def)
  qed
next
  case False
  then show ?thesis
    by (cases "catalog_check source version v"; cases "catalog_check merged version v") (auto simp: catalog_publish_def)
qed

text \<open>C17: publishing, in full.  A publication succeeds exactly when the inputs are well formed, the
  version is not below what this source or the merged state knows, the same version does not
  already carry other content, and the deadline is representable; the record then holds the
  published content and version, and a deadline of its own: the request's time to live from
  the reading, never shortened at the same version, never borrowed from another source.\<close>

theorem catalog_publish_exact:
  "catalog_publish source merged (Some v) version ttl rd = Inr r \<longleftrightarrow>
     catalog_valid2 source merged \<and> length v \<le> 1024 * 1024 \<and> version \<noteq> 0 \<and> 1000 \<le> ttl \<and> ttl \<le> 600000 \<and>
     (\<forall>c \<in> set_option source \<union> set_option merged.
        cr_version c \<le> version \<and> (cr_version c = version \<longrightarrow> cr_value c \<in> {None, Some v})) \<and>
     r_ready rd \<and> 0 \<le> r_time rd \<and> r_time rd + ttl * 1000000 \<le> i64_max \<and>
     r = \<lparr>cr_version = version, cr_value = Some v,
          cr_deadline = Some (case source of
             Some s \<Rightarrow> if cr_version s = version \<and> cr_value s \<noteq> None then max (the (cr_deadline s)) (r_time rd + ttl * 1000000)
                        else r_time rd + ttl * 1000000
           | None \<Rightarrow> r_time rd + ttl * 1000000)\<rparr>"
  unfolding catalog_publish_Inr catalog_check_None by auto

theorem catalog_publish_exact_witness:
  "catalog_publish None (Some \<lparr>cr_version = 7, cr_value = Some [1], cr_deadline = Some 90\<rparr>) (Some [1]) 7 1000
     \<lparr>r_time = 50, r_uncertainty = 0, r_rtt = 0, r_sampled = 0, r_ready = True, r_synchronized = False\<rparr> =
   Inr \<lparr>cr_version = 7, cr_value = Some [1], cr_deadline = Some 1000000050\<rparr>"
  unfolding catalog_publish_exact by (simp add: catalog_valid2_def catalog_valid_def i64_max_def)

text \<open>C26: merging facts gives the same view in every order.  Starting from nothing, let any list of
  valid, mutually consistent facts be merged at times that do not decrease, duplicates
  included.  No merge fails, and from the last of those times on the merged record shows:
  the highest version among the facts and, of the facts of that version still alive, the
  common content with the latest deadline.  The right-hand side depends on the set of facts
  only, not on their order, their repetition or the times of arrival.\<close>

theorem catalog_merge_order_independent:
  assumes "fs \<noteq> []" "\<forall>(f, now) \<in> set fs. catalog_valid f \<and> 0 \<le> now \<and> now \<le> T" "sorted (map snd fs)"
    and "consistent (fst ` set fs)"
  shows "\<exists>c. merge_all None fs = Inr (Some c) \<and> view c T = spec_view (fst ` set fs) T"
proof -
  obtain f now rest where fs: "fs = (f, now) # rest" using assms(1) by (cases fs) auto
  have f: "catalog_valid f" "0 \<le> now" "now \<le> T" using assms(2) fs by auto
  obtain ch where ch: "catalog_merge None f now = Inr ch" "cc_record ch = catalog_expire f now"
    using merge_first [OF f(1,2)] by blast
  have "\<exists>c'. merge_all (Some (cc_record ch)) rest = Inr (Some c') \<and> view c' T = spec_view ({f} \<union> fst ` set rest) T"
  proof (rule merge_all_view [where t = now])
    show "\<forall>T \<ge> now. view (cc_record ch) T = spec_view {f} T" using f(1) by (simp add: ch(2) expire_view spec_view_single)
    show "cr_value (cc_record ch) \<noteq> None \<longrightarrow> (\<exists>g \<in> {f}. cr_version g = cr_version (cc_record ch) \<and> cr_value g = cr_value (cc_record ch))"
      using f(1) by (simp add: ch(2) expire_alive)
  qed (use assms f fs merge_valid [OF ch(1)] in auto)
  then show ?thesis using ch(1) fs by simp
qed

theorem catalog_merge_order_independent_witness:
  "\<exists>c. merge_all None [(\<lparr>cr_version = 2, cr_value = Some [9], cr_deadline = Some 50\<rparr>, 10),
       (\<lparr>cr_version = 1, cr_value = Some [5], cr_deadline = Some 90\<rparr>, 20)] = Inr (Some c) \<and>
     view c 30 = spec_view {\<lparr>cr_version = 2, cr_value = Some [9], cr_deadline = Some 50\<rparr>,
       \<lparr>cr_version = 1, cr_value = Some [5], cr_deadline = Some 90\<rparr>} 30"
  using catalog_merge_order_independent [of "[(\<lparr>cr_version = 2, cr_value = Some [9], cr_deadline = Some 50\<rparr>, 10),
       (\<lparr>cr_version = 1, cr_value = Some [5], cr_deadline = Some 90\<rparr>, 20)]" 30]
  by (simp add: catalog_valid_def consistent_def agree_def)

definition shown :: "catalog_record option \<Rightarrow> (u64 \<times> bytes) option" where
  "shown r = (case r of None \<Rightarrow> None | Some c \<Rightarrow> map_option (Pair (cr_version c)) (cr_value c))"

lemma catalog_visible_shown: "catalog_visible current r \<longleftrightarrow> shown current \<noteq> shown (Some r)"
  by (cases current; cases "cr_value r") (auto simp: catalog_visible_def shown_def split: option.splits)

text \<open>The visibility flag is exact.  A merge reports a visible change exactly when the pair of
  version and content that readers can obtain differs before and after; raising a watermark
  without content or extending a deadline alone never reports one.\<close>

theorem catalog_merge_visible:
  assumes "catalog_merge current f now = Inr ch"
  shows "cc_visible ch \<longleftrightarrow> shown current \<noteq> shown (Some (cc_record ch))"
  using assms by (auto simp: catalog_merge_def Let_def catalog_visible_shown split: if_splits)

theorem catalog_merge_visible_witness:
  "\<exists>ch. catalog_merge (Some \<lparr>cr_version = 2, cr_value = Some [9], cr_deadline = Some 50\<rparr>)
       \<lparr>cr_version = 2, cr_value = Some [9], cr_deadline = Some 80\<rparr> 10 = Inr ch \<and> \<not> cc_visible ch"
proof -
  obtain ch where ch: "catalog_merge (Some \<lparr>cr_version = 2, cr_value = Some [9], cr_deadline = Some 50\<rparr>)
       \<lparr>cr_version = 2, cr_value = Some [9], cr_deadline = Some 80\<rparr> 10 = Inr ch"
    by (simp add: catalog_merge_def catalog_valid2_def catalog_valid_def Let_def)
  have "shown (Some (cc_record ch)) = Some (2, [9])"
    using ch by (auto simp: catalog_merge_def catalog_valid2_def catalog_valid_def Let_def catalog_expire_def shown_def)
  then have "\<not> cc_visible ch" using catalog_merge_visible [OF ch] by (simp add: shown_def)
  then show ?thesis using ch by blast
qed

text \<open>Renewing a published record.  Over any sequence of renewals, accepted or refused, the
  deadline never comes forward and never exceeds the later of the old one and ten minutes
  after the latest reading; version and content stay; and once a reading has reached the
  deadline, no later renewal is accepted, whatever version or time to live it names.\<close>

theorem catalog_renewals:
  assumes "catalog_valid r" "cr_value r \<noteq> None" "\<forall>(x, rd) \<in> set xs. r_time rd \<le> t"
  shows "let r' = lease_run catalog_renewal r xs in
    cr_version r' = cr_version r \<and> cr_value r' = cr_value r \<and>
    the (cr_deadline r) \<le> the (cr_deadline r') \<and> the (cr_deadline r') \<le> max (the (cr_deadline r)) (t + 600000000000) \<and>
    ((\<forall>(x, rd) \<in> set xs. the (cr_deadline r) \<le> r_time rd) \<longrightarrow> r' = r)"
proof -
  have ok: "catalog_live_ok r" using assms by (simp add: catalog_live_ok_def)
  have "cr_version (lease_run catalog_renewal q xs) = cr_version q \<and> cr_value (lease_run catalog_renewal q xs) = cr_value q" for q
  proof (induction xs arbitrary: q)
    case (Cons p xs)
    obtain m v ttl rd where p: "p = ((m, v, ttl), rd)" by (cases p) auto
    show ?case using Cons catalog_renew_Inr [of q m v ttl rd]
      by (cases "catalog_renew (Some q) m v ttl rd") (auto simp: p catalog_renewal_def)
  qed simp
  then show ?thesis
    using catalog_lease.run_extends [OF ok] catalog_lease.run_bounded [OF ok assms(3)] catalog_lease.expired_final [OF ok]
    by (simp add: Let_def)
qed

definition reading_at :: "ns \<Rightarrow> reading" where
  "reading_at t = \<lparr>r_time = t, r_uncertainty = 0, r_rtt = 0, r_sampled = 0, r_ready = True, r_synchronized = True\<rparr>"

theorem catalog_renewals_witness:
  "let r = \<lparr>cr_version = 2, cr_value = Some [9], cr_deadline = Some 50\<rparr>;
       r' = lease_run catalog_renewal r [((None, 2, 1000), reading_at 20), ((None, 2, 5000), reading_at 30)]
   in the (cr_deadline r) \<le> the (cr_deadline r') \<and> the (cr_deadline r') \<le> max (the (cr_deadline r)) (30 + 600000000000)"
  using catalog_renewals [of "\<lparr>cr_version = 2, cr_value = Some [9], cr_deadline = Some 50\<rparr>"
      "[((None, 2, 1000), reading_at 20), ((None, 2, 5000), reading_at 30)]" 30]
  by (simp add: catalog_valid_def reading_at_def Let_def)

end
