(* ===== verification/Ephemeris.thy ===== *)
theory Ephemeris
  imports Lease
begin

text \<open>
  Registrations (\<^verbatim>\<open>astra/star/src/ephemeris.hpp\<close>, \<^verbatim>\<open>ephemeris.cpp\<close>): random identifiers, creation, updates
  and renewals of a registration.  Shared byte buffers are optional byte lists as in the catalog;
  the answers of \<^verbatim>\<open>getrandom\<close> are a list the model consumes.
\<close>

datatype ephemeris_error = Eph_input | Eph_clock | Eph_ended | Eph_obsolete | Eph_conflict | Eph_exhausted

record ephemeris_record =
  er_attr :: "bytes option"
  er_data :: "bytes option"
  er_deadline :: ns
  er_update :: u64
  er_renewal :: u64
  er_ttl :: int

record ephemeris_change =
  ec_record :: ephemeris_record
  ec_changed :: bool
  ec_visible :: bool

definition ephemeris_valid_value :: "bytes option \<Rightarrow> bool" where
  "ephemeris_valid_value v \<longleftrightarrow> (case v of None \<Rightarrow> False | Some b \<Rightarrow> length b \<le> 1024 * 1024)"

definition ephemeris_valid :: "ephemeris_record \<Rightarrow> bool" where
  "ephemeris_valid r \<longleftrightarrow>
     ephemeris_valid_value (er_attr r) \<and> ephemeris_valid_value (er_data r) \<and> 1000 \<le> er_ttl r \<and> er_ttl r \<le> 600000 \<and> 0 \<le> er_deadline r"

fun ephemeris_clock_error :: "clock_error \<Rightarrow> ephemeris_error" where
  "ephemeris_clock_error Clock_unready = Eph_clock"
| "ephemeris_clock_error Invalid_time = Eph_input"
| "ephemeris_clock_error Clock_exhausted = Eph_exhausted"

definition valid_uuid :: "bytes \<Rightarrow> bool" where
  "valid_uuid b \<longleftrightarrow> length b = 16 \<and> b ! 6 AND 0xf0 = 0x40 \<and> b ! 8 AND 0xc0 = 0x80"

text \<open>The answers of \<^verbatim>\<open>getrandom\<close>: an error number, or bytes written at the current offset, of which there are at most as many as asked for.\<close>

datatype random_answer = Random_error int | Random_bytes bytes

definition EINTR :: int where "EINTR = 4"
definition EIO :: int where "EIO = 5"

fun uuid_fill :: "random_answer list \<Rightarrow> bytes \<Rightarrow> (int + bytes) option" where
  "uuid_fill answers acc =
     (if length acc \<ge> 16 then Some (Inr acc)
      else case answers of
        [] \<Rightarrow> None
      | Random_error e # rest \<Rightarrow> if e = EINTR then uuid_fill rest acc else Some (Inl e)
      | Random_bytes bs # rest \<Rightarrow> if bs = [] then Some (Inl EIO) else uuid_fill rest (acc @ take (16 - length acc) bs))"

declare uuid_fill.simps [simp del]

definition uuid :: "random_answer list \<Rightarrow> (int + bytes) option" where
  "uuid answers =
     (case uuid_fill answers [] of
        None \<Rightarrow> None
      | Some (Inl e) \<Rightarrow> Some (Inl e)
      | Some (Inr b) \<Rightarrow>
          let b1 = b[6 := (b ! 6 AND 0x0f) OR 0x40] in Some (Inr (b1[8 := (b1 ! 8 AND 0x3f) OR 0x80])))"

definition ephemeris_create :: "bytes option \<Rightarrow> bytes option \<Rightarrow> int \<Rightarrow> reading \<Rightarrow> ephemeris_error + ephemeris_record" where
  "ephemeris_create attr data ttl rd =
     (if \<not> ephemeris_valid_value attr \<or> \<not> ephemeris_valid_value data \<or> ttl < 1000 \<or> ttl > 600000 then Inl Eph_input
      else case deadline_after rd (ttl * 1000000) of
        Inl e \<Rightarrow> Inl (ephemeris_clock_error e)
      | Inr d \<Rightarrow> Inr \<lparr>er_attr = attr, er_data = data, er_deadline = d, er_update = 0, er_renewal = 0, er_ttl = ttl\<rparr>)"

definition ephemeris_active :: "ephemeris_record \<Rightarrow> reading \<Rightarrow> ephemeris_error option" where
  "ephemeris_active r rd =
     (if \<not> ephemeris_valid r \<or> r_time rd < 0 then Some Eph_input
      else if \<not> r_ready rd then Some Eph_clock
      else if r_time rd \<ge> er_deadline r then Some Eph_ended
      else None)"

definition ephemeris_update :: "ephemeris_record \<Rightarrow> bytes option \<Rightarrow> u64 \<Rightarrow> reading \<Rightarrow> ephemeris_error + ephemeris_change" where
  "ephemeris_update r data order rd =
     (if \<not> ephemeris_valid_value data \<or> order = 0 then Inl Eph_input
      else case ephemeris_active r rd of
        Some e \<Rightarrow> Inl e
      | None \<Rightarrow>
          if order < er_update r then Inl Eph_obsolete
          else let same = (the data = the (er_data r)) in
          if order = er_update r then
            (if same then Inr \<lparr>ec_record = r, ec_changed = False, ec_visible = False\<rparr> else Inl Eph_conflict)
          else let rec = r\<lparr>er_update := order\<rparr>;
                   rec2 = (if same then rec else rec\<lparr>er_data := data\<rparr>)
               in Inr \<lparr>ec_record = rec2, ec_changed = True, ec_visible = \<not> same\<rparr>)"

definition ephemeris_renew :: "ephemeris_record \<Rightarrow> u64 \<Rightarrow> reading \<Rightarrow> ephemeris_error + ephemeris_change" where
  "ephemeris_renew r order rd =
     (if order = 0 then Inl Eph_input
      else case ephemeris_active r rd of
        Some e \<Rightarrow> Inl e
      | None \<Rightarrow>
          if order < er_renewal r then Inl Eph_obsolete
          else if order = er_renewal r then Inr \<lparr>ec_record = r, ec_changed = False, ec_visible = False\<rparr>
          else case deadline_after rd (er_ttl r * 1000000) of
            Inl e \<Rightarrow> Inl (ephemeris_clock_error e)
          | Inr d \<Rightarrow>
              Inr \<lparr>ec_record = r\<lparr>er_renewal := order, er_deadline := max (er_deadline r) d\<rparr>, ec_changed = True, ec_visible = False\<rparr>)"

datatype ephemeris_op = Update_data "bytes option" u64 | Renew_lease u64

fun ephemeris_apply :: "ephemeris_record \<Rightarrow> ephemeris_op \<Rightarrow> reading \<Rightarrow> ephemeris_error + ephemeris_change" where
  "ephemeris_apply r (Update_data d n) rd = ephemeris_update r d n rd"
| "ephemeris_apply r (Renew_lease n) rd = ephemeris_renew r n rd"

definition ephemeris_step :: "ephemeris_record \<Rightarrow> ephemeris_op \<Rightarrow> reading \<Rightarrow> ephemeris_error + ephemeris_record" where
  "ephemeris_step r x rd = map_sum id ec_record (ephemeris_apply r x rd)"

end
