(* ===== verification/Ephemeris_Life.thy ===== *)
theory Ephemeris_Life
  imports Ephemeris
begin

text \<open>
  The life of a registration: what accepted operations may change, the lease contract, identifiers.
\<close>

lemma ephemeris_active_None:
  "ephemeris_active r rd = None \<longleftrightarrow> ephemeris_valid r \<and> 0 \<le> r_time rd \<and> r_ready rd \<and> r_time rd < er_deadline r"
  by (auto simp: ephemeris_active_def)

text \<open>What an accepted operation leaves alone, and what it may change.\<close>

lemma ephemeris_apply_Inr:
  assumes "ephemeris_apply r x rd = Inr ch"
  shows "ephemeris_active r rd = None" "ephemeris_valid (ec_record ch)"
    "er_attr (ec_record ch) = er_attr r" "er_ttl (ec_record ch) = er_ttl r"
    "er_update r \<le> er_update (ec_record ch)" "er_renewal r \<le> er_renewal (ec_record ch)"
    "er_deadline r \<le> er_deadline (ec_record ch)"
    "er_deadline (ec_record ch) \<le> max (er_deadline r) (r_time rd + er_ttl r * 1000000)"
    "er_data (ec_record ch) \<noteq> er_data r \<Longrightarrow> er_update r < er_update (ec_record ch)"
  using assms
  by (cases x; auto simp: ephemeris_update_def ephemeris_renew_def ephemeris_active_None Let_def deadline_after_Inr
      ephemeris_valid_def split: if_splits option.splits sum.splits)+

interpretation ephemeris_lease: lease ephemeris_valid er_deadline ephemeris_step 600000000000
proof
  fix r x rd r'
  assume ok: "ephemeris_valid r" and "ephemeris_step r x rd = Inr r'"
  then obtain ch where ch: "ephemeris_apply r x rd = Inr ch" "r' = ec_record ch"
    by (cases "ephemeris_apply r x rd") (auto simp: ephemeris_step_def)
  note a = ephemeris_apply_Inr [OF ch(1)]
  show "ephemeris_valid r'" "r_ready rd \<and> r_time rd < er_deadline r" using a(1,2) ch(2) by (auto simp: ephemeris_active_None)
  show "er_deadline r \<le> er_deadline r' \<and> er_deadline r' \<le> max (er_deadline r) (r_time rd + 600000000000)"
    using a(7,8) ch(2) ok by (auto simp: ephemeris_valid_def)
qed

lemma ephemeris_run_keeps:
  "ephemeris_valid r \<Longrightarrow> let r' = lease_run ephemeris_step r xs in
     er_attr r' = er_attr r \<and> er_ttl r' = er_ttl r \<and> er_update r \<le> er_update r' \<and> er_renewal r \<le> er_renewal r'"
proof (induction xs arbitrary: r)
  case (Cons p xs)
  obtain x rd where p: "p = (x, rd)" by (cases p)
  show ?case
  proof (cases "ephemeris_apply r x rd")
    case (Inl e)
    then show ?thesis using Cons p by (simp add: ephemeris_step_def)
  next
    case (Inr ch)
    note a = ephemeris_apply_Inr [OF Inr]
    show ?thesis using Cons.IH [OF a(2)] a Inr p by (auto simp: ephemeris_step_def Let_def)
  qed
qed simp

subsection \<open>UUIDs\<close>

text \<open>The bytes a run of answers delivers.\<close>

fun delivered :: "random_answer list \<Rightarrow> bytes" where
  "delivered [] = []"
| "delivered (Random_error e # as) = delivered as"
| "delivered (Random_bytes bs # as) = bs @ delivered as"

lemma uuid_fill_done [simp]: "16 \<le> length acc \<Longrightarrow> uuid_fill as acc = Some (Inr acc)"
  by (simp add: uuid_fill.simps)

lemma uuid_fill_exact:
  assumes "\<forall>a \<in> set as. a = Random_error EINTR \<or> (\<exists>bs. a = Random_bytes bs \<and> bs \<noteq> [])"
    and "length acc \<le> 16" "16 \<le> length (acc @ delivered as)"
  shows "uuid_fill as acc = Some (Inr (take 16 (acc @ delivered as)))"
  using assms
proof (induction as arbitrary: acc)
  case (Cons a as)
  show ?case
  proof (cases "length acc \<ge> 16")
    case True
    then show ?thesis using Cons.prems(2) by simp
  next
    case False
    consider "a = Random_error EINTR" | bs where "a = Random_bytes bs" "bs \<noteq> []" using Cons.prems(1) by auto
    then show ?thesis
    proof cases
      case 1
      then show ?thesis using Cons False by (simp add: uuid_fill.simps [of "Random_error EINTR # as"])
    next
      case 2
      let ?b = "acc @ take (16 - length acc) bs"
      have step: "uuid_fill (a # as) acc = uuid_fill as ?b" using 2 False by (simp add: uuid_fill.simps [of "Random_bytes bs # as"])
      show ?thesis
      proof (cases "16 \<le> length (acc @ bs)")
        case True
        then show ?thesis unfolding step using False 2 by simp
      next
        case short: False
        then have "?b = acc @ bs" by simp
        then show ?thesis unfolding step using Cons.IH [of "acc @ bs"] Cons.prems 2 short by simp
      qed
    qed
  qed
qed simp

lemma uuid_bits: "((x AND 0x0f) OR 0x40) AND 0xf0 = (0x40 :: u8)" "((x AND 0x3f) OR 0x80) AND 0xc0 = (0x80 :: u8)"
  by (simp_all add: bit_eq_iff bit_simps) (auto simp: bit_simps bit_numeral_rec less_Suc_eq numeral_eq_Suc)

lemma list_update_twice_nth:
  "length b = 16 \<Longrightarrow> (b[6 := x, 8 := y]) ! 6 = x" "length b = 16 \<Longrightarrow> (b[6 := x, 8 := y]) ! 8 = y"
  by simp_all

subsection \<open>Properties\<close>

text \<open>Identifiers are well formed.  When the kernel's random source answers with interruptions and short reads until sixteen
  bytes have come, \<^verbatim>\<open>uuid\<close> returns a valid version-4 identifier made of the first sixteen bytes delivered: every bit but
  the six that carry version and variant is the random bit.\<close>

theorem uuid_well_formed:
  assumes "\<forall>a \<in> set as. a = Random_error EINTR \<or> (\<exists>bs. a = Random_bytes bs \<and> bs \<noteq> [])" "16 \<le> length (delivered as)"
  shows "\<exists>u. uuid as = Some (Inr u) \<and> valid_uuid u \<and> (\<forall>i < 16. i \<noteq> 6 \<longrightarrow> i \<noteq> 8 \<longrightarrow> u ! i = delivered as ! i)
    \<and> u ! 6 AND 0x0f = delivered as ! 6 AND 0x0f \<and> u ! 8 AND 0x3f = delivered as ! 8 AND 0x3f"
proof -
  define b where "b = take 16 (delivered as)"
  have b: "uuid_fill as [] = Some (Inr b)" "length b = 16" using uuid_fill_exact [OF assms(1), of "[]"] assms(2) by (simp_all add: b_def)
  have at: "b ! i = delivered as ! i" if "i < 16" for i using that by (simp add: b_def)
  have low: "((x AND 0x0f) OR 0x40) AND 0x0f = x AND 0x0f" "((x AND 0x3f) OR 0x80) AND 0x3f = x AND 0x3f" for x :: u8
    by (simp_all add: bit_eq_iff bit_simps) (auto simp: bit_simps bit_numeral_rec less_Suc_eq numeral_eq_Suc)
  let ?u = "b[6 := (b ! 6 AND 0x0f) OR 0x40, 8 := (b ! 8 AND 0x3f) OR 0x80]"
  have "uuid as = Some (Inr ?u)" by (simp add: uuid_def b(1) Let_def)
  moreover have "valid_uuid ?u" using b(2) by (simp add: valid_uuid_def list_update_twice_nth uuid_bits)
  moreover have "?u ! 6 AND 0x0f = delivered as ! 6 AND 0x0f" "?u ! 8 AND 0x3f = delivered as ! 8 AND 0x3f"
    using b(2) at [of 6] at [of 8] by (simp_all add: list_update_twice_nth low)
  moreover have "\<forall>i < 16. i \<noteq> 6 \<longrightarrow> i \<noteq> 8 \<longrightarrow> ?u ! i = delivered as ! i" using at by simp
  ultimately show ?thesis by blast
qed

theorem uuid_well_formed_witness:
  "\<exists>u. uuid [Random_bytes (replicate 10 0xff), Random_error EINTR, Random_bytes (replicate 6 0x12)] = Some (Inr u) \<and> valid_uuid u \<and> u ! 15 = 0x12"
  using uuid_well_formed [of "[Random_bytes (replicate 10 0xff), Random_error EINTR, Random_bytes (replicate 6 0x12)]"]
  by (auto simp: nth_append)

text \<open>C25: the life of a registration.  Over any sequence of updates and renewals, accepted or refused,
  a valid registration keeps its attributes and its time to live, its two orders never fall,
  its deadline never comes forward and never exceeds the later of the old one and ten minutes
  after the latest reading; and once readings have reached the deadline nothing is accepted
  any more, so an ended registration is never revived.\<close>

theorem ephemeris_life:
  assumes "ephemeris_valid r" "\<forall>(x, rd) \<in> set xs. r_time rd \<le> t"
  shows "let r' = lease_run ephemeris_step r xs in
    ephemeris_valid r' \<and> er_attr r' = er_attr r \<and> er_ttl r' = er_ttl r \<and> er_update r \<le> er_update r' \<and>
    er_renewal r \<le> er_renewal r' \<and> er_deadline r \<le> er_deadline r' \<and>
    er_deadline r' \<le> max (er_deadline r) (t + 600000000000) \<and>
    ((\<forall>(x, rd) \<in> set xs. er_deadline r \<le> r_time rd) \<longrightarrow> r' = r)"
  using ephemeris_run_keeps [OF assms(1), of xs] ephemeris_lease.run_ok [OF assms(1), of xs]
    ephemeris_lease.run_extends [OF assms(1), of xs] ephemeris_lease.run_bounded [OF assms]
    ephemeris_lease.expired_final [OF assms(1), of xs] by (simp add: Let_def)

definition registration_0 :: ephemeris_record where
  "registration_0 = \<lparr>er_attr = Some [1], er_data = Some [2], er_deadline = 100, er_update = 3, er_renewal = 4, er_ttl = 1000\<rparr>"

theorem ephemeris_life_witness:
  "let xs = [(Update_data (Some [7]) 5, \<lparr>r_time = 10, r_uncertainty = 0, r_rtt = 0, r_sampled = 0, r_ready = True, r_synchronized = True\<rparr>)];
       r' = lease_run ephemeris_step registration_0 xs
   in ephemeris_valid r' \<and> er_attr r' = Some [1] \<and> er_update registration_0 \<le> er_update r'"
  using ephemeris_life [of registration_0 "[(Update_data (Some [7]) 5,
      \<lparr>r_time = 10, r_uncertainty = 0, r_rtt = 0, r_sampled = 0, r_ready = True, r_synchronized = True\<rparr>)]" 10]
  by (simp add: Let_def ephemeris_valid_def ephemeris_valid_value_def registration_0_def)

text \<open>Retries are harmless and changes need a new order.  An accepted operation sent again while
  the registration is still active is accepted, changes nothing and reports neither a new
  fact nor a visible change; the data of a registration changes only under a strictly higher
  update order, and exactly then the change is visible.\<close>

theorem ephemeris_retry:
  assumes "ephemeris_apply r x rd = Inr ch" "r_time rd \<le> r_time rd'" "r_ready rd'" "r_time rd' < er_deadline (ec_record ch)"
  shows "ephemeris_apply (ec_record ch) x rd' = Inr \<lparr>ec_record = ec_record ch, ec_changed = False, ec_visible = False\<rparr> \<and>
    (ec_visible ch \<longleftrightarrow> er_data (ec_record ch) \<noteq> er_data r) \<and>
    (ec_visible ch \<longrightarrow> er_update r < er_update (ec_record ch))"
proof -
  have "0 \<le> r_time rd" using ephemeris_apply_Inr(1) [OF assms(1)] by (simp add: ephemeris_active_None)
  then have act: "ephemeris_active (ec_record ch) rd' = None" and valid: "ephemeris_valid r" "ephemeris_valid (ec_record ch)"
    using assms ephemeris_apply_Inr(1,2) [OF assms(1)] by (auto simp: ephemeris_active_None)
  show ?thesis
  proof (cases x)
    case (Update_data d n)
    have "d \<noteq> None"
    proof
      assume "d = None"
      then show False using assms(1) Update_data by (simp add: ephemeris_update_def ephemeris_valid_value_def)
    qed
    moreover have "er_data r \<noteq> None" using valid(1) by (auto simp: ephemeris_valid_def ephemeris_valid_value_def split: option.splits)
    ultimately obtain b b' where d: "d = Some b" "er_data r = Some b'" by blast
    have n: "ephemeris_valid_value d" "n \<noteq> 0" "ephemeris_active r rd = None" "\<not> n < er_update r"
      using assms(1) Update_data by (auto simp: ephemeris_update_def split: if_splits option.splits)
    consider "n = er_update r" "b = b'" "ch = \<lparr>ec_record = r, ec_changed = False, ec_visible = False\<rparr>"
      | "er_update r < n" "ch = \<lparr>ec_record = r\<lparr>er_update := n, er_data := d\<rparr>, ec_changed = True, ec_visible = (b \<noteq> b')\<rparr>"
    proof (cases "n = er_update r")
      case True
      then show ?thesis using that(1) assms(1) Update_data n d by (simp add: ephemeris_update_def Let_def split: if_splits)
    next
      case False
      have "r\<lparr>er_update := n\<rparr> = r\<lparr>er_update := n, er_data := d\<rparr>" if "b = b'" using that d by (cases r) simp
      then show ?thesis using that(2) assms(1) Update_data n d False
        by (auto simp: ephemeris_update_def Let_def split: if_splits)
    qed
    then show ?thesis
    proof cases
      case 1
      then show ?thesis using act n d Update_data by (simp add: ephemeris_update_def Let_def)
    next
      case 2
      then show ?thesis using act n d Update_data by (auto simp: ephemeris_update_def Let_def)
    qed
  next
    case (Renew_lease n)
    have n: "n \<noteq> 0" "ephemeris_active r rd = None" "\<not> n < er_renewal r"
      using assms(1) Renew_lease by (auto simp: ephemeris_renew_def split: if_splits option.splits)
    have "er_renewal (ec_record ch) = n" "er_data (ec_record ch) = er_data r" "\<not> ec_visible ch"
      using assms(1) Renew_lease n by (auto simp: ephemeris_renew_def split: if_splits sum.splits)
    then show ?thesis using act n Renew_lease by (simp add: ephemeris_renew_def)
  qed
qed

theorem ephemeris_retry_witness:
  "\<exists>ch. ephemeris_apply registration_0 (Renew_lease 9) \<lparr>r_time = 10, r_uncertainty = 0, r_rtt = 0, r_sampled = 0, r_ready = True, r_synchronized = True\<rparr> = Inr ch \<and>
    ephemeris_apply (ec_record ch) (Renew_lease 9) \<lparr>r_time = 20, r_uncertainty = 0, r_rtt = 0, r_sampled = 0, r_ready = True, r_synchronized = True\<rparr> =
      Inr \<lparr>ec_record = ec_record ch, ec_changed = False, ec_visible = False\<rparr>"
proof -
  obtain ch where ch: "ephemeris_apply registration_0 (Renew_lease 9)
      \<lparr>r_time = 10, r_uncertainty = 0, r_rtt = 0, r_sampled = 0, r_ready = True, r_synchronized = True\<rparr> = Inr ch"
      "er_deadline (ec_record ch) = 1000000010"
    by (simp add: ephemeris_renew_def ephemeris_active_def registration_0_def ephemeris_valid_def ephemeris_valid_value_def
        deadline_after_def i64_max_def)
  then show ?thesis
    using ephemeris_retry [OF ch(1), of "\<lparr>r_time = 20, r_uncertainty = 0, r_rtt = 0, r_sampled = 0, r_ready = True, r_synchronized = True\<rparr>"]
    by simp
qed

end
