(* ===== verification/Types.thy ===== *)
theory Types
  imports Astra_Prelude
begin

text \<open>
  The shared vocabulary of the network components: status codes, principals, endpoints and members
  (\<^verbatim>\<open>astra/common/include/astra/types.hpp\<close>, \<^verbatim>\<open>common/src/types.cpp\<close>), scopes (\<^verbatim>\<open>scope.hpp\<close>,
  \<^verbatim>\<open>scope.cpp\<close>), the address of the admission service (\<^verbatim>\<open>Config::format_pulsar\<close>), and the rules
  for superseding a member and for spacing retries (\<^verbatim>\<open>policy.hpp\<close>, \<^verbatim>\<open>policy.cpp\<close>).

  A \<^verbatim>\<open>std::string\<close> is a list of 8-bit characters.  The address functions of the C library,
  \<^verbatim>\<open>inet_pton\<close> and \<^verbatim>\<open>inet_ntop\<close>, are arguments of the definitions that call them: \<open>pton v6 s\<close> gives
  the 4 or 16 bytes of the address or \<open>None\<close>, \<open>ntop v6 bytes\<close> the text or \<open>None\<close>.
\<close>

subsection \<open>Status\<close>

datatype status_code = Configuration | Identity | Protocol | Conflict | Capacity | Timeout | Transport | Cancelled | Internal

record status =
  st_code :: status_code
  st_message :: string

type_synonym 'a result = "status + 'a"

definition fail :: "status_code \<Rightarrow> string \<Rightarrow> 'a result" where
  "fail c m = Inl \<lparr>st_code = c, st_message = m\<rparr>"

fun status_name :: "status_code \<Rightarrow> string" where
  "status_name Configuration = ''configuration''"
| "status_name Identity = ''identity''"
| "status_name Protocol = ''protocol''"
| "status_name Conflict = ''conflict''"
| "status_name Capacity = ''capacity''"
| "status_name Timeout = ''timeout''"
| "status_name Transport = ''transport''"
| "status_name Cancelled = ''cancelled''"
| "status_name Internal = ''internal''"

subsection \<open>Characters\<close>

definition code_of :: "char \<Rightarrow> nat" where
  "code_of c = of_char c"

definition is_digit :: "char \<Rightarrow> bool" where
  "is_digit c \<longleftrightarrow> 48 \<le> code_of c \<and> code_of c \<le> 57"

definition is_lower :: "char \<Rightarrow> bool" where
  "is_lower c \<longleftrightarrow> 97 \<le> code_of c \<and> code_of c \<le> 122"

definition is_upper :: "char \<Rightarrow> bool" where
  "is_upper c \<longleftrightarrow> 65 \<le> code_of c \<and> code_of c \<le> 90"

subsection \<open>Principals\<close>

definition principal_nibble :: "char \<Rightarrow> u8 option" where
  "principal_nibble c =
     (if 48 \<le> code_of c \<and> code_of c \<le> 57 \<or> 97 \<le> code_of c \<and> code_of c \<le> 102
      then Some (of_nat (if code_of c \<le> 57 then code_of c - 48 else code_of c - 97 + 10))
      else None)"

fun principal_loop :: "string \<Rightarrow> nat \<Rightarrow> bytes \<Rightarrow> bytes result" where
  "principal_loop [] i bs = Inr bs"
| "principal_loop (c # cs) i bs =
     (case principal_nibble c of
        None \<Rightarrow> fail Identity ''Principal must use lowercase hexadecimal''
      | Some n \<Rightarrow> principal_loop cs (Suc i) (bs[i div 2 := push_bit 4 (bs ! (i div 2)) OR n]))"

definition principal_parse :: "string \<Rightarrow> bytes result" where
  "principal_parse value =
     (if length value \<noteq> 32 * 2 then fail Identity ''Invalid principal length''
      else principal_loop value 0 (replicate 32 0))"

definition hex_digit :: "u8 \<Rightarrow> char" where
  "hex_digit n = ''0123456789abcdef'' ! unat n"

definition principal_text :: "bytes \<Rightarrow> string" where
  "principal_text bs = concat (map (\<lambda>b. [hex_digit (drop_bit 4 b), hex_digit (b AND 15)]) bs)"

subsection \<open>Ports\<close>

text \<open>\<^verbatim>\<open>std::from_chars\<close> into a 32-bit unsigned: the longest prefix of decimal digits, an error if it is
  empty or its value does not fit; the rest of the input is returned.\<close>

definition digits_value :: "string \<Rightarrow> nat" where
  "digits_value ds = foldl (\<lambda>n c. n * 10 + (code_of c - 48)) 0 ds"

definition from_chars_u32 :: "string \<Rightarrow> (nat \<times> string) option" where
  "from_chars_u32 s =
     (let ds = takeWhile is_digit s in
      if ds = [] \<or> digits_value ds \<ge> 2 ^ 32 then None else Some (digits_value ds, dropWhile is_digit s))"

definition port_number :: "string \<Rightarrow> bool \<Rightarrow> nat result" where
  "port_number value local =
     (case from_chars_u32 value of
        None \<Rightarrow> fail Configuration ''Invalid endpoint port''
      | Some (port, rest) \<Rightarrow>
          if rest \<noteq> [] \<or> port > 65535 \<or> (\<not> local \<and> port = 0)
          then fail Configuration ''Invalid endpoint port'' else Inr port)"

subsection \<open>Endpoints\<close>

record endpoint =
  ep_host :: string
  ep_port :: nat
  ep_ipv6 :: bool
  ep_wildcard :: bool

text \<open>The text before and after the last occurrence of a character (\<^verbatim>\<open>rfind\<close> and \<^verbatim>\<open>substr\<close>).\<close>

definition split_last :: "char \<Rightarrow> string \<Rightarrow> (string \<times> string) option" where
  "split_last c s =
     (if c \<in> set s
      then Some (rev (tl (dropWhile (\<lambda>x. x \<noteq> c) (rev s))), rev (takeWhile (\<lambda>x. x \<noteq> c) (rev s)))
      else None)"

definition bracketed :: "string \<Rightarrow> bool" where
  "bracketed h \<longleftrightarrow> h \<noteq> [] \<and> hd h = CHR ''['' \<and> last h = CHR '']''"

definition endpoint_parse ::
  "(bool \<Rightarrow> string \<Rightarrow> bytes option) \<Rightarrow> (bool \<Rightarrow> bytes \<Rightarrow> string option) \<Rightarrow> string \<Rightarrow> bool \<Rightarrow> endpoint result" where
  "endpoint_parse pton ntop value local =
     (case split_last (CHR '':'') value of
        None \<Rightarrow> fail Configuration ''Endpoint requires IP:PORT''
      | Some (before, after) \<Rightarrow>
          (case port_number after local of
             Inl e \<Rightarrow> Inl e
           | Inr port \<Rightarrow>
               let ipv6 = bracketed before;
                   host = (if ipv6 then butlast (tl before) else before)
               in (case (if CHR 0x00 \<in> set host then None else pton ipv6 host) of
                     None \<Rightarrow> fail Configuration ''Endpoint requires a numeric IP without scope''
                   | Some address \<Rightarrow>
                       let bs = address @ replicate (16 - length address) 0;
                           count = (if ipv6 then 16 else 4);
                           wildcard = list_all (\<lambda>b. b = 0) (take count bs);
                           multicast = (if ipv6 then bs ! 0 = 255 else 224 \<le> bs ! 0 \<and> bs ! 0 \<le> 239);
                           mapped = (ipv6 \<and> list_all (\<lambda>b. b = 0) (take 10 bs) \<and> bs ! 10 = 255 \<and> bs ! 11 = 255)
                       in if multicast \<or> mapped \<or> (\<not> local \<and> wildcard)
                          then fail Configuration ''Endpoint is not a supported unicast address''
                          else case ntop ipv6 (take count bs) of
                            None \<Rightarrow> fail Internal ''Address normalization failed''
                          | Some text \<Rightarrow> Inr \<lparr>ep_host = text, ep_port = port, ep_ipv6 = ipv6, ep_wildcard = wildcard\<rparr>)))"

fun decimal :: "nat \<Rightarrow> string" where
  "decimal n = (if n < 10 then [char_of (n + 48)] else decimal (n div 10) @ [char_of (n mod 10 + 48)])"

declare decimal.simps [simp del]

definition endpoint_text :: "endpoint \<Rightarrow> string" where
  "endpoint_text e =
     (if ep_ipv6 e then ''['' @ ep_host e @ '']'' else ep_host e) @ '':'' @ decimal (ep_port e)"

subsection \<open>Scopes\<close>

record scope =
  sc_sector :: string
  sc_spectrum :: string

text \<open>\<^verbatim>\<open>Scope::text\<close>: the loop over the code points of a UTF-8 text.  \<open>utf8_tail\<close> is the inner loop over the
  continuation bytes of one code point.\<close>

fun utf8_tail :: "nat \<Rightarrow> nat \<Rightarrow> string \<Rightarrow> (nat \<times> string) option" where
  "utf8_tail 0 code s = Some (code, s)"
| "utf8_tail (Suc n) code [] = None"
| "utf8_tail (Suc n) code (c # s) =
     (let b = code_of c in
      if and b 0xc0 \<noteq> 0x80 then None else utf8_tail n (or (push_bit 6 code) (and b 0x3f)) s)"

definition utf8_following :: "nat \<Rightarrow> nat" where
  "utf8_following first =
     (if 0xc2 \<le> first \<and> first \<le> 0xdf then 1 else if 0xe0 \<le> first \<and> first \<le> 0xef then 2
      else if 0xf0 \<le> first \<and> first \<le> 0xf4 then 3 else 0)"

lemma utf8_tail_length: "utf8_tail n code s = Some (code', s') \<Longrightarrow> length s = length s' + n"
  by (induction n code s arbitrary: code' s' rule: utf8_tail.induct) (auto simp: Let_def split: if_splits)

function utf8_text :: "string \<Rightarrow> bool" where
  "utf8_text [] = True"
| "utf8_text (c # s) =
     (let first = code_of c in
      if first = 0 then False
      else if first < 0x80 then utf8_text s
      else let following = utf8_following first;
               minimum = (if following = 1 then 0x80 else if following = 2 then 0x800 else 0x10000);
               code = (if following = 1 then and first 0x1f else if following = 2 then and first 0x0f else and first 0x07)
           in if following = 0 \<or> following > length s then False
              else case utf8_tail following code s of
                None \<Rightarrow> False
              | Some (code', s') \<Rightarrow>
                  if code' < minimum \<or> code' > 0x10ffff \<or> (0xd800 \<le> code' \<and> code' \<le> 0xdfff) then False
                  else utf8_text s')"
  by pat_completeness auto
termination
  by (relation "measure length") (auto dest!: utf8_tail_length)

definition scope_text :: "string \<Rightarrow> nat \<Rightarrow> bool" where
  "scope_text value maximum \<longleftrightarrow> value \<noteq> [] \<and> length value \<le> maximum \<and> utf8_text value"

definition scope_valid :: "scope \<Rightarrow> bool" where
  "scope_valid s \<longleftrightarrow> scope_text (sc_sector s) 128 \<and> scope_text (sc_spectrum s) 128"

definition scope_internal :: "scope \<Rightarrow> bool" where
  "scope_internal s \<longleftrightarrow> take 2 (sc_sector s) = ''__''"

subsection \<open>Members\<close>

datatype role = Star | Planet | Polaris | Astrolabe

record member =
  m_galaxy :: string
  m_id :: string
  m_principal :: bytes
  m_address :: endpoint
  m_epoch :: u64
  m_role :: role
  m_group :: string

definition valid_name :: "string \<Rightarrow> bool" where
  "valid_name value \<longleftrightarrow> value \<noteq> [] \<and> length value \<le> 64 \<and>
     list_all (\<lambda>c. is_lower c \<or> is_upper c \<or> is_digit c \<or> c = CHR ''.'' \<or> c = CHR ''_'' \<or> c = CHR ''-'') value"

fun split_on :: "char \<Rightarrow> string \<Rightarrow> string list" where
  "split_on d [] = [[]]"
| "split_on d (c # s) = (if c = d then [] # split_on d s
     else case split_on d s of [] \<Rightarrow> [[c]] | p # ps \<Rightarrow> (c # p) # ps)"

definition valid_id :: "string \<Rightarrow> bool" where
  "valid_id i \<longleftrightarrow> i \<noteq> [] \<and> length i \<le> 128 \<and> list_all (\<lambda>part. part = [] \<or> scope_text part 128) (split_on (CHR 0x00) i)"

definition member_validate ::
  "(bool \<Rightarrow> string \<Rightarrow> bytes option) \<Rightarrow> (bool \<Rightarrow> bytes \<Rightarrow> string option) \<Rightarrow> member \<Rightarrow> unit result" where
  "member_validate pton ntop m =
     (if \<not> valid_name (m_galaxy m) \<or> \<not> valid_name (m_group m) \<or> \<not> valid_id (m_id m) \<or> m_epoch m = 0
      then fail Identity ''Invalid member identity''
      else case endpoint_parse pton ntop (endpoint_text (m_address m)) False of
        Inl _ \<Rightarrow> fail Identity ''Invalid canonical member endpoint''
      | Inr e \<Rightarrow> if e \<noteq> m_address m then fail Identity ''Invalid canonical member endpoint'' else Inr ())"

text \<open>\<^verbatim>\<open>Config::format_pulsar\<close>: a numeric endpoint in its canonical text, or a host name taken as it is.\<close>

definition valid_label :: "string \<Rightarrow> bool" where
  "valid_label part \<longleftrightarrow> part \<noteq> [] \<and> length part \<le> 63 \<and> hd part \<noteq> CHR ''-'' \<and> last part \<noteq> CHR ''-'' \<and>
     list_all (\<lambda>c. is_lower c \<or> is_upper c \<or> is_digit c \<or> c = CHR ''-'') part"

definition c_string :: "string \<Rightarrow> string" where
  "c_string s = takeWhile (\<lambda>c. c \<noteq> CHR 0x00) s"

definition format_pulsar ::
  "(bool \<Rightarrow> string \<Rightarrow> bytes option) \<Rightarrow> (bool \<Rightarrow> bytes \<Rightarrow> string option) \<Rightarrow> string \<Rightarrow> string result" where
  "format_pulsar pton ntop value =
     (case endpoint_parse pton ntop value False of
        Inr e \<Rightarrow> Inr (endpoint_text e)
      | Inl _ \<Rightarrow>
          (case split_last (CHR '':'') value of
             None \<Rightarrow> fail Configuration ''Pulsar requires HOST:PORT''
           | Some (host, after) \<Rightarrow>
               (case port_number after False of
                  Inl _ \<Rightarrow> fail Configuration ''Pulsar requires HOST:PORT''
                | Inr _ \<Rightarrow>
                    if pton False (c_string host) \<noteq> None then fail Configuration ''Invalid numeric Pulsar endpoint''
                    else if host = [] \<or> length host > 253 then fail Configuration ''Invalid Pulsar hostname''
                    else if \<not> list_all valid_label (split_on (CHR ''.'') host) then fail Configuration ''Invalid Pulsar hostname''
                    else Inr value)))"

subsection \<open>Policy rules\<close>

definition supersedes :: "member \<Rightarrow> member \<Rightarrow> bool result" where
  "supersedes candidate current =
     (if m_principal candidate \<noteq> m_principal current \<or> m_role candidate \<noteq> m_role current \<or>
         m_address candidate \<noteq> m_address current \<or> m_galaxy candidate \<noteq> m_galaxy current \<or>
         m_epoch candidate < m_epoch current \<or> (m_epoch candidate = m_epoch current \<and> candidate \<noteq> current)
      then fail Conflict ''Conflicting or stale member incarnation''
      else Inr (m_epoch candidate > m_epoch current))"

record config =
  cf_role :: role
  cf_galaxy :: string
  cf_group :: string
  cf_max_members :: nat
  cf_reconnect_min :: int
  cf_reconnect_max :: int
  cf_stable_connection :: int

definition retry_delay :: "u32 \<Rightarrow> config \<Rightarrow> u64 \<Rightarrow> int" where
  "retry_delay failures cf salt =
     (let shift = min (if failures = 0 then 0 else failures - 1) 16;
          base = min (cf_reconnect_min cf * 2 ^ unat shift) (cf_reconnect_max cf);
          lower = max (base - base div 4) (cf_reconnect_min cf);
          upper = min (base + base div 4) (cf_reconnect_max cf)
      in lower + uint ((salt + ucast failures) mod word_of_int (upper - lower + 1)))"

end
