(* ===== verification/Text.thy ===== *)
theory Text
  imports Types
begin

text \<open>
  Hexadecimal and UTF-8 texts: the correctness of \<^verbatim>\<open>Principal::parse\<close> and of the text validation.
\<close>

subsection \<open>Characters and hexadecimal\<close>

lemma code_of_less [simp]: "code_of c < 256"
  by (simp add: code_of_def)

lemma code_of_char [simp]: "n < 256 \<Longrightarrow> code_of (char_of n) = n"
  by (simp add: code_of_def)

lemma char_of_code [simp]: "char_of (code_of c) = c"
  by (simp add: code_of_def)

lemma code_of_inj: "code_of a = code_of b \<longleftrightarrow> a = b"
  by (simp add: code_of_def)

lemma hex_code: "k < 16 \<Longrightarrow> code_of (''0123456789abcdef'' ! k) = (if k < 10 then k + 48 else k + 87)"
  by (auto simp: code_of_def numeral_eq_Suc less_Suc_eq)

lemma principal_nibble_eq:
  "principal_nibble c = Some n \<longleftrightarrow> (\<exists>k < 16. n = of_nat k \<and> code_of c = (if k < 10 then k + 48 else k + 87))"
proof
  assume "principal_nibble c = Some n"
  then show "\<exists>k < 16. n = of_nat k \<and> code_of c = (if k < 10 then k + 48 else k + 87)"
    unfolding principal_nibble_def
    by (intro exI [of _ "if code_of c \<le> 57 then code_of c - 48 else code_of c - 97 + 10"]) (auto split: if_splits)
next
  assume "\<exists>k < 16. n = of_nat k \<and> code_of c = (if k < 10 then k + 48 else k + 87)"
  then obtain k where "k < 16" "n = of_nat k" "code_of c = (if k < 10 then k + 48 else k + 87)" by blast
  then show "principal_nibble c = Some n" by (simp add: principal_nibble_def split: if_splits)
qed

lemma unat_small: "k < 16 \<Longrightarrow> unat (of_nat k :: u8) = k"
  by (simp add: unat_of_nat)

lemma nibble_hex: "unat n < 16 \<Longrightarrow> principal_nibble (hex_digit n) = Some n"
  unfolding principal_nibble_eq hex_digit_def by (intro exI [of _ "unat n"]) (simp add: hex_code)

lemma hex_nibble: "principal_nibble c = Some n \<Longrightarrow> hex_digit n = c \<and> unat n < 16"
  unfolding principal_nibble_eq by (auto simp: hex_digit_def unat_small hex_code simp flip: code_of_inj)

lemma nibbles_join: "push_bit 4 (drop_bit 4 b) OR (b AND 15) = (b :: u8)"
  by (simp add: bit_eq_iff bit_simps) (auto simp: bit_numeral_rec less_Suc_eq numeral_eq_Suc)

lemma fifteen: "(15 :: u8) = mask 4"
  by (simp add: mask_eq_exp_minus_1)

lemma nibbles_split:
  assumes "unat h < 16" "unat l < 16"
  shows "drop_bit 4 (push_bit 4 h OR l) = (h :: u8)" "(push_bit 4 h OR l) AND 15 = (l :: u8)"
proof -
  have small: "bit x i \<longrightarrow> i < 4" if "unat x < 16" for x :: u8 and i
  proof -
    have "take_bit 4 x = x" 
      using that unfolding word_unat_eq_iff unsigned_take_bit_eq by (simp add: take_bit_eq_mod)
    then show ?thesis by (metis bit_take_bit_iff)
  qed
  show "drop_bit 4 (push_bit 4 h OR l) = (h :: u8)"
    using small [OF assms(1)] small [OF assms(2)] by (auto simp: bit_eq_iff bit_simps)
  show "(push_bit 4 h OR l) AND 15 = (l :: u8)"
    using small [OF assms(2)] unfolding fifteen by (auto simp: bit_eq_iff bit_simps)
qed

subsection \<open>Principals\<close>

lemma principal_text_length [simp]: "length (principal_text bs) = 2 * length bs"
  by (induction bs) (simp_all add: principal_text_def)

lemma unat_nibbles: "unat (drop_bit 4 b) < 16" "unat (b AND 15) < 16" for b :: u8
proof -
  have "unat b < 256" using unsigned_less [of b] by simp
  then show "unat (drop_bit 4 b) < 16" unfolding unat_drop_bit by simp
  show "unat (b AND 15) < 16" unfolding fifteen take_bit_eq_mask [symmetric] unsigned_take_bit_eq by (simp add: take_bit_eq_mod)
qed

lemma principal_loop_text:
  "principal_loop (principal_text bs) (2 * length p) (p @ replicate (length bs + r) 0) = Inr (p @ bs @ replicate r 0)"
proof (induction bs arbitrary: p)
  case (Cons b bs)
  have t: "principal_text (b # bs) = hex_digit (drop_bit 4 b) # hex_digit (b AND 15) # principal_text bs"
    by (simp add: principal_text_def)
  have u: "(p @ x # ys)[length p := z] = p @ z # ys" "(p @ x # ys) ! length p = x" for x z :: u8 and ys by simp_all
  have "principal_loop (principal_text bs) (2 * length (p @ [b])) ((p @ [b]) @ replicate (length bs + r) 0) =
      Inr ((p @ [b]) @ bs @ replicate r 0)" by (rule Cons.IH)
  then show ?case
    unfolding t using nibbles_join [of b] by (simp add: nibble_hex unat_nibbles u del: replicate_add)
qed (simp add: principal_text_def)

lemma principal_loop_parse:
  "principal_loop s (2 * length p) (p @ replicate n 0) = Inr bs \<Longrightarrow> length s = 2 * n \<Longrightarrow>
   \<exists>q. bs = p @ q \<and> length q = n \<and> principal_text q = s"
proof (induction n arbitrary: s p)
  case 0
  then show ?case by (simp add: principal_text_def)
next
  case (Suc n)
  obtain a b s' where s: "s = a # b # s'" using Suc.prems(2) by (auto simp: length_Suc_conv)
  have u: "(p @ x # ys)[length p := z] = p @ z # ys" "(p @ x # ys) ! length p = x" for x z :: u8 and ys by simp_all
  obtain h l where h: "principal_nibble a = Some h" and l: "principal_nibble b = Some l"
    using Suc.prems(1) s by (auto simp: fail_def u split: option.splits)
  let ?x = "push_bit 4 h OR l"
  have "principal_loop s' (2 * length (p @ [?x])) ((p @ [?x]) @ replicate n 0) = Inr bs"
    using Suc.prems(1) s h l by (simp add: u)
  then obtain q where q: "bs = (p @ [?x]) @ q" "length q = n" "principal_text q = s'"
    using Suc.IH Suc.prems(2) s by fastforce
  have d: "drop_bit 4 ?x = h" "?x AND 15 = l" using nibbles_split hex_nibble [OF h] hex_nibble [OF l] by blast+
  have "principal_text (y # q) = hex_digit (drop_bit 4 y) # hex_digit (y AND 15) # principal_text q" for y
    by (simp add: principal_text_def)
  then have "principal_text (?x # q) = hex_digit h # hex_digit l # principal_text q" by (simp only: d)
  then have "principal_text (?x # q) = s" using q(3) hex_nibble [OF h] hex_nibble [OF l] by (simp add: s)
  then show ?case using q by (intro exI [of _ "?x # q"]) simp
qed

subsection \<open>UTF-8\<close>

text \<open>The reference: a text is the concatenation of the encodings of Unicode scalar values.\<close>

definition scalar :: "nat \<Rightarrow> bool" where
  "scalar c \<longleftrightarrow> c \<le> 0x10ffff \<and> \<not> (0xd800 \<le> c \<and> c \<le> 0xdfff)"

definition utf8_encode :: "nat \<Rightarrow> string" where
  "utf8_encode c = map char_of
     (if c < 0x80 then [c]
      else if c < 0x800 then [0xc0 + c div 64, 0x80 + c mod 64]
      else if c < 0x10000 then [0xe0 + c div 4096, 0x80 + c div 64 mod 64, 0x80 + c mod 64]
      else [0xf0 + c div 262144, 0x80 + c div 4096 mod 64, 0x80 + c div 64 mod 64, 0x80 + c mod 64])"

lemma masks: "(0x1f :: nat) = mask 5" "(0x0f :: nat) = mask 4" "(0x07 :: nat) = mask 3" "(0x3f :: nat) = mask 6"
    "(0xc0 :: nat) = push_bit 6 (mask 2)"
  by (simp_all add: mask_eq_exp_minus_1 push_bit_eq_mult)

lemma and_low: "and b 0x1f = b mod 32" "and b 0x0f = b mod 16" "and b 0x07 = b mod 8" "and b 0x3f = b mod 64" for b :: nat
  unfolding masks take_bit_eq_mask [symmetric] by (simp_all add: take_bit_eq_mod)

lemma and_high:
  assumes "b < 256"
  shows "and b 0xc0 = 0x80 \<longleftrightarrow> b div 64 = (2 :: nat)"
proof -
  have "take_bit 8 b = b" using assms by (simp add: take_bit_nat_eq_self_iff)
  then have top: "bit b n \<longrightarrow> n < 8" for n by (metis bit_take_bit_iff)
  have "and b 0xc0 = push_bit 6 (drop_bit 6 b)"
    unfolding masks by (auto simp: bit_eq_iff bit_simps less_diff_conv2 dest: top [rule_format])
  also have "\<dots> = b div 64 * 64" by (simp add: push_bit_eq_mult drop_bit_eq_div)
  finally show ?thesis by simp
qed

lemma or_low: "or (push_bit 6 a) (b mod 64) = a * 64 + b mod (64 :: nat)"
proof -
  have m: "b mod 64 = take_bit 6 b" by (simp add: take_bit_eq_mod)
  have "and (push_bit 6 a) (take_bit 6 b) = 0" by (auto simp: bit_eq_iff bit_simps)
  then have "push_bit 6 a + take_bit 6 b = or (push_bit 6 a) (take_bit 6 b)" by (rule disjunctive_add_eq_or)
  then show ?thesis unfolding m by (simp add: push_bit_eq_mult)
qed

lemma utf8_tail_Suc:
  "utf8_tail (Suc n) code (c # s) = (if code_of c div 64 = 2 then utf8_tail n (code * 64 + code_of c mod 64) s else None)"
  by (simp add: Let_def and_high and_low or_low)

declare utf8_tail.simps(3) [simp del]
declare utf8_tail_Suc [simp]
declare utf8_text.simps [simp del]

lemma utf8_text_Nil [simp]: "utf8_text []"
  by (simp add: utf8_text.simps)

lemma utf8_text_step:
  "utf8_text (c # s) \<longleftrightarrow>
     (let f = code_of c in
      0 < f \<and> f < 0x80 \<and> utf8_text s \<or>
      0xc2 \<le> f \<and> f \<le> 0xdf \<and> (\<exists>x s'. utf8_tail 1 (f mod 32) s = Some (x, s') \<and> 0x80 \<le> x \<and> scalar x \<and> utf8_text s') \<or>
      0xe0 \<le> f \<and> f \<le> 0xef \<and> (\<exists>x s'. utf8_tail 2 (f mod 16) s = Some (x, s') \<and> 0x800 \<le> x \<and> scalar x \<and> utf8_text s') \<or>
      0xf0 \<le> f \<and> f \<le> 0xf4 \<and> (\<exists>x s'. utf8_tail 3 (f mod 8) s = Some (x, s') \<and> 0x10000 \<le> x \<and> scalar x \<and> utf8_text s'))"
proof -
  have short: "utf8_tail k x s = None" if "length s < k" for k x
    using utf8_tail_length [of k x s] that by (cases "utf8_tail k x s") auto
  show ?thesis
    using short [of 1] short [of 2] short [of 3]
    by (auto simp: utf8_text.simps(2) Let_def utf8_following_def scalar_def and_low split: option.splits if_splits)
qed

lemma utf8_tail_1: "utf8_tail 1 x s = Some (y, s') \<longleftrightarrow>
    (\<exists>a. s = a # s' \<and> code_of a div 64 = 2 \<and> y = x * 64 + code_of a mod 64)"
  by (cases s) auto

lemma utf8_tail_2: "utf8_tail 2 x s = Some (y, s') \<longleftrightarrow>
    (\<exists>a b. s = a # b # s' \<and> code_of a div 64 = 2 \<and> code_of b div 64 = 2 \<and> y = (x * 64 + code_of a mod 64) * 64 + code_of b mod 64)"
  by (cases s; cases "tl s") (auto simp: numeral_2_eq_2)

lemma utf8_tail_3: "utf8_tail 3 x s = Some (y, s') \<longleftrightarrow>
    (\<exists>a b c. s = a # b # c # s' \<and> code_of a div 64 = 2 \<and> code_of b div 64 = 2 \<and> code_of c div 64 = 2 \<and>
       y = ((x * 64 + code_of a mod 64) * 64 + code_of b mod 64) * 64 + code_of c mod 64)"
  by (cases s; cases "tl s"; cases "tl (tl s)") (auto simp: numeral_3_eq_3)

lemma cont_byte: "code_of a div 64 = 2 \<Longrightarrow> char_of (0x80 + code_of a mod 64) = a"
proof -
  assume h: "code_of a div 64 = 2"
  have "code_of a = 128 + code_of a mod 64" using h div_mult_mod_eq [of "code_of a" 64] by linarith
  then show ?thesis by (metis char_of_code)
qed

lemma range_mod:
  fixes f lo m :: nat
  assumes "lo \<le> f" "f < lo + m" "m dvd lo"
  shows "f = lo + f mod m"
proof -
  have "f mod m = (f - lo) mod m" using assms(1,3) by (metis le_add_diff_inverse mod_add_left_eq mod_0_imp_dvd mod_eq_0_iff_dvd add_0)
  also have "\<dots> = f - lo" using assms(1,2) by simp
  finally show ?thesis using assms(1) by simp
qed

lemma base_mod:
  fixes q lo m :: nat
  assumes "m dvd lo" "q < m"
  shows "(lo + q) mod m = q"
  using assms by (auto elim!: dvdE)

lemma pack64:
  fixes q r :: nat
  assumes "r < 64"
  shows "(q * 64 + r) div 64 = q" "(q * 64 + r) mod 64 = r"
  using assms by simp_all

lemma utf8_text_first:
  assumes "utf8_text (c # s)"
  shows "\<exists>x s'. scalar x \<and> x \<noteq> 0 \<and> c # s = utf8_encode x @ s' \<and> utf8_text s'"
proof -
  let ?f = "code_of c"
  have c: "c = char_of ?f" by simp
  consider (one) "0 < ?f" "?f < 0x80" "utf8_text s"
    | (two) x s' where "0xc2 \<le> ?f" "?f \<le> 0xdf" "utf8_tail 1 (?f mod 32) s = Some (x, s')" "0x80 \<le> x" "scalar x" "utf8_text s'"
    | (three) x s' where "0xe0 \<le> ?f" "?f \<le> 0xef" "utf8_tail 2 (?f mod 16) s = Some (x, s')" "0x800 \<le> x" "scalar x" "utf8_text s'"
    | (four) x s' where "0xf0 \<le> ?f" "?f \<le> 0xf4" "utf8_tail 3 (?f mod 8) s = Some (x, s')" "0x10000 \<le> x" "scalar x" "utf8_text s'"
    using assms unfolding utf8_text_step Let_def by (elim disjE conjE exE) blast+
  then show ?thesis
  proof cases
    case one
    then show ?thesis by (intro exI [of _ ?f] exI [of _ s]) (simp add: scalar_def utf8_encode_def)
  next
    case two
    obtain k where k: "k < 64" "s = char_of (0x80 + k) # s'" "x = (?f mod 32) * 64 + k"
    proof -
      obtain a where "s = a # s'" "code_of a div 64 = 2" "x = (?f mod 32) * 64 + code_of a mod 64"
        using two(3) unfolding utf8_tail_1 by blast
      then show ?thesis by (intro that [of "code_of a mod 64"]) (simp_all only: cont_byte mod_less_divisor zero_less_numeral)
    qed
    have f: "?f = 0xc0 + ?f mod 32" using two(1,2) by (intro range_mod) auto
    have "x div 64 = ?f mod 32" "x mod 64 = k" "x < 0x800" using k(1,3) by auto
    then have "c # s = utf8_encode x @ s'" using f k(2) two(4) by (simp add: utf8_encode_def)
    then show ?thesis using two by auto
  next
    case three
    obtain k j where k: "k < 64" "j < 64" "s = char_of (0x80 + k) # char_of (0x80 + j) # s'" "x = ((?f mod 16) * 64 + k) * 64 + j"
    proof -
      obtain a b where "s = a # b # s'" "code_of a div 64 = 2" "code_of b div 64 = 2"
        "x = ((?f mod 16) * 64 + code_of a mod 64) * 64 + code_of b mod 64"
        using three(3) unfolding utf8_tail_2 by blast
      then show ?thesis using that [of "code_of a mod 64" "code_of b mod 64"] cont_byte [of a] cont_byte [of b] by simp
    qed
    have f: "?f = 0xe0 + ?f mod 16" using three(1,2) by (intro range_mod) auto
    have "x div 64 = (?f mod 16) * 64 + k" "x mod 64 = j" unfolding k(4) by (rule pack64 [OF k(2)])+
    moreover have "x < 0x10000" 
    proof -
      have "?f mod 16 < 16" by simp
      moreover have "(a * 64 + k) * 64 + j < 65536" if "a < 16" for a :: nat
      proof -
        have "a \<le> 15" "k \<le> 63" "j \<le> 63" using that k(1,2) by auto
        then show ?thesis by (simp add: add_mult_distrib)
      qed
      ultimately show ?thesis unfolding k(4) by blast
    qed
    moreover have "x div 4096 = x div 64 div 64" by (simp add: div_mult2_eq [symmetric])
    ultimately have "x div 4096 = ?f mod 16" "x div 64 mod 64 = k" "x mod 64 = j" "x < 0x10000" by (simp_all only: pack64 [OF k(1)])
    then have "c # s = utf8_encode x @ s'" using f k(3) three(4) by (simp add: utf8_encode_def)
    then show ?thesis using three by auto
  next
    case four
    obtain k j i where k: "k < 64" "j < 64" "i < 64"
      "s = char_of (0x80 + k) # char_of (0x80 + j) # char_of (0x80 + i) # s'" "x = (((?f mod 8) * 64 + k) * 64 + j) * 64 + i"
    proof -
      obtain a b d where "s = a # b # d # s'" "code_of a div 64 = 2" "code_of b div 64 = 2" "code_of d div 64 = 2"
        "x = (((?f mod 8) * 64 + code_of a mod 64) * 64 + code_of b mod 64) * 64 + code_of d mod 64"
        using four(3) unfolding utf8_tail_3 by blast
      then show ?thesis
        using that [of "code_of a mod 64" "code_of b mod 64" "code_of d mod 64"] cont_byte [of a] cont_byte [of b] cont_byte [of d]
        by simp
    qed
    have f: "?f = 0xf0 + ?f mod 8" using four(1,2) by (intro range_mod) auto
    have a: "x div 64 = ((?f mod 8) * 64 + k) * 64 + j" "x mod 64 = i" unfolding k(5) by (rule pack64 [OF k(3)])+
    have "x div 4096 = x div 64 div 64" "x div 262144 = x div 64 div 64 div 64" by (simp_all add: div_mult2_eq [symmetric])
    then have "x div 4096 mod 64 = k" "x div 64 mod 64 = j" "x div 262144 = ?f mod 8"
      by (simp_all only: a pack64 [OF k(1)] pack64 [OF k(2)])
    then have "c # s = utf8_encode x @ s'" using f k(4) a(2) four(4) by (simp add: utf8_encode_def)
    then show ?thesis using four by auto
  qed
qed

lemma utf8_text_encode:
  assumes x: "scalar x" "x \<noteq> 0"
  shows "utf8_text (utf8_encode x @ s) = utf8_text s"
proof -
  have mods: "(0x80 + y) div 64 = 2" "(0x80 + y) mod 64 = y" "code_of (char_of (0x80 + y)) = 0x80 + y" if "y < 64" for y :: nat
    using that pack64 [OF that, of 2] by simp_all
  consider (one) "x < 0x80" | (two) "0x80 \<le> x" "x < 0x800" | (three) "0x800 \<le> x" "x < 0x10000" | (four) "0x10000 \<le> x" "x \<le> 0x10ffff"
    using x(1) by (force simp: scalar_def)
  then show ?thesis
  proof cases
    case one
    then show ?thesis using x(2) by (simp add: utf8_encode_def utf8_text_step)
  next
    case two
    let ?q = "x div 64"
    have q: "2 \<le> ?q" "?q < 32" using two by auto
    have f: "code_of (char_of (0xc0 + ?q)) = 0xc0 + ?q" "(0xc0 + ?q) mod 32 = ?q" using q by (simp, intro base_mod) auto
    have t: "utf8_tail 1 ?q (char_of (0x80 + x mod 64) # s) = Some (y, s') \<longleftrightarrow> y = x \<and> s' = s" for y s'
      unfolding utf8_tail_1 by (auto simp: mods)
    show ?thesis using two x q by (simp add: utf8_encode_def utf8_text_step f t mods)
  next
    case three
    let ?q = "x div 4096"
    have q: "?q < 16" using three by auto
    have e: "x div 64 div 64 = ?q" by (simp add: div_mult2_eq [symmetric])
    have p: "(?q * 64 + x div 64 mod 64) * 64 + x mod 64 = x"
    proof -
      have "?q * 64 + x div 64 mod 64 = x div 64" using div_mult_mod_eq [of "x div 64" 64] by (simp only: e)
      then show ?thesis using div_mult_mod_eq [of x 64] by presburger
    qed
    have f: "code_of (char_of (0xe0 + ?q)) = 0xe0 + ?q" "(0xe0 + ?q) mod 16 = ?q" using q by (simp, intro base_mod) auto
    have t: "utf8_tail 2 ?q (char_of (0x80 + x div 64 mod 64) # char_of (0x80 + x mod 64) # s) = Some (y, s') \<longleftrightarrow> y = x \<and> s' = s" for y s'
      unfolding utf8_tail_2 using p by (auto simp: mods)
    show ?thesis using three x q by (simp add: utf8_encode_def utf8_text_step f t mods)
  next
    case four
    let ?q = "x div 262144"
    have q: "?q < 5" using four by auto
    have e: "x div 64 div 64 = x div 4096" "x div 4096 div 64 = ?q" by (simp_all add: div_mult2_eq [symmetric])
    have f: "code_of (char_of (0xf0 + ?q)) = 0xf0 + ?q" "(0xf0 + ?q) mod 8 = ?q" using q by (simp, intro base_mod) auto
    have p: "((?q * 64 + x div 4096 mod 64) * 64 + x div 64 mod 64) * 64 + x mod 64 = x"
      using div_mult_mod_eq [of "x div 4096" 64] div_mult_mod_eq [of "x div 64" 64] by (simp add: e)
    have t: "utf8_tail 3 ?q (char_of (0x80 + x div 4096 mod 64) # char_of (0x80 + x div 64 mod 64) # char_of (0x80 + x mod 64) # s) =
        Some (y, s') \<longleftrightarrow> y = x \<and> s' = s" for y s'
      unfolding utf8_tail_3 using p by (auto simp: mods)
    show ?thesis using four x q by (simp add: utf8_encode_def utf8_text_step f t mods)
  qed
qed

lemma utf8_text_iff: "utf8_text s \<longleftrightarrow> (\<exists>cs. (\<forall>x \<in> set cs. scalar x \<and> x \<noteq> 0) \<and> s = concat (map utf8_encode cs))"
proof
  show "utf8_text s \<Longrightarrow> \<exists>cs. (\<forall>x \<in> set cs. scalar x \<and> x \<noteq> 0) \<and> s = concat (map utf8_encode cs)"
  proof (induction "length s" arbitrary: s rule: less_induct)
    case less
    show ?case
    proof (cases s)
      case Nil
      then show ?thesis by (intro exI [of _ "[]"]) simp
    next
      case (Cons c t)
      then obtain x s' where x: "scalar x" "x \<noteq> 0" "s = utf8_encode x @ s'" "utf8_text s'"
        using utf8_text_first less.prems by metis
      have "length s' < length s" using x(3) by (simp add: utf8_encode_def)
      then obtain cs where "\<forall>x \<in> set cs. scalar x \<and> x \<noteq> 0" "s' = concat (map utf8_encode cs)"
        using less.hyps [OF _ x(4)] by blast
      then show ?thesis using x by (intro exI [of _ "x # cs"]) simp
    qed
  qed
  assume "\<exists>cs. (\<forall>x \<in> set cs. scalar x \<and> x \<noteq> 0) \<and> s = concat (map utf8_encode cs)"
  then obtain cs where cs: "\<forall>x \<in> set cs. scalar x \<and> x \<noteq> 0" "s = concat (map utf8_encode cs)" by blast
  have "utf8_text (concat (map utf8_encode cs))" using cs(1) by (induction cs) (simp_all add: utf8_text_encode)
  then show "utf8_text s" by (simp add: cs(2))
qed

end
