(* ===== verification/Types_Rules.thy ===== *)
theory Types_Rules
  imports Text
begin

text \<open>
  Ports, endpoints, identifiers, superseding and retry spacing, and the properties of the shared types.
\<close>

subsection \<open>Decimal numbers and ports\<close>

lemma digits_value_snoc [simp]: "digits_value (ds @ [c]) = digits_value ds * 10 + (code_of c - 48)"
  by (simp add: digits_value_def)

lemma decimal_digits: "decimal n \<noteq> [] \<and> list_all is_digit (decimal n) \<and> digits_value (decimal n) = n"
proof (induction n rule: decimal.induct)
  case (1 n)
  show ?case
  proof (cases "n < 10")
    case True
    then show ?thesis by (simp add: decimal.simps [of n] is_digit_def digits_value_def)
  next
    case False
    then show ?thesis using 1 by (simp add: decimal.simps [of n] is_digit_def)
  qed
qed

lemma port_number_Inr:
  "port_number s local = Inr p \<longleftrightarrow>
     s \<noteq> [] \<and> list_all is_digit s \<and> digits_value s = p \<and> p \<le> 65535 \<and> (local \<or> p \<noteq> 0)"
proof -
  have d: "dropWhile is_digit s = [] \<longleftrightarrow> list_all is_digit s" by (simp add: dropWhile_eq_Nil_conv list_all_iff)
  show ?thesis
  proof (cases "list_all is_digit s")
    case True
    then have t: "takeWhile is_digit s = s" by (simp add: takeWhile_eq_all_conv list_all_iff)
    show ?thesis using True d by (auto simp: port_number_def from_chars_u32_def fail_def Let_def t)
  next
    case False
    then show ?thesis using d by (auto simp: port_number_def from_chars_u32_def fail_def Let_def split: if_splits)
  qed
qed

lemma port_number_decimal: "port_number (decimal p) local = Inr p \<longleftrightarrow> p \<le> 65535 \<and> (local \<or> p \<noteq> 0)"
  using decimal_digits [of p] by (simp add: port_number_Inr)

lemma split_last_app: "c \<notin> set b \<Longrightarrow> split_last c (a @ c # b) = Some (a, b)"
proof -
  assume n: "c \<notin> set b"
  have t: "takeWhile (\<lambda>x. x \<noteq> c) (rev b @ c # rev a) = rev b" "dropWhile (\<lambda>x. x \<noteq> c) (rev b @ c # rev a) = c # rev a"
    using n by (subst takeWhile_append2 dropWhile_append2; auto)+
  show ?thesis by (simp add: split_last_def t)
qed

lemma decimal_no_colon: "CHR '':'' \<notin> set (decimal p)"
  using decimal_digits [of p] by (auto simp: list_all_iff is_digit_def code_of_def)

subsection \<open>Endpoints\<close>

text \<open>What the sources rely on of \<^verbatim>\<open>inet_pton\<close> and \<^verbatim>\<open>inet_ntop\<close>: the number of bytes, and that the text
  written for an address is a plain numeric text that is read back as the same address.\<close>

definition inet_ok :: "(bool \<Rightarrow> string \<Rightarrow> bytes option) \<Rightarrow> (bool \<Rightarrow> bytes \<Rightarrow> string option) \<Rightarrow> bool" where
  "inet_ok pton ntop \<longleftrightarrow>
     (\<forall>v6 s b. pton v6 s = Some b \<longrightarrow> length b = (if v6 then 16 else 4)) \<and>
     (\<forall>v6 b t. length b = (if v6 then 16 else 4) \<longrightarrow> ntop v6 b = Some t \<longrightarrow>
        pton v6 t = Some b \<and> set t \<subseteq> set ''0123456789abcdef.:'')"

definition address_ok :: "bool \<Rightarrow> bool \<Rightarrow> bytes \<Rightarrow> bool" where
  "address_ok local v6 b \<longleftrightarrow>
     \<not> (if v6 then b ! 0 = 255 else 224 \<le> b ! 0 \<and> b ! 0 \<le> 239) \<and>
     \<not> (v6 \<and> list_all (\<lambda>x. x = 0) (take 10 b) \<and> b ! 10 = 255 \<and> b ! 11 = 255) \<and>
     (local \<or> \<not> list_all (\<lambda>x. x = 0) b)"

lemma endpoint_parse_Inr:
  assumes "inet_ok pton ntop"
  shows "endpoint_parse pton ntop s local = Inr e \<longleftrightarrow>
    (\<exists>before after p b. split_last (CHR '':'') s = Some (before, after) \<and> port_number after local = Inr p \<and>
       (let v6 = bracketed before; host = (if v6 then butlast (tl before) else before) in
        CHR 0x00 \<notin> set host \<and> pton v6 host = Some b \<and> address_ok local v6 b \<and>
        (\<exists>t. ntop v6 b = Some t \<and>
           e = \<lparr>ep_host = t, ep_port = p, ep_ipv6 = v6, ep_wildcard = list_all (\<lambda>x. x = 0) b\<rparr>)))"
proof -
  have len: "length b = (if v6 then 16 else 4)" if "pton v6 h = Some b" for v6 h b
    using assms that unfolding inet_ok_def by blast
  show ?thesis
  proof (cases "split_last (CHR '':'') s")
    case None
    then show ?thesis by (simp add: endpoint_parse_def fail_def)
  next
    case (Some ba)
    obtain before after where ba: "ba = (before, after)" by (cases ba)
    let ?v6 = "bracketed before"
    define host where "host = (if ?v6 then butlast (tl before) else before)"
    show ?thesis
    proof (cases "port_number after local")
      case (Inl e)
      then show ?thesis unfolding endpoint_parse_def Some ba option.case prod.case by simp
    next
      case (Inr p)
      show ?thesis
      proof (cases "CHR 0x00 \<in> set host \<or> pton ?v6 host = None")
        case True
        then show ?thesis using Some ba Inr
          by (auto simp: endpoint_parse_def fail_def Let_def simp flip: host_def)
      next
        case False
        then obtain b where b: "CHR 0x00 \<notin> set host" "pton ?v6 host = Some b" by auto
        have l: "length b = (if ?v6 then 16 else 4)" using len [OF b(2)] .
        have bs: "take (if ?v6 then 16 else 4) (b @ replicate (16 - length b) 0) = b"
          "(b @ replicate (16 - length b) 0) ! 0 = b ! 0" "?v6 \<Longrightarrow> b @ replicate (16 - length b) 0 = b"
          using l by (auto simp: nth_append)
        have "(if ?v6 then (b @ replicate (16 - length b) 0) ! 0 = 255 else
             224 \<le> (b @ replicate (16 - length b) 0) ! 0 \<and> (b @ replicate (16 - length b) 0) ! 0 \<le> 239) \<or>
           (?v6 \<and> list_all (\<lambda>b. b = 0) (take 10 (b @ replicate (16 - length b) 0)) \<and>
             (b @ replicate (16 - length b) 0) ! 10 = 255 \<and> (b @ replicate (16 - length b) 0) ! 11 = 255) \<or>
           (\<not> local \<and> list_all (\<lambda>b. b = 0) b) \<longleftrightarrow> \<not> address_ok local ?v6 b"
          using bs(2,3) by (auto simp: address_ok_def)
        note ok = this
        have "endpoint_parse pton ntop s local =
            (if \<not> address_ok local ?v6 b then fail Configuration ''Endpoint is not a supported unicast address''
             else case ntop ?v6 b of None \<Rightarrow> fail Internal ''Address normalization failed''
               | Some t \<Rightarrow> Inr \<lparr>ep_host = t, ep_port = p, ep_ipv6 = ?v6, ep_wildcard = list_all (\<lambda>b. b = 0) b\<rparr>)"
          using b unfolding endpoint_parse_def Some ba Inr Let_def host_def [symmetric] option.case prod.case sum.case
          by (simp only: bs(1) ok if_False option.case)
        then show ?thesis using Some ba Inr b
          by (auto simp: Let_def fail_def simp flip: host_def split: option.splits)
      qed
    qed
  qed
qed

lemma endpoint_roundtrip:
  assumes i: "inet_ok pton ntop" and e: "endpoint_parse pton ntop s local = Inr e"
  shows "endpoint_parse pton ntop (endpoint_text e) local = Inr e"
proof -
  obtain p b t v6 h where p: "p \<le> 65535 \<and> (local \<or> p \<noteq> 0)" and b: "pton v6 h = Some b" "address_ok local v6 b" "ntop v6 b = Some t"
    and e': "e = \<lparr>ep_host = t, ep_port = p, ep_ipv6 = v6, ep_wildcard = list_all (\<lambda>x. x = 0) b\<rparr>"
    using e unfolding endpoint_parse_Inr [OF i] port_number_Inr Let_def by blast
  have t: "pton v6 t = Some b" "set t \<subseteq> set ''0123456789abcdef.:''" using i b(1,3) unfolding inet_ok_def by blast+
  define before where "before = (if v6 then ''['' @ t @ '']'' else t)"
  have br: "bracketed before = v6"
  proof (cases v6)
    case False
    then show ?thesis using t(2) by (cases t) (auto simp: before_def bracketed_def)
  qed (simp add: before_def bracketed_def)
  have host: "(if v6 then butlast (tl before) else before) = t"
    by (simp add: before_def butlast_append)
  have "endpoint_text e = before @ CHR '':'' # decimal p" by (simp add: e' endpoint_text_def before_def)
  then have sp: "split_last (CHR '':'') (endpoint_text e) = Some (before, decimal p)"
    by (simp add: split_last_app decimal_no_colon)
  have nn: "CHR 0x00 \<notin> set t" using t(2) by auto
  have pn: "port_number (decimal p) local = Inr p" using p by (simp add: port_number_decimal)
  show ?thesis
    unfolding endpoint_parse_Inr [OF i] sp
    by (rule exI [of _ before], rule exI [of _ "decimal p"], rule exI [of _ p], rule exI [of _ b])
      (simp only: Let_def br host, simp add: nn pn t(1) b(2,3) e')
qed

subsection \<open>Identifiers\<close>

lemma split_on_cons [simp]: "split_on d s \<noteq> []"
  by (induction s) (auto split: list.splits)

lemma split_on_app:
  assumes "d \<notin> set a"
  shows "split_on d (a @ s) = (a @ hd (split_on d s)) # tl (split_on d s)"
  using assms
proof (induction a)
  case Nil
  show ?case by (cases "split_on d s") auto
next
  case (Cons c a)
  then show ?case by auto
qed

lemma utf8_encode_no_nul: "x \<noteq> 0 \<Longrightarrow> scalar x \<Longrightarrow> CHR 0x00 \<notin> set (utf8_encode x)"
proof
  assume x: "x \<noteq> 0" "scalar x" and m: "CHR 0x00 \<in> set (utf8_encode x)"
  have "code_of (CHR 0x00) = 0" by (simp add: code_of_def)
  moreover have "code_of c \<noteq> 0" if "c \<in> set (utf8_encode x)" for c
    using that x by (auto simp: utf8_encode_def scalar_def split: if_splits)
  ultimately show False using m by metis
qed

lemma utf8_encode_zero: "utf8_encode 0 = [CHR 0x00]"
  by (simp add: utf8_encode_def flip: code_of_inj) (simp add: code_of_def)

lemma split_on_parts:
  assumes "\<forall>x \<in> set cs. scalar x"
  shows "list_all utf8_text (split_on (CHR 0x00) (concat (map utf8_encode cs)))"
  using assms
proof (induction cs)
  case (Cons x cs)
  let ?s = "concat (map utf8_encode cs)"
  have IH: "list_all utf8_text (split_on (CHR 0x00) ?s)" using Cons by simp
  show ?case
  proof (cases "x = 0")
    case True
    then show ?thesis using IH by (simp add: utf8_encode_zero)
  next
    case False
    have "split_on (CHR 0x00) (utf8_encode x @ ?s) = (utf8_encode x @ hd (split_on (CHR 0x00) ?s)) # tl (split_on (CHR 0x00) ?s)"
      using Cons.prems False by (intro split_on_app utf8_encode_no_nul) auto
    then show ?thesis using IH Cons.prems False by (cases "split_on (CHR 0x00) ?s") (auto simp: utf8_text_encode)
  qed
qed simp

lemma split_on_join:
  "list_all utf8_text (split_on (CHR 0x00) s) \<Longrightarrow> \<exists>cs. (\<forall>x \<in> set cs. scalar x) \<and> s = concat (map utf8_encode cs)"
proof (induction "length s" arbitrary: s rule: less_induct)
  case less
  show ?case
  proof (cases "CHR 0x00 \<in> set s")
    case True
    then obtain a b where s: "s = a @ CHR 0x00 # b" "CHR 0x00 \<notin> set a" by (metis split_list_first)
    have p: "split_on (CHR 0x00) s = a # split_on (CHR 0x00) b" using s(2) by (simp add: s(1) split_on_app)
    obtain as where as: "\<forall>x \<in> set as. scalar x" "a = concat (map utf8_encode as)" using less.prems p utf8_text_iff [of a] by auto
    obtain bs where bs: "\<forall>x \<in> set bs. scalar x" "b = concat (map utf8_encode bs)"
      using less.hyps [of b] less.prems p s(1) by auto
    show ?thesis using as bs s(1) by (intro exI [of _ "as @ 0 # bs"]) (auto simp: utf8_encode_zero scalar_def)
  next
    case False
    then have "split_on (CHR 0x00) s = [s]" using split_on_app [of "CHR 0x00" s "[]"] by simp
    then show ?thesis using less.prems utf8_text_iff [of s] by auto
  qed
qed

lemma split_on_length: "p \<in> set (split_on d s) \<Longrightarrow> length p \<le> length s"
  by (induction s arbitrary: p) (fastforce split: list.splits if_splits)+

lemma valid_id_iff:
  "valid_id s \<longleftrightarrow> s \<noteq> [] \<and> length s \<le> 128 \<and> (\<exists>cs. (\<forall>x \<in> set cs. scalar x) \<and> s = concat (map utf8_encode cs))"
proof -
  have "part = [] \<or> scope_text part 128 \<longleftrightarrow> utf8_text part" if "length s \<le> 128" "part \<in> set (split_on (CHR 0x00) s)" for part
    using split_on_length [OF that(2)] that(1) by (auto simp: scope_text_def)
  then have "length s \<le> 128 \<Longrightarrow> list_all (\<lambda>part. part = [] \<or> scope_text part 128) (split_on (CHR 0x00) s) = list_all utf8_text (split_on (CHR 0x00) s)"
    by (auto simp: list_all_iff)
  then show ?thesis using split_on_parts split_on_join unfolding valid_id_def by blast
qed

subsection \<open>Retry spacing\<close>

definition config_ok :: "config \<Rightarrow> bool" where
  "config_ok cf \<longleftrightarrow> 0 < cf_reconnect_min cf \<and> cf_reconnect_min cf \<le> cf_reconnect_max cf \<and> cf_reconnect_max cf \<le> 2 ^ 46"

lemma retry_shift: "unat (min (if failures = 0 then 0 else failures - 1) (16 :: u32)) \<le> 16"
proof -
  have "min (if failures = 0 then 0 else failures - 1) (16 :: u32) \<le> 16" by simp
  then have "unat (min (if failures = 0 then 0 else failures - 1) (16 :: u32)) \<le> unat (16 :: u32)" by (simp only: word_le_nat_alt)
  then show ?thesis by simp
qed

lemma uint_mod_range:
  assumes "0 \<le> m" "m < 2 ^ 63"
  shows "0 \<le> uint ((x :: u64) mod word_of_int (m + 1))" "uint ((x :: u64) mod word_of_int (m + 1)) \<le> m"
proof -
  have "uint (word_of_int (m + 1) :: u64) = m + 1" using assms by (simp add: uint_word_of_int del: of_int_add)
  then have "uint (x mod word_of_int (m + 1)) = uint x mod (m + 1)" by (simp add: uint_mod)
  moreover have "0 < m + 1" using assms(1) by simp
  then have "0 \<le> uint x mod (m + 1)" "uint x mod (m + 1) < m + 1" by (rule pos_mod_sign, rule pos_mod_bound)
  ultimately show "0 \<le> uint (x mod word_of_int (m + 1))" "uint (x mod word_of_int (m + 1)) \<le> m" by linarith+
qed

lemma retry_delay_range:
  assumes cf: "config_ok cf"
  shows "cf_reconnect_min cf \<le> retry_delay failures cf salt" "retry_delay failures cf salt \<le> cf_reconnect_max cf"
proof -
  define sh where "sh = unat (min (if failures = 0 then 0 else failures - 1) (16 :: u32))"
  let ?lo = "cf_reconnect_min cf" and ?hi = "cf_reconnect_max cf"
  define base where "base = min (?lo * 2 ^ sh) ?hi"
  define lower where "lower = max (base - base div 4) ?lo"
  define upper where "upper = min (base + base div 4) ?hi"
  have lo: "0 < ?lo" "?lo \<le> ?hi" "?hi \<le> 2 ^ 46" using cf by (auto simp: config_ok_def)
  have "?lo * 1 \<le> ?lo * 2 ^ sh" using lo by (intro mult_left_mono) auto
  then have b: "?lo \<le> base" "base \<le> ?hi" using lo by (auto simp: base_def)
  then have l: "?lo \<le> lower" "lower \<le> upper" "upper \<le> ?hi" using lo by (auto simp: lower_def upper_def)
  have m: "0 \<le> upper - lower" "upper - lower < 2 ^ 63" using l lo by auto
  have d: "retry_delay failures cf salt = lower + uint ((salt + ucast failures) mod word_of_int (upper - lower + 1))"
    by (simp add: retry_delay_def Let_def lower_def upper_def base_def sh_def)
  show "?lo \<le> retry_delay failures cf salt" "retry_delay failures cf salt \<le> ?hi"
    using uint_mod_range [OF m, of "salt + ucast failures"] l unfolding d by linarith+
qed

subsection \<open>Properties\<close>

text \<open>C32: principals and their text are in bijection.  The text of thirty-two bytes is parsed back to
  them, and whatever text is accepted is exactly the text of the result, so no two texts
  stand for the same principal.\<close>

theorem principal_roundtrip:
  "(length bs = 32 \<longrightarrow> principal_parse (principal_text bs) = Inr bs) \<and>
   (\<forall>s. principal_parse s = Inr bs \<longrightarrow> length bs = 32 \<and> principal_text bs = s)"
proof (intro conjI allI impI)
  show "principal_parse (principal_text bs) = Inr bs" if "length bs = 32"
    using principal_loop_text [of bs "[]" 0] that by (simp add: principal_parse_def)
next
  fix s assume "principal_parse s = Inr bs"
  then have s: "principal_loop s (2 * length ([] :: bytes)) ([] @ replicate 32 0) = Inr bs" "length s = 2 * 32"
    by (simp_all add: principal_parse_def fail_def split: if_splits)
  show "length bs = 32" "principal_text bs = s" using principal_loop_parse [OF s] by auto
qed

theorem principal_roundtrip_witness:
  "principal_parse (principal_text (replicate 32 0xa7)) = Inr (replicate 32 0xa7)"
  using principal_roundtrip [of "replicate 32 0xa7"] by simp

text \<open>C31: endpoints are canonical.  Whatever text \<^verbatim>\<open>Endpoint::parse\<close> accepts, with the C library's address
  functions as documented, the endpoint's own text is accepted again and gives the same
  endpoint: rewriting is idempotent and a member built from a parsed endpoint passes the
  canonical-endpoint check of \<^verbatim>\<open>Member::validate\<close>.\<close>

theorem endpoint_canonical:
  assumes "inet_ok pton ntop" "endpoint_parse pton ntop s local = Inr e"
  shows "endpoint_parse pton ntop (endpoint_text e) local = Inr e \<and>
    (\<forall>m. \<not> local \<and> m_address m = e \<and> valid_name (m_galaxy m) \<and> valid_name (m_group m) \<and> valid_id (m_id m) \<and> m_epoch m \<noteq> 0 \<longrightarrow>
       member_validate pton ntop m = Inr ())"
  using endpoint_roundtrip [OF assms] by (auto simp: member_validate_def)

definition one_pton :: "bool \<Rightarrow> string \<Rightarrow> bytes option" where
  "one_pton v6 s = (if \<not> v6 \<and> s = ''10.0.0.1'' then Some [10, 0, 0, 1] else None)"

definition one_ntop :: "bool \<Rightarrow> bytes \<Rightarrow> string option" where
  "one_ntop v6 b = (if \<not> v6 \<and> b = [10, 0, 0, 1] then Some ''10.0.0.1'' else None)"

lemma one_inet: "inet_ok one_pton one_ntop"
  by (auto simp: inet_ok_def one_pton_def one_ntop_def)

theorem endpoint_canonical_witness:
  "\<exists>e. endpoint_parse one_pton one_ntop ''10.0.0.1:080'' False = Inr e \<and>
     endpoint_parse one_pton one_ntop (endpoint_text e) False = Inr e"
proof -
  have "split_last (CHR '':'') ''10.0.0.1:080'' = Some (''10.0.0.1'', ''080'')" by (simp add: split_last_def)
  moreover have "port_number ''080'' False = Inr 80" by (simp add: port_number_Inr is_digit_def code_of_def digits_value_def)
  ultimately have "endpoint_parse one_pton one_ntop ''10.0.0.1:080'' False =
      Inr \<lparr>ep_host = ''10.0.0.1'', ep_port = 80, ep_ipv6 = False, ep_wildcard = False\<rparr>"
    by (simp add: endpoint_parse_Inr [OF one_inet] bracketed_def one_pton_def one_ntop_def address_ok_def Let_def)
  then show ?thesis using endpoint_canonical [OF one_inet] by blast
qed

text \<open>C30: text validation is UTF-8.  \<^verbatim>\<open>Scope::text\<close> accepts exactly the non-empty texts within the byte limit
  that are encodings of Unicode scalar values other than zero (shortest form only, no
  surrogates, nothing above U+10FFFF); \<^verbatim>\<open>Member::valid_id\<close> accepts the same with zero allowed.\<close>

theorem text_is_utf8:
  "(scope_text s maximum \<longleftrightarrow> s \<noteq> [] \<and> length s \<le> maximum \<and>
      (\<exists>cs. (\<forall>x \<in> set cs. scalar x \<and> x \<noteq> 0) \<and> s = concat (map utf8_encode cs))) \<and>
   (valid_id s \<longleftrightarrow> s \<noteq> [] \<and> length s \<le> 128 \<and> (\<exists>cs. (\<forall>x \<in> set cs. scalar x) \<and> s = concat (map utf8_encode cs)))"
  using valid_id_iff [of s] utf8_text_iff [of s] by (simp add: scope_text_def)

theorem text_is_utf8_witness: "scope_text (utf8_encode 0x20ac @ utf8_encode 0x41) 128"
proof -
  have "length (utf8_encode 0x20ac @ utf8_encode 0x41) \<le> 128" "utf8_encode 0x20ac @ utf8_encode 0x41 \<noteq> []"
    by (simp_all add: utf8_encode_def)
  then show ?thesis using text_is_utf8 [of "utf8_encode 0x20ac @ utf8_encode 0x41" 128]
    by (auto simp: scalar_def intro!: exI [of _ "[0x20ac, 0x41]"])
qed

text \<open>Superseding is a strict order on incarnations.  A candidate equal to the current member is
  confirmed without change, one that keeps principal, role, address and galaxy and has a
  higher epoch replaces it, and everything else is a conflict; replacing is transitive and
  never goes both ways.\<close>

theorem supersedes_order:
  "(supersedes a b = Inr False \<longleftrightarrow> a = b) \<and>
   (supersedes a b = Inr True \<longleftrightarrow> m_principal a = m_principal b \<and> m_role a = m_role b \<and> m_address a = m_address b \<and>
      m_galaxy a = m_galaxy b \<and> m_epoch b < m_epoch a) \<and>
   (supersedes a b = Inr True \<longrightarrow> supersedes b c = Inr True \<longrightarrow> supersedes a c = Inr True) \<and>
   \<not> (supersedes a b = Inr True \<and> supersedes b a = Inr True)"
  by (auto simp: supersedes_def fail_def not_less split: if_splits)

definition member_0 :: member where
  "member_0 = \<lparr>m_galaxy = ''g'', m_id = ''i'', m_principal = [], m_address =
     \<lparr>ep_host = ''10.0.0.1'', ep_port = 80, ep_ipv6 = False, ep_wildcard = False\<rparr>, m_epoch = 1, m_role = Star, m_group = ''d''\<rparr>"

theorem supersedes_order_witness:
  "supersedes (member_0\<lparr>m_epoch := 3\<rparr>) member_0 = Inr True"
  using supersedes_order [of "member_0\<lparr>m_epoch := 3\<rparr>" "member_0\<lparr>m_epoch := 2\<rparr>" member_0]
  by (simp add: supersedes_def member_0_def)

text \<open>Retry delays stay within the configured bounds, for every number of failures and every
  salt, and none of the signed products and sums on the way leaves the 64-bit range.\<close>

theorem retry_delay_bounds:
  assumes "config_ok cf"
  shows "cf_reconnect_min cf \<le> retry_delay failures cf salt \<and> retry_delay failures cf salt \<le> cf_reconnect_max cf \<and>
    i64 (cf_reconnect_min cf * 2 ^ unat (min (if failures = 0 then 0 else failures - 1) (16 :: u32)))"
proof -
  let ?sh = "unat (min (if failures = 0 then 0 else failures - 1) (16 :: u32))"
  have lo: "0 < cf_reconnect_min cf" "cf_reconnect_min cf \<le> 2 ^ 46" using assms by (auto simp: config_ok_def)
  have "(2 :: int) ^ ?sh \<le> 2 ^ 16" by (rule power_increasing [OF retry_shift]) simp
  then have "cf_reconnect_min cf * 2 ^ ?sh \<le> 2 ^ 46 * 2 ^ 16" using lo by (intro mult_mono) auto
  moreover have "0 \<le> cf_reconnect_min cf * 2 ^ ?sh" using lo by simp
  ultimately have "i64 (cf_reconnect_min cf * 2 ^ ?sh)" unfolding i64_def by auto
  then show ?thesis using retry_delay_range [OF assms] by blast
qed

theorem retry_delay_bounds_witness:
  "100 \<le> retry_delay 40 \<lparr>cf_role = Star, cf_galaxy = [], cf_group = [], cf_max_members = 64, cf_reconnect_min = 100,
     cf_reconnect_max = 5000, cf_stable_connection = 5000\<rparr> 12345"
  using retry_delay_bounds [of "\<lparr>cf_role = Star, cf_galaxy = [], cf_group = [], cf_max_members = 64, cf_reconnect_min = 100,
     cf_reconnect_max = 5000, cf_stable_connection = 5000\<rparr>" 40 12345] by (simp add: config_ok_def)

end
