(* ===== verification/Agenda.thy ===== *)
theory Agenda
  imports Wheel_Fire Clock
begin

text \<open>
  The deadline scheduler of a group of records (\<^verbatim>\<open>astra/star/src/agenda.hpp\<close>): a timing wheel of four
  levels of 256 slots driven in 10 ms ticks, an anchor time and the wheel position it belongs
  to.  A callback's state, requests and throw are as for the wheel; the agenda's own wrapper
  around the callback is part of the model.
\<close>

definition agenda_interval :: int where
  "agenda_interval = 10000000"

record agenda =
  a_time :: ns
  a_tick :: u64
  a_wheel :: wheel

definition agenda_new :: "ns \<Rightarrow> agenda option" where
  "agenda_new initial = (if initial < 0 then None else Some \<lparr>a_time = initial, a_tick = 0, a_wheel = wheel_new 0\<rparr>)"

definition boundary :: "ns \<Rightarrow> u64 \<Rightarrow> u64 \<Rightarrow> ns" where
  "boundary time tick clock = time + (if clock = tick then 0 else agenda_interval)"

definition agenda_time :: "agenda \<Rightarrow> ns" where
  "agenda_time a = boundary (a_time a) (a_tick a) (w_clock (a_wheel a))"

definition agenda_next :: "agenda \<Rightarrow> ns" where
  "agenda_next a = (if i64_max - agenda_time a < agenda_interval then i64_max else agenda_time a + agenda_interval)"

definition agenda_delay :: "ns \<Rightarrow> ns \<Rightarrow> u64" where
  "agenda_delay now deadline =
     (let remaining = (if deadline > now then word_of_int (deadline - now) else (0 :: u64));
          width = word_of_int agenda_interval;
          delay = remaining div width + (if remaining mod width \<noteq> 0 then 1 else 0)
      in min delay (wheel_limit 4 8))"

definition agenda_set :: "agenda \<Rightarrow> node \<Rightarrow> ns \<Rightarrow> agenda" where
  "agenda_set a n deadline = a\<lparr>a_wheel := snd (wheel_schedule 4 8 (a_wheel a) n (agenda_delay (agenda_time a) deadline))\<rparr>"

definition agenda_erase :: "agenda \<Rightarrow> node \<Rightarrow> agenda" where
  "agenda_erase a n = a\<lparr>a_wheel := wheel_cancel (a_wheel a) n\<rparr>"

text \<open>A callback of \<^verbatim>\<open>advance\<close> may set and erase hooks; on a throw the hook it was called for is scheduled
  again for the next tick.\<close>

datatype agenda_request = Set_deadline node ns | Erase_hook node

fun agenda_ask :: "ns \<Rightarrow> agenda_request \<Rightarrow> request" where
  "agenda_ask now (Set_deadline n deadline) = Schedule n (agenda_delay now deadline)"
| "agenda_ask now (Erase_hook n) = Cancel n"

type_synonym 'u agenda_callback = "'u \<Rightarrow> node \<Rightarrow> ns \<Rightarrow> 'u \<times> agenda_request list \<times> bool"

definition agenda_fire :: "'u agenda_callback \<Rightarrow> agenda \<Rightarrow> 'u callback" where
  "agenda_fire fire a u clock n =
     (let now = boundary (a_time a) (a_tick a) clock;
          (u', rs, threw) = fire u n now
      in (u', map (agenda_ask now) rs @ (if threw then [Schedule n 1] else []), threw))"

definition agenda_tick :: "'u agenda_callback \<Rightarrow> 'u \<Rightarrow> agenda \<Rightarrow> outcome \<times> 'u \<times> agenda \<times> node list" where
  "agenda_tick fire u a =
     (let (out, u', w', log) = wheel_tick 4 8 (agenda_fire fire a) u (a_wheel a);
          a1 = a\<lparr>a_wheel := w'\<rparr>
      in (out, u', a1\<lparr>a_time := agenda_time a1, a_tick := w_clock w'\<rparr>, log))"

fun agenda_loop :: "'u agenda_callback \<Rightarrow> nat \<Rightarrow> 'u \<Rightarrow> agenda \<Rightarrow> outcome \<times> 'u \<times> agenda \<times> node list list" where
  "agenda_loop fire 0 u a = (Ticked, u, a, [])"
| "agenda_loop fire (Suc k) u a =
     (let (out, u1, a1, log) = agenda_tick fire u a in
      if out \<noteq> Ticked then (out, u1, a1, [log])
      else let (out2, u2, a2, logs) = agenda_loop fire k u1 a1 in (out2, u2, a2, log # logs))"

text \<open>\<^verbatim>\<open>Agenda::advance\<close>; \<open>None\<close> is the exception for a time that moves backwards.\<close>

definition agenda_advance :: "'u agenda_callback \<Rightarrow> 'u \<Rightarrow> agenda \<Rightarrow> ns \<Rightarrow> (outcome \<times> 'u \<times> agenda \<times> node list list) option" where
  "agenda_advance fire u a now =
     (if now < a_time a then None else Some (agenda_loop fire (nat ((now - a_time a) div agenda_interval)) u a))"

subsection \<open>Correctness\<close>

definition agenda_ok :: "agenda \<Rightarrow> bool" where
  "agenda_ok a \<longleftrightarrow> wheel_idle 4 8 (a_wheel a) \<and> a_tick a = w_clock (a_wheel a) \<and> 0 \<le> a_time a"

definition agenda_quiet :: "'u agenda_callback \<Rightarrow> bool" where
  "agenda_quiet fire \<longleftrightarrow> (\<forall>u n t. \<not> snd (snd (fire u n t)))"

fun request_hook :: "agenda_request \<Rightarrow> node" where
  "request_hook (Set_deadline n d) = n"
| "request_hook (Erase_hook n) = n"

definition agenda_alone :: "'u agenda_callback \<Rightarrow> node \<Rightarrow> bool" where
  "agenda_alone fire n \<longleftrightarrow> (\<forall>u m t. m \<noteq> n \<longrightarrow> n \<notin> request_hook ` set (fst (snd (fire u m t))))"

lemma touches_request [simp]: "touches (agenda_ask now r) = request_hook r"
  by (cases r) simp_all

lemma agenda_fire_quiet: "agenda_quiet fire \<Longrightarrow> never_throws (agenda_fire fire a)"
  by (auto simp: agenda_quiet_def never_throws_def agenda_fire_def Let_def split: prod.splits) (metis snd_conv)

lemma agenda_fire_alone: "agenda_alone fire n \<Longrightarrow> leaves_alone (agenda_fire fire a) n"
  unfolding leaves_alone_def
proof (intro allI impI)
  fix u c m assume al: "agenda_alone fire n" and "m \<noteq> n"
  obtain u' rs t where f: "fire u m (boundary (a_time a) (a_tick a) c) = (u', rs, t)" by (metis prod_cases3)
  have "n \<notin> request_hook ` set rs" using al \<open>m \<noteq> n\<close> f unfolding agenda_alone_def by (metis fst_conv snd_conv)
  then show "n \<notin> touches ` set (fst (snd (agenda_fire fire a u c m)))"
    using \<open>m \<noteq> n\<close> by (auto simp: agenda_fire_def f image_image)
qed

lemma agenda_tick_step:
  assumes ok: "agenda_ok a" and q: "agenda_quiet fire" and t: "agenda_tick fire u a = (out, u', a', log)"
  shows "out = Ticked" "agenda_ok a'" "a_time a' = a_time a + agenda_interval"
    "w_clock (a_wheel a') = w_clock (a_wheel a) + 1"
    "agenda_alone fire n \<Longrightarrow> n \<in> set log \<longleftrightarrow> wheel_due (a_wheel a) n = Some (w_clock (a_wheel a) + 1)"
    "agenda_alone fire n \<Longrightarrow> n \<notin> set log \<Longrightarrow> wheel_due (a_wheel a') n = wheel_due (a_wheel a) n"
proof -
  have idle: "wheel_idle 4 8 (a_wheel a)" and tick: "a_tick a = w_clock (a_wheel a)" "0 \<le> a_time a"
    using ok by (simp_all add: agenda_ok_def)
  obtain w' where w: "wheel_tick 4 8 (agenda_fire fire a) u (a_wheel a) = (out, u', w', log)"
    and a': "a' = a\<lparr>a_wheel := w', a_time := boundary (a_time a) (a_tick a) (w_clock w'), a_tick := w_clock w'\<rparr>"
    using t by (auto simp: agenda_tick_def Let_def agenda_time_def split: prod.splits)
  note q' = agenda_fire_quiet [OF q, of a]
  note s = agenda_wheel.tick_ok [OF idle q' w]
  show "out = Ticked" "w_clock (a_wheel a') = w_clock (a_wheel a) + 1" using s a' by simp_all
  show "a_time a' = a_time a + agenda_interval" using s a' tick by (simp add: boundary_def)
  then show "agenda_ok a'" using s a' tick by (simp add: agenda_ok_def agenda_interval_def)
  show "n \<in> set log \<longleftrightarrow> wheel_due (a_wheel a) n = Some (w_clock (a_wheel a) + 1)" if "agenda_alone fire n"
    by (rule agenda_wheel.tick_fires [OF idle q' agenda_fire_alone [OF that] w])
  show "wheel_due (a_wheel a') n = wheel_due (a_wheel a) n" if "agenda_alone fire n" "n \<notin> set log"
    using agenda_wheel.tick_keeps [OF idle q' agenda_fire_alone [OF that(1)] w that(2)] a' by simp
qed

lemma agenda_loop_run:
  assumes "agenda_ok a" "agenda_quiet fire" "agenda_loop fire k u a = (out, u', a', logs)"
  shows "out = Ticked \<and> agenda_ok a' \<and> a_time a' = a_time a + int k * agenda_interval \<and> length logs = k"
  using assms
proof (induction k arbitrary: u a logs)
  case (Suc k)
  obtain o1 u1 a1 log where t: "agenda_tick fire u a = (o1, u1, a1, log)" by (cases "agenda_tick fire u a")
  note s = agenda_tick_step [OF Suc.prems(1,2) t]
  obtain ls where l: "agenda_loop fire k u1 a1 = (out, u', a', ls)" "logs = log # ls"
    using Suc.prems(3) t s(1) by (cases "agenda_loop fire k u1 a1") auto
  show ?case using Suc.IH [OF s(2) Suc.prems(2) l(1)] s(3) l(2) by (simp add: algebra_simps)
qed simp

lemma agenda_loop_fires:
  assumes "agenda_ok a" "agenda_quiet fire" "agenda_alone fire n"
    and "wheel_due (a_wheel a) n = Some (w_clock (a_wheel a) + of_nat j)" "0 < j" "j < 2 ^ 64"
    and "agenda_loop fire k u a = (out, u', a', logs)" "i < k" "i < j"
  shows "n \<in> set (logs ! i) \<longleftrightarrow> Suc i = j"
  using assms
proof (induction k arbitrary: u a logs i j)
  case (Suc k)
  obtain o1 u1 a1 log where t: "agenda_tick fire u a = (o1, u1, a1, log)" by (cases "agenda_tick fire u a")
  note s = agenda_tick_step [OF Suc.prems(1,2) t]
  obtain ls where l: "agenda_loop fire k u1 a1 = (out, u', a', ls)" "logs = log # ls"
    using Suc.prems(7) t s(1) by (cases "agenda_loop fire k u1 a1") auto
  obtain j' where j': "j = Suc j'" using Suc.prems(5) by (cases j) auto
  have j0: "(of_nat j' :: u64) = 0 \<longleftrightarrow> j' = 0"
    using Suc.prems(6) j' by (auto simp: word_of_nat_eq_0_iff dest: dvd_imp_le)
  have first: "n \<in> set log \<longleftrightarrow> j' = 0"
    using s(5) [OF Suc.prems(3)] Suc.prems(4) j' j0 by (simp add: add.left_commute)
  show ?case
  proof (cases i)
    case 0
    then show ?thesis using first l(2) j' by simp
  next
    case (Suc i')
    then have "0 < j'" using Suc.prems(9) j' by simp
    then have "wheel_due (a_wheel a1) n = Some (w_clock (a_wheel a1) + of_nat j')"
      using s(4) s(6) [OF Suc.prems(3)] first Suc.prems(4) j' by (simp add: algebra_simps)
    then have "n \<in> set (ls ! i') \<longleftrightarrow> Suc i' = j'"
      using Suc.prems(6,8,9) j' Suc \<open>0 < j'\<close> by (intro Suc.IH [OF s(2) Suc.prems(2,3) _ _ _ l(1)]) auto
    then show ?thesis using l(2) Suc j' by simp
  qed
qed simp

lemma agenda_delay_exact:
  assumes "0 \<le> now" "now < deadline" "deadline \<le> i64_max" "deadline - now \<le> agenda_interval * (2 ^ 32 - 1)"
  shows "let j = int (unat (agenda_delay now deadline)) in
    0 < j \<and> deadline \<le> now + j * agenda_interval \<and> now + j * agenda_interval < deadline + agenda_interval"
proof -
  define r where "r = deadline - now"
  have r: "0 < r" "r \<le> agenda_interval * (2 ^ 32 - 1)" "r < 2 ^ 64" using assms by (auto simp: r_def i64_max_def agenda_interval_def)
  let ?w = "word_of_int r :: u64" and ?m = "word_of_int agenda_interval :: u64"
  have u: "uint ?w = r" "uint ?m = agenda_interval" using r by (simp_all add: uint_word_of_int agenda_interval_def)
  have q: "uint (?w div ?m) = r div agenda_interval" "uint (?w mod ?m) = r mod agenda_interval"
    by (simp_all add: uint_div uint_mod u)
  define d where "d = ?w div ?m + (if ?w mod ?m \<noteq> 0 then 1 else 0)"
  have dm: "?w mod ?m \<noteq> 0 \<longleftrightarrow> r mod agenda_interval \<noteq> 0" using q(2) by (metis uint_0_iff)
  have le: "r div agenda_interval \<le> 2 ^ 32 - 1" "r mod agenda_interval \<noteq> 0 \<longrightarrow> r div agenda_interval < 2 ^ 32 - 1"
  proof -
    have r2: "r \<le> 42949672950000000" using r(2) by (simp add: agenda_interval_def)
    have e: "r div 10000000 * 10000000 + r mod 10000000 = r" "0 \<le> r mod 10000000" by simp_all
    have "r div 10000000 \<le> 4294967295" "r mod 10000000 \<noteq> 0 \<longrightarrow> r div 10000000 < 4294967295" using r2 e by linarith+
    then show "r div agenda_interval \<le> 2 ^ 32 - 1" "r mod agenda_interval \<noteq> 0 \<longrightarrow> r div agenda_interval < 2 ^ 32 - 1"
      by (simp_all add: agenda_interval_def)
  qed
  have nn: "0 \<le> r div agenda_interval" using r by (simp add: agenda_interval_def)
  have d: "uint d = r div agenda_interval + (if r mod agenda_interval \<noteq> 0 then 1 else 0)"
    unfolding d_def using dm q(1) le nn by (auto simp: uint_word_ariths)
  have lim: "uint (wheel_limit 4 8) = 2 ^ 32 - 1" by (simp add: wheel_limit_def mask_eq_exp_minus_1)
  have "d \<le> wheel_limit 4 8" unfolding word_le_def d lim using le by auto
  then have "agenda_delay now deadline = d"
    using assms(2) by (simp add: agenda_delay_def Let_def d_def r_def min_def)
  then have "int (unat (agenda_delay now deadline)) = r div agenda_interval + (if r mod agenda_interval \<noteq> 0 then 1 else 0)"
    using d by simp
  moreover have "0 < J \<and> r \<le> J * 10000000 \<and> J * 10000000 < r + 10000000"
    if "J = r div 10000000 + (if r mod 10000000 \<noteq> 0 then 1 else 0)" for J
  proof -
    have e: "r div 10000000 * 10000000 + r mod 10000000 = r" "0 \<le> r mod 10000000" "r mod 10000000 < 10000000" by simp_all
    show ?thesis
    proof (cases "r mod 10000000 = 0")
      case True
      then have "J = r div 10000000" using that by simp
      then show ?thesis using e True r(1) by (auto simp: zero_less_mult_iff)
    next
      case False
      then have "J = r div 10000000 + 1" "0 < r mod 10000000" using that e(2) by (simp, linarith)
      then show ?thesis using e r(1) by linarith
    qed
  qed
  ultimately show ?thesis unfolding Let_def agenda_interval_def r_def by fastforce
qed

subsection \<open>Properties\<close>

lemma agenda_new_ok: "agenda_new t = Some a \<Longrightarrow> agenda_ok a"
  by (auto simp: agenda_new_def agenda_ok_def wheel_new_idle split: if_splits) (simp add: wheel_new_def)

text \<open>C27: deadlines fire late by less than one interval and never early.  A hook set for a deadline in
  the future (within the wheel's reach of about 497 days), left alone by the other callbacks
  and with no callback throwing, fires when the agenda is advanced past the first interval
  boundary at or after the deadline: in the tick numbered \<open>j\<close> and in none before, where
  boundary \<open>j\<close> lies in the half-open interval from the deadline to the deadline plus 10 ms.\<close>

theorem agenda_fires_on_time:
  assumes "agenda_ok a" "agenda_quiet fire" "agenda_alone fire n" "a_time a < deadline" "deadline \<le> i64_max"
    and "deadline - a_time a \<le> agenda_interval * (2 ^ 32 - 1)" "a_time a \<le> now"
  shows "\<exists>j out u' a' logs. agenda_advance fire u (agenda_set a n deadline) now = Some (out, u', a', logs) \<and>
    out = Ticked \<and> length logs = nat ((now - a_time a) div agenda_interval) \<and>
    deadline \<le> a_time a + int j * agenda_interval \<and> a_time a + int j * agenda_interval < deadline + agenda_interval \<and>
    (\<forall>i < length logs. i < j \<longrightarrow> (n \<in> set (logs ! i) \<longleftrightarrow> Suc i = j))"
proof -
  let ?d = "agenda_delay (a_time a) deadline" and ?a = "agenda_set a n deadline"
  have ok: "wheel_idle 4 8 (a_wheel a)" "a_tick a = w_clock (a_wheel a)" "0 \<le> a_time a" using assms(1) by (auto simp: agenda_ok_def)
  have now: "agenda_time a = a_time a" using ok(2) by (simp add: agenda_time_def boundary_def)
  have j: "0 < unat ?d" "deadline \<le> a_time a + int (unat ?d) * agenda_interval"
    "a_time a + int (unat ?d) * agenda_interval < deadline + agenda_interval"
    using agenda_delay_exact [OF ok(3) assms(4-6), unfolded Let_def] by linarith+
  have reach: "?d \<le> wheel_limit 4 8" by (simp add: agenda_delay_def Let_def)
  have "1 \<le> ?d" unfolding word_le_nat_alt using j(1) by simp
  then have "max ?d 1 = ?d" by (rule max_absorb1)
  then have due: "wheel_due (a_wheel ?a) n = Some (w_clock (a_wheel ?a) + of_nat (unat ?d))"
    using reach by (simp add: agenda_set_def now wheel_schedule_due)
  have ok': "agenda_ok ?a"
    using agenda_wheel.sched_ok [OF ok(1)] ok by (simp add: agenda_ok_def agenda_set_def)
  let ?k = "nat ((now - a_time a) div agenda_interval)"
  obtain out u' a' logs where l: "agenda_loop fire ?k u ?a = (out, u', a', logs)" by (cases "agenda_loop fire ?k u ?a")
  have adv: "agenda_advance fire u ?a now = Some (out, u', a', logs)"
    using l assms(7) by (simp add: agenda_advance_def agenda_set_def)
  note run = agenda_loop_run [OF ok' assms(2) l]
  have "n \<in> set (logs ! i) \<longleftrightarrow> Suc i = unat ?d" if "i < length logs" "i < unat ?d" for i
    using agenda_loop_fires [OF ok' assms(2,3) due j(1) unat_less64 l] run that by auto
  then show ?thesis using adv run j by blast
qed

theorem agenda_fires_on_time_witness:
  "\<exists>a j out u' a' logs. agenda_new 5 = Some a \<and>
    agenda_advance (\<lambda>u n t. (u, [], False)) () (agenda_set a 3 25000000) 100000000 = Some (out, u', a', logs) \<and>
    25000000 \<le> a_time a + int j * agenda_interval \<and> a_time a + int j * agenda_interval < 25000000 + agenda_interval \<and>
    (\<forall>i < length logs. i < j \<longrightarrow> (3 \<in> set (logs ! i) \<longleftrightarrow> Suc i = j))"
proof -
  obtain a where a: "agenda_new 5 = Some a" "a_time a = 5" by (simp add: agenda_new_def)
  have "agenda_quiet (\<lambda>u n t. ((u :: unit), [], False))" "agenda_alone (\<lambda>u n t. ((u :: unit), [], False)) 3"
    by (simp_all add: agenda_quiet_def agenda_alone_def)
  from agenda_fires_on_time [OF agenda_new_ok [OF a(1)] this, of 25000000 100000000 "()"]
  show ?thesis using a by (auto simp: agenda_interval_def i64_max_def)
qed

end
