(* ===== verification/Pages.thy ===== *)
theory Pages
  imports Astra_Prelude
begin

text \<open>
  The copy-on-write page index of \<^verbatim>\<open>astra/common/src/pages.hpp\<close>: leaf pages of 64 rows with an
  occupancy bitmap, branch pages of 16 children, a root and a height of at most 15, and the views that
  readers page through.  Pages are values here, so a captured view is the tree at the moment of the
  capture.  The methods that commit do not allocate; \<open>page_prepare\<close> does, and is modelled with every
  point at which an allocation may throw.
\<close>

subsection \<open>Data\<close>

text \<open>A row without a key holds no readable record, so it is \<open>None\<close>; a link is \<open>None\<close> where the
  source has a null pointer.  \<open>used\<close> is \<^verbatim>\<open>Node::used\<close>, the first field of both pages.\<close>

datatype ('k, 'r) node =
    Leaf u64 u64 "('k \<times> 'r) option list"
  | Branch u64 "('k, 'r) node option list"

primrec used :: "('k, 'r) node \<Rightarrow> u64" where
  "used (Leaf u occupied rows) = u"
| "used (Branch u children) = u"

definition link_used :: "('k, 'r) node option \<Rightarrow> u64" where
  "link_used link = (case link of None \<Rightarrow> 0 | Some n \<Rightarrow> used n)"

record ('k, 'r) pages =
  pg_root :: "('k, 'r) node option"
  pg_height :: nat

record ('k, 'r) view =
  vw_root :: "('k, 'r) node option"
  vw_height :: nat

datatype pages_error = Slots_exhausted | Position_exceeds_view | Reader_raised

definition pages_new :: "('k, 'r) pages" where
  "pages_new = \<lparr>pg_root = None, pg_height = 0\<rparr>"

definition capture :: "('k, 'r) pages \<Rightarrow> ('k, 'r) view" where
  "capture p = \<lparr>vw_root = pg_root p, vw_height = pg_height p\<rparr>"

definition view_size :: "('k, 'r) view \<Rightarrow> u64" where
  "view_size v = link_used (vw_root v)"

subsection \<open>Addressing\<close>

definition branch :: "u64 \<Rightarrow> nat \<Rightarrow> nat" where
  "branch slot level = unat (drop_bit (6 + (level - 1) * 4) slot AND 15)"

definition leaf_row :: "u64 \<Rightarrow> nat" where
  "leaf_row slot = unat (slot AND 63)"

text \<open>Whether the slot lies outside the range of a tree of this height; the test the source
  repeats in \<^verbatim>\<open>find\<close> and \<^verbatim>\<open>prepare\<close>.\<close>

definition beyond :: "nat \<Rightarrow> u64 \<Rightarrow> bool" where
  "beyond height slot \<longleftrightarrow> height < 15 \<and> drop_bit (6 + height * 4) slot \<noteq> 0"

primrec descend :: "nat \<Rightarrow> ('k, 'r) node option \<Rightarrow> u64 \<Rightarrow> ('k, 'r) node option" where
  "descend 0 n slot = n"
| "descend (Suc l) n slot =
     (case n of Some (Branch u children) \<Rightarrow> descend l (children ! branch slot (Suc l)) slot
      | _ \<Rightarrow> None)"

definition page_find :: "('k, 'r) pages \<Rightarrow> u64 \<Rightarrow> ('k \<times> 'r) option" where
  "page_find p slot =
     (if beyond (pg_height p) slot then None
      else case descend (pg_height p) (pg_root p) slot of
             Some (Leaf u occupied rows) \<Rightarrow> rows ! leaf_row slot
           | _ \<Rightarrow> None)"

definition page_at :: "('k, 'r) pages \<Rightarrow> u64 \<Rightarrow> 'r option" where
  "page_at p slot = map_option snd (page_find p slot)"

subsection \<open>Finding a vacant slot\<close>

primrec vacant :: "nat \<Rightarrow> ('k, 'r) node option \<Rightarrow> u64 \<Rightarrow> u64" where
  "vacant 0 n prefix =
     (case n of
        Some (Leaf u occupied rows) \<Rightarrow>
          (let free = NOT occupied
           in if free \<noteq> 0 then prefix OR of_nat (countr_zero free) else - 1)
      | _ \<Rightarrow> prefix)"
| "vacant (Suc l) n prefix =
     (case n of
        Some (Branch u children) \<Rightarrow>
          (let shift = 6 + l * 4
           in case find (\<lambda>c. case children ! c of None \<Rightarrow> True
                                   | Some m \<Rightarrow> used m < push_bit shift 1)
                     [0..<if Suc l = 15 then 4 else 16] of
                None \<Rightarrow> - 1
              | Some c \<Rightarrow> vacant l (children ! c) (prefix OR push_bit shift (of_nat c)))
      | _ \<Rightarrow> prefix)"

definition page_next :: "('k, 'r) pages \<Rightarrow> pages_error + u64" where
  "page_next p =
     (let h = pg_height p
      in if h < 15 \<and> pg_root p \<noteq> None \<and> link_used (pg_root p) = push_bit (6 + h * 4) 1
         then Inr (push_bit (6 + h * 4) 1)
         else let slot = vacant h (pg_root p) 0
              in if slot = - 1 then Inl Slots_exhausted else Inr slot)"

subsection \<open>Preparing a path\<close>

text \<open>Both loops of \<^verbatim>\<open>prepare\<close> allocate and may throw; \<open>ok\<close> says at which height a new root and at
  which level a private page can be allocated.  The result is whether \<^verbatim>\<open>prepare\<close> returned, with
  the index it left behind in either case.\<close>

function grow :: "(nat \<Rightarrow> bool) \<Rightarrow> u64 \<Rightarrow> ('k, 'r) pages \<Rightarrow> bool \<times> ('k, 'r) pages" where
  "grow ok slot p =
     (if beyond (pg_height p) slot then
        if ok (pg_height p)
        then grow ok slot \<lparr>pg_root = Some (Branch (link_used (pg_root p)) (pg_root p # replicate 15 None)),
                           pg_height = pg_height p + 1\<rparr>
        else (False, p)
      else (True, p))"
  by pat_completeness auto

termination
  by (relation "measure (\<lambda>(ok, slot, p). 15 - pg_height p)") (auto simp: beyond_def)

declare grow.simps [simp del]

definition private_page :: "('k, 'r) node \<Rightarrow> ('k, 'r) node option \<Rightarrow> ('k, 'r) node" where
  "private_page fresh link = (case link of None \<Rightarrow> fresh | Some page \<Rightarrow> page)"

primrec privatise :: "(nat \<Rightarrow> bool) \<Rightarrow> nat \<Rightarrow> u64 \<Rightarrow> ('k, 'r) node option
    \<Rightarrow> bool \<times> ('k, 'r) node option" where
  "privatise ok 0 slot link =
     (if ok 0 then (True, Some (private_page (Leaf 0 0 (replicate 64 None)) link)) else (False, link))"
| "privatise ok (Suc l) slot link =
     (if ok (Suc l) then
        case private_page (Branch 0 (replicate 16 None)) link of
          Branch u children \<Rightarrow>
            (let i = branch slot (Suc l); (done, child) = privatise ok l slot (children ! i)
             in (done, Some (Branch u (children[i := child]))))
        | Leaf u occupied rows \<Rightarrow> (False, link)
      else (False, link))"

definition page_prepare :: "(nat \<Rightarrow> bool) \<Rightarrow> (nat \<Rightarrow> bool) \<Rightarrow> u64 \<Rightarrow> ('k, 'r) pages
    \<Rightarrow> bool \<times> ('k, 'r) pages" where
  "page_prepare roots_ok pages_ok slot p =
     (let (grown, p1) = grow roots_ok slot p
      in if \<not> grown then (False, p1)
         else let (done, root) = privatise pages_ok (pg_height p1) slot (pg_root p1)
              in (done, p1\<lparr>pg_root := root\<rparr>))"

subsection \<open>Committing\<close>

definition set_row :: "'k option \<Rightarrow> 'r \<Rightarrow> ('k \<times> 'r) option \<Rightarrow> ('k \<times> 'r) option" where
  "set_row key rec row =
     (case key of Some k \<Rightarrow> Some (k, rec) | None \<Rightarrow> map_option (\<lambda>(k, r). (k, rec)) row)"

text \<open>The path exists: the precondition \<^verbatim>\<open>prepare\<close> establishes.  Off the path the source would
  follow a null pointer; the model leaves the link alone there.\<close>

primrec node_set :: "nat \<Rightarrow> u64 \<Rightarrow> 'k option \<Rightarrow> 'r \<Rightarrow> ('k, 'r) node option \<Rightarrow> ('k, 'r) node option" where
  "node_set 0 slot key rec link =
     (case link of
        Some (Leaf u occupied rows) \<Rightarrow>
          (let i = leaf_row slot
           in Some (Leaf (u + of_bool (key \<noteq> None))
                (if key \<noteq> None then occupied OR push_bit i 1 else occupied)
                (rows[i := set_row key rec (rows ! i)])))
      | _ \<Rightarrow> link)"
| "node_set (Suc l) slot key rec link =
     (case link of
        Some (Branch u children) \<Rightarrow>
          (let i = branch slot (Suc l)
           in Some (Branch (u + of_bool (key \<noteq> None))
                (children[i := node_set l slot key rec (children ! i)])))
      | _ \<Rightarrow> link)"

definition page_set :: "u64 \<Rightarrow> 'k option \<Rightarrow> 'r \<Rightarrow> ('k, 'r) pages \<Rightarrow> ('k, 'r) pages" where
  "page_set slot key rec p = p\<lparr>pg_root := node_set (pg_height p) slot key rec (pg_root p)\<rparr>"

text \<open>\<^verbatim>\<open>if (--link->used == 0) link.reset()\<close>.\<close>

definition release :: "('k, 'r) node \<Rightarrow> ('k, 'r) node option" where
  "release n = (if used n = 0 then None else Some n)"

primrec node_remove :: "nat \<Rightarrow> u64 \<Rightarrow> ('k, 'r) node option \<Rightarrow> ('k, 'r) node option" where
  "node_remove 0 slot link =
     (case link of
        Some (Leaf u occupied rows) \<Rightarrow>
          (let i = leaf_row slot
           in release (Leaf (u - 1) (occupied AND NOT (push_bit i 1)) (rows[i := None])))
      | _ \<Rightarrow> link)"
| "node_remove (Suc l) slot link =
     (case link of
        Some (Branch u children) \<Rightarrow>
          (let i = branch slot (Suc l)
           in release (Branch (u - 1) (children[i := node_remove l slot (children ! i)])))
      | _ \<Rightarrow> link)"

primrec shrink :: "nat \<Rightarrow> ('k, 'r) node option \<Rightarrow> ('k, 'r) pages" where
  "shrink 0 root = \<lparr>pg_root = root, pg_height = 0\<rparr>"
| "shrink (Suc h) root =
     (case root of
        Some (Branch u children) \<Rightarrow>
          if children ! 0 = None \<or> link_used (children ! 0) \<noteq> u
             \<or> list_ex (\<lambda>c. c \<noteq> None) (drop 1 children)
          then \<lparr>pg_root = root, pg_height = Suc h\<rparr>
          else shrink h (children ! 0)
      | _ \<Rightarrow> \<lparr>pg_root = root, pg_height = Suc h\<rparr>)"

definition page_erase :: "u64 \<Rightarrow> ('k, 'r) pages \<Rightarrow> ('k, 'r) pages" where
  "page_erase slot p =
     (let root = node_remove (pg_height p) slot (pg_root p)
      in if root = None then \<lparr>pg_root = None, pg_height = 0\<rparr> else shrink (pg_height p) root)"

subsection \<open>Reading a view\<close>

text \<open>A reader threads a state and may throw (\<open>None\<close>).\<close>

primrec each_of :: "('u \<Rightarrow> 'a \<Rightarrow> 'u option) \<Rightarrow> 'a list \<Rightarrow> 'u \<Rightarrow> 'u option" where
  "each_of f [] u = Some u"
| "each_of f (x # xs) u = (case f u x of None \<Rightarrow> None | Some u' \<Rightarrow> each_of f xs u')"

definition read_row :: "('u \<Rightarrow> 'k \<Rightarrow> 'r \<Rightarrow> 'u option) \<Rightarrow> 'u \<Rightarrow> ('k \<times> 'r) option \<Rightarrow> 'u option" where
  "read_row reader u row = (case row of None \<Rightarrow> Some u | Some (k, r) \<Rightarrow> reader u k r)"

primrec visit :: "nat \<Rightarrow> ('u \<Rightarrow> 'k \<Rightarrow> 'r \<Rightarrow> 'u option) \<Rightarrow> 'u \<Rightarrow> ('k, 'r) node option \<Rightarrow> 'u option" where
  "visit 0 reader u n =
     (case n of
        Some (Leaf c occupied rows) \<Rightarrow>
          if c = 0 then Some u else each_of (read_row reader) rows u
      | _ \<Rightarrow> Some u)"
| "visit (Suc l) reader u n =
     (case n of
        Some (Branch c children) \<Rightarrow>
          if c = 0 then Some u else each_of (visit l reader) children u
      | _ \<Rightarrow> Some u)"

definition view_each :: "('k, 'r) view \<Rightarrow> ('u \<Rightarrow> 'k \<Rightarrow> 'r \<Rightarrow> 'u option) \<Rightarrow> 'u \<Rightarrow> 'u option" where
  "view_each v reader u = visit (vw_height v) reader u (vw_root v)"

text \<open>The three counters \<^verbatim>\<open>slice\<close> takes by reference, with the reader's state.  The loop over
  children and the loop over rows stop at the first false.\<close>

record 'u cursor =
  cu_skip :: nat
  cu_remaining :: nat
  cu_consumed :: nat
  cu_reader :: 'u

primrec until_false :: "('s \<Rightarrow> 'a \<Rightarrow> (bool \<times> 's) option) \<Rightarrow> 'a list \<Rightarrow> 's \<Rightarrow> (bool \<times> 's) option" where
  "until_false f [] s = Some (True, s)"
| "until_false f (x # xs) s =
     (case f s x of None \<Rightarrow> None | Some (go, s') \<Rightarrow> if go then until_false f xs s' else Some (False, s'))"

definition slice_row :: "('u \<Rightarrow> 'k \<Rightarrow> 'r \<Rightarrow> (bool \<times> 'u) option) \<Rightarrow> 'u cursor
    \<Rightarrow> ('k \<times> 'r) option \<Rightarrow> (bool \<times> 'u cursor) option" where
  "slice_row reader c row =
     (if cu_skip c \<noteq> 0 then Some (True, c\<lparr>cu_skip := cu_skip c - 1\<rparr>)
      else case row of
        None \<Rightarrow> None
      | Some (k, r) \<Rightarrow>
          (case reader (cu_reader c) k r of
             None \<Rightarrow> None
           | Some (taken, u) \<Rightarrow>
               if \<not> taken then Some (False, c\<lparr>cu_reader := u\<rparr>)
               else Some (cu_remaining c - 1 \<noteq> 0,
                      c\<lparr>cu_reader := u, cu_consumed := cu_consumed c + 1,
                        cu_remaining := cu_remaining c - 1\<rparr>)))"

text \<open>The scan of a leaf: the lowest bit of \<open>occupied\<close> names the next row and is cleared.\<close>

lemma clear_lowest_less: "(w :: u64) \<noteq> 0 \<Longrightarrow> unat (w AND (w - 1)) < unat w"
proof -
  assume "w \<noteq> 0"
  then have "unat (w - 1) < unat w" by (simp add: unat_minus_one unat_gt_0)
  moreover have "unat (w AND (w - 1)) \<le> unat (w - 1)"
    by (metis word_and_le1 word_le_nat_alt)
  ultimately show ?thesis by linarith
qed

function slice_rows :: "('u \<Rightarrow> 'k \<Rightarrow> 'r \<Rightarrow> (bool \<times> 'u) option) \<Rightarrow> ('k \<times> 'r) option list
    \<Rightarrow> u64 \<Rightarrow> 'u cursor \<Rightarrow> (bool \<times> 'u cursor) option" where
  "slice_rows reader rows occupied c =
     (if occupied = 0 then Some (True, c)
      else case slice_row reader c (rows ! countr_zero occupied) of
             None \<Rightarrow> None
           | Some (go, c') \<Rightarrow>
               if go then slice_rows reader rows (occupied AND (occupied - 1)) c'
               else Some (False, c'))"
  by pat_completeness auto

termination
  by (relation "measure (\<lambda>(reader, rows, occupied, c). unat occupied)") (auto intro: clear_lowest_less)

declare slice_rows.simps [simp del]

primrec slice :: "nat \<Rightarrow> ('u \<Rightarrow> 'k \<Rightarrow> 'r \<Rightarrow> (bool \<times> 'u) option) \<Rightarrow> 'u cursor
    \<Rightarrow> ('k, 'r) node option \<Rightarrow> (bool \<times> 'u cursor) option" where
  "slice 0 reader c n =
     (case n of
        Some (Leaf u occupied rows) \<Rightarrow>
          if u = 0 then Some (True, c)
          else if cu_skip c \<ge> unat u then Some (True, c\<lparr>cu_skip := cu_skip c - unat u\<rparr>)
          else slice_rows reader rows occupied c
      | _ \<Rightarrow> Some (True, c))"
| "slice (Suc l) reader c n =
     (case n of
        Some (Branch u children) \<Rightarrow>
          if u = 0 then Some (True, c)
          else if cu_skip c \<ge> unat u then Some (True, c\<lparr>cu_skip := cu_skip c - unat u\<rparr>)
          else until_false (slice l reader) children c
      | _ \<Rightarrow> Some (True, c))"

definition view_page :: "('k, 'r) view \<Rightarrow> nat \<Rightarrow> nat \<Rightarrow> ('u \<Rightarrow> 'k \<Rightarrow> 'r \<Rightarrow> (bool \<times> 'u) option)
    \<Rightarrow> 'u \<Rightarrow> pages_error + nat \<times> 'u" where
  "view_page v offset maximum reader u =
     (if offset > unat (view_size v) then Inl Position_exceeds_view
      else if maximum = 0 then Inr (0, u)
      else case slice (vw_height v) reader
                  \<lparr>cu_skip = offset, cu_remaining = maximum, cu_consumed = 0, cu_reader = u\<rparr>
                  (vw_root v) of
             None \<Rightarrow> Inl Reader_raised
           | Some (go, c) \<Rightarrow> Inr (cu_consumed c, cu_reader c))"

end
