(* ===== verification/Pages_Cells.thy ===== *)
theory Pages_Cells
  imports Pages
begin

text \<open>
  The cells of a page tree: the list of its rows in slot order, \<open>None\<close> where a slot is vacant.  Look-up,
  the search for a vacant slot and the counters are related to this list; \<open>pages_ok\<close> is the
  well-formedness invariant of the index.
\<close>

section \<open>Bits and uniform lists\<close>

lemma concat_nth:
  assumes "\<forall>xs\<in>set xss. length xs = n" "i < length xss * n"
  shows "concat xss ! i = xss ! (i div n) ! (i mod n)"
  using assms
proof (induction xss arbitrary: i)
  case (Cons xs xss)
  then have len: "length xs = n" "0 < n" by (auto intro: gr0I)
  show ?case
  proof (cases "i < n")
    case True
    then show ?thesis using len by (simp add: nth_append)
  next
    case False
    then have i: "i div n = Suc ((i - n) div n)" "i mod n = (i - n) mod n"
      using len by (simp_all add: le_div_geq le_mod_geq)
    have "concat xss ! (i - n) = xss ! ((i - n) div n) ! ((i - n) mod n)"
      by (rule Cons.IH) (use Cons.prems False in auto)
    with False len show ?thesis by (simp add: nth_append i)
  qed
qed simp

lemma length_concat_uniform: "\<forall>xs\<in>set xss. length xs = n \<Longrightarrow> length (concat xss) = length xss * n"
  by (induction xss) auto

lemma concat_update:
  assumes "\<forall>xs\<in>set xss. length xs = n" "i < length xss * n"
  shows "(concat xss)[i := v] = concat (xss[i div n := (xss ! (i div n))[i mod n := v]])"
proof -
  have q: "i div n < length xss"
    using assms(2) by (simp add: less_mult_imp_div_less)
  have n: "0 < n" using assms(2) by (auto intro: gr0I)
  let ?yss = "xss[i div n := (xss ! (i div n))[i mod n := v]]"
  have u: "\<forall>xs\<in>set ?yss. length xs = n"
    using assms(1) q by (auto dest!: set_update_subset_insert [THEN subsetD])
  show ?thesis
  proof (rule nth_equalityI)
    fix j assume "j < length ((concat xss)[i := v])"
    then have j: "j < length xss * n"
      by (simp add: length_concat_uniform [OF assms(1)])
    have m: "i mod n < length (xss ! (i div n))"
      using assms(1) q n by simp
    have jq: "j div n < length xss" using j by (simp add: less_mult_imp_div_less)
    have "concat ?yss ! j = ?yss ! (j div n) ! (j mod n)"
      using u j by (simp add: concat_nth)
    moreover have "i = j \<longleftrightarrow> i div n = j div n \<and> i mod n = j mod n"
      by (metis div_mult_mod_eq)
    ultimately show "(concat xss)[i := v] ! j = concat ?yss ! j"
      using assms(1) j q m jq by (auto simp: nth_list_update concat_nth length_concat_uniform [OF assms(1)])
  qed (simp add: length_concat_uniform [OF assms(1)] length_concat_uniform [OF u])
qed

lemma word_AND_15: "w AND 15 = (w AND mask 4 :: u64)"
  by (simp add: mask_eq_exp_minus_1)

lemma word_AND_63: "w AND 63 = (w AND mask 6 :: u64)"
  by (simp add: mask_eq_exp_minus_1)

lemma countr_zero_bits:
  assumes "(w :: u64) \<noteq> 0"
  shows "countr_zero w < 64" "bit w (countr_zero w)" "i < countr_zero w \<Longrightarrow> \<not> bit w i"
    "bit (w AND (w - 1)) i \<longleftrightarrow> bit w i \<and> i \<noteq> countr_zero w"
proof -
  define k where "k = countr_zero w"
  have pos: "0 < unat w" using assms by (simp add: unat_gt_0)
  have k64: "k < 64"
  proof (rule ccontr)
    assume "\<not> k < 64"
    then have "2 ^ 64 dvd unat w" using countr_zero_dvd [of 64 w] by (simp add: k_def)
    then have "2 ^ 64 \<le> unat w" using pos dvd_imp_le by blast
    then show False using unat_less64 [of w] by linarith
  qed
  have dvd: "2 ^ j dvd unat w \<longleftrightarrow> j \<le> k" if "j \<le> 64" for j
    using countr_zero_dvd [OF that, of w] by (simp add: k_def)
  have bitn: "bit (v :: u64) j \<longleftrightarrow> odd (unat v div 2 ^ j)" for v j
    by (metis bit_iff_odd bit_unsigned_iff possible_bit_nat)
  obtain m where m: "unat w = 2 ^ k * (2 * m + 1)"
  proof -
    from dvd [of k] k64 obtain q where q: "unat w = 2 ^ k * q" by (auto elim: dvdE)
    have "odd q"
    proof
      assume "even q"
      then have "2 ^ Suc k dvd unat w" by (auto simp: q elim!: evenE)
      with dvd [of "Suc k"] k64 show False by simp
    qed
    then obtain m where "q = 2 * m + 1" by (auto elim: oddE)
    with q show thesis using that by simp
  qed
  have pred: "unat (w - 1) = unat w - 1" using assms by (rule unat_minus_one)
  have low: "\<not> bit w j" if "j < k" for j
  proof -
    have "2 ^ Suc j dvd unat w" using dvd [of "Suc j"] that k64 by simp
    then have "even (unat w div 2 ^ j)" by (metis dvd_div_iff_mult power_Suc2 power_not_zero zero_neq_numeral dvd_mult_left mult.commute dvd_power_le)
    then show ?thesis by (simp add: bitn)
  qed
  have at: "bit w k" by (simp add: bitn m)
  have predk: "unat (w - 1) div 2 ^ k = 2 * m"
  proof -
    define r :: nat where "r = 2 ^ k - 1"
    have r: "r < 2 ^ k" by (simp add: r_def)
    have "unat (w - 1) = r + 2 ^ k * (2 * m)"
      unfolding pred m r_def by (simp add: algebra_simps)
    with r show ?thesis by simp
  qed
  have high: "unat (w - 1) div 2 ^ j = unat w div 2 ^ j" if kj: "k < j" for j
  proof -
    obtain d where d: "j = Suc k + d" using kj less_iff_Suc_add [of k j] by auto
    have "unat (w - 1) div 2 ^ Suc k = unat w div 2 ^ Suc k"
      using predk by (simp add: m div_mult2_eq power_Suc2 del: power_Suc)
    then show ?thesis unfolding d power_add div_mult2_eq by (simp only:)
  qed
  show "countr_zero w < 64" "bit w (countr_zero w)" "i < countr_zero w \<Longrightarrow> \<not> bit w i"
    using k64 at low by (simp_all add: k_def)
  show "bit (w AND (w - 1)) i \<longleftrightarrow> bit w i \<and> i \<noteq> countr_zero w"
  proof (cases i k rule: linorder_cases)
    case equal
    then show ?thesis using predk by (simp only: bit_and_iff) (simp add: bitn k_def)
  next
    case greater
    then show ?thesis using high [of i] by (simp only: bit_and_iff) (simp add: bitn k_def)
  qed (use low in \<open>simp add: bit_and_iff k_def\<close>)
qed

lemma filter_set_bits:
  assumes "(w :: u64) \<noteq> 0"
  shows "filter (bit w) [0..<64] = countr_zero w # filter (bit (w AND (w - 1))) [0..<64]"
proof -
  let ?k = "countr_zero w"
  have k: "[0..<64] = [0..<?k] @ ?k # [Suc ?k..<64]"
    using countr_zero_bits(1) [OF assms] upt_conv_Cons [of ?k 64] upt_add_eq_append [of 0 ?k "64 - ?k"]
    by simp
  have "filter (bit w) [0..<?k] = []" "filter (bit (w AND (w - 1))) [0..<?k] = []"
    using countr_zero_bits(3,4) [OF assms] by (auto simp: filter_empty_conv)
  moreover have "filter (bit (w AND (w - 1))) [Suc ?k..<64] = filter (bit w) [Suc ?k..<64]"
    using countr_zero_bits(4) [OF assms] by (intro filter_cong) auto
  ultimately show ?thesis
    using countr_zero_bits(2) [OF assms] countr_zero_bits(4) [OF assms, of ?k]
    by (simp only: k filter_append filter.simps) simp
qed

section \<open>Cells and well-formedness\<close>

definition cap :: "nat \<Rightarrow> nat" where
  "cap l = 2 ^ (6 + 4 * l)"

lemma cap_0 [simp]: "cap 0 = 64"
  by (simp add: cap_def)

lemma cap_Suc: "cap (Suc l) = 16 * cap l"
  by (simp add: cap_def power_add)

lemma cap_pos [simp]: "0 < cap l"
  by (simp add: cap_def)

primrec cells :: "nat \<Rightarrow> ('k, 'r) node option \<Rightarrow> ('k \<times> 'r) option list" where
  "cells 0 n = (case n of Some (Leaf u occupied rows) \<Rightarrow> rows | _ \<Rightarrow> replicate 64 None)"
| "cells (Suc l) n =
     (case n of Some (Branch u children) \<Rightarrow> concat (map (cells l) children)
      | _ \<Rightarrow> replicate (cap (Suc l)) None)"

definition taken :: "'a option list \<Rightarrow> 'a list" where
  "taken xs = map the (filter (\<lambda>x. x \<noteq> None) xs)"

primrec node_ok :: "nat \<Rightarrow> ('k, 'r) node option \<Rightarrow> bool" where
  "node_ok 0 n =
     (case n of None \<Rightarrow> True
      | Some (Leaf u occupied rows) \<Rightarrow>
          length rows = 64 \<and> unat u = length (taken rows)
          \<and> list_all (\<lambda>i. bit occupied i = (rows ! i \<noteq> None)) [0..<64]
      | Some (Branch u children) \<Rightarrow> False)"
| "node_ok (Suc l) n =
     (case n of None \<Rightarrow> True
      | Some (Branch u children) \<Rightarrow>
          length children = 16 \<and> list_all (node_ok l) children
          \<and> unat u = length (taken (concat (map (cells l) children)))
      | Some (Leaf u occupied rows) \<Rightarrow> False)"

lemma node_ok_None [simp]: "node_ok l None"
  by (cases l) auto

lemma cells_None [simp]: "cells l None = replicate (cap l) None"
  by (cases l) auto

lemma node_ok_SucE:
  assumes "node_ok (Suc l) (Some n)"
  obtains u children where "n = Branch u children" "length children = 16" "\<forall>c\<in>set children. node_ok l c"
    "unat u = length (taken (concat (map (cells l) children)))"
  using assms by (cases n) (auto simp: list_all_iff)

lemma node_ok_0E:
  assumes "node_ok 0 (Some n)"
  obtains u occupied rows where "n = Leaf u occupied rows" "length rows = 64" "unat u = length (taken rows)"
    "\<And>i. i < 64 \<Longrightarrow> bit occupied i = (rows ! i \<noteq> None)"
  using assms by (cases n) (auto simp: list_all_iff)

lemma length_cells [simp]: "node_ok l n \<Longrightarrow> length (cells l n) = cap l"
proof (induction l arbitrary: n)
  case 0
  then show ?case by (auto split: option.splits node.splits)
next
  case (Suc l)
  show ?case
  proof (cases n)
    case (Some m)
    with Suc.prems obtain u cs where m: "m = Branch u cs" "length cs = 16" "\<forall>c\<in>set cs. node_ok l c"
      by (auto elim: node_ok_SucE simp del: node_ok.simps)
    then have "\<forall>xs\<in>set (map (cells l) cs). length xs = cap l" using Suc.IH by auto
    from length_concat_uniform [OF this] show ?thesis by (simp add: Some m cap_Suc)
  qed simp
qed

lemma taken_Nil [simp]: "taken [] = []"
  by (simp add: taken_def)

lemma taken_Cons [simp]: "taken (x # xs) = (case x of None \<Rightarrow> taken xs | Some v \<Rightarrow> v # taken xs)"
  by (auto simp: taken_def split: option.splits)

lemma taken_append [simp]: "taken (xs @ ys) = taken xs @ taken ys"
  by (simp add: taken_def)

lemma taken_replicate_None [simp]: "taken (replicate n None) = []"
  by (simp add: taken_def)

lemma taken_concat: "taken (concat xss) = concat (map taken xss)"
  by (induction xss) auto

lemma taken_le: "length (taken xs) \<le> length xs"
  by (simp add: taken_def)

lemma taken_empty_iff: "taken xs = [] \<longleftrightarrow> (\<forall>x\<in>set xs. x = None)"
  by (auto simp: taken_def filter_empty_conv)

lemma taken_full_iff: "length (taken xs) = length xs \<longleftrightarrow> (\<forall>x\<in>set xs. x \<noteq> None)"
proof (induction xs)
  case (Cons x xs)
  then show ?case using taken_le [of xs] by (cases x) auto
qed simp

lemma taken_less: "i < length xs \<Longrightarrow> xs ! i = None \<Longrightarrow> length (taken xs) < length xs"
  using taken_full_iff [of xs] taken_le [of xs] nth_mem [of i xs] by (auto simp: le_less)

lemma taken_insert:
  "i < length xs \<Longrightarrow> xs ! i = None \<Longrightarrow> length (taken (xs[i := Some v])) = Suc (length (taken xs))"
  by (simp add: taken_def upd_conv_take_nth_drop) (subst (2) id_take_nth_drop [of i xs], auto)

lemma taken_overwrite:
  "i < length xs \<Longrightarrow> xs ! i \<noteq> None \<Longrightarrow> length (taken (xs[i := Some v])) = length (taken xs)"
  by (simp add: taken_def upd_conv_take_nth_drop) (subst (2) id_take_nth_drop [of i xs], auto)

lemma taken_delete:
  "i < length xs \<Longrightarrow> xs ! i \<noteq> None \<Longrightarrow> Suc (length (taken (xs[i := None]))) = length (taken xs)"
  by (simp add: taken_def upd_conv_take_nth_drop) (subst (2) id_take_nth_drop [of i xs], auto)

lemma unat_link_used: "node_ok l n \<Longrightarrow> unat (link_used n) = length (taken (cells l n))"
proof (cases n)
  case (Some m)
  assume "node_ok l n"
  with Some show ?thesis
    by (cases l; cases m) (auto simp: link_used_def)
qed (simp add: link_used_def)

lemma unat_leaf_row: "leaf_row slot = unat slot mod 64"
  by (simp add: leaf_row_def word_AND_63 unat_and_mask)

lemma unat_branch: "branch slot (Suc l) = unat slot div cap l mod 16"
  by (simp add: branch_def word_AND_15 unat_and_mask unat_drop_bit cap_def mult.commute)

lemma branch_less [simp]: "branch slot (Suc l) < 16"
  by (simp add: unat_branch)

lemma leaf_row_less [simp]: "leaf_row slot < 64"
  by (simp add: unat_leaf_row)

lemma mod_cap_div: "unat slot mod cap (Suc l) div cap l = branch slot (Suc l)"
  "unat slot mod cap (Suc l) mod cap l = unat slot mod cap l"
  unfolding cap_Suc unat_branch by (simp_all add: mod_mult2_eq mult.commute)

lemma beyond_iff: "beyond h slot \<longleftrightarrow> h < 15 \<and> cap h \<le> unat slot"
proof -
  have "drop_bit (6 + h * 4) slot = 0 \<longleftrightarrow> unat slot < cap h"
    by (simp add: cap_def mult.commute unat_drop_bit div_eq_0_iff flip: unat_eq_zero)
  then show ?thesis by (auto simp: beyond_def)
qed


subsection \<open>Look-up\<close>

lemma branch_cells_nth:
  assumes "length cs = 16" "\<forall>c\<in>set cs. node_ok l c" "i < cap (Suc l)"
  shows "concat (map (cells l) cs) ! i = cells l (cs ! (i div cap l)) ! (i mod cap l)"
proof -
  have "i div cap l < 16" using assms(3) by (simp add: cap_Suc less_mult_imp_div_less)
  moreover have "\<forall>xs\<in>set (map (cells l) cs). length xs = cap l" using assms(2) by auto
  ultimately show ?thesis using assms(1,3) concat_nth [of "map (cells l) cs" "cap l" i] by (simp add: cap_Suc)
qed

lemma descend_cells:
  "node_ok l n \<Longrightarrow> (case descend l n slot of Some (Leaf u occupied rows) \<Rightarrow> rows ! leaf_row slot | _ \<Rightarrow> None)
     = cells l n ! (unat slot mod cap l)"
proof (induction l arbitrary: n)
  case 0
  then show ?case by (auto simp: unat_leaf_row split: option.splits node.splits)
next
  case (Suc l)
  show ?case
  proof (cases n)
    case None
    then show ?thesis by (cases l) auto
  next
    case (Some m)
    with Suc.prems obtain u cs where m: "m = Branch u cs" "length cs = 16" "\<forall>c\<in>set cs. node_ok l c"
      by (auto elim: node_ok_SucE simp del: node_ok.simps)
    have "node_ok l (cs ! branch slot (Suc l))" using m by simp
    from Suc.IH [OF this] show ?thesis
      using branch_cells_nth [OF m(2,3), of "unat slot mod cap (Suc l)"] 
      by (simp add: Some m mod_cap_div)
  qed
qed

definition pages_ok :: "('k, 'r) pages \<Rightarrow> bool" where
  "pages_ok p \<longleftrightarrow> pg_height p \<le> 15 \<and> node_ok (pg_height p) (pg_root p)
     \<and> list_all (\<lambda>x. x = None) (drop (2 ^ 64 - 1) (cells (pg_height p) (pg_root p)))"

definition pages_cells :: "('k, 'r) pages \<Rightarrow> ('k \<times> 'r) option list" where
  "pages_cells p = cells (pg_height p) (pg_root p)"

lemma cap_15: "cap 15 = 4 * 2 ^ 64" "h < 15 \<Longrightarrow> cap h < 2 ^ 64"
proof -
  show "cap 15 = 4 * 2 ^ 64" by (simp add: cap_def)
  assume "h < 15"
  then have "6 + 4 * h < 64" by simp
  then show "cap h < 2 ^ 64" unfolding cap_def by (rule power_strict_increasing) simp
qed

lemma not_beyond_less: "h \<le> 15 \<Longrightarrow> \<not> beyond h slot \<Longrightarrow> unat slot < cap h"
  using cap_15(1) unat_less64 [of slot] by (cases "h = 15") (auto simp: beyond_iff)

lemma page_find_cells:
  assumes "node_ok (pg_height p) (pg_root p)" "pg_height p \<le> 15"
  shows "page_find p slot =
    (if unat slot < cap (pg_height p) then pages_cells p ! unat slot else None)"
proof (cases "beyond (pg_height p) slot")
  case False
  then have "unat slot < cap (pg_height p)" using not_beyond_less assms(2) by blast
  with False show ?thesis
    using descend_cells [OF assms(1), of slot] by (simp add: page_find_def pages_cells_def)
qed (simp add: page_find_def beyond_iff)

subsection \<open>The lowest vacant slot\<close>

definition lowest :: "'a option list \<Rightarrow> nat" where
  "lowest xs = length (takeWhile (\<lambda>x. x \<noteq> None) xs)"

lemma lowest_full: "\<forall>x\<in>set xs. x \<noteq> None \<Longrightarrow> lowest (xs @ ys) = length xs + lowest ys"
  by (simp add: lowest_def)

lemma lowest_eqI: "i < length xs \<Longrightarrow> xs ! i = None \<Longrightarrow> (\<And>j. j < i \<Longrightarrow> xs ! j \<noteq> None) \<Longrightarrow> lowest xs = i"
  unfolding lowest_def by (subst takeWhile_eq_take_P_nth [of i]) auto

lemma lowest_nth: "lowest xs < length xs \<Longrightarrow> xs ! lowest xs = None"
  unfolding lowest_def using nth_length_takeWhile [of "\<lambda>x. x \<noteq> None" xs] by simp

lemma lowest_below: "i < lowest xs \<Longrightarrow> xs ! i \<noteq> None"
proof (induction xs arbitrary: i)
  case (Cons x xs)
  then show ?case by (cases i) (auto simp: lowest_def split: if_splits)
qed (simp add: lowest_def)

lemma lowest_le: "lowest xs \<le> length xs"
  by (simp add: lowest_def length_takeWhile_le)

lemma lowest_le_taken: "lowest xs \<le> length (taken xs)"
  by (induction xs) (auto simp: lowest_def split: option.splits)

lemma lowest_append: "lowest xs < length xs \<Longrightarrow> lowest (xs @ ys) = lowest xs"
  unfolding lowest_def by (induction xs) (auto split: if_splits)

lemma lowest_less_iff: "lowest xs < length xs \<longleftrightarrow> length (taken xs) < length xs"
proof
  assume "lowest xs < length xs"
  then show "length (taken xs) < length xs" using lowest_nth taken_less by blast
qed (use lowest_le_taken [of xs] in linarith)

lemma or_low_bits:
  fixes a x :: u64
  assumes "2 ^ k dvd unat a" "unat x < 2 ^ k"
  shows "a OR x = a + x"
proof -
  have "a AND x = 0"
  proof (rule bit_word_eqI)
    fix i assume "i < LENGTH(64)"
    have bitn: "bit (v :: u64) j \<longleftrightarrow> odd (unat v div 2 ^ j)" for v j
      by (metis bit_iff_odd bit_unsigned_iff possible_bit_nat)
    show "bit (a AND x) i \<longleftrightarrow> bit (0 :: u64) i"
    proof (cases "i < k")
      case True
      then have "2 ^ Suc i dvd unat a" using assms(1) by (meson Suc_leI dvd_trans le_imp_power_dvd)
      then have "even (unat a div 2 ^ i)" by (auto elim!: dvdE)
      then have "\<not> bit a i" by (simp add: bitn)
      then show ?thesis by (simp add: bit_and_iff)
    next
      case False
      then have "unat x < 2 ^ i" using assms(2) by (meson less_le_trans not_less one_le_numeral power_increasing)
      then have "\<not> bit x i" by (simp add: bitn)
      then show ?thesis by (simp add: bit_and_iff)
    qed
  qed
  then show ?thesis by (simp add: disjunctive_add_eq_or)
qed

lemma vacant_leaf:
  assumes "node_ok 0 (Some (Leaf u occupied rows))" "length (taken rows) < 64"
  shows "NOT occupied \<noteq> 0" "countr_zero (NOT occupied) = lowest rows"
proof -
  have ok: "length rows = 64" "\<And>i. i < 64 \<Longrightarrow> bit occupied i = (rows ! i \<noteq> None)"
    using assms(1) by (auto simp: list_all_iff)
  have free: "bit (NOT occupied) i = (rows ! i = None)" if "i < 64" for i
    using ok(2) [OF that] that by (simp add: bit_not_iff del: not_None_eq)
  have "lowest rows < 64" using lowest_less_iff [of rows] assms(2) ok(1) by simp
  then have "bit (NOT occupied) (lowest rows)" using lowest_nth [of rows] free ok(1) by simp
  then show nz: "NOT occupied \<noteq> 0" by auto
  note ctz = countr_zero_bits [OF nz]
  show "countr_zero (NOT occupied) = lowest rows"
    by (rule lowest_eqI [symmetric]) (use ctz free ok(1) in auto)
qed


lemma children_lowest:
  assumes "length cs = 16" "\<forall>c\<in>set cs. node_ok l c" "c < 16"
    "\<forall>i<c. length (taken (cells l (cs ! i))) = cap l"
    "length (taken (cells l (cs ! c))) < cap l"
  shows "lowest (concat (map (cells l) cs)) = c * cap l + lowest (cells l (cs ! c))"
proof -
  have split: "concat (map (cells l) cs)
      = concat (map (cells l) (take c cs)) @ cells l (cs ! c) @ concat (map (cells l) (drop (Suc c) cs))"
    using assms(1,3) by (subst id_take_nth_drop [of c cs]) simp_all
  have full: "\<forall>x\<in>set (concat (map (cells l) (take c cs))). x \<noteq> None"
  proof
    fix x assume "x \<in> set (concat (map (cells l) (take c cs)))"
    then obtain d where d: "d \<in> set (take c cs)" "x \<in> set (cells l d)" by auto
    from d(1) obtain i where i: "i < c" "d = cs ! i"
      using assms(1,3) unfolding in_set_conv_nth by auto
    with d(2) have i: "i < c" "x \<in> set (cells l (cs ! i))" by simp_all
    have "length (taken (cells l (cs ! i))) = length (cells l (cs ! i))"
      using assms i by simp
    from taken_full_iff [THEN iffD1, OF this] i(2) show "x \<noteq> None" by (rule bspec)
  qed
  have len: "length (concat (map (cells l) (take c cs))) = c * cap l"
  proof -
    have "\<forall>xs\<in>set (map (cells l) (take c cs)). length xs = cap l"
      using assms(2) by (auto dest: in_set_takeD)
    from length_concat_uniform [OF this] show ?thesis using assms(1,3) by simp
  qed
  have "node_ok l (cs ! c)" using assms by simp
  then have "lowest (cells l (cs ! c)) < length (cells l (cs ! c))"
    using assms(5) lowest_less_iff [of "cells l (cs ! c)"] by simp
  then show ?thesis
    unfolding split lowest_full [OF full] len by (simp add: lowest_append)
qed

lemma push_bit_cap: "l < 15 \<Longrightarrow> push_bit (6 + l * 4) (of_nat c) = (of_nat (c * cap l) :: u64)"
  by (simp add: push_bit_eq_mult cap_def mult.commute)

lemma unat_cap: "l < 15 \<Longrightarrow> c < 4 \<or> (c < 16 \<and> l < 14) \<Longrightarrow> unat (of_nat (c * cap l) :: u64) = c * cap l"
proof -
  assume l: "l < 15" and c: "c < 4 \<or> (c < 16 \<and> l < 14)"
  have "c * cap l < 2 ^ 64"
  proof (cases "l < 14")
    case True
    then have "cap (Suc l) < 2 ^ 64" by (intro cap_15(2)) simp
    moreover have "c < 16" using c by auto
    then have "c * cap l \<le> 15 * cap l" by (intro mult_le_mono1) simp
    ultimately show ?thesis unfolding cap_Suc by linarith
  next
    case False
    then have "l = 14" using l by simp
    then show ?thesis using c by (simp add: cap_def)
  qed
  then show ?thesis unfolding unat_of_nat by simp
qed

lemma open_child_iff:
  assumes "node_ok l n" "l < 15"
  shows "(case n of None \<Rightarrow> True | Some m \<Rightarrow> used m < push_bit (6 + l * 4) 1)
    \<longleftrightarrow> length (taken (cells l n)) < cap l"
proof -
  have "unat (push_bit (6 + l * 4) 1 :: u64) = cap l"
    using push_bit_cap [OF assms(2), of 1] unat_cap [OF assms(2), of 1] by simp
  then show ?thesis
    using unat_link_used [OF assms(1)]
    by (cases n) (simp_all add: link_used_def word_less_nat_alt)
qed

lemma find_open_child:
  assumes cs: "length cs = 16" "\<forall>c\<in>set cs. node_ok l c" and l: "l < 15" and b: "b \<le> 16"
    and low: "lowest (concat (map (cells l) cs)) < b * cap l"
  obtains c where
    "find (\<lambda>c. case cs ! c of None \<Rightarrow> True | Some m \<Rightarrow> used m < push_bit (6 + l * 4) 1) [0..<b] = Some c"
    "c < b" "length (taken (cells l (cs ! c))) < cap l"
    "lowest (concat (map (cells l) cs)) = c * cap l + lowest (cells l (cs ! c))"
proof -
  let ?open = "\<lambda>c. case cs ! c of None \<Rightarrow> True | Some m \<Rightarrow> used m < push_bit (6 + l * 4) 1"
  let ?i = "lowest (concat (map (cells l) cs))"
  have op: "?open c \<longleftrightarrow> length (taken (cells l (cs ! c))) < cap l" if "c < 16" for c
    using open_child_iff [of l "cs ! c"] l cs that by simp
  have full: "length (taken (cells l (cs ! c))) = cap l" if "\<not> ?open c" "c < 16" for c
    using that op [OF that(2)] taken_le [of "cells l (cs ! c)"] cs by simp
  have i: "?i < cap (Suc l)" using low b by (simp add: cap_Suc) (meson less_le_trans mult_le_mono1)
  let ?c = "?i div cap l"
  have c0: "?c < b" using low by (rule less_mult_imp_div_less)
  have "length (concat (map (cells l) cs)) = cap (Suc l)"
    using length_concat_uniform [of "map (cells l) cs" "cap l"] cs by (simp add: cap_Suc)
  with i have "concat (map (cells l) cs) ! ?i = None" by (intro lowest_nth) simp
  then have "cells l (cs ! ?c) ! (?i mod cap l) = None" using branch_cells_nth [OF cs i] by simp
  moreover have "?i mod cap l < length (cells l (cs ! ?c))" using cs c0 b by simp
  ultimately have "length (taken (cells l (cs ! ?c))) < length (cells l (cs ! ?c))"
    by (rule taken_less [rotated])
  then have "?open ?c" using op [of ?c] c0 b cs by simp
  with c0 obtain c where c: "find ?open [0..<b] = Some c"
    by (cases "find ?open [0..<b]") (auto simp: find_None_iff)
  then have cb: "c < b" and oc: "?open c" and before: "\<forall>i<c. \<not> ?open i"
    by (auto simp: find_Some_iff)
  have oc': "length (taken (cells l (cs ! c))) < cap l" using oc op cb b by simp
  have "lowest (concat (map (cells l) cs)) = c * cap l + lowest (cells l (cs ! c))"
    by (rule children_lowest [OF cs _ _ oc']) (use before full cb b in auto)
  with c cb oc' show thesis by (rule that)
qed

lemma shifted_prefix:
  assumes "l < 14" "2 ^ (6 + 4 * Suc l) dvd unat (prefix :: u64)" "c < 16"
  shows "prefix OR push_bit (6 + l * 4) (of_nat c) = prefix + of_nat (c * cap l)"
    "2 ^ (6 + 4 * l) dvd unat (prefix + of_nat (c * cap l) :: u64)"
proof -
  have l15: "l < 15" using assms(1) by simp
  have u: "unat (of_nat (c * cap l) :: u64) = c * cap l" using unat_cap [OF l15, of c] assms by simp
  have "c * cap l < cap (Suc l)" using assms(3) by (simp add: cap_Suc)
  then have "unat (of_nat (c * cap l) :: u64) < 2 ^ (6 + 4 * Suc l)" by (simp only: u cap_def [of "Suc l"])
  from or_low_bits [OF assms(2) this]
  show "prefix OR push_bit (6 + l * 4) (of_nat c) = prefix + of_nat (c * cap l)"
    unfolding push_bit_cap [OF l15] .
  have d: "cap l dvd 2 ^ 64" unfolding cap_def by (rule le_imp_power_dvd) (use assms(1) in simp)
  have "cap l dvd unat prefix"
    using assms(2) dvd_trans [of "cap l" "cap (Suc l)"] by (simp only: cap_Suc cap_def [symmetric]) auto
  then have "cap l dvd unat prefix + c * cap l" by simp
  then have "cap l dvd (unat prefix + c * cap l) mod 2 ^ 64" using d by (simp add: dvd_mod)
  then show "2 ^ (6 + 4 * l) dvd unat (prefix + of_nat (c * cap l) :: u64)"
    by (simp only: unat_word_ariths u cap_def [symmetric]) simp
qed

lemma vacant_None [simp]: "vacant l None prefix = prefix"
  by (cases l) simp_all

lemma vacant_lowest:
  assumes "l < 15" "node_ok l n" "2 ^ (6 + 4 * l) dvd unat prefix" "length (taken (cells l n)) < cap l"
  shows "vacant l n prefix = prefix + of_nat (lowest (cells l n))"
  using assms
proof (induction l arbitrary: n prefix)
  case 0
  show ?case
  proof (cases n)
    case None
    then show ?thesis by (simp add: lowest_def)
  next
    case (Some m)
    with 0 obtain u occ rows where m: "m = Leaf u occ rows" "length rows = 64" by (auto elim: node_ok_0E simp del: node_ok.simps)
    have "lowest rows < 64" using 0 lowest_less_iff [of rows] by (simp add: Some m)
    then have "unat (of_nat (lowest rows) :: u64) < 2 ^ 6" by (simp add: unat_of_nat)
    moreover have "2 ^ 6 dvd unat prefix" using 0 by simp
    ultimately have "prefix OR of_nat (lowest rows) = prefix + of_nat (lowest rows)" by (rule or_low_bits [rotated])
    then show ?thesis using vacant_leaf [of u occ rows] 0 by (simp add: Some m Let_def del: node_ok.simps)
  qed
next
  case (Suc l)
  show ?case
  proof (cases n)
    case None
    then show ?thesis by (simp add: lowest_def)
  next
    case (Some m)
    then obtain u cs where m: "m = Branch u cs" "length cs = 16" "\<forall>c\<in>set cs. node_ok l c"
      using Suc.prems(2) by (auto elim: node_ok_SucE simp del: node_ok.simps)
    have l: "l < 15" "l < 14" "(if Suc l = 15 then 4 else 16) = (16 :: nat)" using Suc.prems(1) by simp_all
    have "lowest (cells (Suc l) n) < 16 * cap l"
      using Suc.prems(4) lowest_less_iff [of "cells (Suc l) n"] length_cells [OF Suc.prems(2)]
      by (simp only: cap_Suc)
    then obtain c where c: "find (\<lambda>c. case cs ! c of None \<Rightarrow> True | Some m \<Rightarrow> used m < push_bit (6 + l * 4) 1) [0..<16] = Some c"
      "c < 16" "length (taken (cells l (cs ! c))) < cap l"
      "lowest (concat (map (cells l) cs)) = c * cap l + lowest (cells l (cs ! c))"
      using find_open_child [OF m(2,3) l(1), of 16] by (auto simp: Some m)
    note pre = shifted_prefix [OF l(2) Suc.prems(3) c(2)]
    have "vacant l (cs ! c) (prefix + of_nat (c * cap l))
        = prefix + of_nat (c * cap l) + of_nat (lowest (cells l (cs ! c)))"
      by (rule Suc.IH [OF l(1) _ pre(2) c(3)]) (use m c in simp)
    then show ?thesis using l(2) by (simp add: Some m Let_def c pre(1) less_imp_neq del: upt_Suc)
  qed
qed

lemma vacant_top:
  assumes "node_ok 15 n" "lowest (cells 15 n) < 2 ^ 64"
  shows "vacant 15 n 0 = of_nat (lowest (cells 15 n))"
proof (cases n)
  case None
  then show ?thesis by (simp add: lowest_def)
next
  case (Some m)
  have 15: "15 = Suc 14" by simp
  have "node_ok (Suc 14) (Some m)" using assms(1) Some 15 by metis
  then obtain u cs where m: "m = Branch u cs" "length cs = 16" "\<forall>c\<in>set cs. node_ok 14 c"
    by (rule node_ok_SucE)
  have "4 * cap 14 = 2 ^ 64" by (simp add: cap_def)
  moreover have c15: "cells 15 n = concat (map (cells 14) cs)"
    using cells.simps(2) [of 14 n] by (simp add: Some m)
  ultimately have "lowest (concat (map (cells 14) cs)) < 4 * cap 14"
    using assms(2) by (simp only:)
  then obtain c where c: "find (\<lambda>c. case cs ! c of None \<Rightarrow> True | Some m \<Rightarrow> used m < push_bit (6 + 14 * 4) 1) [0..<4] = Some c"
      "c < 4" "length (taken (cells 14 (cs ! c))) < cap 14"
      "lowest (concat (map (cells 14) cs)) = c * cap 14 + lowest (cells 14 (cs ! c))"
    using find_open_child [OF m(2,3), of 4] by auto
  have u: "unat (of_nat (c * cap 14) :: u64) = c * cap 14" using unat_cap [of 14 c] c(2) by simp
  have "vacant 14 (cs ! c) (of_nat (c * cap 14)) = of_nat (c * cap 14) + of_nat (lowest (cells 14 (cs ! c)))"
    by (rule vacant_lowest) (use m c u in \<open>simp_all add: cap_def\<close>)
  moreover have "push_bit (6 + 14 * 4) (of_nat c) = (of_nat (c * cap 14) :: u64)"
    by (rule push_bit_cap) simp
  moreover have "vacant 15 n 0 = vacant 14 (cs ! c) (0 OR push_bit (6 + 14 * 4) (of_nat c))"
  proof -
    have n: "6 + 14 * 4 = (62 :: nat)" by simp
    show ?thesis using vacant.simps(2) [of 14 n 0] c(1) unfolding n by (simp add: Some m del: upt_Suc)
  qed
  ultimately show ?thesis using c(4) by (simp add: c15)
qed

lemma page_next_lowest:
  assumes "pages_ok p"
  shows "page_next p = (let j = lowest (pages_cells p)
    in if j = 2 ^ 64 - 1 then Inl Slots_exhausted else Inr (of_nat j))"
proof -
  let ?h = "pg_height p"
  let ?xs = "pages_cells p"
  have ok: "?h \<le> 15" "node_ok ?h (pg_root p)" using assms by (simp_all add: pages_ok_def)
  have len: "length ?xs = cap ?h" using ok by (simp add: pages_cells_def)
  have full: "?h < 15 \<Longrightarrow> link_used (pg_root p) = push_bit (6 + ?h * 4) 1 \<longleftrightarrow> lowest ?xs = cap ?h"
  proof -
    assume h: "?h < 15"
    have "unat (push_bit (6 + ?h * 4) 1 :: u64) = cap ?h"
      using push_bit_cap [OF h, of 1] unat_cap [OF h, of 1] by simp
    then have "link_used (pg_root p) = push_bit (6 + ?h * 4) 1 \<longleftrightarrow> length (taken ?xs) = cap ?h"
      using unat_link_used [OF ok(2)] by (metis pages_cells_def word_unat_eq_iff)
    also have "\<dots> \<longleftrightarrow> lowest ?xs = cap ?h"
      using lowest_less_iff [of ?xs] lowest_le [of ?xs] taken_le [of ?xs] len by linarith
    finally show ?thesis .
  qed
  show ?thesis
  proof (cases "?h < 15 \<and> lowest ?xs = cap ?h")
    case True
    have "pg_root p \<noteq> None"
    proof
      assume "pg_root p = None"
      then have "lowest ?xs = 0" by (simp add: pages_cells_def lowest_def)
      with True show False using cap_pos [of ?h] by simp
    qed
    moreover have "cap ?h \<noteq> 2 ^ 64 - 1"
      using cap_15(2) [of ?h] True by (auto simp: cap_def dest: arg_cong [where f = even])
    moreover have "push_bit (6 + ?h * 4) 1 = (of_nat (cap ?h) :: u64)" using push_bit_cap [of ?h 1] True by simp
    ultimately show ?thesis using True full by (simp add: page_next_def)
  next
    case False
    have low: "lowest ?xs < 2 ^ 64" "vacant ?h (pg_root p) 0 = of_nat (lowest ?xs)"
    proof (atomize (full), cases "?h < 15")
      case True
      then have less: "lowest ?xs < cap ?h" using False lowest_le [of ?xs] len by simp
      then have "length (taken (cells ?h (pg_root p))) < cap ?h"
        using lowest_less_iff [of ?xs] len by (simp add: pages_cells_def)
      from vacant_lowest [OF True ok(2) _ this, of 0] less cap_15(2) [OF True]
      show "lowest ?xs < 2 ^ 64 \<and> vacant ?h (pg_root p) 0 = of_nat (lowest ?xs)"
        by (simp add: pages_cells_def)
    next
      case False
      then have h: "?h = 15" using ok by simp
      have "?xs ! (2 ^ 64 - 1) = None"
      proof -
        have "0 < length (drop (2 ^ 64 - 1) ?xs)" using len h cap_15(1) by simp
        then have "drop (2 ^ 64 - 1) ?xs ! 0 = None"
          using assms unfolding pages_ok_def pages_cells_def list_all_length by blast
        then show ?thesis using len h cap_15(1) by simp
      qed
      then have "lowest ?xs \<le> 2 ^ 64 - 1" using lowest_below [of "2 ^ 64 - 1" ?xs] not_le_imp_less by blast
      then have "lowest ?xs < 2 ^ 64" by simp
      then show "lowest ?xs < 2 ^ 64 \<and> vacant ?h (pg_root p) 0 = of_nat (lowest ?xs)"
        using vacant_top [of "pg_root p"] ok(2) by (simp add: h pages_cells_def)
    qed
    have "unat (of_nat (lowest ?xs) :: u64) = lowest ?xs" using low(1) by (simp add: unat_of_nat)
    moreover have "unat (- 1 :: u64) = 2 ^ 64 - 1"
      by (simp add: unsigned_minus_1_eq_mask mask_eq_exp_minus_1)
    ultimately have "of_nat (lowest ?xs) = (- 1 :: u64) \<longleftrightarrow> lowest ?xs = 2 ^ 64 - 1"
      by (metis word_unat_eq_iff)
    then show ?thesis using False full low by (auto simp: page_next_def Let_def)
  qed
qed

end
