(* ===== verification/Pages_Index.thy ===== *)
theory Pages_Index
  imports Pages_Cells
begin

text \<open>
  Correctness of the page index: every operation acts on the cells as on a slot map, a view is read in
  slot order and paged exactly, and the interface \<open>slot_index\<close> the store relies on is interpreted on
  the index.
\<close>

declare node_ok.simps [simp del] cells.simps [simp del]

lemma node_ok_Branch: "node_ok (Suc l) (Some (Branch u cs)) \<longleftrightarrow>
    length cs = 16 \<and> (\<forall>c\<in>set cs. node_ok l c) \<and> unat u = length (taken (concat (map (cells l) cs)))"
  by (simp add: node_ok.simps list_all_iff)

lemma node_ok_Leaf: "node_ok 0 (Some (Leaf u occ rows)) \<longleftrightarrow>
    length rows = 64 \<and> unat u = length (taken rows) \<and> (\<forall>i<64. bit occ i = (rows ! i \<noteq> None))"
  by (auto simp add: node_ok.simps list_all_iff)

lemma cells_Branch: "cells (Suc l) (Some (Branch u cs)) = concat (map (cells l) cs)"
  by (simp add: cells.simps)

lemma cells_Leaf: "cells 0 (Some (Leaf u occ rows)) = rows"
  by (simp add: cells.simps)

subsection \<open>Growing and preparing\<close>

lemma grow_root:
  assumes "node_ok h n"
  shows "cells (Suc h) (Some (Branch (link_used n) (n # replicate 15 None))) = cells h n @ replicate (15 * cap h) None"
    "node_ok (Suc h) (Some (Branch (link_used n) (n # replicate 15 None)))"
proof -
  have rep: "concat (replicate k (replicate c None)) = replicate (k * c) (None :: ('a \<times> 'b) option)" for k c
    by (induction k) (simp_all add: replicate_add)
  show c: "cells (Suc h) (Some (Branch (link_used n) (n # replicate 15 None))) = cells h n @ replicate (15 * cap h) None"
    by (simp add: cells_Branch rep)
  show "node_ok (Suc h) (Some (Branch (link_used n) (n # replicate 15 None)))"
    using assms by (simp add: node_ok_Branch unat_link_used [OF assms] rep)
qed

text \<open>Two indexes with the same entries: their cells differ by vacant slots at the end.\<close>

definition same_entries :: "('k, 'r) pages \<Rightarrow> ('k, 'r) pages \<Rightarrow> bool" where
  "same_entries p q \<longleftrightarrow> (\<forall>slot. page_find p slot = page_find q slot)
     \<and> taken (pages_cells p) = taken (pages_cells q)"

lemma same_entries_refl [simp]: "same_entries p p"
  by (simp add: same_entries_def)

lemma same_entries_sym: "same_entries p q \<Longrightarrow> same_entries q p"
  by (simp add: same_entries_def)

lemma same_entries_trans: "same_entries p q \<Longrightarrow> same_entries q r \<Longrightarrow> same_entries p r"
  by (simp add: same_entries_def)

lemma pages_okD:
  assumes "pages_ok p"
  shows "pg_height p \<le> 15" "node_ok (pg_height p) (pg_root p)" "length (pages_cells p) = cap (pg_height p)"
  using assms by (simp_all add: pages_ok_def pages_cells_def)

lemma pages_ok_iff: "pages_ok p \<longleftrightarrow> pg_height p \<le> 15 \<and> node_ok (pg_height p) (pg_root p)
    \<and> (\<forall>i. 2 ^ 64 - 1 \<le> i \<longrightarrow> i < cap (pg_height p) \<longrightarrow> pages_cells p ! i = None)"
proof -
  have drop_all: "list_all P (drop n xs) \<longleftrightarrow> (\<forall>i. n \<le> i \<longrightarrow> i < length xs \<longrightarrow> P (xs ! i))" for P n and xs :: "'c list"
  proof (cases "n \<le> length xs")
    case True
    then show ?thesis
      unfolding list_all_length by (auto simp: le_iff_add less_diff_conv add.commute)
  qed auto
  show ?thesis
    unfolding pages_ok_def drop_all pages_cells_def by auto
qed

lemma pages_padded:
  assumes "pages_ok p" "node_ok (pg_height q) (pg_root q)" "pg_height q \<le> 15"
    "pages_cells q = pages_cells p @ replicate k None \<or> pages_cells p = pages_cells q @ replicate k None"
  shows "pages_ok q \<and> same_entries p q"
proof -
  note p = pages_okD [OF assms(1)]
  have q: "length (pages_cells q) = cap (pg_height q)" using assms(2) by (simp add: pages_cells_def)
  have high: "\<forall>i. 2 ^ 64 - 1 \<le> i \<longrightarrow> i < cap (pg_height p) \<longrightarrow> pages_cells p ! i = None"
    using assms(1) by (simp add: pages_ok_iff)
  have nth: "(if i < cap (pg_height q) then pages_cells q ! i else None)
    = (if i < cap (pg_height p) then pages_cells p ! i else None)" for i
    using assms(4) p(3) q
  proof (elim disjE)
    assume "pages_cells q = pages_cells p @ replicate k None"
    then show ?thesis using p(3) q by (auto simp: nth_append)
  next
    assume "pages_cells p = pages_cells q @ replicate k None"
    then show ?thesis using p(3) q by (auto simp: nth_append)
  qed
  have "pages_ok q"
    unfolding pages_ok_iff using assms(2,3) high nth by metis
  moreover have "same_entries p q"
    using assms(4) page_find_cells [OF p(2,1)] page_find_cells [OF assms(2,3)] nth
    by (auto simp: same_entries_def)
  ultimately show ?thesis by simp
qed

lemma grow_ok:
  "pages_ok p \<Longrightarrow> grow ok slot p = (b, q) \<Longrightarrow>
     pages_ok q \<and> same_entries p q \<and> (b \<longrightarrow> \<not> beyond (pg_height q) slot)"
proof (induction ok slot p arbitrary: b q rule: grow.induct)
  case (1 ok slot p)
  let ?p = "\<lparr>pg_root = Some (Branch (link_used (pg_root p)) (pg_root p # replicate 15 None)), pg_height = pg_height p + 1\<rparr>"
  show ?case
  proof (cases "beyond (pg_height p) slot \<and> ok (pg_height p)")
    case True
    note p = pages_okD [OF "1.prems"(1)]
    have "pages_ok ?p \<and> same_entries p ?p"
      by (rule pages_padded [OF "1.prems"(1), where k = "15 * cap (pg_height p)"])
        (use True p grow_root [OF p(2)] in \<open>simp_all add: beyond_def pages_cells_def\<close>)
    moreover have "grow ok slot ?p = (b, q)"
      using "1.prems"(2) True by (simp add: grow.simps [of ok slot p])
    ultimately show ?thesis using "1.IH" [of b q] True same_entries_trans by blast
  next
    case False
    then show ?thesis using "1.prems" by (auto simp: grow.simps [of ok slot p] split: if_splits)
  qed
qed

lemma privatise_ok:
  "node_ok l n \<Longrightarrow> privatise ok l slot n = (b, m) \<Longrightarrow>
     node_ok l m \<and> cells l m = cells l n \<and> (b \<longrightarrow> descend l m slot \<noteq> None)"
proof (induction l arbitrary: n b m)
  case 0
  then show ?case
    by (auto simp: private_page_def node_ok_Leaf cells_Leaf split: if_splits option.splits)
next
  case (Suc l)
  show ?case
  proof (cases "ok (Suc l)")
    case True
    have fresh: "node_ok (Suc l) (Some (Branch 0 (replicate 16 None)))"
      "cells (Suc l) (Some (Branch 0 (replicate 16 None))) = cells (Suc l) None"
      using grow_root [of l None] by (simp_all add: link_used_def flip: replicate_Suc replicate_add cap_Suc)
    obtain u cs where page: "private_page (Branch 0 (replicate 16 None)) n = Branch u cs"
      "node_ok (Suc l) (Some (Branch u cs))" "cells (Suc l) (Some (Branch u cs)) = cells (Suc l) n"
    proof (cases n)
      case None
      then show thesis using that fresh by (simp add: private_page_def)
    next
      case (Some x)
      then obtain u cs where "x = Branch u cs" using Suc.prems(1) by (auto elim: node_ok_SucE)
      then show thesis using that Suc.prems(1) Some by (simp add: private_page_def)
    qed
    let ?i = "branch slot (Suc l)"
    have cs: "length cs = 16" "\<forall>c\<in>set cs. node_ok l c" using page(2) by (simp_all add: node_ok_Branch)
    obtain c where c: "privatise ok l slot (cs ! ?i) = (b, c)" "m = Some (Branch u (cs[?i := c]))"
      using Suc.prems(2) True page(1) by (auto simp: Let_def split: prod.splits)
    have IH: "node_ok l c" "cells l c = cells l (cs ! ?i)" "b \<longrightarrow> descend l c slot \<noteq> None"
      using Suc.IH [OF _ c(1)] cs by simp_all
    have same: "map (cells l) (cs[?i := c]) = map (cells l) cs"
      using IH(2) cs(1) by (simp add: map_update) (metis branch_less length_map list_update_id nth_map)
    have "\<forall>d\<in>set (cs[?i := c]). node_ok l d"
      using cs IH(1) by (auto dest!: set_update_subset_insert [THEN subsetD])
    then show ?thesis
      using page IH(3) cs(1) by (simp add: c(2) node_ok_Branch cells_Branch same)
  qed (use Suc.prems in simp)
qed

definition page_ready :: "('k, 'r) pages \<Rightarrow> u64 \<Rightarrow> bool" where
  "page_ready p slot \<longleftrightarrow> \<not> beyond (pg_height p) slot \<and> descend (pg_height p) (pg_root p) slot \<noteq> None"

lemma page_prepare_ok:
  assumes "pages_ok p" "page_prepare rs ps slot p = (b, q)"
  shows "pages_ok q" "same_entries p q" "b \<Longrightarrow> page_ready q slot"
proof -
  obtain g p1 where g: "grow rs slot p = (g, p1)" by fastforce
  note p1 = grow_ok [OF assms(1) g]
  have "pages_ok q \<and> same_entries p q \<and> (b \<longrightarrow> page_ready q slot)"
  proof (cases g)
    case True
    obtain d root where d: "privatise ps (pg_height p1) slot (pg_root p1) = (d, root)" by fastforce
    have q: "b = d" "q = p1\<lparr>pg_root := root\<rparr>" using assms(2) g d True by (simp_all add: page_prepare_def)
    note r = privatise_ok [OF pages_okD(2) [OF p1 [THEN conjunct1]] d]
    have "pages_ok q \<and> same_entries p1 q"
      by (rule pages_padded [where k = 0])
        (use p1 r pages_okD(1) [of p1] in \<open>simp_all add: q pages_cells_def\<close>)
    then show ?thesis using p1 r True same_entries_trans by (fastforce simp: page_ready_def q)
  next
    case False
    then show ?thesis using assms(2) g p1 by (simp add: page_prepare_def)
  qed
  then show "pages_ok q" "same_entries p q" "b \<Longrightarrow> page_ready q slot" by simp_all
qed

lemma page_prepare_succeeds:
  assumes "pages_ok p" "\<forall>l. rs l" "\<forall>l. ps l"
  shows "fst (page_prepare rs ps slot p)"
proof -
  have g: "fst (grow rs slot p)" for p :: "('k, 'r) pages"
    using assms(2) by (induction rs slot p rule: grow.induct) (simp add: grow.simps)
  have v: "fst (privatise ps l slot n)" if "node_ok l n" for l and n :: "('a, 'b) node option"
    using that
  proof (induction l arbitrary: n)
    case (Suc l)
    show ?case
    proof (cases n)
      case None
      then show ?thesis
        using Suc.IH [of None] assms(3) [rule_format, of "Suc l"] by (simp add: private_page_def Let_def case_prod_unfold)
    next
      case (Some x)
      then obtain u cs where x: "x = Branch u cs" "length cs = 16" "\<forall>c\<in>set cs. node_ok l c"
        using Suc.prems(1) by (auto elim: node_ok_SucE)
      have "fst (privatise ps l slot (cs ! branch slot (Suc l)))" using Suc.IH x by simp
      then show ?thesis
        using assms(3) [rule_format, of "Suc l"] by (simp add: private_page_def Some x Let_def case_prod_unfold)
    qed
  qed (use assms(3) in simp)
  obtain b p1 where p1: "grow rs slot p = (b, p1)" by fastforce
  have "node_ok (pg_height p1) (pg_root p1)" using grow_ok [OF assms(1) p1] pages_okD(2) by blast
  from v [OF this] p1 g [of p] show ?thesis by (simp add: page_prepare_def Let_def case_prod_unfold)
qed

subsection \<open>Setting\<close>

lemma branch_cells_update:
  assumes "length cs = 16" "\<forall>c\<in>set cs. node_ok l c"
    "cells l c = (cells l (cs ! branch slot (Suc l)))[unat slot mod cap l := v]"
  shows "concat (map (cells l) (cs[branch slot (Suc l) := c]))
    = (concat (map (cells l) cs))[unat slot mod cap (Suc l) := v]"
proof -
  have u: "\<forall>xs\<in>set (map (cells l) cs). length xs = cap l" using assms(2) by auto
  have "unat slot mod cap (Suc l) < length (map (cells l) cs) * cap l"
    using assms(1) by (simp add: cap_Suc)
  from concat_update [OF u this, of v] show ?thesis
    using assms(1,3) by (simp add: mod_cap_div map_update)
qed

lemma set_occupied:
  "k < 64 \<Longrightarrow> i < 64 \<Longrightarrow> bit (occ OR (2 ^ k :: u64)) i = (bit occ i \<or> i = k)"
  "k < 64 \<Longrightarrow> i < 64 \<Longrightarrow> bit (occ AND NOT ((2 ^ k :: u64))) i = (bit occ i \<and> i \<noteq> k)"
  by (auto simp: bit_or_iff bit_and_iff bit_not_iff bit_exp_iff)

lemma unat_plus_one: "unat u < 2 ^ 64 - 1 \<Longrightarrow> unat (u + 1 :: u64) = unat u + 1"
  by (simp add: unat_succ)

text \<open>The source asserts that a key is passed exactly when the row is free.\<close>

lemma node_set_ok:
  "node_ok l n \<Longrightarrow> descend l n slot \<noteq> None \<Longrightarrow> (key \<noteq> None) = (cells l n ! (unat slot mod cap l) = None) \<Longrightarrow>
   length (taken (cells l n)) < 2 ^ 64 - 1 \<or> key = None \<Longrightarrow>
   node_ok l (node_set l slot key rec n) \<and>
   cells l (node_set l slot key rec n)
     = (cells l n)[unat slot mod cap l := set_row key rec (cells l n ! (unat slot mod cap l))]"
proof (induction l arbitrary: n)
  case 0
  then obtain m where m: "n = Some m" by auto
  with "0.prems"(1) obtain u occ rows where l: "m = Leaf u occ rows" "length rows = 64"
    "unat u = length (taken rows)" "\<And>i. i < 64 \<Longrightarrow> bit occ i = (rows ! i \<noteq> None)"
    by (auto elim: node_ok_0E)
  let ?i = "leaf_row slot"
  have i: "?i < length rows" "unat slot mod 64 = ?i" using l(2) by (simp_all add: unat_leaf_row)
  show ?case
  proof (cases key)
    case None
    then have "rows ! ?i \<noteq> None" using "0.prems"(3) by (simp add: m l cells_Leaf i)
    then obtain k r where row: "rows ! ?i = Some (k, r)" by auto
    show ?thesis using l i row taken_overwrite [OF i(1), of "(k, rec)"]
      by (auto simp: m None node_ok_Leaf cells_Leaf set_row_def nth_list_update)
  next
    case (Some k)
    then have row: "rows ! ?i = None" using "0.prems"(3) by (simp add: m l cells_Leaf i)
    have "unat (u + 1) = Suc (unat u)" using "0.prems"(4) Some by (simp add: m l cells_Leaf unat_plus_one)
    then show ?thesis using l i row taken_insert [OF i(1) row, of "(k, rec)"]
      by (auto simp: m Some node_ok_Leaf cells_Leaf set_row_def Let_def nth_list_update set_occupied)
  qed
next
  case (Suc l)
  then obtain m where m: "n = Some m" by (cases n) auto
  with Suc.prems(1) obtain u cs where b: "m = Branch u cs" "length cs = 16" "\<forall>c\<in>set cs. node_ok l c"
    "unat u = length (taken (concat (map (cells l) cs)))"
    by (auto elim: node_ok_SucE)
  let ?i = "branch slot (Suc l)"
  let ?j = "unat slot mod cap (Suc l)"
  let ?v = "set_row key rec (cells l (cs ! ?i) ! (unat slot mod cap l))"
  have nth: "concat (map (cells l) cs) ! ?j = cells l (cs ! ?i) ! (unat slot mod cap l)"
    using branch_cells_nth [OF b(2,3), of ?j] by (simp add: mod_cap_div)
  have le: "length (taken (cells l (cs ! ?i))) \<le> length (taken (concat (map (cells l) cs)))"
    using b(2) by (subst (2) id_take_nth_drop [of ?i cs]) simp_all
  have IH: "node_ok l (node_set l slot key rec (cs ! ?i))"
    "cells l (node_set l slot key rec (cs ! ?i)) = (cells l (cs ! ?i))[unat slot mod cap l := ?v]"
    using Suc.IH [of "cs ! ?i"] Suc.prems(2-4) b(2,3) nth le by (auto simp: m b(1) cells_Branch)
  note upd = branch_cells_update [OF b(2,3) IH(2)]
  have j: "?j < length (concat (map (cells l) cs))"
    using length_cells [OF Suc.prems(1)] by (simp add: m b(1) cells_Branch)
  have count: "unat (u + of_bool (key \<noteq> None)) = length (taken ((concat (map (cells l) cs))[?j := ?v]))"
  proof (cases key)
    case None
    then obtain k r where "cells l (cs ! ?i) ! (unat slot mod cap l) = Some (k, r)"
      using Suc.prems(3) nth by (auto simp: m b(1) cells_Branch)
    then show ?thesis using taken_overwrite [OF j, of "(k, rec)"] nth b(4) None by (simp add: set_row_def)
  next
    case (Some k)
    then have "concat (map (cells l) cs) ! ?j = None" using Suc.prems(3) by (simp add: m b(1) cells_Branch)
    from taken_insert [OF j this, of "(k, rec)"] show ?thesis
      using Suc.prems(4) Some b(4) by (simp add: m b(1) cells_Branch set_row_def unat_plus_one)
  qed
  have "\<forall>d\<in>set (cs[?i := node_set l slot key rec (cs ! ?i)]). node_ok l d"
    using b(3) IH(1) by (auto dest!: set_update_subset_insert [THEN subsetD])
  then show ?case
    using b(2) count nth by (simp add: m b(1) Let_def node_ok_Branch cells_Branch upd del: of_bool_eq_iff split del: split_of_bool)
qed


subsection \<open>Removing\<close>

lemma release_ok: "node_ok l (Some n) \<Longrightarrow> node_ok l (release n) \<and> cells l (release n) = cells l (Some n)"
proof (cases "used n = 0")
  case True
  assume ok: "node_ok l (Some n)"
  then have "taken (cells l (Some n)) = []" using unat_link_used [OF ok] True by (simp add: link_used_def)
  then have "\<forall>x\<in>set (cells l (Some n)). x = None" by (simp only: taken_empty_iff)
  then have "cells l (Some n) = replicate (cap l) None"
    using length_cells [OF ok] by (intro replicate_eqI) auto
  then show ?thesis using True by (simp add: release_def)
qed (simp add: release_def)

lemma node_remove_ok:
  "node_ok l n \<Longrightarrow> cells l n ! (unat slot mod cap l) \<noteq> None \<Longrightarrow>
   node_ok l (node_remove l slot n) \<and>
   cells l (node_remove l slot n) = (cells l n)[unat slot mod cap l := None]"
proof (induction l arbitrary: n)
  case 0
  then obtain m where m: "n = Some m" by (cases n) auto
  with "0.prems"(1) obtain u occ rows where l: "m = Leaf u occ rows" "length rows = 64"
    "unat u = length (taken rows)" "\<And>i. i < 64 \<Longrightarrow> bit occ i = (rows ! i \<noteq> None)"
    by (auto elim: node_ok_0E)
  let ?i = "leaf_row slot"
  have i: "?i < length rows" "unat slot mod 64 = ?i" using l(2) by (simp_all add: unat_leaf_row)
  have row: "rows ! ?i \<noteq> None" using "0.prems"(2) by (simp add: m l cells_Leaf i)
  note td = taken_delete [OF i(1) row]
  then have "u \<noteq> 0" using l(3) by auto
  then have "unat (u - 1) = length (taken (rows[?i := None]))" using td l(3) by (simp add: unat_minus_one)
  then have "node_ok 0 (Some (Leaf (u - 1) (occ AND NOT (2 ^ ?i)) (rows[?i := None])))"
    using l i by (simp add: node_ok_Leaf nth_list_update set_occupied)
  from release_ok [OF this] show ?case by (simp add: m l Let_def cells_Leaf i)
next
  case (Suc l)
  then obtain m where m: "n = Some m" by (cases n) auto
  with Suc.prems(1) obtain u cs where b: "m = Branch u cs" "length cs = 16" "\<forall>c\<in>set cs. node_ok l c"
    "unat u = length (taken (concat (map (cells l) cs)))"
    by (auto elim: node_ok_SucE)
  let ?i = "branch slot (Suc l)"
  let ?j = "unat slot mod cap (Suc l)"
  have nth: "concat (map (cells l) cs) ! ?j = cells l (cs ! ?i) ! (unat slot mod cap l)"
    using branch_cells_nth [OF b(2,3), of ?j] by (simp add: mod_cap_div)
  have IH: "node_ok l (node_remove l slot (cs ! ?i))"
    "cells l (node_remove l slot (cs ! ?i)) = (cells l (cs ! ?i))[unat slot mod cap l := None]"
    using Suc.IH [of "cs ! ?i"] Suc.prems(2) b(2,3) nth by (simp_all add: m b(1) cells_Branch)
  note upd = branch_cells_update [OF b(2,3) IH(2)]
  have j: "?j < length (concat (map (cells l) cs))"
    using length_cells [OF Suc.prems(1)] by (simp add: m b(1) cells_Branch)
  have "concat (map (cells l) cs) ! ?j \<noteq> None" using Suc.prems(2) by (simp add: m b(1) cells_Branch)
  note td = taken_delete [OF j this]
  then have "u \<noteq> 0" using b(4) by auto
  then have count: "unat (u - 1) = length (taken ((concat (map (cells l) cs))[?j := None]))"
    using td b(4) by (simp add: unat_minus_one)
  have "\<forall>d\<in>set (cs[?i := node_remove l slot (cs ! ?i)]). node_ok l d"
    using b(3) IH(1) by (auto dest!: set_update_subset_insert [THEN subsetD])
  then have "node_ok (Suc l) (Some (Branch (u - 1) (cs[?i := node_remove l slot (cs ! ?i)])))"
    using b(2) count by (simp add: node_ok_Branch upd)
  from release_ok [OF this] show ?case by (simp add: m b(1) Let_def cells_Branch upd)
qed

lemma shrink_ok:
  "node_ok h n \<Longrightarrow> node_ok (pg_height (shrink h n)) (pg_root (shrink h n)) \<and> pg_height (shrink h n) \<le> h
     \<and> (\<exists>k. cells h n = pages_cells (shrink h n) @ replicate k None)"
proof (induction h arbitrary: n)
  case 0
  then show ?case by (auto simp: pages_cells_def intro: exI [of _ 0])
next
  case (Suc h)
  have stay: ?case if "shrink (Suc h) n = \<lparr>pg_root = n, pg_height = Suc h\<rparr>"
    using Suc.prems that by (auto simp: pages_cells_def intro: exI [of _ 0])
  show ?case
  proof (cases n)
    case None
    then show ?thesis by (intro stay) simp
  next
    case (Some m)
    with Suc.prems obtain u cs where b: "m = Branch u cs" "length cs = 16" "\<forall>c\<in>set cs. node_ok h c"
      by (auto elim: node_ok_SucE)
    show ?thesis
    proof (cases "cs ! 0 = None \<or> link_used (cs ! 0) \<noteq> u \<or> list_ex (\<lambda>c. c \<noteq> None) (drop 1 cs)")
      case True
      then show ?thesis by (intro stay) (simp add: Some b(1))
    next
      case False
      then have rest: "drop 1 cs = replicate 15 None"
        using b(2) by (intro replicate_eqI) (auto simp: list_ex_iff)
      then have cs: "cs = cs ! 0 # replicate 15 None"
        using b(2) by (cases cs) simp_all
      have ok: "node_ok h (cs ! 0)" using b by simp
      have "cells (Suc h) n = cells h (cs ! 0) @ replicate (15 * cap h) None"
        using grow_root(1) [OF ok] by (subst (asm) cs [symmetric]) (simp add: Some b(1) cells_Branch)
      moreover have "shrink (Suc h) n = shrink h (cs ! 0)" using False by (auto simp: Some b(1))
      moreover note Suc.IH [OF ok]
      ultimately show ?thesis by (auto simp flip: replicate_add)
    qed
  qed
qed

subsection \<open>The operations on the index\<close>

lemma pages_cells_nth: "pages_ok p \<Longrightarrow> \<not> beyond (pg_height p) slot \<Longrightarrow> pages_cells p ! unat slot = page_find p slot"
  using page_find_cells [of p slot] pages_okD [of p] not_beyond_less [of "pg_height p" slot] by simp

lemma unat_less_max: "slot \<noteq> - 1 \<longleftrightarrow> unat (slot :: u64) < 2 ^ 64 - 1"
proof -
  have m: "unat (- 1 :: u64) = 2 ^ 64 - 1" by (simp add: unsigned_minus_1_eq_mask mask_eq_exp_minus_1)
  then have "slot \<noteq> - 1 \<longleftrightarrow> unat slot \<noteq> 2 ^ 64 - 1" by (metis word_unat_eq_iff)
  then show ?thesis using unat_less64 [of slot] by linarith
qed

lemma pages_taken_less:
  assumes "pages_ok p" "page_find p slot = None" "slot \<noteq> - 1"
  shows "length (taken (pages_cells p)) < 2 ^ 64 - 1"
proof -
  note p = pages_okD [OF assms(1)]
  let ?xs = "pages_cells p"
  have high: "taken (drop (2 ^ 64 - 1) ?xs) = []"
    using assms(1) unfolding pages_ok_def taken_empty_iff pages_cells_def list_all_iff by blast
  have split: "taken ?xs = taken (take (2 ^ 64 - 1) ?xs)"
    using taken_append [of "take (2 ^ 64 - 1) ?xs" "drop (2 ^ 64 - 1) ?xs"] high
    unfolding append_take_drop_id by (simp only: append_Nil2)
  have s: "unat slot < 2 ^ 64 - 1" using assms(3) by (simp only: unat_less_max)
  show ?thesis
  proof (cases "cap (pg_height p) < 2 ^ 64 - 1")
    case True
    then show ?thesis using taken_le [of ?xs] p(3) by linarith
  next
    case False
    let ?ys = "take (2 ^ 64 - 1) ?xs"
    have len: "length ?ys = 2 ^ 64 - 1" using False p(3) by simp
    have "?ys ! unat slot = None"
      using assms(2) page_find_cells [OF p(2,1), of slot] s False by simp
    then have "length (taken ?ys) < length ?ys" using s len by (intro taken_less [of "unat slot"]) simp_all
    then show ?thesis using len unfolding split by linarith
  qed
qed

lemma page_set_ok:
  assumes "pages_ok p" "page_ready p slot" "slot \<noteq> - 1" "(key \<noteq> None) = (page_find p slot = None)"
  shows "pages_ok (page_set slot key rec p)"
    "page_find (page_set slot key rec p) = (page_find p)(slot := set_row key rec (page_find p slot))"
    "pages_cells (page_set slot key rec p) = (pages_cells p)[unat slot := set_row key rec (page_find p slot)]"
proof -
  note p = pages_okD [OF assms(1)]
  have nb: "\<not> beyond (pg_height p) slot" and d: "descend (pg_height p) (pg_root p) slot \<noteq> None"
    using assms(2) by (simp_all add: page_ready_def)
  have s: "unat slot < cap (pg_height p)" using not_beyond_less [OF p(1) nb] .
  have nth: "pages_cells p ! unat slot = page_find p slot" by (rule pages_cells_nth [OF assms(1) nb])
  have set: "node_ok (pg_height p) (node_set (pg_height p) slot key rec (pg_root p))"
    "pages_cells (page_set slot key rec p) = (pages_cells p)[unat slot := set_row key rec (page_find p slot)]"
    using node_set_ok [OF p(2) d, of key rec] assms(4) pages_taken_less [OF assms(1) _ assms(3)] s nth
    by (auto simp: pages_cells_def page_set_def)
  show "pages_cells (page_set slot key rec p) = (pages_cells p)[unat slot := set_row key rec (page_find p slot)]"
    by (rule set(2))
  have s1: "unat slot \<noteq> i" if "2 ^ 64 - 1 \<le> i" for i
    using assms(3) that unfolding unat_less_max by linarith
  have h: "pg_height (page_set slot key rec p) = pg_height p" by (simp add: page_set_def)
  show ok: "pages_ok (page_set slot key rec p)"
    unfolding pages_ok_iff set(2) h using p set(1) s1 assms(1) [unfolded pages_ok_iff]
    by (simp add: page_set_def)
  show "page_find (page_set slot key rec p) = (page_find p)(slot := set_row key rec (page_find p slot))"
  proof (rule ext)
    fix t
    show "page_find (page_set slot key rec p) t = ((page_find p)(slot := set_row key rec (page_find p slot))) t"
      using page_find_cells [OF p(2,1), of t] page_find_cells [OF pages_okD(2,1) [OF ok], of t] s
      by (auto simp: set(2) h p(3) nth_list_update word_unat_eq_iff)
  qed
qed

lemma page_erase_ok:
  assumes "pages_ok p" "page_find p slot \<noteq> None"
  shows "pages_ok (page_erase slot p)"
    "page_find (page_erase slot p) = (page_find p)(slot := None)"
    "taken (pages_cells (page_erase slot p)) = taken ((pages_cells p)[unat slot := None])"
proof -
  note p = pages_okD [OF assms(1)]
  let ?h = "pg_height p"
  let ?r = "node_remove ?h slot (pg_root p)"
  have s: "unat slot < cap ?h" using assms(2) page_find_cells [OF p(2,1), of slot] by (auto split: if_splits)
  have nth: "cells ?h (pg_root p) ! (unat slot mod cap ?h) \<noteq> None"
    using assms(2) page_find_cells [OF p(2,1), of slot] s by (simp add: pages_cells_def)
  note r = node_remove_ok [OF p(2) nth]
  let ?q = "\<lparr>pg_root = ?r, pg_height = ?h\<rparr>"
  have cq: "pages_cells ?q = (pages_cells p)[unat slot := None]"
    using r s by (simp add: pages_cells_def)
  have "pages_cells ?q ! i = None" if "2 ^ 64 - 1 \<le> i" "i < cap ?h" for i
    using assms(1) [unfolded pages_ok_iff] that p(3) s unfolding cq by (cases "i = unat slot") auto
  then have okq: "pages_ok ?q"
    unfolding pages_ok_iff using p r by simp
  have findq: "page_find ?q = (page_find p)(slot := None)"
  proof (rule ext)
    fix t
    show "page_find ?q t = ((page_find p)(slot := None)) t"
      using page_find_cells [OF p(2,1), of t] page_find_cells [OF pages_okD(2,1) [OF okq], of t] s
      by (auto simp: cq p(3) nth_list_update word_unat_eq_iff)
  qed
  have e: "pages_ok (page_erase slot p) \<and> same_entries ?q (page_erase slot p)"
  proof (cases "?r = None")
    case True
    obtain k where "cap ?h = 64 + k"
      using power_increasing [of 6 "6 + 4 * ?h" "2::nat"] by (auto simp: cap_def le_iff_add)
    then show ?thesis
      by (intro pages_padded [OF okq, where k = k])
        (simp_all add: page_erase_def True pages_cells_def replicate_add)
  next
    case False
    obtain k where k: "pages_cells ?q = pages_cells (shrink ?h ?r) @ replicate k None"
      using shrink_ok [of ?h ?r] r by (auto simp: pages_cells_def)
    have "page_erase slot p = shrink ?h ?r" using False by (simp only: page_erase_def Let_def if_False)
    then show ?thesis
      using pages_padded [OF okq, of "shrink ?h ?r" k] shrink_ok [of ?h ?r] r p(1) k by simp
  qed
  then show "pages_ok (page_erase slot p)" by simp
  show "page_find (page_erase slot p) = (page_find p)(slot := None)"
    using e findq by (auto simp: same_entries_def)
  show "taken (pages_cells (page_erase slot p)) = taken ((pages_cells p)[unat slot := None])"
    using e cq by (simp add: same_entries_def)
qed

lemma page_new_ok: "pages_ok pages_new" "page_find pages_new slot = None"
proof -
  show "pages_ok (pages_new :: ('a, 'b) pages)"
    by (auto simp: pages_ok_iff pages_new_def pages_cells_def)
  show "page_find pages_new slot = None"
    by (simp add: page_find_def pages_new_def)
qed

lemma page_next_vacant:
  assumes "pages_ok p"
  shows "page_next p = Inr slot \<Longrightarrow> slot \<noteq> - 1 \<and> page_find p slot = None \<and> (\<forall>t < slot. page_find p t \<noteq> None)
      \<and> unat slot \<le> length (taken (pages_cells p))"
    "page_next p = Inl e \<Longrightarrow> e = Slots_exhausted \<and> (\<forall>t. t \<noteq> - 1 \<longrightarrow> page_find p t \<noteq> None)"
proof -
  note p = pages_okD [OF assms]
  let ?j = "lowest (pages_cells p)"
  have jlen: "?j \<le> cap (pg_height p)" using lowest_le [of "pages_cells p"] p(3) by simp
  have j64: "?j \<le> 2 ^ 64 - 1"
  proof (rule ccontr)
    assume a: "\<not> ?j \<le> 2 ^ 64 - 1"
    then have "pages_cells p ! (2 ^ 64 - 1) \<noteq> None" by (intro lowest_below) simp
    moreover have "2 ^ 64 - 1 < cap (pg_height p)" using a jlen by linarith
    ultimately show False
      using pages_ok_iff [THEN iffD1, OF assms, THEN conjunct2, THEN conjunct2, rule_format, of "2 ^ 64 - 1"]
      by (metis order_refl)
  qed
  have below: "page_find p t \<noteq> None" if "unat t < ?j" for t
  proof -
    have "unat t < cap (pg_height p)" using that jlen by linarith
    then have "page_find p t = pages_cells p ! unat t" using page_find_cells [OF p(2,1), of t] by simp
    then show ?thesis using lowest_below [OF that] by simp
  qed
  show "slot \<noteq> - 1 \<and> page_find p slot = None \<and> (\<forall>t < slot. page_find p t \<noteq> None)
      \<and> unat slot \<le> length (taken (pages_cells p))" if "page_next p = Inr slot"
  proof -
    have j: "?j \<noteq> 2 ^ 64 - 1" "slot = of_nat ?j"
      using that page_next_lowest [OF assms] by (auto simp: Let_def split: if_splits)
    then have u: "unat slot = ?j" using j64 by (simp add: unat_of_nat)
    have "page_find p slot = None"
      using page_find_cells [OF p(2,1), of slot] lowest_nth [of "pages_cells p"] p(3) by (simp add: u)
    moreover have "slot \<noteq> - 1" unfolding unat_less_max u using j j64 by linarith
    ultimately show ?thesis
      using below u lowest_le_taken [of "pages_cells p"] by (auto simp: word_less_nat_alt)
  qed
  show "e = Slots_exhausted \<and> (\<forall>t. t \<noteq> - 1 \<longrightarrow> page_find p t \<noteq> None)" if "page_next p = Inl e"
  proof -
    have j: "?j = 2 ^ 64 - 1" "e = Slots_exhausted"
      using that page_next_lowest [OF assms] by (auto simp: Let_def split: if_splits)
    have "unat t < ?j" if "t \<noteq> - 1" for t :: u64
      using unat_less_max [THEN iffD1, OF that] unfolding j(1) .
    then show ?thesis using below j by blast
  qed
qed

subsection \<open>Reading\<close>

lemma each_of_append:
  "each_of f (xs @ ys) u = (case each_of f xs u of None \<Rightarrow> None | Some u' \<Rightarrow> each_of f ys u')"
  by (induction xs arbitrary: u) (auto split: option.splits)

lemma each_of_concat:
  "(\<And>x u. x \<in> set xs \<Longrightarrow> g u x = each_of f (h x) u) \<Longrightarrow> each_of g xs u = each_of f (concat (map h xs)) u"
  by (induction xs arbitrary: u) (auto simp: each_of_append split: option.splits)

lemma each_of_taken: "each_of (read_row reader) xs u = each_of (\<lambda>u (k, r). reader u k r) (taken xs) u"
  by (induction xs arbitrary: u) (auto simp: read_row_def split: option.splits)

lemma visit_taken:
  "node_ok l n \<Longrightarrow> visit l reader u n = each_of (\<lambda>u (k, r). reader u k r) (taken (cells l n)) u"
proof (induction l arbitrary: n u)
  case 0
  show ?case
  proof (cases n)
    case (Some m)
    with 0 obtain c occ rows where l: "m = Leaf c occ rows" "unat c = length (taken rows)"
      by (auto elim: node_ok_0E)
    then have "c = 0 \<Longrightarrow> taken rows = []" by simp
    then show ?thesis by (auto simp: Some l cells_Leaf each_of_taken)
  qed simp
next
  case (Suc l)
  show ?case
  proof (cases n)
    case (Some m)
    with Suc.prems obtain c cs where b: "m = Branch c cs" "\<forall>c\<in>set cs. node_ok l c"
      "unat c = length (taken (concat (map (cells l) cs)))"
      by (auto elim: node_ok_SucE)
    have z: "taken (concat (map (cells l) cs)) = []" if "c = 0" using b(3) that by simp
    have "each_of (visit l reader) cs u
        = each_of (\<lambda>u (k, r). reader u k r) (concat (map (\<lambda>c. taken (cells l c)) cs)) u"
      by (rule each_of_concat) (use Suc.IH b(2) in auto)
    then have "each_of (visit l reader) cs u
        = each_of (\<lambda>u (k, r). reader u k r) (taken (concat (map (cells l) cs))) u"
      by (simp add: taken_concat o_def)
    then show ?thesis using z by (cases "c = 0") (simp_all add: Some b(1) cells_Branch)
  qed simp
qed

text \<open>What a page read does, on the list of entries: the reader sees them one by one until it
  refuses one or throws.\<close>

primrec read_page :: "('u \<Rightarrow> 'k \<Rightarrow> 'r \<Rightarrow> (bool \<times> 'u) option) \<Rightarrow> ('k \<times> 'r) list \<Rightarrow> 'u \<Rightarrow> (nat \<times> 'u) option" where
  "read_page reader [] u = Some (0, u)"
| "read_page reader (e # es) u =
     (case reader u (fst e) (snd e) of
        None \<Rightarrow> None
      | Some (accepted, u') \<Rightarrow>
          if accepted then map_option (apfst Suc) (read_page reader es u') else Some (0, u'))"

definition view_entries :: "('k, 'r) view \<Rightarrow> ('k \<times> 'r) list" where
  "view_entries v = taken (cells (vw_height v) (vw_root v))"

definition view_ok :: "('k, 'r) view \<Rightarrow> bool" where
  "view_ok v \<longleftrightarrow> node_ok (vw_height v) (vw_root v)"

lemma until_false_append:
  "until_false f (xs @ ys) s =
     (case until_false f xs s of None \<Rightarrow> None | Some (go, s') \<Rightarrow> if go then until_false f ys s' else Some (False, s'))"
  by (induction xs arbitrary: s) (auto split: option.splits prod.splits)

lemma until_false_concat:
  "(\<And>x s. x \<in> set xs \<Longrightarrow> g s x = until_false f (h x) s) \<Longrightarrow>
   until_false g xs s = until_false f (concat (map h xs)) s"
  by (induction xs arbitrary: s) (simp_all add: until_false_append cong: option.case_cong prod.case_cong if_cong)

lemma slice_rows_until:
  "length rows = 64 \<Longrightarrow> slice_rows reader rows occ c
     = until_false (slice_row reader) (map (\<lambda>i. rows ! i) (filter (bit occ) [0..<64])) c"
proof (induction reader rows occ c rule: slice_rows.induct)
  case (1 reader rows occ c)
  show ?case
  proof (cases "occ = 0")
    case True
    then show ?thesis by (simp add: slice_rows.simps)
  next
    case False
    show ?thesis
      using 1 False by (simp add: slice_rows.simps [of reader rows occ] filter_set_bits [OF False] del: upt_rec_numeral split: option.splits prod.splits)
  qed
qed

lemma taken_filter:
  assumes "length rows = 64" "\<And>i. i < 64 \<Longrightarrow> bit (occ :: u64) i = (rows ! i \<noteq> None)"
  shows "map (\<lambda>i. rows ! i) (filter (bit occ) [0..<64]) = map Some (taken rows)"
proof -
  have "map (\<lambda>i. rows ! i) (filter (bit occ) [0..<64]) = filter (\<lambda>x. x \<noteq> None) (map (\<lambda>i. rows ! i) [0..<64])"
  proof -
    have "filter (bit occ) [0..<64] = filter (\<lambda>i. rows ! i \<noteq> None) [0..<64]"
      by (rule filter_cong) (use assms(2) in auto)
    then show ?thesis by (simp only: filter_map o_def)
  qed
  also have "map (\<lambda>i. rows ! i) [0..<64] = rows" using assms(1) map_nth [of rows] by simp
  also have "filter (\<lambda>x. x \<noteq> None) rows = map Some (taken rows)" by (induction rows) (auto simp: taken_def)
  finally show ?thesis .
qed

definition slice_step :: "('u \<Rightarrow> 'k \<Rightarrow> 'r \<Rightarrow> (bool \<times> 'u) option) \<Rightarrow> 'u cursor \<Rightarrow> 'k \<times> 'r \<Rightarrow> (bool \<times> 'u cursor) option" where
  "slice_step reader c e = slice_row reader c (Some e)"

lemma until_skip:
  "length xs \<le> cu_skip c \<Longrightarrow> until_false (slice_step reader) xs c = Some (True, c\<lparr>cu_skip := cu_skip c - length xs\<rparr>)"
  by (induction xs arbitrary: c) (simp_all add: slice_step_def slice_row_def)

lemma slice_until:
  "node_ok l n \<Longrightarrow> slice l reader c n = until_false (slice_step reader) (taken (cells l n)) c"
proof (induction l arbitrary: n c)
  case 0
  show ?case
  proof (cases n)
    case (Some m)
    with 0 obtain u occ rows where l: "m = Leaf u occ rows" "length rows = 64" "unat u = length (taken rows)"
      "\<And>i. i < 64 \<Longrightarrow> bit occ i = (rows ! i \<noteq> None)"
      by (auto elim: node_ok_0E)
    have "until_false (slice_row reader) (map Some xs) c = until_false (slice_step reader) xs c" for xs c
      by (induction xs arbitrary: c) (auto simp: slice_step_def split: option.splits prod.splits)
    then have rows: "slice_rows reader rows occ c = until_false (slice_step reader) (taken rows) c"
      using slice_rows_until [OF l(2), of reader occ c] taken_filter [OF l(2,4)] by simp
    have "u = 0 \<Longrightarrow> taken rows = []" using l(3) by simp
    then show ?thesis using until_skip [of "taken rows" c reader] rows l(3)
      by (auto simp: Some l(1) cells_Leaf)
  qed simp
next
  case (Suc l)
  show ?case
  proof (cases n)
    case (Some m)
    with Suc.prems obtain u cs where b: "m = Branch u cs" "\<forall>c\<in>set cs. node_ok l c"
      "unat u = length (taken (concat (map (cells l) cs)))"
      by (auto elim: node_ok_SucE)
    have z: "taken (concat (map (cells l) cs)) = []" if "u = 0" using b(3) that by simp
    have "until_false (slice l reader) cs c
        = until_false (slice_step reader) (concat (map (\<lambda>c. taken (cells l c)) cs)) c"
      by (rule until_false_concat) (use Suc.IH b(2) in auto)
    then have "until_false (slice l reader) cs c
        = until_false (slice_step reader) (taken (concat (map (cells l) cs))) c"
      by (simp add: taken_concat o_def)
    then show ?thesis
      using z until_skip [of "taken (concat (map (cells l) cs))" c reader] b(3)
      by (cases "u = 0") (simp_all add: Some b(1) cells_Branch)
  qed simp
qed

lemma slice_read_page:
  "cu_remaining c \<noteq> 0 \<Longrightarrow>
   map_option (\<lambda>(go, c'). (cu_consumed c', cu_reader c')) (until_false (slice_step reader) xs c)
     = map_option (\<lambda>(n, u). (cu_consumed c + n, u))
         (read_page reader (take (cu_remaining c) (drop (cu_skip c) xs)) (cu_reader c))"
proof (induction xs arbitrary: c)
  case (Cons e es)
  obtain k r where e: "e = (k, r)" by fastforce
  obtain j where j: "cu_remaining c = Suc j" using Cons.prems not0_implies_Suc by blast
  show ?case
  proof (cases "cu_skip c")
    case (Suc i)
    then show ?thesis using Cons.IH [of "c\<lparr>cu_skip := i\<rparr>"] Cons.prems
      by (simp add: slice_step_def slice_row_def)
  next
    case 0
    show ?thesis
    proof (cases "reader (cu_reader c) k r")
      case None
      then show ?thesis by (simp add: slice_step_def slice_row_def 0 j e)
    next
      case (Some x)
      obtain a u where x: "x = (a, u)" by fastforce
      let ?c = "c\<lparr>cu_reader := u, cu_consumed := Suc (cu_consumed c), cu_remaining := j\<rparr>"
      show ?thesis
      proof (cases "a \<and> j \<noteq> 0")
        case True
        then show ?thesis using Cons.IH [of ?c]
          by (auto simp: slice_step_def slice_row_def 0 j e Some x option.map_comp o_def case_prod_unfold apfst_def map_prod_def)
      next
        case False
        then show ?thesis
          by (auto simp: slice_step_def slice_row_def 0 j e Some x)
      qed
    qed
  qed
qed simp

subsection \<open>The interface to the store\<close>

text \<open>An index and the table of its live records agree when the index holds, at the slot of each
  live key, that key with its record, and nothing else.\<close>

definition agrees :: "('p \<Rightarrow> bool) \<Rightarrow> ('p \<Rightarrow> u64 \<Rightarrow> ('k \<times> 'r) option) \<Rightarrow> ('k \<Rightarrow> (u64 \<times> 'r) option) \<Rightarrow> 'p \<Rightarrow> bool" where
  "agrees ok lookup live p \<longleftrightarrow> ok p \<and> (\<forall>s k r. lookup p s = Some (k, r) \<longleftrightarrow> live k = Some (s, r))"

lemma agrees_update:
  assumes "\<And>s k r. f s = Some (k, r) \<longleftrightarrow> live k = Some (s, r)"
    and "\<And>k' r. f s = Some (k', r) \<Longrightarrow> k' = k" "\<And>s' r. live k = Some (s', r) \<Longrightarrow> s' = s"
  shows "(f(s := map_option (Pair k) v)) s' = Some (k', r') \<longleftrightarrow> (live(k := map_option (Pair s) v)) k' = Some (s', r')"
proof (cases "s' = s"; cases "k' = k")
  assume "s' = s" "k' \<noteq> k"
  moreover from this have "live k' \<noteq> Some (s, r')" using assms(1,2) by metis
  ultimately show ?thesis by auto
next
  assume "s' \<noteq> s" "k' = k"
  moreover from this have "f s' \<noteq> Some (k, r')" using assms(1,3) by metis
  ultimately show ?thesis by auto
qed (use assms(1) in auto)

locale slot_index =
  fixes ok :: "'p \<Rightarrow> bool"
    and lookup :: "'p \<Rightarrow> u64 \<Rightarrow> ('k \<times> 'r) option"
    and ready :: "'p \<Rightarrow> u64 \<Rightarrow> bool"
    and fresh :: "'p \<Rightarrow> pages_error + u64"
    and prepare :: "(nat \<Rightarrow> bool) \<Rightarrow> (nat \<Rightarrow> bool) \<Rightarrow> u64 \<Rightarrow> 'p \<Rightarrow> bool \<times> 'p"
    and store :: "u64 \<Rightarrow> 'k option \<Rightarrow> 'r \<Rightarrow> 'p \<Rightarrow> 'p"
    and discard :: "u64 \<Rightarrow> 'p \<Rightarrow> 'p"
  assumes fresh_vacant: "ok p \<Longrightarrow> fresh p = Inr s \<Longrightarrow> s \<noteq> - 1 \<and> lookup p s = None"
    and last_vacant: "ok p \<Longrightarrow> lookup p (- 1) = None"
    and prepare_keeps: "ok p \<Longrightarrow> prepare rs ps s p = (b, q) \<Longrightarrow> ok q \<and> lookup q = lookup p \<and> (b \<longrightarrow> ready q s)"
    and store_writes: "ok p \<Longrightarrow> ready p s \<Longrightarrow> s \<noteq> - 1 \<Longrightarrow> (key \<noteq> None) = (lookup p s = None) \<Longrightarrow>
      ok (store s key r p) \<and> lookup (store s key r p) = (lookup p)(s := set_row key r (lookup p s))"
    and drop_clears: "ok p \<Longrightarrow> lookup p s \<noteq> None \<Longrightarrow> ok (discard s p) \<and> lookup (discard s p) = (lookup p)(s := None)"
begin

lemma agrees_prepare:
  "agrees ok lookup live p \<Longrightarrow> prepare rs ps s p = (b, q) \<Longrightarrow> agrees ok lookup live q \<and> (b \<longrightarrow> ready q s)"
  using prepare_keeps [of p rs ps s b q] by (simp add: agrees_def)

lemma agrees_add:
  assumes "agrees ok lookup live p" "fresh p = Inr s" "prepare rs ps s p = (True, q)" "live k = None"
  shows "agrees ok lookup (live(k \<mapsto> (s, r))) (store s (Some k) r q)"
proof -
  have p: "ok p" "\<And>s k r. lookup p s = Some (k, r) \<longleftrightarrow> live k = Some (s, r)"
    using assms(1) by (simp_all add: agrees_def)
  have q: "ok q" "lookup q = lookup p" "ready q s" using prepare_keeps [OF p(1) assms(3)] by simp_all
  have s: "s \<noteq> - 1" "lookup q s = None" using fresh_vacant [OF p(1) assms(2)] q(2) by simp_all
  have "lookup (store s (Some k) r q) = (lookup p)(s \<mapsto> (k, r))" "ok (store s (Some k) r q)"
    using store_writes [OF q(1,3) s(1), of "Some k" r] s(2) q(2) by (simp_all add: set_row_def)
  then show ?thesis
    using agrees_update [OF p(2), of s k "Some r"] s(2) q(2) assms(4) by (simp add: agrees_def)
qed

lemma agrees_replace:
  assumes "agrees ok lookup live p" "live k = Some (s, r0)" "prepare rs ps s p = (True, q)"
  shows "agrees ok lookup (live(k \<mapsto> (s, r))) (store s None r q)"
proof -
  have p: "ok p" "\<And>s k r. lookup p s = Some (k, r) \<longleftrightarrow> live k = Some (s, r)"
    using assms(1) by (simp_all add: agrees_def)
  have q: "ok q" "lookup q = lookup p" "ready q s" using prepare_keeps [OF p(1) assms(3)] by simp_all
  have at: "lookup p s = Some (k, r0)" using p(2) assms(2) by simp
  have s: "s \<noteq> - 1" using last_vacant [OF p(1)] at by auto
  have "lookup (store s None r q) = (lookup p)(s \<mapsto> (k, r))" "ok (store s None r q)"
    using store_writes [OF q(1,3) s, of None r] at q(2) by (simp_all add: set_row_def)
  moreover have "((lookup p)(s \<mapsto> (k, r))) s' = Some (k', r') \<longleftrightarrow> (live(k \<mapsto> (s, r))) k' = Some (s', r')" for s' k' r'
    by (rule agrees_update [OF p(2), where v = "Some r", unfolded option.map]) (simp_all add: at assms(2))
  ultimately show ?thesis unfolding agrees_def by (simp only: simp_thms)
qed

lemma agrees_drop:
  assumes "agrees ok lookup live p" "live k = Some (s, r)"
  shows "agrees ok lookup (live(k := None)) (discard s p)"
proof -
  have p: "ok p" "\<And>s k r. lookup p s = Some (k, r) \<longleftrightarrow> live k = Some (s, r)"
    using assms(1) by (simp_all add: agrees_def)
  have at: "lookup p s = Some (k, r)" using p(2) assms(2) by simp
  then have "lookup (discard s p) = (lookup p)(s := None)" "ok (discard s p)"
    using drop_clears [OF p(1)] by simp_all
  moreover have "((lookup p)(s := None)) s' = Some (k', r') \<longleftrightarrow> (live(k := None)) k' = Some (s', r')" for s' k' r'
    by (rule agrees_update [OF p(2), where v = None, unfolded option.map]) (simp_all add: at assms(2))
  ultimately show ?thesis unfolding agrees_def by (simp only: simp_thms)
qed

end

lemma page_find_max: "pages_ok p \<Longrightarrow> page_find p (- 1) = None"
proof -
  assume ok: "pages_ok p"
  have "unat (- 1 :: u64) = 2 ^ 64 - 1" by (simp add: unsigned_minus_1_eq_mask mask_eq_exp_minus_1)
  then show ?thesis
    using ok [unfolded pages_ok_iff] page_find_cells [of p "- 1"] by simp
qed

interpretation pages_index: slot_index pages_ok page_find page_ready page_next page_prepare page_set page_erase
proof
  fix p :: "('a, 'b) pages" and rs ps s b q key r
  show "pages_ok p \<Longrightarrow> page_next p = Inr s \<Longrightarrow> s \<noteq> - 1 \<and> page_find p s = None"
    using page_next_vacant(1) by blast
  show "pages_ok p \<Longrightarrow> page_find p (- 1) = None" by (rule page_find_max)
  show "pages_ok p \<Longrightarrow> page_prepare rs ps s p = (b, q) \<Longrightarrow> pages_ok q \<and> page_find q = page_find p \<and> (b \<longrightarrow> page_ready q s)"
    using page_prepare_ok [of p rs ps s b q] by (auto simp: same_entries_def)
  show "pages_ok p \<Longrightarrow> page_ready p s \<Longrightarrow> s \<noteq> - 1 \<Longrightarrow> (key \<noteq> None) = (page_find p s = None) \<Longrightarrow>
      pages_ok (page_set s key r p) \<and> page_find (page_set s key r p) = (page_find p)(s := set_row key r (page_find p s))"
    by (intro conjI page_set_ok(1,2))
  show "pages_ok p \<Longrightarrow> page_find p s \<noteq> None \<Longrightarrow> pages_ok (page_erase s p) \<and> page_find (page_erase s p) = (page_find p)(s := None)"
    by (intro conjI page_erase_ok(1,2))
qed

lemma capture_ok: "pages_ok p \<Longrightarrow> view_ok (capture p)"
  by (simp add: view_ok_def capture_def pages_ok_def)

lemma view_entries_capture: "view_entries (capture p) = taken (pages_cells p)"
  by (simp add: view_entries_def capture_def pages_cells_def)

lemma view_each_entries:
  "view_ok v \<Longrightarrow> view_each v reader u = each_of (\<lambda>u (k, r). reader u k r) (view_entries v) u"
  by (simp add: view_each_def view_ok_def view_entries_def visit_taken)

text \<open>The entries of a view are those of its slots, in increasing slot order.\<close>

lemma view_entries_find:
  assumes "pages_ok p"
  shows "set (view_entries (capture p)) = {e. \<exists>s. page_find p s = Some e}"
proof -
  note p = pages_okD [OF assms]
  have "e \<in> set (taken (pages_cells p)) \<longleftrightarrow> (\<exists>s. page_find p s = Some e)" for e
  proof
    assume "e \<in> set (taken (pages_cells p))"
    then have "Some e \<in> set (pages_cells p)" by (auto simp: taken_def)
    then obtain i where i: "i < cap (pg_height p)" "pages_cells p ! i = Some e"
      using p(3) by (auto simp: in_set_conv_nth)
    then have "\<not> 2 ^ 64 - 1 \<le> i" using assms unfolding pages_ok_iff by (metis option.distinct(1))
    then have "unat (of_nat i :: u64) = i" unfolding unat_of_nat by simp
    then have "page_find p (of_nat i) = Some e" using page_find_cells [OF p(2,1), of "of_nat i"] i by simp
    then show "\<exists>s. page_find p s = Some e" ..
  next
    assume "\<exists>s. page_find p s = Some e"
    then obtain s where "page_find p s = Some e" ..
    then have "unat s < cap (pg_height p)" "pages_cells p ! unat s = Some e"
      using page_find_cells [OF p(2,1), of s] by (simp_all split: if_splits)
    then have "Some e \<in> set (pages_cells p)" using p(3) nth_mem by metis
    then show "e \<in> set (taken (pages_cells p))" by (force simp: taken_def)
  qed
  then show ?thesis by (auto simp: view_entries_capture)
qed

subsection \<open>Properties\<close>

text \<open>C14: the paged tree refines a map from slots to key and record.  \<open>prepare\<close> changes no entry
  whether it returns or throws, and when it returns the slot can be committed; \<open>set\<close> with a
  key on a free slot, or without one on an occupied slot, and \<open>erase\<close> of an occupied slot are
  the map's update and removal; the invariant (page kinds by level, the counters, the
  bitmaps) is kept throughout.\<close>

theorem pages_refine_map:
  assumes "pages_ok p" "slot \<noteq> - 1" "page_prepare roots pages slot p = (done, q)"
  shows "pages_ok q \<and> page_find q = page_find p \<and>
    (done \<and> page_find p slot = None \<longrightarrow>
      pages_ok (page_set slot (Some k) r q) \<and> page_find (page_set slot (Some k) r q) = (page_find p)(slot \<mapsto> (k, r))) \<and>
    (\<forall>k' r'. done \<and> page_find p slot = Some (k', r') \<longrightarrow>
      pages_ok (page_set slot None r q) \<and> page_find (page_set slot None r q) = (page_find p)(slot \<mapsto> (k', r)) \<and>
      pages_ok (page_erase slot q) \<and> page_find (page_erase slot q) = (page_find p)(slot := None))"
proof -
  note q = pages_index.prepare_keeps [OF assms(1,3)]
  show ?thesis
    using q pages_index.store_writes [of q slot _ r] pages_index.drop_clears [of q slot] assms(2)
    by (auto simp: set_row_def)
qed

theorem pages_refine_map_witness:
  "\<exists>done q. page_prepare (\<lambda>_. True) (\<lambda>_. True) 100 (pages_new :: (string, nat) pages) = (done, q) \<and> done \<and>
    page_find (page_set 100 (Some ''a'') 7 q) = [100 \<mapsto> (''a'', 7)]"
proof -
  obtain d q where q: "page_prepare (\<lambda>_. True) (\<lambda>_. True) 100 (pages_new :: (string, nat) pages) = (d, q)" by fastforce
  have d using page_prepare_succeeds [OF page_new_ok(1), of "\<lambda>_. True" "\<lambda>_. True" 100] q by (metis fst_conv)
  moreover have "page_find (pages_new :: (string, nat) pages) = Map.empty" by (rule ext) (rule page_new_ok(2))
  ultimately show ?thesis
    using pages_refine_map [OF page_new_ok(1) _ q, of "''a''" 7] q by (intro exI [of _ d] exI [of _ q]) simp
qed

text \<open>A new key gets the lowest vacant slot, which is never above the number of entries and
  never the reserved last slot number; \<open>next\<close> fails only when every other slot is taken.\<close>

theorem pages_next_lowest:
  assumes "pages_ok p"
  shows "case page_next p of
    Inr slot \<Rightarrow> page_find p slot = None \<and> (\<forall>t < slot. page_find p t \<noteq> None) \<and> slot \<noteq> - 1 \<and>
      unat slot \<le> unat (view_size (capture p))
  | Inl e \<Rightarrow> e = Slots_exhausted \<and> (\<forall>t. t \<noteq> - 1 \<longrightarrow> page_find p t \<noteq> None)"
proof -
  have "unat (view_size (capture p)) = length (taken (pages_cells p))"
    using unat_link_used [OF pages_okD(2) [OF assms]] by (simp add: view_size_def capture_def pages_cells_def)
  then show ?thesis
    using page_next_vacant [OF assms] by (cases "page_next p") simp_all
qed

theorem pages_next_lowest_witness:
  "\<exists>slot. page_next (pages_new :: (string, nat) pages) = Inr slot \<and> page_find (pages_new :: (string, nat) pages) slot = None"
proof -
  have "page_next (pages_new :: (string, nat) pages) = Inr 0" by (simp add: page_next_def pages_new_def)
  moreover have "pages_ok (pages_new :: (string, nat) pages)" by (rule page_new_ok)
  note pages_next_lowest [OF this]
  ultimately show ?thesis by simp
qed

text \<open>Paging through a well-formed view.\<close>

lemma view_page_read:
  assumes "view_ok v"
  shows "unat (view_size v) = length (view_entries v)"
    "view_page v offset maximum reader u =
      (if offset > length (view_entries v) then Inl Position_exceeds_view
       else case read_page reader (take maximum (drop offset (view_entries v))) u of
              None \<Rightarrow> Inl Reader_raised | Some res \<Rightarrow> Inr res)"
proof -
  let ?c = "\<lparr>cu_skip = offset, cu_remaining = maximum, cu_consumed = 0, cu_reader = u\<rparr>"
  have ok: "node_ok (vw_height v) (vw_root v)" using assms by (simp add: view_ok_def)
  show size: "unat (view_size v) = length (view_entries v)"
    using unat_link_used [OF ok] by (simp add: view_size_def view_entries_def)
  have "slice (vw_height v) reader ?c (vw_root v) = until_false (slice_step reader) (view_entries v) ?c"
    using slice_until [OF ok] by (simp add: view_entries_def)
  moreover have "maximum \<noteq> 0 \<Longrightarrow>
      map_option (\<lambda>(go, c). (cu_consumed c, cu_reader c)) (until_false (slice_step reader) (view_entries v) ?c)
        = read_page reader (take maximum (drop offset (view_entries v))) u"
    using slice_read_page [of ?c reader "view_entries v"] by (simp add: case_prod_unfold option.map_id [unfolded id_def])
  ultimately show "view_page v offset maximum reader u =
      (if offset > length (view_entries v) then Inl Position_exceeds_view
       else case read_page reader (take maximum (drop offset (view_entries v))) u of
              None \<Rightarrow> Inl Reader_raised | Some res \<Rightarrow> Inr res)"
    by (cases "maximum = 0"; cases "until_false (slice_step reader) (view_entries v) ?c")
      (auto simp: view_page_def size split: option.splits)
qed

text \<open>C40: paging through a captured view.  The entries of a view are those of the index at the
  moment of the capture; \<open>each\<close> hands them to the reader in order; \<open>page\<close> hands over at most
  \<open>maximum\<close> of them from position \<open>offset\<close> on, stops before the first one the reader refuses,
  and returns how many were accepted; a position beyond the view is an error.\<close>

theorem view_page_exact:
  assumes "pages_ok p"
  shows "set (view_entries (capture p)) = {e. \<exists>s. page_find p s = Some e} \<and>
    unat (view_size (capture p)) = length (view_entries (capture p)) \<and>
    view_each (capture p) visitor x = each_of (\<lambda>x (k, r). visitor x k r) (view_entries (capture p)) x \<and>
    view_page (capture p) offset maximum reader u =
      (if offset > length (view_entries (capture p)) then Inl Position_exceeds_view
       else case read_page reader (take maximum (drop offset (view_entries (capture p)))) u of
              None \<Rightarrow> Inl Reader_raised | Some res \<Rightarrow> Inr res)"
  using view_entries_find [OF assms] view_page_read [OF capture_ok [OF assms]] view_each_entries [OF capture_ok [OF assms], of visitor x]
  by (intro conjI)

definition sample_pages :: "(string, nat) pages" where
  "sample_pages = page_set 1 (Some ''b'') 8 (snd (page_prepare (\<lambda>_. True) (\<lambda>_. True) 1
     (page_set 0 (Some ''a'') 7 (snd (page_prepare (\<lambda>_. True) (\<lambda>_. True) 0 pages_new)))))"

lemma sample_pages_ok: "pages_ok sample_pages"
proof -
  have step: "pages_ok (page_set s (Some k) r (snd (page_prepare (\<lambda>_. True) (\<lambda>_. True) s p)))"
    if p: "pages_ok p" "s \<noteq> - 1" "page_find p s = None" for s k r and p :: "(string, nat) pages"
  proof -
    obtain q where q: "page_prepare (\<lambda>_. True) (\<lambda>_. True) s p = (True, q)"
      using page_prepare_succeeds [OF p(1), of "\<lambda>_. True" "\<lambda>_. True" s] by (metis fst_conv surj_pair)
    show ?thesis
      using pages_index.prepare_keeps [OF p(1) q] pages_index.store_writes [of q s "Some k" r] p(2,3) q by simp
  qed
  have "page_find (page_set 0 (Some ''a'') 7 (snd (page_prepare (\<lambda>_. True) (\<lambda>_. True) 0 (pages_new :: (string, nat) pages)))) 1 = None"
    by code_simp
  then show ?thesis unfolding sample_pages_def by (intro step page_new_ok(1)) (simp_all add: page_new_ok(2))
qed

theorem view_page_exact_witness:
  "view_page (capture sample_pages) 1 5 (\<lambda>n k r. Some (True, n + r)) (0 :: nat) = Inr (1, 8)"
proof -
  have e: "view_entries (capture sample_pages) = [(''a'', 7), (''b'', 8)]" by code_simp
  show ?thesis
    using view_page_exact [OF sample_pages_ok, of "\<lambda>x k r. Some x" "0 :: nat" 1 5 "\<lambda>n k r. Some (True, n + r)" "0 :: nat"] unfolding e by simp
qed

end
