(* ===== verification/Store.thy ===== *)
theory Store
  imports Pages_Index Wheel_Fire
begin

text \<open>
  The versioned key-value store of \<^verbatim>\<open>astra/common/src/store.hpp\<close> and \<^verbatim>\<open>store.cpp\<close>: entries with a page
  index for snapshots, a timing wheel for deadlines, a bounded history of committed batches and a
  cached snapshot.  Every operation is a function of the store and of what the environment does in it:
  the local time and the allocations that succeed (\<open>allocs\<close>).  Each returns the exception it throws, if
  any, with the store it leaves behind.  Calls run under the store's lock, so they are atomic; a
  snapshot, which is built outside the lock, is three operations.
\<close>

subsection \<open>Data\<close>

record cell =
  c_value :: bytes
  c_deadline :: "ns option"

record delta =
  d_key :: string
  d_value :: "bytes option"
  d_deleted :: bool
  d_version :: u64
  d_deadline :: "ns option"

record extraction =
  x_stale :: bool
  x_version :: u64
  x_deltas :: "delta list"

record snapshot =
  sn_version :: u64
  sn_data :: "string \<rightharpoonup> cell"

record entry =
  en_slot :: u64
  en_value :: "bytes option"
  en_version :: u64
  en_deadline :: "ns option"

definition entry_new :: entry where
  "entry_new = \<lparr>en_slot = 0, en_value = None, en_version = 0, en_deadline = None\<rparr>"

record batch =
  b_version :: u64
  b_timestamp :: ns
  b_records :: "delta list"

record store =
  st_index :: "(string, cell) pages"
  st_entries :: "string \<rightharpoonup> entry"
  st_version :: u64
  st_capacity :: nat
  st_retention :: int
  st_interval :: int
  st_clock :: "ns option"
  st_wheel :: wheel
  st_history :: "batch list"
  st_oldest :: u64
  st_cache :: "snapshot option"

datatype store_error = Invalid_argument | Logic_error | Overflow_error | Length_error | Bad_alloc

text \<open>Which allocations succeed: of the value and the unpublished record, of a map node, of the key
  copy, of a history batch; of the \<open>i\<close>-th record of a batch and of the pages prepared for it.\<close>

record allocs =
  al_value :: bool
  al_entry :: bool
  al_key :: bool
  al_history :: bool
  al_record :: "nat \<Rightarrow> bool"
  al_roots :: "nat \<Rightarrow> nat \<Rightarrow> bool"
  al_pages :: "nat \<Rightarrow> nat \<Rightarrow> bool"

text \<open>An \<^verbatim>\<open>Entry\<close> is its own timer hook and stays at its address while it is in the map; the hook of
  a key is named by numbering the strings.\<close>

fun hook :: "string \<Rightarrow> node" where
  "hook [] = 0"
| "hook (c # cs) = Suc (of_char c + 256 * hook cs)"

fun hook_key :: "node \<Rightarrow> string" where
  "hook_key 0 = []"
| "hook_key (Suc n) = char_of (n mod 256) # hook_key (n div 256)"

lemma hook_key_hook [simp]: "hook_key (hook k) = k"
proof (induction k)
  case (Cons c k)
  have "of_char c < (256 :: nat)" by simp
  then show ?case using Cons by simp
qed simp

subsection \<open>Construction\<close>

definition store_new :: "nat \<Rightarrow> int \<Rightarrow> int \<Rightarrow> ns option \<Rightarrow> store_error + store" where
  "store_new capacity retention interval initial =
     (if interval \<le> 0 \<or> retention < 0 \<or> (case initial of None \<Rightarrow> False | Some t \<Rightarrow> t < 0)
      then Inl Invalid_argument
      else Inr \<lparr>st_index = pages_new, st_entries = Map.empty, st_version = 0, st_capacity = capacity,
        st_retention = retention, st_interval = interval, st_clock = initial, st_wheel = wheel_new 0,
        st_history = [], st_oldest = 0, st_cache = None\<rparr>)"

subsection \<open>Shared steps\<close>

definition store_advance :: "store \<Rightarrow> store_error + u64" where
  "store_advance s = (if st_version s = - 1 then Inl Overflow_error else Inr (st_version s + 1))"

definition distance :: "ns \<Rightarrow> ns \<Rightarrow> u64" where
  "distance later earlier = word_of_int later - word_of_int earlier"

definition store_delay :: "int \<Rightarrow> ns \<Rightarrow> ns \<Rightarrow> u64" where
  "store_delay interval boundary deadline =
     (let remaining = (if deadline > boundary then word_of_int (deadline - boundary) else (0 :: u64));
          width = word_of_int interval;
          delay = remaining div width + (if remaining mod width \<noteq> 0 then 1 else 0)
      in min delay (wheel_limit 4 10))"

definition schedule_request :: "int \<Rightarrow> ns \<Rightarrow> node \<Rightarrow> ns option \<Rightarrow> request" where
  "schedule_request interval boundary n deadline =
     (case deadline of None \<Rightarrow> Cancel n | Some d \<Rightarrow> Schedule n (store_delay interval boundary d))"

definition store_schedule :: "string \<Rightarrow> ns \<Rightarrow> store \<Rightarrow> store" where
  "store_schedule key boundary s =
     (case st_entries s key of
        None \<Rightarrow> s
      | Some e \<Rightarrow> s\<lparr>st_wheel := wheel_request 4 10 (st_wheel s)
                    (schedule_request (st_interval s) boundary (hook key) (en_deadline e))\<rparr>)"

text \<open>\<^verbatim>\<open>trim\<close>: erasing a map node destroys its hook, which cancels it.\<close>

definition trim_record :: "store \<Rightarrow> delta \<Rightarrow> store" where
  "trim_record s r =
     (if d_deleted r then
        case st_entries s (d_key r) of
          None \<Rightarrow> s
        | Some e \<Rightarrow>
            if en_value e = None \<and> en_version e = d_version r
            then s\<lparr>st_entries := (st_entries s)(d_key r := None),
                   st_wheel := wheel_cancel (st_wheel s) (hook (d_key r))\<rparr>
            else s
      else s)"

definition trim_due :: "ns \<Rightarrow> store \<Rightarrow> batch \<Rightarrow> nat \<Rightarrow> bool" where
  "trim_due now s b count \<longleftrightarrow>
     count > st_capacity s \<or> st_retention s = 0
     \<or> now \<ge> b_timestamp b \<and> distance now (b_timestamp b) \<ge> word_of_int (st_retention s)"

primrec trim_loop :: "ns \<Rightarrow> batch list \<Rightarrow> store \<Rightarrow> store" where
  "trim_loop now [] s = s\<lparr>st_history := []\<rparr>"
| "trim_loop now (b # bs) s =
     (if trim_due now s b (Suc (length bs))
      then trim_loop now bs ((foldl trim_record s (b_records b))\<lparr>st_oldest := b_version b\<rparr>)
      else s\<lparr>st_history := b # bs\<rparr>)"

definition store_trim :: "ns \<Rightarrow> store \<Rightarrow> store" where
  "store_trim now s = trim_loop now (st_history s) s"

subsection \<open>Writing\<close>

definition put_commit :: "ns \<Rightarrow> string \<Rightarrow> bytes \<Rightarrow> ns option \<Rightarrow> u64 \<Rightarrow> u64 \<Rightarrow> bool \<Rightarrow> (string, cell) pages \<Rightarrow> store \<Rightarrow> store" where
  "put_commit now key value deadline version slot fresh index s =
     (let record = \<lparr>d_key = key, d_value = Some value, d_deleted = False, d_version = version, d_deadline = deadline\<rparr>;
          s1 = s\<lparr>st_index := page_set slot (if fresh then Some key else None) \<lparr>c_value = value, c_deadline = deadline\<rparr> index,
                 st_entries := (st_entries s)(key \<mapsto>
                   \<lparr>en_slot = slot, en_value = Some value, en_version = version, en_deadline = deadline\<rparr>),
                 st_history := st_history s @ [\<lparr>b_version = version, b_timestamp = now, b_records = [record]\<rparr>]\<rparr>;
          s2 = (case st_clock s1 of None \<Rightarrow> s1 | Some c \<Rightarrow> store_schedule key c s1)
      in (store_trim now (s2\<lparr>st_version := version\<rparr>))\<lparr>st_cache := None\<rparr>)"

definition store_put :: "allocs \<Rightarrow> ns \<Rightarrow> string \<Rightarrow> bytes \<Rightarrow> ns option \<Rightarrow> store \<Rightarrow> store_error option \<times> store" where
  "store_put al now key value deadline s =
     (if (case deadline of None \<Rightarrow> False | Some d \<Rightarrow> d < 0) then (Some Invalid_argument, s)
      else if \<not> al_value al then (Some Bad_alloc, s)
      else if deadline \<noteq> None \<and> st_clock s = None then (Some Logic_error, s)
      else case store_advance s of
        Inl e \<Rightarrow> (Some e, s)
      | Inr version \<Rightarrow>
          if st_entries s key = None \<and> \<not> al_entry al then (Some Bad_alloc, s)
          else let entry = (case st_entries s key of None \<Rightarrow> entry_new | Some e \<Rightarrow> e);
                   fresh = (en_value entry = None)
               in case (if fresh then page_next (st_index s) else Inr (en_slot entry)) of
                    Inl e \<Rightarrow> (Some Overflow_error, s)
                  | Inr slot \<Rightarrow>
                      if fresh \<and> \<not> al_key al then (Some Bad_alloc, s)
                      else let (prepared, index) = page_prepare (al_roots al 0) (al_pages al 0) slot (st_index s)
                           in if \<not> prepared \<or> \<not> al_history al then (Some Bad_alloc, s\<lparr>st_index := index\<rparr>)
                              else (None, put_commit now key value deadline version slot fresh index s))"

definition bury :: "u64 \<Rightarrow> store \<Rightarrow> string \<Rightarrow> store" where
  "bury version s key =
     (case st_entries s key of
        None \<Rightarrow> s
      | Some e \<Rightarrow>
          s\<lparr>st_index := page_erase (en_slot e) (st_index s),
            st_wheel := wheel_cancel (st_wheel s) (hook key),
            st_entries := (st_entries s)(key \<mapsto> e\<lparr>en_value := None, en_version := version, en_deadline := None\<rparr>)\<rparr>)"

definition tombstone :: "string \<Rightarrow> u64 \<Rightarrow> delta" where
  "tombstone key version = \<lparr>d_key = key, d_value = None, d_deleted = True, d_version = version, d_deadline = None\<rparr>"

definition store_remove :: "allocs \<Rightarrow> ns \<Rightarrow> string \<Rightarrow> store \<Rightarrow> store_error option \<times> store" where
  "store_remove al now key s =
     (case st_entries s key of
        None \<Rightarrow> (None, s)
      | Some e \<Rightarrow>
          if en_value e = None then (None, s)
          else case store_advance s of
            Inl err \<Rightarrow> (Some err, s)
          | Inr version \<Rightarrow>
              if \<not> al_record al 0 then (Some Bad_alloc, s)
              else let (prepared, index) = page_prepare (al_roots al 0) (al_pages al 0) (en_slot e) (st_index s)
                   in if \<not> prepared \<or> \<not> al_history al then (Some Bad_alloc, s\<lparr>st_index := index\<rparr>)
                      else let s1 = s\<lparr>st_index := index,
                             st_history := st_history s @ [\<lparr>b_version = version, b_timestamp = now, b_records = [tombstone key version]\<rparr>]\<rparr>
                           in (None, (store_trim now ((bury version s1 key)\<lparr>st_version := version\<rparr>))\<lparr>st_cache := None\<rparr>))"

subsection \<open>Expiry\<close>

text \<open>What the timer callback gathers: the tombstones so far and the index with the pages prepared for
  them.\<close>

record gathering =
  g_records :: "delta list"
  g_index :: "(string, cell) pages"

definition expire_fire :: "allocs \<Rightarrow> store \<Rightarrow> ns \<Rightarrow> u64 \<Rightarrow> gathering callback" where
  "expire_fire al s time before g clock n =
     (let key = hook_key n;
          boundary = time + (if clock = before then 0 else st_interval s)
      in case st_entries s key of
           None \<Rightarrow> (g, [], False)
         | Some e \<Rightarrow>
             let again = schedule_request (st_interval s) boundary n (en_deadline e);
                 i = length (g_records g)
             in if (case en_deadline e of None \<Rightarrow> False | Some d \<Rightarrow> d > boundary) then (g, [again], False)
                else if \<not> al_record al i then (g, [again], True)
                else let (prepared, index) = page_prepare (al_roots al i) (al_pages al i) (en_slot e) (g_index g)
                     in (\<lparr>g_records = g_records g @ [tombstone key 0], g_index = index\<rparr>, [], \<not> prepared))"

text \<open>The loop over the pending ticks, with the store's time: after a throw the time follows the wheel
  when the wheel had already moved.\<close>

fun expire_loop :: "allocs \<Rightarrow> store \<Rightarrow> nat \<Rightarrow> gathering \<Rightarrow> ns \<Rightarrow> wheel \<Rightarrow> bool \<times> gathering \<times> ns \<times> wheel" where
  "expire_loop al s 0 g time w = (True, g, time, w)"
| "expire_loop al s (Suc k) g time w =
     (let (out, g', w', log) = wheel_tick 4 10 (expire_fire al s time (w_clock w)) g w
      in if out = Ticked then expire_loop al s k g' (time + st_interval s) w'
         else (False, g', if w_clock w' \<noteq> w_clock w then time + st_interval s else time, w'))"

definition pending_ticks :: "ns \<Rightarrow> ns \<Rightarrow> int \<Rightarrow> nat" where
  "pending_ticks now time interval = (if now > time then nat ((now - time) div interval) else 0)"

definition reschedule :: "ns \<Rightarrow> delta list \<Rightarrow> store \<Rightarrow> store" where
  "reschedule time records s = foldl (\<lambda>s r. store_schedule (d_key r) time s) s records"

definition store_tick :: "allocs \<Rightarrow> ns \<Rightarrow> ns \<Rightarrow> store \<Rightarrow> store_error option \<times> store" where
  "store_tick al now local s =
     (if now < 0 then (Some Invalid_argument, s)
      else let start = (case st_clock s of None \<Rightarrow> now | Some t \<Rightarrow> t);
               (finished, g, time, w) =
                 expire_loop al s (pending_ticks now start (st_interval s))
                   \<lparr>g_records = [], g_index = st_index s\<rparr> start (st_wheel s);
               s1 = s\<lparr>st_clock := Some time, st_wheel := w, st_index := g_index g\<rparr>;
               records = g_records g
           in if \<not> finished then (Some Bad_alloc, reschedule time records s1)
              else if records = [] then (None, store_trim local s1)
              else case store_advance s1 of
                Inl e \<Rightarrow> (Some e, reschedule time records s1)
              | Inr version \<Rightarrow>
                  if \<not> al_history al then (Some Bad_alloc, reschedule time records s1)
                  else let rs = map (\<lambda>r. r\<lparr>d_version := version\<rparr>) records;
                           s2 = s1\<lparr>st_history := st_history s1 @ [\<lparr>b_version = version, b_timestamp = local, b_records = rs\<rparr>]\<rparr>;
                           s3 = foldl (bury version) s2 (map d_key rs)
                       in (None, store_trim local (s3\<lparr>st_version := version, st_cache := None\<rparr>)))"

subsection \<open>Reading\<close>

text \<open>A snapshot is captured under the lock, built outside it while writers go on, and cached under the
  lock when no commit came in between.\<close>

definition snapshot_begin :: "store \<Rightarrow> snapshot + (string, cell) view \<times> u64" where
  "snapshot_begin s =
     (case st_cache s of Some c \<Rightarrow> Inl c | None \<Rightarrow> Inr (capture (st_index s), st_version s))"

definition store_dump :: "(nat \<Rightarrow> bool) \<Rightarrow> (string, cell) view \<Rightarrow> u64 \<Rightarrow> snapshot option" where
  "store_dump ok v version =
     (if \<not> ok 0 \<or> \<not> ok 1 then None
      else case view_each v (\<lambda>(i, m) key rec.
              if ok i then Some (Suc i, if m key = None then m(key \<mapsto> rec) else m) else None) (2, Map.empty) of
        None \<Rightarrow> None
      | Some (i, m) \<Rightarrow> Some \<lparr>sn_version = version, sn_data = m\<rparr>)"

definition snapshot_end :: "snapshot \<Rightarrow> store \<Rightarrow> store" where
  "snapshot_end result s = (if st_version s = sn_version result then s\<lparr>st_cache := Some result\<rparr> else s)"

text \<open>\<^verbatim>\<open>extract\<close>: the size of a \<^verbatim>\<open>Delta\<close> and the largest vector are properties of the platform; \<open>memory\<close> says whether the copy
  can be allocated.\<close>

fun charge_keys :: "delta list \<Rightarrow> nat \<Rightarrow> nat option" where
  "charge_keys [] remaining = Some remaining"
| "charge_keys (r # rs) remaining =
     (if length (d_key r) \<ge> remaining then None else charge_keys rs (remaining - (length (d_key r) + 1)))"

fun charge_batches :: "nat \<Rightarrow> nat \<Rightarrow> batch list \<Rightarrow> nat \<Rightarrow> nat \<Rightarrow> bool" where
  "charge_batches size_of max_size [] counted remaining = True"
| "charge_batches size_of max_size (b # bs) counted remaining =
     (let n = length (b_records b)
      in if n > max_size - counted \<or> n > remaining div size_of then False
         else case charge_keys (b_records b) (remaining - n * size_of) of
                None \<Rightarrow> False
              | Some left \<Rightarrow> charge_batches size_of max_size bs (counted + n) left)"

definition store_extract :: "bool \<Rightarrow> nat \<Rightarrow> nat \<Rightarrow> u64 \<Rightarrow> nat \<Rightarrow> store \<Rightarrow> store_error + extraction" where
  "store_extract memory size_of max_size since max_bytes s =
     (let stale = (since > st_version s \<or> since < st_oldest s)
      in if stale \<or> since = st_version s
         then Inr \<lparr>x_stale = stale, x_version = st_version s, x_deltas = []\<rparr>
         else let batches = dropWhile (\<lambda>b. b_version b \<le> since) (st_history s)
              in if \<not> charge_batches size_of max_size batches 0 max_bytes then Inl Length_error
                 else if \<not> memory then Inl Bad_alloc
                 else Inr \<lparr>x_stale = False, x_version = st_version s, x_deltas = concat (map b_records batches)\<rparr>)"

end
