(* ===== verification/Wheel_Togo.thy ===== *)
theory Wheel_Togo
  imports Wheel_Fire
begin

text \<open>
  The timing wheel seen from one hook: how many clock steps it is away from its callback, and how a
  tick whose callbacks may throw proceeds.
\<close>

text \<open>The number of clock steps until the wheel calls back for a hook; none for a hook it does not hold.\<close>

definition togo :: "wheel \<Rightarrow> node \<Rightarrow> nat option" where
  "togo w n = (if n \<in> set (w_ready w) then Some 0 else map_option (\<lambda>d. unat (d - w_clock w)) (wheel_due w n))"

lemma togo_busy [simp]: "togo (w\<lparr>w_busy := b\<rparr>) = togo w"
  by (simp add: togo_def fun_eq_iff)

lemma togo_held: "wheel_held w n \<longleftrightarrow> togo w n \<noteq> None"
  by (simp add: togo_def wheel_held_due)

lemma wheel_due_ahead:
  assumes "wheel_inv L B w" "wheel_due w n = Some d"
  shows "0 < unat (d - w_clock w)" "n \<notin> set (w_ready w)"
proof -
  obtain l s where m: "n \<in> set (w_slots w l s)" "d = w_deadline w n"
    using assms(2) by (auto simp: wheel_due_def wheel_nodes_def split: if_splits)
  have "placed B (w_clock w) d l s" using assms(1) m by (auto simp: wheel_inv_def wheel_placed_def)
  then have "unat (w_clock w) div 2 ^ (l * B) < (unat (w_clock w) + unat (d - w_clock w)) div 2 ^ (l * B)"
    by (simp add: placed_def Let_def)
  then show "0 < unat (d - w_clock w)" by (cases "unat (d - w_clock w) = 0") simp_all
  have "n \<in> wheel_nodes w" using m by (auto simp: wheel_nodes_def)
  then show "n \<notin> set (w_ready w)" using assms(1) by (auto simp: wheel_inv_def wheel_distinct_def)
qed

lemma togo_pop:
  assumes "wheel_inv L B w" "w_ready w = n # ns"
  shows "togo (w\<lparr>w_ready := ns\<rparr>) m = (if m = n then None else togo w m)"
proof -
  have "n \<notin> set ns" "wheel_due w n = None"
    using assms by (auto simp: wheel_inv_def wheel_distinct_def wheel_due_def)
  moreover have "wheel_due (w\<lparr>w_ready := ns\<rparr>) = wheel_due w" by (simp add: wheel_due_def wheel_nodes_def fun_eq_iff)
  ultimately show ?thesis using assms(2) by (auto simp: togo_def)
qed

lemma togo_cancel: "togo (wheel_cancel w n) m = (if m = n then None else togo w m)"
  by (auto simp: togo_def wheel_cancel_due)

lemma togo_schedule:
  "d \<le> wheel_limit L B \<Longrightarrow> togo (snd (wheel_schedule L B w n d)) m = (if m = n then Some (unat (max d 1)) else togo w m)"
  by (auto simp: togo_def wheel_schedule_due wheel_schedule_ready)

lemma togo_advance:
  assumes "wheel_params L B" "wheel_inv L B w" "w_ready w = []"
  shows "togo (wheel_advance L B w) m = map_option (\<lambda>j. j - 1) (togo w m)"
proof -
  note a = wheel_advance_spec [OF assms]
  have r: "m \<in> set (w_ready (wheel_advance L B w)) \<longleftrightarrow> wheel_due w m = Some (w_clock w + 1)"
    by (auto simp: a(2) wheel_due_def)
  have d: "wheel_due (wheel_advance L B w) m = (if wheel_due w m = Some (w_clock w + 1) then None else wheel_due w m)"
    by (auto simp: wheel_due_def a(3))
  show ?thesis
  proof (cases "wheel_due w m")
    case None
    then show ?thesis using assms(3) r d by (simp add: togo_def)
  next
    case (Some x)
    note ahead = wheel_due_ahead(1) [OF assms(2) Some]
    then have "x \<noteq> w_clock w" by auto
    then have "unat (x - (w_clock w + 1)) = unat (x - w_clock w) - 1" by (rule unat_diff_succ)
    then show ?thesis using assms(3) r d Some by (auto simp: togo_def)
  qed
qed

text \<open>The two phases of a tick: the leftovers of an earlier throw are called back first, then the clock
  moves and the hooks that are due are called back.  \<open>P\<close> holds between callbacks, \<open>Q\<close> after a
  callback that throws.\<close>

lemma wheel_drain_steps:
  assumes p: "wheel_params L B"
    and keep: "\<And>u w n ns v rs. P u w \<Longrightarrow> wheel_inv L B w \<Longrightarrow> w_clock w = c \<Longrightarrow> w_ready w = n # ns \<Longrightarrow> fire u c n = (v, rs, False) \<Longrightarrow>
      P v (wheel_requests L B (w\<lparr>w_ready := ns\<rparr>) rs)"
    and throw: "\<And>u w n ns v rs. P u w \<Longrightarrow> wheel_inv L B w \<Longrightarrow> w_clock w = c \<Longrightarrow> w_ready w = n # ns \<Longrightarrow> fire u c n = (v, rs, True) \<Longrightarrow>
      Q v (wheel_requests L B (w\<lparr>w_ready := ns\<rparr>) rs)"
    and "P u w" "wheel_inv L B w" "w_clock w = c" "wheel_drain L B fire u w = (u', w', threw, log)"
  shows "wheel_inv L B w' \<and> w_clock w' = c \<and> (if threw then Q u' w' else P u' w' \<and> w_ready w' = [])"
  using assms(4-7)
proof (induction u w arbitrary: u' w' threw log rule: wheel_drain_induct [where fire = fire and L = L and B = B])
  case (Nil u w)
  then show ?case by simp
next
  case (Cons u w n ns v rs t)
  let ?w = "wheel_requests L B (w\<lparr>w_ready := ns\<rparr>) rs"
  have inv: "wheel_inv L B ?w" using wheel_pop_inv [OF Cons.prems(2) Cons.hyps(1)] p by (rule wheel_requests_inv [rotated])
  obtain u3 w3 t3 log3 where d: "wheel_drain L B fire v ?w = (u3, w3, t3, log3)"
    by (cases "wheel_drain L B fire v ?w") auto
  note step = wheel_drain_Cons [OF Cons.hyps(1,2) d]
  show ?case
  proof (cases t)
    case True
    then have "Q v ?w" using throw [OF Cons.prems(1,2,3) Cons.hyps(1)] Cons.hyps(2) Cons.prems(3) by simp
    then show ?thesis using step Cons.prems True inv by simp
  next
    case False
    then have "P v ?w" using keep [OF Cons.prems(1,2,3) Cons.hyps(1)] Cons.hyps(2) Cons.prems(3) by simp
    then show ?thesis using Cons.IH [OF _ inv _ d] step Cons.prems False by simp
  qed
qed

lemma wheel_tick_steps:
  assumes p: "wheel_params L B"
    and keep: "\<And>u w n ns v rs. P u w \<Longrightarrow> wheel_inv L B w \<Longrightarrow> w_clock w = c \<Longrightarrow> w_ready w = n # ns \<Longrightarrow> fire u c n = (v, rs, False) \<Longrightarrow>
      P v (wheel_requests L B (w\<lparr>w_ready := ns\<rparr>) rs)"
    and throw: "\<And>u w n ns v rs. P u w \<Longrightarrow> wheel_inv L B w \<Longrightarrow> w_clock w = c \<Longrightarrow> w_ready w = n # ns \<Longrightarrow> fire u c n = (v, rs, True) \<Longrightarrow>
      Q v (wheel_requests L B (w\<lparr>w_ready := ns\<rparr>) rs)"
    and move: "\<And>u w. P u w \<Longrightarrow> wheel_inv L B w \<Longrightarrow> w_clock w = c \<Longrightarrow> w_ready w = [] \<Longrightarrow> P' u (wheel_advance L B w)"
    and keep': "\<And>u w n ns v rs. P' u w \<Longrightarrow> wheel_inv L B w \<Longrightarrow> w_clock w = c + 1 \<Longrightarrow> w_ready w = n # ns \<Longrightarrow> fire u (c + 1) n = (v, rs, False) \<Longrightarrow>
      P' v (wheel_requests L B (w\<lparr>w_ready := ns\<rparr>) rs)"
    and throw': "\<And>u w n ns v rs. P' u w \<Longrightarrow> wheel_inv L B w \<Longrightarrow> w_clock w = c + 1 \<Longrightarrow> w_ready w = n # ns \<Longrightarrow> fire u (c + 1) n = (v, rs, True) \<Longrightarrow>
      Q' v (wheel_requests L B (w\<lparr>w_ready := ns\<rparr>) rs)"
    and busy: "\<And>u w b. P u (w\<lparr>w_busy := b\<rparr>) = P u w" "\<And>u w b. P' u (w\<lparr>w_busy := b\<rparr>) = P' u w"
      "\<And>u w b. Q u (w\<lparr>w_busy := b\<rparr>) = Q u w" "\<And>u w b. Q' u (w\<lparr>w_busy := b\<rparr>) = Q' u w"
    and start: "P u w" "wheel_ok L B w" "w_clock w = c"
    and t: "wheel_tick L B fire u w = (out, u', w', log)"
  shows "wheel_ok L B w' \<and>
    (out = Ticked \<and> P' u' w' \<and> w_ready w' = [] \<and> w_clock w' = c + 1 \<or>
     out = Threw \<and> (Q u' w' \<and> w_clock w' = c \<or> Q' u' w' \<and> w_clock w' = c + 1))"
proof -
  let ?w = "w\<lparr>w_busy := True\<rparr>"
  have nb: "\<not> w_busy w" and inv: "wheel_inv L B ?w" using start(2) by (simp_all add: wheel_ok_def)
  obtain u1 w1 t1 log1 where d1: "wheel_drain L B fire u ?w = (u1, w1, t1, log1)" by (cases "wheel_drain L B fire u ?w") auto
  have s1: "wheel_inv L B w1 \<and> w_clock w1 = c \<and> (if t1 then Q u1 w1 else P u1 w1 \<and> w_ready w1 = [])"
    by (rule wheel_drain_steps [where P = P and Q = Q and c = c, OF p keep throw _ inv _ d1])
      (use start busy in auto)
  show ?thesis
  proof (cases t1)
    case True
    then show ?thesis using t nb d1 s1 busy by (auto simp: wheel_tick_def wheel_ok_def)
  next
    case False
    let ?a = "wheel_advance L B w1"
    have a: "P' u1 ?a" "wheel_inv L B ?a" "w_clock ?a = c + 1"
      using move [of u1 w1] s1 False wheel_advance_spec(1) [OF p] by simp_all
    obtain u2 w2 t2 log2 where d2: "wheel_drain L B fire u1 ?a = (u2, w2, t2, log2)" by (cases "wheel_drain L B fire u1 ?a") auto
    have s2: "wheel_inv L B w2 \<and> w_clock w2 = c + 1 \<and> (if t2 then Q' u2 w2 else P' u2 w2 \<and> w_ready w2 = [])"
      by (rule wheel_drain_steps [where P = P' and Q = Q' and c = "c + 1", OF p keep' throw' a d2])
    show ?thesis using t nb d1 False d2 s2 busy by (auto simp: wheel_tick_def wheel_ok_def split: if_splits)
  qed
qed

end
