(* ===== verification/Store_State.thy ===== *)
theory Store_State
  imports Store Wheel_Togo
begin

text \<open>
  The invariants of the store: the live records agree with the page index, each batch of the history
  leads from one version's data to the next, and the wheel holds exactly the hooks of the keys with a
  deadline, each timely.  The expiry loop keeps the gathering invariant through every callback, throwing
  or not.
\<close>

section \<open>Live records, trimming and commits\<close>

type_synonym data = "string \<rightharpoonup> cell"

definition entry_live :: "entry option \<Rightarrow> (u64 \<times> cell) option" where
  "entry_live eo = (case eo of None \<Rightarrow> None
     | Some e \<Rightarrow> (case en_value e of None \<Rightarrow> None | Some v \<Rightarrow> Some (en_slot e, \<lparr>c_value = v, c_deadline = en_deadline e\<rparr>)))"

definition live :: "store \<Rightarrow> string \<Rightarrow> (u64 \<times> cell) option" where
  "live s k = entry_live (st_entries s k)"

definition store_data :: "store \<Rightarrow> data" where
  "store_data s k = map_option snd (live s k)"

definition index_ok :: "store \<Rightarrow> bool" where
  "index_ok s \<longleftrightarrow> agrees pages_ok page_find (live s) (st_index s)"

lemma entry_live_simps [simp]:
  "entry_live None = None" "en_value e = None \<Longrightarrow> entry_live (Some e) = None"
  "en_value e = Some v \<Longrightarrow> entry_live (Some e) = Some (en_slot e, \<lparr>c_value = v, c_deadline = en_deadline e\<rparr>)"
  by (simp_all add: entry_live_def)

text \<open>What trimming leaves alone.\<close>

definition same_core :: "store \<Rightarrow> store \<Rightarrow> bool" where
  "same_core s s' \<longleftrightarrow> live s' = live s \<and> st_index s' = st_index s \<and> st_version s' = st_version s
     \<and> st_capacity s' = st_capacity s \<and> st_retention s' = st_retention s \<and> st_interval s' = st_interval s
     \<and> st_clock s' = st_clock s \<and> st_cache s' = st_cache s"

lemma same_core_refl [simp]: "same_core s s"
  by (simp add: same_core_def)

lemma same_core_trans: "same_core s t \<Longrightarrow> same_core t u \<Longrightarrow> same_core s u"
  by (simp add: same_core_def)

lemma live_history [simp]: "live (s\<lparr>st_history := h\<rparr>) = live s" "live (s\<lparr>st_oldest := v\<rparr>) = live s"
  "live (s\<lparr>st_wheel := w\<rparr>) = live s" "live (s\<lparr>st_version := v\<rparr>) = live s" "live (s\<lparr>st_cache := c\<rparr>) = live s"
  "live (s\<lparr>st_index := i\<rparr>) = live s" "live (s\<lparr>st_clock := t\<rparr>) = live s"
  by (simp_all add: live_def fun_eq_iff)

lemma data_history [simp]: "store_data (s\<lparr>st_history := h\<rparr>) = store_data s" "store_data (s\<lparr>st_oldest := v\<rparr>) = store_data s"
  "store_data (s\<lparr>st_wheel := w\<rparr>) = store_data s" "store_data (s\<lparr>st_version := v\<rparr>) = store_data s"
  "store_data (s\<lparr>st_cache := c\<rparr>) = store_data s" "store_data (s\<lparr>st_index := i\<rparr>) = store_data s"
  "store_data (s\<lparr>st_clock := t\<rparr>) = store_data s"
  by (simp_all add: store_data_def fun_eq_iff)

lemma trim_record_core: "same_core s (trim_record s r) \<and> st_history (trim_record s r) = st_history s \<and> st_oldest (trim_record s r) = st_oldest s"
  by (auto simp: trim_record_def same_core_def live_def fun_eq_iff entry_live_def split: option.splits)

lemma trim_records_core:
  "same_core s (foldl trim_record s rs) \<and> st_history (foldl trim_record s rs) = st_history s \<and> st_oldest (foldl trim_record s rs) = st_oldest s"
proof (induction rs arbitrary: s)
  case (Cons r rs)
  then show ?case using trim_record_core [of s r] same_core_trans by (metis foldl_Cons)
qed simp

lemma trim_loop_core:
  assumes "trim_loop now bs s = s'"
  obtains k where "same_core s s'" "st_history s' = drop k bs" "k \<le> length bs"
    "st_oldest s' = (if k = 0 then st_oldest s else b_version (bs ! (k - 1)))"
    "length (st_history s') \<le> st_capacity s"
  using assms
proof (induction bs arbitrary: s thesis)
  case Nil
  then show ?case by (auto simp: same_core_def)
next
  case (Cons b bs)
  show ?case
  proof (cases "trim_due now s b (Suc (length bs))")
    case True
    let ?s = "(foldl trim_record s (b_records b))\<lparr>st_oldest := b_version b\<rparr>"
    have core: "same_core s ?s" using trim_records_core [of s "b_records b"] by (simp add: same_core_def)
    have "trim_loop now bs ?s = s'" using Cons.prems(2) True by simp
    then obtain k where k: "same_core ?s s'" "st_history s' = drop k bs" "k \<le> length bs"
      "st_oldest s' = (if k = 0 then st_oldest ?s else b_version (bs ! (k - 1)))"
      "length (st_history s') \<le> st_capacity ?s"
      using Cons.IH by blast
    show ?thesis
    proof (rule Cons.prems(1) [of "Suc k"])
      show "same_core s s'" using core k(1) same_core_trans by blast
      show "length (st_history s') \<le> st_capacity s" using k(5) core by (simp add: same_core_def)
      show "st_oldest s' = (if Suc k = 0 then st_oldest s else b_version ((b # bs) ! (Suc k - 1)))"
        using k(4) by (cases k) simp_all
    qed (use k in simp_all)
  next
    case False
    then have "s' = s\<lparr>st_history := b # bs\<rparr>" "Suc (length bs) \<le> st_capacity s"
      using Cons.prems(2) by (auto simp: trim_due_def)
    then show ?thesis by (intro Cons.prems(1) [of 0]) (simp_all add: same_core_def)
  qed
qed

section \<open>History\<close>

definition apply_delta :: "data \<Rightarrow> delta \<Rightarrow> data" where
  "apply_delta m r = m(d_key r := if d_deleted r then None
     else map_option (\<lambda>v. \<lparr>c_value = v, c_deadline = d_deadline r\<rparr>) (d_value r))"

definition apply_deltas :: "data \<Rightarrow> delta list \<Rightarrow> data" where
  "apply_deltas m rs = foldl apply_delta m rs"

text \<open>\<open>past n\<close> is the data at version \<open>n\<close>.  The history holds the batches after \<open>oldest\<close>, one for each
  version up to the current one, and each batch leads from one version's data to the next.\<close>

definition history_ok :: "(nat \<Rightarrow> data) \<Rightarrow> store \<Rightarrow> bool" where
  "history_ok past s \<longleftrightarrow>
     past (unat (st_version s)) = store_data s
     \<and> unat (st_oldest s) + length (st_history s) = unat (st_version s)
     \<and> (\<forall>i < length (st_history s). unat (b_version (st_history s ! i)) = unat (st_oldest s) + Suc i
          \<and> past (unat (st_oldest s) + Suc i) = apply_deltas (past (unat (st_oldest s) + i)) (b_records (st_history s ! i)))
     \<and> (\<forall>b \<in> set (st_history s). \<forall>r \<in> set (b_records b). d_version r = b_version b)
     \<and> length (st_history s) \<le> st_capacity s"

lemma trim_history_ok:
  assumes "past (unat (st_version s)) = store_data s"
    "unat (st_oldest s) + length (st_history s) = unat (st_version s)"
    "\<And>i. i < length (st_history s) \<Longrightarrow> unat (b_version (st_history s ! i)) = unat (st_oldest s) + Suc i
          \<and> past (unat (st_oldest s) + Suc i) = apply_deltas (past (unat (st_oldest s) + i)) (b_records (st_history s ! i))"
    "\<forall>b \<in> set (st_history s). \<forall>r \<in> set (b_records b). d_version r = b_version b"
  shows "history_ok past (store_trim now s)" "same_core s (store_trim now s)"
proof -
  obtain k where k: "same_core s (store_trim now s)" "st_history (store_trim now s) = drop k (st_history s)" "k \<le> length (st_history s)"
    "st_oldest (store_trim now s) = (if k = 0 then st_oldest s else b_version (st_history s ! (k - 1)))"
    "length (st_history (store_trim now s)) \<le> st_capacity s"
    using trim_loop_core [of now "st_history s" s "store_trim now s"] unfolding store_trim_def by blast
  have old: "unat (st_oldest (store_trim now s)) = unat (st_oldest s) + k"
    using k(3,4) assms(3) [of "k - 1"] by (cases k) simp_all
  have core: "st_version (store_trim now s) = st_version s" "store_data (store_trim now s) = store_data s"
    "st_capacity (store_trim now s) = st_capacity s"
    using k(1) by (simp_all add: same_core_def store_data_def fun_eq_iff)
  show "history_ok past (store_trim now s)"
    unfolding history_ok_def core old k(2)
    using assms(1,2,3) assms(4) [rule_format, OF in_set_dropD] k(3,5) by (auto simp: k(2) add.assoc)
  show "same_core s (store_trim now s)" by (rule k(1))
qed

section \<open>Expiry\<close>

lemma store_delay_timely:
  assumes "0 < interval" "interval \<le> i64_max" "0 \<le> boundary" "deadline \<le> i64_max"
  shows "store_delay interval boundary deadline \<le> wheel_limit 4 10"
    "deadline > boundary \<Longrightarrow>
      boundary + (int (unat (max (store_delay interval boundary deadline) 1)) - 1) * interval < deadline"
    "deadline \<le> boundary \<Longrightarrow> unat (max (store_delay interval boundary deadline) 1) = 1"
proof -
  show "store_delay interval boundary deadline \<le> wheel_limit 4 10" by (simp add: store_delay_def Let_def)
  show "deadline \<le> boundary \<Longrightarrow> unat (max (store_delay interval boundary deadline) 1) = 1"
    by (simp add: store_delay_def Let_def max_def)
  assume late: "deadline > boundary"
  define r where "r = deadline - boundary"
  have r: "0 < r" "r < 2 ^ 64" "interval < 2 ^ 64" using assms late by (auto simp: r_def i64_max_def)
  let ?w = "word_of_int r :: u64" and ?m = "word_of_int interval :: u64"
  have u: "uint ?w = r" "uint ?m = interval" using r assms(1) by (simp_all add: uint_word_of_int)
  define d where "d = ?w div ?m + (if ?w mod ?m \<noteq> 0 then 1 else 0)"
  have q: "uint (?w div ?m) = r div interval" by (simp add: uint_div u)
  have dm: "?w mod ?m \<noteq> 0 \<longleftrightarrow> r mod interval \<noteq> 0" by (metis u uint_mod uint_0_iff)
  have le: "int (unat d) \<le> r div interval + (if r mod interval \<noteq> 0 then 1 else 0)"
  proof -
    have "uint d \<le> uint (?w div ?m) + uint (if ?w mod ?m \<noteq> 0 then 1 else 0 :: u64)"
      unfolding d_def by (rule uint_add_le)
    then show ?thesis using q dm by (auto split: if_splits)
  qed
  have e: "r div interval * interval + r mod interval = r" "0 \<le> r mod interval" "0 \<le> r div interval"
    using assms(1) r(1) by (simp_all add: pos_imp_zdiv_nonneg_iff)
  have bound: "(J - 1) * interval < r" if "J \<le> r div interval + (if r mod interval \<noteq> 0 then 1 else 0)" for J
  proof (cases "r mod interval = 0")
    case True
    then have "(J - 1) * interval \<le> (r div interval - 1) * interval" using that assms(1) by (intro mult_right_mono) auto
    moreover have "(r div interval - 1) * interval = r - interval" using e True by (simp add: left_diff_distrib)
    ultimately show ?thesis using assms(1) by linarith
  next
    case False
    then have "(J - 1) * interval \<le> r div interval * interval" using that assms(1) by (intro mult_right_mono) auto
    then show ?thesis using e False by linarith
  qed
  let ?j = "max (store_delay interval boundary deadline) 1"
  have "int (unat ?j) \<le> r div interval + (if r mod interval \<noteq> 0 then 1 else 0)"
  proof -
    have "store_delay interval boundary deadline = min d (wheel_limit 4 10)"
      using late by (simp add: store_delay_def Let_def d_def r_def)
    then have "unat (store_delay interval boundary deadline) \<le> unat d" by (simp add: min_def word_le_nat_alt)
    moreover have "1 \<le> r div interval + (if r mod interval \<noteq> 0 then 1 else 0)"
      using e r(1) by (cases "r div interval = 0") auto
    moreover have "unat ?j = unat (store_delay interval boundary deadline) \<or> unat ?j = 1" by (simp add: max_def)
    ultimately show ?thesis using le by linarith
  qed
  from bound [OF this] show "boundary + (int (unat ?j) - 1) * interval < deadline" by (simp add: r_def)
qed

definition timely :: "bool \<Rightarrow> ns \<Rightarrow> int \<Rightarrow> ns \<Rightarrow> nat \<Rightarrow> bool" where
  "timely strict time interval deadline j \<longleftrightarrow>
     j = 0 \<or> \<not> strict \<and> j = 1 \<or> time + (int j - 1) * interval < deadline"

text \<open>The state between callbacks, at the boundary \<open>time\<close>: the gathered records are distinct live keys
  whose deadline has been reached, the wheel holds the hooks of the other keys with a deadline and
  no others, and each of them will be called back at the first boundary at or after its deadline.\<close>

definition finite_entry :: "store \<Rightarrow> string \<Rightarrow> ns \<Rightarrow> bool" where
  "finite_entry s k d \<longleftrightarrow> (\<exists>e v. st_entries s k = Some e \<and> en_value e = Some v \<and> en_deadline e = Some d)"

definition gathered :: "gathering \<Rightarrow> string set" where
  "gathered g = d_key ` set (g_records g)"

definition gather_ok :: "bool \<Rightarrow> store \<Rightarrow> ns \<Rightarrow> gathering \<Rightarrow> wheel \<Rightarrow> bool" where
  "gather_ok strict s time g w \<longleftrightarrow>
     agrees pages_ok page_find (live s) (g_index g)
     \<and> distinct (map d_key (g_records g))
     \<and> (\<forall>r \<in> set (g_records g). r = tombstone (d_key r) 0 \<and> (\<exists>d \<le> time. finite_entry s (d_key r) d))
     \<and> (\<forall>n. togo w n \<noteq> None \<longrightarrow> (\<exists>k d. n = hook k \<and> k \<notin> gathered g \<and> finite_entry s k d))
     \<and> (\<forall>k d. finite_entry s k d \<and> k \<notin> gathered g \<longrightarrow>
          (\<exists>j. togo w (hook k) = Some j \<and> timely strict time (st_interval s) d j))"

definition ranges_ok :: "store \<Rightarrow> bool" where
  "ranges_ok s \<longleftrightarrow> 0 < st_interval s \<and> st_interval s \<le> i64_max \<and> 0 \<le> st_retention s
     \<and> (\<forall>k e d. st_entries s k = Some e \<and> en_deadline e = Some d \<longrightarrow> d \<le> i64_max \<and> en_value e \<noteq> None)"

lemma gather_okI:
  assumes "agrees pages_ok page_find (live s) (g_index g)" "distinct (map d_key (g_records g))"
    "\<And>r. r \<in> set (g_records g) \<Longrightarrow> r = tombstone (d_key r) 0 \<and> (\<exists>d \<le> time. finite_entry s (d_key r) d)"
    "\<And>n. togo w n \<noteq> None \<Longrightarrow> \<exists>k d. n = hook k \<and> k \<notin> gathered g \<and> finite_entry s k d"
    "\<And>k d. finite_entry s k d \<Longrightarrow> k \<notin> gathered g \<Longrightarrow> \<exists>j. togo w (hook k) = Some j \<and> timely strict time (st_interval s) d j"
  shows "gather_ok strict s time g w"
  unfolding gather_ok_def using assms by blast

lemma gather_okD:
  assumes "gather_ok strict s time g w"
  shows "agrees pages_ok page_find (live s) (g_index g)" "distinct (map d_key (g_records g))"
    "\<And>r. r \<in> set (g_records g) \<Longrightarrow> r = tombstone (d_key r) 0 \<and> (\<exists>d \<le> time. finite_entry s (d_key r) d)"
    "\<And>n. togo w n \<noteq> None \<Longrightarrow> \<exists>k d. n = hook k \<and> k \<notin> gathered g \<and> finite_entry s k d"
    "\<And>k d. finite_entry s k d \<Longrightarrow> k \<notin> gathered g \<Longrightarrow> \<exists>j. togo w (hook k) = Some j \<and> timely strict time (st_interval s) d j"
  using assms unfolding gather_ok_def by blast+

lemma gather_ok_weaken: "gather_ok strict s time g w \<Longrightarrow> gather_ok False s time g w"
  unfolding gather_ok_def timely_def by (elim conjE, intro conjI) (assumption | metis)+

lemma hook_inj [simp]: "hook k = hook k' \<longleftrightarrow> k = k'"
  by (metis hook_key_hook)

lemma params_4_10: "wheel_params 4 10"
  by (simp add: wheel_params_def)

lemma expire_fire_step:
  assumes g: "gather_ok strict s C g w" and inv: "wheel_inv 4 10 w" and ready: "w_ready w = n # ns"
    and C: "time + (if c = before then 0 else st_interval s) = C" "0 \<le> C" and r: "ranges_ok s"
    and f: "expire_fire al s time before g c n = (g', rs, threw)"
  shows "gather_ok (strict \<and> \<not> threw) s C g' (wheel_requests 4 10 (w\<lparr>w_ready := ns\<rparr>) rs)"
proof -
  let ?w1 = "w\<lparr>w_ready := ns\<rparr>"
  have "togo w n = Some 0" using ready by (simp add: togo_def)
  then obtain k d where n: "n = hook k" "k \<notin> gathered g" "finite_entry s k d"
    using g unfolding gather_ok_def by blast
  then obtain e v where e: "st_entries s k = Some e" "en_value e = Some v" "en_deadline e = Some d"
    by (auto simp: finite_entry_def)
  have rng: "0 < st_interval s" "st_interval s \<le> i64_max" "d \<le> i64_max" using r e by (auto simp: ranges_ok_def)
  note delay = store_delay_timely [OF rng(1,2) C(2) rng(3)]
  have pop: "togo ?w1 m = (if m = n then None else togo w m)" for m by (rule togo_pop [OF inv ready])
  have d': "d = d'" if "finite_entry s k d'" for d' using that e by (auto simp: finite_entry_def)
  have again: "gather_ok b s C g (wheel_requests 4 10 ?w1 [schedule_request (st_interval s) C n (en_deadline e)])"
    if "b \<longrightarrow> strict \<and> d > C" for b
  proof -
    let ?w2 = "wheel_requests 4 10 ?w1 [schedule_request (st_interval s) C n (en_deadline e)]"
    have t: "togo ?w2 m = (if m = n then Some (unat (max (store_delay (st_interval s) C d) 1)) else togo w m)" for m
      using togo_schedule [OF delay(1), of ?w1 n m] pop by (simp add: wheel_requests_def schedule_request_def e)
    have "timely b C (st_interval s) d (unat (max (store_delay (st_interval s) C d) 1))"
      using delay(2,3) that by (cases "d > C") (auto simp: timely_def)
    moreover have "timely strict C (st_interval s) d' j \<Longrightarrow> timely b C (st_interval s) d' j" for d' j
      using that by (auto simp: timely_def)
    moreover have hk: "hook k' = n \<longleftrightarrow> k' = k" for k' by (simp add: n(1))
    ultimately have tm: "\<exists>j. togo ?w2 (hook k') = Some j \<and> timely b C (st_interval s) d2 j"
      if "finite_entry s k' d2" "k' \<notin> gathered g" for k' d2
      using gather_okD(5) [OF g that] that(1) d' by (cases "k' = k") (auto simp: t hk)
    show ?thesis
    proof (intro gather_okI gather_okD(1,2,3) [OF g] tm)
      show "\<exists>k d. m = hook k \<and> k \<notin> gathered g \<and> finite_entry s k d" if "togo ?w2 m \<noteq> None" for m
      proof (cases "m = n")
        case True
        then show ?thesis using n by blast
      next
        case False
        then show ?thesis using gather_okD(4) [OF g, of m] that by (simp add: t)
      qed
    qed
  qed
  show ?thesis
  proof (cases "d > C \<or> \<not> al_record al (length (g_records g))")
    case True
    then have "g' = g" "rs = [schedule_request (st_interval s) C n (en_deadline e)]" "threw \<longleftrightarrow> d \<le> C"
      using f by (auto simp: expire_fire_def n(1) e C(1) Let_def split: if_splits)
    then show ?thesis using again [of "strict \<and> \<not> threw"] by auto
  next
    case False
    obtain b q where q: "page_prepare (al_roots al (length (g_records g))) (al_pages al (length (g_records g))) (en_slot e) (g_index g) = (b, q)"
      by fastforce
    have f': "g' = \<lparr>g_records = g_records g @ [tombstone k 0], g_index = q\<rparr>" "rs = []" "threw = (\<not> b)"
      using f False q by (auto simp: expire_fire_def n(1) e C(1) Let_def)
    have dC: "d \<le> C" using False by simp
    have gs: "gathered g' = insert k (gathered g)" by (auto simp: gathered_def f'(1) tombstone_def)
    have w: "wheel_requests 4 10 ?w1 rs = ?w1" by (simp add: f'(2) wheel_requests_def)
    have weak: "timely (strict \<and> \<not> threw) C (st_interval s) d' j" if "timely strict C (st_interval s) d' j" for d' j
      using that by (auto simp: timely_def)
    show ?thesis unfolding w
    proof (rule gather_okI)
      show "agrees pages_ok page_find (live s) (g_index g')"
        using pages_index.agrees_prepare [OF gather_okD(1) [OF g] q] by (simp add: f'(1))
      show "distinct (map d_key (g_records g'))"
        using gather_okD(2) [OF g] n(2) by (auto simp: f'(1) tombstone_def gathered_def)
      show "r = tombstone (d_key r) 0 \<and> (\<exists>d\<le>C. finite_entry s (d_key r) d)" if "r \<in> set (g_records g')" for r
        using that gather_okD(3) [OF g, of r] n(3) dC by (auto simp: f'(1) tombstone_def)
      show "\<exists>k d. m = hook k \<and> k \<notin> gathered g' \<and> finite_entry s k d" if "togo ?w1 m \<noteq> None" for m
        using that gather_okD(4) [OF g, of m] n(1) by (auto simp: pop gs split: if_splits)
      show "\<exists>j. togo ?w1 (hook k') = Some j \<and> timely (strict \<and> \<not> threw) C (st_interval s) d' j"
        if "finite_entry s k' d'" "k' \<notin> gathered g'" for k' d'
        using gather_okD(5) [OF g that(1)] that(2) n(1) weak by (auto simp: pop gs)
    qed
  qed
qed

lemma gather_ok_advance:
  assumes "gather_ok False s C g w" "wheel_inv 4 10 w" "w_ready w = []" "0 < st_interval s"
  shows "gather_ok True s (C + st_interval s) g (wheel_advance 4 10 w)"
proof (rule gather_okI)
  note t = togo_advance [OF params_4_10 assms(2,3)]
  show "r = tombstone (d_key r) 0 \<and> (\<exists>d\<le>C + st_interval s. finite_entry s (d_key r) d)" if "r \<in> set (g_records g)" for r
    using gather_okD(3) [OF assms(1) that] assms(4) by (meson add_increasing2 less_imp_le)
  show "\<exists>k d. n = hook k \<and> k \<notin> gathered g \<and> finite_entry s k d" if "togo (wheel_advance 4 10 w) n \<noteq> None" for n
    using gather_okD(4) [OF assms(1)] that by (auto simp: t)
  show "\<exists>j. togo (wheel_advance 4 10 w) (hook k) = Some j \<and> timely True (C + st_interval s) (st_interval s) d j"
    if fin: "finite_entry s k d" "k \<notin> gathered g" for k d
  proof -
    obtain j where j: "togo w (hook k) = Some j" "timely False C (st_interval s) d j"
      using gather_okD(5) [OF assms(1) fin] by blast
    have "timely True (C + st_interval s) (st_interval s) d (j - 1)"
      using j(2) by (cases "j \<le> 1") (auto simp: timely_def of_nat_diff algebra_simps)
    then show ?thesis using j(1) by (auto simp: t)
  qed
qed (rule gather_okD(1,2) [OF assms(1)])+


lemma gather_ok_busy [simp]: "gather_ok strict s C g (w\<lparr>w_busy := b\<rparr>) = gather_ok strict s C g w"
  by (simp add: gather_ok_def)

lemma expire_tick:
  assumes "gather_ok False s time g w" "wheel_ok 4 10 w" "ranges_ok s" "0 \<le> time"
    "wheel_tick 4 10 (expire_fire al s time (w_clock w)) g w = (out, g', w', log)"
  shows "wheel_ok 4 10 w'"
    "out = Ticked \<Longrightarrow> gather_ok True s (time + st_interval s) g' w' \<and> w_ready w' = []"
    "out \<noteq> Ticked \<Longrightarrow> gather_ok False s (if w_clock w' \<noteq> w_clock w then time + st_interval s else time) g' w'"
proof -
  let ?i = "st_interval s" and ?c = "w_clock w"
  have i: "0 < ?i" using assms(3) by (simp add: ranges_ok_def)
  have ne: "?c + 1 \<noteq> ?c" by simp
  have step1: "gather_ok False s time v (wheel_requests 4 10 (x\<lparr>w_ready := ns\<rparr>) rs)"
    if "gather_ok False s time u x" "wheel_inv 4 10 x" "w_ready x = n # ns" "expire_fire al s time ?c u ?c n = (v, rs, threw)"
    for u x n ns v rs threw
    using expire_fire_step [OF that(1-3) _ assms(4) assms(3) that(4)] by simp
  have step2: "gather_ok (\<not> threw) s (time + ?i) v (wheel_requests 4 10 (x\<lparr>w_ready := ns\<rparr>) rs)"
    if "gather_ok True s (time + ?i) u x" "wheel_inv 4 10 x" "w_ready x = n # ns" "expire_fire al s time ?c u (?c + 1) n = (v, rs, threw)"
    for u x n ns v rs threw
    using expire_fire_step [OF that(1-3) _ _ assms(3) that(4)] assms(4) i ne by simp
  have "wheel_ok 4 10 w' \<and>
    (out = Ticked \<and> gather_ok True s (time + ?i) g' w' \<and> w_ready w' = [] \<and> w_clock w' = ?c + 1 \<or>
     out = Threw \<and> (gather_ok False s time g' w' \<and> w_clock w' = ?c \<or> gather_ok False s (time + ?i) g' w' \<and> w_clock w' = ?c + 1))"
  proof (rule wheel_tick_steps [OF params_4_10, where P = "gather_ok False s time" and Q = "gather_ok False s time"
        and P' = "gather_ok True s (time + ?i)" and Q' = "gather_ok False s (time + ?i)" and c = ?c, OF _ _ _ _ _ _ _ _ _ assms(1,2) refl assms(5)])
    show "gather_ok True s (time + ?i) u (wheel_advance 4 10 x)"
      if "gather_ok False s time u x" "wheel_inv 4 10 x" "w_ready x = []" for u x
      by (rule gather_ok_advance [OF that i])
  qed (use step1 step2 [where threw = False] step2 [where threw = True] in \<open>simp_all, blast+\<close>)
  then show "wheel_ok 4 10 w'"
    "out = Ticked \<Longrightarrow> gather_ok True s (time + ?i) g' w' \<and> w_ready w' = []"
    "out \<noteq> Ticked \<Longrightarrow> gather_ok False s (if w_clock w' \<noteq> ?c then time + ?i else time) g' w'"
    using ne by auto
qed

lemma expire_loop_ok:
  assumes "gather_ok False s time g w" "wheel_ok 4 10 w" "ranges_ok s" "0 \<le> time"
    "expire_loop al s k g time w = (fin, g', time', w')"
  shows "wheel_ok 4 10 w' \<and> gather_ok False s time' g' w' \<and> time \<le> time' \<and> time' \<le> time + int k * st_interval s \<and>
    (fin \<longrightarrow> time' = time + int k * st_interval s \<and> (0 < k \<longrightarrow> gather_ok True s time' g' w' \<and> w_ready w' = []))"
  using assms
proof (induction k arbitrary: g time w)
  case 0
  then show ?case by simp
next
  case (Suc k)
  let ?i = "st_interval s"
  have i: "0 < ?i" using assms(3) by (simp add: ranges_ok_def)
  obtain out g1 w1 log where t: "wheel_tick 4 10 (expire_fire al s time (w_clock w)) g w = (out, g1, w1, log)"
    by (cases "wheel_tick 4 10 (expire_fire al s time (w_clock w)) g w") auto
  note s1 = expire_tick [OF Suc.prems(1-4) t]
  show ?case
  proof (cases "out = Ticked")
    case True
    then have l: "expire_loop al s k g1 (time + ?i) w1 = (fin, g', time', w')" using Suc.prems(5) t by simp
    have ok: "gather_ok True s (time + ?i) g1 w1" "w_ready w1 = []" using s1(2) True by simp_all
    have "wheel_ok 4 10 w' \<and> gather_ok False s time' g' w' \<and> time + ?i \<le> time' \<and> time' \<le> time + ?i + int k * ?i \<and>
      (fin \<longrightarrow> time' = time + ?i + int k * ?i \<and> (0 < k \<longrightarrow> gather_ok True s time' g' w' \<and> w_ready w' = []))"
      by (rule Suc.IH [OF gather_ok_weaken [OF ok(1)] s1(1) assms(3) _ l]) (use Suc.prems(4) i in simp)
    moreover have "fin \<longrightarrow> gather_ok True s time' g' w' \<and> w_ready w' = []" if "k = 0" using l that ok by auto
    ultimately show ?thesis using i by (auto simp: algebra_simps)
  next
    case False
    then have "fin = False" "g' = g1" "w' = w1" "time' = (if w_clock w1 \<noteq> w_clock w then time + ?i else time)"
      using Suc.prems(5) t by (auto simp: Let_def)
    then show ?thesis using s1(1) s1(3) [OF False] i by (auto simp: algebra_simps add_increasing)
  qed
qed

section \<open>The invariant of the store\<close>

lemma finite_entry_live: "finite_entry s k d \<longleftrightarrow> (\<exists>sl c. live s k = Some (sl, c) \<and> c_deadline c = Some d)"
  by (auto simp: finite_entry_def live_def entry_live_def split: option.splits)

definition idle :: "store \<Rightarrow> gathering" where
  "idle s = \<lparr>g_records = [], g_index = st_index s\<rparr>"

lemma gathered_idle [simp]: "gathered (idle s) = {}"
  by (simp add: gathered_def idle_def)

lemma idle_fields [simp]: "g_records (idle s) = []" "g_index (idle s) = st_index s"
  by (simp_all add: idle_def)

definition timers_ok :: "store \<Rightarrow> bool" where
  "timers_ok s \<longleftrightarrow> (case st_clock s of
      None \<Rightarrow> (\<forall>n. togo (st_wheel s) n = None) \<and> (\<forall>k d. \<not> finite_entry s k d)
    | Some t \<Rightarrow> 0 \<le> t \<and> gather_ok False s t (idle s) (st_wheel s))"

definition cache_ok :: "store \<Rightarrow> bool" where
  "cache_ok s \<longleftrightarrow> (\<forall>c. st_cache s = Some c \<longrightarrow> sn_version c = st_version s \<and> sn_data c = store_data s)"

definition state_ok :: "store \<Rightarrow> bool" where
  "state_ok s \<longleftrightarrow> index_ok s \<and> ranges_ok s \<and> wheel_ok 4 10 (st_wheel s) \<and> timers_ok s"

definition store_ok :: "(nat \<Rightarrow> data) \<Rightarrow> store \<Rightarrow> bool" where
  "store_ok past s \<longleftrightarrow> state_ok s \<and> history_ok past s \<and> cache_ok s"

lemma gather_ok_live:
  assumes "live s' = live s" "st_interval s' = st_interval s" "togo w' = togo w"
  shows "gather_ok strict s' t g w' = gather_ok strict s t g w"
  using assms by (simp add: gather_ok_def finite_entry_live)

lemma timers_held_live:
  assumes "timers_ok s" "togo (st_wheel s) (hook k) \<noteq> None"
  shows "live s k \<noteq> None"
  using assms by (auto simp: timers_ok_def gather_ok_def finite_entry_live split: option.splits)

lemma wheel_ok_cancel: "wheel_ok 4 10 w \<Longrightarrow> wheel_ok 4 10 (wheel_cancel w n)"
  by (simp add: wheel_ok_def wheel_cancel_inv)

lemma wheel_ok_request: "wheel_ok 4 10 w \<Longrightarrow> wheel_ok 4 10 (wheel_request 4 10 w r)"
  by (cases r) (simp_all add: wheel_ok_def wheel_cancel_inv wheel_schedule_inv params_4_10)

subsection \<open>Trimming\<close>

definition trims :: "store \<Rightarrow> store \<Rightarrow> bool" where
  "trims s s' \<longleftrightarrow> same_core s s' \<and> togo (st_wheel s') = togo (st_wheel s)
     \<and> (wheel_ok 4 10 (st_wheel s) \<longrightarrow> wheel_ok 4 10 (st_wheel s')) \<and> (ranges_ok s \<longrightarrow> ranges_ok s')"

lemma trims_refl: "trims s s"
  by (simp add: trims_def)

lemma trims_trans: "trims s t \<Longrightarrow> trims t u \<Longrightarrow> trims s u"
  using same_core_trans by (auto simp: trims_def)

lemma ranges_update: "ranges_ok s \<Longrightarrow> st_entries s' = st_entries s \<Longrightarrow> st_interval s' = st_interval s \<Longrightarrow>
    st_retention s' = st_retention s \<Longrightarrow> ranges_ok s'"
  unfolding ranges_ok_def by metis

lemma trims_held: "trims s s' \<Longrightarrow> \<forall>k. togo (st_wheel s) (hook k) \<noteq> None \<longrightarrow> live s k \<noteq> None \<Longrightarrow>
    \<forall>k. togo (st_wheel s') (hook k) \<noteq> None \<longrightarrow> live s' k \<noteq> None"
  unfolding trims_def same_core_def by metis

lemma trim_record_trims:
  assumes "\<forall>k. togo (st_wheel s) (hook k) \<noteq> None \<longrightarrow> live s k \<noteq> None"
  shows "trims s (trim_record s r)"
proof (cases "trim_record s r = s")
  case False
  then obtain e where e: "st_entries s (d_key r) = Some e" "en_value e = None"
    "trim_record s r = s\<lparr>st_entries := (st_entries s)(d_key r := None), st_wheel := wheel_cancel (st_wheel s) (hook (d_key r))\<rparr>"
    by (auto simp: trim_record_def split: if_splits option.splits)
  have "live s (d_key r) = None" using e by (simp add: live_def)
  then have "togo (st_wheel s) (hook (d_key r)) = None" using assms by blast
  then have "togo (wheel_cancel (st_wheel s) (hook (d_key r))) = togo (st_wheel s)" by (auto simp: togo_cancel)
  then show ?thesis
    using trim_record_core [of s r] e wheel_ok_cancel by (auto simp: trims_def ranges_ok_def)
qed (simp add: trims_refl)

lemma trim_records_trims:
  "\<forall>k. togo (st_wheel s) (hook k) \<noteq> None \<longrightarrow> live s k \<noteq> None \<Longrightarrow> trims s (foldl trim_record s rs)"
proof (induction rs arbitrary: s)
  case Nil
  then show ?case by (simp add: trims_refl)
next
  case (Cons r rs)
  note t = trim_record_trims [OF Cons.prems, of r]
  then have "trims (trim_record s r) (foldl trim_record (trim_record s r) rs)"
    by (intro Cons.IH trims_held [OF t Cons.prems])
  then show ?case using t trims_trans by (metis foldl_Cons)
qed

lemma trim_trims:
  "\<forall>k. togo (st_wheel s) (hook k) \<noteq> None \<longrightarrow> live s k \<noteq> None \<Longrightarrow> trims s (trim_loop now bs s)"
proof (induction bs arbitrary: s)
  case Nil
  then show ?case by (auto simp: trims_def same_core_def ranges_ok_def)
next
  case (Cons b bs)
  let ?s = "(foldl trim_record s (b_records b))\<lparr>st_oldest := b_version b\<rparr>"
  have t: "trims s ?s"
    using trim_records_trims [OF Cons.prems, of "b_records b"] ranges_update [of "foldl trim_record s (b_records b)" ?s]
    by (simp add: trims_def same_core_def)
  then have "trims ?s (trim_loop now bs ?s)"
    by (intro Cons.IH trims_held [OF t Cons.prems])
  then have "trims s (trim_loop now bs ?s)" using t trims_trans by blast
  moreover have "trims s (s\<lparr>st_history := b # bs\<rparr>)"
    using ranges_update [of s "s\<lparr>st_history := b # bs\<rparr>"] by (simp add: trims_def same_core_def)
  ultimately show ?case by simp
qed

lemma trims_state_ok: "trims s s' \<Longrightarrow> state_ok s \<Longrightarrow> state_ok s'"
  by (auto simp: state_ok_def trims_def same_core_def index_ok_def timers_ok_def finite_entry_live idle_def
      gather_ok_live [of s' s] split: option.splits)

lemma store_trim_state:
  assumes "state_ok s"
  shows "state_ok (store_trim now s)" "trims s (store_trim now s)"
proof -
  have "\<forall>k. togo (st_wheel s) (hook k) \<noteq> None \<longrightarrow> live s k \<noteq> None"
    using assms timers_held_live by (auto simp: state_ok_def)
  then show "trims s (store_trim now s)" unfolding store_trim_def by (rule trim_trims)
  then show "state_ok (store_trim now s)" using assms by (rule trims_state_ok)
qed

end
