(* ===== verification/Store_Commit.thy ===== *)
theory Store_Commit
  imports Store_State
begin

text \<open>
  Commits: writing and removing one key keep the invariants and have the stated effect, and an
  operation that throws leaves the observable state alone.
\<close>

subsection \<open>Commits\<close>

lemma ranges_ok_frame [simp]:
  "ranges_ok (s\<lparr>st_cache := c\<rparr>) = ranges_ok s" "ranges_ok (s\<lparr>st_version := v\<rparr>) = ranges_ok s"
  "ranges_ok (s\<lparr>st_history := h\<rparr>) = ranges_ok s" "ranges_ok (s\<lparr>st_index := i\<rparr>) = ranges_ok s"
  "ranges_ok (s\<lparr>st_wheel := w\<rparr>) = ranges_ok s" "ranges_ok (s\<lparr>st_clock := t\<rparr>) = ranges_ok s"
  unfolding ranges_ok_def by simp_all

lemma finite_entry_frame [simp]:
  "finite_entry (s\<lparr>st_cache := c\<rparr>) = finite_entry s" "finite_entry (s\<lparr>st_version := v\<rparr>) = finite_entry s"
  "finite_entry (s\<lparr>st_history := h\<rparr>) = finite_entry s" "finite_entry (s\<lparr>st_index := i\<rparr>) = finite_entry s"
  "finite_entry (s\<lparr>st_wheel := w\<rparr>) = finite_entry s" "finite_entry (s\<lparr>st_clock := t\<rparr>) = finite_entry s"
  by (simp_all add: finite_entry_live fun_eq_iff)

lemma gather_ok_frame [simp]:
  "gather_ok b (s\<lparr>st_cache := c\<rparr>) = gather_ok b s" "gather_ok b (s\<lparr>st_version := v\<rparr>) = gather_ok b s"
  "gather_ok b (s\<lparr>st_history := h\<rparr>) = gather_ok b s" "gather_ok b (s\<lparr>st_index := i\<rparr>) = gather_ok b s"
  "gather_ok b (s\<lparr>st_wheel := w\<rparr>) = gather_ok b s" "gather_ok b (s\<lparr>st_clock := t\<rparr>) = gather_ok b s"
  by (simp_all add: gather_ok_def fun_eq_iff)

lemma state_ok_frame [simp]:
  "state_ok (s\<lparr>st_cache := c\<rparr>) = state_ok s" "state_ok (s\<lparr>st_version := v\<rparr>) = state_ok s"
  "state_ok (s\<lparr>st_history := h\<rparr>) = state_ok s"
  by (simp_all add: state_ok_def index_ok_def timers_ok_def idle_def cong: option.case_cong)

lemma history_ok_frame [simp]: "history_ok past (s\<lparr>st_cache := c\<rparr>) = history_ok past s"
  "history_ok past (s\<lparr>st_wheel := w\<rparr>) = history_ok past s" "history_ok past (s\<lparr>st_index := i\<rparr>) = history_ok past s"
  "history_ok past (s\<lparr>st_clock := t\<rparr>) = history_ok past s"
  by (simp_all add: history_ok_def)

lemma unat_next_version: "v \<noteq> - 1 \<Longrightarrow> unat (v + 1 :: u64) = Suc (unat v)"
  using unat_less_max [of v] by (simp add: unat_succ)

lemma history_append:
  assumes "history_ok past s" "st_version s \<noteq> - 1"
    "st_version s2 = st_version s + 1" "st_history s2 = st_history s @ [b]" "st_oldest s2 = st_oldest s"
    "b_version b = st_version s + 1" "\<forall>r \<in> set (b_records b). d_version r = b_version b"
    "store_data s2 = apply_deltas (store_data s) (b_records b)"
  shows "history_ok (past(unat (st_version s2) := store_data s2)) (store_trim now s2)"
proof (rule trim_history_ok(1))
  let ?past = "past(unat (st_version s2) := store_data s2)"
  note h = assms(1) [unfolded history_ok_def]
  have v: "unat (st_version s2) = Suc (unat (st_version s))"
    using unat_next_version [OF assms(2)] assms(3) by simp
  have len: "unat (st_oldest s) + length (st_history s) = unat (st_version s)" using h by blast
  show "?past (unat (st_version s2)) = store_data s2" by simp
  show "unat (st_oldest s2) + length (st_history s2) = unat (st_version s2)" using len v assms(4,5) by simp
  show "\<forall>b \<in> set (st_history s2). \<forall>r \<in> set (b_records b). d_version r = b_version b"
    using h assms(4,7) by auto
  show "unat (b_version (st_history s2 ! i)) = unat (st_oldest s2) + Suc i
      \<and> ?past (unat (st_oldest s2) + Suc i) = apply_deltas (?past (unat (st_oldest s2) + i)) (b_records (st_history s2 ! i))"
    if i: "i < length (st_history s2)" for i
  proof (cases "i < length (st_history s)")
    case True
    then have "unat (st_oldest s) + Suc i < unat (st_version s2)" using len v by simp
    then show ?thesis using h True assms(4,5) by (simp add: nth_append)
  next
    case False
    then have i': "i = length (st_history s)" using i assms(4) by simp
    have "past (unat (st_version s)) = store_data s" using h by blast
    then show ?thesis using i' len v assms(3-6,8) by (simp add: nth_append)
  qed
qed

lemma commit_ok:
  assumes "history_ok past s" "st_version s \<noteq> - 1" "state_ok s2"
    "st_version s2 = st_version s + 1" "st_history s2 = st_history s @ [b]" "st_oldest s2 = st_oldest s"
    "b_version b = st_version s + 1" "\<forall>r \<in> set (b_records b). d_version r = b_version b"
    "store_data s2 = apply_deltas (store_data s) (b_records b)"
  shows "store_ok (past(unat (st_version s + 1) := apply_deltas (store_data s) (b_records b))) ((store_trim now s2)\<lparr>st_cache := None\<rparr>)"
    "store_data ((store_trim now s2)\<lparr>st_cache := None\<rparr>) = apply_deltas (store_data s) (b_records b)"
    "st_version ((store_trim now s2)\<lparr>st_cache := None\<rparr>) = st_version s + 1"
    "st_clock ((store_trim now s2)\<lparr>st_cache := None\<rparr>) = st_clock s2"
proof -
  let ?t = "store_trim now s2"
  let ?s = "?t\<lparr>st_cache := None\<rparr>"
  note t = store_trim_state [OF assms(3), of now]
  have core: "store_data ?t = store_data s2" "st_version ?t = st_version s2" "st_clock ?t = st_clock s2"
    using t(2) by (simp_all add: trims_def same_core_def store_data_def fun_eq_iff)
  show "store_data ?s = apply_deltas (store_data s) (b_records b)" "st_version ?s = st_version s + 1" "st_clock ?s = st_clock s2"
    using core assms(4,9) by simp_all
  show "store_ok (past(unat (st_version s + 1) := apply_deltas (store_data s) (b_records b))) ?s"
    using history_append [OF assms(1,2,4-9), of now] t(1) assms(4,9)
    by (simp add: store_ok_def cache_ok_def)
qed


subsection \<open>Writing\<close>

lemma state_ok_index:
  assumes "state_ok s" "agrees pages_ok page_find (live s) i"
  shows "state_ok (s\<lparr>st_index := i\<rparr>)"
  using assms by (auto simp: state_ok_def index_ok_def timers_ok_def gather_ok_def gathered_def idle_def split: option.splits)

lemma live_put: "live (s\<lparr>st_entries := (st_entries s)(k \<mapsto> e)\<rparr>) = (live s)(k := entry_live (Some e))"
  by (auto simp: live_def fun_eq_iff)

lemma request_togo:
  assumes "ranges_ok s" "0 \<le> t" "\<And>d. deadline = Some d \<Longrightarrow> d \<le> i64_max"
  shows "togo (wheel_request 4 10 w (schedule_request (st_interval s) t n deadline)) m =
    (if m = n then map_option (\<lambda>d. unat (max (store_delay (st_interval s) t d) 1)) deadline else togo w m)"
    "deadline = Some d \<Longrightarrow> timely False t (st_interval s) d (unat (max (store_delay (st_interval s) t d) 1))"
proof -
  have r: "0 < st_interval s" "st_interval s \<le> i64_max" using assms(1) by (auto simp: ranges_ok_def)
  show "togo (wheel_request 4 10 w (schedule_request (st_interval s) t n deadline)) m =
    (if m = n then map_option (\<lambda>d. unat (max (store_delay (st_interval s) t d) 1)) deadline else togo w m)"
    using store_delay_timely(1) [OF r assms(2)] assms(3)
    by (cases deadline) (auto simp: schedule_request_def togo_cancel togo_schedule)
  show "deadline = Some d \<Longrightarrow> timely False t (st_interval s) d (unat (max (store_delay (st_interval s) t d) 1))"
    using store_delay_timely(2,3) [OF r assms(2), of d] assms(3) by (cases "d > t") (auto simp: timely_def)
qed

text \<open>Writing one entry: the index, the entry and its hook together.\<close>

lemma put_state:
  assumes "state_ok s" "e = \<lparr>en_slot = slot, en_value = Some v, en_version = ver, en_deadline = deadline\<rparr>"
    "agrees pages_ok page_find ((live s)(key \<mapsto> (slot, \<lparr>c_value = v, c_deadline = deadline\<rparr>))) i"
    "\<And>d. deadline = Some d \<Longrightarrow> d \<le> i64_max" "deadline \<noteq> None \<Longrightarrow> st_clock s \<noteq> None"
    "s1 = s\<lparr>st_index := i, st_entries := (st_entries s)(key \<mapsto> e), st_history := h\<rparr>"
    "s2 = (case st_clock s1 of None \<Rightarrow> s1 | Some c \<Rightarrow> store_schedule key c s1)"
  shows "state_ok s2"
    "live s2 = (live s)(key \<mapsto> (slot, \<lparr>c_value = v, c_deadline = deadline\<rparr>))"
    "st_version s2 = st_version s" "st_history s2 = h" "st_oldest s2 = st_oldest s" "st_clock s2 = st_clock s"
proof -
  let ?live = "(live s)(key \<mapsto> (slot, \<lparr>c_value = v, c_deadline = deadline\<rparr>))"
  have l1: "live s1 = ?live" using live_put [of s key e] by (simp add: assms(2,6) live_def fun_eq_iff)
  have fields: "live s2 = live s1" "st_version s2 = st_version s" "st_history s2 = h" "st_oldest s2 = st_oldest s"
    "st_clock s2 = st_clock s" "st_index s2 = i" "st_entries s2 = st_entries s1" "st_interval s2 = st_interval s"
    "st_retention s2 = st_retention s"
    by (auto simp: assms(6,7) store_schedule_def split: option.splits)
  then show "live s2 = ?live" "st_version s2 = st_version s" "st_history s2 = h" "st_oldest s2 = st_oldest s" "st_clock s2 = st_clock s"
    using l1 by simp_all
  have fin: "finite_entry s2 k d \<longleftrightarrow> (if k = key then deadline = Some d else finite_entry s k d)" for k d
    using fields(1) l1 by (auto simp: finite_entry_live)
  have r: "ranges_ok s" using assms(1) by (simp add: state_ok_def)
  have r1: "ranges_ok s1" using r assms(4) by (auto simp: ranges_ok_def assms(2,6))
  then have "ranges_ok s2" by (rule ranges_update) (use fields in \<open>simp_all add: assms(6)\<close>)
  moreover have "index_ok s2" using assms(3) fields l1 by (simp add: index_ok_def)
  moreover have "wheel_ok 4 10 (st_wheel s2)"
    using assms(1) wheel_ok_request by (auto simp: assms(6,7) store_schedule_def state_ok_def split: option.splits)
  moreover have "timers_ok s2"
  proof (cases "st_clock s")
    case None
    then have "deadline = None" using assms(5) by blast
    moreover have "\<not> finite_entry s k d" "togo (st_wheel s) n = None" for k d n
      using assms(1) None by (simp_all add: state_ok_def timers_ok_def)
    moreover have "st_wheel s2 = st_wheel s" using None by (simp add: assms(6,7))
    ultimately show ?thesis using None by (simp add: timers_ok_def fields(5) fin)
  next
    case (Some c)
    have g: "0 \<le> c" "gather_ok False s c (idle s) (st_wheel s)" using assms(1) Some by (simp_all add: state_ok_def timers_ok_def)
    have w: "st_wheel s2 = wheel_request 4 10 (st_wheel s) (schedule_request (st_interval s) c (hook key) deadline)"
      using Some by (simp add: assms(2,6,7) store_schedule_def)
    note t1 = request_togo(1) [OF r g(1) assms(4), where w = "st_wheel s" and n = "hook key"]
    note t2 = request_togo(2) [OF r g(1) assms(4)]
    have "gather_ok False s2 c (idle s2) (st_wheel s2)"
    proof (rule gather_okI)
      show "agrees pages_ok page_find (live s2) (g_index (idle s2))" using assms(3) fields l1 by simp
      show "\<exists>k d. m = hook k \<and> k \<notin> gathered (idle s2) \<and> finite_entry s2 k d" if held: "togo (st_wheel s2) m \<noteq> None" for m
      proof (cases "m = hook key")
        case True
        then obtain d where "deadline = Some d" using held by (auto simp: w t1)
        then show ?thesis using True by (auto simp: fin)
      next
        case False
        then have "togo (st_wheel s) m \<noteq> None" using held by (simp add: w t1)
        from gather_okD(4) [OF g(2) this] obtain k d where "m = hook k" "finite_entry s k d" by blast
        with False show ?thesis by (auto simp: fin)
      qed
      show "\<exists>j. togo (st_wheel s2) (hook k) = Some j \<and> timely False c (st_interval s2) d j"
        if "finite_entry s2 k d" "k \<notin> gathered (idle s2)" for k d
      proof (cases "k = key")
        case True
        then have "deadline = Some d" using that(1) by (simp add: fin)
        then show ?thesis using t2 True by (simp add: w t1 fields)
      next
        case False
        then show ?thesis using that(1) gather_okD(5) [OF g(2), of k d] by (simp add: fin w t1 fields)
      qed
    qed simp_all
    then show ?thesis using Some g(1) fields by (simp add: timers_ok_def)
  qed
  ultimately show "state_ok s2" by (simp add: state_ok_def)
qed


lemma bury_state:
  assumes g: "gather_ok strict s t \<lparr>g_records = r # rs, g_index = st_index s\<rparr> (st_wheel s)"
    and e: "st_entries s (d_key r) = Some e" and s': "s' = bury ver s (d_key r)"
  shows "gather_ok strict s' t \<lparr>g_records = rs, g_index = st_index s'\<rparr> (st_wheel s')"
    "live s' = (live s)(d_key r := None)"
proof -
  let ?k = "d_key r"
  have b: "s' = s\<lparr>st_index := page_erase (en_slot e) (st_index s), st_wheel := wheel_cancel (st_wheel s) (hook ?k),
      st_entries := (st_entries s)(?k \<mapsto> e\<lparr>en_value := None, en_version := ver, en_deadline := None\<rparr>)\<rparr>"
    using e s' by (simp add: bury_def)
  show l: "live s' = (live s)(?k := None)" by (auto simp: b live_def fun_eq_iff)
  obtain d where fin: "finite_entry s ?k d" using gather_okD(3) [OF g, of r] by auto
  then obtain v where "live s ?k = Some (en_slot e, \<lparr>c_value = v, c_deadline = Some d\<rparr>)"
    using e by (auto simp: finite_entry_def live_def)
  from pages_index.agrees_drop [OF gather_okD(1) [OF g, unfolded gathering.simps] this]
  have a: "agrees pages_ok page_find (live s') (st_index s')" by (simp add: l) (simp add: b)
  have f: "finite_entry s' k d \<longleftrightarrow> k \<noteq> ?k \<and> finite_entry s k d" for k d
    using l by (auto simp: finite_entry_live)
  have ga: "gathered \<lparr>g_records = r # rs, g_index = x\<rparr> = insert ?k (gathered \<lparr>g_records = rs, g_index = y\<rparr>)" for x y
    by (simp add: gathered_def)
  have tg: "togo (st_wheel s') m = (if m = hook ?k then None else togo (st_wheel s) m)" for m
    by (simp add: b togo_cancel)
  have i: "st_interval s' = st_interval s" by (simp add: b)
  show "gather_ok strict s' t \<lparr>g_records = rs, g_index = st_index s'\<rparr> (st_wheel s')"
  proof (rule gather_okI)
    show "x = tombstone (d_key x) 0 \<and> (\<exists>d\<le>t. finite_entry s' (d_key x) d)"
      if "x \<in> set (g_records \<lparr>g_records = rs, g_index = st_index s'\<rparr>)" for x
      using that gather_okD(3) [OF g, of x] gather_okD(2) [OF g] by (auto simp: f) (metis image_eqI)
    show "\<exists>k d. m = hook k \<and> k \<notin> gathered \<lparr>g_records = rs, g_index = st_index s'\<rparr> \<and> finite_entry s' k d"
      if "togo (st_wheel s') m \<noteq> None" for m
      using that gather_okD(4) [OF g, of m] ga by (auto simp: tg f split: if_splits)
    show "\<exists>j. togo (st_wheel s') (hook k) = Some j \<and> timely strict t (st_interval s') d j"
      if "finite_entry s' k d" "k \<notin> gathered \<lparr>g_records = rs, g_index = st_index s'\<rparr>" for k d
      using that gather_okD(5) [OF g, of k d] ga by (auto simp: tg f i)
  qed (use a gather_okD(2) [OF g] in simp_all)
qed

lemma store_ok_index: "store_ok past s \<Longrightarrow> agrees pages_ok page_find (live s) i \<Longrightarrow> store_ok past (s\<lparr>st_index := i\<rparr>)"
  by (simp add: store_ok_def state_ok_index cache_ok_def)

lemma store_okD:
  assumes "store_ok past s"
  shows "state_ok s" "history_ok past s" "agrees pages_ok page_find (live s) (st_index s)" "cache_ok s"
  using assms by (simp_all add: store_ok_def state_ok_def index_ok_def)

text \<open>What an operation that throws leaves behind.\<close>

definition unchanged :: "store \<Rightarrow> store \<Rightarrow> bool" where
  "unchanged s s' \<longleftrightarrow> store_data s' = store_data s \<and> st_version s' = st_version s \<and> st_history s' = st_history s
     \<and> st_oldest s' = st_oldest s \<and> st_cache s' = st_cache s"

lemma unchanged_refl [simp]: "unchanged s s"
  by (simp add: unchanged_def)

lemma unchanged_index [simp]: "unchanged s (s\<lparr>st_index := i\<rparr>)"
  by (simp add: unchanged_def)

lemma store_put_fails:
  assumes ok: "store_ok past s" and put: "store_put al now key value deadline s = (Some e, s')"
  shows "store_ok past s' \<and> unchanged s s' \<and> st_clock s' = st_clock s"
proof -
  have "s' = s \<or> (\<exists>slot b i. page_prepare (al_roots al 0) (al_pages al 0) slot (st_index s) = (b, i) \<and> s' = s\<lparr>st_index := i\<rparr>)"
    using put by (auto simp: store_put_def Let_def split: if_splits sum.splits prod.splits option.splits)
  then show ?thesis
    using ok pages_index.agrees_prepare [OF store_okD(3) [OF ok]] store_ok_index [OF ok] by auto
qed

lemma store_put_commits:
  assumes ok: "store_ok past s" and put: "store_put al now key value deadline s = (None, s')"
    and range: "\<And>d. deadline = Some d \<Longrightarrow> d \<le> i64_max"
  shows "st_version s \<noteq> - 1" "st_version s' = st_version s + 1" "st_clock s' = st_clock s"
    "store_data s' = (store_data s)(key \<mapsto> \<lparr>c_value = value, c_deadline = deadline\<rparr>)"
    "store_ok (past(unat (st_version s + 1) := store_data s')) s'"
proof -
  define entry where "entry = (case st_entries s key of None \<Rightarrow> entry_new | Some e \<Rightarrow> e)"
  define ver where "ver = st_version s + 1"
  define rec where "rec = \<lparr>d_key = key, d_value = Some value, d_deleted = False, d_version = ver, d_deadline = deadline\<rparr>"
  let ?fresh = "en_value entry = None"
  have v: "st_version s \<noteq> - 1" and clk: "deadline \<noteq> None \<Longrightarrow> st_clock s \<noteq> None"
    using put by (auto simp: store_put_def store_advance_def split: if_splits)
  obtain slot i where slot: "(if ?fresh then page_next (st_index s) else Inr (en_slot entry)) = Inr slot"
    and prep: "page_prepare (al_roots al 0) (al_pages al 0) slot (st_index s) = (True, i)"
    and s': "s' = put_commit now key value deadline ver slot ?fresh i s"
    using put v unfolding store_put_def store_advance_def entry_def [symmetric] ver_def [symmetric] Let_def
    by (cases "if ?fresh then page_next (st_index s) else Inr (en_slot entry)")
      (simp_all split: if_split_asm prod.split_asm)
  let ?i = "page_set slot (if ?fresh then Some key else None) \<lparr>c_value = value, c_deadline = deadline\<rparr> i"
  let ?b = "\<lparr>b_version = ver, b_timestamp = now, b_records = [rec]\<rparr>"
  have agree: "agrees pages_ok page_find ((live s)(key \<mapsto> (slot, \<lparr>c_value = value, c_deadline = deadline\<rparr>))) ?i"
  proof (cases "en_value entry")
    case None
    then have "live s key = None" by (auto simp: live_def entry_def split: option.splits)
    then show ?thesis
      using pages_index.agrees_add [OF store_okD(3) [OF ok] _ prep] slot None by simp
  next
    case (Some w)
    then have "live s key = Some (slot, \<lparr>c_value = w, c_deadline = en_deadline entry\<rparr>)"
      using slot by (auto simp: live_def entry_def entry_new_def split: option.splits)
    then show ?thesis
      using pages_index.agrees_replace [OF store_okD(3) [OF ok] _ prep] Some by simp
  qed
  define s1 where "s1 = s\<lparr>st_index := ?i, st_entries := (st_entries s)(key \<mapsto>
      \<lparr>en_slot = slot, en_value = Some value, en_version = ver, en_deadline = deadline\<rparr>), st_history := st_history s @ [?b]\<rparr>"
  define s2 where "s2 = (case st_clock s1 of None \<Rightarrow> s1 | Some c \<Rightarrow> store_schedule key c s1)"
  note st = put_state [OF store_okD(1) [OF ok] refl agree range clk s1_def s2_def]
  have "s' = (store_trim now (s2\<lparr>st_version := ver\<rparr>))\<lparr>st_cache := None\<rparr>"
    unfolding s' put_commit_def Let_def s2_def s1_def rec_def by (rule refl)
  moreover have data: "store_data (s2\<lparr>st_version := ver\<rparr>) = apply_deltas (store_data s) (b_records ?b)"
    using st(2) by (simp add: apply_deltas_def apply_delta_def rec_def store_data_def fun_eq_iff)
  note c = commit_ok [OF store_okD(2) [OF ok] v, of "s2\<lparr>st_version := ver\<rparr>" ?b now]
  moreover have "apply_deltas (store_data s) [rec] = (store_data s)(key \<mapsto> \<lparr>c_value = value, c_deadline = deadline\<rparr>)"
    by (simp add: apply_deltas_def apply_delta_def rec_def)
  ultimately show "st_version s \<noteq> - 1" "st_version s' = st_version s + 1" "st_clock s' = st_clock s"
    "store_data s' = (store_data s)(key \<mapsto> \<lparr>c_value = value, c_deadline = deadline\<rparr>)"
    "store_ok (past(unat (st_version s + 1) := store_data s')) s'"
    using st v data by (simp_all add: ver_def rec_def)
qed

lemma bury_eq:
  "st_entries s k = Some e \<Longrightarrow> bury ver s k = s\<lparr>st_index := page_erase (en_slot e) (st_index s),
     st_wheel := wheel_cancel (st_wheel s) (hook k),
     st_entries := (st_entries s)(k \<mapsto> e\<lparr>en_value := None, en_version := ver, en_deadline := None\<rparr>)\<rparr>"
  by (simp add: bury_def)

lemma bury_live: "st_entries s k = Some e \<Longrightarrow> live (bury ver s k) = (live s)(k := None)"
  by (auto simp: bury_eq live_def fun_eq_iff)

lemma bury_ranges: "ranges_ok s \<Longrightarrow> ranges_ok (bury ver s k)"
  by (auto simp: bury_def ranges_ok_def split: option.splits)

lemma bury_state_ok:
  assumes ok: "state_ok s" and e: "st_entries s k = Some e" "en_value e = Some v"
  shows "state_ok (bury ver s k)"
proof -
  let ?s = "bury ver s k"
  note l = bury_live [OF e(1), of ver]
  have r: "ranges_ok s" using ok by (simp add: state_ok_def)
  have "live s k = Some (en_slot e, \<lparr>c_value = v, c_deadline = en_deadline e\<rparr>)" using e by (simp add: live_def)
  moreover have "agrees pages_ok page_find (live s) (st_index s)" using ok by (simp add: state_ok_def index_ok_def)
  ultimately have "agrees pages_ok page_find ((live s)(k := None)) (page_erase (en_slot e) (st_index s))"
    by (rule pages_index.agrees_drop [rotated])
  then have a: "agrees pages_ok page_find (live ?s) (st_index ?s)" unfolding l by (simp add: bury_eq [OF e(1)])
  have f: "finite_entry ?s k' d \<longleftrightarrow> k' \<noteq> k \<and> finite_entry s k' d" for k' d using l by (auto simp: finite_entry_live)
  have tg: "togo (st_wheel ?s) m = (if m = hook k then None else togo (st_wheel s) m)" for m
    by (simp add: bury_eq [OF e(1)] togo_cancel)
  have i: "st_interval ?s = st_interval s" "st_clock ?s = st_clock s" by (simp_all add: bury_eq [OF e(1)])
  have "timers_ok ?s"
  proof (cases "st_clock s")
    case None
    then show ?thesis using ok by (simp add: timers_ok_def state_ok_def i tg f)
  next
    case (Some t)
    then have g: "0 \<le> t" "gather_ok False s t (idle s) (st_wheel s)" using ok by (simp_all add: state_ok_def timers_ok_def)
    have "gather_ok False ?s t (idle ?s) (st_wheel ?s)"
    proof (rule gather_okI)
      show "agrees pages_ok page_find (live ?s) (g_index (idle ?s))" using a by simp
      show "\<exists>k d. m = hook k \<and> k \<notin> gathered (idle ?s) \<and> finite_entry ?s k d" if "togo (st_wheel ?s) m \<noteq> None" for m
        using that gather_okD(4) [OF g(2), of m] by (auto simp: tg f split: if_splits)
      show "\<exists>j. togo (st_wheel ?s) (hook k') = Some j \<and> timely False t (st_interval ?s) d j"
        if "finite_entry ?s k' d" "k' \<notin> gathered (idle ?s)" for k' d
        using that gather_okD(5) [OF g(2), of k' d] by (auto simp: tg f i)
    qed simp_all
    then show ?thesis using Some g(1) by (simp add: timers_ok_def i)
  qed
  moreover have "wheel_ok 4 10 (st_wheel ?s)" using ok wheel_ok_cancel by (simp add: bury_eq [OF e(1)] state_ok_def)
  ultimately show ?thesis using a bury_ranges [OF r] by (simp add: state_ok_def index_ok_def)
qed

lemma store_remove_fails:
  assumes ok: "store_ok past s" and rm: "store_remove al now key s = (Some err, s')"
  shows "store_ok past s' \<and> unchanged s s' \<and> st_clock s' = st_clock s"
proof -
  have "s' = s \<or> (\<exists>slot b i. page_prepare (al_roots al 0) (al_pages al 0) slot (st_index s) = (b, i) \<and> s' = s\<lparr>st_index := i\<rparr>)"
    using rm by (auto simp: store_remove_def Let_def split: if_splits sum.splits prod.splits option.splits)
  then show ?thesis
    using ok pages_index.agrees_prepare [OF store_okD(3) [OF ok]] store_ok_index [OF ok] by auto
qed

lemma store_remove_returns:
  assumes ok: "store_ok past s" and rm: "store_remove al now key s = (None, s')"
  shows "st_clock s' = st_clock s" "store_data s' = (store_data s)(key := None)"
    "store_data s key = None \<Longrightarrow> s' = s"
    "store_data s key \<noteq> None \<Longrightarrow> st_version s \<noteq> - 1 \<and> st_version s' = st_version s + 1 \<and>
      store_ok (past(unat (st_version s + 1) := store_data s')) s'"
proof -
  consider (gone) "s' = s" "live s key = None"
    | (there) e v i where "st_entries s key = Some e" "en_value e = Some v" "st_version s \<noteq> - 1"
      "page_prepare (al_roots al 0) (al_pages al 0) (en_slot e) (st_index s) = (True, i)"
      "s' = (store_trim now ((bury (st_version s + 1) (s\<lparr>st_index := i,
        st_history := st_history s @ [\<lparr>b_version = st_version s + 1, b_timestamp = now, b_records = [tombstone key (st_version s + 1)]\<rparr>]\<rparr>) key)
          \<lparr>st_version := st_version s + 1\<rparr>))\<lparr>st_cache := None\<rparr>"
  proof (cases "live s key")
    case None
    then have "s' = s" using rm by (auto simp: store_remove_def live_def entry_live_def split: option.splits)
    then show thesis using None by (rule gone)
  next
    case (Some x)
    then obtain e v where e: "st_entries s key = Some e" "en_value e = Some v"
      by (auto simp: live_def entry_live_def split: option.splits)
    obtain b i where p: "page_prepare (al_roots al 0) (al_pages al 0) (en_slot e) (st_index s) = (b, i)" by fastforce
    have v: "st_version s \<noteq> - 1" using rm e by (auto simp: store_remove_def store_advance_def)
    have b: "b" and s': "s' = (store_trim now ((bury (st_version s + 1) (s\<lparr>st_index := i,
        st_history := st_history s @ [\<lparr>b_version = st_version s + 1, b_timestamp = now, b_records = [tombstone key (st_version s + 1)]\<rparr>]\<rparr>) key)
          \<lparr>st_version := st_version s + 1\<rparr>))\<lparr>st_cache := None\<rparr>"
      using rm e v p by (simp_all add: store_remove_def store_advance_def Let_def split: if_split_asm)
    show thesis by (rule there [OF e v _ s']) (use p b in simp)
  qed
  then have "st_clock s' = st_clock s \<and> store_data s' = (store_data s)(key := None) \<and>
    (store_data s key = None \<longrightarrow> s' = s) \<and>
    (store_data s key \<noteq> None \<longrightarrow> st_version s \<noteq> - 1 \<and> st_version s' = st_version s + 1 \<and>
      store_ok (past(unat (st_version s + 1) := store_data s')) s')"
  proof cases
    case gone
    then show ?thesis by (auto simp: store_data_def fun_eq_iff)
  next
    case there
    let ?b = "\<lparr>b_version = st_version s + 1, b_timestamp = now, b_records = [tombstone key (st_version s + 1)]\<rparr>"
    define s1 where "s1 = s\<lparr>st_index := i, st_history := st_history s @ [?b]\<rparr>"
    define s2 where "s2 = bury (st_version s + 1) s1 key"
    have "state_ok (s\<lparr>st_index := i\<rparr>)"
      using state_ok_index [OF store_okD(1) [OF ok]] pages_index.agrees_prepare [OF store_okD(3) [OF ok] there(4)] by blast
    then have ok1: "state_ok s1" by (simp add: s1_def)
    have e1: "st_entries s1 key = Some e" by (simp add: s1_def there(1))
    have ok2: "state_ok s2" using bury_state_ok [OF ok1 e1 there(2)] by (simp add: s2_def)
    have f: "st_history s2 = st_history s @ [?b]" "st_oldest s2 = st_oldest s" "st_clock s2 = st_clock s"
      using bury_eq [OF e1] by (simp_all add: s2_def s1_def)
    have "live s2 = (live s)(key := None)" using bury_live [OF e1] by (simp add: s2_def s1_def)
    then have d: "store_data s2 = apply_deltas (store_data s) (b_records ?b)"
      by (auto simp: store_data_def apply_deltas_def apply_delta_def tombstone_def fun_eq_iff)
    note c = commit_ok [OF store_okD(2) [OF ok] there(3), of "s2\<lparr>st_version := st_version s + 1\<rparr>" ?b now]
    have "s' = (store_trim now (s2\<lparr>st_version := st_version s + 1\<rparr>))\<lparr>st_cache := None\<rparr>"
      using there(5) by (simp add: s2_def s1_def)
    moreover have "apply_deltas (store_data s) [tombstone key (st_version s + 1)] = (store_data s)(key := None)"
      by (simp add: apply_deltas_def apply_delta_def tombstone_def)
    moreover have "store_data s key \<noteq> None" using there(1,2) by (simp add: store_data_def live_def)
    ultimately show ?thesis using c ok2 f d there(3) by (auto simp: tombstone_def)
  qed
  then show "st_clock s' = st_clock s" "store_data s' = (store_data s)(key := None)"
    "store_data s key = None \<Longrightarrow> s' = s"
    "store_data s key \<noteq> None \<Longrightarrow> st_version s \<noteq> - 1 \<and> st_version s' = st_version s + 1 \<and>
      store_ok (past(unat (st_version s + 1) := store_data s')) s'" by blast+
qed

end
