(* ===== verification/Store_Tick.thy ===== *)
theory Store_Tick
  imports Store_Commit
begin

text \<open>
  A tick of the store: when it returns, exactly the keys that are due are gone; when it throws,
  everything it gathered is scheduled again.
\<close>

subsection \<open>Ticking\<close>

lemma schedule_frame:
  "live (store_schedule k t s) = live s" "st_entries (store_schedule k t s) = st_entries s"
  "st_index (store_schedule k t s) = st_index s" "st_version (store_schedule k t s) = st_version s"
  "st_history (store_schedule k t s) = st_history s" "st_oldest (store_schedule k t s) = st_oldest s"
  "st_cache (store_schedule k t s) = st_cache s" "st_clock (store_schedule k t s) = st_clock s"
  "st_interval (store_schedule k t s) = st_interval s" "st_capacity (store_schedule k t s) = st_capacity s"
  "ranges_ok (store_schedule k t s) = ranges_ok s" "store_data (store_schedule k t s) = store_data s"
  "gather_ok b (store_schedule k t s) = gather_ok b s"
  by (auto simp: store_schedule_def split: option.splits)

lemma reschedule_frame:
  "live (reschedule t rs s) = live s" "st_index (reschedule t rs s) = st_index s"
  "st_version (reschedule t rs s) = st_version s" "st_history (reschedule t rs s) = st_history s"
  "st_oldest (reschedule t rs s) = st_oldest s" "st_cache (reschedule t rs s) = st_cache s"
  "st_clock (reschedule t rs s) = st_clock s" "st_interval (reschedule t rs s) = st_interval s"
  "st_capacity (reschedule t rs s) = st_capacity s"
  "ranges_ok (reschedule t rs s) = ranges_ok s" "store_data (reschedule t rs s) = store_data s"
  "gather_ok b (reschedule t rs s) = gather_ok b s"
  unfolding reschedule_def by (induction rs arbitrary: s) (simp_all add: schedule_frame)

lemma reschedule_gather:
  assumes "gather_ok False s t \<lparr>g_records = rs, g_index = i\<rparr> (st_wheel s)" "ranges_ok s" "0 \<le> t" "wheel_ok 4 10 (st_wheel s)"
  shows "gather_ok False s t \<lparr>g_records = [], g_index = i\<rparr> (st_wheel (reschedule t rs s)) \<and> wheel_ok 4 10 (st_wheel (reschedule t rs s))"
  using assms
proof (induction rs arbitrary: s)
  case Nil
  then show ?case by (simp add: reschedule_def)
next
  case (Cons r rs)
  let ?k = "d_key r"
  note g = Cons.prems(1)
  obtain d where "finite_entry s ?k d" using gather_okD(3) [OF g, of r] by auto
  then obtain e v where e: "st_entries s ?k = Some e" "en_value e = Some v" "en_deadline e = Some d"
    by (auto simp: finite_entry_def)
  have fin: "finite_entry s ?k d' \<longleftrightarrow> d' = d" for d' using e by (auto simp: finite_entry_def)
  have rng: "en_deadline e = Some x \<Longrightarrow> x \<le> i64_max" for x using Cons.prems(2) e by (auto simp: ranges_ok_def)
  let ?s = "store_schedule ?k t s"
  have w: "st_wheel ?s = wheel_request 4 10 (st_wheel s) (schedule_request (st_interval s) t (hook ?k) (en_deadline e))"
    using e by (simp add: store_schedule_def)
  note t1 = request_togo(1) [OF Cons.prems(2,3) rng, where w = "st_wheel s" and n = "hook ?k"]
  note t2 = request_togo(2) [OF Cons.prems(2,3) rng, OF _ e(3)]
  have ga: "gathered \<lparr>g_records = r # rs, g_index = i\<rparr> = insert ?k (gathered \<lparr>g_records = rs, g_index = i\<rparr>)"
    by (simp add: gathered_def)
  have nk: "?k \<notin> gathered \<lparr>g_records = rs, g_index = i\<rparr>" using gather_okD(2) [OF g] by (auto simp: gathered_def)
  have hk: "hook k = hook ?k \<longleftrightarrow> k = ?k" for k by simp
  have "gather_ok False s t \<lparr>g_records = rs, g_index = i\<rparr> (st_wheel ?s)"
  proof (rule gather_okI)
    show "x = tombstone (d_key x) 0 \<and> (\<exists>d\<le>t. finite_entry s (d_key x) d)"
      if "x \<in> set (g_records \<lparr>g_records = rs, g_index = i\<rparr>)" for x
      using that gather_okD(3) [OF g, of x] by simp
    show "\<exists>k d. m = hook k \<and> k \<notin> gathered \<lparr>g_records = rs, g_index = i\<rparr> \<and> finite_entry s k d"
      if "togo (st_wheel ?s) m \<noteq> None" for m
    proof (cases "m = hook ?k")
      case True
      then show ?thesis using nk fin by blast
    next
      case False
      then have "togo (st_wheel s) m \<noteq> None" using that by (simp add: w t1)
      then show ?thesis using gather_okD(4) [OF g] ga by blast
    qed
    show "\<exists>j. togo (st_wheel ?s) (hook k) = Some j \<and> timely False t (st_interval s) d' j"
      if "finite_entry s k d'" "k \<notin> gathered \<lparr>g_records = rs, g_index = i\<rparr>" for k d'
    proof (cases "k = ?k")
      case True
      then show ?thesis using that(1) fin t2 by (simp add: w t1 e(3))
    next
      case False
      then have "k \<notin> gathered \<lparr>g_records = r # rs, g_index = i\<rparr>" using that(2) ga by blast
      then show ?thesis using gather_okD(5) [OF g that(1)] False by (simp add: w t1)
    qed
  qed (use gather_okD(1,2) [OF g] in simp_all)
  moreover have "wheel_ok 4 10 (st_wheel ?s)" unfolding w using Cons.prems(4) by (rule wheel_ok_request)
  ultimately show ?case
    using Cons.IH [of ?s] Cons.prems(2,3) by (simp add: schedule_frame reschedule_def)
qed

lemma bury_all:
  assumes "gather_ok strict s t \<lparr>g_records = rs, g_index = st_index s\<rparr> (st_wheel s)" "ranges_ok s" "wheel_ok 4 10 (st_wheel s)"
    "s' = foldl (bury ver) s (map d_key rs)"
  shows "gather_ok strict s' t (idle s') (st_wheel s')" "ranges_ok s'" "wheel_ok 4 10 (st_wheel s')"
    "live s' = (\<lambda>k. if k \<in> d_key ` set rs then None else live s k)"
    "st_clock s' = st_clock s" "st_history s' = st_history s" "st_oldest s' = st_oldest s" "st_capacity s' = st_capacity s"
proof -
  have "gather_ok strict s' t (idle s') (st_wheel s') \<and> ranges_ok s' \<and> wheel_ok 4 10 (st_wheel s')
    \<and> live s' = (\<lambda>k. if k \<in> d_key ` set rs then None else live s k) \<and> st_clock s' = st_clock s
    \<and> st_history s' = st_history s \<and> st_oldest s' = st_oldest s \<and> st_capacity s' = st_capacity s"
    using assms
  proof (induction rs arbitrary: s)
    case Nil
    then show ?case by (simp add: idle_def)
  next
    case (Cons r rs)
    obtain e where e: "st_entries s (d_key r) = Some e"
      using gather_okD(3) [OF Cons.prems(1), of r] by (auto simp: finite_entry_def)
    note b = bury_state [OF Cons.prems(1) e refl, of ver]
    have w: "wheel_ok 4 10 (st_wheel (bury ver s (d_key r)))"
      using Cons.prems(3) wheel_ok_cancel by (simp add: bury_eq [OF e])
    have f: "st_clock (bury ver s (d_key r)) = st_clock s" "st_history (bury ver s (d_key r)) = st_history s"
      "st_oldest (bury ver s (d_key r)) = st_oldest s" "st_capacity (bury ver s (d_key r)) = st_capacity s"
      by (simp_all add: bury_eq [OF e])
    show ?case
      using Cons.IH [OF b(1) bury_ranges [OF Cons.prems(2)] w] Cons.prems(4) b(2) f by (auto simp: fun_eq_iff)
  qed
  then show "gather_ok strict s' t (idle s') (st_wheel s')" "ranges_ok s'" "wheel_ok 4 10 (st_wheel s')"
    "live s' = (\<lambda>k. if k \<in> d_key ` set rs then None else live s k)"
    "st_clock s' = st_clock s" "st_history s' = st_history s" "st_oldest s' = st_oldest s" "st_capacity s' = st_capacity s"
    by blast+
qed

lemma gather_start:
  assumes "store_ok past s" "0 \<le> now"
  shows "gather_ok False s (case st_clock s of None \<Rightarrow> now | Some t \<Rightarrow> t) (idle s) (st_wheel s)"
    "0 \<le> (case st_clock s of None \<Rightarrow> now | Some t \<Rightarrow> t)"
  using assms by (auto simp: store_ok_def state_ok_def timers_ok_def gather_ok_def index_ok_def split: option.splits)

lemma gather_state_ok:
  assumes "gather_ok False s t \<lparr>g_records = [], g_index = i\<rparr> w" "0 \<le> t" "ranges_ok s" "wheel_ok 4 10 w"
  shows "state_ok (s\<lparr>st_clock := Some t, st_wheel := w, st_index := i\<rparr>)"
  using assms gather_okD(1) [OF assms(1)] by (simp add: state_ok_def index_ok_def timers_ok_def idle_def)

lemma strict_later:
  assumes "gather_ok True s t g w" "wheel_ok 4 10 w" "w_ready w = []" "finite_entry s k d" "k \<notin> gathered g" "0 < st_interval s"
  shows "t < d"
proof -
  obtain j where j: "togo w (hook k) = Some j" "timely True t (st_interval s) d j"
    using gather_okD(5) [OF assms(1,4,5)] by auto
  have "0 < j"
    using j(1) assms(2,3) wheel_due_ahead(1) [of 4 10 w "hook k"] by (auto simp: togo_def wheel_ok_def split: if_splits)
  then have "t + (int j - 1) * st_interval s < d" "0 \<le> (int j - 1) * st_interval s"
    using j(2) assms(6) by (auto simp: timely_def)
  then show ?thesis by linarith
qed

text \<open>What a tick finds: the loop's result, from which either branch of the tick continues.\<close>

lemma tick_gathers:
  assumes ok: "store_ok past s" "0 \<le> now"
    and start: "start = (case st_clock s of None \<Rightarrow> now | Some t \<Rightarrow> t)"
    and loop: "expire_loop al s (pending_ticks now start (st_interval s)) (idle s) start (st_wheel s) = (fin, g, time, w)"
  shows "wheel_ok 4 10 w" "gather_ok False s time g w" "start \<le> time" "0 \<le> time" "time \<le> max start now"
    "fin \<Longrightarrow> start + st_interval s \<le> now \<Longrightarrow> gather_ok True s time g w \<and> w_ready w = [] \<and> now < time + st_interval s"
    "fin \<Longrightarrow> now < start + st_interval s \<Longrightarrow> time = start \<and> g = idle s \<and> w = st_wheel s"
proof -
  let ?i = "st_interval s" and ?k = "pending_ticks now start (st_interval s)"
  have i: "0 < ?i" and r: "ranges_ok s" using ok(1) by (auto simp: store_ok_def state_ok_def ranges_ok_def)
  have w: "wheel_ok 4 10 (st_wheel s)" using ok(1) by (simp add: store_ok_def state_ok_def)
  note g = gather_start [OF ok, folded start]
  note l = expire_loop_ok [OF g(1) w r g(2) loop]
  show "wheel_ok 4 10 w" "gather_ok False s time g w" "start \<le> time" "0 \<le> time" using l g(2) by auto
  have k: "int ?k * ?i \<le> max 0 (now - start)" "start + ?i \<le> now \<Longrightarrow> 0 < ?k \<and> now - start < int ?k * ?i + ?i"
    "now < start + ?i \<Longrightarrow> ?k = 0"
  proof -
    have e: "(now - start) div ?i * ?i + (now - start) mod ?i = now - start" "0 \<le> (now - start) mod ?i" "(now - start) mod ?i < ?i"
      using i by simp_all
    have nn: "start < now \<Longrightarrow> 0 \<le> (now - start) div ?i" using i by (simp add: pos_imp_zdiv_nonneg_iff)
    have le: "(now - start) div ?i * ?i \<le> now - start" "now - start < (now - start) div ?i * ?i + ?i" using e by linarith+
    show "int ?k * ?i \<le> max 0 (now - start)" using le(1) nn by (auto simp: pending_ticks_def)
    show "0 < ?k \<and> now - start < int ?k * ?i + ?i" if far: "start + ?i \<le> now"
    proof -
      have "start < now" using far i by simp
      moreover have "1 \<le> (now - start) div ?i" using zdiv_mono1 [of ?i "now - start" ?i] far i by simp
      ultimately show ?thesis using le(2) nn by (auto simp: pending_ticks_def)
    qed
    show "?k = 0" if "now < start + ?i"
      using that i by (auto simp: pending_ticks_def div_pos_pos_trivial)
  qed
  show "time \<le> max start now" using l k(1) by linarith
  show "gather_ok True s time g w \<and> w_ready w = [] \<and> now < time + ?i" if "fin" "start + ?i \<le> now"
    using l that k(2) by auto
  show "time = start \<and> g = idle s \<and> w = st_wheel s" if "fin" "now < start + ?i"
    using loop k(3) [OF that(2)] by simp
qed


lemma store_ok_trim:
  assumes "store_ok past s"
  shows "store_ok past (store_trim now s)" "same_core s (store_trim now s)"
proof -
  note h = store_okD(2) [OF assms, unfolded history_ok_def]
  have "history_ok past (store_trim now s)" by (rule trim_history_ok(1); use h in blast)
  moreover have "same_core s (store_trim now s)"
    using store_trim_state(2) [OF store_okD(1) [OF assms]] by (simp add: trims_def)
  ultimately have t: "history_ok past (store_trim now s)" "same_core s (store_trim now s)" by simp_all
  have "store_data (store_trim now s) = store_data s" using t(2) by (simp add: same_core_def store_data_def fun_eq_iff)
  then show "store_ok past (store_trim now s)" "same_core s (store_trim now s)"
    using t store_trim_state(1) [OF store_okD(1) [OF assms]] store_okD(4) [OF assms]
    by (simp_all add: store_ok_def cache_ok_def same_core_def)
qed

lemma store_tick_fails:
  assumes ok: "store_ok past s" and tick: "store_tick al now local s = (Some e, s')"
  shows "store_ok past s' \<and> unchanged s s'"
proof (cases "now < 0")
  case True
  then show ?thesis using ok tick by (simp add: store_tick_def)
next
  case False
  define start where "start = (case st_clock s of None \<Rightarrow> now | Some t \<Rightarrow> t)"
  obtain fin g time w where loop:
    "expire_loop al s (pending_ticks now start (st_interval s)) (idle s) start (st_wheel s) = (fin, g, time, w)"
    by (metis prod_cases4)
  have n: "0 \<le> now" using False by simp
  note tg = tick_gathers [OF ok n start_def loop]
  define s1 where "s1 = s\<lparr>st_clock := Some time, st_wheel := w, st_index := g_index g\<rparr>"
  have s': "s' = reschedule time (g_records g) s1"
    using tick False loop unfolding store_tick_def start_def [symmetric] idle_def [symmetric]
    by (auto simp: Let_def s1_def split: if_split_asm sum.split_asm)
  have eta: "\<lparr>g_records = g_records g, g_index = g_index g\<rparr> = g" by (cases g) simp
  have "ranges_ok s1" "gather_ok False s1 time \<lparr>g_records = g_records g, g_index = g_index g\<rparr> (st_wheel s1)" "wheel_ok 4 10 (st_wheel s1)"
    using ok tg(1,2) by (simp_all add: s1_def store_ok_def state_ok_def eta)
  from reschedule_gather [OF this(2,1) tg(4) this(3)]
  have rs: "gather_ok False s1 time \<lparr>g_records = [], g_index = g_index g\<rparr> (st_wheel s')" "wheel_ok 4 10 (st_wheel s')"
    by (simp_all add: s')
  have fr: "live s' = live s" "ranges_ok s' = ranges_ok s" "st_clock s' = Some time" "st_index s' = g_index g"
    "st_version s' = st_version s" "st_history s' = st_history s" "st_oldest s' = st_oldest s" "st_cache s' = st_cache s"
    "store_data s' = store_data s" "st_capacity s' = st_capacity s" "gather_ok b s' = gather_ok b s1" for b
    by (simp_all add: s' reschedule_frame s1_def)
  have "state_ok s'"
    using ok rs gather_okD(1) [OF rs(1)] tg(4) fr(1-4)
    by (simp add: state_ok_def store_ok_def index_ok_def timers_ok_def idle_def fr(11)) (simp add: s1_def)
  then show ?thesis using ok fr by (simp add: store_ok_def history_ok_def cache_ok_def unchanged_def)
qed


lemma expired_data:
  assumes "distinct (map d_key rs)" "\<forall>r \<in> set rs. d_deleted r"
  shows "apply_deltas m rs = (\<lambda>k. if k \<in> d_key ` set rs then None else m k)"
  unfolding apply_deltas_def using assms
  by (induction rs arbitrary: m) (auto simp: apply_delta_def fun_eq_iff)

definition expired :: "ns \<Rightarrow> data \<Rightarrow> data" where
  "expired t m k = (case m k of None \<Rightarrow> None
     | Some c \<Rightarrow> (case c_deadline c of None \<Rightarrow> Some c | Some d \<Rightarrow> if d \<le> t then None else Some c))"

lemma finite_entry_data: "finite_entry s k d \<longleftrightarrow> (\<exists>c. store_data s k = Some c \<and> c_deadline c = Some d)"
  by (auto simp: finite_entry_live store_data_def)

lemma store_tick_returns:
  assumes ok: "store_ok past s" and tick: "store_tick al now local s = (None, s')"
    and start: "start = (case st_clock s of None \<Rightarrow> now | Some t \<Rightarrow> t)"
  shows "\<exists>t. st_clock s' = Some t \<and> start \<le> t \<and> t \<le> max start now
    \<and> (if start + st_interval s \<le> now then now < t + st_interval s \<and> store_data s' = expired t (store_data s)
       else t = start \<and> store_data s' = store_data s)"
    "if store_data s' = store_data s then st_version s' = st_version s \<and> store_ok past s'
     else st_version s \<noteq> - 1 \<and> st_version s' = st_version s + 1 \<and> store_ok (past(unat (st_version s + 1) := store_data s')) s'"
proof -
  have n: "0 \<le> now" using tick by (auto simp: store_tick_def split: if_splits)
  obtain fin g time w where loop:
    "expire_loop al s (pending_ticks now start (st_interval s)) (idle s) start (st_wheel s) = (fin, g, time, w)"
    by (metis prod_cases4)
  note tg = tick_gathers [OF ok n start loop]
  define s1 where "s1 = s\<lparr>st_clock := Some time, st_wheel := w, st_index := g_index g\<rparr>"
  define ver where "ver = st_version s + 1"
  define rs where "rs = map (\<lambda>r. r\<lparr>d_version := ver\<rparr>) (g_records g)"
  define b where "b = \<lparr>b_version = ver, b_timestamp = local, b_records = rs\<rparr>"
  define s3 where "s3 = foldl (bury ver) (s1\<lparr>st_history := st_history s @ [b]\<rparr>) (map d_key rs)"
  have fin and cases: "g_records g = [] \<and> s' = store_trim local s1 \<or>
      g_records g \<noteq> [] \<and> st_version s \<noteq> - 1 \<and> s' = store_trim local (s3\<lparr>st_version := ver, st_cache := None\<rparr>)"
    using tick n loop unfolding store_tick_def start [symmetric] idle_def [symmetric]
    by (auto simp: Let_def s1_def s3_def rs_def b_def ver_def store_advance_def split: if_split_asm)
  have eta: "\<lparr>g_records = g_records g, g_index = g_index g\<rparr> = g" by (cases g) simp
  have keys: "map d_key rs = map d_key (g_records g)" "d_key ` set rs = gathered g"
    by (simp_all add: rs_def gathered_def image_image)
  have "d_deleted r" if "r \<in> set (g_records g)" for r
    using gather_okD(3) [OF tg(2) that] by (metis delta.select_convs(3) tombstone_def)
  then have del: "\<forall>r \<in> set rs. d_deleted r \<and> d_version r = ver" by (auto simp: rs_def)
  have fire: "\<exists>d \<le> time. finite_entry s k d" if "k \<in> gathered g" for k
    using gather_okD(3) [OF tg(2)] that by (auto simp: gathered_def)
  define D where "D = (\<lambda>k. if k \<in> gathered g then None else store_data s k)"
  have base: "ranges_ok s1" "wheel_ok 4 10 (st_wheel s1)" "gather_ok False s1 time g (st_wheel s1)"
    using ok tg(1,2) by (simp_all add: s1_def store_ok_def state_ok_def)
  have main: "store_data s' = D \<and> st_clock s' = Some time \<and>
    (if g_records g = [] then st_version s' = st_version s \<and> store_ok past s'
     else st_version s \<noteq> - 1 \<and> st_version s' = ver \<and> store_ok (past(unat ver := D)) s')"
  proof (cases "g_records g = []")
    case True
    then have g: "g = \<lparr>g_records = [], g_index = g_index g\<rparr>" using eta by simp
    have "state_ok s1" unfolding s1_def
      by (rule gather_state_ok) (use tg base g in \<open>simp_all add: s1_def\<close>)
    then have "store_ok past s1" using ok by (simp add: store_ok_def s1_def history_ok_def cache_ok_def)
    then show ?thesis
      using store_ok_trim [of past s1 local] cases True
      by (auto simp: same_core_def s1_def D_def gathered_def store_data_def fun_eq_iff)
  next
    case False
    then have v: "st_version s \<noteq> - 1" and s': "s' = store_trim local (s3\<lparr>st_version := ver, st_cache := None\<rparr>)" using cases by simp_all
    let ?h = "s1\<lparr>st_history := st_history s @ [b]\<rparr>"
    have gh: "gather_ok False ?h time \<lparr>g_records = g_records g, g_index = st_index ?h\<rparr> (st_wheel ?h)"
      using base(3) by (simp add: s1_def eta)
    have s3: "s3 = foldl (bury ver) ?h (map d_key (g_records g))" unfolding s3_def keys(1) ..
    have "ranges_ok ?h" "wheel_ok 4 10 (st_wheel ?h)" using base by simp_all
    note b3 = bury_all [OF gh this s3]
    have l3: "live s3 = (\<lambda>k. if k \<in> gathered g then None else live s k)"
    proof -
      have "live ?h = live s" by (simp add: s1_def)
      then show ?thesis unfolding b3(4) gathered_def by (simp only:)
    qed
    have f3: "st_clock s3 = Some time" "st_history s3 = st_history s @ [b]" "st_oldest s3 = st_oldest s"
      using b3(5-7) by (simp_all add: s1_def)
    let ?s4 = "s3\<lparr>st_version := ver, st_cache := None\<rparr>"
    have "state_ok ?s4"
      using b3(1-3) f3 tg(4) gather_okD(1) [OF b3(1)] by (simp add: state_ok_def index_ok_def timers_ok_def idle_def)
    moreover have "store_data ?s4 = apply_deltas (store_data s) (b_records b)"
      using l3 expired_data [of rs "store_data s"] del keys gather_okD(2) [OF tg(2)]
      by (auto simp: b_def store_data_def fun_eq_iff)
    moreover have "apply_deltas (store_data s) (b_records b) = D"
      using expired_data [of rs "store_data s"] del keys gather_okD(2) [OF tg(2)] by (simp add: b_def D_def)
    moreover note c = commit_ok [OF store_okD(2) [OF ok] v, of ?s4 b local]
    moreover have "(store_trim local ?s4)\<lparr>st_cache := None\<rparr> = s'"
    proof -
      have "st_cache (store_trim local ?s4) = None"
        using store_trim_state(2) [OF calculation(1), of local] by (simp add: trims_def same_core_def)
      then show ?thesis by (simp add: s')
    qed
    ultimately show ?thesis
      using v False f3 del by (simp add: b_def ver_def s')
  qed
  have i: "0 < st_interval s" using ok by (simp add: store_ok_def state_ok_def ranges_ok_def)
  have near: "D = store_data s" if "g_records g = []" using that by (simp add: D_def gathered_def)
  have "D \<noteq> store_data s" if ne: "g_records g \<noteq> []"
  proof -
    obtain r where "r \<in> set (g_records g)" using ne by (meson last_in_set)
    then have "d_key r \<in> gathered g" by (simp add: gathered_def)
    moreover from fire [OF this] have "store_data s (d_key r) \<noteq> None" by (auto simp: finite_entry_data)
    ultimately have "D (d_key r) \<noteq> store_data s (d_key r)" by (auto simp: D_def)
    then show ?thesis by auto
  qed
  then show "if store_data s' = store_data s then st_version s' = st_version s \<and> store_ok past s'
     else st_version s \<noteq> - 1 \<and> st_version s' = st_version s + 1 \<and> store_ok (past(unat (st_version s + 1) := store_data s')) s'"
    using main near by (cases "g_records g = []") (simp_all add: ver_def)
  have far: "D = expired time (store_data s)" "now < time + st_interval s" if f: "start + st_interval s \<le> now"
  proof -
    note st = tg(6) [OF \<open>fin\<close> f]
    show "now < time + st_interval s" using st by simp
    show "D = expired time (store_data s)"
    proof (rule ext)
      fix k
      show "D k = expired time (store_data s) k"
      proof (cases "k \<in> gathered g")
        case True
        then show ?thesis using fire [OF True] by (auto simp: D_def expired_def finite_entry_data)
      next
        case False
        have "time < d" if "finite_entry s k d" for d
          by (rule strict_later [OF _ tg(1) _ that False i]) (use st in simp_all)
        then show ?thesis using False by (auto simp: D_def expired_def finite_entry_data split: option.splits)
      qed
    qed
  qed
  show "\<exists>t. st_clock s' = Some t \<and> start \<le> t \<and> t \<le> max start now
    \<and> (if start + st_interval s \<le> now then now < t + st_interval s \<and> store_data s' = expired t (store_data s)
       else t = start \<and> store_data s' = store_data s)"
  proof (intro exI conjI)
    show "st_clock s' = Some time" using main by blast
    show "if start + st_interval s \<le> now then now < time + st_interval s \<and> store_data s' = expired time (store_data s)
       else time = start \<and> store_data s' = store_data s"
      using far main tg(7) [OF \<open>fin\<close>] near by auto
  qed (use tg in simp_all)
qed

end
