(* ===== verification/Store_Run.thy ===== *)
theory Store_Run
  imports Store_Tick
begin

text \<open>
  Reachable states of the store, with writers and a snapshot builder interleaved, and the properties of
  the store: extraction, atomicity, writes, expiry, snapshots.
\<close>

section \<open>Runs of a store\<close>

datatype store_op = Op_put string bytes "ns option" | Op_remove string | Op_tick ns

fun store_apply :: "allocs \<Rightarrow> ns \<Rightarrow> store_op \<Rightarrow> store \<Rightarrow> store_error option \<times> store" where
  "store_apply al local (Op_put key value deadline) s = store_put al local key value deadline s"
| "store_apply al local (Op_remove key) s = store_remove al local key s"
| "store_apply al local (Op_tick now) s = store_tick al now local s"

fun op_range :: "store_op \<Rightarrow> bool" where
  "op_range (Op_put key value (Some d)) = (d \<le> i64_max)"
| "op_range op = True"

text \<open>The reachable states, with the data at every version so far and the view a snapshot builder has
  captured but not yet published.  Writers run between the two steps of the builder; at most one
  builder is active, as the builder's lock has it.\<close>

inductive store_run :: "store \<Rightarrow> (nat \<Rightarrow> data) \<Rightarrow> ((string, cell) view \<times> u64) option \<Rightarrow> bool" where
  start: "store_new capacity retention interval initial = Inr s \<Longrightarrow> interval \<le> i64_max \<Longrightarrow>
    store_run s (\<lambda>_. Map.empty) None"
| step: "store_run s past b \<Longrightarrow> op_range op \<Longrightarrow> store_apply al local op s = (err, s') \<Longrightarrow>
    store_run s' (if st_version s' = st_version s then past else past(unat (st_version s') := store_data s')) b"
| capture: "store_run s past None \<Longrightarrow> snapshot_begin s = Inr (v, ver) \<Longrightarrow> store_run s past (Some (v, ver))"
| publish: "store_run s past (Some (v, ver)) \<Longrightarrow> store_dump ok v ver = Some r \<Longrightarrow> store_run (snapshot_end r s) past None"
| abandon: "store_run s past (Some (v, ver)) \<Longrightarrow> store_dump ok v ver = None \<Longrightarrow> store_run s past None"

lemma store_new_ok:
  assumes "store_new capacity retention interval initial = Inr s" "interval \<le> i64_max"
  shows "store_ok (\<lambda>_. Map.empty) s"
proof -
  have s: "s = \<lparr>st_index = pages_new, st_entries = Map.empty, st_version = 0, st_capacity = capacity,
        st_retention = retention, st_interval = interval, st_clock = initial, st_wheel = wheel_new 0,
        st_history = [], st_oldest = 0, st_cache = None\<rparr>" "0 < interval" "0 \<le> retention" "\<And>t. initial = Some t \<Longrightarrow> 0 \<le> t"
    using assms by (auto simp: store_new_def split: if_splits option.splits)
  have fs: "st_index s = pages_new" "st_entries s = Map.empty" "st_version s = 0" "st_retention s = retention"
    "st_interval s = interval" "st_clock s = initial" "st_wheel s = wheel_new 0" "st_history s = []" "st_oldest s = 0" "st_cache s = None"
    by (simp_all add: s(1))
  have l: "live s = (\<lambda>_. None)" by (simp add: fs(2) live_def fun_eq_iff)
  then have f: "\<not> finite_entry s k d" for k d by (simp add: finite_entry_live)
  have t: "togo (st_wheel s) n = None" for n by (simp add: togo_def wheel_due_def wheel_nodes_def wheel_new_def fs)
  have a: "agrees pages_ok page_find (live s) (st_index s)"
    unfolding l by (simp add: agrees_def fs(1) page_new_ok)
  have "gather_ok False s x (idle s) (st_wheel s)" for x
    by (rule gather_okI) (use a f t in simp_all)
  then have "timers_ok s" using f t s(4) fs(6) by (simp add: timers_ok_def split: option.split)
  moreover have "wheel_ok 4 10 (st_wheel s)" using wheel_new_idle [of 4 10 0] by (simp add: fs(7) wheel_idle_def)
  moreover have "ranges_ok s" using s(2,3) assms(2) by (simp add: ranges_ok_def fs)
  moreover have "store_data s = Map.empty" by (simp add: store_data_def l fun_eq_iff)
  ultimately show ?thesis
    using a by (simp add: store_ok_def state_ok_def index_ok_def history_ok_def cache_ok_def fs)
qed

lemma store_apply_ok:
  assumes ok: "store_ok past s" and op: "op_range op" "store_apply al local op s = (err, s')"
  shows "store_ok (if st_version s' = st_version s then past else past(unat (st_version s') := store_data s')) s'"
    "st_version s' = st_version s \<or> st_version s \<noteq> - 1 \<and> st_version s' = st_version s + 1"
    "err \<noteq> None \<Longrightarrow> unchanged s s'"
proof -
  have next_ne: "v + 1 \<noteq> v" for v :: u64 by simp
  have "(store_ok (if st_version s' = st_version s then past else past(unat (st_version s') := store_data s')) s'
    \<and> (st_version s' = st_version s \<or> st_version s \<noteq> - 1 \<and> st_version s' = st_version s + 1))
    \<and> (err \<noteq> None \<longrightarrow> unchanged s s')"
  proof (cases op)
    case (Op_put key val deadline)
    have r: "\<And>d. deadline = Some d \<Longrightarrow> d \<le> i64_max" using op(1) Op_put by auto
    show ?thesis
    proof (cases err)
      case None
      then show ?thesis using store_put_commits [OF ok _ r] op(2) Op_put next_ne by auto
    next
      case (Some e)
      then show ?thesis using store_put_fails [OF ok] op(2) Op_put by (auto simp: unchanged_def)
    qed
  next
    case (Op_remove key)
    show ?thesis
    proof (cases err)
      case None
      then have rm: "store_remove al local key s = (None, s')" using op(2) Op_remove by simp
      show ?thesis
      proof (cases "store_data s key = None")
        case True
        then show ?thesis using store_remove_returns(3) [OF ok rm] ok None by auto
      next
        case False
        then show ?thesis using store_remove_returns(4) [OF ok rm] None next_ne by auto
      qed
    next
      case (Some e)
      then show ?thesis using store_remove_fails [OF ok] op(2) Op_remove by (auto simp: unchanged_def)
    qed
  next
    case (Op_tick now)
    show ?thesis
    proof (cases err)
      case None
      then have tk: "store_tick al now local s = (None, s')" using op(2) Op_tick by simp
      show ?thesis using store_tick_returns(2) [OF ok tk refl] None next_ne by (auto split: if_splits)
    next
      case (Some e)
      then show ?thesis using store_tick_fails [OF ok] op(2) Op_tick by (auto simp: unchanged_def)
    qed
  qed
  then show "store_ok (if st_version s' = st_version s then past else past(unat (st_version s') := store_data s')) s'"
    "st_version s' = st_version s \<or> st_version s \<noteq> - 1 \<and> st_version s' = st_version s + 1"
    "err \<noteq> None \<Longrightarrow> unchanged s s'" by blast+
qed

subsection \<open>Snapshots\<close>

definition view_of :: "(string, cell) view \<Rightarrow> data \<Rightarrow> bool" where
  "view_of v m \<longleftrightarrow> view_ok v \<and> set (view_entries v) = {(k, c). m k = Some c}"

lemma capture_view:
  assumes "store_ok past s"
  shows "view_of (capture (st_index s)) (store_data s)"
proof -
  have a: "pages_ok (st_index s)" "\<And>sl k c. page_find (st_index s) sl = Some (k, c) \<longleftrightarrow> live s k = Some (sl, c)"
    using store_okD(3) [OF assms] by (simp_all add: agrees_def)
  have "set (view_entries (capture (st_index s))) = {(k, c). store_data s k = Some c}"
    using view_entries_find [OF a(1)] a(2) by (auto simp: store_data_def)
  then show ?thesis using capture_ok [OF a(1)] by (simp add: view_of_def)
qed

definition dump_reader :: "(nat \<Rightarrow> bool) \<Rightarrow> nat \<times> data \<Rightarrow> string \<times> cell \<Rightarrow> (nat \<times> data) option" where
  "dump_reader ok = (\<lambda>(i, m) (key, rec). if ok i then Some (Suc i, if m key = None then m(key \<mapsto> rec) else m) else None)"

lemma dump_entries:
  assumes "each_of (dump_reader ok) es (i, m0) = Some (j, m)" "set es \<subseteq> {(k, c). D k = Some c}" "m0 \<subseteq>\<^sub>m D"
  shows "m \<subseteq>\<^sub>m D \<and> dom m = dom m0 \<union> fst ` set es"
  using assms
proof (induction es arbitrary: i m0)
  case (Cons e es)
  obtain k c where e: "e = (k, c)" by fastforce
  let ?m = "if m0 k = None then m0(k \<mapsto> c) else m0"
  have "each_of (dump_reader ok) es (Suc i, ?m) = Some (j, m)"
    using Cons.prems(1) by (auto simp: e dump_reader_def split: if_splits option.splits)
  moreover have "?m \<subseteq>\<^sub>m D" using Cons.prems(2,3) by (auto simp: e map_le_def)
  ultimately have "m \<subseteq>\<^sub>m D \<and> dom m = dom ?m \<union> fst ` set es" using Cons.prems(2) by (intro Cons.IH) auto
  moreover have "dom ?m = insert k (dom m0)" by auto
  ultimately show ?case by (auto simp: e)
qed simp

lemma store_dump_view:
  assumes "view_of v m" "store_dump ok v ver = Some r"
  shows "r = \<lparr>sn_version = ver, sn_data = m\<rparr>"
proof -
  have v: "view_ok v" "set (view_entries v) = {(k, c). m k = Some c}" using assms(1) by (simp_all add: view_of_def)
  obtain j d where d: "each_of (dump_reader ok) (view_entries v) (2, Map.empty) = Some (j, d)" "r = \<lparr>sn_version = ver, sn_data = d\<rparr>"
  proof -
    let ?rd = "\<lambda>(i, m) key rec. if ok i then Some (Suc i, if m key = None then m(key \<mapsto> rec) else m) else None"
    have "dump_reader ok = (\<lambda>u (k, r). ?rd u k r)" by (auto simp: dump_reader_def fun_eq_iff)
    then have eq: "view_each v ?rd (2, Map.empty) = each_of (dump_reader ok) (view_entries v) (2, Map.empty)"
      using view_each_entries [OF v(1), of ?rd "(2, Map.empty)"] by (simp only:)
    obtain j d where jd: "view_each v ?rd (2, Map.empty) = Some (j, d)" "r = \<lparr>sn_version = ver, sn_data = d\<rparr>"
      using assms(2) by (auto simp: store_dump_def split: option.splits if_splits)
    show thesis by (rule that [OF trans [OF eq [symmetric] jd(1)] jd(2)])
  qed
  have "d \<subseteq>\<^sub>m m" "dom d = fst ` {(k, c). m k = Some c}" using dump_entries [OF d(1), of m] v(2) by simp_all
  moreover have "fst ` {(k, c). m k = Some c} = dom m" by force
  ultimately have "d = m" by (metis map_le_antisym map_le_def)
  then show ?thesis using d(2) by simp
qed

lemma store_run_ok:
  "store_run s past b \<Longrightarrow> store_ok past s \<and> (\<forall>v ver. b = Some (v, ver) \<longrightarrow> view_of v (past (unat ver)) \<and> unat ver \<le> unat (st_version s))"
proof (induction rule: store_run.induct)
  case (start capacity retention interval initial s)
  then show ?case using store_new_ok by simp
next
  case (step s past b op al local err s')
  note a = store_apply_ok [OF _ step.hyps(2,3), of past]
  have ok: "store_ok past s" using step.IH by blast
  from a(2) [OF ok] show ?case
  proof
    assume "st_version s' = st_version s"
    then show ?thesis using a(1) [OF ok] step.IH by auto
  next
    assume v: "st_version s \<noteq> - 1 \<and> st_version s' = st_version s + 1"
    then have "unat (st_version s') = Suc (unat (st_version s))" using unat_next_version by simp
    then show ?thesis using a(1) [OF ok] step.IH by (auto simp: le_Suc_eq)
  qed
next
  case (capture s past v ver)
  then have c: "v = capture (st_index s)" "ver = st_version s" by (auto simp: snapshot_begin_def split: option.splits)
  have "past (unat (st_version s)) = store_data s" using capture.IH store_okD(2) by (auto simp: history_ok_def)
  then show ?case using capture_view [of past s] capture.IH c by simp
next
  case (publish s past v ver ok r)
  have r: "r = \<lparr>sn_version = ver, sn_data = past (unat ver)\<rparr>" using publish store_dump_view by blast
  have "past (unat (st_version s)) = store_data s" using publish.IH store_okD(2) by (auto simp: history_ok_def)
  then show ?case using publish.IH by (auto simp: snapshot_end_def r store_ok_def cache_ok_def)
next
  case (abandon s past v ver ok)
  then show ?case by simp
qed

subsection \<open>Extraction\<close>

lemma apply_deltas_append: "apply_deltas m (xs @ ys) = apply_deltas (apply_deltas m xs) ys"
  by (simp add: apply_deltas_def)

lemma history_replay:
  assumes "history_ok past s" "i \<le> length (st_history s)"
  shows "apply_deltas (past (unat (st_oldest s) + i)) (concat (map b_records (drop i (st_history s)))) = store_data s"
  using assms(2)
proof (induction i rule: inc_induct)
  case base
  then show ?case using assms(1) by (simp add: history_ok_def apply_deltas_def)
next
  case (step i)
  have "past (unat (st_oldest s) + Suc i) = apply_deltas (past (unat (st_oldest s) + i)) (b_records (st_history s ! i))"
    using assms(1) step.hyps by (simp add: history_ok_def)
  moreover have "drop i (st_history s) = st_history s ! i # drop (Suc i) (st_history s)"
    using step.hyps by (simp add: Cons_nth_drop_Suc)
  ultimately show ?case using step.IH by (simp add: apply_deltas_append)
qed

lemma history_suffix:
  assumes "history_ok past s" "unat (st_oldest s) \<le> unat since" "unat since \<le> unat (st_version s)"
  shows "dropWhile (\<lambda>b. b_version b \<le> since) (st_history s) = drop (unat since - unat (st_oldest s)) (st_history s)"
proof -
  let ?i = "unat since - unat (st_oldest s)" and ?h = "st_history s"
  have h: "unat (st_oldest s) + length ?h = unat (st_version s)"
    "\<And>j. j < length ?h \<Longrightarrow> unat (b_version (?h ! j)) = unat (st_oldest s) + Suc j"
    using assms(1) by (auto simp: history_ok_def)
  have le: "b_version (?h ! j) \<le> since \<longleftrightarrow> j < ?i" if "j < length ?h" for j
    using h(2) [OF that] assms(2) by (auto simp: word_le_nat_alt)
  have i: "?i \<le> length ?h" using h(1) assms(2,3) by linarith
  have "takeWhile (\<lambda>b. b_version b \<le> since) ?h = take ?i ?h"
  proof (rule takeWhile_eq_take_P_nth)
    show "b_version (?h ! j) \<le> since" if "j < ?i" "j < length ?h" for j using le that by simp
    show "\<not> b_version (?h ! ?i) \<le> since" if "?i < length ?h" using le [OF that] by simp
  qed
  then have "length (takeWhile (\<lambda>b. b_version b \<le> since) ?h) = ?i" using i by simp
  then show ?thesis by (simp add: dropWhile_eq_drop)
qed

definition delta_bytes :: "nat \<Rightarrow> delta list \<Rightarrow> nat" where
  "delta_bytes size_of rs = sum_list (map (\<lambda>r. size_of + length (d_key r) + 1) rs)"

lemma charge_keys_eq:
  "charge_keys rs remaining = (let n = sum_list (map (\<lambda>r. length (d_key r) + 1) rs)
     in if n \<le> remaining then Some (remaining - n) else None)"
  by (induction rs arbitrary: remaining) (auto simp: Let_def)

lemma delta_bytes_split: "delta_bytes size_of rs = length rs * size_of + sum_list (map (\<lambda>r. length (d_key r) + 1) rs)"
  by (induction rs) (simp_all add: delta_bytes_def algebra_simps)

lemma delta_bytes_append: "delta_bytes size_of (xs @ ys) = delta_bytes size_of xs + delta_bytes size_of ys"
  by (simp add: delta_bytes_def)

lemma charge_batches_iff:
  "0 < size_of \<Longrightarrow> counted \<le> max_size \<Longrightarrow>
   charge_batches size_of max_size bs counted remaining \<longleftrightarrow>
     counted + length (concat (map b_records bs)) \<le> max_size \<and> delta_bytes size_of (concat (map b_records bs)) \<le> remaining"
proof (induction bs arbitrary: counted remaining)
  case Nil
  then show ?case by (simp add: delta_bytes_def)
next
  case (Cons b bs)
  let ?n = "length (b_records b)" and ?k = "sum_list (map (\<lambda>r. length (d_key r) + 1) (b_records b))"
  have d: "delta_bytes size_of (concat (map b_records (b # bs)))
      = ?n * size_of + ?k + delta_bytes size_of (concat (map b_records bs))"
    by (simp only: list.map concat.simps delta_bytes_append delta_bytes_split [of size_of "b_records b"])
  have q: "?n > remaining div size_of \<longleftrightarrow> ?n * size_of > remaining"
    using Cons.prems(1) by (metis div_less_iff_less_mult not_le less_eq_div_iff_mult_less_eq)
  show ?case
  proof (cases "?n > max_size - counted \<or> ?n * size_of > remaining \<or> ?k > remaining - ?n * size_of")
    case True
    then have "\<not> charge_batches size_of max_size (b # bs) counted remaining"
      using q by (auto simp: Let_def charge_keys_eq)
    moreover have "\<not> (counted + length (concat (map b_records (b # bs))) \<le> max_size
        \<and> ?n * size_of + ?k + delta_bytes size_of (concat (map b_records bs)) \<le> remaining)"
      using True Cons.prems(2) by auto
    ultimately show ?thesis unfolding d by blast
  next
    case False
    then have "charge_batches size_of max_size (b # bs) counted remaining
        = charge_batches size_of max_size bs (counted + ?n) (remaining - ?n * size_of - ?k)"
      using q by (simp add: Let_def charge_keys_eq)
    also have "\<dots> \<longleftrightarrow> counted + ?n + length (concat (map b_records bs)) \<le> max_size
        \<and> delta_bytes size_of (concat (map b_records bs)) \<le> remaining - ?n * size_of - ?k"
      by (rule Cons.IH [OF Cons.prems(1)]) (use False Cons.prems(2) in linarith)
    also have "\<dots> \<longleftrightarrow> counted + length (concat (map b_records (b # bs))) \<le> max_size
        \<and> ?n * size_of + ?k + delta_bytes size_of (concat (map b_records bs)) \<le> remaining"
      unfolding list.map concat.simps length_append using False by linarith
    finally show ?thesis unfolding d .
  qed
qed

subsection \<open>Without failing allocations\<close>

definition allocs_ok :: "allocs \<Rightarrow> bool" where
  "allocs_ok al \<longleftrightarrow> al_value al \<and> al_entry al \<and> al_key al \<and> al_history al
     \<and> (\<forall>i. al_record al i) \<and> (\<forall>i l. al_roots al i l) \<and> (\<forall>i l. al_pages al i l)"

lemma expire_fire_quiet:
  assumes "allocs_ok al" "gather_ok strict s C g w" "w_ready w = n # ns" "expire_fire al s time before g c n = (g', rs, threw)"
  shows "\<not> threw"
proof -
  have p: "pages_ok (g_index g)" using gather_okD(1) [OF assms(2)] by (simp add: agrees_def)
  have "fst (page_prepare (al_roots al i) (al_pages al i) slot (g_index g))" for i slot
    by (rule page_prepare_succeeds [OF p]) (use assms(1) in \<open>auto simp: allocs_ok_def\<close>)
  then show ?thesis
    using assms(1,4) by (auto simp: expire_fire_def Let_def allocs_ok_def case_prod_unfold split: option.splits if_splits)
qed

lemma expire_tick_quiet:
  assumes "allocs_ok al" "gather_ok False s time g w" "wheel_ok 4 10 w" "ranges_ok s" "0 \<le> time"
    "wheel_tick 4 10 (expire_fire al s time (w_clock w)) g w = (out, g', w', log)"
  shows "out = Ticked"
proof -
  let ?i = "st_interval s" and ?c = "w_clock w"
  have i: "0 < ?i" and ne: "?c + 1 \<noteq> ?c" using assms(4) by (simp_all add: ranges_ok_def)
  have "wheel_ok 4 10 w' \<and>
    (out = Ticked \<and> gather_ok True s (time + ?i) g' w' \<and> w_ready w' = [] \<and> w_clock w' = ?c + 1 \<or>
     out = Threw \<and> (False \<and> w_clock w' = ?c \<or> False \<and> w_clock w' = ?c + 1))"
  proof (rule wheel_tick_steps [OF params_4_10, where P = "gather_ok False s time" and Q = "\<lambda>_ _. False"
        and P' = "gather_ok True s (time + ?i)" and Q' = "\<lambda>_ _. False" and c = ?c, OF _ _ _ _ _ _ _ _ _ assms(2,3) refl assms(6)])
    fix u x n ns v rs
    assume a: "gather_ok False s time u x" "wheel_inv 4 10 x" "w_ready x = n # ns"
    show "gather_ok False s time v (wheel_requests 4 10 (x\<lparr>w_ready := ns\<rparr>) rs)"
      if "expire_fire al s time ?c u ?c n = (v, rs, False)"
      using expire_fire_step [OF a _ assms(5,4) that] by simp
    show False if "expire_fire al s time ?c u ?c n = (v, rs, True)"
      using expire_fire_quiet [OF assms(1) a(1,3) that] by simp
  next
    fix u x n ns v rs
    assume a: "gather_ok True s (time + ?i) u x" "wheel_inv 4 10 x" "w_ready x = n # ns"
    show "gather_ok True s (time + ?i) v (wheel_requests 4 10 (x\<lparr>w_ready := ns\<rparr>) rs)"
      if "expire_fire al s time ?c u (?c + 1) n = (v, rs, False)"
      using expire_fire_step [OF a _ _ assms(4) that] assms(5) i ne by simp
    show False if "expire_fire al s time ?c u (?c + 1) n = (v, rs, True)"
      using expire_fire_quiet [OF assms(1) a(1,3) that] by simp
  next
    show "gather_ok True s (time + ?i) u (wheel_advance 4 10 x)"
      if "gather_ok False s time u x" "wheel_inv 4 10 x" "w_ready x = []" for u x
      by (rule gather_ok_advance [OF that i])
  qed simp_all
  then show ?thesis by blast
qed

lemma expire_loop_quiet:
  "allocs_ok al \<Longrightarrow> gather_ok False s time g w \<Longrightarrow> wheel_ok 4 10 w \<Longrightarrow> ranges_ok s \<Longrightarrow> 0 \<le> time \<Longrightarrow>
   fst (expire_loop al s k g time w)"
proof (induction k arbitrary: g time w)
  case (Suc k)
  obtain out g1 w1 log where t: "wheel_tick 4 10 (expire_fire al s time (w_clock w)) g w = (out, g1, w1, log)"
    by (cases "wheel_tick 4 10 (expire_fire al s time (w_clock w)) g w") auto
  note out = expire_tick_quiet [OF Suc.prems t]
  note s1 = expire_tick [OF Suc.prems(2-5) t]
  have "fst (expire_loop al s k g1 (time + st_interval s) w1)"
    by (rule Suc.IH [OF Suc.prems(1) gather_ok_weaken s1(1) Suc.prems(4)])
      (use s1(2) out Suc.prems(4,5) in \<open>auto simp: ranges_ok_def\<close>)
  then show ?case using t out by simp
qed simp

lemma store_tick_succeeds:
  assumes "store_ok past s" "allocs_ok al" "0 \<le> now" "st_version s \<noteq> - 1"
  shows "fst (store_tick al now local s) = None"
proof -
  define start where "start = (case st_clock s of None \<Rightarrow> now | Some t \<Rightarrow> t)"
  obtain fin g time w where loop:
    "expire_loop al s (pending_ticks now start (st_interval s)) (idle s) start (st_wheel s) = (fin, g, time, w)"
    by (metis prod_cases4)
  note g = gather_start [OF assms(1,3), folded start_def]
  have "fin" using expire_loop_quiet [OF assms(2) g(1) _ _ g(2), of "pending_ticks now start (st_interval s)"] loop assms(1)
    by (simp add: store_ok_def state_ok_def)
  then show ?thesis
    using loop assms(2-4) unfolding store_tick_def start_def [symmetric] idle_def [symmetric]
    by (simp add: Let_def store_advance_def allocs_ok_def)
qed

lemma store_put_succeeds:
  assumes "store_ok past s" "allocs_ok al" "\<And>d. deadline = Some d \<Longrightarrow> 0 \<le> d" "deadline \<noteq> None \<Longrightarrow> st_clock s \<noteq> None"
    "st_version s \<noteq> - 1" "store_data s key \<noteq> None \<or> (\<exists>slot. page_next (st_index s) = Inr slot)"
  shows "fst (store_put al now key value deadline s) = None"
proof -
  define entry where "entry = (case st_entries s key of None \<Rightarrow> entry_new | Some e \<Rightarrow> e)"
  have p: "pages_ok (st_index s)" using store_okD(3) [OF assms(1)] by (simp add: agrees_def)
  have prep: "fst (page_prepare (al_roots al 0) (al_pages al 0) slot (st_index s))" for slot
    by (rule page_prepare_succeeds [OF p]) (use assms(2) in \<open>auto simp: allocs_ok_def\<close>)
  obtain slot where slot: "(if en_value entry = None then page_next (st_index s) else Inr (en_slot entry)) = Inr slot"
  proof (cases "en_value entry = None")
    case True
    then have "store_data s key = None" by (auto simp: entry_def store_data_def live_def split: option.splits)
    then show thesis using assms(6) that True by auto
  next
    case False
    then show thesis by (intro that [of "en_slot entry"]) (simp only: if_False)
  qed
  have "\<not> (case deadline of None \<Rightarrow> False | Some d \<Rightarrow> d < 0)" using assms(3) by (auto split: option.splits)
  moreover have "\<not> (deadline \<noteq> None \<and> st_clock s = None)" using assms(4) by blast
  ultimately show ?thesis
    using assms(2,5) slot prep [of slot] unfolding store_put_def entry_def [symmetric] store_advance_def
    by (simp add: Let_def allocs_ok_def case_prod_unfold)
qed

subsection \<open>A run for the witnesses\<close>

definition all_allocs :: allocs where
  "all_allocs = \<lparr>al_value = True, al_entry = True, al_key = True, al_history = True,
     al_record = (\<lambda>_. True), al_roots = (\<lambda>_ _. True), al_pages = (\<lambda>_ _. True)\<rparr>"

lemma all_allocs_ok [simp]: "allocs_ok all_allocs"
  by (simp add: allocs_ok_def all_allocs_def)

definition demo0 :: store where
  "demo0 = \<lparr>st_index = pages_new, st_entries = Map.empty, st_version = 0, st_capacity = 10, st_retention = 600,
     st_interval = 10, st_clock = Some 0, st_wheel = wheel_new 0, st_history = [], st_oldest = 0, st_cache = None\<rparr>"

definition demo1 :: store where
  "demo1 = snd (store_put all_allocs 0 ''k'' [1] (Some 25) demo0)"

lemma demo0_run: "store_run demo0 (\<lambda>_. Map.empty) None"
  by (rule store_run.start [of 10 600 10 "Some 0"]) (simp_all add: store_new_def demo0_def i64_max_def)

lemma demo1_put: "store_put all_allocs 0 ''k'' [1] (Some 25) demo0 = (None, demo1)"
proof -
  have ok: "store_ok (\<lambda>_. Map.empty) demo0" using store_run_ok [OF demo0_run] by blast
  have "page_next (st_index demo0) = Inr 0" by (simp add: demo0_def page_next_def pages_new_def)
  then have "fst (store_put all_allocs 0 ''k'' [1] (Some 25) demo0) = None"
    by (intro store_put_succeeds [OF ok]) (simp_all add: demo0_def)
  then show ?thesis by (metis demo1_def prod.collapse)
qed

lemma demo1_fields:
  "st_history demo1 = [\<lparr>b_version = 1, b_timestamp = 0, b_records = [\<lparr>d_key = ''k'', d_value = Some [1], d_deleted = False,
     d_version = 1, d_deadline = Some 25\<rparr>]\<rparr>]"
  "st_oldest demo1 = 0" "st_interval demo1 = 10"
proof -
  obtain p i where pi: "page_prepare (al_roots all_allocs 0) (al_pages all_allocs 0) 0 (st_index demo0) = (p, i)" by fastforce
  have "page_next (st_index demo0) = Inr 0" "st_entries demo0 ''k'' = None" "store_advance demo0 = Inr 1" "st_clock demo0 = Some 0"
    by (simp_all add: demo0_def page_next_def pages_new_def store_advance_def)
  then have d: "demo1 = put_commit 0 ''k'' [1] (Some 25) 1 0 True i demo0"
    using demo1_put pi by (auto simp: store_put_def all_allocs_def entry_new_def split: if_splits)
  show "st_history demo1 = [\<lparr>b_version = 1, b_timestamp = 0, b_records = [\<lparr>d_key = ''k'', d_value = Some [1], d_deleted = False,
     d_version = 1, d_deadline = Some 25\<rparr>]\<rparr>]" "st_oldest demo1 = 0" "st_interval demo1 = 10"
    unfolding d by (simp_all add: put_commit_def demo0_def store_trim_def trim_due_def distance_def store_schedule_def Let_def)
qed

lemma demo1_run: "\<exists>past. store_run demo1 past None \<and> past 1 = store_data demo1 \<and> past 0 = Map.empty"
  "st_version demo1 = 1" "st_clock demo1 = Some 0" "store_data demo1 = [''k'' \<mapsto> \<lparr>c_value = [1], c_deadline = Some 25\<rparr>]"
proof -
  have ok: "store_ok (\<lambda>_. Map.empty) demo0" using store_run_ok [OF demo0_run] by blast
  have d0: "store_data demo0 = Map.empty" by (simp add: demo0_def store_data_def live_def fun_eq_iff)
  note c = store_put_commits [OF ok demo1_put]
  show v: "st_version demo1 = 1" "st_clock demo1 = Some 0" using c(2,3) by (simp_all add: demo0_def i64_max_def)
  show "store_data demo1 = [''k'' \<mapsto> \<lparr>c_value = [1], c_deadline = Some 25\<rparr>]" using c(4) d0 by (simp add: i64_max_def)
  have "store_run demo1 (if st_version demo1 = st_version demo0 then \<lambda>_. Map.empty
      else (\<lambda>_. Map.empty)(unat (st_version demo1) := store_data demo1)) None"
    by (rule store_run.step [OF demo0_run, of "Op_put ''k'' [1] (Some 25)" all_allocs 0 None]) (simp_all add: demo1_put i64_max_def)
  then show "\<exists>past. store_run demo1 past None \<and> past 1 = store_data demo1 \<and> past 0 = Map.empty"
    using v by (auto simp: demo0_def)
qed

subsection \<open>Properties\<close>

text \<open>C2: extraction replays history.  In every reachable state, with \<open>past\<close> the data at each version so
  far: a cursor in the window from \<open>oldest\<close> to the current version is never stale, and applying
  the returned deltas to the data at the cursor yields exactly the current data; a cursor outside
  the window is stale and carries no deltas; the copy budget is the error exactly when the deltas do
  not fit, and only a failed allocation of the copy is another.  The history never exceeds its capacity.\<close>

theorem store_extract_replays:
  assumes "store_run s past b" "0 < size_of"
  shows "length (st_history s) \<le> st_capacity s \<and>
    (case store_extract memory size_of max_size since max_bytes s of
       Inr x \<Rightarrow> x_version x = st_version s \<and>
         (if st_oldest s \<le> since \<and> since \<le> st_version s
          then \<not> x_stale x \<and> apply_deltas (past (unat since)) (x_deltas x) = store_data s \<and>
            delta_bytes size_of (x_deltas x) \<le> max_bytes
          else x_stale x \<and> x_deltas x = [])
     | Inl e \<Rightarrow> st_oldest s \<le> since \<and> since < st_version s \<and>
         (let ds = concat (map b_records (drop (unat since - unat (st_oldest s)) (st_history s)))
          in if max_size < length ds \<or> max_bytes < delta_bytes size_of ds then e = Length_error else e = Bad_alloc \<and> \<not> memory))"
proof -
  have h: "history_ok past s" using store_run_ok [OF assms(1)] store_okD(2) by blast
  have cap: "length (st_history s) \<le> st_capacity s" and now: "past (unat (st_version s)) = store_data s"
    and len: "unat (st_oldest s) + length (st_history s) = unat (st_version s)"
    using h by (auto simp: history_ok_def)
  show ?thesis
  proof (cases "st_oldest s \<le> since \<and> since < st_version s")
    case True
    let ?i = "unat since - unat (st_oldest s)"
    let ?ds = "concat (map b_records (drop ?i (st_history s)))"
    have u: "unat (st_oldest s) \<le> unat since" "unat since \<le> unat (st_version s)"
      using True by (auto simp: word_le_nat_alt word_less_nat_alt)
    have "apply_deltas (past (unat since)) ?ds = store_data s"
      using history_replay [OF h, of ?i] u len by simp
    moreover have "charge_batches size_of max_size (drop ?i (st_history s)) 0 max_bytes \<longleftrightarrow>
        length ?ds \<le> max_size \<and> delta_bytes size_of ?ds \<le> max_bytes"
      using charge_batches_iff [OF assms(2), of 0 max_size "drop ?i (st_history s)" max_bytes] by simp
    ultimately show ?thesis
      using True cap history_suffix [OF h u] by (auto simp: store_extract_def Let_def not_le not_less)
  next
    case False
    then consider "since = st_version s" "st_oldest s \<le> since" | "since < st_oldest s \<or> st_version s < since" by fastforce
    then show ?thesis
    proof cases
      case 1
      then show ?thesis using cap now by (simp add: store_extract_def apply_deltas_def delta_bytes_def)
    next
      case 2
      then show ?thesis using cap by (auto simp: store_extract_def)
    qed
  qed
qed

theorem store_extract_replays_witness:
  "\<exists>x. store_extract True 80 1000 0 100000 demo1 = Inr x \<and> \<not> x_stale x \<and>
     apply_deltas Map.empty (x_deltas x) = store_data demo1"
proof -
  obtain past where r: "store_run demo1 past None" "past 0 = Map.empty" using demo1_run(1) by blast
  have "length (st_history demo1) \<le> st_capacity demo1 \<and>
    (case store_extract True 80 1000 0 100000 demo1 of
       Inr x \<Rightarrow> x_version x = st_version demo1 \<and>
         (if st_oldest demo1 \<le> 0 \<and> 0 \<le> st_version demo1
          then \<not> x_stale x \<and> apply_deltas (past (unat (0 :: u64))) (x_deltas x) = store_data demo1 \<and>
            delta_bytes 80 (x_deltas x) \<le> 100000
          else x_stale x \<and> x_deltas x = [])
     | Inl e \<Rightarrow> st_oldest demo1 \<le> 0 \<and> 0 < st_version demo1 \<and>
         (let ds = concat (map b_records (drop (unat (0 :: u64) - unat (st_oldest demo1)) (st_history demo1)))
          in if 1000 < length ds \<or> 100000 < delta_bytes 80 ds then e = Length_error else e = Bad_alloc \<and> \<not> True))"
    by (rule store_extract_replays [OF r(1)]) simp
  then show ?thesis
    using r(2) by (auto simp: demo1_fields delta_bytes_def Let_def split: sum.splits)
qed

text \<open>C21: an operation that throws changes nothing observable.  Whatever allocation fails, and when the
  version number or the slots are exhausted or an argument is rejected, the data, the version, the
  history and the cached snapshot stay as they were.  The version never wraps: it rises by exactly one in an operation that changes the
  data, and in a put that returns, also where it stores what was there already, and it stays in
  every other.\<close>

theorem store_failure_atomic:
  assumes "store_run s past b" "op_range op" "store_apply al local op s = (err, s')"
  shows "(err \<noteq> None \<longrightarrow> unchanged s s') \<and>
    (st_version s' \<noteq> st_version s \<longleftrightarrow> store_data s' \<noteq> store_data s \<or> (err = None \<and> (\<exists>key val deadline. op = Op_put key val deadline))) \<and>
    (st_version s' \<noteq> st_version s \<longrightarrow> unat (st_version s') = unat (st_version s) + 1)"
proof -
  have ok: "store_ok past s" using store_run_ok [OF assms(1)] by blast
  note a = store_apply_ok [OF ok assms(2,3)]
  have same: "store_data s' = store_data s" if "st_version s' = st_version s"
    using a(1) store_okD(2) [OF ok] that by (auto simp: store_ok_def history_ok_def)
  have "store_data s' \<noteq> store_data s \<or> (\<exists>key val deadline. op = Op_put key val deadline)" if v: "st_version s' \<noteq> st_version s"
  proof -
    have e: "err = None" using a(3) v by (cases err) (auto simp: unchanged_def)
    show ?thesis
    proof (cases op)
      case (Op_remove key)
      have rm: "store_remove al local key s = (None, s')" using assms(3) Op_remove e by simp
      have "store_data s key \<noteq> None" using store_remove_returns(3) [OF ok rm] v by auto
      moreover have "store_data s' key = None" using store_remove_returns(2) [OF ok rm] by simp
      ultimately show ?thesis by metis
    next
      case (Op_tick now)
      have "store_tick al now local s = (None, s')" using assms(3) Op_tick e by simp
      from store_tick_returns(2) [OF ok this refl] show ?thesis using v by (auto split: if_splits)
    qed simp
  qed
  moreover have "st_version s' \<noteq> st_version s" if "err = None" "op = Op_put key val deadline" for key val deadline
  proof -
    have "\<And>d. deadline = Some d \<Longrightarrow> d \<le> i64_max" using assms(2) that(2) by auto
    then show ?thesis using store_put_commits(2) [OF ok, of al local key val deadline s'] assms(3) that by auto
  qed
  ultimately show ?thesis using a(2,3) same unat_next_version by (cases err) (auto simp: unchanged_def)
qed

theorem store_failure_atomic_witness:
  "\<exists>s'. store_apply (all_allocs\<lparr>al_history := False\<rparr>) 0 (Op_remove ''k'') demo1 = (Some Bad_alloc, s') \<and> unchanged demo1 s'"
proof -
  obtain past where r: "store_run demo1 past None" using demo1_run(1) by blast
  have "live demo1 ''k'' \<noteq> None" using demo1_run(4) by (auto simp: store_data_def dest!: fun_cong [where x = "''k''"])
  then obtain e v where e: "st_entries demo1 ''k'' = Some e" "en_value e = Some v"
    by (auto simp: live_def entry_live_def split: option.splits)
  obtain p i where p: "page_prepare (\<lambda>_. True) (\<lambda>_. True) (en_slot e) (st_index demo1) = (p, i)" by fastforce
  have "store_apply (all_allocs\<lparr>al_history := False\<rparr>) 0 (Op_remove ''k'') demo1 = (Some Bad_alloc, demo1\<lparr>st_index := i\<rparr>)"
    using e p demo1_run(2) by (simp add: store_remove_def store_advance_def all_allocs_def)
  with store_failure_atomic [OF r _ this] show ?thesis by auto
qed

text \<open>C7: what the two writing operations do.  A put that returns stores the value with its deadline and
  a remove that returns removes the key, and nothing else; a put or remove that changes the data
  raises the version by one, a remove of an absent key changes nothing at all.  With memory
  available, a version left and a free slot, a put within its contract returns.\<close>

theorem store_writes_exact:
  assumes "store_run s past b" "\<forall>d. deadline = Some d \<longrightarrow> 0 \<le> d \<and> d \<le> i64_max" "deadline \<noteq> None \<longrightarrow> st_clock s \<noteq> None"
    and "store_put al now key val deadline s = (err, s1)" "store_remove al' now key' s = (err', s2)"
  shows "(err = None \<longrightarrow> store_data s1 = (store_data s)(key \<mapsto> \<lparr>c_value = val, c_deadline = deadline\<rparr>)
      \<and> st_version s1 = st_version s + 1 \<and> st_clock s1 = st_clock s) \<and>
    (allocs_ok al \<and> st_version s \<noteq> - 1 \<and> (store_data s key \<noteq> None \<or> (\<exists>slot. page_next (st_index s) = Inr slot)) \<longrightarrow> err = None) \<and>
    (err' = None \<longrightarrow> store_data s2 = (store_data s)(key' := None)
      \<and> (if store_data s key' = None then s2 = s else st_version s2 = st_version s + 1))"
proof -
  have ok: "store_ok past s" using store_run_ok [OF assms(1)] by blast
  have "err = None \<Longrightarrow> store_data s1 = (store_data s)(key \<mapsto> \<lparr>c_value = val, c_deadline = deadline\<rparr>)
      \<and> st_version s1 = st_version s + 1 \<and> st_clock s1 = st_clock s"
    using store_put_commits(2-4) [OF ok, of al now key val deadline s1] assms(2,4) by auto
  moreover have "allocs_ok al \<Longrightarrow> st_version s \<noteq> - 1 \<Longrightarrow>
      store_data s key \<noteq> None \<or> (\<exists>slot. page_next (st_index s) = Inr slot) \<Longrightarrow> err = None"
    using store_put_succeeds [OF ok, of al deadline key now val] assms(2-4) by auto
  moreover have "err' = None \<Longrightarrow> store_data s2 = (store_data s)(key' := None)
      \<and> (if store_data s key' = None then s2 = s else st_version s2 = st_version s + 1)"
    using store_remove_returns [OF ok] assms(5) by auto
  ultimately show ?thesis by blast
qed

theorem store_writes_exact_witness:
  "\<exists>s1. store_put all_allocs 5 ''k'' [2, 3] None demo1 = (None, s1) \<and>
     store_data s1 = [''k'' \<mapsto> \<lparr>c_value = [2, 3], c_deadline = None\<rparr>] \<and> st_version s1 = 2"
proof -
  obtain past where r: "store_run demo1 past None" using demo1_run(1) by blast
  obtain err s1 where p: "store_put all_allocs 5 ''k'' [2, 3] None demo1 = (err, s1)" by fastforce
  obtain err' s2 where q: "store_remove all_allocs 5 ''k'' demo1 = (err', s2)" by fastforce
  note t = store_writes_exact [OF r _ _ p q]
  have "err = None" using t demo1_run(2,4) by simp
  then show ?thesis using t demo1_run(2,4) p by (intro exI [of _ s1]) simp
qed

text \<open>C11: expiry.  When the store is driven to \<open>now\<close>, at least one interval past its clock, and the tick
  returns, its clock is the last boundary at or before \<open>now\<close>, and exactly the keys whose deadline
  has been reached at that boundary are gone: no key is removed early, and a deadline is overrun by
  less than one interval.  Driven by less than an interval the data stays.  With memory available
  and a version left the tick returns.  This holds in every reachable state, so also after ticks
  that threw half way.\<close>

theorem store_expires_exactly:
  assumes "store_run s past b" "st_clock s = Some t" "store_tick al now local s = (err, s')" "0 \<le> now"
  shows "(err = None \<longrightarrow> (\<exists>t'. st_clock s' = Some t' \<and>
      (if t + st_interval s \<le> now
       then t \<le> t' \<and> t' \<le> now \<and> now < t' + st_interval s \<and> store_data s' = expired t' (store_data s)
       else t' = t \<and> store_data s' = store_data s))) \<and>
    (allocs_ok al \<and> st_version s \<noteq> - 1 \<longrightarrow> err = None)"
proof -
  have ok: "store_ok past s" using store_run_ok [OF assms(1)] by blast
  have i: "0 < st_interval s" using ok by (simp add: store_ok_def state_ok_def ranges_ok_def)
  have "\<exists>t'. st_clock s' = Some t' \<and>
      (if t + st_interval s \<le> now
       then t \<le> t' \<and> t' \<le> now \<and> now < t' + st_interval s \<and> store_data s' = expired t' (store_data s)
       else t' = t \<and> store_data s' = store_data s)" if "err = None"
  proof -
    have "store_tick al now local s = (None, s')" using assms(3) that by simp
    from store_tick_returns(1) [OF ok this, of t] assms(2)
    obtain t' where "st_clock s' = Some t' \<and> t \<le> t' \<and> t' \<le> max t now
      \<and> (if t + st_interval s \<le> now then now < t' + st_interval s \<and> store_data s' = expired t' (store_data s)
         else t' = t \<and> store_data s' = store_data s)" by auto
    then show ?thesis using i by (intro exI [of _ t']) (auto split: if_splits)
  qed
  moreover have "err = None" if "allocs_ok al" "st_version s \<noteq> - 1"
    using store_tick_succeeds [OF ok that(1) assms(4) that(2), of local] assms(3) by simp
  ultimately show ?thesis by blast
qed

theorem store_expires_exactly_witness:
  "\<exists>s' t'. store_tick all_allocs 37 0 demo1 = (None, s') \<and> st_clock s' = Some t' \<and> t' \<le> 37 \<and> 37 < t' + 10 \<and> store_data s' = Map.empty"
proof -
  obtain past where r: "store_run demo1 past None" using demo1_run(1) by blast
  obtain err s' where p: "store_tick all_allocs 37 0 demo1 = (err, s')" by fastforce
  note t = store_expires_exactly [OF r demo1_run(3) p]
  have e: "err = None" using t demo1_run(2) by simp
  then obtain t' where t': "st_clock s' = Some t'" "0 \<le> t'" "t' \<le> 37" "37 < t' + 10" "store_data s' = expired t' (store_data demo1)"
    using t by (auto simp: demo1_fields)
  have "expired t' (store_data demo1) = Map.empty"
    using t'(4) by (auto simp: expired_def demo1_run(4) fun_eq_iff)
  then show ?thesis using t' p e by auto
qed

text \<open>Snapshots are consistent.  A cached snapshot always shows the current version and data, and a
  finished one is cached only when its version is still current.  A snapshot that a builder finishes holds
  exactly the data at the version it captured; that the captured pages do not change under the
  builder is built into this model, whose pages are values, and is proved of the shared pages of the
  code in \<open>Pages_Shared\<close>.\<close>

theorem store_snapshot_isolated:
  assumes "store_run s past b"
  shows "(\<forall>v ver ok r. b = Some (v, ver) \<and> store_dump ok v ver = Some r \<longrightarrow>
      r = \<lparr>sn_version = ver, sn_data = past (unat ver)\<rparr> \<and> ver \<le> st_version s \<and>
      (st_cache (snapshot_end r s) = Some r \<longrightarrow> sn_data r = store_data s)) \<and>
    (\<forall>c. st_cache s = Some c \<longrightarrow> sn_version c = st_version s \<and> sn_data c = store_data s)"
proof -
  note i = store_run_ok [OF assms]
  have now: "past (unat (st_version s)) = store_data s" and c: "cache_ok s"
    using i store_okD(2,4) by (auto simp: history_ok_def)
  have "r = \<lparr>sn_version = ver, sn_data = past (unat ver)\<rparr> \<and> ver \<le> st_version s \<and>
      (st_cache (snapshot_end r s) = Some r \<longrightarrow> sn_data r = store_data s)"
    if "b = Some (v, ver)" "store_dump ok v ver = Some r" for v ver ok r
  proof -
    have v: "view_of v (past (unat ver))" "unat ver \<le> unat (st_version s)" using i that(1) by blast+
    have r: "r = \<lparr>sn_version = ver, sn_data = past (unat ver)\<rparr>" by (rule store_dump_view [OF v(1) that(2)])
    then show ?thesis using v(2) now c by (auto simp: snapshot_end_def cache_ok_def word_le_nat_alt split: if_splits)
  qed
  then show ?thesis using c by (auto simp: cache_ok_def)
qed

theorem store_snapshot_isolated_witness:
  "\<exists>past s v ver. store_run s past (Some (v, ver)) \<and> ver = 0 \<and> st_version s = 1 \<and>
     (\<forall>ok r. store_dump ok v ver = Some r \<longrightarrow> sn_data r = past 0)"
proof -
  have "st_cache demo0 = None" by (simp add: demo0_def)
  then have "snapshot_begin demo0 = Inr (capture (st_index demo0), 0)" by (simp add: snapshot_begin_def) (simp add: demo0_def)
  from store_run.capture [OF demo0_run this]
  have "store_run demo1 (if st_version demo1 = st_version demo0 then \<lambda>_. Map.empty
      else (\<lambda>_. Map.empty)(unat (st_version demo1) := store_data demo1)) (Some (capture (st_index demo0), 0))"
    by (rule store_run.step [of _ _ _ "Op_put ''k'' [1] (Some 25)" all_allocs 0 None]) (simp_all add: demo1_put i64_max_def)
  with store_snapshot_isolated [OF this] show ?thesis using demo1_run(2) by fastforce
qed

end
