(* ===== verification/Policy.thy ===== *)
theory Policy
  imports Types_Rules "HOL-Library.List_Lexorder" "HOL-Library.Char_ord" "HOL-Library.Multiset"
begin

text \<open>
  The connection policy of a node as the runtime sees it (\<^verbatim>\<open>common/include/astra/policy.hpp\<close>): the virtual methods as a
  record of functions on the policy's state, the calls of a runtime as events, and the contract
  every role has to meet.  The contract is stated on the multiset of installed sessions: what accept installs, what
  the policy tells the runtime to cancel and what closed removes always add up.

  A method that takes the policy's lock is one step.  \<^verbatim>\<open>Steady::now()\<close>, read inside \<^verbatim>\<open>accept\<close>, and \<^verbatim>\<open>std::hash\<close> are
  arguments; time points are nanoseconds.
\<close>

subsection \<open>Ordered maps\<close>

text \<open>A \<^verbatim>\<open>std::map\<close> is the list of its entries in key order.\<close>

fun place :: "'k::linorder \<Rightarrow> 'v \<Rightarrow> ('k \<times> 'v) list \<Rightarrow> ('k \<times> 'v) list" where
  "place k v [] = [(k, v)]"
| "place k v ((j, w) # xs) = (if k < j then (k, v) # (j, w) # xs else if k = j then (k, v) # xs else (j, w) # place k v xs)"

subsection \<open>Sessions\<close>

type_synonym generation = u64

datatype direction = Outbound | Inbound

record policy_state =
  ps_initialized :: bool
  ps_members :: nat
  ps_inbound :: nat
  ps_outbound :: nat
  ps_planet_inbound :: nat
  ps_candidates :: nat
  ps_active_member :: "member option"

definition ms :: int where
  "ms = 1000000"

definition backoff :: "(string \<Rightarrow> u64) \<Rightarrow> config \<Rightarrow> bytes \<Rightarrow> string \<Rightarrow> u32 \<Rightarrow> int" where
  "backoff hash cf who local_id failures = retry_delay failures cf (ucast (hd who) + hash local_id) * ms"

definition next_failures :: "u32 \<Rightarrow> u32" where
  "next_failures failures = min (failures + 1) 100"

subsection \<open>The interface\<close>

text \<open>The virtual methods of \<^verbatim>\<open>Policy\<close>: what each returns and the state it leaves.\<close>

record 's policy =
  po_initialize :: "member \<Rightarrow> member list \<Rightarrow> 's \<Rightarrow> unit result \<times> 's"
  po_refresh :: "member \<Rightarrow> member list \<Rightarrow> 's \<Rightarrow> generation list result \<times> 's"
  po_accept :: "ns \<Rightarrow> member \<Rightarrow> direction \<Rightarrow> generation \<Rightarrow> member option \<Rightarrow> 's \<Rightarrow> generation list result \<times> 's"
  po_closed :: "generation \<Rightarrow> status_code option \<Rightarrow> ns \<Rightarrow> 's \<Rightarrow> 's"
  po_due :: "ns \<Rightarrow> 's \<Rightarrow> member option \<times> 's"
  po_failed :: "member \<Rightarrow> status_code \<Rightarrow> ns \<Rightarrow> 's \<Rightarrow> 's"
  po_needs_refresh :: "ns \<Rightarrow> 's \<Rightarrow> bool \<times> 's"
  po_status :: "'s \<Rightarrow> policy_state"

definition policy_refresh :: "member \<Rightarrow> member list \<Rightarrow> 's \<Rightarrow> generation list result \<times> 's" where
  "policy_refresh local members s = (fail Protocol ''Role does not support directory refresh'', s)"

datatype policy_event =
    Initialize member "member list"
  | Refresh member "member list"
  | Accept ns member direction generation "member option"
  | Closed generation "status_code option" ns
  | Due ns
  | Failed member status_code ns
  | Needs_Refresh ns

text \<open>A step of the runtime on a policy: the generations it learns to be installed, the ones it is told to
  cancel, and the new state.\<close>

fun policy_step :: "'s policy \<Rightarrow> policy_event \<Rightarrow> 's \<Rightarrow> generation list \<times> generation list \<times> 's" where
  "policy_step P (Initialize local members) s = ([], [], snd (po_initialize P local members s))"
| "policy_step P (Refresh local members) s =
     (case po_refresh P local members s of (Inl _, s') \<Rightarrow> ([], [], s') | (Inr c, s') \<Rightarrow> ([], c, s'))"
| "policy_step P (Accept now remote dir g expected) s =
     (case po_accept P now remote dir g expected s of (Inl _, s') \<Rightarrow> ([], [], s') | (Inr c, s') \<Rightarrow> ([g], c, s'))"
| "policy_step P (Closed g e now) s = ([], [], po_closed P g e now s)"
| "policy_step P (Due now) s = ([], [], snd (po_due P now s))"
| "policy_step P (Failed target e now) s = ([], [], po_failed P target e now s)"
| "policy_step P (Needs_Refresh now) s = ([], [], snd (po_needs_refresh P now s))"

text \<open>The runtime's ledger of installed sessions, kept from the answers of the policy alone.\<close>

fun closes :: "policy_event \<Rightarrow> generation list" where
  "closes (Closed g e now) = [g]"
| "closes ev = []"

fun policy_run :: "'s policy \<Rightarrow> policy_event list \<Rightarrow> generation list \<times> 's \<Rightarrow> generation list \<times> 's" where
  "policy_run P [] (live, s) = (live, s)"
| "policy_run P (ev # evs) (live, s) =
     (let (opened, cancelled, s') = policy_step P ev s
      in policy_run P evs (filter (\<lambda>g. g \<notin> set (cancelled @ closes ev)) live @ opened, s'))"

text \<open>Generations are unique: an accepted one is not one of the live ones.\<close>

fun fresh_for :: "policy_event \<Rightarrow> generation list \<Rightarrow> bool" where
  "fresh_for (Accept now remote dir g expected) live \<longleftrightarrow> g \<notin> set live"
| "fresh_for ev live \<longleftrightarrow> True"

fun policy_fresh :: "'s policy \<Rightarrow> policy_event list \<Rightarrow> generation list \<times> 's \<Rightarrow> bool" where
  "policy_fresh P [] ls \<longleftrightarrow> True"
| "policy_fresh P (ev # evs) ls \<longleftrightarrow> fresh_for ev (fst ls) \<and> policy_fresh P evs (policy_run P [ev] ls)"

lemma mset_filter_removed:
  assumes "distinct live" "mset live = mset kept + mset gone"
  shows "mset (filter (\<lambda>g. g \<notin> set gone) live) = mset kept"
proof -
  have d: "distinct (kept @ gone)" using assms mset_eq_imp_distinct_iff [of live "kept @ gone"] by simp
  have "mset (filter (\<lambda>g. g \<notin> set gone) live) = filter_mset (\<lambda>g. g \<notin> set gone) (mset kept + mset gone)"
    using assms(2) by (metis mset_filter)
  also have "\<dots> = filter_mset (\<lambda>g. g \<notin> set gone) (mset kept)"
    by (simp add: filter_mset_eq_conv)
  also have "\<dots> = mset kept" using d by (subst filter_mset_eq_conv) auto
  finally show ?thesis .
qed

lemma next_failures_bounded [simp]: "next_failures f \<le> 100"
  by (simp add: next_failures_def)

lemma supersedes_keeps:
  assumes "supersedes m old = Inr b"
  shows "m_principal m = m_principal old" "m_role m = m_role old" "m_address m = m_address old" "m_galaxy m = m_galaxy old"
    "m_epoch old \<le> m_epoch m" "\<not> b \<Longrightarrow> m = old" "b \<longleftrightarrow> m_epoch old < m_epoch m"
  using assms by (auto simp: supersedes_def fail_def split: if_splits)

subsection \<open>The contract of a policy\<close>

locale session_policy =
  fixes P :: "'s policy" and ok :: "'s \<Rightarrow> bool" and sessions :: "'s \<Rightarrow> generation list"
  assumes initialize_error: "ok s \<Longrightarrow> po_initialize P local members s = (Inl e, s') \<Longrightarrow> s' = s"
    and initialize_done: "ok s \<Longrightarrow> po_initialize P local members s = (Inr u, s') \<Longrightarrow> ok s' \<and> mset (sessions s') = mset (sessions s)"
    and refresh_error: "ok s \<Longrightarrow> po_refresh P local members s = (Inl e, s') \<Longrightarrow> s' = s"
    and refresh_done: "ok s \<Longrightarrow> po_refresh P local members s = (Inr c, s') \<Longrightarrow>
      ok s' \<and> mset (sessions s') + mset c = mset (sessions s)"
    and accept_error: "ok s \<Longrightarrow> po_accept P now remote dir g expected s = (Inl e, s') \<Longrightarrow> s' = s"
    and accept_done: "ok s \<Longrightarrow> po_accept P now remote dir g expected s = (Inr c, s') \<Longrightarrow>
      ok s' \<and> mset (sessions s') + mset c = add_mset g (mset (sessions s)) \<and> g \<in> set (sessions s')"
    and closed_done: "ok s \<Longrightarrow> ok (po_closed P g code now s) \<and> mset (sessions (po_closed P g code now s)) = mset (sessions s) - {#g#}"
    and due_done: "ok s \<Longrightarrow> ok (snd (po_due P now s)) \<and> mset (sessions (snd (po_due P now s))) = mset (sessions s)"
    and failed_done: "ok s \<Longrightarrow> ok (po_failed P target er now s) \<and> mset (sessions (po_failed P target er now s)) = mset (sessions s)"
    and needs_refresh_done: "ok s \<Longrightarrow> ok (snd (po_needs_refresh P now s)) \<and> mset (sessions (snd (po_needs_refresh P now s))) = mset (sessions s)"
begin

lemma step_sessions:
  assumes "ok s" "policy_step P ev s = (opened, cancelled, s')"
  shows "ok s' \<and> mset (sessions s') + mset cancelled = mset (sessions s) - mset (closes ev) + mset opened"
proof (cases ev)
  case (Initialize local members)
  obtain r s1 where r: "po_initialize P local members s = (r, s1)" by force
  have st: "opened = []" "cancelled = []" "s' = s1" "closes ev = []" using assms(2) Initialize r by auto
  show ?thesis
  proof (cases r)
    case (Inl e)
    then have "s1 = s" using initialize_error [OF assms(1)] r by blast
    then show ?thesis using assms(1) st by simp
  next
    case (Inr u)
    then show ?thesis using initialize_done [OF assms(1)] r st by simp
  qed
next
  case (Refresh local members)
  obtain r s1 where r: "po_refresh P local members s = (r, s1)" by force
  show ?thesis
  proof (cases r)
    case (Inl e)
    then have "s1 = s" using refresh_error [OF assms(1)] r by blast
    then show ?thesis using Inl r assms Refresh by simp
  next
    case (Inr c)
    then show ?thesis using refresh_done [OF assms(1)] r assms(2) Refresh by simp
  qed
next
  case (Accept now remote dir g expected)
  obtain r s1 where r: "po_accept P now remote dir g expected s = (r, s1)" by force
  show ?thesis
  proof (cases r)
    case (Inl e)
    then have "s1 = s" using accept_error [OF assms(1)] r by blast
    then show ?thesis using Inl r assms Accept by simp
  next
    case (Inr c)
    then show ?thesis using accept_done [OF assms(1)] r assms(2) Accept by simp
  qed
qed (use assms closed_done due_done failed_done needs_refresh_done in auto)

lemma step_opened:
  assumes "ok s" "policy_step P ev s = (opened, cancelled, s')" "fresh_for ev live"
  shows "set opened \<inter> set live = {} \<and> distinct opened \<and> set opened \<subseteq> set (sessions s') \<and> (opened = [] \<or> closes ev = [])"
proof (cases ev)
  case (Refresh local members)
  then show ?thesis using assms(2) by (auto split: prod.splits sum.splits)
next
  case (Accept now remote dir g expected)
  obtain r s1 where r: "po_accept P now remote dir g expected s = (r, s1)" by force
  show ?thesis
  proof (cases r)
    case (Inl e)
    then show ?thesis using r assms Accept by simp
  next
    case (Inr c)
    then have "opened = [g]" "g \<in> set (sessions s')" "g \<notin> set live" using accept_done [OF assms(1)] r assms Accept by auto
    then show ?thesis using Accept by simp
  qed
qed (use assms in auto)

lemma ledger_step:
  assumes "ok s" "policy_step P ev s = (opened, cancelled, s')" "fresh_for ev live"
    and live: "distinct live" "mset live = mset (sessions s)"
  shows "distinct (filter (\<lambda>g. g \<notin> set (cancelled @ closes ev)) live @ opened)
    \<and> mset (filter (\<lambda>g. g \<notin> set (cancelled @ closes ev)) live @ opened) = mset (sessions s')"
proof -
  note o = step_opened [OF assms(1-3)]
  define gone where "gone = cancelled @ filter (\<lambda>g. g \<in> set live) (closes ev)"
  have d: "distinct (live @ opened)" using live o by auto
  have c: "mset live = mset live - mset (closes ev) + mset (filter (\<lambda>g. g \<in> set live) (closes ev))"
    by (cases ev) (auto simp: diff_single_trivial)
  have eq: "mset (live @ opened) = mset (sessions s') + mset gone"
  proof -
    have "mset (live @ opened) = (mset live - mset (closes ev) + mset opened) + mset (filter (\<lambda>g. g \<in> set live) (closes ev))"
      by (subst mset_append, subst c, simp only: ac_simps)
    also have "mset live - mset (closes ev) + mset opened = mset (sessions s') + mset cancelled"
      using step_sessions [OF assms(1,2)] live by simp
    finally show ?thesis by (simp add: gone_def)
  qed
  have "distinct (sessions s' @ gone)" using d eq mset_eq_imp_distinct_iff by (metis mset_append)
  then have "set opened \<inter> set gone = {}" using o by auto
  then have "filter (\<lambda>g. g \<notin> set gone) opened = opened" by (auto simp: filter_id_conv)
  moreover have "filter (\<lambda>g. g \<notin> set gone) live = filter (\<lambda>g. g \<notin> set (cancelled @ closes ev)) live"
    by (rule filter_cong) (auto simp: gone_def)
  ultimately have same: "filter (\<lambda>g. g \<notin> set gone) (live @ opened) = filter (\<lambda>g. g \<notin> set (cancelled @ closes ev)) live @ opened"
    by simp
  show ?thesis
    using mset_filter_removed [OF d eq] distinct_filter [OF d, of "\<lambda>g. g \<notin> set gone"] unfolding same by simp
qed

theorem run_ledger:
  assumes "ok s" "distinct live" "mset live = mset (sessions s)" "policy_fresh P evs (live, s)"
  shows "case policy_run P evs (live, s) of (live', s') \<Rightarrow> ok s' \<and> distinct live' \<and> mset live' = mset (sessions s')"
  using assms
proof (induction evs arbitrary: live s)
  case Nil
  then show ?case by simp
next
  case (Cons ev evs)
  obtain opened cancelled s' where st: "policy_step P ev s = (opened, cancelled, s')" by (metis prod_cases3)
  have "fresh_for ev live" using Cons.prems by simp
  then show ?case
    using Cons.prems Cons.IH ledger_step [OF Cons.prems(1) st] step_sessions [OF Cons.prems(1) st] st by simp
qed

end

subsection \<open>Sample members\<close>

text \<open>Members and a configuration for concrete instances.\<close>

definition sample_config :: config where
  "sample_config = \<lparr>cf_role = Star, cf_galaxy = ''g'', cf_group = ''d'', cf_max_members = 8, cf_reconnect_min = 100,
     cf_reconnect_max = 5000, cf_stable_connection = 5000\<rparr>"

definition sample_member :: "string \<Rightarrow> nat \<Rightarrow> member" where
  "sample_member i n = \<lparr>m_galaxy = ''g'', m_id = i, m_principal = [of_nat n], m_address =
     \<lparr>ep_host = ''10.0.0.1'', ep_port = n, ep_ipv6 = False, ep_wildcard = False\<rparr>, m_epoch = 1, m_role = Star, m_group = ''d''\<rparr>"

lemma sample_endpoint:
  assumes "t = ''10.0.0.1:'' @ [c]" "port_number [c] False = Inr n" "c \<noteq> CHR '':''"
  shows "endpoint_parse one_pton one_ntop t False = Inr \<lparr>ep_host = ''10.0.0.1'', ep_port = n, ep_ipv6 = False, ep_wildcard = False\<rparr>"
proof -
  have "split_last (CHR '':'') t = Some (''10.0.0.1'', [c])" using assms(1,3) by (simp add: split_last_def)
  then show ?thesis using assms(2)
    by (simp add: endpoint_parse_Inr [OF one_inet] bracketed_def one_pton_def one_ntop_def address_ok_def Let_def)
qed

lemma sample_valid:
  assumes "n \<in> {1, 2, 3}" "i \<in> {''a'', ''b'', ''c''}"
  shows "member_validate one_pton one_ntop (sample_member i n) = Inr ()"
proof -
  have "valid_name ''g''" "valid_name ''d''" by code_simp+
  moreover have "valid_id ''a''" "valid_id ''b''" "valid_id ''c''" by code_simp+
  moreover have "endpoint_parse one_pton one_ntop (''10.0.0.1:'' @ decimal n) False
      = Inr \<lparr>ep_host = ''10.0.0.1'', ep_port = n, ep_ipv6 = False, ep_wildcard = False\<rparr>"
    using assms(1) by (intro sample_endpoint [where c = "char_of (n + 48)"])
      (auto simp: decimal.simps port_number_Inr is_digit_def code_of_def digits_value_def dest: arg_cong [where f = "of_char :: char \<Rightarrow> nat"])
  ultimately show ?thesis using assms(2) by (auto simp: member_validate_def sample_member_def endpoint_text_def)
qed

end
