(* ===== verification/Topology.thy ===== *)
theory Topology
  imports Policy
begin

text \<open>
  The policy of a Star (\<^verbatim>\<open>astra/star/src/topology.hpp\<close>, \<^verbatim>\<open>topology.cpp\<close>): the directory of known members with the one session
  and the redial timer of each, and its invariant under accepting, closing, dialling and failing.
  The model's lists are the entries of a \<^verbatim>\<open>std::map\<close> in key order.
\<close>

record peer =
  pe_member :: member
  pe_out :: "generation option"
  pe_in :: "generation option"
  pe_pending :: bool
  pe_failures :: u32
  pe_next :: ns
  pe_connected :: ns

record star =
  sr_config :: config
  sr_local :: "member option"
  sr_members :: "(bytes \<times> peer) list"

definition peer_new :: "member \<Rightarrow> peer" where
  "peer_new m = \<lparr>pe_member = m, pe_out = None, pe_in = None, pe_pending = False, pe_failures = 0, pe_next = 0, pe_connected = 0\<rparr>"

definition star_new :: "config \<Rightarrow> star" where
  "star_new cf = \<lparr>sr_config = cf, sr_local = None, sr_members = []\<rparr>"

definition peer_sessions :: "peer \<Rightarrow> generation list" where
  "peer_sessions e = (case pe_out e of None \<Rightarrow> [] | Some g \<Rightarrow> [g]) @ (case pe_in e of None \<Rightarrow> [] | Some g \<Rightarrow> [g])"

subsection \<open>The initial list\<close>

fun init_loop :: "(bool \<Rightarrow> string \<Rightarrow> bytes option) \<Rightarrow> (bool \<Rightarrow> bytes \<Rightarrow> string option) \<Rightarrow> config \<Rightarrow> member
    \<Rightarrow> member list \<Rightarrow> string option \<Rightarrow> bool \<Rightarrow> (bytes \<times> peer) list \<Rightarrow> (bool \<times> (bytes \<times> peer) list) result" where
  "init_loop pton ntop cf local [] previous found prepared = Inr (found, prepared)"
| "init_loop pton ntop cf local (m # members) previous found prepared =
     (if isl (member_validate pton ntop m) \<or> m_galaxy m \<noteq> cf_galaxy cf \<or> m_role m \<noteq> Star
         \<or> (case previous of None \<Rightarrow> False | Some i \<Rightarrow> i \<ge> m_id m)
      then fail Identity ''Invalid complete Star list''
      else if m_principal m = m_principal local then
        if m \<noteq> local then fail Identity ''Complete list conflicts with local identity''
        else init_loop pton ntop cf local members (Some (m_id m)) True prepared
      else if map_of prepared (m_principal m) \<noteq> None then fail Identity ''Duplicate principal in complete Star list''
      else init_loop pton ntop cf local members (Some (m_id m)) found (place (m_principal m) (peer_new m) prepared))"

fun adjacent_equal :: "'a list \<Rightarrow> bool" where
  "adjacent_equal (x # y # xs) = (x = y \<or> adjacent_equal (y # xs))"
| "adjacent_equal xs = False"

definition star_initialize :: "(bool \<Rightarrow> string \<Rightarrow> bytes option) \<Rightarrow> (bool \<Rightarrow> bytes \<Rightarrow> string option) \<Rightarrow> member
    \<Rightarrow> member list \<Rightarrow> star \<Rightarrow> unit result \<times> star" where
  "star_initialize pton ntop local members s =
     (if members = [] \<or> length members > cf_max_members (sr_config s)
      then (fail Capacity ''Invalid complete Star list size'', s)
      else case init_loop pton ntop (sr_config s) local members None False [] of
        Inl e \<Rightarrow> (Inl e, s)
      | Inr (found, prepared) \<Rightarrow>
          if \<not> found then (fail Identity ''Complete list omits local identity'', s)
          else if adjacent_equal (sort (map (\<lambda>m. endpoint_text (m_address m)) members))
          then (fail Identity ''Duplicate address in complete Star list'', s)
          else if sr_local s \<noteq> None then (fail Conflict ''Star topology already initialized'', s)
          else (Inr (), s\<lparr>sr_members := prepared, sr_local := Some local\<rparr>))"

subsection \<open>Refreshing the list\<close>

fun merge_loop :: "(bytes \<times> peer) list \<Rightarrow> (bytes \<times> peer) list \<Rightarrow> generation list
    \<Rightarrow> ((bytes \<times> peer) list \<times> generation list) result" where
  "merge_loop [] prepared cancelled = Inr (prepared, cancelled)"
| "merge_loop ((p, incoming) # rest) prepared cancelled =
     (case map_of prepared p of
        None \<Rightarrow> merge_loop rest (place p incoming prepared) cancelled
      | Some old \<Rightarrow>
          if m_epoch (pe_member incoming) < m_epoch (pe_member old) then merge_loop rest prepared cancelled
          else case supersedes (pe_member incoming) (pe_member old) of
            Inl e \<Rightarrow> Inl e
          | Inr replace \<Rightarrow>
              if replace then merge_loop rest (place p incoming prepared) (cancelled @ peer_sessions old)
              else merge_loop rest prepared cancelled)"

fun alias_loop :: "member \<Rightarrow> (bytes \<times> peer) list \<Rightarrow> string list \<Rightarrow> endpoint list \<Rightarrow> nat \<Rightarrow> nat result" where
  "alias_loop local [] ids addresses stars = Inr stars"
| "alias_loop local ((p, e) # rest) ids addresses stars =
     (let m = pe_member e
      in if m_id m = m_id local \<or> m_address m = m_address local \<or> m_id m \<in> set ids \<or> m_address m \<in> set addresses
         then fail Identity ''Merged directory aliases existing member''
         else alias_loop local rest (m_id m # ids) (m_address m # addresses) (if m_role m = Star then stars + 1 else stars))"

definition star_refresh :: "(bool \<Rightarrow> string \<Rightarrow> bytes option) \<Rightarrow> (bool \<Rightarrow> bytes \<Rightarrow> string option) \<Rightarrow> member
    \<Rightarrow> member list \<Rightarrow> star \<Rightarrow> generation list result \<times> star" where
  "star_refresh pton ntop local members s =
     (case star_initialize pton ntop local members (star_new (sr_config s)) of
        (Inl e, _) \<Rightarrow> (Inl e, s)
      | (Inr _, candidate) \<Rightarrow>
          if sr_local s \<noteq> Some local then (fail Identity ''Directory replaced local process'', s)
          else case merge_loop (sr_members candidate) (sr_members s) [] of
            Inl e \<Rightarrow> (Inl e, s)
          | Inr (prepared, cancelled) \<Rightarrow>
              (case alias_loop local prepared [] [] 1 of
                 Inl e \<Rightarrow> (Inl e, s)
               | Inr stars \<Rightarrow>
                   if stars > cf_max_members (sr_config s) then (fail Capacity ''Merged Star directory exceeds capacity'', s)
                   else (Inr cancelled, s\<lparr>sr_members := prepared\<rparr>)))"

subsection \<open>Sessions\<close>

text \<open>\<^verbatim>\<open>std::lexicographical_compare\<close> on unsigned characters is the order of strings.\<close>

definition star_install :: "ns \<Rightarrow> member \<Rightarrow> direction \<Rightarrow> generation \<Rightarrow> member \<Rightarrow> peer \<Rightarrow> generation list
    \<Rightarrow> (peer \<times> generation list) result" where
  "star_install now remote dir generation local entry cancelled =
     (let slot = (if dir = Outbound then pe_out entry else pe_in entry);
          opposite = (if dir = Outbound then pe_in entry else pe_out entry)
      in if slot \<noteq> None then fail Conflict ''Star session initiator is already active''
         else let contested = (m_role remote = Star \<and> opposite \<noteq> None);
                  candidate = (if dir = Outbound then m_id local else m_id remote);
                  current = (if dir = Outbound then m_id remote else m_id local)
              in if contested \<and> \<not> candidate < current
                 then fail Conflict ''Opposite Star session has the preferred initiator''
                 else let cancelled' = (case opposite of Some g \<Rightarrow> if contested then cancelled @ [g] else cancelled | None \<Rightarrow> cancelled);
                          e1 = (if contested then if dir = Outbound then entry\<lparr>pe_in := None\<rparr> else entry\<lparr>pe_out := None\<rparr> else entry);
                          e2 = (if dir = Outbound then e1\<lparr>pe_out := Some generation, pe_pending := False\<rparr>
                                else e1\<lparr>pe_in := Some generation\<rparr>)
                      in Inr (e2\<lparr>pe_connected := now\<rparr>, cancelled'))"

definition star_admit :: "config \<Rightarrow> member \<Rightarrow> (bytes \<times> peer) list \<Rightarrow> (peer \<times> generation list) result" where
  "star_admit cf remote members =
     (case map_of members (m_principal remote) of
        None \<Rightarrow>
          if length (filter (\<lambda>(p, e). m_role (pe_member e) = m_role remote) members)
             \<ge> cf_max_members cf - (if m_role remote = Star then 1 else 0)
          then fail Capacity ''Member capacity reached'' else Inr (peer_new remote, [])
      | Some old \<Rightarrow>
          (case supersedes remote (pe_member old) of
             Inl e \<Rightarrow> Inl e
           | Inr replace \<Rightarrow> Inr (if replace then (peer_new remote, peer_sessions old) else (old, []))))"

definition star_refuses :: "member \<Rightarrow> direction \<Rightarrow> member \<Rightarrow> bool" where
  "star_refuses remote dir local \<longleftrightarrow>
     m_role remote \<noteq> Star \<and> m_role remote \<noteq> Planet \<or> m_galaxy remote \<noteq> m_galaxy local \<or> m_id remote = m_id local
     \<or> m_principal remote = m_principal local \<or> m_address remote = m_address local
     \<or> m_role remote = Planet \<and> dir \<noteq> Inbound"

definition star_accept :: "ns \<Rightarrow> member \<Rightarrow> direction \<Rightarrow> generation \<Rightarrow> member option \<Rightarrow> star \<Rightarrow> generation list result \<times> star" where
  "star_accept now remote dir generation expected s =
     (case sr_local s of
        None \<Rightarrow> (fail Identity ''Invalid star relationship'', s)
      | Some local \<Rightarrow>
          if star_refuses remote dir local then (fail Identity ''Invalid star relationship'', s)
          else if (case expected of None \<Rightarrow> False | Some m \<Rightarrow> remote \<noteq> m \<or> dir \<noteq> Outbound)
          then (fail Identity ''Dial target identity changed'', s)
          else if list_ex (\<lambda>(p, e). p \<noteq> m_principal remote
                    \<and> (m_id (pe_member e) = m_id remote \<or> m_address (pe_member e) = m_address remote)) (sr_members s)
          then (fail Conflict ''Member aliases an existing identity'', s)
          else case star_admit (sr_config s) remote (sr_members s) of
            Inl e \<Rightarrow> (Inl e, s)
          | Inr (entry, cancelled) \<Rightarrow>
              (case star_install now remote dir generation local entry cancelled of
                 Inl e \<Rightarrow> (Inl e, s\<lparr>sr_members := place (m_principal remote) entry (sr_members s)\<rparr>)
               | Inr (entry', cancelled') \<Rightarrow>
                   (Inr cancelled', s\<lparr>sr_members := place (m_principal remote) entry' (sr_members s)\<rparr>)))"

definition close_entry :: "(string \<Rightarrow> u64) \<Rightarrow> config \<Rightarrow> string \<Rightarrow> generation \<Rightarrow> ns \<Rightarrow> bytes \<Rightarrow> peer \<Rightarrow> peer" where
  "close_entry hash cf local_id g now p e =
     (let e1 = (if pe_out e = Some g then e\<lparr>pe_out := None\<rparr> else e\<lparr>pe_in := None\<rparr>);
          failures = (if now - pe_connected e1 \<ge> cf_stable_connection cf * ms then 1 else next_failures (pe_failures e1))
      in e1\<lparr>pe_failures := failures, pe_next := now + backoff hash cf p local_id failures\<rparr>)"

fun close_loop :: "(string \<Rightarrow> u64) \<Rightarrow> config \<Rightarrow> string \<Rightarrow> generation \<Rightarrow> ns \<Rightarrow> (bytes \<times> peer) list \<Rightarrow> (bytes \<times> peer) list" where
  "close_loop hash cf local_id g now [] = []"
| "close_loop hash cf local_id g now ((p, e) # rest) =
     (if pe_out e = Some g \<or> pe_in e = Some g then (p, close_entry hash cf local_id g now p e) # rest
      else (p, e) # close_loop hash cf local_id g now rest)"

definition star_closed :: "(string \<Rightarrow> u64) \<Rightarrow> generation \<Rightarrow> status_code option \<Rightarrow> ns \<Rightarrow> star \<Rightarrow> star" where
  "star_closed hash g e now s =
     s\<lparr>sr_members := close_loop hash (sr_config s) (case sr_local s of None \<Rightarrow> [] | Some m \<Rightarrow> m_id m) g now (sr_members s)\<rparr>"

definition dialable :: "ns \<Rightarrow> peer \<Rightarrow> bool" where
  "dialable now e \<longleftrightarrow> m_role (pe_member e) = Star \<and> \<not> pe_pending e \<and> pe_out e = None \<and> pe_in e = None \<and> now \<ge> pe_next e"

fun due_loop :: "ns \<Rightarrow> (bytes \<times> peer) list \<Rightarrow> member option \<times> (bytes \<times> peer) list" where
  "due_loop now [] = (None, [])"
| "due_loop now ((p, e) # rest) =
     (if dialable now e then (Some (pe_member e), (p, e\<lparr>pe_pending := True\<rparr>) # rest)
      else let (t, rest') = due_loop now rest in (t, (p, e) # rest'))"

definition star_due :: "ns \<Rightarrow> star \<Rightarrow> member option \<times> star" where
  "star_due now s =
     (case sr_local s of
        None \<Rightarrow> (None, s)
      | Some _ \<Rightarrow> (let (t, ms') = due_loop now (sr_members s) in (t, s\<lparr>sr_members := ms'\<rparr>)))"

definition star_failed :: "(string \<Rightarrow> u64) \<Rightarrow> member \<Rightarrow> status_code \<Rightarrow> ns \<Rightarrow> star \<Rightarrow> star" where
  "star_failed hash target error now s =
     (case map_of (sr_members s) (m_principal target) of
        None \<Rightarrow> s
      | Some e \<Rightarrow>
          if pe_member e \<noteq> target then s
          else let e1 = e\<lparr>pe_pending := False\<rparr>;
                   failures = next_failures (pe_failures e1);
                   e2 = (if pe_out e1 \<noteq> None \<or> pe_in e1 \<noteq> None then e1
                         else e1\<lparr>pe_failures := failures,
                           pe_next := now + backoff hash (sr_config s) (m_principal target)
                             (case sr_local s of None \<Rightarrow> [] | Some m \<Rightarrow> m_id m) failures\<rparr>)
               in s\<lparr>sr_members := place (m_principal target) e2 (sr_members s)\<rparr>)"

definition star_needs_refresh :: "ns \<Rightarrow> star \<Rightarrow> bool \<times> star" where
  "star_needs_refresh now s = (False, s)"

definition star_status :: "star \<Rightarrow> policy_state" where
  "star_status s =
     (let has = (\<lambda>slot :: generation option. if slot = None then 0 else 1 :: nat);
          count = (\<lambda>r (p, e).
            if m_role (pe_member e) = Star
            then r\<lparr>ps_members := ps_members r + 1, ps_outbound := ps_outbound r + has (pe_out e), ps_inbound := ps_inbound r + has (pe_in e)\<rparr>
            else r\<lparr>ps_planet_inbound := ps_planet_inbound r + has (pe_in e)\<rparr>)
      in foldl count \<lparr>ps_initialized = (sr_local s \<noteq> None), ps_members = (if sr_local s \<noteq> None then 1 else 0), ps_inbound = 0,
           ps_outbound = 0, ps_planet_inbound = 0, ps_candidates = 0, ps_active_member = None\<rparr> (sr_members s))"

subsection \<open>Ordered maps\<close>

abbreviation ordered :: "('k::linorder \<times> 'v) list \<Rightarrow> bool" where
  "ordered xs \<equiv> sorted_wrt (<) (map fst xs)"

lemma place_keys: "set (map fst (place k v xs)) = insert k (set (map fst xs))"
  by (induction k v xs rule: place.induct) auto

lemma ordered_place: "ordered xs \<Longrightarrow> ordered (place k v xs)"
proof (induction k v xs rule: place.induct)
  case (2 k v j w xs)
  then show ?case using place_keys [of k v xs] by auto
qed simp

lemma place_known:
  assumes "ordered xs" "map_of xs k = Some w"
  obtains ys zs where "xs = ys @ (k, w) # zs" "place k v xs = ys @ (k, v) # zs"
  using assms
proof (induction k v xs arbitrary: thesis rule: place.induct)
  case (2 k v j u xs)
  consider "k < j" | "k = j" | "j < k" by force
  then show ?case
  proof cases
    case 1
    then have "map_of xs k = None" using 2(3) by (force simp: map_of_eq_None_iff)
    then show ?thesis using 2(4) 1 by (auto split: if_splits)
  next
    case 2
    then show ?thesis using "2.prems"(1) [of "[]" xs] "2.prems"(3) by simp
  next
    case 3
    obtain ys zs where "xs = ys @ (k, w) # zs" "place k v xs = ys @ (k, v) # zs"
      by (rule "2.IH") (use "2.prems" 3 in \<open>auto split: if_splits\<close>)
    then show ?thesis using "2.prems"(1) [of "(j, u) # ys" zs] less_imp_not_less [OF 3] less_imp_neq [OF 3, THEN not_sym] by simp
  qed
qed simp

lemma place_unknown:
  assumes "map_of xs k = None"
  obtains ys zs where "xs = ys @ zs" "place k v xs = ys @ (k, v) # zs"
  using assms
proof (induction k v xs arbitrary: thesis rule: place.induct)
  case (1 k v)
  then show ?case by (metis append_Nil place.simps(1))
next
  case (2 k v j u xs)
  consider "k < j" | "j < k" using 2 by (force split: if_splits)
  then show ?case
  proof cases
    case 1
    then show ?thesis using "2.prems"(1) [of "[]" "(j, u) # xs"] by simp
  next
    case 2
    obtain ys zs where "xs = ys @ zs" "place k v xs = ys @ (k, v) # zs"
      by (rule "2.IH") (use "2.prems" 2 in \<open>auto split: if_splits\<close>)
    then show ?thesis using "2.prems"(1) [of "(j, u) # ys" zs] less_imp_not_less [OF 2] less_imp_neq [OF 2, THEN not_sym] by simp
  qed
qed

lemma map_of_place: "ordered xs \<Longrightarrow> map_of (place k v xs) = (map_of xs)(k \<mapsto> v)"
proof (induction k v xs rule: place.induct)
  case (2 k v j w xs)
  then show ?case by (auto simp: fun_eq_iff)
qed (simp add: fun_eq_iff)

lemma ordered_unique: "ordered xs \<Longrightarrow> distinct (map fst xs)"
  by (simp add: strict_sorted_iff)

lemma ordered_map_of: "ordered xs \<Longrightarrow> (p, e) \<in> set xs \<longleftrightarrow> map_of xs p = Some e"
  by (simp add: ordered_unique)

subsection \<open>The invariant of a Star's directory\<close>

definition role_count :: "role \<Rightarrow> (bytes \<times> peer) list \<Rightarrow> nat" where
  "role_count r xs = length (filter (\<lambda>(p, e). m_role (pe_member e) = r) xs)"

definition peer_ok :: "member \<Rightarrow> bytes \<Rightarrow> peer \<Rightarrow> bool" where
  "peer_ok local p e \<longleftrightarrow>
     p = m_principal (pe_member e) \<and> p \<noteq> m_principal local \<and> m_id (pe_member e) \<noteq> m_id local
     \<and> m_address (pe_member e) \<noteq> m_address local \<and> m_galaxy (pe_member e) = m_galaxy local
     \<and> (m_role (pe_member e) = Star \<or> m_role (pe_member e) = Planet \<and> pe_out e = None \<and> \<not> pe_pending e)
     \<and> (pe_out e = None \<or> pe_in e = None) \<and> pe_failures e \<le> 100"

definition differ :: "peer \<Rightarrow> peer \<Rightarrow> bool" where
  "differ e w \<longleftrightarrow> m_id (pe_member e) \<noteq> m_id (pe_member w) \<and> m_address (pe_member e) \<noteq> m_address (pe_member w)"

definition unaliased :: "(bytes \<times> peer) list \<Rightarrow> bool" where
  "unaliased xs \<longleftrightarrow> (\<forall>(p, e) \<in> set xs. \<forall>(q, w) \<in> set xs. p \<noteq> q \<longrightarrow> differ e w)"

definition directory_ok :: "config \<Rightarrow> member \<Rightarrow> (bytes \<times> peer) list \<Rightarrow> bool" where
  "directory_ok cf local xs \<longleftrightarrow>
     ordered xs \<and> (\<forall>(p, e) \<in> set xs. peer_ok local p e) \<and> unaliased xs
     \<and> role_count Star xs < cf_max_members cf \<and> role_count Planet xs \<le> cf_max_members cf"

definition star_ok :: "star \<Rightarrow> bool" where
  "star_ok s \<longleftrightarrow> (case sr_local s of None \<Rightarrow> sr_members s = [] | Some local \<Rightarrow> directory_ok (sr_config s) local (sr_members s))"

definition star_sessions :: "star \<Rightarrow> generation list" where
  "star_sessions s = concat (map (\<lambda>(p, e). peer_sessions e) (sr_members s))"

lemma role_count_simps [simp]:
  "role_count r [] = 0" "role_count r (xs @ ys) = role_count r xs + role_count r ys"
  "role_count r ((p, e) # xs) = (if m_role (pe_member e) = r then 1 else 0) + role_count r xs"
  by (simp_all add: role_count_def)

text \<open>An entry whose member keeps its principal, role and address may be replaced.\<close>

lemma ordered_middle: "ordered (ys @ (p, e) # zs) \<Longrightarrow> (q, w) \<in> set ys \<or> (q, w) \<in> set zs \<Longrightarrow> q \<noteq> p"
  by (force simp: sorted_wrt_append)

lemma differ_sym: "differ e w \<Longrightarrow> differ w e"
  by (auto simp: differ_def)

lemma unaliased_iff: "unaliased xs \<longleftrightarrow> (\<forall>p e q w. (p, e) \<in> set xs \<longrightarrow> (q, w) \<in> set xs \<longrightarrow> p \<noteq> q \<longrightarrow> differ e w)"
  unfolding unaliased_def by blast

lemma unaliased_middle:
  "unaliased (ys @ (p, e) # zs) \<longleftrightarrow> unaliased (ys @ zs) \<and> (\<forall>(q, w) \<in> set (ys @ zs). q \<noteq> p \<longrightarrow> differ w e)"
proof
  assume u: "unaliased (ys @ (p, e) # zs)"
  have "differ w e" if "(q, w) \<in> set (ys @ zs)" "q \<noteq> p" for q w
    using u that unfolding unaliased_iff by auto
  moreover have "unaliased (ys @ zs)" using u unfolding unaliased_iff by auto
  ultimately show "unaliased (ys @ zs) \<and> (\<forall>(q, w) \<in> set (ys @ zs). q \<noteq> p \<longrightarrow> differ w e)" by auto
next
  assume r: "unaliased (ys @ zs) \<and> (\<forall>(q, w) \<in> set (ys @ zs). q \<noteq> p \<longrightarrow> differ w e)"
  have "differ e1 w" if held: "(p1, e1) \<in> set (ys @ (p, e) # zs)" "(q, w) \<in> set (ys @ (p, e) # zs)" "p1 \<noteq> q" for p1 e1 q w
  proof -
    consider "(p1, e1) = (p, e)" "(q, w) \<in> set (ys @ zs)" | "(q, w) = (p, e)" "(p1, e1) \<in> set (ys @ zs)"
      | "(p1, e1) \<in> set (ys @ zs)" "(q, w) \<in> set (ys @ zs)" using held by auto
    then show ?thesis
    proof cases
      case 1
      then have "differ w e" using r held(3) by auto
      then show ?thesis using 1(1) differ_sym by auto
    next
      case 2
      then show ?thesis using r held(3) by auto
    next
      case 3
      then show ?thesis using r held(3) unfolding unaliased_iff by blast
    qed
  qed
  then show "unaliased (ys @ (p, e) # zs)" unfolding unaliased_iff by blast
qed

lemma directory_replace:
  assumes d: "directory_ok cf local (ys @ (p, e) # zs)" and e': "peer_ok local p e'"
    and same: "m_role (pe_member e') = m_role (pe_member e)" "m_address (pe_member e') = m_address (pe_member e)"
    and id: "\<forall>(q, w) \<in> set (ys @ zs). q \<noteq> p \<longrightarrow> m_id (pe_member w) \<noteq> m_id (pe_member e')"
  shows "directory_ok cf local (ys @ (p, e') # zs)"
proof -
  have "ordered (ys @ (p, e') # zs)" using d by (simp add: directory_ok_def)
  moreover have "\<forall>(q, w) \<in> set (ys @ (p, e') # zs). peer_ok local q w" using d e' by (auto simp: directory_ok_def)
  moreover have "unaliased (ys @ (p, e') # zs)"
  proof -
    have u: "unaliased (ys @ (p, e) # zs)" using d by (simp add: directory_ok_def)
    have "differ w e'" if "(q, w) \<in> set (ys @ zs)" "q \<noteq> p" for q w
      using u [unfolded unaliased_middle] that id same(2) unfolding differ_def by auto
    then show ?thesis using u unfolding unaliased_middle by blast
  qed
  moreover have "role_count r (ys @ (p, e') # zs) = role_count r (ys @ (p, e) # zs)" for r using same by simp
  ultimately show ?thesis using d unfolding directory_ok_def by presburger
qed

lemma directory_touch:
  assumes d: "directory_ok cf local (ys @ (p, e) # zs)" and e': "peer_ok local p e'" and same: "pe_member e' = pe_member e"
  shows "directory_ok cf local (ys @ (p, e') # zs)"
proof (rule directory_replace [OF d e'])
  have "unaliased (ys @ (p, e) # zs)" using d by (simp add: directory_ok_def)
  then show "\<forall>(q, w) \<in> set (ys @ zs). q \<noteq> p \<longrightarrow> m_id (pe_member w) \<noteq> m_id (pe_member e')"
    unfolding unaliased_middle differ_def same by blast
qed (use same in simp_all)

lemma directory_insert:
  assumes d: "directory_ok cf local (ys @ zs)" and o: "ordered (ys @ (p, e) # zs)" and e: "peer_ok local p e"
    and id: "\<forall>(q, w) \<in> set (ys @ zs). q \<noteq> p \<longrightarrow> differ w e"
    and room: "m_role (pe_member e) = Star \<Longrightarrow> Suc (role_count Star (ys @ zs)) < cf_max_members cf"
      "m_role (pe_member e) = Planet \<Longrightarrow> role_count Planet (ys @ zs) < cf_max_members cf"
  shows "directory_ok cf local (ys @ (p, e) # zs)"
proof -
  have "\<forall>(q, w) \<in> set (ys @ (p, e) # zs). peer_ok local q w" using d e by (auto simp: directory_ok_def)
  moreover have "unaliased (ys @ (p, e) # zs)" using d id unfolding directory_ok_def unaliased_middle by blast
  moreover have "role_count Star (ys @ (p, e) # zs) < cf_max_members cf" "role_count Planet (ys @ (p, e) # zs) \<le> cf_max_members cf"
    using d room unfolding directory_ok_def by auto
  ultimately show ?thesis using o unfolding directory_ok_def by blast
qed

subsection \<open>Sessions of the directory\<close>

lemma peer_sessions_new [simp]: "peer_sessions (peer_new m) = []" "pe_member (peer_new m) = m"
  "pe_out (peer_new m) = None" "pe_in (peer_new m) = None" "pe_failures (peer_new m) = 0" "\<not> pe_pending (peer_new m)"
  by (simp_all add: peer_sessions_def peer_new_def)

abbreviation all_sessions :: "(bytes \<times> peer) list \<Rightarrow> generation multiset" where
  "all_sessions xs \<equiv> \<Sum>(p, e) \<in># mset xs. mset (peer_sessions e)"

lemma star_sessions_mset: "mset (star_sessions s) = all_sessions (sr_members s)"
proof -
  have "mset (concat (map (\<lambda>(p, e). peer_sessions e) xs)) = all_sessions xs" for xs
    by (induction xs) auto
  then show ?thesis by (simp add: star_sessions_def)
qed

lemma close_split:
  obtains (absent) "g \<notin># all_sessions xs" "close_loop hash cf i g now xs = xs"
  | (present) ys p e zs where "xs = ys @ (p, e) # zs" "g \<notin># all_sessions ys" "pe_out e = Some g \<or> pe_in e = Some g"
      "close_loop hash cf i g now xs = ys @ (p, close_entry hash cf i g now p e) # zs"
proof (induction xs arbitrary: thesis)
  case Nil
  then show ?case by simp
next
  case (Cons x xs)
  obtain p e where x: "x = (p, e)" by force
  show ?case
  proof (cases "pe_out e = Some g \<or> pe_in e = Some g")
    case True
    then show ?thesis using Cons.prems(2) [of "[]" p e xs] x by simp
  next
    case False
    then have n: "g \<notin> set (peer_sessions e)" by (auto simp: peer_sessions_def split: option.splits)
    show ?thesis
    proof (rule Cons.IH)
      assume "g \<notin># all_sessions xs" "close_loop hash cf i g now xs = xs"
      then show thesis using Cons.prems(1) False n x by simp
    next
      fix ys q w zs
      assume "xs = ys @ (q, w) # zs" "g \<notin># all_sessions ys" "pe_out w = Some g \<or> pe_in w = Some g"
        "close_loop hash cf i g now xs = ys @ (q, close_entry hash cf i g now q w) # zs"
      then show thesis using Cons.prems(2) [of "x # ys" q w zs] False n x by simp
    qed
  qed
qed

lemma due_split:
  obtains (idle) "\<forall>(p, e) \<in> set xs. \<not> dialable now e" "due_loop now xs = (None, xs)"
  | (dial) ys p e zs where "xs = ys @ (p, e) # zs" "\<forall>(q, w) \<in> set ys. \<not> dialable now w" "dialable now e"
      "due_loop now xs = (Some (pe_member e), ys @ (p, e\<lparr>pe_pending := True\<rparr>) # zs)"
proof (induction xs arbitrary: thesis)
  case Nil
  then show ?case by simp
next
  case (Cons x xs)
  obtain p e where x: "x = (p, e)" by force
  show ?case
  proof (cases "dialable now e")
    case True
    then show ?thesis using Cons.prems(2) [of "[]" p e xs] x by simp
  next
    case False
    show ?thesis
    proof (rule Cons.IH)
      assume "\<forall>(p, e) \<in> set xs. \<not> dialable now e" "due_loop now xs = (None, xs)"
      then show thesis using Cons.prems(1) False x by simp
    next
      fix ys q w zs
      assume "xs = ys @ (q, w) # zs" "\<forall>(q, w) \<in> set ys. \<not> dialable now w" "dialable now w"
        "due_loop now xs = (Some (pe_member w), ys @ (q, w\<lparr>pe_pending := True\<rparr>) # zs)"
      then show thesis using Cons.prems(2) [of "x # ys" q w zs] False x by simp
    qed
  qed
qed

text \<open>Installing a session in an entry that has at most one.\<close>

lemma install_entry:
  assumes i: "star_install now remote dir g local e c0 = Inr (e', c)" and "pe_out e = None \<or> pe_in e = None"
    and r: "m_role remote = Star \<or> m_role remote = Planet \<and> dir = Inbound \<and> pe_out e = None"
  shows "pe_member e' = pe_member e" "pe_failures e' = pe_failures e" "pe_out e' = None \<or> pe_in e' = None"
    "pe_pending e' \<Longrightarrow> pe_pending e" "m_role remote = Planet \<Longrightarrow> pe_out e' = None" "g \<in> set (peer_sessions e')"
    "mset (peer_sessions e') + mset c = add_mset g (mset (peer_sessions e) + mset c0)"
  using assms unfolding star_install_def Let_def fail_def
  by (cases dir; auto simp: peer_sessions_def split: if_splits option.splits)+

lemma install_new: "star_install now remote dir g local (peer_new m) c0 \<noteq> Inl err"
  by (simp add: star_install_def Let_def)

lemma directory_known:
  assumes "directory_ok cf local xs" "map_of xs p = Some e"
  shows "peer_ok local p e"
  using assms map_of_SomeD [OF assms(2)] by (auto simp: directory_ok_def)

subsection \<open>Every operation keeps the invariant and accounts for the sessions\<close>

lemma close_entry_keeps:
  assumes "pe_out e = None \<or> pe_in e = None" "pe_out e = Some g \<or> pe_in e = Some g"
  shows "pe_member (close_entry hash cf i g now p e) = pe_member e" "pe_pending (close_entry hash cf i g now p e) = pe_pending e"
    "peer_sessions (close_entry hash cf i g now p e) = []" "peer_sessions e = [g]"
    "pe_out (close_entry hash cf i g now p e) = None" "pe_in (close_entry hash cf i g now p e) = None"
    "pe_failures (close_entry hash cf i g now p e) \<le> 100"
  using assms by (auto simp: close_entry_def Let_def peer_sessions_def split: option.splits)

lemma star_closed_keeps:
  assumes ok: "star_ok s"
  shows "star_ok (star_closed hash g code now s)"
    "mset (star_sessions (star_closed hash g code now s)) = mset (star_sessions s) - {#g#}"
proof -
  let ?i = "case sr_local s of None \<Rightarrow> [] | Some m \<Rightarrow> m_id m"
  have "star_ok (star_closed hash g code now s) \<and> mset (star_sessions (star_closed hash g code now s)) = mset (star_sessions s) - {#g#}"
  proof (cases rule: close_split [where g = g and xs = "sr_members s" and hash = hash and cf = "sr_config s" and i = ?i and now = now])
    case absent
    then show ?thesis using ok by (simp add: star_closed_def star_sessions_mset diff_single_trivial)
  next
    case (present ys p e zs)
    obtain local where l: "sr_local s = Some local" using ok present(1) by (auto simp: star_ok_def split: option.splits)
    have d: "directory_ok (sr_config s) local (ys @ (p, e) # zs)" using ok l present(1) by (simp add: star_ok_def)
    then have pe: "peer_ok local p e" by (simp add: directory_ok_def)
    then have one: "pe_out e = None \<or> pe_in e = None" by (simp add: peer_ok_def)
    note ce = close_entry_keeps [OF one present(3)]
    have "peer_ok local p (close_entry hash (sr_config s) ?i g now p e)" using pe ce unfolding peer_ok_def by auto
    from directory_touch [OF d this ce(1)] have "star_ok (star_closed hash g code now s)"
      using l present(4) by (simp add: star_ok_def star_closed_def)
    moreover have "mset (star_sessions (star_closed hash g code now s)) = mset (star_sessions s) - {#g#}"
      using present(1,4) ce(3,4) by (simp add: star_sessions_mset star_closed_def)
    ultimately show ?thesis by simp
  qed
  then show "star_ok (star_closed hash g code now s)"
    "mset (star_sessions (star_closed hash g code now s)) = mset (star_sessions s) - {#g#}" by simp_all
qed

lemma star_due_keeps:
  assumes ok: "star_ok s"
  shows "star_ok (snd (star_due now s)) \<and> mset (star_sessions (snd (star_due now s))) = mset (star_sessions s)"
proof (cases "sr_local s")
  case None
  then show ?thesis using ok by (simp add: star_due_def)
next
  case (Some local)
  show ?thesis
  proof (cases rule: due_split [where xs = "sr_members s" and now = now])
    case idle
    then show ?thesis using ok Some by (simp add: star_due_def)
  next
    case (dial ys p e zs)
    have d: "directory_ok (sr_config s) local (ys @ (p, e) # zs)" using ok Some dial(1) by (simp add: star_ok_def)
    then have "peer_ok local p (e\<lparr>pe_pending := True\<rparr>)" using dial(3) by (auto simp: directory_ok_def peer_ok_def dialable_def)
    from directory_touch [OF d this] show ?thesis
      using Some dial by (simp add: star_ok_def star_due_def star_sessions_mset peer_sessions_def)
  qed
qed

lemma star_failed_keeps:
  assumes ok: "star_ok s"
  shows "star_ok (star_failed hash target code now s) \<and>
    mset (star_sessions (star_failed hash target code now s)) = mset (star_sessions s)"
proof (cases "map_of (sr_members s) (m_principal target)")
  case None
  then show ?thesis using ok by (simp add: star_failed_def)
next
  case (Some e)
  then obtain local where l: "sr_local s = Some local" using ok by (auto simp: star_ok_def split: option.splits)
  have d: "directory_ok (sr_config s) local (sr_members s)" using ok l by (simp add: star_ok_def)
  then have o: "ordered (sr_members s)" by (simp add: directory_ok_def)
  define e1 where "e1 = e\<lparr>pe_pending := False\<rparr>"
  define e2 where "e2 = (if pe_out e1 \<noteq> None \<or> pe_in e1 \<noteq> None then e1
    else e1\<lparr>pe_failures := next_failures (pe_failures e1),
           pe_next := now + backoff hash (sr_config s) (m_principal target) (m_id local) (next_failures (pe_failures e1))\<rparr>)"
  obtain ys zs where sp: "sr_members s = ys @ (m_principal target, e) # zs"
      "place (m_principal target) e2 (sr_members s) = ys @ (m_principal target, e2) # zs"
    by (rule place_known [OF o Some, where v = e2])
  have "peer_ok local (m_principal target) e2" "pe_member e2 = pe_member e" "peer_sessions e2 = peer_sessions e"
    using directory_known [OF d Some] by (auto simp: e1_def e2_def peer_ok_def peer_sessions_def)
  then have "star_ok (s\<lparr>sr_members := place (m_principal target) e2 (sr_members s)\<rparr>)"
    "mset (star_sessions (s\<lparr>sr_members := place (m_principal target) e2 (sr_members s)\<rparr>)) = mset (star_sessions s)"
    using directory_touch [of "sr_config s" local ys "m_principal target" e zs e2] d sp l by (simp_all add: star_ok_def star_sessions_mset)
  moreover have "star_failed hash target code now s =
      (if pe_member e \<noteq> target then s else s\<lparr>sr_members := place (m_principal target) e2 (sr_members s)\<rparr>)"
    using Some l by (simp add: star_failed_def Let_def e2_def e1_def)
  ultimately show ?thesis using ok by (cases "pe_member e = target") simp_all
qed

lemma admit_cases:
  assumes "star_admit cf remote xs = Inr (e, c)"
  obtains (unknown) "map_of xs (m_principal remote) = None" "e = peer_new remote" "c = []"
      "role_count (m_role remote) xs < cf_max_members cf - (if m_role remote = Star then 1 else 0)"
  | (current) "map_of xs (m_principal remote) = Some e" "pe_member e = remote" "c = []"
  | (renewed) old where "map_of xs (m_principal remote) = Some old" "e = peer_new remote" "c = peer_sessions old"
      "supersedes remote (pe_member old) = Inr True"
proof (cases "map_of xs (m_principal remote)")
  case None
  then show ?thesis using assms unknown by (simp add: star_admit_def role_count_def fail_def split: if_splits)
next
  case (Some old)
  show ?thesis
  proof (cases "supersedes remote (pe_member old)")
    case (Inl a)
    then show ?thesis using assms Some by (simp add: star_admit_def)
  next
    case (Inr b)
    then show ?thesis
    proof (cases b)
      case True
      then show ?thesis using assms Some Inr renewed by (simp add: star_admit_def)
    next
      case False
      then have "pe_member old = remote" using supersedes_keeps(6) Inr by metis
      then show ?thesis using assms Some Inr False current by (simp add: star_admit_def)
    qed
  qed
qed

lemma star_accept_cases:
  assumes "star_accept now remote dir g expected s = (r, s')"
  obtains (refused) err where "r = Inl err" "s' = s"
  | (stuck) err local e c where "r = Inl err" "sr_local s = Some local" "star_admit (sr_config s) remote (sr_members s) = Inr (e, c)"
      "star_install now remote dir g local e c = Inl err" "s' = s\<lparr>sr_members := place (m_principal remote) e (sr_members s)\<rparr>"
  | (accepted) local e c e' c' where "r = Inr c'" "sr_local s = Some local" "\<not> star_refuses remote dir local"
      "\<forall>(p, w) \<in> set (sr_members s). p \<noteq> m_principal remote \<longrightarrow> m_id (pe_member w) \<noteq> m_id remote \<and> m_address (pe_member w) \<noteq> m_address remote"
      "star_admit (sr_config s) remote (sr_members s) = Inr (e, c)" "star_install now remote dir g local e c = Inr (e', c')"
      "s' = s\<lparr>sr_members := place (m_principal remote) e' (sr_members s)\<rparr>"
proof (cases "sr_local s")
  case None
  then show ?thesis using assms refused by (auto simp: star_accept_def fail_def)
next
  case (Some local)
  let ?e = "case expected of None \<Rightarrow> False | Some m \<Rightarrow> remote \<noteq> m \<or> dir \<noteq> Outbound"
  let ?a = "list_ex (\<lambda>(p, e). p \<noteq> m_principal remote \<and> (m_id (pe_member e) = m_id remote \<or> m_address (pe_member e) = m_address remote)) (sr_members s)"
  show ?thesis
  proof (cases "star_refuses remote dir local \<or> ?e \<or> ?a")
    case True
    then have "s' = s \<and> isl r" using assms Some by (simp add: star_accept_def fail_def split: if_splits) auto
    then show ?thesis using refused by (cases r) auto
  next
    case False
    then have u: "\<forall>(p, w) \<in> set (sr_members s). p \<noteq> m_principal remote \<longrightarrow> m_id (pe_member w) \<noteq> m_id remote \<and> m_address (pe_member w) \<noteq> m_address remote"
      by (auto simp: list_ex_iff)
    show ?thesis
    proof (cases "star_admit (sr_config s) remote (sr_members s)")
      case (Inl a)
      then show ?thesis using assms refused [of a] Some False by (simp add: star_accept_def)
    next
      case (Inr ec)
      obtain e c where ec: "ec = (e, c)" by force
      show ?thesis
      proof (cases "star_install now remote dir g local e c")
        case (Inl a)
        then show ?thesis using assms stuck [of a local e c] Some False Inr ec by (simp add: star_accept_def)
      next
        case (Inr x)
        obtain e' c' where "x = (e', c')" by force
        then show ?thesis using assms accepted [of c' local e c e'] Some False u Inr \<open>star_admit _ _ _ = Inr ec\<close> ec by (simp add: star_accept_def)
      qed
    qed
  qed
qed

lemma place_same:
  assumes "ordered xs" "map_of xs k = Some e"
  shows "place k e xs = xs"
  using place_known [OF assms, of e] by metis

lemma star_accept_error:
  assumes ok: "star_ok s" and a: "star_accept now remote dir g expected s = (Inl err, s')"
  shows "s' = s"
proof (cases rule: star_accept_cases [OF a])
  case (2 err' local e c)
  have d: "directory_ok (sr_config s) local (sr_members s)" using ok 2(2) by (simp add: star_ok_def)
  from 2(3) show ?thesis
  proof (cases rule: admit_cases)
    case current
    then have "place (m_principal remote) e (sr_members s) = sr_members s" using d by (intro place_same) (simp_all add: directory_ok_def)
    then show ?thesis using 2(5) by simp
  qed (use 2 install_new in auto)
qed auto

lemma star_accept_done:
  assumes ok: "star_ok s" and a: "star_accept now remote dir g expected s = (Inr c', s')"
  shows "star_ok s' \<and> mset (star_sessions s') + mset c' = add_mset g (mset (star_sessions s)) \<and> g \<in> set (star_sessions s')"
proof (cases rule: star_accept_cases [OF a])
  case (3 local e c e' c1)
  let ?p = "m_principal remote"
  have c1: "c1 = c'" using 3(1) by simp
  have d: "directory_ok (sr_config s) local (sr_members s)" using ok 3(2) by (simp add: star_ok_def)
  then have o: "ordered (sr_members s)" by (simp add: directory_ok_def)
  have nr: "\<not> star_refuses remote dir local" by fact
  have fresh: "peer_ok local ?p e \<and> pe_member e = remote"
    using 3(5) by (cases rule: admit_cases) (use nr directory_known [OF d] in \<open>auto simp: star_refuses_def peer_ok_def\<close>)
  then have me: "pe_member e = remote" and pe: "peer_ok local ?p e" by blast+
  have role: "m_role remote = Star \<or> m_role remote = Planet \<and> dir = Inbound" using nr unfolding star_refuses_def by blast
  have one: "pe_out e = None \<or> pe_in e = None" using pe by (simp add: peer_ok_def)
  have inst: "m_role remote = Star \<or> m_role remote = Planet \<and> dir = Inbound \<and> pe_out e = None"
    using pe role unfolding peer_ok_def me by auto
  note i = install_entry [OF 3(6) one inst]
  have pe': "peer_ok local ?p e'"
    using pe i(3,4,5) unfolding peer_ok_def i(1) i(2) me by auto
  have m': "pe_member e' = remote" using fresh i(1) by simp
  have room: "cf_max_members (sr_config s) > 0" using d by (auto simp: directory_ok_def)
  have apart: "\<forall>(q, w) \<in> set ys. q \<noteq> ?p \<longrightarrow> differ w e'" if "set ys \<subseteq> set (sr_members s)" for ys
    using 3(4) that m' unfolding differ_def by auto
  have s': "s' = s\<lparr>sr_members := place ?p e' (sr_members s)\<rparr>" by fact
  have result: ?thesis if sp: "place ?p e' (sr_members s) = ys @ (?p, e') # zs" "directory_ok (sr_config s) local (ys @ (?p, e') # zs)"
      and "all_sessions (ys @ zs) + (mset (peer_sessions e) + mset c) = all_sessions (sr_members s)" for ys zs
  proof -
    have "star_ok s'" using sp 3(2) s' by (simp add: star_ok_def)
    moreover have "mset (star_sessions s') = all_sessions (ys @ zs) + mset (peer_sessions e')"
      using sp s' by (simp add: star_sessions_mset ac_simps)
    moreover have "g \<in># mset (star_sessions s')" using i(6) calculation by simp
    moreover have "all_sessions (ys @ zs) + mset (peer_sessions e') + mset c' = add_mset g (mset (star_sessions s))"
    proof -
      have "all_sessions (ys @ zs) + mset (peer_sessions e') + mset c' = all_sessions (ys @ zs) + (mset (peer_sessions e') + mset c')"
        by (rule add.assoc)
      also have "mset (peer_sessions e') + mset c' = add_mset g (mset (peer_sessions e) + mset c)" using i(7) unfolding c1 .
      also have "all_sessions (ys @ zs) + \<dots> = add_mset g (all_sessions (ys @ zs) + (mset (peer_sessions e) + mset c))" by simp
      also have "\<dots> = add_mset g (mset (star_sessions s))" unfolding that(3) star_sessions_mset ..
      finally show ?thesis .
    qed
    ultimately show ?thesis by (metis set_mset_mset)
  qed
  from 3(5) show ?thesis
  proof (cases rule: admit_cases)
    case unknown
    obtain ys zs where sp: "sr_members s = ys @ zs" "place ?p e' (sr_members s) = ys @ (?p, e') # zs"
      by (rule place_unknown [OF unknown(1), where v = e'])
    have "directory_ok (sr_config s) local (ys @ (?p, e') # zs)"
    proof (rule directory_insert [OF _ _ pe'])
      show "directory_ok (sr_config s) local (ys @ zs)" using d sp by simp
      show "ordered (ys @ (?p, e') # zs)" using ordered_place [OF o, of ?p e'] sp by simp
    qed (use apart [of "ys @ zs"] sp unknown(4) m' in auto)
    then show ?thesis using result [OF sp(2)] sp(1) unknown by simp
  next
    case current
    obtain ys zs where sp: "sr_members s = ys @ (?p, e) # zs" "place ?p e' (sr_members s) = ys @ (?p, e') # zs"
      by (rule place_known [OF o current(1), where v = e'])
    then have "directory_ok (sr_config s) local (ys @ (?p, e') # zs)" using directory_touch [OF _ pe' i(1)] d by simp
    then show ?thesis using result [OF sp(2)] sp(1) current by (simp add: ac_simps)
  next
    case (renewed old)
    obtain ys zs where sp: "sr_members s = ys @ (?p, old) # zs" "place ?p e' (sr_members s) = ys @ (?p, e') # zs"
      by (rule place_known [OF o renewed(1), where v = e'])
    note k = supersedes_keeps [OF renewed(4)]
    have "directory_ok (sr_config s) local (ys @ (?p, e') # zs)"
    proof (rule directory_replace [OF _ pe'])
      show "directory_ok (sr_config s) local (ys @ (?p, old) # zs)" using d sp by simp
    qed (use apart [of "ys @ zs"] sp m' k in \<open>auto simp: differ_def\<close>)
    then show ?thesis using result [OF sp(2)] sp(1) renewed by (simp add: ac_simps)
  qed
qed auto

end
