(* ===== verification/Topology_Refresh.thy ===== *)
theory Topology_Refresh
  imports Topology
begin

text \<open>
  Initialising and refreshing a Star's directory, and the interpretation of the session contract on the Star policy.
\<close>

subsection \<open>The initial list\<close>

lemma adjacent_equal_sorted: "sorted xs \<Longrightarrow> adjacent_equal xs \<longleftrightarrow> \<not> distinct xs"
  by (induction xs rule: adjacent_equal.induct) force+

lemma place_unknown_set:
  assumes "map_of xs k = None"
  shows "set (place k v xs) = insert (k, v) (set xs)" "length (place k v xs) = Suc (length xs)"
  by (rule place_unknown [OF assms, of v]; simp)+

definition fresh_entries :: "member \<Rightarrow> member list \<Rightarrow> (bytes \<times> peer) set" where
  "fresh_entries local members = (\<lambda>m. (m_principal m, peer_new m)) ` {m \<in> set members. m_principal m \<noteq> m_principal local}"

lemma init_loop_Cons:
  assumes "init_loop pton ntop cf local (m # members) previous found prepared = Inr (found', prepared')"
  obtains (self) "m_galaxy m = cf_galaxy cf" "m_role m = Star" "previous = None \<or> the previous < m_id m" "m = local"
      "init_loop pton ntop cf local members (Some (m_id m)) True prepared = Inr (found', prepared')"
  | (other) "m_galaxy m = cf_galaxy cf" "m_role m = Star" "previous = None \<or> the previous < m_id m"
      "m_principal m \<noteq> m_principal local" "map_of prepared (m_principal m) = None"
      "init_loop pton ntop cf local members (Some (m_id m)) found (place (m_principal m) (peer_new m) prepared) = Inr (found', prepared')"
  using assms by (simp add: fail_def split: if_splits option.splits)

lemma init_loop_ids:
  assumes "init_loop pton ntop cf local members previous found prepared = Inr (found', prepared')"
  shows "sorted_wrt (<) (map m_id members) \<and> (\<forall>m \<in> set members. previous = None \<or> the previous < m_id m)"
  using assms
proof (induction members arbitrary: previous found prepared)
  case (Cons m members)
  from Cons.prems show ?case
    by (cases rule: init_loop_Cons) (use Cons.IH in \<open>fastforce+\<close>)
qed simp

lemma init_loop_members:
  assumes "init_loop pton ntop cf local members previous found prepared = Inr (found', prepared')"
  shows "(\<forall>m \<in> set members. m_galaxy m = cf_galaxy cf \<and> m_role m = Star \<and> (m_principal m = m_principal local \<longrightarrow> m = local))
    \<and> (found' \<longleftrightarrow> found \<or> local \<in> set members)"
  using assms
proof (induction members arbitrary: previous found prepared)
  case (Cons m members)
  from Cons.prems show ?case
    by (cases rule: init_loop_Cons) (use Cons.IH in \<open>fastforce+\<close>)
qed simp

lemma init_loop_prepared:
  assumes "init_loop pton ntop cf local members previous found prepared = Inr (found', prepared')" "ordered prepared"
  shows "ordered prepared' \<and> set prepared' = set prepared \<union> fresh_entries local members
    \<and> length prepared' + length (filter (\<lambda>m. m = local) members) = length prepared + length members"
  using assms
proof (induction members arbitrary: previous found prepared)
  case Nil
  then show ?case by (simp add: fresh_entries_def)
next
  case (Cons m members)
  from Cons.prems(1) show ?case
  proof (cases rule: init_loop_Cons)
    case self
    then have "fresh_entries local (m # members) = fresh_entries local members" by (auto simp: fresh_entries_def)
    then show ?thesis using Cons.IH [OF self(5) Cons.prems(2)] self(4) by simp
  next
    case other
    then have "fresh_entries local (m # members) = insert (m_principal m, peer_new m) (fresh_entries local members)"
      by (auto simp: fresh_entries_def)
    moreover have "m \<noteq> local" using other(4) by auto
    ultimately show ?thesis
      using Cons.IH [OF other(6) ordered_place [OF Cons.prems(2)]] place_unknown_set [OF other(5)] by simp
  qed
qed

lemma role_count_bound: "role_count r xs \<le> length xs"
  by (simp add: role_count_def)

lemma initial_directory:
  assumes l: "init_loop pton ntop cf local members None False [] = Inr (True, prepared)"
    and a: "\<not> adjacent_equal (sort (map (\<lambda>m. endpoint_text (m_address m)) members))" and n: "length members \<le> cf_max_members cf"
  shows "directory_ok cf local prepared" "all_sessions prepared = {#}" "local \<in> set members"
proof -
  note ids = init_loop_ids [OF l, THEN conjunct1] and mem = init_loop_members [OF l]
  have pr: "ordered prepared" "set prepared = fresh_entries local members"
    "length prepared + length (filter (\<lambda>m. m = local) members) = length members"
    using init_loop_prepared [OF l] by auto
  show loc: "local \<in> set members" using mem by simp
  have di: "distinct (map m_id members)" using ids by (simp add: strict_sorted_iff)
  have da: "distinct (map (\<lambda>m. endpoint_text (m_address m)) members)"
    using a adjacent_equal_sorted [OF sorted_sort] by (metis distinct_sort)
  have ne: "m_id m \<noteq> m_id m' \<and> m_address m \<noteq> m_address m'" if "m \<in> set members" "m' \<in> set members" "m \<noteq> m'" for m m'
    using that di da by (auto simp: distinct_map inj_on_def)
  have ent: "\<exists>m \<in> set members. m \<noteq> local \<and> e = peer_new m \<and> p = m_principal m \<and> m_principal m \<noteq> m_principal local" if "(p, e) \<in> set prepared" for p e
    using that unfolding pr(2) fresh_entries_def by auto
  have gal: "m_galaxy m = m_galaxy local \<and> m_role m = Star" if "m \<in> set members" for m using that loc mem by auto
  have po: "peer_ok local p e" if "(p, e) \<in> set prepared" for p e
    using ent [OF that] gal ne [OF _ loc] by (auto simp: peer_ok_def)
  have un: "unaliased prepared"
    unfolding unaliased_iff
  proof (intro allI impI)
    fix p e q w assume "(p, e) \<in> set prepared" "(q, w) \<in> set prepared" "p \<noteq> q"
    then show "differ e w" using ent [of p e] ent [of q w] ne unfolding differ_def by (metis peer_sessions_new(2))
  qed
  have pl: "role_count Planet prepared = 0"
    using ent gal by (fastforce simp: role_count_def filter_empty_conv)
  have "0 < length (filter (\<lambda>m. m = local) members)" using loc by (auto simp: filter_empty_conv)
  then have "length prepared < cf_max_members cf" using pr(3) n by linarith
  then have "role_count Star prepared < cf_max_members cf" using role_count_bound [of Star prepared] by linarith
  then show "directory_ok cf local prepared" unfolding directory_ok_def using pr(1) po un pl by auto
  have "\<forall>x \<in># mset prepared. (case x of (p, e) \<Rightarrow> mset (peer_sessions e)) = {#}" using ent by fastforce
  then show "all_sessions prepared = {#}" by (simp add: sum_mset.neutral)
qed

lemma star_initialize_done:
  assumes "star_initialize pton ntop local members s = (Inr u, s')"
  obtains prepared where "init_loop pton ntop (sr_config s) local members None False [] = Inr (True, prepared)"
    "\<not> adjacent_equal (sort (map (\<lambda>m. endpoint_text (m_address m)) members))" "length members \<le> cf_max_members (sr_config s)"
    "sr_local s = None" "s' = s\<lparr>sr_members := prepared, sr_local := Some local\<rparr>"
  using assms by (auto simp: star_initialize_def fail_def split: if_splits sum.splits prod.splits)

lemma star_initialize_error: "star_initialize pton ntop local members s = (Inl e, s') \<Longrightarrow> s' = s"
  by (auto simp: star_initialize_def fail_def split: if_splits sum.splits prod.splits)

lemma star_initialize_keeps:
  assumes ok: "star_ok s" and i: "star_initialize pton ntop local members s = (Inr u, s')"
  shows "star_ok s' \<and> mset (star_sessions s') = mset (star_sessions s)"
proof -
  obtain prepared where p: "init_loop pton ntop (sr_config s) local members None False [] = Inr (True, prepared)"
    "\<not> adjacent_equal (sort (map (\<lambda>m. endpoint_text (m_address m)) members))" "length members \<le> cf_max_members (sr_config s)"
    "sr_local s = None" "s' = s\<lparr>sr_members := prepared, sr_local := Some local\<rparr>"
    by (rule star_initialize_done [OF i])
  then have "sr_members s = []" using ok by (simp add: star_ok_def)
  then show ?thesis using initial_directory [OF p(1-3)] p(5) by (simp add: star_ok_def star_sessions_mset)
qed

subsection \<open>Refreshing the list\<close>

lemma merge_loop_Cons:
  assumes "merge_loop ((p, incoming) # rest) prepared cancelled = Inr r"
  obtains (added) "map_of prepared p = None" "merge_loop rest (place p incoming prepared) cancelled = Inr r"
  | (kept) old where "map_of prepared p = Some old" "m_epoch (pe_member incoming) \<le> m_epoch (pe_member old)"
      "merge_loop rest prepared cancelled = Inr r"
  | (replaced) old where "map_of prepared p = Some old" "supersedes (pe_member incoming) (pe_member old) = Inr True"
      "merge_loop rest (place p incoming prepared) (cancelled @ peer_sessions old) = Inr r"
proof (cases "map_of prepared p")
  case None
  then show ?thesis using assms added by simp
next
  case (Some old)
  show ?thesis
  proof (cases "m_epoch (pe_member incoming) < m_epoch (pe_member old)")
    case True
    then show ?thesis using assms Some kept by simp
  next
    case False
    show ?thesis
    proof (cases "supersedes (pe_member incoming) (pe_member old)")
      case (Inl e)
      then show ?thesis using assms Some False by simp
    next
      case (Inr b)
      then have "b \<longleftrightarrow> m_epoch (pe_member old) < m_epoch (pe_member incoming)" by (rule supersedes_keeps)
      then show ?thesis using assms Some False Inr kept replaced by (cases b) auto
    qed
  qed
qed

text \<open>What the merge gives for each principal: the incoming entry if it is new or of a later epoch, the known one otherwise.\<close>

definition merged :: "peer option \<Rightarrow> peer option \<Rightarrow> peer option" where
  "merged known incoming =
     (case (known, incoming) of
        (None, i) \<Rightarrow> i
      | (Some o', None) \<Rightarrow> Some o'
      | (Some o', Some i) \<Rightarrow> Some (if m_epoch (pe_member o') < m_epoch (pe_member i) then i else o'))"

lemma merged_SomeD: "merged a b = Some e \<Longrightarrow> a = Some e \<or> b = Some e"
  by (auto simp: merged_def split: option.splits if_splits)

lemma merge_loop_map:
  assumes "merge_loop fresh prepared cancelled = Inr (prepared', cancelled')" "ordered prepared" "distinct (map fst fresh)"
  shows "ordered prepared' \<and> (\<forall>p. map_of prepared' p = merged (map_of prepared p) (map_of fresh p))"
  using assms
proof (induction fresh arbitrary: prepared cancelled)
  case Nil
  then show ?case by (simp add: merged_def split: option.split)
next
  case (Cons x rest)
  obtain p incoming where x: "x = (p, incoming)" by force
  have "map_of rest p = None" using Cons.prems(3) x by (simp add: map_of_eq_None_iff)
  note n = this and d = Cons.prems(3)
  from Cons.prems(1) [unfolded x] show ?case
  proof (cases rule: merge_loop_Cons)
    case added
    then show ?thesis using Cons.IH [OF added(2) ordered_place [OF Cons.prems(2)]] n d x
      by (simp add: map_of_place [OF Cons.prems(2)]) (simp add: merged_def split: option.split)
  next
    case (kept old)
    then show ?thesis using Cons.IH [OF kept(3) Cons.prems(2)] n d x by (auto simp: merged_def split: option.split)
  next
    case (replaced old)
    then show ?thesis using Cons.IH [OF replaced(3) ordered_place [OF Cons.prems(2)]] n d x supersedes_keeps(7) [OF replaced(2)]
      by (simp add: map_of_place [OF Cons.prems(2)]) (auto simp: merged_def split: option.split)
  qed
qed

lemma merge_loop_accounts:
  assumes "merge_loop fresh prepared cancelled = Inr (prepared', cancelled')" "ordered prepared"
    "\<forall>(p, e) \<in> set fresh. peer_sessions e = [] \<and> m_role (pe_member e) = Star"
  shows "all_sessions prepared' + mset cancelled' = all_sessions prepared + mset cancelled
    \<and> role_count Planet prepared' = role_count Planet prepared"
  using assms
proof (induction fresh arbitrary: prepared cancelled)
  case (Cons x rest)
  obtain p incoming where x: "x = (p, incoming)" by force
  have i: "peer_sessions incoming = []" "m_role (pe_member incoming) = Star"
    and r: "\<forall>(p, e) \<in> set rest. peer_sessions e = [] \<and> m_role (pe_member e) = Star" using Cons.prems(3) x by auto
  from Cons.prems(1) [unfolded x] show ?case
  proof (cases rule: merge_loop_Cons)
    case added
    show ?thesis
      by (rule place_unknown [OF added(1), where v = incoming]) (use Cons.IH [OF added(2) ordered_place [OF Cons.prems(2)] r] i in simp)
  next
    case (kept old)
    then show ?thesis using Cons.IH [OF kept(3) Cons.prems(2) r] by simp
  next
    case (replaced old)
    have "m_role (pe_member old) = Star" using supersedes_keeps(2) [OF replaced(2)] i by simp
    note role = this
    obtain ys zs where sp: "prepared = ys @ (p, old) # zs" "place p incoming prepared = ys @ (p, incoming) # zs"
      by (rule place_known [OF Cons.prems(2) replaced(1), where v = incoming])
    have "all_sessions (place p incoming prepared) + mset (peer_sessions old) = all_sessions prepared"
      unfolding sp(2) using sp(1) i by simp
    moreover have "role_count Planet (place p incoming prepared) = role_count Planet prepared"
      unfolding sp(2) using sp(1) i role by simp
    ultimately show ?thesis using Cons.IH [OF replaced(3) ordered_place [OF Cons.prems(2)] r] by (simp add: add.assoc [symmetric] add.commute)
  qed
qed simp

lemma alias_loop_done:
  assumes "alias_loop local xs ids addresses n = Inr n'" "ordered xs"
  shows "unaliased xs \<and> n' = n + role_count Star xs
    \<and> (\<forall>(p, e) \<in> set xs. m_id (pe_member e) \<notin> set ids \<and> m_address (pe_member e) \<notin> set addresses)"
  using assms
proof (induction xs arbitrary: ids addresses n)
  case Nil
  then show ?case by (simp add: unaliased_def)
next
  case (Cons x xs)
  obtain p e where x: "x = (p, e)" by force
  have ok: "m_id (pe_member e) \<notin> set ids" "m_address (pe_member e) \<notin> set addresses"
    and next': "alias_loop local xs (m_id (pe_member e) # ids) (m_address (pe_member e) # addresses)
      (if m_role (pe_member e) = Star then n + 1 else n) = Inr n'"
    using Cons.prems(1) x by (simp_all add: Let_def fail_def split: if_splits)
  have "ordered xs" using Cons.prems(2) by simp
  from Cons.IH [OF next' this] have ih: "unaliased xs" "n' = (if m_role (pe_member e) = Star then n + 1 else n) + role_count Star xs"
    "\<forall>(q, w) \<in> set xs. m_id (pe_member w) \<notin> set ids \<and> m_id (pe_member w) \<noteq> m_id (pe_member e)
       \<and> m_address (pe_member w) \<notin> set addresses \<and> m_address (pe_member w) \<noteq> m_address (pe_member e)" by auto
  have "unaliased ([] @ (p, e) # xs)" unfolding unaliased_middle using ih by (auto simp: differ_def)
  then show ?case using ih ok x by auto
qed

lemma star_refresh_cases:
  assumes "star_refresh pton ntop local members s = (r, s')"
  obtains (refused) err where "r = Inl err" "s' = s"
  | (applied) fresh prepared cancelled stars where "r = Inr cancelled" "s' = s\<lparr>sr_members := prepared\<rparr>" "sr_local s = Some local"
      "star_initialize pton ntop local members (star_new (sr_config s)) = (Inr (), fresh)"
      "merge_loop (sr_members fresh) (sr_members s) [] = Inr (prepared, cancelled)"
      "alias_loop local prepared [] [] 1 = Inr stars" "stars \<le> cf_max_members (sr_config s)"
proof -
  obtain i fresh where i: "star_initialize pton ntop local members (star_new (sr_config s)) = (i, fresh)" by force
  show ?thesis
  proof (cases "isl i \<or> sr_local s \<noteq> Some local \<or> isl (merge_loop (sr_members fresh) (sr_members s) [])")
    case True
    then have "isl r \<and> s' = s" using assms i by (auto simp: star_refresh_def fail_def split: sum.splits if_splits)
    then show ?thesis using refused by (cases r) auto
  next
    case False
    then obtain u prepared cancelled where m: "i = Inr u" "merge_loop (sr_members fresh) (sr_members s) [] = Inr (prepared, cancelled)"
      by (metis obj_sumE prod.exhaust sum.disc(1))
    show ?thesis
    proof (cases "alias_loop local prepared [] [] 1")
      case (Inl e)
      then show ?thesis using assms i m False refused [of e] by (simp add: star_refresh_def)
    next
      case (Inr stars)
      then show ?thesis
        using assms i m False refused applied [of cancelled prepared fresh stars] by (auto simp: star_refresh_def fail_def split: if_splits)
    qed
  qed
qed

lemma star_refresh_done:
  assumes ok: "star_ok s" and r: "star_refresh pton ntop local members s = (Inr c, s')"
  shows "star_ok s' \<and> mset (star_sessions s') + mset c = mset (star_sessions s)"
    and "\<exists>fresh. set fresh = fresh_entries local members \<and> distinct (map fst fresh)
      \<and> (\<forall>p. map_of (sr_members s') p = merged (map_of (sr_members s) p) (map_of fresh p))"
proof -
  from r have "(star_ok s' \<and> mset (star_sessions s') + mset c = mset (star_sessions s)) \<and> (\<exists>fresh. set fresh = fresh_entries local members
      \<and> distinct (map fst fresh) \<and> (\<forall>p. map_of (sr_members s') p = merged (map_of (sr_members s) p) (map_of fresh p)))"
  proof (cases rule: star_refresh_cases)
    case (applied fresh prepared cancelled stars)
    obtain q where q: "init_loop pton ntop (sr_config s) local members None False [] = Inr (True, q)"
      "\<not> adjacent_equal (sort (map (\<lambda>m. endpoint_text (m_address m)) members))" "length members \<le> cf_max_members (sr_config s)"
      "sr_members fresh = q"
      by (rule star_initialize_done [OF applied(4)]) (simp add: star_new_def)
    note i = initial_directory [OF q(1-3)]
    have d: "directory_ok (sr_config s) local (sr_members s)" using ok applied(3) by (simp add: star_ok_def)
    then have o: "ordered (sr_members s)" by (simp add: directory_ok_def)
    have oq: "ordered q" using i(1) by (simp add: directory_ok_def)
    have sq: "set q = fresh_entries local members" using init_loop_prepared [OF q(1)] by simp
    note mm = merge_loop_map [OF applied(5) [unfolded q(4)] o ordered_unique [OF oq]]
    have fq: "\<forall>(p, e) \<in> set q. peer_sessions e = [] \<and> m_role (pe_member e) = Star"
      using init_loop_members [OF q(1)] unfolding sq fresh_entries_def by auto
    note acc = merge_loop_accounts [OF applied(5) [unfolded q(4)] o fq]
    have po: "peer_ok local p e" if "(p, e) \<in> set prepared" for p e
    proof -
      have "map_of prepared p = Some e" using that ordered_map_of [OF mm [THEN conjunct1]] by simp
      moreover have "map_of prepared p = merged (map_of (sr_members s) p) (map_of q p)" using mm by blast
      ultimately have "map_of (sr_members s) p = Some e \<or> map_of q p = Some e" using merged_SomeD by metis
      then show ?thesis using directory_known [OF d] directory_known [OF i(1)] by blast
    qed
    note al = alias_loop_done [OF applied(6) mm [THEN conjunct1]]
    have "role_count Star prepared < cf_max_members (sr_config s)" using al applied(7) by linarith
    moreover have "role_count Planet prepared \<le> cf_max_members (sr_config s)" using acc d by (simp add: directory_ok_def)
    ultimately have "directory_ok (sr_config s) local prepared" unfolding directory_ok_def using mm al po by auto
    then have "star_ok s'" using applied(2,3) by (simp add: star_ok_def)
    moreover have "mset (star_sessions s') + mset c = mset (star_sessions s)" using acc applied(1,2) by (simp add: star_sessions_mset)
    ultimately show ?thesis using sq ordered_unique [OF oq] mm applied(2) by auto
  qed simp
  then show "star_ok s' \<and> mset (star_sessions s') + mset c = mset (star_sessions s)"
    "\<exists>fresh. set fresh = fresh_entries local members \<and> distinct (map fst fresh)
      \<and> (\<forall>p. map_of (sr_members s') p = merged (map_of (sr_members s) p) (map_of fresh p))" by blast+
qed

lemma star_refresh_error: "star_refresh pton ntop local members s = (Inl e, s') \<Longrightarrow> s' = s"
  by (erule star_refresh_cases) auto

definition star_policy :: "(string \<Rightarrow> u64) \<Rightarrow> (bool \<Rightarrow> string \<Rightarrow> bytes option) \<Rightarrow> (bool \<Rightarrow> bytes \<Rightarrow> string option) \<Rightarrow> star policy" where
  "star_policy hash pton ntop =
     \<lparr>po_initialize = star_initialize pton ntop, po_refresh = star_refresh pton ntop, po_accept = star_accept,
      po_closed = star_closed hash, po_due = star_due, po_failed = star_failed hash,
      po_needs_refresh = star_needs_refresh, po_status = star_status\<rparr>"

lemma star_policy_ops [simp]:
  "po_initialize (star_policy hash pton ntop) = star_initialize pton ntop" "po_refresh (star_policy hash pton ntop) = star_refresh pton ntop"
  "po_accept (star_policy hash pton ntop) = star_accept" "po_closed (star_policy hash pton ntop) = star_closed hash"
  "po_due (star_policy hash pton ntop) = star_due" "po_failed (star_policy hash pton ntop) = star_failed hash"
  "po_needs_refresh (star_policy hash pton ntop) = star_needs_refresh" "po_status (star_policy hash pton ntop) = star_status"
  by (simp_all add: star_policy_def)

interpretation star_sessions: session_policy "star_policy hash pton ntop" star_ok star_sessions
proof (unfold_locales, unfold star_policy_ops, goal_cases)
  case 1 then show ?case using star_initialize_error by blast
next
  case 2 then show ?case by (rule star_initialize_keeps)
next
  case 3 then show ?case using star_refresh_error by blast
next
  case 4 then show ?case by (rule star_refresh_done)
next
  case 5 then show ?case by (rule star_accept_error)
next
  case 6 then show ?case by (rule star_accept_done)
next
  case 7 then show ?case by (blast intro: star_closed_keeps)
next
  case 8 then show ?case by (rule star_due_keeps)
next
  case 9 then show ?case by (rule star_failed_keeps)
next
  case 10 then show ?case by (simp add: star_needs_refresh_def)
qed

end
