(* ===== verification/Topology_Rules.thy ===== *)
theory Topology_Rules
  imports Topology_Refresh
begin

text \<open>
  What the Star policy promises: one agreed session per pair of Stars, redial windows, exact session accounting
  within capacity, and refresh as a merge by epoch.
\<close>

subsection \<open>Accepting a session of a known Star\<close>

lemma star_accept_known:
  assumes ok: "star_ok s" and l: "sr_local s = Some local" and e: "map_of (sr_members s) (m_principal remote) = Some e" "pe_member e = remote"
    and r: "m_role remote = Star" and x: "expected = None \<or> expected = Some remote \<and> dir = Outbound"
  shows "star_accept now remote dir g expected s =
    (case star_install now remote dir g local e [] of
       Inl err \<Rightarrow> (Inl err, s)
     | Inr (e', c) \<Rightarrow> (Inr c, s\<lparr>sr_members := place (m_principal remote) e' (sr_members s)\<rparr>))"
proof -
  have d: "directory_ok (sr_config s) local (sr_members s)" using ok l by (simp add: star_ok_def)
  then have o: "ordered (sr_members s)" and u: "unaliased (sr_members s)" by (simp_all add: directory_ok_def)
  have "\<not> star_refuses remote dir local" using directory_known [OF d e(1)] e(2) r by (simp add: star_refuses_def peer_ok_def)
  moreover have "\<not> list_ex (\<lambda>(p, e). p \<noteq> m_principal remote
      \<and> (m_id (pe_member e) = m_id remote \<or> m_address (pe_member e) = m_address remote)) (sr_members s)"
    using u map_of_SomeD [OF e(1)] e(2) unfolding unaliased_iff differ_def list_ex_iff by fastforce
  moreover have "star_admit (sr_config s) remote (sr_members s) = Inr (e, [])" using e by (simp add: star_admit_def supersedes_def)
  moreover have "\<not> (case expected of None \<Rightarrow> False | Some m \<Rightarrow> remote \<noteq> m \<or> dir \<noteq> Outbound)" using x by auto
  ultimately show ?thesis using l place_same [OF o e(1)] by (simp add: star_accept_def split: sum.split)
qed

lemma members_placed:
  assumes "star_ok s" "sr_local s = Some local"
  shows "map_of (sr_members (s\<lparr>sr_members := place p e (sr_members s)\<rparr>)) = (map_of (sr_members s))(p \<mapsto> e)"
  using assms by (simp add: star_ok_def directory_ok_def map_of_place)

text \<open>Both ends have dialled each other and the two sessions are accepted in some order.\<close>

definition star_meet :: "bool \<Rightarrow> ns \<Rightarrow> member \<Rightarrow> generation \<Rightarrow> generation \<Rightarrow> star \<Rightarrow> star" where
  "star_meet outbound_first now remote go gi s =
     (if outbound_first then snd (star_accept now remote Inbound gi None (snd (star_accept now remote Outbound go (Some remote) s)))
      else snd (star_accept now remote Outbound go (Some remote) (snd (star_accept now remote Inbound gi None s))))"

definition peer_of :: "star \<Rightarrow> member \<Rightarrow> (generation option \<times> generation option) option" where
  "peer_of s m = map_option (\<lambda>e. (pe_out e, pe_in e)) (map_of (sr_members s) (m_principal m))"

lemma star_accept_first:
  assumes ok: "star_ok s" and l: "sr_local s = Some local" and e: "map_of (sr_members s) (m_principal remote) = Some e" "pe_member e = remote"
    and r: "m_role remote = Star" and x: "expected = None \<or> expected = Some remote \<and> dir = Outbound"
    and none: "pe_out e = None" "pe_in e = None"
  obtains s1 e1 where "star_accept now remote dir g expected s = (Inr [], s1)" "star_ok s1" "sr_local s1 = Some local"
    "map_of (sr_members s1) (m_principal remote) = Some e1" "pe_member e1 = remote"
    "pe_out e1 = (if dir = Outbound then Some g else None)" "pe_in e1 = (if dir = Outbound then None else Some g)"
proof -
  obtain e1 where i: "star_install now remote dir g local e [] = Inr (e1, [])" "pe_member e1 = pe_member e"
    "pe_out e1 = (if dir = Outbound then Some g else None)" "pe_in e1 = (if dir = Outbound then None else Some g)"
    using none by (cases dir) (auto simp: star_install_def Let_def)
  have a: "star_accept now remote dir g expected s = (Inr [], s\<lparr>sr_members := place (m_principal remote) e1 (sr_members s)\<rparr>)"
    using star_accept_known [OF ok l e r x] i(1) by simp
  show thesis
    by (rule that [OF a star_accept_done [OF ok a, THEN conjunct1]]) (use i l e(2) members_placed [OF ok l] in auto)
qed

lemma star_accept_second:
  assumes ok: "star_ok s" and l: "sr_local s = Some local" and e: "map_of (sr_members s) (m_principal remote) = Some e" "pe_member e = remote"
    and r: "m_role remote = Star" and x: "expected = None \<or> expected = Some remote \<and> dir = Outbound"
    and one: "dir = Outbound \<and> pe_out e = None \<and> pe_in e = Some g' \<or> dir = Inbound \<and> pe_in e = None \<and> pe_out e = Some g'"
  shows "peer_of (snd (star_accept now remote dir g expected s)) remote =
    (if dir = Outbound then if m_id local < m_id remote then Some (Some g, None) else Some (None, Some g')
     else if m_id remote < m_id local then Some (None, Some g) else Some (Some g', None))"
proof -
  have "star_accept now remote dir g expected s =
    (case star_install now remote dir g local e [] of
       Inl err \<Rightarrow> (Inl err, s)
     | Inr (e', c) \<Rightarrow> (Inr c, s\<lparr>sr_members := place (m_principal remote) e' (sr_members s)\<rparr>))"
    by (rule star_accept_known [OF ok l e r x])
  then show ?thesis using one r e(1) members_placed [OF ok l]
    by (auto simp: star_install_def Let_def fail_def peer_of_def split: if_splits)
qed

lemma star_meet_peer:
  assumes ok: "star_ok s" and l: "sr_local s = Some local" and e: "map_of (sr_members s) (m_principal remote) = Some e" "pe_member e = remote"
    and r: "m_role remote = Star" and none: "pe_out e = None" "pe_in e = None"
  shows "peer_of (star_meet f now remote go gi s) remote = Some (if m_id local < m_id remote then (Some go, None) else (None, Some gi))"
proof -
  have ne: "m_id remote \<noteq> m_id local"
    using ok l e directory_known [of "sr_config s" local "sr_members s" "m_principal remote" e] by (auto simp: star_ok_def peer_ok_def)
  show ?thesis
  proof (cases f)
    case True
    obtain s1 e1 where s1: "star_accept now remote Outbound go (Some remote) s = (Inr [], s1)" "star_ok s1" "sr_local s1 = Some local"
      "map_of (sr_members s1) (m_principal remote) = Some e1" "pe_member e1 = remote" "pe_out e1 = Some go" "pe_in e1 = None"
      by (rule star_accept_first [OF ok l e r _ none, of "Some remote" Outbound now go]) auto
    then show ?thesis
      using star_accept_second [OF s1(2-5) r, of None Inbound go now gi] True ne by (auto simp: star_meet_def not_less_iff_gr_or_eq)
  next
    case False
    obtain s1 e1 where s1: "star_accept now remote Inbound gi None s = (Inr [], s1)" "star_ok s1" "sr_local s1 = Some local"
      "map_of (sr_members s1) (m_principal remote) = Some e1" "pe_member e1 = remote" "pe_out e1 = None" "pe_in e1 = Some gi"
      by (rule star_accept_first [OF ok l e r _ none, of None Inbound now gi]) auto
    then show ?thesis
      using star_accept_second [OF s1(2-5) r, of "Some remote" Outbound gi now go] False by (auto simp: star_meet_def)
  qed
qed

definition star_knows :: "star \<Rightarrow> member \<Rightarrow> member \<Rightarrow> bool" where
  "star_knows s local remote \<longleftrightarrow> star_ok s \<and> sr_local s = Some local \<and> m_role remote = Star
     \<and> (case map_of (sr_members s) (m_principal remote) of None \<Rightarrow> False
        | Some e \<Rightarrow> pe_member e = remote \<and> pe_out e = None \<and> pe_in e = None)"

text \<open>C12: two Stars that have dialled each other at the same time agree on one session.  Whatever the order in which each
  end accepts its outbound and its inbound session, the session that remains is at both ends the one dialled by the
  Star with the smaller id, and each end holds no other session with the peer.\<close>

theorem star_dials_converge:
  assumes a: "star_knows a ma mb" and b: "star_knows b mb ma"
  shows "peer_of (star_meet f t mb a_out a_in a) mb = Some (if m_id ma < m_id mb then (Some a_out, None) else (None, Some a_in))
    \<and> peer_of (star_meet h u ma b_out b_in b) ma = Some (if m_id ma < m_id mb then (None, Some b_in) else (Some b_out, None))"
proof -
  obtain ea where ea: "star_ok a" "sr_local a = Some ma" "map_of (sr_members a) (m_principal mb) = Some ea" "pe_member ea = mb"
    "m_role mb = Star" "pe_out ea = None" "pe_in ea = None"
    using a by (auto simp: star_knows_def split: option.splits)
  obtain eb where eb: "star_ok b" "sr_local b = Some mb" "map_of (sr_members b) (m_principal ma) = Some eb" "pe_member eb = ma"
    "m_role ma = Star" "pe_out eb = None" "pe_in eb = None"
    using b by (auto simp: star_knows_def split: option.splits)
  have "m_id ma \<noteq> m_id mb"
    using ea directory_known [of "sr_config a" ma "sr_members a" "m_principal mb" ea] by (auto simp: star_ok_def peer_ok_def)
  then have "\<not> m_id mb < m_id ma \<longleftrightarrow> m_id ma < m_id mb" by auto
  then show ?thesis using star_meet_peer [OF ea] star_meet_peer [OF eb] by auto
qed

subsection \<open>Dialling\<close>

text \<open>The members a caller gets who asks until there is none, with at most \<open>n\<close> calls.\<close>

fun due_run :: "nat \<Rightarrow> ns \<Rightarrow> star \<Rightarrow> member list" where
  "due_run 0 now s = []"
| "due_run (Suc n) now s = (case star_due now s of (None, s') \<Rightarrow> [] | (Some m, s') \<Rightarrow> m # due_run n now s')"

lemma due_run_exact:
  assumes "sr_local s = Some local" "length (filter (\<lambda>(p, e). dialable now e) (sr_members s)) \<le> n"
  shows "due_run n now s = map (\<lambda>(p, e). pe_member e) (filter (\<lambda>(p, e). dialable now e) (sr_members s))"
  using assms
proof (induction n arbitrary: s)
  case 0
  then show ?case by simp
next
  case (Suc n)
  show ?case
  proof (cases rule: due_split [where xs = "sr_members s" and now = now])
    case idle
    have "filter (\<lambda>(p, e). dialable now e) (sr_members s) = []" using idle(1) by (auto simp: filter_empty_conv)
    then show ?thesis using idle Suc.prems(1) by (simp add: star_due_def)
  next
    case (dial ys p e zs)
    have y: "filter (\<lambda>(p, e). dialable now e) ys = []" using dial(2) by (auto simp: filter_empty_conv)
    have n: "\<not> dialable now (e\<lparr>pe_pending := True\<rparr>)" by (simp add: dialable_def)
    let ?s = "s\<lparr>sr_members := ys @ (p, e\<lparr>pe_pending := True\<rparr>) # zs\<rparr>"
    have "due_run n now ?s = map (\<lambda>(p, e). pe_member e) (filter (\<lambda>(p, e). dialable now e) (sr_members ?s))"
      by (rule Suc.IH) (use Suc.prems dial(1,3) y n in auto)
    moreover have "star_due now s = (Some (pe_member e), ?s)" using dial(4) Suc.prems(1) by (simp add: star_due_def)
    ultimately show ?thesis using dial(1,3) y n by simp
  qed
qed

lemma due_run_member:
  assumes ok: "star_ok s" and l: "sr_local s = Some local" and e: "map_of (sr_members s) (m_principal m) = Some e" "pe_member e = m"
    and n: "length (sr_members s) \<le> n"
  shows "m \<in> set (due_run n t s) \<longleftrightarrow> dialable t e"
proof -
  have d: "directory_ok (sr_config s) local (sr_members s)" using ok l by (simp add: star_ok_def)
  then have o: "ordered (sr_members s)" by (simp add: directory_ok_def)
  have "length (filter (\<lambda>(p, e). dialable t e) (sr_members s)) \<le> n" using n length_filter_le le_trans by blast
  then have eq: "due_run n t s = map (\<lambda>(p, e). pe_member e) (filter (\<lambda>(p, e). dialable t e) (sr_members s))"
    by (rule due_run_exact [OF l])
  have key: "w = e" if "(p, w) \<in> set (sr_members s)" "pe_member w = m" for p w
  proof -
    have "map_of (sr_members s) p = Some w" using that(1) ordered_map_of [OF o] by simp
    moreover from directory_known [OF d this] have "p = m_principal m" using that(2) by (simp add: peer_ok_def)
    ultimately show ?thesis using e(1) by simp
  qed
  show ?thesis unfolding eq using key map_of_SomeD [OF e(1)] e(2) by force
qed

lemma backoff_window:
  assumes "config_ok cf"
  shows "cf_reconnect_min cf * ms \<le> backoff hash cf p i f" "backoff hash cf p i f \<le> cf_reconnect_max cf * ms"
  using retry_delay_range [OF assms] by (simp_all add: backoff_def ms_def)

lemma star_failed_entry:
  assumes ok: "star_ok s" and l: "sr_local s = Some local" and e: "map_of (sr_members s) (m_principal m) = Some e" "pe_member e = m"
    and none: "pe_out e = None" "pe_in e = None"
  obtains e' where "map_of (sr_members (star_failed hash m code now s)) (m_principal m) = Some e'" "pe_member e' = m"
    "\<not> pe_pending e'" "pe_out e' = None" "pe_in e' = None" "pe_failures e' = next_failures (pe_failures e)"
    "pe_next e' = now + backoff hash (sr_config s) (m_principal m) (m_id local) (pe_failures e')"
    "sr_local (star_failed hash m code now s) = Some local"
    "length (sr_members (star_failed hash m code now s)) = length (sr_members s)"
proof -
  let ?f = "next_failures (pe_failures e)"
  define e' where "e' = e\<lparr>pe_pending := False, pe_failures := ?f,
    pe_next := now + backoff hash (sr_config s) (m_principal m) (m_id local) ?f\<rparr>"
  have o: "ordered (sr_members s)" using ok l by (simp add: star_ok_def directory_ok_def)
  have s': "star_failed hash m code now s = s\<lparr>sr_members := place (m_principal m) e' (sr_members s)\<rparr>"
    using e none l by (simp add: star_failed_def Let_def e'_def)
  have "length (place (m_principal m) e' (sr_members s)) = length (sr_members s)"
    by (rule place_known [OF o e(1), where v = e']) simp
  then show thesis
    by (intro that [of e']) (use e none l in \<open>simp_all add: s' map_of_place [OF o] e'_def\<close>)
qed

lemma close_loop_other:
  assumes "ordered xs" "map_of xs p = Some e" "pe_out e = Some g \<or> pe_in e = Some g"
    and "\<And>q w. (q, w) \<in> set xs \<Longrightarrow> q \<noteq> p \<Longrightarrow> g \<notin> set (peer_sessions w)"
  shows "map_of (close_loop hash cf i g now xs) p = Some (close_entry hash cf i g now p e)"
    "length (close_loop hash cf i g now xs) = length xs"
proof -
  have "map_of (close_loop hash cf i g now xs) p = Some (close_entry hash cf i g now p e)
      \<and> length (close_loop hash cf i g now xs) = length xs"
  proof (cases rule: close_split [where g = g and xs = xs and hash = hash and cf = cf and i = i and now = now])
    case absent
    have "g \<in> set (peer_sessions e)" using assms(3) by (auto simp: peer_sessions_def split: option.split)
    then have "g \<in># all_sessions xs" using map_of_SomeD [OF assms(2)] by force
    then show ?thesis using absent by simp
  next
    case (present ys q w zs)
    have "g \<in> set (peer_sessions w)" using present(3) by (auto simp: peer_sessions_def split: option.split)
    then have "q = p" using assms(4) [of q w] present(1) by auto
    moreover have "w = e" using assms(1,2) calculation ordered_map_of [OF assms(1), of p w] present(1) by simp
    moreover have "p \<notin> fst ` set ys" using assms(1) present(1) calculation(1) by (auto simp: sorted_wrt_append)
    ultimately show ?thesis using present(1,4) by (simp add: map_add_def map_of_eq_None_iff [THEN iffD2] split: option.split)
  qed
  then show "map_of (close_loop hash cf i g now xs) p = Some (close_entry hash cf i g now p e)"
    "length (close_loop hash cf i g now xs) = length xs" by simp_all
qed

lemma star_closed_entry:
  assumes ok: "star_ok s" and l: "sr_local s = Some local" and e: "map_of (sr_members s) (m_principal m) = Some e" "pe_member e = m"
    and g: "pe_out e = Some g \<or> pe_in e = Some g" and d: "distinct (star_sessions s)"
  obtains e' where "map_of (sr_members (star_closed hash g code now s)) (m_principal m) = Some e'" "pe_member e' = m"
    "pe_pending e' = pe_pending e" "pe_out e' = None" "pe_in e' = None"
    "pe_failures e' = (if now - pe_connected e \<ge> cf_stable_connection (sr_config s) * ms then 1 else next_failures (pe_failures e))"
    "pe_next e' = now + backoff hash (sr_config s) (m_principal m) (m_id local) (pe_failures e')"
    "sr_local (star_closed hash g code now s) = Some local"
    "length (sr_members (star_closed hash g code now s)) = length (sr_members s)"
proof -
  let ?e = "close_entry hash (sr_config s) (m_id local) g now (m_principal m) e"
  have dir: "directory_ok (sr_config s) local (sr_members s)" using ok l by (simp add: star_ok_def)
  then have o: "ordered (sr_members s)" by (simp add: directory_ok_def)
  have one: "pe_out e = None \<or> pe_in e = None" using directory_known [OF dir e(1)] by (simp add: peer_ok_def)
  have other: "g \<notin> set (peer_sessions w)" if "(q, w) \<in> set (sr_members s)" "q \<noteq> m_principal m" for q w
  proof
    assume w: "g \<in> set (peer_sessions w)"
    have "(m_principal m, e) \<in> set (sr_members s)" by (rule map_of_SomeD [OF e(1)])
    then obtain xs ys where "sr_members s = xs @ (m_principal m, e) # ys" by (meson split_list)
    moreover from this that have "(q, w) \<in> set xs \<or> (q, w) \<in> set ys" by auto
    moreover have "g \<in> set (peer_sessions e)" using g by (auto simp: peer_sessions_def split: option.split)
    ultimately show False using d w by (force simp: star_sessions_def)
  qed
  note c = close_loop_other [OF o e(1) g other]
  show thesis
    by (rule that [of ?e])
      (use c l e(2) close_entry_keeps [OF one g] g in \<open>simp_all add: star_closed_def, auto simp: close_entry_def Let_def\<close>)
qed

text \<open>C19: redialling.  Asking \<^verbatim>\<open>due\<close> until it has no answer yields each member that may be dialled exactly once, in the
  order of the directory.  A failed attempt at a member without a session, and the loss of its session, put the member off: it is not
  offered again before the least reconnection delay, and it is offered from the greatest one on, except that a member whose session is
  lost while an attempt is still under way is not offered until that attempt has ended.  The failures are counted up to 100, and the
  loss of a connection that was stable starts the count anew.\<close>

theorem star_redials:
  assumes cf: "config_ok (sr_config s)" and ok: "star_ok s" "distinct (star_sessions s)" and l: "sr_local s = Some local"
    and e: "map_of (sr_members s) (m_principal m) = Some e" "pe_member e = m" "m_role m = Star" and n: "length (sr_members s) \<le> n"
    and lost: "if failed then pe_out e = None \<and> pe_in e = None else pe_out e = Some g \<or> pe_in e = Some g"
    and s': "s' = (if failed then star_failed hash m code now s else star_closed hash g reason now s)"
  shows "due_run n t s = map (\<lambda>(p, e). pe_member e) (filter (\<lambda>(p, e). dialable t e) (sr_members s))
    \<and> (t < now + cf_reconnect_min (sr_config s) * ms \<longrightarrow> m \<notin> set (due_run n t s'))
    \<and> (now + cf_reconnect_max (sr_config s) * ms \<le> t \<longrightarrow> (m \<in> set (due_run n t s') \<longleftrightarrow> failed \<or> \<not> pe_pending e))
    \<and> (\<exists>e'. map_of (sr_members s') (m_principal m) = Some e' \<and> pe_pending e' = (\<not> failed \<and> pe_pending e)
         \<and> pe_failures e' = (if \<not> failed \<and> now - pe_connected e \<ge> cf_stable_connection (sr_config s) * ms then 1 else min (pe_failures e + 1) 100))"
proof -
  have "\<exists>e'. map_of (sr_members s') (m_principal m) = Some e' \<and> pe_member e' = m \<and> pe_pending e' = (\<not> failed \<and> pe_pending e)
      \<and> pe_out e' = None \<and> pe_in e' = None
      \<and> pe_failures e' = (if \<not> failed \<and> now - pe_connected e \<ge> cf_stable_connection (sr_config s) * ms then 1 else next_failures (pe_failures e))
      \<and> pe_next e' = now + backoff hash (sr_config s) (m_principal m) (m_id local) (pe_failures e')
      \<and> sr_local s' = Some local \<and> length (sr_members s') = length (sr_members s) \<and> star_ok s'"
  proof (cases failed)
    case True
    then have none: "pe_out e = None" "pe_in e = None" using lost by simp_all
    show ?thesis
      by (rule star_failed_entry [OF ok(1) l e(1,2) none, of hash code now]) (use star_failed_keeps [OF ok(1)] s' True in auto)
  next
    case False
    then have g: "pe_out e = Some g \<or> pe_in e = Some g" using lost by simp
    show ?thesis
      by (rule star_closed_entry [OF ok(1) l e(1,2) g ok(2), of hash reason now]) (use star_closed_keeps [OF ok(1)] s' False in auto)
  qed
  then obtain e' where e': "map_of (sr_members s') (m_principal m) = Some e'" "pe_member e' = m" "pe_pending e' = (\<not> failed \<and> pe_pending e)"
      "pe_out e' = None" "pe_in e' = None"
      "pe_failures e' = (if \<not> failed \<and> now - pe_connected e \<ge> cf_stable_connection (sr_config s) * ms then 1 else next_failures (pe_failures e))"
      "pe_next e' = now + backoff hash (sr_config s) (m_principal m) (m_id local) (pe_failures e')"
      "sr_local s' = Some local" "length (sr_members s') = length (sr_members s)" "star_ok s'"
    by blast
  have len': "length (sr_members s') \<le> n" using n e'(9) by simp
  have due: "m \<in> set (due_run n t s') \<longleftrightarrow> (failed \<or> \<not> pe_pending e) \<and> pe_next e' \<le> t"
    using due_run_member [OF e'(10,8,1,2) len'] e'(2-5) e(3) by (auto simp: dialable_def)
  have len: "length (filter (\<lambda>(p, e). dialable t e) (sr_members s)) \<le> n" using n length_filter_le le_trans by blast
  show ?thesis
    using due_run_exact [OF l len] due backoff_window [OF cf, of hash "m_principal m" "m_id local" "pe_failures e'"] e'(1,3,6,7)
    by (auto simp: next_failures_def)
qed

subsection \<open>The status of a Star\<close>

definition held :: "(peer \<Rightarrow> generation option) \<Rightarrow> role \<Rightarrow> (bytes \<times> peer) list \<Rightarrow> nat" where
  "held slot r xs = length (filter (\<lambda>(p, e). m_role (pe_member e) = r \<and> slot e \<noteq> None) xs)"

lemma held_Cons [simp]:
  "held slot r [] = 0"
  "held slot r ((p, e) # xs) = (if m_role (pe_member e) = r \<and> slot e \<noteq> None then 1 else 0) + held slot r xs"
  by (simp_all add: held_def)

lemma status_counts:
  assumes "\<forall>(p, e) \<in> set (sr_members s). m_role (pe_member e) = Star \<or> m_role (pe_member e) = Planet"
  shows "ps_initialized (star_status s) = (sr_local s \<noteq> None)"
    "ps_members (star_status s) = (if sr_local s \<noteq> None then 1 else 0) + role_count Star (sr_members s)"
    "ps_outbound (star_status s) = held pe_out Star (sr_members s)" "ps_inbound (star_status s) = held pe_in Star (sr_members s)"
    "ps_planet_inbound (star_status s) = held pe_in Planet (sr_members s)"
proof -
  define has where "has = (\<lambda>slot :: generation option. if slot = None then 0 else 1 :: nat)"
  define count where "count = (\<lambda>(r :: policy_state) (p :: bytes, e :: peer).
            if m_role (pe_member e) = Star
            then r\<lparr>ps_members := ps_members r + 1, ps_outbound := ps_outbound r + has (pe_out e), ps_inbound := ps_inbound r + has (pe_in e)\<rparr>
            else r\<lparr>ps_planet_inbound := ps_planet_inbound r + has (pe_in e)\<rparr>)"
  have "(let f = foldl count r xs in ps_initialized f = ps_initialized r \<and> ps_members f = ps_members r + role_count Star xs
      \<and> ps_outbound f = ps_outbound r + held pe_out Star xs \<and> ps_inbound f = ps_inbound r + held pe_in Star xs
      \<and> ps_planet_inbound f = ps_planet_inbound r + held pe_in Planet xs)"
    if "\<forall>(p, e) \<in> set xs. m_role (pe_member e) = Star \<or> m_role (pe_member e) = Planet" for r xs
    using that
  proof (induction xs arbitrary: r)
    case (Cons x xs)
    obtain p e where x: "x = (p, e)" by force
    have "m_role (pe_member e) = Star \<or> m_role (pe_member e) = Planet" using Cons.prems x by auto
    then show ?case using Cons x by (auto simp: Let_def count_def has_def)
  qed (simp add: Let_def)
  from this [OF assms] show "ps_initialized (star_status s) = (sr_local s \<noteq> None)"
    "ps_members (star_status s) = (if sr_local s \<noteq> None then 1 else 0) + role_count Star (sr_members s)"
    "ps_outbound (star_status s) = held pe_out Star (sr_members s)" "ps_inbound (star_status s) = held pe_in Star (sr_members s)"
    "ps_planet_inbound (star_status s) = held pe_in Planet (sr_members s)"
    unfolding star_status_def has_def [symmetric] Let_def count_def [symmetric] by simp_all
qed

lemma held_one:
  assumes "\<forall>(p, e) \<in> set xs. peer_ok local p e"
  shows "held pe_out Star xs + held pe_in Star xs \<le> role_count Star xs" "held pe_in Planet xs \<le> role_count Planet xs"
    "size (all_sessions xs) = held pe_out Star xs + held pe_in Star xs + held pe_in Planet xs"
proof -
  have "held pe_out Star xs + held pe_in Star xs \<le> role_count Star xs \<and> held pe_in Planet xs \<le> role_count Planet xs
    \<and> size (all_sessions xs) = held pe_out Star xs + held pe_in Star xs + held pe_in Planet xs"
    using assms
  proof (induction xs)
    case (Cons x xs)
    obtain p e where x: "x = (p, e)" by force
    then have "peer_ok local p e" using Cons.prems by auto
    then have "m_role (pe_member e) = Star \<and> (pe_out e = None \<or> pe_in e = None) \<or> m_role (pe_member e) = Planet \<and> pe_out e = None"
      by (auto simp: peer_ok_def)
    then show ?case using Cons x by (auto simp: peer_sessions_def split: option.split)
  qed simp
  then show "held pe_out Star xs + held pe_in Star xs \<le> role_count Star xs" "held pe_in Planet xs \<le> role_count Planet xs"
    "size (all_sessions xs) = held pe_out Star xs + held pe_in Star xs + held pe_in Planet xs" by simp_all
qed

lemma star_status_bounds:
  assumes "star_ok s"
  shows "ps_inbound (star_status s) + ps_outbound (star_status s) \<le> ps_members (star_status s) - 1"
    "ps_members (star_status s) \<le> cf_max_members (sr_config s)" "ps_planet_inbound (star_status s) \<le> cf_max_members (sr_config s)"
    "length (star_sessions s) = ps_inbound (star_status s) + ps_outbound (star_status s) + ps_planet_inbound (star_status s)"
proof -
  have "ps_inbound (star_status s) + ps_outbound (star_status s) \<le> ps_members (star_status s) - 1
    \<and> ps_members (star_status s) \<le> cf_max_members (sr_config s) \<and> ps_planet_inbound (star_status s) \<le> cf_max_members (sr_config s)
    \<and> size (mset (star_sessions s)) = ps_inbound (star_status s) + ps_outbound (star_status s) + ps_planet_inbound (star_status s)"
  proof (cases "sr_local s")
    case None
    then show ?thesis using assms status_counts [of s] by (simp add: star_ok_def star_sessions_mset)
  next
    case (Some local)
    then have d: "directory_ok (sr_config s) local (sr_members s)" using assms by (simp add: star_ok_def)
    then have p: "\<forall>(p, e) \<in> set (sr_members s). peer_ok local p e" by (simp add: directory_ok_def)
    then have "\<forall>(p, e) \<in> set (sr_members s). m_role (pe_member e) = Star \<or> m_role (pe_member e) = Planet" by (auto simp: peer_ok_def)
    note c = status_counts [OF this]
    have "role_count Star (sr_members s) < cf_max_members (sr_config s)" "role_count Planet (sr_members s) \<le> cf_max_members (sr_config s)"
      using d by (simp_all add: directory_ok_def)
    then show ?thesis using Some held_one [OF p] unfolding c star_sessions_mset by simp
  qed
  then show "ps_inbound (star_status s) + ps_outbound (star_status s) \<le> ps_members (star_status s) - 1"
    "ps_members (star_status s) \<le> cf_max_members (sr_config s)" "ps_planet_inbound (star_status s) \<le> cf_max_members (sr_config s)"
    "length (star_sessions s) = ps_inbound (star_status s) + ps_outbound (star_status s) + ps_planet_inbound (star_status s)" by simp_all
qed

subsection \<open>Properties of the Star policy\<close>

lemma star_config_kept [simp]:
  "sr_config (snd (star_initialize pton ntop local members s)) = sr_config s"
  "sr_config (snd (star_refresh pton ntop local members s)) = sr_config s"
  "sr_config (snd (star_accept now remote dir g expected s)) = sr_config s"
  "sr_config (star_closed hash g code now s) = sr_config s" "sr_config (snd (star_due now s)) = sr_config s"
  "sr_config (star_failed hash target err now s) = sr_config s" "sr_config (snd (star_needs_refresh now s)) = sr_config s"
proof -
  show "sr_config (snd (star_refresh pton ntop local members s)) = sr_config s"
    by (rule star_refresh_cases [of pton ntop local members s "fst (star_refresh pton ntop local members s)" "snd (star_refresh pton ntop local members s)"]) simp_all
  show "sr_config (snd (star_accept now remote dir g expected s)) = sr_config s"
    by (rule star_accept_cases [of now remote dir g expected s "fst (star_accept now remote dir g expected s)" "snd (star_accept now remote dir g expected s)"]) simp_all
qed (auto simp: star_initialize_def star_closed_def star_due_def star_failed_def star_needs_refresh_def Let_def split: sum.split option.split prod.split)

lemma star_step_config:
  assumes "policy_step (star_policy hash pton ntop) ev s = (opened, cancelled, s')"
  shows "sr_config s' = sr_config s"
proof (cases ev)
  case (Refresh local members)
  then have "s' = snd (star_refresh pton ntop local members s)" using assms by (auto split: prod.splits sum.splits)
  then show ?thesis by simp
next
  case (Accept now remote dir g expected)
  then have "s' = snd (star_accept now remote dir g expected s)" using assms by (auto split: prod.splits sum.splits)
  then show ?thesis by simp
qed (use assms in auto)

lemma star_run_config: "policy_run (star_policy hash pton ntop) evs (live, s) = (live', s') \<Longrightarrow> sr_config s' = sr_config s"
  by (induction evs arbitrary: live s) (auto split: prod.splits dest: star_step_config)

text \<open>C8: the directory and the sessions of a Star.  Under every sequence of calls with unique generations the
  directory keeps its invariant: entries in key order under their own principal, no two members with the same id or address and none
  with the local one, at most one session per Star, Planets only inbound, both roles within capacity.  A runtime
  that only follows the answers (installs on accept, cancels what it is told to, forgets what is closed) knows
  exactly the sessions the directory holds, and the status counts them: Star sessions are fewer than members, members and Planet sessions within capacity.
  A fresh policy starts in such a state.\<close>

theorem star_ledger:
  assumes "star_ok s" "distinct live" "mset live = mset (star_sessions s)" "policy_fresh (star_policy hash pton ntop) evs (live, s)"
    and run: "policy_run (star_policy hash pton ntop) evs (live, s) = (live', s')"
  shows "star_ok s' \<and> distinct live' \<and> mset live' = mset (star_sessions s')
    \<and> length live' = ps_inbound (star_status s') + ps_outbound (star_status s') + ps_planet_inbound (star_status s')
    \<and> ps_inbound (star_status s') + ps_outbound (star_status s') \<le> ps_members (star_status s') - 1
    \<and> ps_members (star_status s') \<le> cf_max_members (sr_config s) \<and> ps_planet_inbound (star_status s') \<le> cf_max_members (sr_config s)
    \<and> star_ok (star_new cf) \<and> star_sessions (star_new cf) = []"
proof -
  have r: "star_ok s' \<and> distinct live' \<and> mset live' = mset (star_sessions s')"
    using star_sessions.run_ledger [OF assms(1-4)] run by simp
  then have "length live' = length (star_sessions s')" by (metis size_mset)
  then show ?thesis
    using r star_status_bounds [of s'] star_run_config [OF run] by (auto simp: star_ok_def star_new_def star_sessions_def)
qed

definition sample_star :: "string \<Rightarrow> nat \<Rightarrow> string \<Rightarrow> nat \<Rightarrow> star" where
  "sample_star i n j k = \<lparr>sr_config = sample_config, sr_local = Some (sample_member i n),
     sr_members = [(m_principal (sample_member j k), peer_new (sample_member j k))]\<rparr>"

lemmas sample_defs = sample_config_def sample_member_def sample_star_def

lemma sample_star_ok: "i \<noteq> j \<Longrightarrow> n \<noteq> k \<Longrightarrow> (of_nat n :: u8) \<noteq> of_nat k \<Longrightarrow> star_ok (sample_star i n j k)"
  by (simp add: sample_defs star_ok_def directory_ok_def peer_ok_def unaliased_def role_count_def)

theorem star_ledger_witness:
  "\<exists>live s. policy_run (star_policy (\<lambda>_. 7) one_pton one_ntop)
     [Due 0, Accept 1 (sample_member ''b'' 2) Inbound 4 None, Accept 2 (sample_member ''b'' 2) Outbound 5 (Some (sample_member ''b'' 2)), Closed 4 None 3]
     ([], sample_star ''a'' 1 ''b'' 2) = (live, s) \<and> live = [5] \<and> star_ok s \<and> ps_outbound (star_status s) = 1"
proof -
  let ?P = "star_policy (\<lambda>_. 7) one_pton one_ntop" and ?s = "sample_star ''a'' 1 ''b'' 2"
  let ?evs = "[Due 0, Accept 1 (sample_member ''b'' 2) Inbound 4 None, Accept 2 (sample_member ''b'' 2) Outbound 5 (Some (sample_member ''b'' 2)), Closed 4 None 3]"
  have e: "fst (policy_run ?P ?evs ([], ?s)) = [5]" by code_simp
  have f: "policy_fresh ?P ?evs ([], ?s)" by code_simp
  have o: "ps_outbound (star_status (snd (policy_run ?P ?evs ([], ?s)))) = 1" by code_simp
  obtain live s where r: "policy_run ?P ?evs ([], ?s) = (live, s)" by force
  have "star_ok ?s" by (rule sample_star_ok) simp_all
  from star_ledger [OF this _ _ f r] show ?thesis using r e o by (simp add: sample_star_def star_sessions_def)
qed

theorem star_dials_converge_witness:
  "peer_of (star_meet False 9 (sample_member ''b'' 2) 5 6 (sample_star ''a'' 1 ''b'' 2)) (sample_member ''b'' 2) = Some (Some 5, None)
   \<and> peer_of (star_meet True 8 (sample_member ''a'' 1) 15 16 (sample_star ''b'' 2 ''a'' 1)) (sample_member ''a'' 1) = Some (None, Some 16)"
proof -
  have "star_knows (sample_star ''a'' 1 ''b'' 2) (sample_member ''a'' 1) (sample_member ''b'' 2)"
    "star_knows (sample_star ''b'' 2 ''a'' 1) (sample_member ''b'' 2) (sample_member ''a'' 1)"
    unfolding star_knows_def by (intro conjI sample_star_ok; simp add: sample_defs)+
  from star_dials_converge [OF this, of False 9 5 6 True 8 15 16] show ?thesis by (simp add: sample_member_def)
qed

theorem star_redials_witness:
  "sample_member ''b'' 2 \<in> set (due_run 1 5000000001 (star_failed (\<lambda>_. 7) (sample_member ''b'' 2) Timeout 1 (sample_star ''a'' 1 ''b'' 2)))"
  using star_redials [of "sample_star ''a'' 1 ''b'' 2" "sample_member ''a'' 1" "sample_member ''b'' 2" "peer_new (sample_member ''b'' 2)" 1 True 0
      "star_failed (\<lambda>_. 7) (sample_member ''b'' 2) Timeout 1 (sample_star ''a'' 1 ''b'' 2)" "\<lambda>_. 7" Timeout 1 None 5000000001]
    sample_star_ok [of "''a''" "''b''" 1 2]
  by (simp add: sample_defs config_ok_def ms_def star_sessions_def)

text \<open>What a list of members says of each principal other than the local one.\<close>

definition listed :: "member \<Rightarrow> member list \<Rightarrow> bytes \<Rightarrow> peer option" where
  "listed local members p =
     map_of (map (\<lambda>m. (m_principal m, peer_new m)) (filter (\<lambda>m. m_principal m \<noteq> m_principal local) members)) p"

lemma listed_fresh:
  assumes "set fresh = fresh_entries local members" "distinct (map fst fresh)"
  shows "map_of fresh p = listed local members p"
proof (cases "listed local members p")
  case None
  then have "p \<notin> fst ` set fresh" unfolding assms(1) listed_def map_of_eq_None_iff fresh_entries_def by force
  then show ?thesis using None by (simp add: map_of_eq_None_iff)
next
  case (Some e)
  then have "(p, e) \<in> set fresh" unfolding assms(1) listed_def fresh_entries_def using map_of_SomeD by fastforce
  then show ?thesis using Some assms(2) by simp
qed

text \<open>C23: refreshing the directory.  A list that is refused, for whatever reason, changes nothing.  A list that is
  taken is merged principal by principal: unknown members are added, a known member is replaced exactly when the listed
  one has a later epoch, and members the list omits stay with their sessions and timers; no epoch ever falls.  The
  sessions to cancel are exactly those of the replaced members.\<close>

theorem star_refresh_merges:
  assumes ok: "star_ok s" and r: "star_refresh pton ntop local members s = (r, s')"
  shows "case r of
      Inl err \<Rightarrow> s' = s
    | Inr cancelled \<Rightarrow>
        (\<forall>p. map_of (sr_members s') p = merged (map_of (sr_members s) p) (listed local members p))
        \<and> mset (star_sessions s') + mset cancelled = mset (star_sessions s)
        \<and> (\<forall>p e. map_of (sr_members s) p = Some e \<longrightarrow>
             (\<exists>e'. map_of (sr_members s') p = Some e' \<and> m_epoch (pe_member e) \<le> m_epoch (pe_member e')))
        \<and> sr_local s' = Some local"
proof (cases r)
  case (Inl err)
  then show ?thesis using star_refresh_error r by auto
next
  case (Inr c)
  have rr: "star_refresh pton ntop local members s = (Inr c, s')" using r Inr by simp
  obtain fresh where f: "set fresh = fresh_entries local members" "distinct (map fst fresh)"
      "\<forall>p. map_of (sr_members s') p = merged (map_of (sr_members s) p) (map_of fresh p)"
    using star_refresh_done(2) [OF ok rr] by blast
  have m: "\<forall>p. map_of (sr_members s') p = merged (map_of (sr_members s) p) (listed local members p)"
    using f(3) listed_fresh [OF f(1,2)] by simp
  have "\<exists>e'. merged (Some e) i = Some e' \<and> m_epoch (pe_member e) \<le> m_epoch (pe_member e')" for e i
    by (cases i) (auto simp: merged_def)
  moreover have "sr_local s' = Some local" using rr by (cases rule: star_refresh_cases) auto
  ultimately show ?thesis using m star_refresh_done(1) [OF ok rr] Inr by simp
qed

theorem star_refresh_merges_witness:
  "\<exists>c s'. star_refresh one_pton one_ntop (sample_member ''a'' 1) [sample_member ''a'' 1, sample_member ''b'' 2, sample_member ''c'' 3]
      (sample_star ''a'' 1 ''b'' 2) = (Inr c, s') \<and> map_of (sr_members s') [3] = Some (peer_new (sample_member ''c'' 3))"
proof -
  let ?m = "[sample_member ''a'' 1, sample_member ''b'' 2, sample_member ''c'' 3]" and ?s = "sample_star ''a'' 1 ''b'' 2"
  have v: "\<not> isl (member_validate one_pton one_ntop (sample_member i n))" if "n \<in> {1, 2, 3}" "i \<in> {''a'', ''b'', ''c''}" for i n
    using sample_valid [OF that] by simp
  have ord: "[2 :: u8] < [3]" by code_simp
  have l: "init_loop one_pton one_ntop sample_config (sample_member ''a'' 1) ?m None False [] =
      Inr (True, [([2], peer_new (sample_member ''b'' 2)), ([3], peer_new (sample_member ''c'' 3))])"
    using v [of 1 "''a''"] v [of 2 "''b''"] v [of 3 "''c''"] ord by (simp add: sample_member_def sample_config_def)
  have "distinct (map (\<lambda>m. endpoint_text (m_address m)) ?m)"
    by (auto simp: sample_member_def endpoint_text_def decimal.simps dest: arg_cong [where f = "of_char :: char \<Rightarrow> nat"])
  then have "\<not> adjacent_equal (sort (map (\<lambda>m. endpoint_text (m_address m)) ?m))"
    using adjacent_equal_sorted [OF sorted_sort] by (metis distinct_sort)
  then have i: "star_initialize one_pton one_ntop (sample_member ''a'' 1) ?m (star_new sample_config) =
      (Inr (), \<lparr>sr_config = sample_config, sr_local = Some (sample_member ''a'' 1),
         sr_members = [([2], peer_new (sample_member ''b'' 2)), ([3], peer_new (sample_member ''c'' 3))]\<rparr>)"
    using l by (simp add: star_initialize_def star_new_def) (simp add: sample_config_def)
  have "\<exists>c s'. star_refresh one_pton one_ntop (sample_member ''a'' 1) ?m ?s = (Inr c, s')"
    using i ord by (simp add: star_refresh_def sample_defs supersedes_def fail_def)
  then obtain c s' where r: "star_refresh one_pton one_ntop (sample_member ''a'' 1) ?m ?s = (Inr c, s')" by blast
  have ok: "star_ok ?s" by (rule sample_star_ok) simp_all
  have "map_of (sr_members ?s) [3] = None" "listed (sample_member ''a'' 1) ?m [3] = Some (peer_new (sample_member ''c'' 3))"
    by (simp_all add: sample_defs listed_def)
  then show ?thesis using star_refresh_merges [OF ok r] r by (simp add: merged_def)
qed

end
