(* ===== verification/Upstream.thy ===== *)
theory Upstream
  imports Policy "HOL-Library.Product_Lexorder"
begin

text \<open>
  The policy of a Planet (\<^verbatim>\<open>astra/planet/src/upstream.hpp\<close>, \<^verbatim>\<open>upstream.cpp\<close>): up to eight candidate Stars, one of which is dialled at a
  time, in rounds, best first; failures back off, and a failure of identity, protocol or binding
  quarantines the candidate.  The theory holds the model, its invariant and the laws of initialising, accepting, closing and failing.
\<close>

unbundle bit_operations_syntax

subsection \<open>Ranking candidates\<close>

text \<open>FNV-1a, 64 bits: the order of the candidates of one group differs from process to process.\<close>

definition fnv_step :: "u64 \<Rightarrow> u8 \<Rightarrow> u64" where
  "fnv_step h byte = (h XOR ucast byte) * 1099511628211"

definition byte_of :: "char \<Rightarrow> u8" where
  "byte_of c = of_nat (code_of c)"

definition candidate_rank :: "bytes \<Rightarrow> string \<Rightarrow> u64" where
  "candidate_rank who process = foldl fnv_step (foldl fnv_step 14695981039346656037 (map byte_of process)) who"

subsection \<open>State\<close>

record candidate =
  ca_member :: member
  ca_pending :: bool
  ca_attempted :: bool
  ca_quarantined :: bool
  ca_failures :: u32
  ca_next :: ns
  ca_connected :: ns

record upstream =
  up_config :: config
  up_local :: "member option"
  up_candidates :: "candidate list"
  up_active :: "(bytes \<times> generation) option"
  up_refresh :: bool
  up_next_refresh :: ns

definition candidate_new :: "member \<Rightarrow> candidate" where
  "candidate_new m = \<lparr>ca_member = m, ca_pending = False, ca_attempted = False, ca_quarantined = False,
     ca_failures = 0, ca_next = 0, ca_connected = 0\<rparr>"

definition upstream_new :: "config \<Rightarrow> upstream" where
  "upstream_new cf = \<lparr>up_config = cf, up_local = None, up_candidates = [], up_active = None, up_refresh = False, up_next_refresh = 0\<rparr>"

subsection \<open>The list of candidates\<close>

definition candidate_order :: "config \<Rightarrow> member \<Rightarrow> bool \<times> string" where
  "candidate_order cf m = (m_group m \<noteq> cf_group cf, m_id m)"

fun candidate_loop :: "(bool \<Rightarrow> string \<Rightarrow> bytes option) \<Rightarrow> (bool \<Rightarrow> bytes \<Rightarrow> string option) \<Rightarrow> config \<Rightarrow> member
    \<Rightarrow> member list \<Rightarrow> (bool \<times> string) option \<Rightarrow> candidate list \<Rightarrow> candidate list result" where
  "candidate_loop pton ntop cf local [] previous prepared = Inr prepared"
| "candidate_loop pton ntop cf local (m # members) previous prepared =
     (if isl (member_validate pton ntop m) \<or> m_role m \<noteq> Star \<or> m_galaxy m \<noteq> cf_galaxy cf \<or> m_principal m = m_principal local
         \<or> m_id m = m_id local \<or> m_address m = m_address local
         \<or> (case previous of None \<Rightarrow> False | Some o' \<Rightarrow> o' \<ge> candidate_order cf m)
         \<or> list_ex (\<lambda>c. m_principal (ca_member c) = m_principal m \<or> m_id (ca_member c) = m_id m \<or> m_address (ca_member c) = m_address m) prepared
      then fail Identity ''Invalid Planet candidate list''
      else candidate_loop pton ntop cf local members (Some (candidate_order cf m)) (prepared @ [candidate_new m]))"

fun inherit_loop :: "candidate list \<Rightarrow> candidate \<Rightarrow> candidate result" where
  "inherit_loop [] c = Inr c"
| "inherit_loop (old # rest) c =
     (if m_principal (ca_member old) \<noteq> m_principal (ca_member c) then inherit_loop rest c
      else if m_epoch (ca_member c) < m_epoch (ca_member old) then inherit_loop rest (old\<lparr>ca_attempted := False\<rparr>)
      else case supersedes (ca_member c) (ca_member old) of
        Inl e \<Rightarrow> Inl e
      | Inr replace \<Rightarrow> inherit_loop rest ((if \<not> replace then old else c)\<lparr>ca_attempted := False\<rparr>))"

fun inherit_all :: "candidate list \<Rightarrow> candidate list \<Rightarrow> candidate list result" where
  "inherit_all olds [] = Inr []"
| "inherit_all olds (c # cs) =
     (case inherit_loop olds c of
        Inl e \<Rightarrow> Inl e
      | Inr c' \<Rightarrow> (case inherit_all olds cs of Inl e \<Rightarrow> Inl e | Inr cs' \<Rightarrow> Inr (c' # cs')))"

definition upstream_initialize :: "(bool \<Rightarrow> string \<Rightarrow> bytes option) \<Rightarrow> (bool \<Rightarrow> bytes \<Rightarrow> string option) \<Rightarrow> member
    \<Rightarrow> member list \<Rightarrow> upstream \<Rightarrow> unit result \<times> upstream" where
  "upstream_initialize pton ntop local members s =
     (if length members > 8 then (fail Capacity ''Too many Planet candidates'', s)
      else case candidate_loop pton ntop (up_config s) local members None [] of
        Inl e \<Rightarrow> (Inl e, s)
      | Inr prepared \<Rightarrow>
          if (case up_local s of None \<Rightarrow> False | Some l \<Rightarrow> l \<noteq> local) then (fail Identity ''Refresh changed local identity'', s)
          else if up_active s \<noteq> None \<or> list_ex ca_pending (up_candidates s) then (Inr (), s)
          else case inherit_all (up_candidates s) prepared of
            Inl e \<Rightarrow> (Inl e, s)
          | Inr prepared' \<Rightarrow> (Inr (), s\<lparr>up_candidates := prepared', up_local := Some local\<rparr>))"

subsection \<open>Sessions\<close>

fun accept_loop :: "ns \<Rightarrow> member \<Rightarrow> member \<Rightarrow> candidate list \<Rightarrow> candidate list result" where
  "accept_loop now remote expected [] = fail Identity ''Candidate no longer authorized''"
| "accept_loop now remote expected (c # cs) =
     (if ca_member c \<noteq> expected \<or> \<not> ca_pending c
      then case accept_loop now remote expected cs of Inl e \<Rightarrow> Inl e | Inr cs' \<Rightarrow> Inr (c # cs')
      else case supersedes remote (ca_member c) of
        Inl e \<Rightarrow> Inl e
      | Inr _ \<Rightarrow> Inr (c\<lparr>ca_member := remote, ca_pending := False, ca_connected := now\<rparr> # cs))"

definition upstream_accept :: "ns \<Rightarrow> member \<Rightarrow> direction \<Rightarrow> generation \<Rightarrow> member option \<Rightarrow> upstream \<Rightarrow> generation list result \<times> upstream" where
  "upstream_accept now remote dir g expected s =
     (case (up_local s, expected) of
        (Some local, Some target) \<Rightarrow>
          if up_active s \<noteq> None \<or> dir \<noteq> Outbound \<or> m_role remote \<noteq> Star \<or> m_galaxy remote \<noteq> m_galaxy local
          then (fail Identity ''Planet requires one authorized outbound Star'', s)
          else (case accept_loop now remote target (up_candidates s) of
            Inl e \<Rightarrow> (Inl e, s)
          | Inr cs \<Rightarrow> (Inr [], s\<lparr>up_candidates := cs, up_active := Some (m_principal remote, g)\<rparr>))
      | _ \<Rightarrow> (fail Identity ''Planet requires one authorized outbound Star'', s))"

definition record_failure :: "(string \<Rightarrow> u64) \<Rightarrow> config \<Rightarrow> string \<Rightarrow> status_code \<Rightarrow> ns \<Rightarrow> candidate \<Rightarrow> candidate" where
  "record_failure hash cf local_id code now c =
     (let failures = next_failures (ca_failures c)
      in c\<lparr>ca_pending := False, ca_attempted := True,
           ca_quarantined := ca_quarantined c \<or> code = Identity \<or> code = Protocol \<or> code = Conflict,
           ca_failures := failures, ca_next := now + backoff hash cf (m_principal (ca_member c)) local_id failures\<rparr>)"

definition lose :: "(string \<Rightarrow> u64) \<Rightarrow> config \<Rightarrow> string \<Rightarrow> status_code option \<Rightarrow> ns \<Rightarrow> candidate \<Rightarrow> candidate" where
  "lose hash cf local_id code now c =
     record_failure hash cf local_id (case code of None \<Rightarrow> Transport | Some e \<Rightarrow> e) now
       (if now - ca_connected c \<ge> cf_stable_connection cf * ms then c\<lparr>ca_failures := 0\<rparr> else c)"

text \<open>A loop that changes the first element with a property and stops.\<close>

fun change_first :: "('a \<Rightarrow> bool) \<Rightarrow> ('a \<Rightarrow> 'a) \<Rightarrow> 'a list \<Rightarrow> 'a list" where
  "change_first P f [] = []"
| "change_first P f (x # xs) = (if P x then f x # xs else x # change_first P f xs)"

definition local_id :: "upstream \<Rightarrow> string" where
  "local_id s = (case up_local s of None \<Rightarrow> [] | Some m \<Rightarrow> m_id m)"

definition upstream_closed :: "(string \<Rightarrow> u64) \<Rightarrow> generation \<Rightarrow> status_code option \<Rightarrow> ns \<Rightarrow> upstream \<Rightarrow> upstream" where
  "upstream_closed hash g code now s =
     (case up_active s of
        None \<Rightarrow> s
      | Some (who, g') \<Rightarrow>
          if g' \<noteq> g then s
          else s\<lparr>up_candidates := change_first (\<lambda>c. m_principal (ca_member c) = who)
                   (lose hash (up_config s) (local_id s) code now) (up_candidates s),
                 up_active := None\<rparr>)"

subsection \<open>Choosing a candidate\<close>

definition eligible :: "ns \<Rightarrow> candidate \<Rightarrow> bool" where
  "eligible now c \<longleftrightarrow> \<not> ca_quarantined c \<and> \<not> ca_attempted c \<and> now \<ge> ca_next c"

definition preference :: "config \<Rightarrow> string \<Rightarrow> ns \<Rightarrow> candidate \<Rightarrow> bool \<times> bool \<times> u64 \<times> string" where
  "preference cf process now c =
     (\<not> eligible now c, m_group (ca_member c) \<noteq> cf_group cf, candidate_rank (m_principal (ca_member c)) process, m_id (ca_member c))"

text \<open>\<^verbatim>\<open>std::ranges::min_element\<close>: the position of the first least element.\<close>

fun min_loop :: "('a \<Rightarrow> 'b::linorder) \<Rightarrow> 'a list \<Rightarrow> nat \<Rightarrow> nat \<Rightarrow> 'a \<Rightarrow> nat" where
  "min_loop key [] i best b = best"
| "min_loop key (x # xs) i best b = (if key x < key b then min_loop key xs (i + 1) i x else min_loop key xs (i + 1) best b)"

fun min_element :: "('a \<Rightarrow> 'b::linorder) \<Rightarrow> 'a list \<Rightarrow> nat" where
  "min_element key [] = 0"
| "min_element key (x # xs) = min_loop key xs 1 0 x"

definition new_round :: "candidate list \<Rightarrow> bool" where
  "new_round cs = list_all (\<lambda>c. ca_attempted c \<or> ca_quarantined c) cs"

definition upstream_due :: "ns \<Rightarrow> upstream \<Rightarrow> member option \<times> upstream" where
  "upstream_due now s =
     (case up_local s of
        None \<Rightarrow> (None, s)
      | Some local \<Rightarrow>
          if up_active s \<noteq> None \<or> list_ex ca_pending (up_candidates s) then (None, s)
          else let s1 = (if new_round (up_candidates s)
                         then s\<lparr>up_refresh := True, up_candidates := map (\<lambda>c. c\<lparr>ca_attempted := False\<rparr>) (up_candidates s)\<rparr> else s);
                   cs = up_candidates s1;
                   i = min_element (preference (up_config s) (m_id local) now) cs
               in if i < length cs \<and> eligible now (cs ! i)
                  then (Some (ca_member (cs ! i)), s1\<lparr>up_candidates := cs[i := (cs ! i)\<lparr>ca_pending := True, ca_attempted := True\<rparr>]\<rparr>)
                  else (None, s1))"

definition upstream_failed :: "(string \<Rightarrow> u64) \<Rightarrow> member \<Rightarrow> status_code \<Rightarrow> ns \<Rightarrow> upstream \<Rightarrow> upstream" where
  "upstream_failed hash target code now s =
     s\<lparr>up_candidates := change_first (\<lambda>c. ca_member c = target) (record_failure hash (up_config s) (local_id s) code now) (up_candidates s)\<rparr>"

definition upstream_needs_refresh :: "ns \<Rightarrow> upstream \<Rightarrow> bool \<times> upstream" where
  "upstream_needs_refresh now s =
     (if up_local s = None \<or> up_active s \<noteq> None \<or> \<not> up_refresh s \<or> now < up_next_refresh s then (False, s)
      else (True, s\<lparr>up_refresh := False, up_next_refresh := now + cf_reconnect_max (up_config s) * ms\<rparr>))"

fun find_member :: "bytes \<Rightarrow> candidate list \<Rightarrow> member option" where
  "find_member who [] = None"
| "find_member who (c # cs) = (if m_principal (ca_member c) = who then Some (ca_member c) else find_member who cs)"

definition upstream_status :: "upstream \<Rightarrow> policy_state" where
  "upstream_status s =
     \<lparr>ps_initialized = (up_local s \<noteq> None), ps_members = 0, ps_inbound = 0, ps_outbound = 0, ps_planet_inbound = 0,
      ps_candidates = length (up_candidates s),
      ps_active_member = (case up_active s of None \<Rightarrow> None | Some (who, g) \<Rightarrow> find_member who (up_candidates s))\<rparr>"

definition upstream_policy :: "(string \<Rightarrow> u64) \<Rightarrow> (bool \<Rightarrow> string \<Rightarrow> bytes option) \<Rightarrow> (bool \<Rightarrow> bytes \<Rightarrow> string option) \<Rightarrow> upstream policy" where
  "upstream_policy hash pton ntop =
     \<lparr>po_initialize = upstream_initialize pton ntop, po_refresh = policy_refresh, po_accept = upstream_accept,
      po_closed = upstream_closed hash, po_due = upstream_due, po_failed = upstream_failed hash,
      po_needs_refresh = upstream_needs_refresh, po_status = upstream_status\<rparr>"

subsection \<open>The invariant of a Planet's upstream\<close>

definition upstream_sessions :: "upstream \<Rightarrow> generation list" where
  "upstream_sessions s = (case up_active s of None \<Rightarrow> [] | Some (who, g) \<Rightarrow> [g])"

abbreviation who :: "candidate \<Rightarrow> bytes" where
  "who c \<equiv> m_principal (ca_member c)"

definition upstream_ok :: "upstream \<Rightarrow> bool" where
  "upstream_ok s \<longleftrightarrow>
     (up_local s = None \<longrightarrow> up_candidates s = [] \<and> up_active s = None)
     \<and> length (up_candidates s) \<le> 8 \<and> distinct (map who (up_candidates s))
     \<and> (\<forall>c \<in> set (up_candidates s). m_role (ca_member c) = Star \<and> ca_failures c \<le> 100 \<and> (ca_pending c \<longrightarrow> ca_attempted c))
     \<and> length (filter ca_pending (up_candidates s)) \<le> 1
     \<and> (case up_active s of None \<Rightarrow> True
        | Some (p, g) \<Rightarrow> p \<in> set (map who (up_candidates s)) \<and> \<not> list_ex ca_pending (up_candidates s))"

lemma candidate_new_simps [simp]: "ca_member (candidate_new m) = m" "\<not> ca_pending (candidate_new m)" "ca_failures (candidate_new m) = 0"
    "\<not> ca_quarantined (candidate_new m)"
  by (simp_all add: candidate_new_def)

lemma candidate_loop_done:
  assumes "candidate_loop pton ntop cf local members previous prepared = Inr prepared'"
  shows "prepared' = prepared @ map candidate_new members \<and> (\<forall>m \<in> set members. m_role m = Star)
    \<and> (distinct (map who prepared) \<longrightarrow> distinct (map who prepared'))"
  using assms
proof (induction members arbitrary: previous prepared)
  case (Cons m members)
  have r: "candidate_loop pton ntop cf local members (Some (candidate_order cf m)) (prepared @ [candidate_new m]) = Inr prepared'"
    and m: "m_role m = Star" "\<not> list_ex (\<lambda>c. m_principal (ca_member c) = m_principal m) prepared"
    using Cons.prems by (auto simp: fail_def list_ex_iff split: if_splits)
  have d: "distinct (map who prepared) \<Longrightarrow> distinct (map who (prepared @ [candidate_new m]))"
    using m(2) by (auto simp: list_ex_iff)
  note ih = Cons.IH [OF r]
  show ?case
  proof (intro conjI)
    show "distinct (map who prepared) \<longrightarrow> distinct (map who prepared')" using ih d by blast
  qed (use ih m(1) in simp_all)
qed simp

text \<open>What a listed candidate becomes, given the one known for its principal.\<close>

definition inherited :: "candidate list \<Rightarrow> candidate \<Rightarrow> candidate" where
  "inherited olds c =
     (case filter (\<lambda>x. who x = who c) olds of
        [] \<Rightarrow> c
      | old # _ \<Rightarrow> (if m_epoch (ca_member old) < m_epoch (ca_member c) then c else old)\<lparr>ca_attempted := False\<rparr>)"

lemma inherit_loop_absent: "who c \<notin> set (map who olds) \<Longrightarrow> inherit_loop olds c = Inr c"
  by (induction olds) auto

lemma inherit_loop_done:
  assumes "inherit_loop olds c = Inr c'" "distinct (map who olds)"
  shows "c' = inherited olds c"
  using assms
proof (induction olds arbitrary: c)
  case Nil
  then show ?case by (simp add: inherited_def)
next
  case (Cons old rest)
  show ?case
  proof (cases "who old = who c")
    case False
    then show ?thesis using Cons by (simp add: inherited_def)
  next
    case True
    have absent: "inherit_loop rest x = Inr x" if "who x = who old" for x
      by (rule inherit_loop_absent) (use that Cons.prems(2) in auto)
    show ?thesis
    proof (cases "m_epoch (ca_member c) < m_epoch (ca_member old)")
      case True
      then show ?thesis using Cons.prems(1) \<open>who old = who c\<close> absent by (auto simp: inherited_def)
    next
      case False
      obtain b where b: "supersedes (ca_member c) (ca_member old) = Inr b"
        using Cons.prems(1) True False by (auto split: sum.splits)
      have eq: "c' = (if \<not> b then old else c)\<lparr>ca_attempted := False\<rparr>"
        using Cons.prems(1) True False b absent [of "(if \<not> b then old else c)\<lparr>ca_attempted := False\<rparr>"] by (cases b) auto
      show ?thesis
        using eq True supersedes_keeps(7) [OF b] by (simp add: inherited_def)
    qed
  qed
qed

lemma inherit_all_done:
  assumes "inherit_all olds cs = Inr cs'" "distinct (map who olds)"
  shows "cs' = map (inherited olds) cs"
  using assms by (induction cs arbitrary: cs') (auto dest: inherit_loop_done split: sum.splits)

lemma inherited_cases:
  obtains "inherited olds c = c" "who c \<notin> set (map who olds)"
  | old where "old \<in> set olds" "who old = who c" "m_epoch (ca_member old) < m_epoch (ca_member c)" "inherited olds c = c\<lparr>ca_attempted := False\<rparr>"
  | old where "old \<in> set olds" "who old = who c" "m_epoch (ca_member c) \<le> m_epoch (ca_member old)" "inherited olds c = old\<lparr>ca_attempted := False\<rparr>"
proof (cases "filter (\<lambda>x. who x = who c) olds")
  case Nil
  then have "who c \<notin> set (map who olds)" by (simp add: filter_empty_conv) (metis imageE)
  then show ?thesis using that(1) Nil by (simp add: inherited_def)
next
  case (Cons old rest)
  then have o: "old \<in> set olds" "who old = who c" by (auto simp: filter_eq_Cons_iff)
  show ?thesis
  proof (cases "m_epoch (ca_member old) < m_epoch (ca_member c)")
    case True
    then show ?thesis using that(2) [OF o True] Cons by (simp add: inherited_def)
  next
    case False
    then show ?thesis using that(3) [OF o] Cons by (simp add: inherited_def)
  qed
qed

lemma upstream_initialize_cases:
  assumes "upstream_initialize pton ntop local members s = (r, s')" "distinct (map who (up_candidates s))"
  obtains (refused) e where "r = Inl e" "s' = s"
  | (busy) "r = Inr ()" "s' = s" "up_active s \<noteq> None \<or> list_ex ca_pending (up_candidates s)"
  | (applied) "r = Inr ()" "length members \<le> 8" "\<forall>m \<in> set members. m_role m = Star" "up_active s = None"
      "\<not> list_ex ca_pending (up_candidates s)" "distinct (map m_principal members)"
      "s' = s\<lparr>up_candidates := map (inherited (up_candidates s) \<circ> candidate_new) members, up_local := Some local\<rparr>"
proof (cases "candidate_loop pton ntop (up_config s) local members None []")
  case (Inl e)
  then show ?thesis using assms(1) refused by (auto simp: upstream_initialize_def fail_def split: if_splits)
next
  case (Inr prepared)
  note p = candidate_loop_done [OF Inr]
  have "map who prepared = map m_principal members" using p by (simp add: o_def)
  then have d: "distinct (map m_principal members)" using p by (metis distinct.simps(1) list.map(1))
  show ?thesis
  proof (cases "8 < length members \<or> (case up_local s of None \<Rightarrow> False | Some l \<Rightarrow> l \<noteq> local)")
    case True
    then have "isl r \<and> s' = s" using assms(1) Inr by (auto simp: upstream_initialize_def fail_def split: if_splits)
    then show ?thesis using refused by (cases r) auto
  next
    case False
    show ?thesis
    proof (cases "up_active s \<noteq> None \<or> list_ex ca_pending (up_candidates s)")
      case True
      then show ?thesis using assms(1) False Inr busy by (auto simp: upstream_initialize_def)
    next
      case idle: False
      show ?thesis
      proof (cases "inherit_all (up_candidates s) prepared")
        case (Inl e)
        then show ?thesis using assms(1) False idle Inr refused by (auto simp: upstream_initialize_def)
      next
        case all: (Inr prepared')
        have "prepared' = map (inherited (up_candidates s) \<circ> candidate_new) members"
          using inherit_all_done [OF all assms(2)] p by simp
        then have s': "r = Inr ()" "s' = s\<lparr>up_candidates := map (inherited (up_candidates s) \<circ> candidate_new) members, up_local := Some local\<rparr>"
          using assms(1) False idle Inr all by (auto simp: upstream_initialize_def)
        have "up_active s = None" using idle by blast
        then show ?thesis by (intro applied) (use s' False idle d p in simp_all)
      qed
    qed
  qed
qed

lemma inherited_keeps:
  "who (inherited olds c) = who c"
  "\<forall>x \<in> set olds. \<not> ca_pending x \<and> ca_failures x \<le> 100 \<and> m_role (ca_member x) = Star \<Longrightarrow>
     \<not> ca_pending c \<Longrightarrow> ca_failures c \<le> 100 \<Longrightarrow> m_role (ca_member c) = Star \<Longrightarrow>
     \<not> ca_pending (inherited olds c) \<and> ca_failures (inherited olds c) \<le> 100 \<and> m_role (ca_member (inherited olds c)) = Star"
  by (rule inherited_cases [of olds c]; simp)+

lemma upstream_initialize_error:
  assumes "upstream_ok s" "upstream_initialize pton ntop local members s = (Inl e, s')"
  shows "s' = s"
  by (rule upstream_initialize_cases [OF assms(2)]) (use assms(1) in \<open>auto simp: upstream_ok_def\<close>)

lemma upstream_initialize_keeps:
  assumes ok: "upstream_ok s" and i: "upstream_initialize pton ntop local members s = (Inr u, s')"
  shows "upstream_ok s' \<and> mset (upstream_sessions s') = mset (upstream_sessions s)"
proof -
  have d: "distinct (map who (up_candidates s))" using ok by (simp add: upstream_ok_def)
  show ?thesis
  proof (cases rule: upstream_initialize_cases [OF i d])
    case 3
    let ?cs = "map (inherited (up_candidates s) \<circ> candidate_new) members"
    have old: "\<forall>x \<in> set (up_candidates s). \<not> ca_pending x \<and> ca_failures x \<le> 100 \<and> m_role (ca_member x) = Star"
      using ok 3(5) by (auto simp: upstream_ok_def list_ex_iff)
    have new: "\<forall>c \<in> set ?cs. \<not> ca_pending c \<and> ca_failures c \<le> 100 \<and> m_role (ca_member c) = Star"
      using inherited_keeps(2) [OF old] 3(3) by auto
    have "map who ?cs = map m_principal members" using inherited_keeps(1) by simp
    then have "distinct (map who ?cs)" using 3(6) by (simp only:)
    moreover have "filter ca_pending ?cs = []" using new by (auto simp: filter_empty_conv)
    ultimately show ?thesis using new 3(2,4,7) by (auto simp: upstream_ok_def upstream_sessions_def)
  qed (use ok in auto)
qed

subsection \<open>The other operations\<close>

lemma change_first_split:
  obtains (none) "\<forall>x \<in> set xs. \<not> P x" "change_first P f xs = xs"
  | (one) ys x zs where "xs = ys @ x # zs" "\<forall>y \<in> set ys. \<not> P y" "P x" "change_first P f xs = ys @ f x # zs"
proof (induction xs arbitrary: thesis)
  case Nil
  then show ?case by simp
next
  case (Cons x xs)
  show ?case
  proof (cases "P x")
    case True
    then show ?thesis using Cons.prems(2) [of "[]" x xs] by simp
  next
    case False
    show ?thesis
    proof (rule Cons.IH)
      assume "\<forall>x \<in> set xs. \<not> P x" "change_first P f xs = xs"
      then show thesis using Cons.prems(1) False by simp
    next
      fix ys y zs assume "xs = ys @ y # zs" "\<forall>y \<in> set ys. \<not> P y" "P y" "change_first P f xs = ys @ f y # zs"
      then show thesis using Cons.prems(2) [of "x # ys" y zs] False by simp
    qed
  qed
qed

lemma record_failure_simps [simp]:
  "ca_member (record_failure hash cf i code now c) = ca_member c" "\<not> ca_pending (record_failure hash cf i code now c)"
  "ca_attempted (record_failure hash cf i code now c)"
  "ca_failures (record_failure hash cf i code now c) = next_failures (ca_failures c)"
  "ca_quarantined (record_failure hash cf i code now c) \<longleftrightarrow> ca_quarantined c \<or> code \<in> {Identity, Protocol, Conflict}"
  by (auto simp: record_failure_def Let_def)

lemma lose_simps [simp]:
  "ca_member (lose hash cf i code now c) = ca_member c" "\<not> ca_pending (lose hash cf i code now c)" "ca_attempted (lose hash cf i code now c)"
  "ca_failures (lose hash cf i code now c) \<le> 100" "ca_quarantined c \<Longrightarrow> ca_quarantined (lose hash cf i code now c)"
  by (simp_all add: lose_def)

text \<open>Changing one candidate for the same principal.\<close>

lemma upstream_ok_change:
  assumes ok: "upstream_ok s" and c: "up_candidates s = ys @ x # zs"
    and x': "who x' = who x" "m_role (ca_member x') = Star" "ca_failures x' \<le> 100" "ca_pending x' \<Longrightarrow> ca_attempted x'"
    and pending: "ca_pending x' \<Longrightarrow> ca_pending x \<or> \<not> list_ex ca_pending (up_candidates s) \<and> up_active s = None"
  shows "upstream_ok (s\<lparr>up_candidates := ys @ x' # zs\<rparr>)"
proof -
  have l: "up_local s \<noteq> None" using ok c by (auto simp: upstream_ok_def)
  have w: "map who (ys @ x' # zs) = map who (up_candidates s)" using c x'(1) by simp
  have each: "\<forall>c \<in> set (ys @ x' # zs). m_role (ca_member c) = Star \<and> ca_failures c \<le> 100 \<and> (ca_pending c \<longrightarrow> ca_attempted c)"
    using ok c x' by (auto simp: upstream_ok_def)
  have p: "length (filter ca_pending (ys @ x' # zs)) \<le> 1"
  proof (cases "ca_pending x' \<and> \<not> ca_pending x")
    case True
    then have "filter ca_pending ys = []" "filter ca_pending zs = []" using pending c by (auto simp: filter_empty_conv list_ex_iff)
    then show ?thesis using True by simp
  next
    case False
    then have "length (filter ca_pending (ys @ x' # zs)) \<le> length (filter ca_pending (up_candidates s))" using c by auto
    then show ?thesis using ok by (simp add: upstream_ok_def)
  qed
  have a: "\<not> list_ex ca_pending (ys @ x' # zs)" if "up_active s = Some (q, g)" for q g
    using ok that c pending by (auto simp: upstream_ok_def)
  have len: "length (ys @ x' # zs) \<le> 8" using ok c by (simp add: upstream_ok_def)
  have dw: "distinct (map who (ys @ x' # zs))" using ok unfolding w by (simp add: upstream_ok_def)
  have act: "case up_active s of None \<Rightarrow> True
      | Some (p, g) \<Rightarrow> p \<in> set (map who (ys @ x' # zs)) \<and> \<not> list_ex ca_pending (ys @ x' # zs)"
    using ok a unfolding w by (auto simp: upstream_ok_def split: option.split)
  show ?thesis
  proof (cases "up_active s")
    case None
    then show ?thesis unfolding upstream_ok_def using l len dw each p by simp
  next
    case (Some b)
    obtain q g where "b = (q, g)" by force
    then show ?thesis unfolding upstream_ok_def using l len dw each p act Some by simp
  qed
qed

lemma upstream_failed_keeps:
  assumes ok: "upstream_ok s"
  shows "upstream_ok (upstream_failed hash target code now s)
    \<and> mset (upstream_sessions (upstream_failed hash target code now s)) = mset (upstream_sessions s)"
proof (cases rule: change_first_split [where xs = "up_candidates s" and P = "\<lambda>c. ca_member c = target"
      and f = "record_failure hash (up_config s) (local_id s) code now"])
  case none
  then show ?thesis using ok by (simp add: upstream_failed_def)
next
  case (one ys x zs)
  have "m_role (ca_member x) = Star" using ok one(1) by (auto simp: upstream_ok_def)
  then have "upstream_ok (s\<lparr>up_candidates := ys @ record_failure hash (up_config s) (local_id s) code now x # zs\<rparr>)"
    by (intro upstream_ok_change [OF ok one(1)]) simp_all
  then show ?thesis using one(4) by (simp add: upstream_failed_def upstream_sessions_def)
qed

lemma upstream_ok_inactive: "upstream_ok s \<Longrightarrow> upstream_ok (s\<lparr>up_active := None\<rparr>)"
  by (auto simp: upstream_ok_def)

lemma upstream_closed_keeps:
  assumes ok: "upstream_ok s"
  shows "upstream_ok (upstream_closed hash g code now s)
    \<and> mset (upstream_sessions (upstream_closed hash g code now s)) = mset (upstream_sessions s) - {#g#}"
proof (cases "up_active s")
  case None
  then show ?thesis using ok by (simp add: upstream_closed_def upstream_sessions_def)
next
  case (Some a)
  obtain p g' where a: "a = (p, g')" by force
  show ?thesis
  proof (cases "g' = g")
    case False
    then show ?thesis using ok Some a by (simp add: upstream_closed_def upstream_sessions_def)
  next
    case True
    let ?f = "lose hash (up_config s) (local_id s) code now"
    have "upstream_ok (s\<lparr>up_candidates := change_first (\<lambda>c. who c = p) ?f (up_candidates s)\<rparr>)"
    proof (cases rule: change_first_split [where xs = "up_candidates s" and P = "\<lambda>c. who c = p" and f = ?f])
      case none
      then show ?thesis using ok by simp
    next
      case (one ys x zs)
      have "m_role (ca_member x) = Star" using ok one(1) by (auto simp: upstream_ok_def)
      then show ?thesis unfolding one(4) by (intro upstream_ok_change [OF ok one(1)]) simp_all
    qed
    from upstream_ok_inactive [OF this] show ?thesis
      using Some a True by (simp add: upstream_closed_def upstream_sessions_def)
  qed
qed

lemma accept_loop_done:
  assumes "accept_loop now remote expected cs = Inr cs'"
  obtains ys c zs b where "cs = ys @ c # zs" "ca_member c = expected" "ca_pending c" "supersedes remote (ca_member c) = Inr b"
    "cs' = ys @ c\<lparr>ca_member := remote, ca_pending := False, ca_connected := now\<rparr> # zs"
  using assms
proof (induction cs arbitrary: cs' thesis)
  case Nil
  then show ?case by (simp add: fail_def)
next
  case (Cons c cs)
  show ?case
  proof (cases "ca_member c \<noteq> expected \<or> \<not> ca_pending c")
    case True
    then obtain rest where r: "accept_loop now remote expected cs = Inr rest" "cs' = c # rest"
      using Cons.prems(2) by (auto split: sum.splits)
    show ?thesis
    proof (rule Cons.IH [OF _ r(1)])
      fix ys x zs b
      assume "cs = ys @ x # zs" "ca_member x = expected" "ca_pending x" "supersedes remote (ca_member x) = Inr b"
        "rest = ys @ x\<lparr>ca_member := remote, ca_pending := False, ca_connected := now\<rparr> # zs"
      then show thesis using Cons.prems(1) [of "c # ys" x zs b] r(2) by simp
    qed
  next
    case False
    then show ?thesis using Cons.prems(1) [of "[]" c cs] Cons.prems(2) by (auto split: sum.splits)
  qed
qed

lemma upstream_accept_error: "upstream_accept now remote dir g expected s = (Inl e, s') \<Longrightarrow> s' = s"
  by (auto simp: upstream_accept_def fail_def split: option.splits if_splits sum.splits)

lemma upstream_accept_cases:
  assumes "upstream_accept now remote dir g expected s = (Inr c, s')"
  obtains ys x zs b where "c = []" "expected = Some (ca_member x)" "dir = Outbound" "up_active s = None" "up_candidates s = ys @ x # zs"
    "ca_pending x" "supersedes remote (ca_member x) = Inr b" "up_local s \<noteq> None" "m_role remote = Star"
    "s' = s\<lparr>up_candidates := ys @ x\<lparr>ca_member := remote, ca_pending := False, ca_connected := now\<rparr> # zs, up_active := Some (m_principal remote, g)\<rparr>"
proof -
  obtain local target where l: "up_local s = Some local" "expected = Some target"
    using assms by (auto simp: upstream_accept_def fail_def split: option.splits)
  have cond: "\<not> (up_active s \<noteq> None \<or> dir \<noteq> Outbound \<or> m_role remote \<noteq> Star \<or> m_galaxy remote \<noteq> m_galaxy local)"
    using assms l by (auto simp: upstream_accept_def fail_def split: if_splits)
  obtain cs where cs: "accept_loop now remote target (up_candidates s) = Inr cs" "c = []"
    "s' = s\<lparr>up_candidates := cs, up_active := Some (m_principal remote, g)\<rparr>"
    using assms l cond by (auto simp: upstream_accept_def split: sum.splits)
  have free: "up_active s = None" "dir = Outbound" "m_role remote = Star" using cond by blast+
  obtain ys x zs b where x: "up_candidates s = ys @ x # zs" "ca_member x = target" "ca_pending x" "supersedes remote (ca_member x) = Inr b"
    "cs = ys @ x\<lparr>ca_member := remote, ca_pending := False, ca_connected := now\<rparr> # zs"
    by (rule accept_loop_done [OF cs(1)])
  show thesis by (rule that [OF cs(2) _ free(2,1) x(1,3,4) _ free(3)]) (use cs(3) x(2,5) l in simp_all)
qed

lemma upstream_accept_done:
  assumes ok: "upstream_ok s" and a: "upstream_accept now remote dir g expected s = (Inr c, s')"
  shows "upstream_ok s' \<and> mset (upstream_sessions s') + mset c = add_mset g (mset (upstream_sessions s)) \<and> g \<in> set (upstream_sessions s')"
proof -
  obtain ys x zs b where x: "c = []" "up_active s = None" "up_candidates s = ys @ x # zs" "ca_pending x"
    "supersedes remote (ca_member x) = Inr b" "up_local s \<noteq> None" "m_role remote = Star"
    "s' = s\<lparr>up_candidates := ys @ x\<lparr>ca_member := remote, ca_pending := False, ca_connected := now\<rparr> # zs, up_active := Some (m_principal remote, g)\<rparr>"
    by (rule upstream_accept_cases [OF a])
  let ?x = "x\<lparr>ca_member := remote, ca_pending := False, ca_connected := now\<rparr>"
  have "ca_failures x \<le> 100" using ok x(3) by (auto simp: upstream_ok_def)
  then have o: "upstream_ok (s\<lparr>up_candidates := ys @ ?x # zs\<rparr>)"
    using upstream_ok_change [OF ok x(3), of ?x] supersedes_keeps(1) [OF x(5)] x(7) by simp
  have "length (filter ca_pending (ys @ x # zs)) \<le> 1" using ok x(3) by (simp add: upstream_ok_def)
  then have "\<not> list_ex ca_pending (ys @ ?x # zs)" using x(4) by (auto simp: list_ex_iff filter_empty_conv)
  then have "upstream_ok s'" using o x(6,8) unfolding upstream_ok_def by simp
  then show ?thesis using x by (simp add: upstream_sessions_def)
qed

end
