(* ===== verification/Upstream_Rules.thy ===== *)
theory Upstream_Rules
  imports Upstream
begin

text \<open>
  What the Planet policy promises: one upstream at a time with exact session accounting, the choice of the next
  candidate, and quarantine.
\<close>

subsection \<open>Choosing\<close>

lemma min_loop_least:
  assumes "xs0 = pre @ xs" "best < length pre" "\<forall>x \<in> set pre. key (xs0 ! best) \<le> key x"
  shows "min_loop key xs (length pre) best (xs0 ! best) < length xs0
    \<and> (\<forall>x \<in> set xs0. key (xs0 ! min_loop key xs (length pre) best (xs0 ! best)) \<le> key x)"
  using assms
proof (induction xs arbitrary: pre best)
  case Nil
  then show ?case by simp
next
  case (Cons x xs)
  have x: "xs0 ! length pre = x" using Cons.prems(1) by simp
  show ?case
  proof (cases "key x < key (xs0 ! best)")
    case True
    then have "\<forall>y \<in> set (pre @ [x]). key (xs0 ! length pre) \<le> key y" using Cons.prems(3) x by (auto intro: less_imp_le less_le_trans)
    then show ?thesis using Cons.IH [of "pre @ [x]" "length pre"] Cons.prems(1) True x by simp
  next
    case False
    then have "\<forall>y \<in> set (pre @ [x]). key (xs0 ! best) \<le> key y" using Cons.prems(3) by auto
    then show ?thesis using Cons.IH [of "pre @ [x]" best] Cons.prems(1,2) False by simp
  qed
qed

lemma min_element_least:
  assumes "xs \<noteq> []"
  shows "min_element key xs < length xs" "\<forall>x \<in> set xs. key (xs ! min_element key xs) \<le> key x"
proof -
  obtain x ys where "xs = x # ys" using assms by (cases xs) auto
  then show "min_element key xs < length xs" "\<forall>x \<in> set xs. key (xs ! min_element key xs) \<le> key x"
    using min_loop_least [of xs "[x]" ys 0 key] by auto
qed

definition current_round :: "upstream \<Rightarrow> candidate list" where
  "current_round s = (if new_round (up_candidates s) then map (\<lambda>c. c\<lparr>ca_attempted := False\<rparr>) (up_candidates s) else up_candidates s)"

definition upstream_busy :: "upstream \<Rightarrow> bool" where
  "upstream_busy s \<longleftrightarrow> up_local s = None \<or> up_active s \<noteq> None \<or> list_ex ca_pending (up_candidates s)"

definition with_round :: "upstream \<Rightarrow> upstream" where
  "with_round s = s\<lparr>up_refresh := (up_refresh s \<or> new_round (up_candidates s)), up_candidates := current_round s\<rparr>"

lemma upstream_due_cases:
  obtains (busy) "upstream_busy s" "upstream_due now s = (None, s)"
  | (none) "\<not> upstream_busy s" "\<forall>c \<in> set (current_round s). \<not> eligible now c" "upstream_due now s = (None, with_round s)"
  | (chosen) local ys c zs where "\<not> upstream_busy s" "up_local s = Some local" "current_round s = ys @ c # zs" "eligible now c"
      "\<forall>d \<in> set (current_round s). preference (up_config s) (m_id local) now c \<le> preference (up_config s) (m_id local) now d"
      "upstream_due now s = (Some (ca_member c), (with_round s)\<lparr>up_candidates := ys @ c\<lparr>ca_pending := True, ca_attempted := True\<rparr> # zs\<rparr>)"
proof (cases "upstream_busy s")
  case True
  then show ?thesis using busy by (auto simp: upstream_busy_def upstream_due_def split: option.split)
next
  case False
  then obtain local where l: "up_local s = Some local" "up_active s = None" "\<not> list_ex ca_pending (up_candidates s)"
    unfolding upstream_busy_def by (metis option.exhaust)
  let ?s = "if new_round (up_candidates s)
    then s\<lparr>up_refresh := True, up_candidates := map (\<lambda>c. c\<lparr>ca_attempted := False\<rparr>) (up_candidates s)\<rparr> else s"
  have s1: "?s = with_round s" by (simp add: with_round_def current_round_def)
  have cs: "up_candidates (with_round s) = current_round s" by (simp add: with_round_def)
  let ?key = "preference (up_config s) (m_id local) now" and ?cs = "current_round s"
  let ?i = "min_element ?key ?cs"
  have due: "upstream_due now s = (if ?i < length ?cs \<and> eligible now (?cs ! ?i)
      then (Some (ca_member (?cs ! ?i)), (with_round s)\<lparr>up_candidates := ?cs[?i := (?cs ! ?i)\<lparr>ca_pending := True, ca_attempted := True\<rparr>]\<rparr>)
      else (None, with_round s))"
    using l unfolding upstream_due_def Let_def s1 cs by simp
  show ?thesis
  proof (cases "?i < length ?cs \<and> eligible now (?cs ! ?i)")
    case True
    then have "?cs = take ?i ?cs @ ?cs ! ?i # drop (Suc ?i) ?cs" by (simp add: id_take_nth_drop)
    note split = this
    have "?cs \<noteq> []" using True by auto
    note least = min_element_least(2) [OF this, of ?key]
    have "?cs[?i := x] = take ?i ?cs @ x # drop (Suc ?i) ?cs" for x using True by (simp add: upd_conv_take_nth_drop)
    then have "upstream_due now s = (Some (ca_member (?cs ! ?i)), (with_round s)\<lparr>up_candidates :=
        take ?i ?cs @ (?cs ! ?i)\<lparr>ca_pending := True, ca_attempted := True\<rparr> # drop (Suc ?i) ?cs\<rparr>)"
      unfolding due using True by simp
    from chosen [OF False l(1) split _ least this] show ?thesis using True by blast
  next
    case no: False
    have "\<not> eligible now c" if "c \<in> set ?cs" for c
    proof
      assume e: "eligible now c"
      have ne: "?cs \<noteq> []" using that by auto
      note m = min_element_least [OF ne, of ?key]
      have "\<not> eligible now (?cs ! ?i)" using no m(1) by blast
      moreover have "?key (?cs ! ?i) \<le> ?key c" using m(2) that by blast
      ultimately show False using e by (simp add: preference_def)
    qed
    moreover have "upstream_due now s = (None, with_round s)" unfolding due using no by (simp only: if_False)
    ultimately show ?thesis using none [OF False] by blast
  qed
qed

lemma current_round_ok:
  assumes ok: "upstream_ok s" and free: "\<not> upstream_busy s"
  shows "upstream_ok (with_round s)" "up_active (with_round s) = None" "\<not> list_ex ca_pending (current_round s)" "up_local (with_round s) \<noteq> None"
proof -
  have n: "\<not> list_ex ca_pending (up_candidates s)" "up_active s = None" "up_local s \<noteq> None" using free unfolding upstream_busy_def by metis+
  have w: "map who (current_round s) = map who (up_candidates s)" by (simp add: current_round_def o_def)
  show n': "\<not> list_ex ca_pending (current_round s)" using n(1) by (auto simp: current_round_def list_ex_iff)
  then have f: "filter ca_pending (current_round s) = []" by (simp add: filter_empty_conv list_ex_iff)
  show "up_active (with_round s) = None" "up_local (with_round s) \<noteq> None" using n by (simp_all add: with_round_def)
  have d: "distinct (map who (current_round s))" "length (current_round s) \<le> 8"
    using ok unfolding w by (simp_all add: upstream_ok_def current_round_def)
  have "\<forall>c \<in> set (current_round s). m_role (ca_member c) = Star \<and> ca_failures c \<le> 100"
    using ok by (auto simp: upstream_ok_def current_round_def)
  then show "upstream_ok (with_round s)"
    using n n' f d unfolding upstream_ok_def by (auto simp: with_round_def list_ex_iff)
qed

lemma upstream_due_keeps:
  assumes ok: "upstream_ok s"
  shows "upstream_ok (snd (upstream_due now s)) \<and> mset (upstream_sessions (snd (upstream_due now s))) = mset (upstream_sessions s)"
proof (cases rule: upstream_due_cases [of s now])
  case busy
  then show ?thesis using ok by simp
next
  case none
  then show ?thesis using current_round_ok [OF ok none(1)] by (simp add: upstream_sessions_def with_round_def)
next
  case (chosen local ys c zs)
  note r = current_round_ok [OF ok chosen(1)]
  have cs: "up_candidates (with_round s) = ys @ c # zs" using chosen(3) by (simp add: with_round_def)
  have "upstream_ok ((with_round s)\<lparr>up_candidates := ys @ c\<lparr>ca_pending := True, ca_attempted := True\<rparr> # zs\<rparr>)"
  proof (rule upstream_ok_change [OF r(1) cs])
    show "m_role (ca_member (c\<lparr>ca_pending := True, ca_attempted := True\<rparr>)) = Star"
      "ca_failures (c\<lparr>ca_pending := True, ca_attempted := True\<rparr>) \<le> 100"
      using r(1) cs by (auto simp: upstream_ok_def)
    show "ca_pending c \<or> \<not> list_ex ca_pending (up_candidates (with_round s)) \<and> up_active (with_round s) = None"
      using r(2,3) by (simp add: with_round_def)
  qed simp_all
  then show ?thesis using chosen(6) by (simp add: upstream_sessions_def with_round_def)
qed

lemma upstream_policy_ops [simp]:
  "po_initialize (upstream_policy hash pton ntop) = upstream_initialize pton ntop" "po_refresh (upstream_policy hash pton ntop) = policy_refresh"
  "po_accept (upstream_policy hash pton ntop) = upstream_accept" "po_closed (upstream_policy hash pton ntop) = upstream_closed hash"
  "po_due (upstream_policy hash pton ntop) = upstream_due" "po_failed (upstream_policy hash pton ntop) = upstream_failed hash"
  "po_needs_refresh (upstream_policy hash pton ntop) = upstream_needs_refresh" "po_status (upstream_policy hash pton ntop) = upstream_status"
  by (simp_all add: upstream_policy_def)

lemma upstream_needs_refresh_keeps:
  "upstream_ok s \<Longrightarrow> upstream_ok (snd (upstream_needs_refresh now s)) \<and>
     mset (upstream_sessions (snd (upstream_needs_refresh now s))) = mset (upstream_sessions s)"
  by (cases "up_active s") (auto simp: upstream_needs_refresh_def upstream_ok_def upstream_sessions_def)

interpretation upstream_sessions: session_policy "upstream_policy hash pton ntop" upstream_ok upstream_sessions
proof (unfold_locales, unfold upstream_policy_ops, goal_cases)
  case 1 then show ?case by (rule upstream_initialize_error)
next
  case 2 then show ?case by (rule upstream_initialize_keeps)
next
  case 3 then show ?case by (simp add: policy_refresh_def)
next
  case 4 then show ?case by (simp add: policy_refresh_def fail_def)
next
  case 5 then show ?case using upstream_accept_error by blast
next
  case 6 then show ?case by (rule upstream_accept_done)
next
  case 7 then show ?case by (rule upstream_closed_keeps)
next
  case 8 then show ?case by (rule upstream_due_keeps)
next
  case 9 then show ?case by (rule upstream_failed_keeps)
next
  case 10 then show ?case by (rule upstream_needs_refresh_keeps)
qed

subsection \<open>Properties of the Planet policy\<close>

lemma upstream_active_member:
  assumes "upstream_ok s"
  shows "ps_active_member (upstream_status s) = None \<longleftrightarrow> upstream_sessions s = []"
proof -
  have "find_member p cs = None \<longleftrightarrow> p \<notin> set (map who cs)" for p cs by (induction cs) auto
  then show ?thesis using assms by (auto simp: upstream_status_def upstream_sessions_def upstream_ok_def split: option.split)
qed

text \<open>C20: a Planet has one upstream.  Under every sequence of calls with unique generations the policy keeps at most eight
  candidates with distinct principals, at most one of them being dialled, and none while a session is
  active; a runtime that follows the answers knows exactly the session the policy holds, which is at most one, and the status
  names an active member exactly when there is one.  A fresh policy starts in such a state.\<close>

theorem upstream_ledger:
  assumes "upstream_ok s" "distinct live" "mset live = mset (upstream_sessions s)" "policy_fresh (upstream_policy hash pton ntop) evs (live, s)"
    and run: "policy_run (upstream_policy hash pton ntop) evs (live, s) = (live', s')"
  shows "upstream_ok s' \<and> live' = upstream_sessions s' \<and> length live' \<le> 1
    \<and> (live' = [] \<longleftrightarrow> ps_active_member (upstream_status s') = None)
    \<and> length live' + length (filter ca_pending (up_candidates s')) \<le> 1 \<and> ps_candidates (upstream_status s') \<le> 8
    \<and> upstream_ok (upstream_new cf) \<and> upstream_sessions (upstream_new cf) = []"
proof -
  have r: "upstream_ok s' \<and> distinct live' \<and> mset live' = mset (upstream_sessions s')"
    using upstream_sessions.run_ledger [OF assms(1-4)] run by simp
  have "length live' = length (upstream_sessions s')" using r by (metis size_mset)
  then have l: "live' = upstream_sessions s'" using r
    by (cases "up_active s'") (auto simp: upstream_sessions_def mset_single_iff_right)
  have "length (upstream_sessions s') + length (filter ca_pending (up_candidates s')) \<le> 1"
    using r by (cases "up_active s'") (auto simp: upstream_sessions_def upstream_ok_def list_ex_iff filter_empty_conv)
  moreover have "ps_candidates (upstream_status s') \<le> 8" using r by (simp add: upstream_status_def upstream_ok_def)
  moreover have "upstream_ok (upstream_new cf) \<and> upstream_sessions (upstream_new cf) = []"
    by (simp add: upstream_new_def upstream_ok_def upstream_sessions_def)
  ultimately show ?thesis using r l upstream_active_member [of s'] by auto
qed

text \<open>C24: choosing an upstream.  With an upstream, a dial under way or no identity there is no answer and no change.
  Otherwise, when every candidate has been tried or is quarantined, a new round starts and a new list
  is asked for.  The answer is then the best of the candidates of the round that are neither quarantined nor tried nor backing off: one of the own
  group before others, then by the process's own rank, then by id; it alone is marked as being dialled and counts as
  tried, so that within a round no candidate is offered twice.  There is no answer exactly when no candidate qualifies.\<close>

theorem upstream_due_chooses:
  assumes due: "upstream_due now s = (answer, s')"
  shows "if upstream_busy s then answer = None \<and> s' = s
    else up_refresh s' = (up_refresh s \<or> new_round (up_candidates s))
      \<and> (answer = None \<longleftrightarrow> (\<forall>c \<in> set (current_round s). \<not> eligible now c))
      \<and> (answer = None \<longrightarrow> up_candidates s' = current_round s)
      \<and> (\<forall>m. answer = Some m \<longrightarrow> (\<exists>ys c zs. current_round s = ys @ c # zs \<and> ca_member c = m \<and> eligible now c
          \<and> up_candidates s' = ys @ c\<lparr>ca_pending := True, ca_attempted := True\<rparr> # zs
          \<and> (\<forall>d \<in> set (current_round s). eligible now d \<longrightarrow>
               (m_group m \<noteq> cf_group (up_config s), candidate_rank (m_principal m) (local_id s), m_id m)
               \<le> (m_group (ca_member d) \<noteq> cf_group (up_config s), candidate_rank (who d) (local_id s), m_id (ca_member d)))))"
proof (cases rule: upstream_due_cases [of s now])
  case busy
  then show ?thesis using due by simp
next
  case none
  then show ?thesis using due by (simp add: with_round_def)
next
  case (chosen local ys c zs)
  have l: "local_id s = m_id local" using chosen(2) by (simp add: local_id_def)
  have best: "(m_group (ca_member c) \<noteq> cf_group (up_config s), candidate_rank (who c) (m_id local), m_id (ca_member c))
       \<le> (m_group (ca_member d) \<noteq> cf_group (up_config s), candidate_rank (who d) (m_id local), m_id (ca_member d))"
    if "d \<in> set (current_round s)" "eligible now d" for d
    using chosen(4) that bspec [OF chosen(5) that(1)] by (simp add: preference_def)
  have r: "answer = Some (ca_member c)" "up_candidates s' = ys @ c\<lparr>ca_pending := True, ca_attempted := True\<rparr> # zs"
    "up_refresh s' = (up_refresh s \<or> new_round (up_candidates s))" using due chosen(6) by (auto simp: with_round_def)
  have some: "\<exists>d \<in> set (current_round s). eligible now d" using chosen(3,4) by auto
  have "\<exists>ys' c' zs'. current_round s = ys' @ c' # zs' \<and> ca_member c' = m \<and> eligible now c'
          \<and> up_candidates s' = ys' @ c'\<lparr>ca_pending := True, ca_attempted := True\<rparr> # zs'
          \<and> (\<forall>d \<in> set (current_round s). eligible now d \<longrightarrow>
               (m_group m \<noteq> cf_group (up_config s), candidate_rank (m_principal m) (m_id local), m_id m)
               \<le> (m_group (ca_member d) \<noteq> cf_group (up_config s), candidate_rank (who d) (m_id local), m_id (ca_member d)))"
    if "answer = Some m" for m
    using that r chosen(3,4) best by (intro exI [of _ ys] exI [of _ c] exI [of _ zs]) auto
  then show ?thesis using chosen(1) r some unfolding l by simp
qed

subsection \<open>Quarantine\<close>

definition barred :: "bytes \<Rightarrow> u64 \<Rightarrow> upstream \<Rightarrow> bool" where
  "barred p e s \<longleftrightarrow> (\<exists>c \<in> set (up_candidates s). who c = p \<and> (m_epoch (ca_member c) = e \<and> ca_quarantined c \<or> e < m_epoch (ca_member c)))"

fun retains :: "bytes \<Rightarrow> policy_event \<Rightarrow> bool" where
  "retains p (Initialize local members) \<longleftrightarrow> p \<in> set (map m_principal members)"
| "retains p ev \<longleftrightarrow> True"

lemma barred_mono:
  assumes "barred p e s"
    and "\<And>c. c \<in> set (up_candidates s) \<Longrightarrow> \<exists>c' \<in> set (up_candidates s'). ca_member c' = ca_member c \<and> (ca_quarantined c \<longrightarrow> ca_quarantined c')"
  shows "barred p e s'"
  using assms unfolding barred_def by metis

lemma change_first_keeps:
  assumes "c \<in> set xs" "\<And>x. ca_member (f x) = ca_member x \<and> (ca_quarantined x \<longrightarrow> ca_quarantined (f x))"
  shows "\<exists>c' \<in> set (change_first P f xs). ca_member c' = ca_member c \<and> (ca_quarantined c \<longrightarrow> ca_quarantined c')"
  using assms by (induction xs) auto

lemma barred_initialize:
  assumes ok: "upstream_ok s" and b: "barred p e s" and i: "upstream_initialize pton ntop local members s = (r, s')"
    and p: "p \<in> set (map m_principal members)"
  shows "barred p e s'"
proof -
  have d: "distinct (map who (up_candidates s))" using ok by (simp add: upstream_ok_def)
  obtain c where c: "c \<in> set (up_candidates s)" "who c = p" "m_epoch (ca_member c) = e \<and> ca_quarantined c \<or> e < m_epoch (ca_member c)"
    using b by (auto simp: barred_def)
  show ?thesis
  proof (cases rule: upstream_initialize_cases [OF i d])
    case 3
    obtain m where m: "m \<in> set members" "m_principal m = p" using p by auto
    let ?c = "inherited (up_candidates s) (candidate_new m)"
    have same: "old = c" if "old \<in> set (up_candidates s)" "who old = p" for old
      using that c d by (auto simp: distinct_map inj_on_def)
    have "?c \<in> set (up_candidates s')" using m(1) 3(7) by auto
    moreover have "who ?c = p \<and> (m_epoch (ca_member ?c) = e \<and> ca_quarantined ?c \<or> e < m_epoch (ca_member ?c))"
    proof (cases rule: inherited_cases [of "up_candidates s" "candidate_new m"])
      case 1
      then show ?thesis using c(1,2) m(2) by auto
    next
      case (2 old)
      have old: "old = c" by (rule same [OF 2(1)]) (use 2(2) m(2) in simp)
      have "e \<le> m_epoch (ca_member c)" using c(3) by auto
      then have "e < m_epoch m" using 2(3) unfolding old by simp
      then show ?thesis using 2(4) m(2) by simp
    next
      case (3 old)
      have old: "old = c" by (rule same [OF 3(1)]) (use 3(2) m(2) in simp)
      show ?thesis using 3(4) c(2,3) unfolding old by simp
    qed
    ultimately show ?thesis unfolding barred_def by blast
  qed (use b in auto)
qed

lemma barred_accept:
  assumes b: "barred p e s" and a: "upstream_accept now remote dir g expected s = (Inr c, s')"
  shows "barred p e s'"
proof -
  obtain ys x zs b' where x: "up_candidates s = ys @ x # zs" "supersedes remote (ca_member x) = Inr b'"
    "s' = s\<lparr>up_candidates := ys @ x\<lparr>ca_member := remote, ca_pending := False, ca_connected := now\<rparr> # zs, up_active := Some (m_principal remote, g)\<rparr>"
    by (rule upstream_accept_cases [OF a])
  let ?x = "x\<lparr>ca_member := remote, ca_pending := False, ca_connected := now\<rparr>"
  obtain c where c: "c \<in> set (up_candidates s)" "who c = p" "m_epoch (ca_member c) = e \<and> ca_quarantined c \<or> e < m_epoch (ca_member c)"
    using b by (auto simp: barred_def)
  note se = supersedes_keeps [OF x(2)]
  show ?thesis
  proof (cases "c = x")
    case True
    have "who ?x = p \<and> (m_epoch (ca_member ?x) = e \<and> ca_quarantined ?x \<or> e < m_epoch (ca_member ?x))"
    proof (cases b')
      case True
      have "e \<le> m_epoch (ca_member x)" using c(3) \<open>c = x\<close> by auto
      then have "e < m_epoch remote" using se(7) True by (meson le_less_trans)
      then show ?thesis using se(1) c(2) \<open>c = x\<close> by simp
    next
      case False
      then show ?thesis using se(6) c \<open>c = x\<close> by simp
    qed
    then show ?thesis unfolding barred_def using x(3) by (intro bexI [of _ ?x]) simp_all
  next
    case False
    then have "c \<in> set (up_candidates s')" using c(1) x by simp
    then show ?thesis unfolding barred_def using c by blast
  qed
qed

lemma barred_due:
  assumes "barred p e s"
  shows "barred p e (snd (upstream_due now s))"
proof (cases rule: upstream_due_cases [of s now])
  case busy
  then show ?thesis using assms by simp
next
  case none
  then show ?thesis using assms by (intro barred_mono [OF assms]) (auto simp: with_round_def current_round_def)
next
  case (chosen local ys c zs)
  have r: "\<exists>x' \<in> set (current_round s). ca_member x' = ca_member x \<and> (ca_quarantined x \<longrightarrow> ca_quarantined x')"
    if "x \<in> set (up_candidates s)" for x using that by (auto simp: current_round_def)
  show ?thesis
  proof (rule barred_mono [OF assms])
    fix x assume "x \<in> set (up_candidates s)"
    from r [OF this] obtain x' where x': "x' \<in> set (ys @ c # zs)" "ca_member x' = ca_member x" "ca_quarantined x \<longrightarrow> ca_quarantined x'"
      unfolding chosen(3) by blast
    let ?c = "c\<lparr>ca_pending := True, ca_attempted := True\<rparr>"
    have "up_candidates (snd (upstream_due now s)) = ys @ ?c # zs" using chosen(6) by simp
    then show "\<exists>y \<in> set (up_candidates (snd (upstream_due now s))). ca_member y = ca_member x \<and> (ca_quarantined x \<longrightarrow> ca_quarantined y)"
      using x' by (cases "x' = c") auto
  qed
qed

lemma barred_step:
  assumes ok: "upstream_ok s" and b: "barred p e s" and st: "policy_step (upstream_policy hash pton ntop) ev s = (opened, cancelled, s')"
    and r: "retains p ev"
  shows "barred p e s'"
proof (cases ev)
  case (Initialize local members)
  then show ?thesis using st r barred_initialize [OF ok b, of pton ntop local members] by (auto simp: prod_eq_iff)
next
  case (Refresh local members)
  then show ?thesis using st b by (auto simp: policy_refresh_def split: sum.splits)
next
  case (Accept now remote dir g expected)
  obtain x s1 where x: "upstream_accept now remote dir g expected s = (x, s1)" by force
  show ?thesis
  proof (cases x)
    case (Inl err)
    then have "s1 = s" using upstream_accept_error x by blast
    then show ?thesis using x Inl st Accept b by simp
  next
    case (Inr c)
    then show ?thesis using barred_accept [OF b] x st Accept by auto
  qed
next
  case (Closed g code now)
  have "s' = upstream_closed hash g code now s" using st Closed by simp
  moreover have "barred p e (upstream_closed hash g code now s)"
    by (rule barred_mono [OF b], unfold upstream_closed_def)
      (auto split: option.split intro!: change_first_keeps)
  ultimately show ?thesis by simp
next
  case (Due now)
  then show ?thesis using st barred_due [OF b, of now] by auto
next
  case (Failed target code now)
  then have "s' = upstream_failed hash target code now s" using st by simp
  moreover have "barred p e (upstream_failed hash target code now s)"
    by (rule barred_mono [OF b]) (auto simp: upstream_failed_def intro!: change_first_keeps)
  ultimately show ?thesis by simp
next
  case (Needs_Refresh now)
  then show ?thesis using st by (intro barred_mono [OF b]) (auto simp: upstream_needs_refresh_def split: if_splits)
qed

lemma barred_run:
  assumes "upstream_ok s" "barred p e s" "list_all (retains p) evs" "policy_run (upstream_policy hash pton ntop) evs (live, s) = (live', s')"
  shows "upstream_ok s' \<and> barred p e s'"
  using assms
proof (induction evs arbitrary: live s)
  case (Cons ev evs)
  obtain opened cancelled s1 where st: "policy_step (upstream_policy hash pton ntop) ev s = (opened, cancelled, s1)" by (metis prod_cases3)
  have "upstream_ok s1" using upstream_sessions.step_sessions [OF Cons.prems(1) st] by simp
  moreover have "barred p e s1" using barred_step [OF Cons.prems(1,2) st] Cons.prems(3) by simp
  ultimately show ?case using Cons.IH Cons.prems(3,4) st by simp
qed simp

lemma barred_not_due:
  assumes ok: "upstream_ok s" and b: "barred p e s" and due: "upstream_due now s = (Some m, s')" and m: "m_principal m = p"
  shows "e < m_epoch m"
proof (cases rule: upstream_due_cases [of s now])
  case (chosen local ys c zs)
  have mc: "m = ca_member c" using due chosen(6) by simp
  have "c \<in> set (current_round s)" using chosen(3) by simp
  then obtain c0 where c0: "c0 \<in> set (up_candidates s)" "ca_member c0 = ca_member c" "ca_quarantined c0 = ca_quarantined c"
    by (auto simp: current_round_def split: if_splits)
  obtain d where d: "d \<in> set (up_candidates s)" "who d = p" "m_epoch (ca_member d) = e \<and> ca_quarantined d \<or> e < m_epoch (ca_member d)"
    using b by (auto simp: barred_def)
  have "d = c0" using d c0 mc m ok by (auto simp: upstream_ok_def distinct_map inj_on_def)
  then show ?thesis using d c0 chosen(4) mc by (auto simp: eligible_def)
qed (use due in auto)

text \<open>C15: quarantine.  A candidate whose dial fails for its identity, the protocol or a conflict is not offered again, whatever
  calls follow, until the directory or the peer itself shows a later epoch of the same principal, provided no
  accepted list omits it in between.\<close>

theorem upstream_quarantine:
  assumes ok: "upstream_ok s" and c: "c \<in> set (up_candidates s)" and code: "code \<in> {Identity, Protocol, Conflict}"
    and evs: "list_all (retains (who c)) evs"
    and run: "policy_run (upstream_policy hash pton ntop) evs (live, upstream_failed hash (ca_member c) code t s) = (live', s')"
    and due: "upstream_due now s' = (Some m, s'')" and m: "m_principal m = who c"
  shows "m_epoch (ca_member c) < m_epoch m"
proof -
  let ?s = "upstream_failed hash (ca_member c) code t s"
  have "barred (who c) (m_epoch (ca_member c)) ?s"
  proof (cases rule: change_first_split [where xs = "up_candidates s" and P = "\<lambda>x. ca_member x = ca_member c"
        and f = "record_failure hash (up_config s) (local_id s) code t"])
    case none
    then show ?thesis using c by auto
  next
    case (one ys x zs)
    then show ?thesis using code unfolding barred_def upstream_failed_def by (simp add: one(4))
  qed
  then show ?thesis using barred_run [OF _ _ evs run] upstream_failed_keeps [OF ok] barred_not_due [OF _ _ due m] by blast
qed

definition sample_upstream :: upstream where
  "sample_upstream = \<lparr>up_config = sample_config, up_local = Some (sample_member ''p'' 9),
     up_candidates = [candidate_new (sample_member ''a'' 1), candidate_new (sample_member ''b'' 2)],
     up_active = None, up_refresh = False, up_next_refresh = 0\<rparr>"

lemma sample_upstream_ok: "upstream_ok sample_upstream"
  by (simp add: sample_upstream_def upstream_ok_def sample_member_def)

theorem upstream_ledger_witness:
  "\<exists>live s. policy_run (upstream_policy (\<lambda>_. 7) one_pton one_ntop)
     [Due 0, Accept 1 (sample_member ''b'' 2) Outbound 5 (Some (sample_member ''b'' 2)), Due 2] ([], sample_upstream) = (live, s)
     \<and> length live \<le> 1 \<and> upstream_ok s"
proof -
  let ?P = "upstream_policy (\<lambda>_. 7) one_pton one_ntop"
  let ?evs = "[Due 0, Accept 1 (sample_member ''b'' 2) Outbound 5 (Some (sample_member ''b'' 2)), Due 2]"
  have f: "policy_fresh ?P ?evs ([], sample_upstream)" by code_simp
  obtain live s where r: "policy_run ?P ?evs ([], sample_upstream) = (live, s)" by force
  have "mset [] = mset (upstream_sessions sample_upstream)" by (simp add: upstream_sessions_def sample_upstream_def)
  from upstream_ledger [OF sample_upstream_ok _ this f r] show ?thesis using r by (metis distinct.simps(1))
qed

theorem upstream_due_chooses_witness: "\<exists>m s'. upstream_due 0 sample_upstream = (Some m, s')"
proof -
  obtain answer s' where d: "upstream_due 0 sample_upstream = (answer, s')" by force
  have "\<not> upstream_busy sample_upstream" by (simp add: upstream_busy_def sample_upstream_def)
  moreover have "\<exists>c \<in> set (current_round sample_upstream). eligible 0 c"
    by (simp add: current_round_def new_round_def sample_upstream_def eligible_def candidate_new_def)
  ultimately have "answer \<noteq> None" using upstream_due_chooses [OF d] by simp
  then show ?thesis using d by blast
qed

theorem upstream_quarantine_witness:
  "\<not> (\<exists>s'. upstream_due 0 (upstream_failed (\<lambda>_. 7) (sample_member ''a'' 1) Identity 0 sample_upstream) = (Some (sample_member ''a'' 1), s'))"
  using upstream_quarantine [of sample_upstream "candidate_new (sample_member ''a'' 1)" Identity "[]" "\<lambda>_. 7" one_pton one_ntop "[]" 0 "[]"
      "upstream_failed (\<lambda>_. 7) (sample_member ''a'' 1) Identity 0 sample_upstream" 0 "sample_member ''a'' 1"] sample_upstream_ok
  by (auto simp: sample_upstream_def)

text \<open>A list that omits a quarantined member makes the policy forget it: the next list brings the same epoch back
  without quarantine or delay.\<close>

theorem upstream_forgets:
  fixes a defines "a \<equiv> sample_member ''a'' 1"
  defines "q \<equiv> upstream_failed (\<lambda>_. 7) a Identity 0 sample_upstream"
  defines "s1 \<equiv> snd (upstream_initialize one_pton one_ntop (sample_member ''p'' 9) [] q)"
  defines "s2 \<equiv> snd (upstream_initialize one_pton one_ntop (sample_member ''p'' 9) [a] s1)"
  shows "ca_quarantined (hd (up_candidates q)) \<and> ca_member (hd (up_candidates q)) = a \<and> fst (upstream_due 0 s2) = Some a"
proof -
  have q: "up_candidates q = [record_failure (\<lambda>_. 7) sample_config ''p'' Identity 0 (candidate_new a), candidate_new (sample_member ''b'' 2)]"
    "up_active q = None" "up_local q = Some (sample_member ''p'' 9)" "up_config q = sample_config"
    by (simp_all add: q_def a_def upstream_failed_def sample_upstream_def local_id_def) (simp add: sample_member_def)
  have s1: "s1 = q\<lparr>up_candidates := [], up_local := Some (sample_member ''p'' 9)\<rparr>"
    using q by (simp add: s1_def upstream_initialize_def)
  have "\<not> isl (member_validate one_pton one_ntop a)" using sample_valid [of 1 "''a''"] by (simp add: a_def)
  then have "candidate_loop one_pton one_ntop sample_config (sample_member ''p'' 9) [a] None [] = Inr [candidate_new a]"
    by (simp add: a_def sample_member_def sample_config_def)
  then have s2: "up_candidates s2 = [candidate_new a]" "up_active s2 = None" "up_local s2 = Some (sample_member ''p'' 9)"
    using q s1 by (simp_all add: s2_def upstream_initialize_def)
  then have "\<not> upstream_busy s2" "current_round s2 = [candidate_new a]" "eligible 0 (candidate_new a)"
    by (simp_all add: upstream_busy_def current_round_def new_round_def eligible_def candidate_new_def)
  then have "fst (upstream_due 0 s2) = Some a" by (cases rule: upstream_due_cases [of s2 0]) (auto simp: append_eq_Cons_conv)
  then show ?thesis using q by simp
qed

end
