(* ===== verification/Almanac.thy ===== *)
theory Almanac
  imports Store "HOL-Library.AList"
begin

text \<open>
  The replica of one configuration scope (\<^verbatim>\<open>astra/star/src/almanac.hpp\<close>, \<^verbatim>\<open>almanac.cpp\<close>): full baselines prepared aside and installed at once,
  single-key changes in strict version order, a bounded history for replay, and views that share
  pages with the index.  A \<^verbatim>\<open>std::unordered_map\<close> is the list of its entries.  Calls run under the scope's lock and are
  atomic; which allocations succeed (\<open>grants\<close>) and \<^verbatim>\<open>sizeof(Change)\<close> are arguments.  \<^verbatim>\<open>size_t\<close> values are natural numbers: under the invariant none
  of the subtractions goes below zero, and the code's own overflow test is part of the model.
\<close>

subsection \<open>Data\<close>

datatype almanac_error = Al_Input | Al_Capacity | Al_Duplicate | Al_Version | Al_Unready | Al_History

text \<open>A call returns a value, returns an error, or throws because memory or slots ran out.\<close>

datatype 'a outcome = Done 'a | Refused almanac_error | Thrown

record limits =
  li_records :: nat
  li_bytes :: nat
  li_history :: nat
  li_backlog :: nat

record change =
  ch_key :: string
  ch_value :: "bytes option"
  ch_version :: u64

record row =
  rw_value :: bytes
  rw_slot :: u64

record scope_state =
  ss_entries :: "(string \<times> row) list"
  ss_index :: "(string, cell) pages"
  ss_version :: u64
  ss_bytes :: nat

record draft =
  dr_state :: "scope_state option"
  dr_limits :: limits

record almanac =
  an_limits :: limits
  an_state :: scope_state
  an_ready :: bool
  an_history :: "change list"
  an_history_bytes :: nat

record alview =
  av_root :: "(string, cell) view"
  av_version :: u64
  av_bytes :: nat

record usage =
  us_bytes :: nat
  us_history :: nat
  us_version :: "u64 option"

text \<open>Which allocations succeed: the shared value, the shared key, the container for retired changes, the map entry, the
  pages, the history slot.\<close>

record grants =
  gr_value :: bool
  gr_key :: bool
  gr_retired :: bool
  gr_entry :: bool
  gr_roots :: "nat \<Rightarrow> bool"
  gr_pages :: "nat \<Rightarrow> bool"
  gr_history :: bool

definition state_new :: "u64 \<Rightarrow> scope_state" where
  "state_new v = \<lparr>ss_entries = [], ss_index = pages_new, ss_version = v, ss_bytes = 0\<rparr>"

definition almanac_new :: "limits \<Rightarrow> almanac" where
  "almanac_new li = \<lparr>an_limits = li, an_state = state_new 0, an_ready = False, an_history = [], an_history_bytes = 0\<rparr>"

definition almanac_valid :: "string \<Rightarrow> bytes option \<Rightarrow> bool" where
  "almanac_valid key value \<longleftrightarrow> key \<noteq> [] \<and> length key \<le> 1024 \<and> CHR 0x00 \<notin> set key
     \<and> (case value of None \<Rightarrow> True | Some v \<Rightarrow> length v \<le> 1024 * 1024)"

text \<open>\<^verbatim>\<open>sizeof(Change)\<close> is an argument.\<close>

definition change_bytes :: "nat \<Rightarrow> change \<Rightarrow> nat" where
  "change_bytes header c = header + length (ch_key c) + (case ch_value c of None \<Rightarrow> 0 | Some v \<Rightarrow> length v)"

definition fixed :: "bytes \<Rightarrow> cell" where
  "fixed v = \<lparr>c_value = v, c_deadline = None\<rparr>"

subsection \<open>Preparing a baseline\<close>

definition almanac_prepare :: "u64 \<Rightarrow> almanac \<Rightarrow> draft" where
  "almanac_prepare v a = \<lparr>dr_state = Some (state_new v), dr_limits = an_limits a\<rparr>"

definition draft_set :: "grants \<Rightarrow> string \<Rightarrow> bytes \<Rightarrow> draft \<Rightarrow> unit outcome \<times> draft" where
  "draft_set gr key value d =
     (case dr_state d of
        None \<Rightarrow> (Refused Al_Input, d)
      | Some s \<Rightarrow>
          if \<not> almanac_valid key (Some value) then (Refused Al_Input, d)
          else if ss_version s = 0 then (Refused Al_Version, d)
          else if map_of (ss_entries s) key \<noteq> None then (Refused Al_Duplicate, d)
          else let added = length key + length value
               in if length (ss_entries s) \<ge> li_records (dr_limits d) \<or> added > li_bytes (dr_limits d) - ss_bytes s
                  then (Refused Al_Capacity, d)
                  else if \<not> gr_key gr \<or> \<not> gr_value gr then (Thrown, d)
                  else case page_next (ss_index s) of
                    Inl _ \<Rightarrow> (Thrown, d)
                  | Inr slot \<Rightarrow>
                      if \<not> gr_entry gr then (Thrown, d)
                      else let (prepared, index) = page_prepare (gr_roots gr) (gr_pages gr) slot (ss_index s)
                           in if \<not> prepared then (Thrown, d\<lparr>dr_state := Some (s\<lparr>ss_index := index\<rparr>)\<rparr>)
                              else (Done (), d\<lparr>dr_state := Some (s\<lparr>
                                     ss_entries := AList.update key \<lparr>rw_value = value, rw_slot = slot\<rparr> (ss_entries s),
                                     ss_index := page_set slot (Some key) (fixed value) index,
                                     ss_bytes := ss_bytes s + added\<rparr>)\<rparr>))"

definition almanac_reset :: "draft \<Rightarrow> almanac \<Rightarrow> bool outcome \<times> draft \<times> almanac" where
  "almanac_reset d a =
     (case dr_state d of
        None \<Rightarrow> (Refused Al_Input, d, a)
      | Some s \<Rightarrow>
          if length (ss_entries s) > li_records (an_limits a) \<or> ss_bytes s > li_bytes (an_limits a) then (Refused Al_Capacity, d, a)
          else if an_ready a \<and> ss_version s < ss_version (an_state a) then (Refused Al_Version, d, a)
          else if an_ready a \<and> ss_version s = ss_version (an_state a) then (Done False, d, a)
          else (Done True, d\<lparr>dr_state := None\<rparr>, a\<lparr>an_state := s, an_history := [], an_history_bytes := 0, an_ready := True\<rparr>))"

subsection \<open>Applying a change\<close>

text \<open>The loop that counts the changes to evict: the costs of those still kept, the new one last, and the bytes they
  take.\<close>

fun evict :: "nat \<Rightarrow> nat \<Rightarrow> nat list \<Rightarrow> nat \<Rightarrow> nat \<Rightarrow> nat \<times> nat" where
  "evict history budget [] backlog evicted = (evicted, backlog)"
| "evict history budget (c # cs) backlog evicted =
     (if length (c # cs) > history \<or> backlog > budget then evict history budget cs (backlog - c) (evicted + 1)
      else (evicted, backlog))"

definition change_commit :: "change \<Rightarrow> u64 \<Rightarrow> bool \<Rightarrow> (string, cell) pages \<Rightarrow> scope_state \<Rightarrow> scope_state" where
  "change_commit c slot inserted index s =
     (case ch_value c of
        Some v \<Rightarrow>
          s\<lparr>ss_entries := AList.update (ch_key c) \<lparr>rw_value = v, rw_slot = slot\<rparr> (ss_entries s),
            ss_index := page_set slot (if inserted then Some (ch_key c) else None) (fixed v) index\<rparr>
      | None \<Rightarrow>
          s\<lparr>ss_entries := AList.delete (ch_key c) (ss_entries s), ss_index := page_erase slot index\<rparr>)"

definition almanac_apply :: "nat \<Rightarrow> grants \<Rightarrow> u64 \<Rightarrow> string \<Rightarrow> bytes option \<Rightarrow> nat \<Rightarrow> almanac
    \<Rightarrow> bool outcome \<times> change option \<times> almanac" where
  "almanac_apply header gr version key value retention a =
     (if \<not> almanac_valid key value then (Refused Al_Input, None, a)
      else if version = 0 then (Refused Al_Version, None, a)
      else if value \<noteq> None \<and> \<not> gr_value gr then (Thrown, None, a)
      else if \<not> an_ready a then (Refused Al_Unready, None, a)
      else let s = an_state a; c = \<lparr>ch_key = key, ch_value = value, ch_version = version\<rparr>; entry = map_of (ss_entries s) key
      in if version \<le> ss_version s then (Done False, None, a)
         else if ss_version s = - 1 \<or> version \<noteq> ss_version s + 1 then (Refused Al_Version, None, a)
         else if entry = None \<and> \<not> gr_key gr then (Thrown, None, a)
         else let kept = (case entry of None \<Rightarrow> ss_bytes s | Some e \<Rightarrow> ss_bytes s - (length key + length (rw_value e)));
                  added = (case value of None \<Rightarrow> 0 | Some v \<Rightarrow> length key + length v);
                  cost = change_bytes header c
         in if value \<noteq> None \<and> (entry = None \<and> length (ss_entries s) \<ge> li_records (an_limits a) \<or> added > li_bytes (an_limits a) - kept)
            then (Refused Al_Capacity, None, a)
            else if cost > (2 ^ 64 - 1) - an_history_bytes a \<or> length (an_history a) = 2 ^ 64 - 1 then (Refused Al_Capacity, None, a)
            else let (evicted, backlog) = evict (li_history (an_limits a)) (min (li_backlog (an_limits a)) retention)
                       (map (change_bytes header) (an_history a) @ [cost]) (an_history_bytes a + cost) 0;
                     slot = (case entry of Some e \<Rightarrow> Inr (Some (rw_slot e))
                       | None \<Rightarrow> if value = None then Inr None else map_sum id Some (page_next (ss_index s)))
            in if evicted > 0 \<and> \<not> gr_retired gr then (Thrown, None, a)
               else case slot of
                 Inl _ \<Rightarrow> (Thrown, None, a)
               | Inr place' \<Rightarrow>
                   if entry = None \<and> place' \<noteq> None \<and> \<not> gr_entry gr then (Thrown, None, a)
                   else let (prepared, index) = (case place' of None \<Rightarrow> (True, ss_index s)
                              | Some n \<Rightarrow> page_prepare (gr_roots gr) (gr_pages gr) n (ss_index s))
                        in if \<not> prepared \<or> \<not> gr_history gr then (Thrown, None, a\<lparr>an_state := s\<lparr>ss_index := index\<rparr>\<rparr>)
                           else let s1 = (case place' of None \<Rightarrow> s | Some n \<Rightarrow> change_commit c n (entry = None) index s)
                                in (Done True, Some c,
                                    a\<lparr>an_state := s1\<lparr>ss_bytes := kept + added, ss_version := version\<rparr>,
                                      an_history_bytes := backlog,
                                      an_history := drop evicted (an_history a @ [c])\<rparr>))"

subsection \<open>Reading\<close>

definition almanac_view :: "almanac \<Rightarrow> alview outcome" where
  "almanac_view a =
     (if \<not> an_ready a then Refused Al_Unready
      else Done \<lparr>av_root = capture (ss_index (an_state a)), av_version = ss_version (an_state a), av_bytes = ss_bytes (an_state a)\<rparr>)"

definition almanac_find :: "string \<Rightarrow> almanac \<Rightarrow> (u64 \<times> bytes option) outcome" where
  "almanac_find key a =
     (if \<not> almanac_valid key None then Refused Al_Input
      else if \<not> an_ready a then Refused Al_Unready
      else Done (ss_version (an_state a), map_option rw_value (map_of (ss_entries (an_state a)) key)))"

definition almanac_replay :: "bool \<Rightarrow> u64 \<Rightarrow> almanac \<Rightarrow> (u64 \<times> change list) outcome" where
  "almanac_replay memory since a =
     (if \<not> an_ready a then Refused Al_Unready
      else if since > ss_version (an_state a) then Refused Al_Version
      else if since = ss_version (an_state a) then Done (ss_version (an_state a), [])
      else if an_history a = [] \<or> since < ch_version (hd (an_history a)) - 1 then Refused Al_History
      else if \<not> memory then Thrown
      else Done (ss_version (an_state a), dropWhile (\<lambda>c. ch_version c \<le> since) (an_history a)))"

definition almanac_usage :: "almanac \<Rightarrow> usage" where
  "almanac_usage a = \<lparr>us_bytes = ss_bytes (an_state a), us_history = an_history_bytes a,
     us_version = (if an_ready a then Some (ss_version (an_state a)) else None)\<rparr>"

end
