(* ===== verification/Almanac_State.thy ===== *)
theory Almanac_State
  imports Almanac
begin

text \<open>
  The invariant of a scope, eviction from the history, and what preparing, installing and applying do.
\<close>

subsection \<open>Rows\<close>

definition row_bytes :: "string \<times> row \<Rightarrow> nat" where
  "row_bytes x = length (fst x) + length (rw_value (snd x))"

abbreviation rows_bytes :: "(string \<times> row) list \<Rightarrow> nat" where
  "rows_bytes es \<equiv> sum_list (map row_bytes es)"

lemma update_unknown:
  assumes "map_of es k = None"
  shows "rows_bytes (AList.update k r es) = rows_bytes es + row_bytes (k, r)" "length (AList.update k r es) = Suc (length es)"
  using assms by (induction es) (auto split: if_splits)

lemma update_known:
  assumes "map_of es k = Some r0"
  shows "rows_bytes (AList.update k r es) + row_bytes (k, r0) = rows_bytes es + row_bytes (k, r)" "length (AList.update k r es) = length es"
  using assms by (induction es) (auto split: if_splits)

lemma delete_known:
  assumes "map_of es k = Some r0" "distinct (map fst es)"
  shows "rows_bytes (AList.delete k es) + row_bytes (k, r0) = rows_bytes es" "length (AList.delete k es) \<le> length es"
proof -
  have "rows_bytes (AList.delete k es) + row_bytes (k, r0) = rows_bytes es"
    using assms
  proof (induction es)
    case (Cons x es)
    show ?case
    proof (cases "fst x = k")
      case True
      then have "k \<notin> fst ` set es" using Cons.prems(2) by auto
      moreover have "x = (k, r0)" using Cons.prems(1) True by (cases x) auto
      ultimately show ?thesis by (simp add: delete_id)
    next
      case False
      then show ?thesis using Cons by (cases x) auto
    qed
  qed simp
  then show "rows_bytes (AList.delete k es) + row_bytes (k, r0) = rows_bytes es" .
  show "length (AList.delete k es) \<le> length es" by (rule length_delete_le)
qed

lemma known_bytes: "map_of es k = Some r \<Longrightarrow> row_bytes (k, r) \<le> rows_bytes es"
  by (induction es) (auto split: if_splits)

subsection \<open>Eviction\<close>

lemma evict_spec:
  "\<exists>k \<le> length cs. evict h b cs (sum_list cs) n = (n + k, sum_list (drop k cs)) \<and> length cs - k \<le> h \<and> sum_list (drop k cs) \<le> b
     \<and> (\<forall>j < k. h < length cs - j \<or> b < sum_list (drop j cs))"
proof (induction cs arbitrary: n)
  case Nil
  then show ?case by simp
next
  case (Cons c cs)
  show ?case
  proof (cases "length (c # cs) > h \<or> sum_list (c # cs) > b")
    case True
    obtain k where k: "k \<le> length cs" "evict h b cs (sum_list cs) (n + 1) = (n + 1 + k, sum_list (drop k cs))" "length cs - k \<le> h"
      "sum_list (drop k cs) \<le> b" "\<forall>j < k. h < length cs - j \<or> b < sum_list (drop j cs)"
      using Cons.IH [of "n + 1"] by blast
    have "\<forall>j < Suc k. h < length (c # cs) - j \<or> b < sum_list (drop j (c # cs))"
    proof (intro allI impI)
      fix j assume "j < Suc k"
      then show "h < length (c # cs) - j \<or> b < sum_list (drop j (c # cs))" using True k(5) by (cases j) auto
    qed
    then show ?thesis using True k by (intro exI [of _ "Suc k"]) auto
  next
    case False
    then show ?thesis by (intro exI [of _ 0]) auto
  qed
qed

subsection \<open>Invariants\<close>

definition slots_of :: "(string \<times> row) list \<Rightarrow> string \<Rightarrow> (u64 \<times> cell) option" where
  "slots_of es k = map_option (\<lambda>r. (rw_slot r, fixed (rw_value r))) (map_of es k)"

definition scope_ok :: "limits \<Rightarrow> scope_state \<Rightarrow> bool" where
  "scope_ok li s \<longleftrightarrow> distinct (map fst (ss_entries s)) \<and> agrees pages_ok page_find (slots_of (ss_entries s)) (ss_index s)
     \<and> ss_bytes s = rows_bytes (ss_entries s) \<and> ss_bytes s \<le> li_bytes li \<and> length (ss_entries s) \<le> li_records li
     \<and> (ss_version s = 0 \<longrightarrow> ss_entries s = [])"

definition backlog_ok :: "nat \<Rightarrow> almanac \<Rightarrow> bool" where
  "backlog_ok header a \<longleftrightarrow> (\<forall>i < length (an_history a). unat (ch_version (an_history a ! i)) + (length (an_history a) - 1 - i) = unat (ss_version (an_state a)))
     \<and> length (an_history a) \<le> unat (ss_version (an_state a))
     \<and> an_history_bytes a = sum_list (map (change_bytes header) (an_history a))
     \<and> length (an_history a) \<le> li_history (an_limits a) \<and> an_history_bytes a \<le> li_backlog (an_limits a)"

definition almanac_ok :: "nat \<Rightarrow> almanac \<Rightarrow> bool" where
  "almanac_ok header a \<longleftrightarrow> scope_ok (an_limits a) (an_state a) \<and> backlog_ok header a \<and> (\<not> an_ready a \<longrightarrow> an_history a = [])"

definition draft_ok :: "draft \<Rightarrow> bool" where
  "draft_ok d \<longleftrightarrow> (case dr_state d of None \<Rightarrow> True | Some s \<Rightarrow> scope_ok (dr_limits d) s)"

definition scope_data :: "scope_state \<Rightarrow> string \<Rightarrow> bytes option" where
  "scope_data s k = map_option rw_value (map_of (ss_entries s) k)"

lemma slots_of_update: "slots_of (AList.update k r es) = (slots_of es)(k \<mapsto> (rw_slot r, fixed (rw_value r)))"
  by (rule ext) (simp add: slots_of_def update_conv')

lemma slots_of_delete: "slots_of (AList.delete k es) = (slots_of es)(k := None)"
  by (rule ext) (simp add: slots_of_def delete_conv')

lemma state_new_ok: "scope_ok li (state_new v)"
  by (simp add: scope_ok_def state_new_def agrees_def slots_of_def page_new_ok)

lemma scope_ok_index:
  assumes "scope_ok li s" "page_prepare rs ps n (ss_index s) = (b, index)"
  shows "scope_ok li (s\<lparr>ss_index := index\<rparr>)"
  using assms pages_index.agrees_prepare [of "slots_of (ss_entries s)" "ss_index s" rs ps n b index] by (simp add: scope_ok_def)

lemma almanac_new_ok: "almanac_ok header (almanac_new li)"
  using state_new_ok [of li 0] by (simp add: almanac_ok_def almanac_new_def backlog_ok_def)

lemma draft_set_spec:
  assumes ok: "draft_ok d" and r: "draft_set gr key value d = (out, d')"
  shows "draft_ok d' \<and> dr_limits d' = dr_limits d
    \<and> (out \<noteq> Done () \<longrightarrow> map_option scope_data (dr_state d') = map_option scope_data (dr_state d))
    \<and> (out = Done () \<longrightarrow> (\<exists>s s'. dr_state d = Some s \<and> dr_state d' = Some s' \<and> scope_data s key = None \<and> scope_data s' = (scope_data s)(key \<mapsto> value)))"
proof (cases "dr_state d")
  case None
  then show ?thesis using ok r by (auto simp: draft_set_def)
next
  case (Some s)
  have so: "scope_ok (dr_limits d) s" using ok Some by (simp add: draft_ok_def)
  let ?added = "length key + length value"
  show ?thesis
  proof (cases "\<not> almanac_valid key (Some value) \<or> ss_version s = 0 \<or> map_of (ss_entries s) key \<noteq> None
      \<or> length (ss_entries s) \<ge> li_records (dr_limits d) \<or> ?added > li_bytes (dr_limits d) - ss_bytes s
      \<or> \<not> gr_key gr \<or> \<not> gr_value gr \<or> isl (page_next (ss_index s)) \<or> \<not> gr_entry gr")
    case True
    then have "d' = d \<and> out \<noteq> Done ()"
      using r Some by (auto simp: draft_set_def Let_def split: if_splits sum.splits)
    then show ?thesis using ok by auto
  next
    case False
    then obtain slot where slot: "page_next (ss_index s) = Inr slot" by (metis obj_sumE sum.disc(1))
    obtain b index where p: "page_prepare (gr_roots gr) (gr_pages gr) slot (ss_index s) = (b, index)" by force
    have new: "map_of (ss_entries s) key = None" using False by blast
    let ?s = "s\<lparr>ss_entries := AList.update key \<lparr>rw_value = value, rw_slot = slot\<rparr> (ss_entries s),
                ss_index := page_set slot (Some key) (fixed value) index, ss_bytes := ss_bytes s + ?added\<rparr>"
    have d': "(out, d') = (if \<not> b then (Thrown, d\<lparr>dr_state := Some (s\<lparr>ss_index := index\<rparr>)\<rparr>) else (Done (), d\<lparr>dr_state := Some ?s\<rparr>))"
      using r Some False slot p by (simp add: draft_set_def Let_def)
    show ?thesis
    proof (cases b)
      case False
      then show ?thesis using d' scope_ok_index [OF so p] Some by (simp add: draft_ok_def scope_data_def fun_eq_iff)
    next
      case True
      then have pt: "page_prepare (gr_roots gr) (gr_pages gr) slot (ss_index s) = (True, index)" using p by simp
      have "agrees pages_ok page_find ((slots_of (ss_entries s))(key \<mapsto> (slot, fixed value))) (page_set slot (Some key) (fixed value) index)"
        by (rule pages_index.agrees_add [OF _ slot pt]) (use so new in \<open>simp_all add: scope_ok_def slots_of_def\<close>)
      then have "scope_ok (dr_limits d) ?s"
        using so update_unknown [OF new] \<open>\<not> (_ \<or> _)\<close>
        by (auto simp: scope_ok_def slots_of_update row_bytes_def distinct_update)
      moreover have "scope_data ?s = (scope_data s)(key \<mapsto> value)" by (rule ext) (simp add: scope_data_def update_conv')
      ultimately show ?thesis using d' True Some new by (simp add: draft_ok_def scope_data_def)
    qed
  qed
qed

lemma almanac_reset_spec:
  assumes ok: "almanac_ok header a" "draft_ok d" and r: "almanac_reset d a = (out, d', a')"
  shows "almanac_ok header a' \<and> an_limits a' = an_limits a \<and> draft_ok d'
    \<and> (out \<noteq> Done True \<longrightarrow> a' = a \<and> d' = d)
    \<and> (out = Done True \<longrightarrow> (\<exists>s. dr_state d = Some s \<and> an_state a' = s \<and> an_ready a' \<and> an_history a' = [] \<and> dr_state d' = None
         \<and> (an_ready a \<longrightarrow> ss_version (an_state a) < ss_version s)))"
proof (cases "dr_state d")
  case None
  then show ?thesis using ok r by (auto simp: almanac_reset_def)
next
  case (Some s)
  have so: "scope_ok (dr_limits d) s" using ok(2) Some by (simp add: draft_ok_def)
  show ?thesis
  proof (cases "length (ss_entries s) > li_records (an_limits a) \<or> ss_bytes s > li_bytes (an_limits a) \<or> an_ready a \<and> ss_version s \<le> ss_version (an_state a)")
    case True
    then have "a' = a \<and> d' = d \<and> out \<noteq> Done True" using r Some by (auto simp: almanac_reset_def split: if_splits)
    then show ?thesis using ok by auto
  next
    case False
    then have a': "out = Done True" "d' = d\<lparr>dr_state := None\<rparr>" "a' = a\<lparr>an_state := s, an_history := [], an_history_bytes := 0, an_ready := True\<rparr>"
      using r Some by (auto simp: almanac_reset_def split: if_splits)
    have "scope_ok (an_limits a) s" using so False by (auto simp: scope_ok_def)
    then show ?thesis using a' Some False by (auto simp: almanac_ok_def backlog_ok_def draft_ok_def)
  qed
qed

subsection \<open>Applying a change\<close>

definition kept_bytes :: "string \<Rightarrow> scope_state \<Rightarrow> nat" where
  "kept_bytes key s = (case map_of (ss_entries s) key of None \<Rightarrow> ss_bytes s | Some e \<Rightarrow> ss_bytes s - (length key + length (rw_value e)))"

definition added_bytes :: "string \<Rightarrow> bytes option \<Rightarrow> nat" where
  "added_bytes key value = (case value of None \<Rightarrow> 0 | Some v \<Rightarrow> length key + length v)"

definition apply_slot :: "string \<Rightarrow> bytes option \<Rightarrow> scope_state \<Rightarrow> pages_error + u64 option" where
  "apply_slot key value s = (case map_of (ss_entries s) key of Some e \<Rightarrow> Inr (Some (rw_slot e))
     | None \<Rightarrow> if value = None then Inr None else map_sum id Some (page_next (ss_index s)))"

definition no_room :: "nat \<Rightarrow> string \<Rightarrow> bytes option \<Rightarrow> change \<Rightarrow> almanac \<Rightarrow> bool" where
  "no_room header key value c a \<longleftrightarrow>
     value \<noteq> None \<and> (map_of (ss_entries (an_state a)) key = None \<and> length (ss_entries (an_state a)) \<ge> li_records (an_limits a)
        \<or> added_bytes key value > li_bytes (an_limits a) - kept_bytes key (an_state a))
     \<or> change_bytes header c > (2 ^ 64 - 1) - an_history_bytes a \<or> length (an_history a) = 2 ^ 64 - 1"

definition apply_index :: "grants \<Rightarrow> u64 option \<Rightarrow> scope_state \<Rightarrow> bool \<times> (string, cell) pages" where
  "apply_index gr n s = (case n of None \<Rightarrow> (True, ss_index s) | Some n \<Rightarrow> page_prepare (gr_roots gr) (gr_pages gr) n (ss_index s))"

lemma almanac_apply_cases:
  assumes "almanac_apply header gr version key value retention a = (out, com, a')"
  defines "c \<equiv> \<lparr>ch_key = key, ch_value = value, ch_version = version\<rparr>"
  obtains (refused) e where "out = Refused e" "com = None" "a' = a"
      "\<not> almanac_valid key value \<or> version = 0 \<or> \<not> an_ready a \<or> ss_version (an_state a) = - 1 \<or> version \<noteq> ss_version (an_state a) + 1
       \<or> no_room header key value c a"
  | (stale) "out = Done False" "com = None" "a' = a" "version \<le> ss_version (an_state a)" "an_ready a"
  | (thrown) "out = Thrown" "com = None" "a' = a" "\<not> gr_value gr \<or> \<not> gr_key gr \<or> \<not> gr_retired gr \<or> \<not> gr_entry gr \<or> isl (page_next (ss_index (an_state a)))"
  | (spoilt) n b index where "out = Thrown" "com = None" "apply_index gr n (an_state a) = (b, index)"
      "a' = a\<lparr>an_state := (an_state a)\<lparr>ss_index := index\<rparr>\<rparr>" "\<not> b \<or> \<not> gr_history gr"
  | (committed) n index evicted backlog where "out = Done True" "com = Some c" "an_ready a" "version = ss_version (an_state a) + 1" "ss_version (an_state a) \<noteq> - 1"
      "almanac_valid key value" "\<not> no_room header key value c a" "apply_slot key value (an_state a) = Inr n" "apply_index gr n (an_state a) = (True, index)"
      "evict (li_history (an_limits a)) (min (li_backlog (an_limits a)) retention)
         (map (change_bytes header) (an_history a) @ [change_bytes header c]) (an_history_bytes a + change_bytes header c) 0 = (evicted, backlog)"
      "a' = a\<lparr>an_state := (case n of None \<Rightarrow> an_state a
                 | Some n \<Rightarrow> change_commit c n (map_of (ss_entries (an_state a)) key = None) index (an_state a))
               \<lparr>ss_bytes := kept_bytes key (an_state a) + added_bytes key value, ss_version := version\<rparr>,
             an_history_bytes := backlog, an_history := drop evicted (an_history a @ [c])\<rparr>"
proof -
  let ?s = "an_state a"
  let ?entry = "map_of (ss_entries ?s) key"
  obtain evicted backlog where ev: "evict (li_history (an_limits a)) (min (li_backlog (an_limits a)) retention)
         (map (change_bytes header) (an_history a) @ [change_bytes header c]) (an_history_bytes a + change_bytes header c) 0 = (evicted, backlog)" by force
  note unfold = assms(1) [unfolded almanac_apply_def Let_def, folded kept_bytes_def added_bytes_def apply_slot_def c_def, folded apply_index_def]
  consider (bad) "\<not> almanac_valid key value \<or> version = 0"
    | (nomem) "almanac_valid key value" "version \<noteq> 0" "value \<noteq> None \<and> \<not> gr_value gr"
    | (go) "almanac_valid key value" "version \<noteq> 0" "\<not> (value \<noteq> None \<and> \<not> gr_value gr)" by blast
  then show thesis
  proof cases
    case bad
    then have "\<exists>e. out = Refused e \<and> com = None \<and> a' = a" using assms(1) by (auto simp: almanac_apply_def split: if_splits)
    then show ?thesis using refused bad by blast
  next
    case nomem
    then have "out = Thrown" "com = None" "a' = a" using assms(1) by (auto simp: almanac_apply_def split: if_splits)
    then show ?thesis using thrown nomem by blast
  next
    case go
    note u1 = unfold [unfolded if_not_P [OF not_not [THEN iffD2, OF go(1)]] if_not_P [OF go(2)] if_not_P [OF go(3)]]
    consider (unready) "\<not> an_ready a" | (old) "an_ready a" "version \<le> ss_version ?s"
      | (gap) "an_ready a" "\<not> version \<le> ss_version ?s" "ss_version ?s = - 1 \<or> version \<noteq> ss_version ?s + 1"
      | (key) "an_ready a" "\<not> version \<le> ss_version ?s" "\<not> (ss_version ?s = - 1 \<or> version \<noteq> ss_version ?s + 1)" "?entry = None \<and> \<not> gr_key gr"
      | (go2) "an_ready a" "\<not> version \<le> ss_version ?s" "\<not> (ss_version ?s = - 1 \<or> version \<noteq> ss_version ?s + 1)" "\<not> (?entry = None \<and> \<not> gr_key gr)"
      by blast
    then show ?thesis
    proof cases
      case unready
      then have "out = Refused Al_Unready" "com = None" "a' = a" using u1 by simp_all
      then show ?thesis using refused unready by blast
    next
      case old
      then have "out = Done False" "com = None" "a' = a" using u1 by simp_all
      then show ?thesis using stale old by blast
    next
      case gap
      then have "out = Refused Al_Version" "com = None" "a' = a" using u1 by simp_all
      then show ?thesis using refused gap by blast
    next
      case key
      then have "out = Thrown" "com = None" "a' = a" using u1 by simp_all
      then show ?thesis using thrown key by blast
    next
      case go2
      note u2 = u1 [unfolded if_not_P [OF not_not [THEN iffD2, OF go2(1)]] if_not_P [OF go2(2)] if_not_P [OF go2(3)] if_not_P [OF go2(4)]]
      show ?thesis
      proof (cases "no_room header key value c a")
        case True
        then have "\<exists>e. out = Refused e \<and> com = None \<and> a' = a" using u2 unfolding no_room_def by (auto split: if_splits)
        then show ?thesis using refused True by blast
      next
        case room: False
        then have "\<not> (value \<noteq> None \<and> (?entry = None \<and> li_records (an_limits a) \<le> length (ss_entries ?s) \<or>
            li_bytes (an_limits a) - kept_bytes key ?s < added_bytes key value))"
          "\<not> (2 ^ 64 - 1 - an_history_bytes a < change_bytes header c \<or> length (an_history a) = 2 ^ 64 - 1)"
          unfolding no_room_def by blast+
        note u3 = u2 [unfolded if_not_P [OF this(1)] if_not_P [OF this(2)] ev prod.case]
        show ?thesis
        proof (cases "evicted > 0 \<and> \<not> gr_retired gr")
          case True
          then have "out = Thrown" "com = None" "a' = a" using u3 by simp_all
          then show ?thesis using thrown True by blast
        next
          case False
          note u4 = u3 [unfolded if_not_P [OF False]]
          show ?thesis
          proof (cases "apply_slot key value ?s")
            case (Inl err)
            then have t: "out = Thrown" "com = None" "a' = a" using u4 by simp_all
            have "isl (page_next (ss_index ?s))" using Inl by (cases "page_next (ss_index ?s)") (auto simp: apply_slot_def split: option.splits if_splits)
            then show ?thesis using thrown t by blast
          next
            case (Inr n)
            note u5 = u4 [unfolded Inr sum.case]
            show ?thesis
            proof (cases "?entry = None \<and> n \<noteq> None \<and> \<not> gr_entry gr")
              case True
              then have "out = Thrown" "com = None" "a' = a" using u5 by simp_all
              then show ?thesis using thrown True by blast
            next
              case entry: False
              obtain b index where i: "apply_index gr n ?s = (b, index)" by force
              note u6 = u5 [unfolded if_not_P [OF entry] i prod.case]
              show ?thesis
              proof (cases "\<not> b \<or> \<not> gr_history gr")
                case True
                then have "out = Thrown" "com = None" "a' = a\<lparr>an_state := ?s\<lparr>ss_index := index\<rparr>\<rparr>" using u6 by simp_all
                then show ?thesis using spoilt [OF _ _ i] True by blast
              next
                case False
                note u7 = u6 [unfolded if_not_P [OF False]]
                have v: "version = ss_version ?s + 1" "ss_version ?s \<noteq> - 1" using go2(3) by blast+
                have i': "apply_index gr n ?s = (True, index)" using i False by simp
                show ?thesis by (rule committed [OF _ _ go2(1) v go(1) room Inr i' ev]) (use u7 in auto)
              qed
            qed
          qed
        qed
      qed
    qed
  qed
qed

lemma commit_scope:
  assumes ok: "scope_ok li s" and slot: "apply_slot key value s = Inr n" and index: "apply_index gr n s = (True, index)"
    and room: "value \<noteq> None \<Longrightarrow> (map_of (ss_entries s) key = None \<longrightarrow> length (ss_entries s) < li_records li)
      \<and> added_bytes key value \<le> li_bytes li - kept_bytes key s"
    and v: "version \<noteq> 0"
  defines "c \<equiv> \<lparr>ch_key = key, ch_value = value, ch_version = version\<rparr>"
  defines "s' \<equiv> (case n of None \<Rightarrow> s | Some n \<Rightarrow> change_commit c n (map_of (ss_entries s) key = None) index s)
    \<lparr>ss_bytes := kept_bytes key s + added_bytes key value, ss_version := version\<rparr>"
  shows "scope_ok li s'" "scope_data s' = (scope_data s)(key := value)"
proof -
  have o: "distinct (map fst (ss_entries s))" "agrees pages_ok page_find (slots_of (ss_entries s)) (ss_index s)"
    "ss_bytes s = rows_bytes (ss_entries s)" "ss_bytes s \<le> li_bytes li" "length (ss_entries s) \<le> li_records li"
    using ok by (simp_all add: scope_ok_def)
  have "scope_ok li s' \<and> scope_data s' = (scope_data s)(key := value)"
  proof (cases "map_of (ss_entries s) key")
    case None
    then have k: "kept_bytes key s = ss_bytes s" by (simp add: kept_bytes_def)
    show ?thesis
    proof (cases "value")
      case no: None
      then have "n = None" using slot None by (simp add: apply_slot_def)
      then have "s' = s\<lparr>ss_bytes := ss_bytes s, ss_version := version\<rparr>" using k no by (simp add: s'_def added_bytes_def)
      then show ?thesis using o None no v by (auto simp: scope_ok_def scope_data_def fun_eq_iff)
    next
      case (Some x)
      then obtain m where m: "n = Some m" "page_next (ss_index s) = Inr m"
        using slot None by (cases "page_next (ss_index s)") (auto simp: apply_slot_def)
      have p: "page_prepare (gr_roots gr) (gr_pages gr) m (ss_index s) = (True, index)" using index m(1) by (simp add: apply_index_def)
      have ag: "agrees pages_ok page_find ((slots_of (ss_entries s))(key \<mapsto> (m, fixed x))) (page_set m (Some key) (fixed x) index)"
        by (rule pages_index.agrees_add [OF o(2) m(2) p]) (use None in \<open>simp add: slots_of_def\<close>)
      have s': "s' = s\<lparr>ss_entries := AList.update key \<lparr>rw_value = x, rw_slot = m\<rparr> (ss_entries s),
          ss_index := page_set m (Some key) (fixed x) index, ss_bytes := ss_bytes s + (length key + length x), ss_version := version\<rparr>"
        using None Some m(1) k by (simp add: s'_def change_commit_def c_def added_bytes_def)
      have "length key + length x \<le> li_bytes li - ss_bytes s" "length (ss_entries s) < li_records li"
        using room None Some k by (auto simp: added_bytes_def)
      then have "scope_ok li s'" unfolding scope_ok_def s' using o ag v update_unknown [OF None]
        by (simp add: slots_of_update row_bytes_def distinct_update)
      moreover have "scope_data s' = (scope_data s)(key := value)" by (rule ext) (simp add: s' scope_data_def update_conv' Some)
      ultimately show ?thesis by simp
    qed
  next
    case (Some e)
    have n: "n = Some (rw_slot e)" using slot Some by (simp add: apply_slot_def)
    have p: "page_prepare (gr_roots gr) (gr_pages gr) (rw_slot e) (ss_index s) = (True, index)" using index n by (simp add: apply_index_def)
    have live: "slots_of (ss_entries s) key = Some (rw_slot e, fixed (rw_value e))" using Some by (simp add: slots_of_def)
    have k: "kept_bytes key s = ss_bytes s - row_bytes (key, e)" using Some by (simp add: kept_bytes_def row_bytes_def)
    have le: "row_bytes (key, e) \<le> ss_bytes s" using known_bytes [OF Some] o(3) by simp
    show ?thesis
    proof (cases "value")
      case no: None
      have ag: "agrees pages_ok page_find ((slots_of (ss_entries s))(key := None)) (page_erase (rw_slot e) index)"
        using pages_index.agrees_drop [of "slots_of (ss_entries s)" index key] pages_index.agrees_prepare [OF o(2) p] live by blast
      have s': "s' = s\<lparr>ss_entries := AList.delete key (ss_entries s), ss_index := page_erase (rw_slot e) index,
          ss_bytes := ss_bytes s - row_bytes (key, e), ss_version := version\<rparr>"
        using Some no n k by (simp add: s'_def change_commit_def c_def added_bytes_def)
      have "ss_bytes s - row_bytes (key, e) = rows_bytes (AList.delete key (ss_entries s))" "ss_bytes s - row_bytes (key, e) \<le> li_bytes li"
        "length (AList.delete key (ss_entries s)) \<le> li_records li"
        using delete_known [OF Some o(1)] o(3,4,5) by linarith+
      then have "scope_ok li s'" unfolding scope_ok_def s' using o(1) ag v by (simp add: slots_of_delete distinct_delete)
      moreover have "scope_data s' = (scope_data s)(key := value)" by (rule ext) (simp add: s' scope_data_def delete_conv' no)
      ultimately show ?thesis by simp
    next
      case new: (Some x)
      have ag: "agrees pages_ok page_find ((slots_of (ss_entries s))(key \<mapsto> (rw_slot e, fixed x))) (page_set (rw_slot e) None (fixed x) index)"
        by (rule pages_index.agrees_replace [OF o(2) live p])
      have s': "s' = s\<lparr>ss_entries := AList.update key \<lparr>rw_value = x, rw_slot = rw_slot e\<rparr> (ss_entries s),
          ss_index := page_set (rw_slot e) None (fixed x) index,
          ss_bytes := ss_bytes s - row_bytes (key, e) + (length key + length x), ss_version := version\<rparr>"
        using Some new n k by (simp add: s'_def change_commit_def c_def added_bytes_def)
      have "length key + length x \<le> li_bytes li - (ss_bytes s - row_bytes (key, e))" using room new k by (simp add: added_bytes_def)
      moreover have "rows_bytes (AList.update key \<lparr>rw_value = x, rw_slot = rw_slot e\<rparr> (ss_entries s)) =
          ss_bytes s - row_bytes (key, e) + (length key + length x)"
        using update_known(1) [OF Some, of "\<lparr>rw_value = x, rw_slot = rw_slot e\<rparr>"] o(3) le by (simp add: row_bytes_def)
      ultimately have "scope_ok li s'" unfolding scope_ok_def s' using o ag v update_known(2) [OF Some] le
        by (simp add: slots_of_update distinct_update)
      moreover have "scope_data s' = (scope_data s)(key := value)" by (rule ext) (simp add: s' scope_data_def update_conv' new)
      ultimately show ?thesis by simp
    qed
  qed
  then show "scope_ok li s'" "scope_data s' = (scope_data s)(key := value)" by simp_all
qed

lemma commit_history:
  assumes ok: "backlog_ok header a" and v: "version = ss_version (an_state a) + 1" "ss_version (an_state a) \<noteq> - 1" and c: "ch_version c = version"
    and ev: "evict (li_history (an_limits a)) (min (li_backlog (an_limits a)) retention)
         (map (change_bytes header) (an_history a) @ [change_bytes header c]) (an_history_bytes a + change_bytes header c) 0 = (evicted, backlog)"
    and a': "an_history a' = drop evicted (an_history a @ [c])" "an_history_bytes a' = backlog" "ss_version (an_state a') = version" "an_limits a' = an_limits a"
  shows "backlog_ok header a'"
proof -
  let ?h = "an_history a" and ?cs = "map (change_bytes header) (an_history a @ [c])"
  have h: "unat (ch_version (?h ! i)) + (length ?h - 1 - i) = unat (ss_version (an_state a))" if "i < length ?h" for i
    using ok that by (simp add: backlog_ok_def)
  have hv: "length ?h \<le> unat (ss_version (an_state a))" "an_history_bytes a = sum_list (map (change_bytes header) ?h)" using ok by (simp_all add: backlog_ok_def)
  have nv: "unat version = unat (ss_version (an_state a)) + 1" using unat_next [OF v(2)] v(1) by simp
  obtain k where k: "k \<le> length ?cs" "evict (li_history (an_limits a)) (min (li_backlog (an_limits a)) retention) ?cs (sum_list ?cs) 0 = (0 + k, sum_list (drop k ?cs))"
    "length ?cs - k \<le> li_history (an_limits a)" "sum_list (drop k ?cs) \<le> min (li_backlog (an_limits a)) retention"
    using evict_spec [of ?cs] by blast
  have eb: "evicted = k" "backlog = sum_list (drop k ?cs)" using ev k(2) hv(2) by simp_all
  have "unat (ch_version (an_history a' ! i)) + (length (an_history a') - 1 - i) = unat version" if "i < length (an_history a')" for i
  proof -
    have i: "k + i < length ?h + 1" using that a'(1) eb(1) by simp
    have nth: "an_history a' ! i = (?h @ [c]) ! (k + i)" unfolding a'(1) eb(1) using i by (intro nth_drop) simp
    show ?thesis
    proof (cases "k + i < length ?h")
      case True
      then show ?thesis using h [OF True] nth nv a'(1) eb(1) by (simp add: nth_append)
    next
      case False
      then have "k + i = length ?h" using i by simp
      then show ?thesis using nth c a'(1) eb(1) by (simp add: nth_append)
    qed
  qed
  moreover have "length (an_history a') \<le> unat version" using a'(1) hv(1) nv by simp
  moreover have "an_history_bytes a' = sum_list (map (change_bytes header) (an_history a'))" unfolding a'(1,2) eb drop_map ..
  moreover have "length (an_history a') \<le> li_history (an_limits a')" using a'(1,4) eb(1) k(3) by simp
  moreover have "an_history_bytes a' \<le> li_backlog (an_limits a')" using a'(2,4) eb(2) k(4) by simp
  ultimately show ?thesis using a'(3) by (simp add: backlog_ok_def)
qed

end
