(* ===== verification/Almanac_Rules.thy ===== *)
theory Almanac_Rules
  imports Almanac_State "HOL-Library.Code_Target_Nat"
begin

text \<open>
  What a scope promises: exact, atomic changes in version order and exact replay.
\<close>

abbreviation almanac_data :: "almanac \<Rightarrow> string \<Rightarrow> bytes option" where
  "almanac_data a \<equiv> scope_data (an_state a)"

abbreviation almanac_version :: "almanac \<Rightarrow> u64" where
  "almanac_version a \<equiv> ss_version (an_state a)"

definition same_content :: "almanac \<Rightarrow> almanac \<Rightarrow> bool" where
  "same_content a a' \<longleftrightarrow> ss_entries (an_state a') = ss_entries (an_state a) \<and> ss_version (an_state a') = ss_version (an_state a)
     \<and> ss_bytes (an_state a') = ss_bytes (an_state a) \<and> an_ready a' = an_ready a \<and> an_history a' = an_history a
     \<and> an_history_bytes a' = an_history_bytes a \<and> an_limits a' = an_limits a"

lemma same_content_refl [simp]: "same_content a a"
  by (simp add: same_content_def)

lemma almanac_apply_spec:
  assumes ok: "almanac_ok header a" and r: "almanac_apply header gr version key value retention a = (out, com, a')"
  shows "almanac_ok header a' \<and> an_limits a' = an_limits a
    \<and> (out \<noteq> Done True \<longrightarrow> com = None \<and> same_content a a')
    \<and> (out \<noteq> Done True \<and> out \<noteq> Thrown \<longrightarrow> a' = a)
    \<and> (out = Done True \<longrightarrow> an_ready a \<and> an_ready a' \<and> unat version = unat (almanac_version a) + 1 \<and> almanac_version a' = version
         \<and> almanac_data a' = (almanac_data a)(key := value)
         \<and> com = Some \<lparr>ch_key = key, ch_value = value, ch_version = version\<rparr>
         \<and> (\<exists>k. an_history a' = drop k (an_history a @ [\<lparr>ch_key = key, ch_value = value, ch_version = version\<rparr>])))"
  using r
proof (cases rule: almanac_apply_cases)
  case (refused e)
  then show ?thesis using ok by simp
next
  case stale
  then show ?thesis using ok by simp
next
  case thrown
  then show ?thesis using ok by simp
next
  case (spoilt n b index)
  have "scope_ok (an_limits a) ((an_state a)\<lparr>ss_index := index\<rparr>)"
  proof (cases n)
    case None
    then show ?thesis using spoilt(3) ok by (auto simp: apply_index_def almanac_ok_def scope_ok_def)
  next
    case (Some m)
    then show ?thesis using spoilt(3) ok scope_ok_index by (simp add: apply_index_def almanac_ok_def)
  qed
  then show ?thesis using spoilt ok by (simp add: almanac_ok_def backlog_ok_def same_content_def)
next
  case (committed n index evicted backlog)
  let ?c = "\<lparr>ch_key = key, ch_value = value, ch_version = version\<rparr>"
  have so: "scope_ok (an_limits a) (an_state a)" and ho: "backlog_ok header a" using ok by (simp_all add: almanac_ok_def)
  have v: "unat version = unat (almanac_version a) + 1" using unat_next [OF committed(5)] committed(4) by simp
  then have v0: "version \<noteq> 0" by auto
  have room: "(map_of (ss_entries (an_state a)) key = None \<longrightarrow> length (ss_entries (an_state a)) < li_records (an_limits a))
      \<and> added_bytes key value \<le> li_bytes (an_limits a) - kept_bytes key (an_state a)" if "value \<noteq> None"
    using committed(7) that unfolding no_room_def by (auto simp: not_le)
  note cs = commit_scope [OF so committed(8,9) room v0]
  have h: "backlog_ok header a'"
    by (rule commit_history [OF ho committed(4,5) _ committed(10)]) (use committed(11) in auto)
  show ?thesis using committed cs h v by (auto simp: almanac_ok_def)
qed

subsection \<open>Runs\<close>

datatype almanac_event =
    Apply grants u64 string "bytes option" nat
  | Reset draft

fun almanac_step :: "nat \<Rightarrow> almanac_event \<Rightarrow> almanac \<Rightarrow> almanac" where
  "almanac_step header (Apply gr version key value retention) a = snd (snd (almanac_apply header gr version key value retention a))"
| "almanac_step header (Reset d) a = snd (snd (almanac_reset d a))"

fun event_ok :: "almanac_event \<Rightarrow> bool" where
  "event_ok (Apply gr version key value retention) \<longleftrightarrow> True"
| "event_ok (Reset d) \<longleftrightarrow> draft_ok d"

definition replayed :: "(string \<Rightarrow> bytes option) \<Rightarrow> change list \<Rightarrow> string \<Rightarrow> bytes option" where
  "replayed data cs = foldl (\<lambda>m c. m(ch_key c := ch_value c)) data cs"

text \<open>What a reader who has the data of an earlier version may rely on.\<close>

definition follows :: "u64 \<Rightarrow> (string \<Rightarrow> bytes option) \<Rightarrow> almanac \<Rightarrow> bool" where
  "follows v data a \<longleftrightarrow> an_ready a \<and> unat v \<le> unat (almanac_version a)
     \<and> (unat (almanac_version a) - unat v \<le> length (an_history a) \<longrightarrow>
          replayed data (drop (length (an_history a) - (unat (almanac_version a) - unat v)) (an_history a)) = almanac_data a)"

lemma follows_step:
  assumes ok: "almanac_ok header a" "event_ok ev" and f: "follows v data a"
  shows "almanac_ok header (almanac_step header ev a) \<and> follows v data (almanac_step header ev a)"
proof (cases ev)
  case (Apply gr version key new retention)
  obtain out com a' where r: "almanac_apply header gr version key new retention a = (out, com, a')" by (metis prod_cases3)
  note sp = almanac_apply_spec [OF ok(1) r]
  have "follows v data a'"
  proof (cases "out = Done True")
    case False
    then have "same_content a a'" using sp by blast
    then have "an_history a' = an_history a" "almanac_version a' = almanac_version a" "almanac_data a' = almanac_data a" "an_ready a' = an_ready a"
      by (simp_all add: same_content_def scope_data_def fun_eq_iff)
    then show ?thesis using f unfolding follows_def by presburger
  next
    case True
    let ?c = "\<lparr>ch_key = key, ch_value = new, ch_version = version\<rparr>" and ?h = "an_history a"
    define d where "d = unat (almanac_version a) - unat v"
    have fd: "d \<le> length ?h \<Longrightarrow> replayed data (drop (length ?h - d) ?h) = almanac_data a"
      using f unfolding follows_def d_def by blast
    obtain k where k: "an_history a' = drop k (?h @ [?c])" using sp True by blast
    have ver: "unat (almanac_version a') = unat (almanac_version a) + 1" "almanac_data a' = (almanac_data a)(key := new)" "an_ready a'"
      using sp True by auto
    have le: "unat v \<le> unat (almanac_version a)" using f by (simp add: follows_def)
    have "replayed data (drop (length (an_history a') - (d + 1)) (an_history a')) = almanac_data a'"
      if dl: "d + 1 \<le> length (an_history a')"
    proof -
      have "length (an_history a') = length ?h + 1 - k" using k by simp
      then have *: "d \<le> length ?h" "length (an_history a') - (d + 1) + k = length ?h - d" using dl by auto
      then have "drop (length (an_history a') - (d + 1)) (an_history a') = drop (length ?h - d) ?h @ [?c]"
        unfolding k drop_drop by (simp add: add.commute)
      then show ?thesis using fd [OF *(1)] ver(2) by (simp add: replayed_def)
    qed
    moreover have "unat (almanac_version a') - unat v = d + 1" using ver(1) le by (simp add: d_def)
    ultimately show ?thesis using ver(1,3) le unfolding follows_def by simp
  qed
  then show ?thesis using sp r Apply by simp
next
  case (Reset d)
  obtain out d' a' where r: "almanac_reset d a = (out, d', a')" by (metis prod_cases3)
  note sp = almanac_reset_spec [OF ok(1) _ r]
  have "follows v data a'"
  proof (cases "out = Done True")
    case False
    then show ?thesis using sp ok(2) Reset f by auto
  next
    case True
    then have "an_ready a'" "an_history a' = []" "almanac_version a < almanac_version a'"
      using sp ok(2) Reset f by (auto simp: follows_def)
    then show ?thesis using f by (simp add: follows_def word_less_nat_alt)
  qed
  then show ?thesis using sp ok(2) r Reset by simp
qed

definition almanac_run :: "nat \<Rightarrow> almanac_event list \<Rightarrow> almanac \<Rightarrow> almanac" where
  "almanac_run header evs a = fold (almanac_step header) evs a"

lemma follows_run:
  assumes "almanac_ok header a" "list_all event_ok evs" "follows v data a"
  shows "almanac_ok header (almanac_run header evs a) \<and> follows v data (almanac_run header evs a)"
  using assms unfolding almanac_run_def by (induction evs arbitrary: a) (auto dest: follows_step)

lemma replay_exact:
  assumes ok: "almanac_ok header a" and r: "an_ready a" and v: "unat v \<le> unat (almanac_version a)"
  defines "d \<equiv> unat (almanac_version a) - unat v"
  shows "almanac_replay memory v a = (if length (an_history a) < d then Refused Al_History
    else if d \<noteq> 0 \<and> \<not> memory then Thrown else Done (almanac_version a, drop (length (an_history a) - d) (an_history a)))"
proof -
  let ?h = "an_history a" and ?n = "unat (almanac_version a)"
  have h: "unat (ch_version (?h ! i)) + (length ?h - 1 - i) = ?n" if "i < length ?h" for i using ok that by (simp add: almanac_ok_def backlog_ok_def)
  have len: "length ?h \<le> ?n" using ok by (simp add: almanac_ok_def backlog_ok_def)
  consider "v = almanac_version a" | "v < almanac_version a" "?h = []" | "v < almanac_version a" "?h \<noteq> []"
    using v by (force simp: word_less_nat_alt word_unat_eq_iff)
  then show ?thesis
  proof cases
    case 1
    then show ?thesis using r by (simp add: almanac_replay_def d_def)
  next
    case 2
    then show ?thesis using r by (auto simp: almanac_replay_def d_def word_less_nat_alt)
  next
    case 3
    have front: "unat (ch_version (hd ?h)) + (length ?h - 1) = ?n" using h [of 0] 3(2) by (simp add: hd_conv_nth)
    have pos: "0 < length ?h" using 3(2) by simp
    have c1: "1 \<le> unat (ch_version (hd ?h))" using front len pos by linarith
    then have m: "unat (ch_version (hd ?h) - 1) = unat (ch_version (hd ?h)) - 1"
      by (metis unat_minus_one unat_0 not_one_le_zero)
    have cond: "v < ch_version (hd ?h) - 1 \<longleftrightarrow> length ?h < d"
      unfolding word_less_nat_alt m d_def using front c1 v pos by linarith
    have "dropWhile (\<lambda>c. ch_version c \<le> v) ?h = drop (length ?h - d) ?h" if dl: "d \<le> length ?h"
    proof (rule dropWhile_prefix)
      fix i assume "i < length ?h - d" "i < length ?h"
      then show "ch_version (?h ! i) \<le> v" unfolding word_le_nat_alt using h [of i] v d_def by linarith
    next
      assume i: "length ?h - d < length ?h"
      show "\<not> ch_version (?h ! (length ?h - d)) \<le> v" unfolding word_le_nat_alt using h [OF i] v dl i d_def by linarith
    qed
    moreover have "d \<noteq> 0" using 3(1) by (simp add: d_def word_less_nat_alt)
    ultimately show ?thesis using r 3 cond by (auto simp: almanac_replay_def not_less)
  qed
qed

lemma view_shows:
  assumes "almanac_ok header a"
  shows "set (view_entries (capture (ss_index (an_state a)))) = {(k, fixed x) | k x. almanac_data a k = Some x}"
proof -
  have ag: "agrees pages_ok page_find (slots_of (ss_entries (an_state a))) (ss_index (an_state a))"
    using assms by (simp add: almanac_ok_def scope_ok_def)
  have po: "pages_ok (ss_index (an_state a))" using ag by (simp add: agrees_def)
  have at: "page_find (ss_index (an_state a)) s = Some (k, r) \<longleftrightarrow> slots_of (ss_entries (an_state a)) k = Some (s, r)" for s k r
    using ag by (simp add: agrees_def)
  have "(k, r) \<in> set (view_entries (capture (ss_index (an_state a)))) \<longleftrightarrow> (\<exists>x. r = fixed x \<and> almanac_data a k = Some x)" for k r
    unfolding view_entries_find [OF po] by (auto simp: at slots_of_def scope_data_def)
  then show ?thesis by auto
qed

definition generous :: "grants \<Rightarrow> bool" where
  "generous gr \<longleftrightarrow> gr_value gr \<and> gr_key gr \<and> gr_retired gr \<and> gr_entry gr \<and> gr_history gr \<and> (\<forall>l. gr_roots gr l) \<and> (\<forall>l. gr_pages gr l)"

lemma apply_index_succeeds:
  assumes "scope_ok li s" "generous gr" "apply_index gr n s = (b, index)"
  shows b
proof (cases n)
  case None
  then show ?thesis using assms(3) by (simp add: apply_index_def)
next
  case (Some m)
  have "pages_ok (ss_index s)" using assms(1) by (simp add: scope_ok_def agrees_def)
  then have "fst (page_prepare (gr_roots gr) (gr_pages gr) m (ss_index s))"
    using assms(2) by (intro page_prepare_succeeds) (simp_all add: generous_def)
  then show ?thesis using assms(3) Some by (simp add: apply_index_def)
qed

text \<open>C22: applying a change to a scope.  A change is committed only as the next version of an installed baseline; it
  then sets or deletes exactly its key, is handed out and enters the history.  Everything else
  changes nothing: a refused change and a repeated version leave the very state, and a change that
  throws, at whatever allocation, leaves entries, version, history and accounting.  With memory and
  a slot available, it is committed exactly when it is valid, next, and within capacity.\<close>

theorem almanac_apply_exact:
  assumes ok: "almanac_ok header a" and r: "almanac_apply header gr version key value retention a = (out, com, a')"
  shows "almanac_ok header a'
    \<and> (out = Done True \<longrightarrow> an_ready a' \<and> almanac_version a' = version \<and> unat version = unat (almanac_version a) + 1
         \<and> almanac_data a' = (almanac_data a)(key := value) \<and> com = Some \<lparr>ch_key = key, ch_value = value, ch_version = version\<rparr>)
    \<and> (out \<noteq> Done True \<longrightarrow> com = None \<and> same_content a a' \<and> (out \<noteq> Thrown \<longrightarrow> a' = a))
    \<and> (generous gr \<and> \<not> isl (page_next (ss_index (an_state a))) \<longrightarrow> out \<noteq> Thrown
         \<and> (out = Done True \<longleftrightarrow> almanac_valid key value \<and> an_ready a \<and> almanac_version a \<noteq> - 1 \<and> version = almanac_version a + 1
              \<and> \<not> no_room header key value \<lparr>ch_key = key, ch_value = value, ch_version = version\<rparr> a))"
proof -
  have so: "scope_ok (an_limits a) (an_state a)" using ok by (simp add: almanac_ok_def)
  let ?c = "\<lparr>ch_key = key, ch_value = value, ch_version = version\<rparr>"
  have "out \<noteq> Thrown \<and> (out = Done True \<longleftrightarrow> almanac_valid key value \<and> an_ready a \<and> almanac_version a \<noteq> - 1
      \<and> version = almanac_version a + 1 \<and> \<not> no_room header key value ?c a)"
    if g: "generous gr" "\<not> isl (page_next (ss_index (an_state a)))"
    using r
  proof (cases rule: almanac_apply_cases)
    case (refused e)
    have "version \<noteq> 0" if "almanac_version a \<noteq> - 1" "version = almanac_version a + 1" using unat_next [OF that(1)] that(2) by auto
    then show ?thesis using refused by auto
  next
    case stale
    have "\<not> version \<le> almanac_version a" if "almanac_version a \<noteq> - 1" "version = almanac_version a + 1"
      using unat_next [OF that(1)] that(2) by (simp add: word_le_nat_alt)
    then show ?thesis using stale by auto
  next
    case thrown
    then show ?thesis using g by (auto simp: generous_def)
  next
    case (spoilt n b index)
    then show ?thesis using apply_index_succeeds [OF so g(1) spoilt(3)] g(1) by (auto simp: generous_def)
  next
    case (committed n index evicted backlog)
    then show ?thesis by simp
  qed
  then show ?thesis using almanac_apply_spec [OF ok r] by auto
qed

definition all_grants :: grants where
  "all_grants = \<lparr>gr_value = True, gr_key = True, gr_retired = True, gr_entry = True, gr_roots = \<lambda>_. True, gr_pages = \<lambda>_. True, gr_history = True\<rparr>"

definition sample_almanac :: almanac where
  "sample_almanac = \<lparr>an_limits = \<lparr>li_records = 4, li_bytes = 100, li_history = 3, li_backlog = 500\<rparr>, an_state = state_new 5,
     an_ready = True, an_history = [], an_history_bytes = 0\<rparr>"

lemma sample_almanac_ok: "almanac_ok header sample_almanac"
  using state_new_ok [of "an_limits sample_almanac" 5] by (simp add: almanac_ok_def sample_almanac_def backlog_ok_def state_new_def)

theorem almanac_apply_exact_witness:
  "\<exists>com a. almanac_apply 40 all_grants 6 ''k'' (Some [1]) 1000 sample_almanac = (Done True, com, a) \<and> almanac_data a = [''k'' \<mapsto> [1]]"
proof -
  obtain out com a where r: "almanac_apply 40 all_grants 6 ''k'' (Some [1]) 1000 sample_almanac = (out, com, a)" by (metis prod_cases3)
  have g: "generous all_grants" by (simp add: generous_def all_grants_def)
  have n: "\<not> isl (page_next (ss_index (an_state sample_almanac)))" by (simp add: sample_almanac_def state_new_def page_next_def pages_new_def)
  have "\<not> no_room 40 ''k'' (Some [1]) \<lparr>ch_key = ''k'', ch_value = Some [1], ch_version = 6\<rparr> sample_almanac"
    by (simp add: no_room_def sample_almanac_def state_new_def added_bytes_def kept_bytes_def change_bytes_def)
  moreover have "almanac_valid ''k'' (Some [1])" by (simp add: almanac_valid_def)
  moreover have "an_ready sample_almanac" "almanac_version sample_almanac = 5" by (simp_all add: sample_almanac_def state_new_def)
  ultimately have "out = Done True" using almanac_apply_exact [OF sample_almanac_ok r] g n by simp
  moreover have "almanac_data sample_almanac = Map.empty" by (rule ext) (simp add: scope_data_def sample_almanac_def state_new_def)
  ultimately show ?thesis using almanac_apply_exact [OF sample_almanac_ok r] r by auto
qed

text \<open>C10: replaying a scope.  Whatever changes and baselines follow, a reader who has the data of an earlier installed
  version is either given exactly the changes that turn it into the current data, in order and without a gap, or is told
  that the history no longer reaches back, which happens exactly when fewer changes are kept than versions have passed; only a failed allocation of the copy throws.  A point read
  and a captured view show the same data at the same version, and the history stays within its
  limits.\<close>

theorem almanac_replays:
  assumes ok: "almanac_ok header a" "an_ready a" "list_all event_ok evs" and run: "a' = almanac_run header evs a"
  shows "almanac_version a \<le> almanac_version a'
    \<and> (case almanac_replay memory (almanac_version a) a' of
         Done (v, cs) \<Rightarrow> v = almanac_version a' \<and> replayed (almanac_data a) cs = almanac_data a'
           \<and> length cs = unat (almanac_version a') - unat (almanac_version a)
       | Refused e \<Rightarrow> e = Al_History \<and> length (an_history a') < unat (almanac_version a') - unat (almanac_version a)
       | Thrown \<Rightarrow> \<not> memory)
    \<and> (almanac_valid key None \<longrightarrow> almanac_find key a' = Done (almanac_version a', almanac_data a' key))
    \<and> (case almanac_view a' of
         Done w \<Rightarrow> av_version w = almanac_version a' \<and> set (view_entries (av_root w)) = {(k, fixed x) | k x. almanac_data a' k = Some x}
       | _ \<Rightarrow> False)
    \<and> length (an_history a') \<le> li_history (an_limits a') \<and> us_history (almanac_usage a') \<le> li_backlog (an_limits a')
    \<and> us_bytes (almanac_usage a') \<le> li_bytes (an_limits a')"
proof -
  have "follows (almanac_version a) (almanac_data a) a" using ok(2) by (simp add: follows_def replayed_def)
  then have f: "almanac_ok header a'" "follows (almanac_version a) (almanac_data a) a'"
    using follows_run [OF ok(1,3)] run by auto
  define d where "d = unat (almanac_version a') - unat (almanac_version a)"
  have le: "unat (almanac_version a) \<le> unat (almanac_version a')" and ready: "an_ready a'" using f(2) by (simp_all add: follows_def)
  have re: "almanac_replay memory (almanac_version a) a' =
      (if length (an_history a') < d then Refused Al_History
       else if d \<noteq> 0 \<and> \<not> memory then Thrown else Done (almanac_version a', drop (length (an_history a') - d) (an_history a')))"
    unfolding d_def by (rule replay_exact [OF f(1) ready le])
  have fd: "d \<le> length (an_history a') \<Longrightarrow> replayed (almanac_data a) (drop (length (an_history a') - d) (an_history a')) = almanac_data a'"
    using f(2) unfolding follows_def d_def by blast
  have replay: "case almanac_replay memory (almanac_version a) a' of
         Done (v, cs) \<Rightarrow> v = almanac_version a' \<and> replayed (almanac_data a) cs = almanac_data a' \<and> length cs = d
       | Refused e \<Rightarrow> e = Al_History \<and> length (an_history a') < d | Thrown \<Rightarrow> \<not> memory"
    unfolding re using fd by simp
  have "almanac_valid key None \<Longrightarrow> almanac_find key a' = Done (almanac_version a', almanac_data a' key)"
    using ready by (simp add: almanac_find_def scope_data_def)
  moreover have "case almanac_view a' of
         Done w \<Rightarrow> av_version w = almanac_version a' \<and> set (view_entries (av_root w)) = {(k, fixed x) | k x. almanac_data a' k = Some x}
       | _ \<Rightarrow> False"
    using ready view_shows [OF f(1)] by (simp add: almanac_view_def)
  ultimately show ?thesis
    using replay f(1) le unfolding d_def by (simp add: word_le_nat_alt almanac_ok_def backlog_ok_def scope_ok_def almanac_usage_def)
qed

definition sample_events :: "almanac_event list" where
  "sample_events = [Apply all_grants 6 ''k'' (Some [1]) 1000, Apply all_grants 7 ''k'' None 1000, Apply all_grants 8 ''l'' (Some [2]) 1000]"

theorem almanac_replays_witness:
  "\<exists>cs. almanac_replay True 5 (almanac_run 40 sample_events sample_almanac) = Done (8, cs) \<and> length cs = 3
     \<and> replayed Map.empty cs = almanac_data (almanac_run 40 sample_events sample_almanac)"
proof -
  have v: "almanac_version (almanac_run 40 sample_events sample_almanac) = 8 \<and> length (an_history (almanac_run 40 sample_events sample_almanac)) = 3"
    by code_simp
  have d: "almanac_data sample_almanac = Map.empty" by (rule ext) (simp add: scope_data_def sample_almanac_def state_new_def)
  have s: "an_ready sample_almanac" "almanac_version sample_almanac = 5" "list_all event_ok sample_events"
    by (simp_all add: sample_almanac_def state_new_def sample_events_def)
  note r = almanac_replays [OF sample_almanac_ok s(1,3) refl, where memory = True and header = 40, unfolded s(2) d conjunct1 [OF v] conjunct2 [OF v]]
  from conjunct1 [OF conjunct2 [OF r]] show ?thesis by (auto split: outcome.splits)
qed

end
