(* ===== verification/Progress.thy ===== *)
theory Progress
  imports Astra_Prelude
begin

text \<open>
  The notification rotation over scopes (\<^verbatim>\<open>astra/star/src/progress.hpp\<close>): groups of streams in an intrusive doubly linked queue, at most one
  place per group, one stream taken per turn.  The groups are a store by address, so that the links are the code's own pointers and every
  pointer write of \<^verbatim>\<open>append\<close> and \<^verbatim>\<open>detach\<close> is one update of it.  All calls run under the index lock.
\<close>

subsection \<open>State\<close>

text \<open>A stream and a group are known by their addresses.  The streams of a group are the keys of a \<^verbatim>\<open>std::map\<close> in order; a
  position in it is the stream it points to, or \<open>None\<close> for the end.\<close>

type_synonym address = nat

record group =
  gp_streams :: "address list"
  gp_first :: "u64 option"
  gp_version :: u64
  gp_reset :: "u64 option"
  gp_cursor :: "address option option"
  gp_through :: u64
  gp_previous :: "address option"
  gp_next :: "address option"

record progress =
  pr_groups :: "address \<Rightarrow> group"
  pr_head :: "address option"
  pr_tail :: "address option"

definition group_new :: group where
  "group_new = \<lparr>gp_streams = [], gp_first = None, gp_version = 0, gp_reset = None, gp_cursor = None, gp_through = 0,
     gp_previous = None, gp_next = None\<rparr>"

definition progress_new :: progress where
  "progress_new = \<lparr>pr_groups = \<lambda>_. group_new, pr_head = None, pr_tail = None\<rparr>"

definition on_group :: "address \<Rightarrow> (group \<Rightarrow> group) \<Rightarrow> progress \<Rightarrow> progress" where
  "on_group g f p = p\<lparr>pr_groups := (pr_groups p)(g := f (pr_groups p g))\<rparr>"

definition stream_begin :: "address list \<Rightarrow> address option" where
  "stream_begin xs = (case xs of [] \<Rightarrow> None | x # _ \<Rightarrow> Some x)"

definition stream_after :: "address \<Rightarrow> address list \<Rightarrow> address option" where
  "stream_after s xs = stream_begin (dropWhile (\<lambda>x. x \<le> s) xs)"

subsection \<open>Operations\<close>

definition covers :: "group \<Rightarrow> u64 \<Rightarrow> bool" where
  "covers gr baseline \<longleftrightarrow> (case gp_reset gr of None \<Rightarrow> True | Some r \<Rightarrow> r \<le> baseline)
     \<and> (case gp_first gr of None \<Rightarrow> True | Some f \<Rightarrow> baseline = - 1 \<or> f \<le> baseline + 1)"

definition queue_append :: "address \<Rightarrow> progress \<Rightarrow> progress" where
  "queue_append g p =
     (let p1 = on_group g (\<lambda>x. x\<lparr>gp_previous := pr_tail p, gp_next := None\<rparr>) p;
          p2 = (case pr_tail p1 of Some t \<Rightarrow> on_group t (\<lambda>x. x\<lparr>gp_next := Some g\<rparr>) p1 | None \<Rightarrow> p1\<lparr>pr_head := Some g\<rparr>)
      in p2\<lparr>pr_tail := Some g\<rparr>)"

definition queue_detach :: "address \<Rightarrow> progress \<Rightarrow> progress" where
  "queue_detach g p =
     (let before = gp_previous (pr_groups p g); after = gp_next (pr_groups p g);
          p1 = (case before of Some b \<Rightarrow> on_group b (\<lambda>x. x\<lparr>gp_next := after\<rparr>) p | None \<Rightarrow> p\<lparr>pr_head := after\<rparr>);
          p2 = (case after of Some a \<Rightarrow> on_group a (\<lambda>x. x\<lparr>gp_previous := before\<rparr>) p1 | None \<Rightarrow> p1\<lparr>pr_tail := before\<rparr>)
      in on_group g (\<lambda>x. x\<lparr>gp_previous := None, gp_next := None\<rparr>) p2)"

definition queue_finish :: "address \<Rightarrow> progress \<Rightarrow> progress" where
  "queue_finish g p =
     (let gr = pr_groups p g
      in if gp_streams gr \<noteq> [] \<and> gp_through gr \<noteq> gp_version gr
         then queue_append g (on_group g (\<lambda>x. x\<lparr>gp_cursor := Some (stream_begin (gp_streams x)), gp_through := gp_version x\<rparr>) p)
         else on_group g (\<lambda>x. x\<lparr>gp_cursor := None\<rparr>) p)"

definition note_version :: "u64 \<Rightarrow> bool \<Rightarrow> group \<Rightarrow> group" where
  "note_version version replacement gr =
     gr\<lparr>gp_reset := (if replacement \<or> gp_first gr \<noteq> None \<and> (gp_version gr = - 1 \<or> version \<noteq> gp_version gr + 1) then Some version else gp_reset gr),
        gp_first := (case gp_first gr of None \<Rightarrow> Some version | Some f \<Rightarrow> Some f), gp_version := version\<rparr>"

definition progress_publish :: "address \<Rightarrow> u64 \<Rightarrow> bool \<Rightarrow> progress \<Rightarrow> progress" where
  "progress_publish g version replacement p =
     (let p1 = on_group g (note_version version replacement) p; gr = pr_groups p1 g
      in if gp_cursor gr = None \<and> gp_streams gr \<noteq> []
         then queue_append g (on_group g (\<lambda>x. x\<lparr>gp_cursor := Some (stream_begin (gp_streams x)), gp_through := version\<rparr>) p1)
         else p1)"

definition progress_take :: "progress \<Rightarrow> address option \<times> progress" where
  "progress_take p =
     (case pr_head p of
        None \<Rightarrow> (None, p)
      | Some g \<Rightarrow>
          (case gp_cursor (pr_groups p g) of
             Some (Some s) \<Rightarrow>
               let after = stream_after s (gp_streams (pr_groups p g));
                   p1 = queue_detach g (on_group g (\<lambda>x. x\<lparr>gp_cursor := Some after\<rparr>) p)
               in (Some s, if after = None then queue_finish g p1 else queue_append g p1)
           | _ \<Rightarrow> (None, p)))"

definition progress_erase :: "address \<Rightarrow> address \<Rightarrow> progress \<Rightarrow> progress" where
  "progress_erase g s p =
     (let gr = pr_groups p g
      in if s \<notin> set (gp_streams gr) then p
         else let at = (if gp_cursor gr = Some (Some s) then Some (stream_after s (gp_streams gr)) else gp_cursor gr);
                  p1 = on_group g (\<lambda>x. x\<lparr>gp_cursor := at, gp_streams := remove1 s (gp_streams x)\<rparr>) p
              in if at = Some None then queue_finish g (queue_detach g p1) else p1)"

definition progress_pending :: "progress \<Rightarrow> bool" where
  "progress_pending p \<longleftrightarrow> pr_head p \<noteq> None"

text \<open>A stream is added to a group by its owner.\<close>

definition stream_add :: "address \<Rightarrow> address \<Rightarrow> progress \<Rightarrow> progress" where
  "stream_add g s p = on_group g (\<lambda>x. x\<lparr>gp_streams := (if s \<in> set (gp_streams x) then gp_streams x else insort s (gp_streams x))\<rparr>) p"

end
