(* ===== verification/Progress_Queue.thy ===== *)
theory Progress_Queue
  imports Progress "HOL-Library.Multiset"
begin

text \<open>
  The linked queue represents a list of groups; the invariant of the rotation, and what each operation does to the queue and to the
  streams the groups still owe.
\<close>

subsection \<open>Linked queues\<close>

definition first_or :: "address list \<Rightarrow> address option \<Rightarrow> address option" where
  "first_or xs n = (case xs of [] \<Rightarrow> n | x # _ \<Rightarrow> Some x)"

definition last_or :: "address option \<Rightarrow> address list \<Rightarrow> address option" where
  "last_or p xs = (if xs = [] then p else Some (last xs))"

lemma first_or_simps [simp]: "first_or [] n = n" "first_or (x # xs) n = Some x"
  by (simp_all add: first_or_def)

lemma last_or_simps [simp]: "last_or p [] = p" "last_or p (xs @ [x]) = Some x" "last_or p [x] = Some x"
  by (simp_all add: last_or_def)

lemma first_or_append: "first_or (xs @ ys) n = first_or xs (first_or ys n)"
  by (cases xs) simp_all

lemma last_or_append: "last_or p (xs @ ys) = last_or (last_or p xs) ys"
  by (simp add: last_or_def)

fun chain :: "(address \<Rightarrow> group) \<Rightarrow> address option \<Rightarrow> address list \<Rightarrow> address option \<Rightarrow> bool" where
  "chain G p [] n \<longleftrightarrow> True"
| "chain G p (x # xs) n \<longleftrightarrow> gp_previous (G x) = p \<and> gp_next (G x) = first_or xs n \<and> chain G (Some x) xs n"

lemma chain_append: "chain G p (ys @ zs) n \<longleftrightarrow> chain G p ys (first_or zs n) \<and> chain G (last_or p ys) zs n"
proof (induction ys arbitrary: p)
  case (Cons y ys)
  have "last_or (Some y) ys = last_or p (y # ys)" by (simp add: last_or_def)
  then show ?case using Cons by (simp add: first_or_append)
qed simp

lemma chain_cong:
  assumes "\<And>x. x \<in> set xs \<Longrightarrow> gp_previous (G x) = gp_previous (H x) \<and> gp_next (G x) = gp_next (H x)"
  shows "chain G p xs n = chain H p xs n"
  using assms by (induction xs arbitrary: p) auto

lemma chain_new_end:
  assumes "chain G p (ys @ [y]) n" "y \<notin> set ys" "\<And>x. x \<in> set ys \<Longrightarrow> gp_previous (H x) = gp_previous (G x) \<and> gp_next (H x) = gp_next (G x)"
    "gp_previous (H y) = gp_previous (G y)" "gp_next (H y) = n'"
  shows "chain H p (ys @ [y]) n'"
  using assms chain_cong [of ys H G p "Some y"] by (auto simp: chain_append)

lemma chain_new_start:
  assumes "chain G p (z # zs) n" "\<And>x. x \<in> set zs \<Longrightarrow> gp_previous (H x) = gp_previous (G x) \<and> gp_next (H x) = gp_next (G x)"
    "gp_next (H z) = gp_next (G z)" "gp_previous (H z) = p'"
  shows "chain H p' (z # zs) n"
  using assms chain_cong [of zs H G "Some z" n] by simp

definition queued :: "progress \<Rightarrow> address list \<Rightarrow> bool" where
  "queued p xs \<longleftrightarrow> distinct xs \<and> pr_head p = first_or xs None \<and> pr_tail p = last_or None xs \<and> chain (pr_groups p) None xs None"

lemma on_group_simps [simp]:
  "pr_groups (on_group g f p) = (pr_groups p)(g := f (pr_groups p g))" "pr_head (on_group g f p) = pr_head p" "pr_tail (on_group g f p) = pr_tail p"
  by (simp_all add: on_group_def)

text \<open>What the queue operations leave of a group.\<close>

definition contents :: "group \<Rightarrow> group" where
  "contents x = x\<lparr>gp_previous := None, gp_next := None\<rparr>"

lemma contents_links [simp]: "contents (x\<lparr>gp_previous := a, gp_next := b\<rparr>) = contents x" "contents (x\<lparr>gp_next := b\<rparr>) = contents x"
  "contents (x\<lparr>gp_previous := a\<rparr>) = contents x"
  by (simp_all add: contents_def)

lemma contents_fields:
  assumes "contents x = contents y"
  shows "gp_streams x = gp_streams y" "gp_first x = gp_first y" "gp_version x = gp_version y" "gp_reset x = gp_reset y"
    "gp_cursor x = gp_cursor y" "gp_through x = gp_through y"
  using assms by (cases x; cases y; simp add: contents_def)+

lemma append_contents [simp]: "contents (pr_groups (queue_append g p) h) = contents (pr_groups p h)"
  by (auto simp: queue_append_def Let_def split: option.split)

lemma detach_contents [simp]: "contents (pr_groups (queue_detach g p) h) = contents (pr_groups p h)"
  by (auto simp: queue_detach_def Let_def split: option.split)

lemma queue_append_queued:
  assumes q: "queued p xs" and g: "g \<notin> set xs"
  shows "queued (queue_append g p) (xs @ [g])"
proof (cases xs rule: rev_cases)
  case Nil
  then show ?thesis using q by (simp add: queued_def queue_append_def Let_def)
next
  case (snoc ys y)
  have d: "distinct (ys @ [y])" "pr_head p = first_or (ys @ [y]) None" "pr_tail p = Some y" "chain (pr_groups p) None (ys @ [y]) None"
    using q snoc by (auto simp: queued_def)
  have ne: "g \<noteq> y" "g \<notin> set ys" using g snoc by auto
  let ?H = "pr_groups (queue_append g p)"
  have H: "?H = ((pr_groups p)(g := (pr_groups p g)\<lparr>gp_previous := Some y, gp_next := None\<rparr>))(y := (pr_groups p y)\<lparr>gp_next := Some g\<rparr>)"
    using d(3) ne by (simp add: queue_append_def Let_def)
  have "chain ?H None (ys @ [y]) (Some g)"
    by (rule chain_new_end [OF d(4)]) (use d(1) ne in \<open>auto simp: H\<close>)
  moreover have "gp_previous (?H g) = Some y" "gp_next (?H g) = None" using ne by (simp_all add: H)
  ultimately have "chain ?H None ((ys @ [y]) @ [g]) None" unfolding chain_append by simp
  moreover have "pr_head (queue_append g p) = pr_head p" "pr_tail (queue_append g p) = Some g" using d(3) by (simp_all add: queue_append_def Let_def)
  moreover have "first_or (ys @ [y]) None = first_or (ys @ [y, g]) None" by (simp add: first_or_append)
  moreover have "last_or None (ys @ [y, g]) = Some g" by (simp add: last_or_def)
  ultimately show ?thesis using d ne snoc by (simp add: queued_def)
qed

lemma queue_detach_queued:
  assumes q: "queued p (ys @ g # zs)"
  shows "queued (queue_detach g p) (ys @ zs)"
proof -
  let ?G = "pr_groups p" and ?H = "pr_groups (queue_detach g p)"
  have d: "distinct (ys @ g # zs)" "pr_head p = first_or (ys @ g # zs) None" "pr_tail p = last_or None (ys @ g # zs)"
    and c: "chain ?G None ys (Some g)" "gp_previous (?G g) = last_or None ys" "gp_next (?G g) = first_or zs None" "chain ?G (Some g) zs None"
    using q by (auto simp: queued_def chain_append)
  define p1 where "p1 = (case last_or None ys of Some b \<Rightarrow> on_group b (\<lambda>x. x\<lparr>gp_next := first_or zs None\<rparr>) p | None \<Rightarrow> p\<lparr>pr_head := first_or zs None\<rparr>)"
  define p2 where "p2 = (case first_or zs None of Some a \<Rightarrow> on_group a (\<lambda>x. x\<lparr>gp_previous := last_or None ys\<rparr>) p1 | None \<Rightarrow> p1\<lparr>pr_tail := last_or None ys\<rparr>)"
  have dp: "queue_detach g p = on_group g (\<lambda>x. x\<lparr>gp_previous := None, gp_next := None\<rparr>) p2"
    unfolding queue_detach_def Let_def p2_def p1_def c(2,3) ..
  have gy: "gp_previous (?H x) = gp_previous (?G x) \<and> (x \<noteq> last ys \<longrightarrow> gp_next (?H x) = gp_next (?G x))
      \<and> (x = last ys \<longrightarrow> gp_next (?H x) = first_or zs None)" if "x \<in> set ys" for x
    using that d(1) unfolding dp p2_def p1_def by (cases zs; auto simp: last_or_def)
  have gz: "gp_next (?H x) = gp_next (?G x) \<and> (x \<noteq> hd zs \<longrightarrow> gp_previous (?H x) = gp_previous (?G x))
      \<and> (x = hd zs \<longrightarrow> gp_previous (?H x) = last_or None ys)" if "x \<in> set zs" for x
    using that d(1) unfolding dp p2_def p1_def by (cases zs; cases ys rule: rev_cases; auto simp: last_or_def)
  have "chain ?H None ys (first_or zs None)"
  proof (cases ys rule: rev_cases)
    case (snoc bs b)
    show ?thesis unfolding snoc
      by (rule chain_new_end [OF c(1) [unfolded snoc]]) (use gy d(1) snoc in auto)
  qed simp
  moreover have "chain ?H (last_or None ys) zs None"
  proof (cases zs)
    case (Cons z rest)
    show ?thesis unfolding Cons
      by (rule chain_new_start [OF c(4) [unfolded Cons]]) (use gz d(1) Cons in auto)
  qed simp
  moreover have "pr_head (queue_detach g p) = first_or (ys @ zs) None"
    using d(2) unfolding dp p2_def p1_def by (cases ys; cases zs; auto simp: first_or_append last_or_def)
  moreover have "pr_tail (queue_detach g p) = last_or None (ys @ zs)"
    using d(3) unfolding dp p2_def p1_def by (cases ys rule: rev_cases; cases zs; auto simp: last_or_def)
  ultimately show ?thesis using d(1) by (simp add: queued_def chain_append)
qed

subsection \<open>The invariant\<close>

definition group_ok :: "group \<Rightarrow> bool" where
  "group_ok gr \<longleftrightarrow> sorted (gp_streams gr) \<and> distinct (gp_streams gr)
     \<and> (case gp_cursor gr of None \<Rightarrow> True | Some None \<Rightarrow> False | Some (Some s) \<Rightarrow> s \<in> set (gp_streams gr))"

definition progress_ok :: "progress \<Rightarrow> address list \<Rightarrow> bool" where
  "progress_ok p xs \<longleftrightarrow> queued p xs \<and> (\<forall>g. (gp_cursor (pr_groups p g) \<noteq> None) = (g \<in> set xs)) \<and> (\<forall>g. group_ok (pr_groups p g))"

text \<open>What a group still owes: the rest of the round under way, and one more round when the version has moved since it began.\<close>

definition owed :: "group \<Rightarrow> address list" where
  "owed gr = (case gp_cursor gr of
      Some (Some s) \<Rightarrow> filter (\<lambda>x. s \<le> x) (gp_streams gr) @ (if gp_through gr \<noteq> gp_version gr then gp_streams gr else [])
    | _ \<Rightarrow> [])"

lemma contents_group_ok:
  assumes "contents x = contents y"
  shows "group_ok x = group_ok y"
  by (simp only: group_ok_def contents_fields [OF assms])

lemma contents_owed:
  assumes "contents x = contents y"
  shows "owed x = owed y"
  by (simp only: owed_def contents_fields [OF assms])

lemma stream_begin_in: "(xs = [] \<longrightarrow> stream_begin xs = None) \<and> (xs \<noteq> [] \<longrightarrow> stream_begin xs = Some (hd xs))"
  by (cases xs) (simp_all add: stream_begin_def)

lemma stream_after_none:
  assumes "sorted xs" "distinct xs" "s \<in> set xs" "stream_after s xs = None"
  shows "filter (\<lambda>x. s \<le> x) xs = [s]"
  using assms
proof (induction xs)
  case (Cons x xs)
  show ?case
  proof (cases "s = x")
    case True
    have "dropWhile (\<lambda>y. y \<le> s) xs = []" using Cons.prems(4) True by (auto simp: stream_after_def stream_begin_def split: list.splits)
    then have "\<forall>y\<in>set xs. y \<le> s" by (simp add: dropWhile_eq_Nil_conv)
    then have "xs = []" using Cons.prems(1,2) True by (cases xs) auto
    then show ?thesis using True by simp
  next
    case False
    then have s: "s \<in> set xs" "x < s" using Cons.prems by (auto simp: order.strict_iff_order)
    have "stream_after s xs = None" using Cons.prems(4) s(2) by (simp add: stream_after_def)
    then show ?thesis using Cons s by simp
  qed
qed simp

lemma stream_after_some:
  assumes "sorted xs" "distinct xs" "s \<in> set xs" "stream_after s xs = Some t"
  shows "filter (\<lambda>x. s \<le> x) xs = s # filter (\<lambda>x. t \<le> x) xs" "t \<in> set xs" "s < t"
proof -
  have "filter (\<lambda>x. s \<le> x) xs = s # filter (\<lambda>x. t \<le> x) xs \<and> t \<in> set xs \<and> s < t" using assms
  proof (induction xs)
    case (Cons x xs)
    show ?case
    proof (cases "s = x")
      case True
      obtain ys where d: "dropWhile (\<lambda>y. y \<le> s) xs = t # ys"
        using Cons.prems(4) True by (auto simp: stream_after_def stream_begin_def split: list.splits)
      obtain y zs where xs: "xs = y # zs" using d by (cases xs) auto
      have "s < y" using Cons.prems(1,2) True xs by (auto simp: order.strict_iff_order)
      then have "t = y" using d xs by auto
      moreover have "filter (\<lambda>x. y \<le> x) xs = xs" "filter (\<lambda>x. s \<le> x) xs = xs"
        using Cons.prems(1) True xs \<open>s < y\<close> by (auto simp: filter_id_conv)
      ultimately show ?thesis using True xs \<open>s < y\<close> by auto
    next
      case False
      then have s: "s \<in> set xs" "x < s" using Cons.prems by (auto simp: order.strict_iff_order)
      have a: "stream_after s xs = Some t" using Cons.prems(4) s(2) by (simp add: stream_after_def)
      then show ?thesis using Cons s by auto
    qed
  qed simp
  then show "filter (\<lambda>x. s \<le> x) xs = s # filter (\<lambda>x. t \<le> x) xs" "t \<in> set xs" "s < t" by blast+
qed

lemma first_round:
  assumes "sorted xs" "xs \<noteq> []"
  shows "stream_begin xs = Some (hd xs)" "filter (\<lambda>x. hd xs \<le> x) xs = xs"
  using assms by (cases xs; auto simp: stream_begin_def filter_id_conv)+

text \<open>Joining the queue with a position set, and leaving it.\<close>

lemma append_ok:
  assumes q: "queued p xs" "g \<notin> set xs"
    and c: "\<And>h. h \<noteq> g \<Longrightarrow> (gp_cursor (pr_groups p h) \<noteq> None) = (h \<in> set xs)" "gp_cursor (pr_groups p g) \<noteq> None"
    and ok: "\<And>h. group_ok (pr_groups p h)"
  shows "progress_ok (queue_append g p) (xs @ [g])"
proof -
  have f: "gp_cursor (pr_groups (queue_append g p) h) = gp_cursor (pr_groups p h)" "group_ok (pr_groups (queue_append g p) h)" for h
    using contents_fields(5) [OF append_contents] contents_group_ok [OF append_contents] ok by blast+
  have "(gp_cursor (pr_groups p h) \<noteq> None) = (h \<in> set (xs @ [g]))" for h
    using c by (cases "h = g") auto
  then show ?thesis using queue_append_queued [OF q] f by (simp add: progress_ok_def)
qed

lemma queued_update:
  assumes "queued p xs" "\<And>x. gp_previous (f x) = gp_previous x" "\<And>x. gp_next (f x) = gp_next x"
  shows "queued (on_group g f p) xs"
  using assms chain_cong [of xs "pr_groups (on_group g f p)" "pr_groups p" None None] by (auto simp: queued_def)

lemma progress_okD:
  assumes "progress_ok p xs"
  shows "queued p xs" "(gp_cursor (pr_groups p g) \<noteq> None) = (g \<in> set xs)" "group_ok (pr_groups p g)"
  using assms unfolding progress_ok_def by blast+

lemma on_group_ok:
  assumes "progress_ok p xs" "\<And>x. gp_previous (f x) = gp_previous x" "\<And>x. gp_next (f x) = gp_next x"
    "(gp_cursor (f (pr_groups p g)) \<noteq> None) = (g \<in> set xs)" "group_ok (f (pr_groups p g))"
  shows "progress_ok (on_group g f p) xs"
proof -
  have "(gp_cursor (pr_groups (on_group g f p) h) \<noteq> None) = (h \<in> set xs) \<and> group_ok (pr_groups (on_group g f p) h)" for h
    using assms(4,5) progress_okD(2,3) [OF assms(1), of h] by (cases "h = g") simp_all
  then show ?thesis using queued_update [of p xs f g] progress_okD(1) [OF assms(1)] assms(2,3) unfolding progress_ok_def by blast
qed

lemma group_ok_begin:
  assumes "sorted (gp_streams gr)" "distinct (gp_streams gr)" "gp_streams gr \<noteq> []"
  shows "group_ok (gr\<lparr>gp_cursor := Some (stream_begin (gp_streams gr)), gp_through := v\<rparr>)"
    "owed (gr\<lparr>gp_cursor := Some (stream_begin (gp_streams gr)), gp_through := v\<rparr>) = gp_streams gr @ (if v \<noteq> gp_version gr then gp_streams gr else [])"
  using assms first_round [OF assms(1,3)] by (simp_all add: group_ok_def owed_def)

text \<open>A finished round: the group leaves the queue or starts the next round at its end.\<close>

lemma finish_ok:
  assumes q: "queued p xs" "g \<notin> set xs"
    and c: "\<And>h. h \<noteq> g \<Longrightarrow> (gp_cursor (pr_groups p h) \<noteq> None) = (h \<in> set xs)"
    and ok: "\<And>h. h \<noteq> g \<Longrightarrow> group_ok (pr_groups p h)" "sorted (gp_streams (pr_groups p g))" "distinct (gp_streams (pr_groups p g))"
  shows "progress_ok (queue_finish g p) (if gp_streams (pr_groups p g) \<noteq> [] \<and> gp_through (pr_groups p g) \<noteq> gp_version (pr_groups p g) then xs @ [g] else xs)"
    "h \<noteq> g \<Longrightarrow> contents (pr_groups (queue_finish g p) h) = contents (pr_groups p h)"
    "owed (pr_groups (queue_finish g p) g) = (if gp_through (pr_groups p g) \<noteq> gp_version (pr_groups p g) then gp_streams (pr_groups p g) else [])"
proof -
  let ?gr = "pr_groups p g" and ?f = "\<lambda>x. x\<lparr>gp_cursor := Some (stream_begin (gp_streams x)), gp_through := gp_version x\<rparr>"
  show "progress_ok (queue_finish g p) (if gp_streams ?gr \<noteq> [] \<and> gp_through ?gr \<noteq> gp_version ?gr then xs @ [g] else xs)"
  proof (cases "gp_streams ?gr \<noteq> [] \<and> gp_through ?gr \<noteq> gp_version ?gr")
    case True
    have "progress_ok (queue_append g (on_group g ?f p)) (xs @ [g])"
      using q c ok group_ok_begin(1) [OF ok(2,3)] True
      by (intro append_ok queued_update) auto
    then show ?thesis using True by (simp add: queue_finish_def)
  next
    case False
    have "queued (on_group g (\<lambda>x. x\<lparr>gp_cursor := None\<rparr>) p) xs" using q(1) by (rule queued_update) simp_all
    moreover have "group_ok (?gr\<lparr>gp_cursor := None\<rparr>)" using ok by (simp add: group_ok_def)
    ultimately have "progress_ok (on_group g (\<lambda>x. x\<lparr>gp_cursor := None\<rparr>) p) xs"
      using c ok(1) q(2) unfolding progress_ok_def by (auto simp: on_group_simps)
    then show ?thesis using False by (auto simp: queue_finish_def Let_def)
  qed
  show "contents (pr_groups (queue_finish g p) h) = contents (pr_groups p h)" if "h \<noteq> g"
    using that by (simp add: queue_finish_def Let_def)
  show "owed (pr_groups (queue_finish g p) g) = (if gp_through ?gr \<noteq> gp_version ?gr then gp_streams ?gr else [])"
  proof (cases "gp_streams ?gr \<noteq> [] \<and> gp_through ?gr \<noteq> gp_version ?gr")
    case True
    have "owed (pr_groups (queue_append g (on_group g ?f p)) g) = owed (?f ?gr)" by (rule contents_owed) simp
    then show ?thesis using True group_ok_begin(2) [OF ok(2,3)] by (simp add: queue_finish_def)
  next
    case False
    then show ?thesis by (auto simp: queue_finish_def Let_def owed_def)
  qed
qed

text \<open>One stream is taken from the group at the head, which moves to the end of the queue or leaves it.\<close>

lemma take_step:
  assumes ok: "progress_ok p (g # xs)"
  obtains s q ys where "progress_take p = (Some s, q)" "gp_cursor (pr_groups p g) = Some (Some s)"
    "progress_ok q ys" "ys = xs @ [g] \<or> ys = xs" "\<And>h. h \<noteq> g \<Longrightarrow> contents (pr_groups q h) = contents (pr_groups p h)"
    "mset (owed (pr_groups p g)) = add_mset s (mset (owed (pr_groups q g)))" "ys = xs \<Longrightarrow> owed (pr_groups q g) = []"
proof -
  let ?gr = "pr_groups p g"
  note okD = progress_okD [OF ok]
  have gok: "group_ok ?gr" and "gp_cursor ?gr \<noteq> None" using okD(3) okD(2) [of g] by auto
  then obtain s where s: "gp_cursor ?gr = Some (Some s)" "s \<in> set (gp_streams ?gr)" and srt: "sorted (gp_streams ?gr)" "distinct (gp_streams ?gr)"
    by (auto simp: group_ok_def split: option.splits)
  define after where "after = stream_after s (gp_streams ?gr)"
  define p0 where "p0 = on_group g (\<lambda>x. x\<lparr>gp_cursor := Some after\<rparr>) p"
  define p1 where "p1 = queue_detach g p0"
  have hd: "pr_head p = Some g" using okD(1) by (simp add: queued_def)
  have t: "progress_take p = (Some s, if after = None then queue_finish g p1 else queue_append g p1)"
    using hd s(1) by (simp add: progress_take_def p1_def p0_def after_def Let_def)
  have "queued p0 ([] @ g # xs)" unfolding p0_def append_Nil using okD(1) by (rule queued_update) simp_all
  then have q1: "queued p1 xs" unfolding p1_def using queue_detach_queued by fastforce
  have gx: "g \<notin> set xs" using okD(1) by (simp add: queued_def)
  have c1: "contents (pr_groups p1 h) = contents (pr_groups p0 h)" for h by (simp add: p1_def)
  note f1 = contents_fields [OF c1]
  have oth: "contents (pr_groups p1 h) = contents (pr_groups p h)" if "h \<noteq> g" for h
    using that c1 by (simp add: p0_def)
  have cur: "(gp_cursor (pr_groups p1 h) \<noteq> None) = (h \<in> set xs)" if "h \<noteq> g" for h
    using contents_fields(5) [OF oth [OF that]] okD(2) [of h] that by simp
  have gok1: "group_ok (pr_groups p1 h)" if "h \<noteq> g" for h
    using contents_group_ok [OF oth [OF that]] okD(3) by blast
  have g1: "gp_streams (pr_groups p1 g) = gp_streams ?gr" "gp_through (pr_groups p1 g) = gp_through ?gr"
    "gp_version (pr_groups p1 g) = gp_version ?gr" "gp_cursor (pr_groups p1 g) = Some after"
    using f1 [of g] by (simp_all add: p0_def)
  have ow: "owed ?gr = filter (\<lambda>x. s \<le> x) (gp_streams ?gr) @ (if gp_through ?gr \<noteq> gp_version ?gr then gp_streams ?gr else [])"
    using s(1) by (simp add: owed_def)
  show thesis
  proof (cases after)
    case None
    note fin = finish_ok [OF q1 gx cur gok1, unfolded g1, OF _ _ srt]
    let ?ys = "if gp_streams ?gr \<noteq> [] \<and> gp_through ?gr \<noteq> gp_version ?gr then xs @ [g] else xs"
    have "progress_ok (queue_finish g p1) ?ys" by (rule fin(1))
    moreover have "contents (pr_groups (queue_finish g p1) h) = contents (pr_groups p h)" if "h \<noteq> g" for h
      using fin(2) [OF _ _ that] oth [OF that] by simp
    moreover have "owed (pr_groups (queue_finish g p1) g) = (if gp_through ?gr \<noteq> gp_version ?gr then gp_streams ?gr else [])" by (rule fin(3))
    moreover have "filter (\<lambda>x. s \<le> x) (gp_streams ?gr) = [s]"
      using stream_after_none [OF srt s(2)] None by (simp add: after_def)
    ultimately show thesis using that [of s "queue_finish g p1" ?ys] t s ow None by (auto split: if_splits)
  next
    case (Some u)
    note sa = stream_after_some [OF srt s(2) Some [unfolded after_def]]
    have "group_ok (pr_groups p1 g)" using g1 srt sa(2) Some by (simp add: group_ok_def)
    then have "progress_ok (queue_append g p1) (xs @ [g])"
      using cur gok1 g1(4) by (intro append_ok q1 gx) (auto, metis)
    moreover have "contents (pr_groups (queue_append g p1) h) = contents (pr_groups p h)" if "h \<noteq> g" for h
      using oth [OF that] by simp
    moreover have "owed (pr_groups (queue_append g p1) g) = owed (pr_groups p1 g)" by (rule contents_owed) simp
    moreover have "owed (pr_groups p1 g) = filter (\<lambda>x. u \<le> x) (gp_streams ?gr) @ (if gp_through ?gr \<noteq> gp_version ?gr then gp_streams ?gr else [])"
      using g1 Some by (simp add: owed_def)
    ultimately show thesis using that [of s "queue_append g p1" "xs @ [g]"] t s ow Some sa(1) by auto
  qed
qed

end
