(* ===== verification/Progress_Rules.thy ===== *)
theory Progress_Rules
  imports Progress_Queue
begin

text \<open>
  What the rotation promises: every commit reaches every stream, fairly, and a covered position can be continued.
\<close>

lemma publish_ok:
  assumes ok: "progress_ok p xs"
  shows "\<exists>ys. progress_ok (progress_publish g v r p) ys"
    "gp_cursor (pr_groups p g) = None \<or> v \<noteq> gp_through (pr_groups p g) \<Longrightarrow> set (owed (pr_groups (progress_publish g v r p) g)) = set (gp_streams (pr_groups p g))"
    "gp_cursor (pr_groups p g) = Some (Some c) \<Longrightarrow> set (filter (\<lambda>x. c \<le> x) (gp_streams (pr_groups p g))) \<subseteq> set (owed (pr_groups (progress_publish g v r p) g))"
proof -
  let ?gr = "pr_groups p g" and ?p1 = "on_group g (note_version v r) p"
  let ?f = "\<lambda>x. x\<lparr>gp_cursor := Some (stream_begin (gp_streams x)), gp_through := v\<rparr>"
  note okD = progress_okD [OF ok]
  have gok: "group_ok ?gr" and srt: "sorted (gp_streams ?gr)" "distinct (gp_streams ?gr)" using okD(3) by (auto simp: group_ok_def)
  have n: "gp_streams (note_version v r ?gr) = gp_streams ?gr" "gp_cursor (note_version v r ?gr) = gp_cursor ?gr"
    "gp_version (note_version v r ?gr) = v" "gp_through (note_version v r ?gr) = gp_through ?gr" "group_ok (note_version v r ?gr)"
    using gok by (simp_all add: note_version_def group_ok_def split: option.splits)
  have q1: "queued ?p1 xs" using okD(1) by (rule queued_update) (simp_all add: note_version_def)
  have pub: "progress_publish g v r p = (if gp_cursor ?gr = None \<and> gp_streams ?gr \<noteq> [] then queue_append g (on_group g ?f ?p1) else ?p1)"
    by (simp add: progress_publish_def Let_def n)
  have all: "(\<exists>ys. progress_ok (progress_publish g v r p) ys)
      \<and> (gp_cursor ?gr = None \<or> v \<noteq> gp_through ?gr \<longrightarrow> set (owed (pr_groups (progress_publish g v r p) g)) = set (gp_streams ?gr))
      \<and> (gp_cursor ?gr = Some (Some c) \<longrightarrow> set (filter (\<lambda>x. c \<le> x) (gp_streams ?gr)) \<subseteq> set (owed (pr_groups (progress_publish g v r p) g)))"
  proof (cases "gp_cursor ?gr = None \<and> gp_streams ?gr \<noteq> []")
    case True
    have st: "sorted (gp_streams (note_version v r ?gr))" "distinct (gp_streams (note_version v r ?gr))" "gp_streams (note_version v r ?gr) \<noteq> []"
      using srt n True by simp_all
    have "g \<notin> set xs" using okD(2) [of g] True by simp
    then have "progress_ok (queue_append g (on_group g ?f ?p1)) (xs @ [g])"
      using okD group_ok_begin(1) [OF st, of v] n
      by (intro append_ok queued_update q1) (auto simp: progress_ok_def)
    moreover have "owed (pr_groups (queue_append g (on_group g ?f ?p1)) g) = owed (?f (note_version v r ?gr))"
      by (rule contents_owed) simp
    ultimately show ?thesis using True group_ok_begin(2) [OF st, of v] n unfolding pub by auto
  next
    case False
    have "progress_ok ?p1 xs" using n okD(2) [of g] by (intro on_group_ok ok) (simp_all add: note_version_def)
    moreover have "set (filter (\<lambda>x. c \<le> x) (gp_streams ?gr)) \<subseteq> set (owed (note_version v r ?gr))" if "gp_cursor ?gr = Some (Some c)"
      using that by (auto simp: owed_def n)
    moreover have "set (owed (note_version v r ?gr)) = set (gp_streams ?gr)" if "gp_cursor ?gr = None \<or> v \<noteq> gp_through ?gr"
    proof (cases "gp_cursor ?gr")
      case None
      then show ?thesis using False by (simp add: owed_def n)
    next
      case (Some c)
      then obtain s where "gp_cursor ?gr = Some (Some s)" using gok by (cases c) (simp_all add: group_ok_def)
      then show ?thesis using that by (auto simp: owed_def n)
    qed
    moreover have "progress_publish g v r p = ?p1" using False unfolding pub by meson
    moreover have "pr_groups ?p1 g = note_version v r ?gr" by simp
    ultimately show ?thesis by metis
  qed
  show "\<exists>ys. progress_ok (progress_publish g v r p) ys"
    "gp_cursor ?gr = None \<or> v \<noteq> gp_through ?gr \<Longrightarrow> set (owed (pr_groups (progress_publish g v r p) g)) = set (gp_streams ?gr)"
    "gp_cursor ?gr = Some (Some c) \<Longrightarrow> set (filter (\<lambda>x. c \<le> x) (gp_streams ?gr)) \<subseteq> set (owed (pr_groups (progress_publish g v r p) g))"
    using all by simp_all
qed

lemma take_ok:
  assumes "progress_ok p xs"
  shows "\<exists>ys. progress_ok (snd (progress_take p)) ys"
proof (cases xs)
  case Nil
  then have "pr_head p = None" using assms by (simp add: progress_ok_def queued_def)
  then show ?thesis using assms by (auto simp: progress_take_def)
next
  case (Cons g ys)
  then show ?thesis using take_step assms by (metis snd_conv)
qed

lemma stream_after_mem:
  assumes "sorted xs" "distinct xs" "s \<in> set xs" "stream_after s xs = Some t"
  shows "t \<in> set (remove1 s xs)"
  using stream_after_some [OF assms] assms(2) by (auto simp: in_set_remove1)

lemma erase_ok:
  assumes ok: "progress_ok p xs"
  shows "\<exists>ys. progress_ok (progress_erase g s p) ys"
proof (cases "s \<in> set (gp_streams (pr_groups p g))")
  case True
  let ?gr = "pr_groups p g"
  note okD = progress_okD [OF ok]
  define at where "at = (if gp_cursor ?gr = Some (Some s) then Some (stream_after s (gp_streams ?gr)) else gp_cursor ?gr)"
  define p1 where "p1 = on_group g (\<lambda>x. x\<lparr>gp_cursor := at, gp_streams := remove1 s (gp_streams x)\<rparr>) p"
  have e: "progress_erase g s p = (if at = Some None then queue_finish g (queue_detach g p1) else p1)"
    using True by (simp add: progress_erase_def at_def p1_def Let_def)
  have srt: "sorted (gp_streams ?gr)" "distinct (gp_streams ?gr)" using okD(3) [of g] by (auto simp: group_ok_def)
  then have srt': "sorted (remove1 s (gp_streams ?gr))" "distinct (remove1 s (gp_streams ?gr))" by (simp_all add: sorted_remove1)
  have at: "(at \<noteq> None) = (g \<in> set xs)" using okD(2) [of g] by (auto simp: at_def)
  have q1: "queued p1 xs" unfolding p1_def using okD(1) by (rule queued_update) simp_all
  show ?thesis
  proof (cases "at = Some None")
    case False
    have "group_ok (?gr\<lparr>gp_cursor := at, gp_streams := remove1 s (gp_streams ?gr)\<rparr>)"
      using okD(3) [of g] srt' False stream_after_mem [OF srt True]
      by (auto simp: group_ok_def at_def in_set_remove1 split: option.splits if_splits)
    then have "progress_ok p1 xs" unfolding p1_def using at by (intro on_group_ok ok) simp_all
    then show ?thesis using e False by auto
  next
    case n: True
    then have "g \<in> set xs" using at by simp
    then obtain ys zs where xs: "xs = ys @ g # zs" by (auto dest: split_list)
    have d: "g \<notin> set (ys @ zs)" using okD(1) xs by (simp add: queued_def)
    have q2: "queued (queue_detach g p1) (ys @ zs)" using queue_detach_queued q1 xs by simp
    have oth: "contents (pr_groups (queue_detach g p1) h) = contents (pr_groups p h)" if "h \<noteq> g" for h using that by (simp add: p1_def)
    have str: "gp_streams (pr_groups (queue_detach g p1) g) = remove1 s (gp_streams ?gr)"
      using contents_fields(1) [OF detach_contents, of g p1 g] by (simp add: p1_def)
    have "progress_ok (queue_finish g (queue_detach g p1)) (if gp_streams (pr_groups (queue_detach g p1) g) \<noteq> []
        \<and> gp_through (pr_groups (queue_detach g p1) g) \<noteq> gp_version (pr_groups (queue_detach g p1) g) then (ys @ zs) @ [g] else ys @ zs)"
    proof (rule finish_ok(1) [OF q2 d])
      show "(gp_cursor (pr_groups (queue_detach g p1) h) \<noteq> None) = (h \<in> set (ys @ zs))" if "h \<noteq> g" for h
        using contents_fields(5) [OF oth [OF that]] okD(2) [of h] that xs by simp
      show "group_ok (pr_groups (queue_detach g p1) h)" if "h \<noteq> g" for h
        using contents_group_ok [OF oth [OF that]] okD(3) by blast
    qed (simp_all add: str srt')
    then show ?thesis using e n by auto
  qed
qed (use ok in \<open>auto simp: progress_erase_def\<close>)

lemma add_ok:
  assumes ok: "progress_ok p xs"
  shows "progress_ok (stream_add g s p) xs"
proof -
  note okD = progress_okD [OF ok]
  let ?f = "\<lambda>x. x\<lparr>gp_streams := (if s \<in> set (gp_streams x) then gp_streams x else insort s (gp_streams x))\<rparr>"
  have "group_ok (?f (pr_groups p g))"
    using okD(3) [of g] by (auto simp: group_ok_def sorted_insort distinct_insort set_insort_key split: option.splits)
  then show ?thesis unfolding stream_add_def using okD(2) [of g] by (intro on_group_ok ok) simp_all
qed

subsection \<open>Reachable states and draining\<close>

inductive progress_reachable :: "progress \<Rightarrow> bool" where
  start: "progress_reachable progress_new"
| attach: "progress_reachable p \<Longrightarrow> progress_reachable (stream_add g s p)"
| publish: "progress_reachable p \<Longrightarrow> progress_reachable (progress_publish g v r p)"
| take: "progress_reachable p \<Longrightarrow> progress_reachable (snd (progress_take p))"
| erase: "progress_reachable p \<Longrightarrow> progress_reachable (progress_erase g s p)"

lemma reachable_ok:
  assumes "progress_reachable p"
  shows "\<exists>xs. progress_ok p xs"
  using assms
proof induction
  case start
  have "progress_ok progress_new []" by (simp add: progress_ok_def queued_def progress_new_def group_new_def group_ok_def)
  then show ?case ..
qed (blast intro: add_ok publish_ok(1) take_ok erase_ok)+

fun drain :: "nat \<Rightarrow> progress \<Rightarrow> address list \<times> progress" where
  "drain 0 p = ([], p)"
| "drain (Suc n) p = (case progress_take p of (None, q) \<Rightarrow> ([], q) | (Some s, q) \<Rightarrow> (let (ss, z) = drain n q in (s # ss, z)))"

definition all_owed :: "progress \<Rightarrow> address list \<Rightarrow> address multiset" where
  "all_owed p xs = sum_list (map (\<lambda>g. mset (owed (pr_groups p g))) xs)"

lemma all_owed_cong:
  assumes "\<And>h. h \<in> set xs \<Longrightarrow> contents (pr_groups q h) = contents (pr_groups p h)"
  shows "all_owed q xs = all_owed p xs"
proof -
  have "map (\<lambda>g. mset (owed (pr_groups q g))) xs = map (\<lambda>g. mset (owed (pr_groups p g))) xs"
    using contents_owed [OF assms] by simp
  then show ?thesis unfolding all_owed_def by (rule arg_cong)
qed

lemma take_owed:
  assumes "progress_ok p (g # xs)"
  obtains s q ys where "progress_take p = (Some s, q)" "gp_cursor (pr_groups p g) = Some (Some s)" "progress_ok q ys" "ys = xs @ [g] \<or> ys = xs"
    "\<And>h. h \<noteq> g \<Longrightarrow> contents (pr_groups q h) = contents (pr_groups p h)" "all_owed p (g # xs) = add_mset s (all_owed q ys)"
proof -
  obtain s q ys where t: "progress_take p = (Some s, q)" "gp_cursor (pr_groups p g) = Some (Some s)" "progress_ok q ys" "ys = xs @ [g] \<or> ys = xs"
    "\<And>h. h \<noteq> g \<Longrightarrow> contents (pr_groups q h) = contents (pr_groups p h)"
    "mset (owed (pr_groups p g)) = add_mset s (mset (owed (pr_groups q g)))" "ys = xs \<Longrightarrow> owed (pr_groups q g) = []"
    using take_step [OF assms] by blast
  have "g \<notin> set xs" using assms by (simp add: progress_ok_def queued_def)
  then have "all_owed q xs = all_owed p xs" by (intro all_owed_cong t(5)) blast
  then have "all_owed p (g # xs) = add_mset s (all_owed q ys)"
    using t(4,6,7) by (auto simp: all_owed_def)
  then show thesis using that t by blast
qed

text \<open>Draining ends after as many takes as streams are owed, and serves exactly those.\<close>

lemma drain_all:
  assumes "progress_ok p xs"
  shows "\<exists>ss q. drain (size (all_owed p xs)) p = (ss, q) \<and> mset ss = all_owed p xs \<and> \<not> progress_pending q"
  using assms
proof (induction "size (all_owed p xs)" arbitrary: p xs)
  case 0
  have "xs = []"
  proof (cases xs)
    case (Cons g ys)
    then obtain s M where "all_owed p xs = add_mset s M" using take_owed 0(2) by metis
    then show ?thesis using 0(1) by simp
  qed
  then show ?case using 0 by (simp add: progress_pending_def progress_ok_def queued_def all_owed_def)
next
  case (Suc n)
  obtain g ys where xs: "xs = g # ys" using Suc(2) by (cases xs) (simp_all add: all_owed_def)
  obtain s q zs where t: "progress_take p = (Some s, q)" "progress_ok q zs" "all_owed p xs = add_mset s (all_owed q zs)"
    using take_owed Suc(3) unfolding xs by metis
  then have n: "n = size (all_owed q zs)" using Suc(2) by simp
  obtain ss z where "drain (size (all_owed q zs)) q = (ss, z)" "mset ss = all_owed q zs" "\<not> progress_pending z"
    using Suc(1) [OF n t(2)] by blast
  then show ?case using t by simp
qed

text \<open>Taking is fair: the groups waiting are served one stream each before any of them is served again.\<close>

lemma drain_fair:
  assumes "progress_ok p (xs @ zs)"
  shows "map (Some \<circ> Some) (fst (drain (length xs) p)) = map (\<lambda>g. gp_cursor (pr_groups p g)) xs"
  using assms
proof (induction xs arbitrary: p zs)
  case (Cons g xs)
  obtain s q ys where t: "progress_take p = (Some s, q)" "gp_cursor (pr_groups p g) = Some (Some s)" "progress_ok q ys"
    "ys = (xs @ zs) @ [g] \<or> ys = xs @ zs" "\<And>h. h \<noteq> g \<Longrightarrow> contents (pr_groups q h) = contents (pr_groups p h)"
    using take_owed Cons(2) by (metis append_Cons)
  have g: "g \<notin> set xs" using Cons(2) by (simp add: progress_ok_def queued_def)
  obtain ws where "progress_ok q (xs @ ws)" using t(3,4) by auto
  then have "map (Some \<circ> Some) (fst (drain (length xs) q)) = map (\<lambda>h. gp_cursor (pr_groups q h)) xs" by (rule Cons(1))
  also have "\<dots> = map (\<lambda>h. gp_cursor (pr_groups p h)) xs"
    using g by (intro map_cong refl contents_fields(5) t(5)) blast
  finally show ?case using t(1,2) by (simp add: split_beta comp_def)
qed simp

subsection \<open>Continuity\<close>

text \<open>The notifications a group has seen, in order: the version, and whether it replaced everything.\<close>

definition noted :: "(u64 \<times> bool) list \<Rightarrow> group \<Rightarrow> group" where
  "noted hs gr = fold (\<lambda>(v, r). note_version v r) hs gr"

definition steps :: "nat \<Rightarrow> nat \<Rightarrow> (u64 \<times> bool) list" where
  "steps a b = map (\<lambda>i. (of_nat i, False)) [a..<Suc b]"

text \<open>Since its last reset, or since the first notification, a group has seen every version once and in order.\<close>

definition continuous :: "(u64 \<times> bool) list \<Rightarrow> group \<Rightarrow> bool" where
  "continuous hs gr \<longleftrightarrow> (case gp_first gr of
      None \<Rightarrow> hs = [] \<and> gp_reset gr = None
    | Some f \<Rightarrow> (case gp_reset gr of
          None \<Rightarrow> unat f \<le> unat (gp_version gr) \<and> hs = steps (unat f) (unat (gp_version gr))
        | Some r \<Rightarrow> unat r \<le> unat (gp_version gr) \<and> (\<exists>pre b. hs = pre @ (r, b) # steps (Suc (unat r)) (unat (gp_version gr)))))"

lemma steps_extend:
  assumes "a \<le> Suc (unat v)" "v \<noteq> (- 1 :: u64)"
  shows "steps a (unat (v + 1)) = steps a (unat v) @ [(v + 1, False)]" "unat (v + 1) = Suc (unat v)"
proof -
  show u: "unat (v + 1) = Suc (unat v)" using assms(2) unatSuc [of v] by (auto simp: add.commute eq_neg_iff_add_eq_0)
  have "of_nat (Suc (unat v)) = v + 1" by simp
  then show "steps a (unat (v + 1)) = steps a (unat v) @ [(v + 1, False)]" using assms(1) by (simp add: steps_def u)
qed

lemma note_run:
  assumes "continuous hs gr"
  shows "continuous (hs @ [(v, r)]) (note_version v r gr)"
proof (cases "gp_first gr")
  case None
  then have "hs = []" "gp_reset gr = None" using assms by (simp_all add: continuous_def)
  then show ?thesis using None by (cases r) (auto simp: continuous_def note_version_def steps_def)
next
  case (Some f)
  let ?w = "gp_version gr"
  show ?thesis
  proof (cases "r \<or> ?w = - 1 \<or> v \<noteq> ?w + 1")
    case True
    then have "gp_reset (note_version v r gr) = Some v" using Some by (auto simp: note_version_def)
    moreover have "hs @ [(v, r)] = hs @ (v, r) # steps (Suc (unat v)) (unat v)" by (simp add: steps_def)
    ultimately show ?thesis using Some unfolding continuous_def by (auto simp: note_version_def)
  next
    case False
    then have g: "\<not> r" "?w \<noteq> - 1" "v = ?w + 1" by auto
    have n: "gp_reset (note_version v r gr) = gp_reset gr" "gp_version (note_version v r gr) = v" "gp_first (note_version v r gr) = Some f"
      using g Some by (simp_all add: note_version_def)
    show ?thesis
    proof (cases "gp_reset gr")
      case None
      then have h: "unat f \<le> unat ?w" "hs = steps (unat f) (unat ?w)" using assms Some by (simp_all add: continuous_def)
      note e = steps_extend [of "unat f" ?w, OF le_SucI [OF h(1)] g(2)]
      have "hs @ [(v, r)] = steps (unat f) (unat v)" using h(2) g e(1) by simp
      moreover have "unat f \<le> unat v" using h(1) e(2) g(3) by simp
      ultimately show ?thesis using n None by (simp add: continuous_def)
    next
      case (Some q)
      then obtain pre b where h: "unat q \<le> unat ?w" "hs = pre @ (q, b) # steps (Suc (unat q)) (unat ?w)"
        using assms \<open>gp_first gr = Some f\<close> by (auto simp: continuous_def)
      note e = steps_extend [of "Suc (unat q)" ?w, OF Suc_le_mono [THEN iffD2, OF h(1)] g(2)]
      have "hs @ [(v, r)] = pre @ (q, b) # steps (Suc (unat q)) (unat v)" using h(2) g e(1) by simp
      moreover have "unat q \<le> unat v" using h(1) e(2) g(3) by simp
      ultimately show ?thesis using n Some by (auto simp: continuous_def)
    qed
  qed
qed

lemma noted_run: "continuous hs (noted hs group_new)"
proof (induction hs rule: rev_induct)
  case Nil
  then show ?case by (simp add: continuous_def noted_def group_new_def)
next
  case (snoc h hs)
  then show ?case using note_run [OF snoc] by (cases h) (simp add: noted_def)
qed

lemma steps_split:
  assumes "a \<le> Suc b" "b \<le> c"
  shows "\<exists>pre. steps a c = pre @ steps (Suc b) c"
proof -
  have "[a..<Suc c] = [a..<Suc b] @ [Suc b..<Suc c]" using assms upt_add_eq_append [of a "Suc b" "c - b"] by simp
  then have "steps a c = steps a b @ steps (Suc b) c" unfolding steps_def by simp
  then show ?thesis by blast
qed

subsection \<open>Properties\<close>

text \<open>C16: A commit reaches every stream of its group.  From any reachable state, after any publication, taking streams until none is
  pending ends.  It serves exactly what the waiting groups owed, and one stream of every waiting group, in queue order, before it comes
  back to any.  Every stream of the published group is served, unless a round for this very version is under way; then the streams that
  round has not come to yet are served.\<close>

theorem progress_serves:
  assumes "progress_reachable p" "p' = progress_publish g v r p"
  shows "\<exists>xs ss q. (\<forall>h. (gp_cursor (pr_groups p' h) \<noteq> None) = (h \<in> set xs)) \<and> distinct xs
    \<and> drain (length ss) p' = (ss, q) \<and> \<not> progress_pending q \<and> mset ss = all_owed p' xs
    \<and> (case gp_cursor (pr_groups p g) of
         Some (Some c) \<Rightarrow> if v = gp_through (pr_groups p g) then {s \<in> set (gp_streams (pr_groups p g)). c \<le> s} \<subseteq> set ss
                         else set (gp_streams (pr_groups p g)) \<subseteq> set ss
       | _ \<Rightarrow> set (gp_streams (pr_groups p g)) \<subseteq> set ss)
    \<and> map (Some \<circ> Some) (fst (drain (length xs) p')) = map (\<lambda>h. gp_cursor (pr_groups p' h)) xs"
proof -
  let ?gr = "pr_groups p g"
  obtain zs where zs: "progress_ok p zs" using reachable_ok [OF assms(1)] ..
  then obtain xs where ok: "progress_ok p' xs" using publish_ok(1) assms(2) by metis
  obtain ss q where d: "drain (size (all_owed p' xs)) p' = (ss, q)" "mset ss = all_owed p' xs" "\<not> progress_pending q"
    using drain_all [OF ok] by blast
  have len: "size (all_owed p' xs) = length ss" using arg_cong [OF d(2), of size] by simp
  have served: "set (owed (pr_groups p' g)) \<subseteq> set ss"
  proof (cases "g \<in> set xs")
    case True
    then obtain as bs where "xs = as @ g # bs" by (auto dest: split_list)
    then have "set (owed (pr_groups p' g)) \<subseteq> set_mset (mset ss)" unfolding d(2) by (auto simp: all_owed_def)
    then show ?thesis by simp
  next
    case False
    then have "gp_cursor (pr_groups p' g) = None" using progress_okD(2) [OF ok, of g] by simp
    then show ?thesis by (simp add: owed_def)
  qed
  have streams: "case gp_cursor ?gr of
         Some (Some c) \<Rightarrow> if v = gp_through ?gr then {s \<in> set (gp_streams ?gr). c \<le> s} \<subseteq> set ss else set (gp_streams ?gr) \<subseteq> set ss
       | _ \<Rightarrow> set (gp_streams ?gr) \<subseteq> set ss"
  proof (cases "gp_cursor ?gr = None \<or> v \<noteq> gp_through ?gr")
    case True
    have "set (gp_streams ?gr) \<subseteq> set ss" using publish_ok(2) [OF zs True, of r] served unfolding assms(2) by simp
    then show ?thesis by (auto split: option.split)
  next
    case False
    then obtain c where c: "gp_cursor ?gr = Some (Some c)" using progress_okD(3) [OF zs, of g] by (auto simp: group_ok_def split: option.splits)
    have "set (filter (\<lambda>x. c \<le> x) (gp_streams ?gr)) \<subseteq> set ss" using publish_ok(3) [OF zs c, of v r] served unfolding assms(2) by (rule order_trans)
    then show ?thesis using False c by simp
  qed
  have fair: "map (Some \<circ> Some) (fst (drain (length xs) p')) = map (\<lambda>h. gp_cursor (pr_groups p' h)) xs"
    using drain_fair [of p' xs "[]"] ok by simp
  have "distinct xs" using ok by (simp add: progress_ok_def queued_def)
  then show ?thesis
    by (intro exI [of _ xs] exI [of _ ss] exI [of _ q] conjI) (use d len streams fair progress_okD(2) [OF ok] in \<open>simp_all only: not_False_eq_True, blast\<close>)
qed

definition two_scopes :: progress where
  "two_scopes = progress_publish 1 5 False (stream_add 2 9 (stream_add 1 8 (stream_add 1 7 progress_new)))"

lemma two_scopes_reachable: "progress_reachable two_scopes"
  unfolding two_scopes_def by (intro progress_reachable.intros)

theorem progress_serves_witness:
  "\<exists>ss q. drain (length ss) (progress_publish 2 0 False two_scopes) = (ss, q) \<and> \<not> progress_pending q \<and> 9 \<in> set ss"
proof -
  have "gp_cursor (pr_groups two_scopes 2) = None \<and> gp_streams (pr_groups two_scopes 2) = [9]" by code_simp
  then show ?thesis using progress_serves [OF two_scopes_reachable refl, of 2 0 False] by auto
qed

text \<open>C33: A position that a group claims to cover is one that can be continued: every version after it, up to the group's own, was
  notified exactly once, in order, and none of these notifications replaced everything.\<close>

theorem progress_covers:
  assumes "covers (noted hs group_new) b" "unat b \<le> unat (gp_version (noted hs group_new))"
  shows "\<exists>pre. hs = pre @ steps (Suc (unat b)) (unat (gp_version (noted hs group_new)))"
proof -
  let ?gr = "noted hs group_new" and ?v = "unat (gp_version (noted hs group_new))"
  have run: "continuous hs ?gr" by (rule noted_run)
  consider "gp_first ?gr = None" | f where "gp_first ?gr = Some f" "gp_reset ?gr = None" | f q where "gp_first ?gr = Some f" "gp_reset ?gr = Some q"
    by (cases "gp_first ?gr"; cases "gp_reset ?gr") auto
  then show ?thesis
  proof cases
    case 1
    then have "hs = []" using run by (simp add: continuous_def)
    then show ?thesis by (simp add: noted_def group_new_def steps_def)
  next
    case (2 f)
    then have h: "hs = steps (unat f) ?v" using run by (simp add: continuous_def)
    have "unat f \<le> Suc (unat b)"
    proof (cases "b = - 1")
      case True
      then show ?thesis using word_order.extremum [of f] by (simp only: word_le_nat_alt le_SucI)
    next
      case False
      then have "f \<le> b + 1" using assms(1) 2 by (simp add: covers_def)
      then show ?thesis using steps_extend(2) [of 0 b] False by (simp add: word_le_nat_alt)
    qed
    then show ?thesis using steps_split [OF _ assms(2)] h by metis
  next
    case (3 f q)
    then obtain pre c where h: "hs = pre @ (q, c) # steps (Suc (unat q)) ?v" using run by (auto simp: continuous_def)
    have "unat q \<le> unat b" using assms(1) 3 by (simp add: covers_def word_le_nat_alt)
    then obtain pre' where "steps (Suc (unat q)) ?v = pre' @ steps (Suc (unat b)) ?v"
      using steps_split [OF _ assms(2)] by (meson Suc_le_mono)
    then have "hs = (pre @ (q, c) # pre') @ steps (Suc (unat b)) ?v" using h by simp
    then show ?thesis ..
  qed
qed

theorem progress_covers_witness:
  "\<exists>pre. [(3, False), (7, True), (8, False), (9, False)]
    = pre @ steps (Suc (unat (7 :: u64))) (unat (gp_version (noted [(3, False), (7, True), (8, False), (9, False)] group_new)))"
proof (rule progress_covers)
  show "covers (noted [(3, False), (7, True), (8, False), (9, False)] group_new) 7" by code_simp
  show "unat (7 :: u64) \<le> unat (gp_version (noted [(3, False), (7, True), (8, False), (9, False)] group_new))" by code_simp
qed

end
