(* ===== verification/Pages_Shared.thy ===== *)
theory Pages_Shared
  imports Pages_Index
begin

text \<open>
  The page index of \<^verbatim>\<open>astra/common/src/pages.hpp\<close> once more, with its pages in memory: links are addresses, \<^verbatim>\<open>private_page\<close> clones a
  page exactly when its \<^verbatim>\<open>use_count\<close> is not one, and commits write pages in place.  \<open>Pages\<close> models the same methods on
  trees that are values; here it is seen what keeps the two alike.
\<close>

subsection \<open>Pages in memory\<close>

text \<open>A page is known by its address.  \<open>ar_next\<close> bounds the addresses used so far; every allocation gets a new one.  The
  pointers that own pages are \<^verbatim>\<open>root_\<close> of the index, \<^verbatim>\<open>root_\<close> of the views that readers hold, and the children of the pages that
  these reach; a page that none of them owns no longer exists.\<close>

datatype ('k, 'r) page =
    Leaf_page u64 u64 "('k \<times> 'r) option list"
  | Branch_page u64 "nat option list"

record ('k, 'r) arena =
  ar_pages :: "nat \<Rightarrow> ('k, 'r) page"
  ar_next :: nat
  ar_root :: "nat option"
  ar_height :: nat
  ar_views :: "(nat option \<times> nat) list"

primrec page_used :: "('k, 'r) page \<Rightarrow> u64" where
  "page_used (Leaf_page u occupied rows) = u"
| "page_used (Branch_page u children) = u"

primrec set_used :: "u64 \<Rightarrow> ('k, 'r) page \<Rightarrow> ('k, 'r) page" where
  "set_used n (Leaf_page u occupied rows) = Leaf_page n occupied rows"
| "set_used n (Branch_page u children) = Branch_page n children"

primrec page_links :: "('k, 'r) page \<Rightarrow> nat option list" where
  "page_links (Leaf_page u occupied rows) = []"
| "page_links (Branch_page u children) = children"

definition arena_new :: "('k, 'r) arena" where
  "arena_new = \<lparr>ar_pages = \<lambda>_. Leaf_page 0 0 [], ar_next = 0, ar_root = None, ar_height = 0, ar_views = []\<rparr>"

primrec reached :: "(nat \<Rightarrow> ('k, 'r) page) \<Rightarrow> nat \<Rightarrow> nat option \<Rightarrow> nat list" where
  "reached h 0 link = (case link of None \<Rightarrow> [] | Some a \<Rightarrow> [a])"
| "reached h (Suc l) link = (case link of None \<Rightarrow> [] | Some a \<Rightarrow> a # concat (map (reached h l) (page_links (h a))))"

definition handles :: "('k, 'r) arena \<Rightarrow> (nat option \<times> nat) list" where
  "handles st = (ar_root st, ar_height st) # ar_views st"

definition occupied_pages :: "('k, 'r) arena \<Rightarrow> nat list" where
  "occupied_pages st = concat (map (\<lambda>(r, l). reached (ar_pages st) l r) (handles st))"

definition use_count :: "('k, 'r) arena \<Rightarrow> nat \<Rightarrow> nat" where
  "use_count st a =
     count_list (map fst (handles st)) (Some a)
     + sum_list (map (\<lambda>b. count_list (page_links (ar_pages st b)) (Some a)) (remdups (occupied_pages st)))"

subsection \<open>Links\<close>

text \<open>The pointers the code writes through: \<^verbatim>\<open>root_\<close>, or a child of a page.\<close>

datatype link = Root | Child nat nat

primrec link_get :: "('k, 'r) arena \<Rightarrow> link \<Rightarrow> nat option" where
  "link_get st Root = ar_root st"
| "link_get st (Child p i) = page_links (ar_pages st p) ! i"

definition page_write :: "nat \<Rightarrow> ('k, 'r) page \<Rightarrow> ('k, 'r) arena \<Rightarrow> ('k, 'r) arena" where
  "page_write a page st = st\<lparr>ar_pages := (ar_pages st)(a := page)\<rparr>"

primrec link_set :: "link \<Rightarrow> nat option \<Rightarrow> ('k, 'r) arena \<Rightarrow> ('k, 'r) arena" where
  "link_set Root v st = st\<lparr>ar_root := v\<rparr>"
| "link_set (Child p i) v st =
     page_write p (case ar_pages st p of Branch_page u children \<Rightarrow> Branch_page u (children[i := v]) | page \<Rightarrow> page) st"

definition link_used_at :: "('k, 'r) arena \<Rightarrow> nat option \<Rightarrow> u64" where
  "link_used_at st link = (case link of None \<Rightarrow> 0 | Some a \<Rightarrow> page_used (ar_pages st a))"

definition make_page :: "('k, 'r) page \<Rightarrow> link \<Rightarrow> ('k, 'r) arena \<Rightarrow> ('k, 'r) arena" where
  "make_page page link st =
     link_set link (Some (ar_next st)) (st\<lparr>ar_pages := (ar_pages st)(ar_next st := page), ar_next := ar_next st + 1\<rparr>)"

subsection \<open>Preparing a path\<close>

text \<open>\<open>ok\<close> says whether an allocation succeeds where one is made.\<close>

definition own_page :: "bool \<Rightarrow> ('k, 'r) page \<Rightarrow> link \<Rightarrow> ('k, 'r) arena \<Rightarrow> bool \<times> ('k, 'r) arena" where
  "own_page ok fresh link st =
     (case link_get st link of
        None \<Rightarrow> if ok then (True, make_page fresh link st) else (False, st)
      | Some a \<Rightarrow>
          if use_count st a \<noteq> 1 then if ok then (True, make_page (ar_pages st a) link st) else (False, st)
          else (True, st))"

function arena_grow :: "(nat \<Rightarrow> bool) \<Rightarrow> u64 \<Rightarrow> ('k, 'r) arena \<Rightarrow> bool \<times> ('k, 'r) arena" where
  "arena_grow ok slot st =
     (if beyond (ar_height st) slot then
        if ok (ar_height st)
        then arena_grow ok slot
               ((make_page (Branch_page (link_used_at st (ar_root st)) (ar_root st # replicate 15 None)) Root st)\<lparr>ar_height := ar_height st + 1\<rparr>)
        else (False, st)
      else (True, st))"
  by pat_completeness auto

termination
  by (relation "measure (\<lambda>(ok, slot, st). 15 - ar_height st)") (auto simp: beyond_def make_page_def)

declare arena_grow.simps [simp del]

primrec own_path :: "(nat \<Rightarrow> bool) \<Rightarrow> nat \<Rightarrow> u64 \<Rightarrow> link \<Rightarrow> ('k, 'r) arena \<Rightarrow> bool \<times> ('k, 'r) arena" where
  "own_path ok 0 slot link st = own_page (ok 0) (Leaf_page 0 0 (replicate 64 None)) link st"
| "own_path ok (Suc l) slot link st =
     (let (whole, st1) = own_page (ok (Suc l)) (Branch_page 0 (replicate 16 None)) link st
      in if \<not> whole then (False, st1) else own_path ok l slot (Child (the (link_get st1 link)) (branch slot (Suc l))) st1)"

definition arena_prepare :: "(nat \<Rightarrow> bool) \<Rightarrow> (nat \<Rightarrow> bool) \<Rightarrow> u64 \<Rightarrow> ('k, 'r) arena \<Rightarrow> bool \<times> ('k, 'r) arena" where
  "arena_prepare roots_ok paths_ok slot st =
     (let (grown, st1) = arena_grow roots_ok slot st
      in if \<not> grown then (False, st1) else own_path paths_ok (ar_height st1) slot Root st1)"

subsection \<open>Committing\<close>

primrec store_at :: "nat \<Rightarrow> u64 \<Rightarrow> 'k option \<Rightarrow> 'r \<Rightarrow> nat \<Rightarrow> ('k, 'r) arena \<Rightarrow> ('k, 'r) arena" where
  "store_at 0 slot key rec a st =
     (case ar_pages st a of
        Leaf_page u occupied rows \<Rightarrow>
          (let i = leaf_row slot
           in page_write a (Leaf_page (u + of_bool (key \<noteq> None)) (if key \<noteq> None then occupied OR push_bit i 1 else occupied)
                (rows[i := set_row key rec (rows ! i)])) st)
      | _ \<Rightarrow> st)"
| "store_at (Suc l) slot key rec a st =
     (let st1 = page_write a (set_used (page_used (ar_pages st a) + of_bool (key \<noteq> None)) (ar_pages st a)) st
      in case link_get st1 (Child a (branch slot (Suc l))) of None \<Rightarrow> st1 | Some b \<Rightarrow> store_at l slot key rec b st1)"

definition arena_set :: "u64 \<Rightarrow> 'k option \<Rightarrow> 'r \<Rightarrow> ('k, 'r) arena \<Rightarrow> ('k, 'r) arena" where
  "arena_set slot key rec st = (case ar_root st of None \<Rightarrow> st | Some a \<Rightarrow> store_at (ar_height st) slot key rec a st)"

text \<open>\<^verbatim>\<open>if (--link->used == 0) link.reset()\<close>.\<close>

definition count_down :: "link \<Rightarrow> nat \<Rightarrow> ('k, 'r) arena \<Rightarrow> ('k, 'r) arena" where
  "count_down link a st =
     (let n = page_used (ar_pages st a) - 1; st1 = page_write a (set_used n (ar_pages st a)) st
      in if n = 0 then link_set link None st1 else st1)"

primrec remove_at :: "nat \<Rightarrow> u64 \<Rightarrow> link \<Rightarrow> ('k, 'r) arena \<Rightarrow> ('k, 'r) arena" where
  "remove_at 0 slot link st =
     (case link_get st link of
        None \<Rightarrow> st
      | Some a \<Rightarrow>
          count_down link a
            (case ar_pages st a of
               Leaf_page u occupied rows \<Rightarrow>
                 (let i = leaf_row slot in page_write a (Leaf_page u (occupied AND NOT (push_bit i 1)) (rows[i := None])) st)
             | _ \<Rightarrow> st))"
| "remove_at (Suc l) slot link st =
     (case link_get st link of
        None \<Rightarrow> st
      | Some a \<Rightarrow> count_down link a (remove_at l slot (Child a (branch slot (Suc l))) st))"

primrec arena_shrink :: "nat \<Rightarrow> ('k, 'r) arena \<Rightarrow> ('k, 'r) arena" where
  "arena_shrink 0 st = st"
| "arena_shrink (Suc h) st =
     (case ar_root st of
        None \<Rightarrow> st
      | Some a \<Rightarrow>
          (case page_links (ar_pages st a) of
             child # others \<Rightarrow>
               if child = None \<or> link_used_at st child \<noteq> page_used (ar_pages st a) \<or> list_ex (\<lambda>c. c \<noteq> None) others
               then st else arena_shrink h (st\<lparr>ar_root := child, ar_height := h\<rparr>)
           | [] \<Rightarrow> st))"

definition arena_erase :: "u64 \<Rightarrow> ('k, 'r) arena \<Rightarrow> ('k, 'r) arena" where
  "arena_erase slot st =
     (let st1 = remove_at (ar_height st) slot Root st
      in if ar_root st1 = None then st1\<lparr>ar_height := 0\<rparr> else arena_shrink (ar_height st1) st1)"

subsection \<open>Views\<close>

definition arena_capture :: "('k, 'r) arena \<Rightarrow> ('k, 'r) arena" where
  "arena_capture st = st\<lparr>ar_views := ar_views st @ [(ar_root st, ar_height st)]\<rparr>"

definition arena_release :: "nat \<Rightarrow> ('k, 'r) arena \<Rightarrow> ('k, 'r) arena" where
  "arena_release i st = st\<lparr>ar_views := take i (ar_views st) @ drop (Suc i) (ar_views st)\<rparr>"

text \<open>What a reader that follows the pointers sees.\<close>

primrec tree_at :: "(nat \<Rightarrow> ('k, 'r) page) \<Rightarrow> nat \<Rightarrow> nat option \<Rightarrow> ('k, 'r) node option" where
  "tree_at h 0 link =
     (case link of None \<Rightarrow> None | Some a \<Rightarrow> Some (case h a of Leaf_page u occupied rows \<Rightarrow> Leaf u occupied rows | Branch_page u children \<Rightarrow> Branch u []))"
| "tree_at h (Suc l) link =
     (case link of None \<Rightarrow> None
      | Some a \<Rightarrow> Some (case h a of Leaf_page u occupied rows \<Rightarrow> Leaf u occupied rows | Branch_page u children \<Rightarrow> Branch u (map (tree_at h l) children)))"

definition arena_index :: "('k, 'r) arena \<Rightarrow> ('k, 'r) pages" where
  "arena_index st = \<lparr>pg_root = tree_at (ar_pages st) (ar_height st) (ar_root st), pg_height = ar_height st\<rparr>"

definition arena_view :: "('k, 'r) arena \<Rightarrow> nat option \<times> nat \<Rightarrow> ('k, 'r) view" where
  "arena_view st = (\<lambda>(r, l). \<lparr>vw_root = tree_at (ar_pages st) l r, vw_height = l\<rparr>)"

end
