(* ===== verification/Pages_Shared_Owners.thy ===== *)
theory Pages_Shared_Owners
  imports Pages_Shared
begin

text \<open>
  Who owns a page: how often the handles of the index and of the views reach it, what an exchanged link does to that, and that a page with
  one owner on an owned path is reached only once.
\<close>

subsection \<open>Frames\<close>

text \<open>What is read below a link depends only on the pages reached from it.\<close>

lemma read_frame:
  assumes "\<And>x. x \<in> set (reached h l link) \<Longrightarrow> h' x = h x"
  shows "reached h' l link = reached h l link" "tree_at h' l link = tree_at h l link"
proof -
  have "reached h' l link = reached h l link \<and> tree_at h' l link = tree_at h l link" using assms
  proof (induction l arbitrary: link)
    case (Suc l)
    show ?case
    proof (cases link)
      case (Some a)
      have a: "h' a = h a" using Suc.prems Some by simp
      have "reached h' l c = reached h l c \<and> tree_at h' l c = tree_at h l c" if "c \<in> set (page_links (h a))" for c
        using that Some by (intro Suc.IH Suc.prems) auto
      then show ?thesis using Some a by (cases "h a") (auto intro!: arg_cong [where f = concat])
    qed simp
  qed (auto split: option.splits)
  then show "reached h' l link = reached h l link" "tree_at h' l link = tree_at h l link" by blast+
qed

text \<open>The shape of the pages below a link: addresses in use, each of one level, leaves at the bottom and branches of sixteen
  children above.\<close>

primrec shaped :: "(nat \<Rightarrow> nat) \<Rightarrow> nat \<Rightarrow> (nat \<Rightarrow> ('k, 'r) page) \<Rightarrow> nat \<Rightarrow> nat option \<Rightarrow> bool" where
  "shaped lev n h 0 link = (case link of None \<Rightarrow> True | Some a \<Rightarrow> a < n \<and> lev a = 0 \<and> (\<exists>u occupied rows. h a = Leaf_page u occupied rows))"
| "shaped lev n h (Suc l) link =
     (case link of None \<Rightarrow> True
      | Some a \<Rightarrow> a < n \<and> lev a = Suc l \<and> (\<exists>u cs. h a = Branch_page u cs \<and> length cs = 16 \<and> list_all (shaped lev n h l) cs))"

lemma shaped_None [simp]: "shaped lev n h l None"
  by (cases l) simp_all

lemma reached_None [simp]: "reached h l None = []" "tree_at h l None = None"
  by (cases l; simp)+

lemma reached_shaped:
  assumes "shaped lev n h l link" "x \<in> set (reached h l link)"
  shows "x < n" "lev x \<le> l"
proof -
  have "x < n \<and> lev x \<le> l" using assms
  proof (induction l arbitrary: link)
    case (Suc l)
    then obtain a u cs where a: "link = Some a" "a < n" "lev a = Suc l" "h a = Branch_page u cs" "list_all (shaped lev n h l) cs"
      by (auto split: option.splits)
    then consider "x = a" | c where "c \<in> set cs" "x \<in> set (reached h l c)" using Suc.prems(2) by auto
    then show ?case
    proof cases
      case 2
      then show ?thesis using Suc.IH [of c] a(5) by (auto simp: list_all_iff)
    qed (use a in simp)
  qed (auto split: option.splits)
  then show "x < n" "lev x \<le> l" by blast+
qed

lemma shaped_frame:
  assumes "shaped lev n h l link" "\<And>x. x \<in> set (reached h l link) \<Longrightarrow> h' x = h x \<and> lev' x = lev x" "n \<le> n'"
  shows "shaped lev' n' h' l link"
  using assms(1,2)
proof (induction l arbitrary: link)
  case (Suc l)
  show ?case
  proof (cases link)
    case (Some a)
    then obtain u cs where a: "a < n" "lev a = Suc l" "h a = Branch_page u cs" "length cs = 16" "list_all (shaped lev n h l) cs"
      using Suc.prems(1) by auto
    have "shaped lev' n' h' l c" if "c \<in> set cs" for c
      using that a(3,5) Some by (intro Suc.IH Suc.prems(2)) (auto simp: list_all_iff)
    then show ?thesis using Some a Suc.prems(2) [of a] assms(3) by (auto simp: list_all_iff)
  qed simp
qed (use assms(3) in \<open>auto split: option.splits\<close>)

lemma reached_sub:
  assumes "shaped lev n h l link" "y \<in> set (reached h l link)"
  shows "count_list (reached h (lev y) (Some y)) x \<le> count_list (reached h l link) x"
  using assms
proof (induction l arbitrary: link)
  case (Suc l)
  then obtain a u cs where a: "link = Some a" "lev a = Suc l" "h a = Branch_page u cs" "list_all (shaped lev n h l) cs"
    by (auto split: option.splits)
  then consider "y = a" | c where "c \<in> set cs" "y \<in> set (reached h l c)" using Suc.prems(2) by auto
  then show ?case
  proof cases
    case 1
    then show ?thesis using a by simp
  next
    case 2
    have "count_list (reached h (lev y) (Some y)) x \<le> count_list (reached h l c) x" using Suc.IH [of c] 2 a(4) by (auto simp: list_all_iff)
    also have "\<dots> \<le> count_list (concat (map (reached h l) cs)) x"
      using 2(1) by (induction cs) (auto simp: count_list_append)
    also have "\<dots> \<le> count_list (reached h (Suc l) link) x" using a by simp
    finally show ?thesis .
  qed
qed (auto split: option.splits)

subsection \<open>Owners\<close>

lemma count_concat: "count_list (concat xss) x = sum_list (map (\<lambda>xs. count_list xs x) xss)"
  by (induction xss) (simp_all add: count_list_append)

text \<open>How often a page is reached, by the links to it.\<close>

lemma reached_owners:
  assumes "shaped lev n h l link"
  shows "count_list (reached h l link) x =
    of_bool (link = Some x) + sum_list (map (\<lambda>b. count_list (page_links (h b)) (Some x)) (reached h l link))"
  using assms
proof (induction l arbitrary: link)
  case 0
  then show ?case by (auto split: option.splits)
next
  case (Suc l)
  show ?case
  proof (cases link)
    case (Some a)
    let ?w = "\<lambda>b. count_list (page_links (h b)) (Some x)"
    obtain u cs where a: "h a = Branch_page u cs" "list_all (shaped lev n h l) cs" using Suc.prems Some by auto
    have "sum_list (map (\<lambda>c. count_list (reached h l c) x) cs) = sum_list (map (\<lambda>c. of_bool (c = Some x) + sum_list (map ?w (reached h l c))) cs)"
      using Suc.IH a(2) by (intro arg_cong [where f = sum_list] map_cong) (auto simp: list_all_iff)
    also have "\<dots> = count_list cs (Some x) + sum_list (map ?w (concat (map (reached h l) cs)))"
      by (induction cs) simp_all
    finally show ?thesis using Some a(1) by (simp add: count_concat comp_def)
  qed simp
qed

definition arena_shaped :: "(nat \<Rightarrow> nat) \<Rightarrow> ('k, 'r) arena \<Rightarrow> bool" where
  "arena_shaped lev st \<longleftrightarrow> list_all (\<lambda>(r, l). shaped lev (ar_next st) (ar_pages st) l r) (handles st)"

abbreviation visits :: "('k, 'r) arena \<Rightarrow> nat \<Rightarrow> nat" where
  "visits st x \<equiv> count_list (occupied_pages st) x"

lemma visits_owners:
  assumes "arena_shaped lev st"
  shows "visits st x = count_list (map fst (handles st)) (Some x)
    + sum_list (map (\<lambda>b. count_list (page_links (ar_pages st b)) (Some x)) (occupied_pages st))"
proof -
  have "count_list (concat (map (\<lambda>(r, l). reached (ar_pages st) l r) hs)) x = count_list (map fst hs) (Some x)
      + sum_list (map (\<lambda>b. count_list (page_links (ar_pages st b)) (Some x)) (concat (map (\<lambda>(r, l). reached (ar_pages st) l r) hs)))"
    if "list_all (\<lambda>(r, l). shaped lev (ar_next st) (ar_pages st) l r) hs" for hs
    using that by (induction hs) (auto simp: count_list_append reached_owners)
  then show ?thesis using assms by (simp add: arena_shaped_def occupied_pages_def)
qed

lemma visits_use_count:
  assumes ok: "arena_shaped lev st" and use: "use_count st x = 1"
    and link: "ar_root st = Some x \<or> (\<exists>p. visits st p = 1 \<and> Some x \<in> set (page_links (ar_pages st p)))"
  shows "visits st x = 1"
proof -
  let ?w = "\<lambda>b. count_list (page_links (ar_pages st b)) (Some x)" and ?o = "occupied_pages st"
  let ?r = "count_list (map fst (handles st)) (Some x)"
  have u: "?r + sum ?w (set ?o) = 1"
    using use unfolding use_count_def by (simp add: sum_list_distinct_conv_sum_set)
  have t: "visits st x = ?r + (\<Sum>b \<in> set ?o. visits st b * ?w b)"
    unfolding visits_owners [OF ok, of x] by (simp add: sum_list_map_eq_sum_count)
  from link show ?thesis
  proof
    assume "ar_root st = Some x"
    then have "?r \<ge> 1" by (simp add: handles_def)
    then have r: "?r = 1" "sum ?w (set ?o) = 0" using u by linarith+
    from r(2) have "\<forall>b \<in> set ?o. ?w b = 0" by simp
    then show ?thesis using t r(1) by simp
  next
    assume "\<exists>p. visits st p = 1 \<and> Some x \<in> set (page_links (ar_pages st p))"
    then obtain p where p: "visits st p = 1" "?w p \<noteq> 0" by (auto simp: count_list_0_iff)
    have po: "p \<in> set ?o" using p(1) by (metis count_notin zero_neq_one)
    have "sum ?w (set ?o) = ?w p + sum ?w (set ?o - {p})" using po by (simp add: sum.remove)
    then have z: "?r = 0" "?w p = 1" "sum ?w (set ?o - {p}) = 0" using u p(2) by linarith+
    from z(3) have "\<forall>b \<in> set ?o - {p}. ?w b = 0" by simp
    then have "(\<Sum>b \<in> set ?o. visits st b * ?w b) = visits st p * ?w p"
      using po by (subst sum.remove [of _ p]) auto
    then show ?thesis using t z p(1) by simp
  qed
qed

abbreviation root_pages :: "('k, 'r) arena \<Rightarrow> nat list" where
  "root_pages st \<equiv> reached (ar_pages st) (ar_height st) (ar_root st)"

definition view_pages :: "('k, 'r) arena \<Rightarrow> nat list" where
  "view_pages st = concat (map (\<lambda>(r, l). reached (ar_pages st) l r) (ar_views st))"

lemma visits_split: "visits st x = count_list (root_pages st) x + count_list (view_pages st) x"
  by (simp add: occupied_pages_def handles_def view_pages_def count_list_append)

lemma visits_once:
  assumes "visits st x = 1" "x \<in> set (root_pages st)"
  shows "count_list (root_pages st) x = 1" "x \<notin> set (view_pages st)"
proof -
  have "count_list (root_pages st) x \<noteq> 0" using assms(2) by (simp add: count_list_0_iff)
  then have "count_list (root_pages st) x = 1" "count_list (view_pages st) x = 0" using assms(1) visits_split [of st x] by linarith+
  then show "count_list (root_pages st) x = 1" "x \<notin> set (view_pages st)" by (simp_all add: count_list_0_iff)
qed

lemma arena_shaped_root: "arena_shaped lev st \<Longrightarrow> shaped lev (ar_next st) (ar_pages st) (ar_height st) (ar_root st)"
  by (simp add: arena_shaped_def handles_def)

lemma reached_page:
  assumes "shaped lev n h l link" "y \<in> set (reached h l link)"
  shows "shaped lev n h (lev y) (Some y)"
  using assms
proof (induction l arbitrary: link)
  case (Suc l)
  then obtain a u cs where a: "link = Some a" "lev a = Suc l" "h a = Branch_page u cs" "list_all (shaped lev n h l) cs"
    by (auto split: option.splits)
  then consider "y = a" | c where "c \<in> set cs" "y \<in> set (reached h l c)" using Suc.prems(2) by auto
  then show ?case
  proof cases
    case 1
    then show ?thesis using a Suc.prems(1) by simp
  next
    case 2
    then show ?thesis using Suc.IH [of c] a(4) by (auto simp: list_all_iff)
  qed
qed (auto split: option.splits)

lemma sum_list_replaced:
  fixes f :: "'a \<Rightarrow> nat"
  assumes "i < length cs"
  shows "sum_list (map f (cs[i := v])) + f (cs ! i) = sum_list (map f cs) + f v"
  using assms by (induction cs arbitrary: i) (auto split: nat.splits simp: nth_Cons')

text \<open>Exchanging one child of a page.\<close>

lemma reached_swap:
  assumes p: "h p = Branch_page u cs" "lev p = Suc lp" "i < length cs" and v: "shaped lev n h lp v"
    and s: "shaped lev n h l link"
  defines "h' \<equiv> h(p := Branch_page u (cs[i := v]))"
  shows "count_list (reached h' l link) x + count_list (reached h l link) p * count_list (reached h lp (cs ! i)) x
      = count_list (reached h l link) x + count_list (reached h l link) p * count_list (reached h lp v) x"
    "shaped lev n h' l link"
proof -
  have below: "p \<notin> set (reached h k c)" if "k \<le> lp" "shaped lev n h k c" for k c
    using reached_shaped(2) [OF that(2), of p] that(1) p(2) by fastforce
  have keep: "reached h' k c = reached h k c" "shaped lev n h' k c" if "k \<le> lp" "shaped lev n h k c" for k c
  proof -
    have "h' y = h y" if "y \<in> set (reached h k c)" for y using below [OF \<open>k \<le> lp\<close> \<open>shaped lev n h k c\<close>] that by (auto simp: h'_def)
    then show "reached h' k c = reached h k c" "shaped lev n h' k c"
      using read_frame(1) [of h k c h'] shaped_frame [OF that(2), of h' lev n] by auto
  qed
  have "count_list (reached h' l link) x + count_list (reached h l link) p * count_list (reached h lp (cs ! i)) x
      = count_list (reached h l link) x + count_list (reached h l link) p * count_list (reached h lp v) x \<and> shaped lev n h' l link"
    using s
  proof (induction l arbitrary: link)
    case 0
    then show ?case using p(2) by (auto simp: h'_def split: option.splits)
  next
    case (Suc l)
    show ?case
    proof (cases link)
      case (Some a)
      then obtain w ds where a: "a < n" "lev a = Suc l" "h a = Branch_page w ds" "length ds = 16" "list_all (shaped lev n h l) ds"
        using Suc.prems by auto
      show ?thesis
      proof (cases "a = p")
        case True
        have l: "l = lp" "ds = cs" using True a p by simp_all
        have all: "list_all (shaped lev n h lp) (cs[i := v])" using a(5) l v by (auto simp: list_all_iff dest!: set_update_subset_insert [THEN subsetD])
        have r: "map (reached h' lp) (cs[i := v]) = map (reached h lp) (cs[i := v])" using all keep(1) by (auto simp: list_all_iff)
        have np: "count_list (concat (map (reached h lp) cs)) p = 0"
          using below a(5) l by (auto simp: count_list_0_iff list_all_iff)
        have hp: "h' p = Branch_page u (cs[i := v])" by (simp add: h'_def)
        have r': "reached h' (Suc l) link = p # concat (map (reached h lp) (cs[i := v]))" "reached h (Suc l) link = p # concat (map (reached h lp) cs)"
          using Some True l p(1) hp r by (simp_all only: reached.simps option.case page_links.simps)
        have "shaped lev n h' (Suc l) link" using Some True a l all keep(2) by (auto simp: h'_def list_all_iff)
        moreover have "sum_list (map (\<lambda>c. count_list (reached h lp c) x) (cs[i := v])) + count_list (reached h lp (cs ! i)) x
            = sum_list (map (\<lambda>c. count_list (reached h lp c) x) cs) + count_list (reached h lp v) x"
          by (rule sum_list_replaced [OF p(3)])
        then have "count_list (concat (map (reached h lp) (cs[i := v]))) x + count_list (reached h lp (cs ! i)) x
            = count_list (concat (map (reached h lp) cs)) x + count_list (reached h lp v) x" by (simp add: count_concat comp_def)
        ultimately show ?thesis unfolding r' using np by simp
      next
        case False
        have ih: "count_list (reached h' l c) x + count_list (reached h l c) p * count_list (reached h lp (cs ! i)) x
            = count_list (reached h l c) x + count_list (reached h l c) p * count_list (reached h lp v) x" "shaped lev n h' l c"
          if "c \<in> set ds" for c using Suc.IH [of c] a(5) that by (auto simp: list_all_iff)
        then have "shaped lev n h' (Suc l) link" using Some a False by (auto simp: h'_def list_all_iff)
        moreover have "sum_list (map (\<lambda>c. count_list (reached h' l c) x) ds) + sum_list (map (\<lambda>c. count_list (reached h l c) p) ds) * count_list (reached h lp (cs ! i)) x
            = sum_list (map (\<lambda>c. count_list (reached h l c) x) ds) + sum_list (map (\<lambda>c. count_list (reached h l c) p) ds) * count_list (reached h lp v) x"
          using ih(1) by (induction ds) (auto simp: algebra_simps)
        moreover have "h' a = Branch_page w ds" using a(3) False by (simp add: h'_def)
        ultimately show ?thesis using Some a(3) False by (simp add: count_concat comp_def)
      qed
    qed simp
  qed
  then show "count_list (reached h' l link) x + count_list (reached h l link) p * count_list (reached h lp (cs ! i)) x
      = count_list (reached h l link) x + count_list (reached h l link) p * count_list (reached h lp v) x"
    "shaped lev n h' l link" by blast+
qed

text \<open>A link that the writer owns: the root, or a child of a page that is reached only once, from the root.\<close>

definition owned :: "(nat \<Rightarrow> nat) \<Rightarrow> ('k, 'r) arena \<Rightarrow> nat \<Rightarrow> link \<Rightarrow> bool" where
  "owned lev st l link \<longleftrightarrow> (case link of
     Root \<Rightarrow> l = ar_height st
   | Child p i \<Rightarrow> p \<in> set (root_pages st) \<and> visits st p = 1 \<and> lev p = Suc l \<and> i < 16)"

primrec holder :: "link \<Rightarrow> nat set" where
  "holder Root = {}"
| "holder (Child p i) = {p}"

lemma owned_page:
  assumes "arena_shaped lev st" "owned lev st l (Child p i)"
  obtains u cs where "ar_pages st p = Branch_page u cs" "length cs = 16" "list_all (shaped lev (ar_next st) (ar_pages st) l) cs"
    "i < length cs" "lev p = Suc l" "visits st p = 1" "p \<in> set (root_pages st)" "p < ar_next st"
proof -
  have p: "p \<in> set (root_pages st)" "visits st p = 1" "lev p = Suc l" "i < 16" using assms(2) by (simp_all add: owned_def)
  have "shaped lev (ar_next st) (ar_pages st) (lev p) (Some p)" by (rule reached_page [OF arena_shaped_root [OF assms(1)] p(1)])
  then show thesis using that p by auto
qed

lemma owned_shaped:
  assumes "arena_shaped lev st" "owned lev st l link"
  shows "shaped lev (ar_next st) (ar_pages st) l (link_get st link)"
proof (cases link)
  case Root
  then show ?thesis using arena_shaped_root [OF assms(1)] assms(2) by (simp add: owned_def)
next
  case (Child p i)
  show ?thesis
    by (rule owned_page [OF assms(1) assms(2) [unfolded Child]]) (auto simp: Child list_all_length)
qed

lemma owned_sub:
  assumes "arena_shaped lev st" "owned lev st l link"
  shows "count_list (reached (ar_pages st) l (link_get st link)) x \<le> count_list (root_pages st) x"
proof (cases link)
  case Root
  then show ?thesis using assms(2) by (simp add: owned_def)
next
  case (Child p i)
  obtain u cs where p: "ar_pages st p = Branch_page u cs" "i < length cs" "lev p = Suc l" "p \<in> set (root_pages st)"
    by (rule owned_page [OF assms(1) assms(2) [unfolded Child]]) blast
  have "count_list (reached (ar_pages st) l (cs ! i)) x \<le> count_list (concat (map (reached (ar_pages st) l) cs)) x"
    unfolding count_concat map_map comp_def using p(2) by (intro member_le_sum_list) auto
  also have "\<dots> \<le> count_list (reached (ar_pages st) (lev p) (Some p)) x" using p by simp
  also have "\<dots> \<le> count_list (root_pages st) x" by (rule reached_sub [OF arena_shaped_root [OF assms(1)] p(4)])
  finally show ?thesis using Child p(1) by simp
qed

lemma link_set_frame [simp]:
  "ar_next (link_set link v st) = ar_next st" "ar_height (link_set link v st) = ar_height st" "ar_views (link_set link v st) = ar_views st"
  by (cases link; simp add: page_write_def)+

lemma view_pages_frame:
  assumes "\<And>x. x \<in> set (view_pages st) \<Longrightarrow> ar_pages st' x = ar_pages st x" "ar_views st' = ar_views st"
  shows "view_pages st' = view_pages st" "map (arena_view st') (ar_views st') = map (arena_view st) (ar_views st)"
    "list_all (\<lambda>(r, l). shaped lev n (ar_pages st) l r) (ar_views st) \<Longrightarrow> list_all (\<lambda>(r, l). shaped lev n (ar_pages st') l r) (ar_views st')"
proof -
  have f: "\<And>x. x \<in> set (reached (ar_pages st) l r) \<Longrightarrow> ar_pages st' x = ar_pages st x" if "(r, l) \<in> set (ar_views st)" for r l
    using assms(1) that by (auto simp: view_pages_def)
  have "reached (ar_pages st') l r = reached (ar_pages st) l r \<and> tree_at (ar_pages st') l r = tree_at (ar_pages st) l r"
    if "(r, l) \<in> set (ar_views st)" for r l using read_frame [of "ar_pages st" l r "ar_pages st'"] f [OF that] by blast
  then show "view_pages st' = view_pages st" "map (arena_view st') (ar_views st') = map (arena_view st) (ar_views st)"
    unfolding view_pages_def assms(2) by (auto simp: arena_view_def intro!: arg_cong [where f = concat])
  have "shaped lev n (ar_pages st') l r" if "(r, l) \<in> set (ar_views st)" "shaped lev n (ar_pages st) l r" for r l
    using shaped_frame [OF that(2), of "ar_pages st'" lev n] f [OF that(1)] by simp
  then show "list_all (\<lambda>(r, l). shaped lev n (ar_pages st) l r) (ar_views st) \<Longrightarrow> list_all (\<lambda>(r, l). shaped lev n (ar_pages st') l r) (ar_views st')"
    unfolding assms(2) list_all_iff by blast
qed

lemma link_set_swap:
  assumes ok: "arena_shaped lev st" and own: "owned lev st l link" and v: "shaped lev (ar_next st) (ar_pages st) l v"
  shows "arena_shaped lev (link_set link v st)"
    "visits (link_set link v st) x + count_list (reached (ar_pages st) l (link_get st link)) x = visits st x + count_list (reached (ar_pages st) l v) x"
    "link_get (link_set link v st) link = v"
    "a \<notin> holder link \<Longrightarrow> ar_pages (link_set link v st) a = ar_pages st a"
    "link = Child p i \<Longrightarrow> ar_pages st p = Branch_page u cs \<Longrightarrow> ar_pages (link_set link v st) p = Branch_page u (cs[i := v])"
    "reached (ar_pages (link_set link v st)) l v = reached (ar_pages st) l v" "tree_at (ar_pages (link_set link v st)) l v = tree_at (ar_pages st) l v"
    "view_pages (link_set link v st) = view_pages st"
proof -
  let ?st = "link_set link v st"
  have all: "arena_shaped lev ?st \<and> (\<forall>x. visits ?st x + count_list (reached (ar_pages st) l (link_get st link)) x = visits st x + count_list (reached (ar_pages st) l v) x)
      \<and> link_get ?st link = v \<and> view_pages ?st = view_pages st \<and> (\<forall>x \<in> holder link. l < lev x)"
  proof (cases link)
    case Root
    then have l: "l = ar_height st" using own by (simp add: owned_def)
    have vp: "view_pages ?st = view_pages st" using Root by (simp add: view_pages_def)
    have "arena_shaped lev ?st" using ok v l Root by (simp add: arena_shaped_def handles_def)
    then show ?thesis using Root l vp visits_split [of ?st] visits_split [of st] by simp
  next
    case (Child p i)
    obtain u cs where p: "ar_pages st p = Branch_page u cs" "i < length cs" "lev p = Suc l" "visits st p = 1" "p \<in> set (root_pages st)"
      by (rule owned_page [OF ok own [unfolded Child]]) blast
    have h': "ar_pages ?st = (ar_pages st)(p := Branch_page u (cs[i := v]))" using Child p(1) by (simp add: page_write_def)
    note once = visits_once [OF p(4,5)]
    have vf: "ar_pages ?st x = ar_pages st x" if "x \<in> set (view_pages st)" for x using once(2) that h' by auto
    have vp: "view_pages ?st = view_pages st" using vf by (intro view_pages_frame(1)) simp_all
    have sw: "count_list (reached (ar_pages ?st) k r) x + count_list (reached (ar_pages st) k r) p * count_list (reached (ar_pages st) l (cs ! i)) x
        = count_list (reached (ar_pages st) k r) x + count_list (reached (ar_pages st) k r) p * count_list (reached (ar_pages st) l v) x"
      "shaped lev (ar_next st) (ar_pages ?st) k r" if "shaped lev (ar_next st) (ar_pages st) k r" for k r x
      unfolding h' by (rule reached_swap [OF p(1,3,2) v that])+
    have "arena_shaped lev ?st" using ok sw(2) by (auto simp: arena_shaped_def handles_def list_all_iff Child page_write_def)
    moreover have "visits ?st x + count_list (reached (ar_pages st) l (cs ! i)) x = visits st x + count_list (reached (ar_pages st) l v) x" for x
    proof -
      have r: "ar_root ?st = ar_root st" using Child by (simp add: page_write_def)
      have "count_list (root_pages ?st) x + count_list (reached (ar_pages st) l (cs ! i)) x = count_list (root_pages st) x + count_list (reached (ar_pages st) l v) x"
        using sw(1) [OF arena_shaped_root [OF ok], of x] once(1) r by simp
      then show ?thesis unfolding visits_split vp by linarith
    qed
    moreover have "link_get ?st link = v" using Child p h' by simp
    ultimately show ?thesis using vp Child p by simp
  qed
  then show "arena_shaped lev (link_set link v st)"
    "visits (link_set link v st) x + count_list (reached (ar_pages st) l (link_get st link)) x = visits st x + count_list (reached (ar_pages st) l v) x"
    "link_get (link_set link v st) link = v" "view_pages (link_set link v st) = view_pages st" by blast+
  show other: "a \<notin> holder link \<Longrightarrow> ar_pages ?st a = ar_pages st a" for a by (cases link) (simp_all add: page_write_def)
  show "link = Child p i \<Longrightarrow> ar_pages st p = Branch_page u cs \<Longrightarrow> ar_pages ?st p = Branch_page u (cs[i := v])" by (simp add: page_write_def)
  have "ar_pages ?st y = ar_pages st y" if "y \<in> set (reached (ar_pages st) l v)" for y
    using reached_shaped(2) [OF v that] all by (intro other) fastforce
  then show "reached (ar_pages ?st) l v = reached (ar_pages st) l v" "tree_at (ar_pages ?st) l v = tree_at (ar_pages st) l v"
    using read_frame by metis+
qed

text \<open>A new page changes nothing until it is linked.\<close>

definition add_page :: "('k, 'r) page \<Rightarrow> ('k, 'r) arena \<Rightarrow> ('k, 'r) arena" where
  "add_page page st = st\<lparr>ar_pages := (ar_pages st)(ar_next st := page), ar_next := ar_next st + 1\<rparr>"

lemma add_page_fields [simp]:
  "ar_views (add_page page st) = ar_views st" "ar_root (add_page page st) = ar_root st" "ar_height (add_page page st) = ar_height st"
  "ar_next (add_page page st) = Suc (ar_next st)"
  by (simp_all add: add_page_def)

lemma make_page_add: "make_page page link st = link_set link (Some (ar_next st)) (add_page page st)"
  by (simp add: make_page_def add_page_def)

lemma add_page_frame:
  assumes "arena_shaped lev st"
  shows "arena_shaped (lev(ar_next st := l)) (add_page page st)" "occupied_pages (add_page page st) = occupied_pages st"
    "root_pages (add_page page st) = root_pages st" "view_pages (add_page page st) = view_pages st"
    "shaped lev (ar_next st) (ar_pages st) k c \<Longrightarrow> reached (ar_pages (add_page page st)) k c = reached (ar_pages st) k c"
    "shaped lev (ar_next st) (ar_pages st) k c \<Longrightarrow> tree_at (ar_pages (add_page page st)) k c = tree_at (ar_pages st) k c"
    "shaped lev (ar_next st) (ar_pages st) k c \<Longrightarrow> shaped (lev(ar_next st := l)) (Suc (ar_next st)) (ar_pages (add_page page st)) k c"
proof -
  let ?st = "add_page page st"
  have new: "x \<noteq> ar_next st" if "shaped lev (ar_next st) (ar_pages st) k c" "x \<in> set (reached (ar_pages st) k c)" for x k c
    using reached_shaped(1) [OF that] by simp
  have frame: "ar_pages ?st x = ar_pages st x" if "shaped lev (ar_next st) (ar_pages st) k c" "x \<in> set (reached (ar_pages st) k c)" for x k c
    using new [OF that] by (simp add: add_page_def)
  show r: "reached (ar_pages ?st) k c = reached (ar_pages st) k c" "tree_at (ar_pages ?st) k c = tree_at (ar_pages st) k c"
    "shaped (lev(ar_next st := l)) (Suc (ar_next st)) (ar_pages ?st) k c" if "shaped lev (ar_next st) (ar_pages st) k c" for k c
    using read_frame [OF frame [OF that]] shaped_frame [OF that, of "ar_pages ?st" "lev(ar_next st := l)" "Suc (ar_next st)"] frame [OF that] new [OF that]
    by auto
  have hs: "handles ?st = handles st" by (simp add: handles_def add_page_def)
  have all: "shaped lev (ar_next st) (ar_pages st) k c" if "(c, k) \<in> set (handles st)" for c k
    using assms that by (auto simp: arena_shaped_def list_all_iff)
  show "arena_shaped (lev(ar_next st := l)) ?st" using r(3) all by (auto simp: arena_shaped_def hs list_all_iff)
  show root: "root_pages ?st = root_pages st" using r(1) [OF arena_shaped_root [OF assms]] by (simp add: add_page_def)
  have "map (\<lambda>(r, l). reached (ar_pages ?st) l r) (ar_views st) = map (\<lambda>(r, l). reached (ar_pages st) l r) (ar_views st)"
    using r(1) all by (auto simp: handles_def)
  then show views: "view_pages ?st = view_pages st" unfolding view_pages_def add_page_fields by (rule arg_cong [where f = concat])
  have "occupied_pages x = root_pages x @ view_pages x" for x :: "('a, 'b) arena" by (simp add: occupied_pages_def handles_def view_pages_def)
  then show "occupied_pages ?st = occupied_pages st" using root views by simp
qed

end
