(* ===== verification/Pages_Shared_Path.thy ===== *)
theory Pages_Shared_Path
  imports Pages_Shared_Owners
begin

text \<open>
  A prepared path: every page on it is reached once, from the root of the index, and no page is changed that anyone else reaches.
\<close>

definition fresh_page :: "nat \<Rightarrow> ('k, 'r) page" where
  "fresh_page l = (if l = 0 then Leaf_page 0 0 (replicate 64 None) else Branch_page 0 (replicate 16 None))"

text \<open>What making a path private may change: the page that holds the link, and pages below it that are reached only once.\<close>

definition spares :: "(nat \<Rightarrow> nat) \<Rightarrow> (nat \<Rightarrow> nat) \<Rightarrow> nat \<Rightarrow> link \<Rightarrow> ('k, 'r) arena \<Rightarrow> ('k, 'r) arena \<Rightarrow> bool" where
  "spares lev lev' l link st st' \<longleftrightarrow> arena_shaped lev' st' \<and> ar_next st \<le> ar_next st' \<and> ar_height st' = ar_height st \<and> ar_views st' = ar_views st
     \<and> view_pages st' = view_pages st
     \<and> (\<forall>x < ar_next st. lev' x = lev x)
     \<and> (\<forall>x < ar_next st. ar_pages st' x \<noteq> ar_pages st x \<longrightarrow> x \<in> holder link \<or> x \<in> set (reached (ar_pages st) l (link_get st link)) \<and> visits st x = 1)
     \<and> (\<forall>p i u cs. link = Child p i \<longrightarrow> ar_pages st p = Branch_page u cs \<longrightarrow> ar_pages st' p = Branch_page u (cs[i := link_get st' link]))
     \<and> set (reached (ar_pages st') l (link_get st' link)) \<subseteq> set (reached (ar_pages st) l (link_get st link)) \<union> {ar_next st..}
     \<and> (\<forall>x < ar_next st. l < lev x \<longrightarrow> visits st' x = visits st x) \<and> (link \<noteq> Root \<longrightarrow> ar_root st' = ar_root st)"

lemma spares_refl:
  assumes ok: "arena_shaped lev st" and own: "owned lev st l link"
  shows "spares lev lev l link st st"
proof -
  have "ar_pages st p = Branch_page u (cs[i := link_get st link])" if "link = Child p i" "ar_pages st p = Branch_page u cs" for p i u cs
    using that by simp
  then show ?thesis using ok by (simp add: spares_def)
qed

lemma make_page_spares:
  assumes ok: "arena_shaped lev st" and own: "owned lev st l link"
    and page: "page = (case link_get st link of None \<Rightarrow> fresh_page l | Some a \<Rightarrow> ar_pages st a)"
  defines "b \<equiv> ar_next st" and "st' \<equiv> make_page page link st" and "lev' \<equiv> lev(ar_next st := l)"
  shows "spares lev lev' l link st st'" "link_get st' link = Some b" "lev' b = l" "visits st' b = 1" "b \<in> set (root_pages st')" "ar_pages st' b = page"
    "\<And>x. x < ar_next st \<Longrightarrow> link_get st link \<noteq> Some x \<Longrightarrow> visits st' x = visits st x"
    "\<And>x. x < ar_next st \<Longrightarrow> x \<notin> holder link \<Longrightarrow> ar_pages st' x = ar_pages st x"
proof -
  define s0 where "s0 = add_page page st"
  have st': "st' = link_set link (Some b) s0" unfolding st'_def make_page_add s0_def b_def ..
  note f = add_page_frame [OF ok, where page = page, folded s0_def]
  note old = owned_shaped [OF ok own]
  have held: "x \<in> set (root_pages st) \<and> visits st x = 1 \<and> l < lev x \<and> x < b" if h: "x \<in> holder link" for x
  proof -
    obtain i where i: "link = Child x i" using h by (cases link) auto
    show ?thesis by (rule owned_page [OF ok own [unfolded i]]) (simp add: b_def)
  qed
  have nb: "b \<notin> holder link" using held by blast
  have hb: "ar_pages s0 b = page" by (simp add: s0_def add_page_def b_def)
  have hx: "ar_pages s0 x = ar_pages st x" if "x \<noteq> b" for x using that by (simp add: s0_def add_page_def b_def)
  have lg: "link_get s0 link = link_get st link"
    using hx held by (cases link) (auto simp: s0_def)
  have ok0: "arena_shaped lev' s0" using f(1) by (simp add: lev'_def)
  have own0: "owned lev' s0 l link"
  proof (cases link)
    case Root
    then show ?thesis using own by (simp add: owned_def s0_def)
  next
    case (Child p i)
    then show ?thesis using own held [of p] f(2,3) by (auto simp: owned_def lev'_def b_def)
  qed
  have sub: "shaped lev' (Suc b) (ar_pages s0) k c" if "shaped lev (ar_next st) (ar_pages st) k c" for k c
    using f(7) [OF that] by (simp add: lev'_def b_def)
  have page_ok: "shaped lev' (ar_next s0) (ar_pages s0) l (Some b) \<and>
      reached (ar_pages s0) l (Some b) = b # (case link_get st link of None \<Rightarrow> [] | Some a \<Rightarrow> tl (reached (ar_pages st) l (Some a)))"
  proof (cases l)
    case 0
    then show ?thesis using page old hb sub by (auto simp: fresh_page_def s0_def lev'_def b_def split: option.splits)
  next
    case (Suc k)
    show ?thesis
    proof (cases "link_get st link")
      case None
      then have "page = Branch_page 0 (replicate 16 None)" using page Suc by (simp add: fresh_page_def)
      then show ?thesis using hb None Suc by (auto simp: s0_def lev'_def b_def list_all_iff)
    next
      case (Some a)
      then obtain u cs where a: "ar_pages st a = Branch_page u cs" "length cs = 16" "list_all (shaped lev (ar_next st) (ar_pages st) k) cs"
        using old Suc by auto
      have r: "map (reached (ar_pages s0) k) cs = map (reached (ar_pages st) k) cs" using a(3) f(5) by (auto simp: list_all_iff)
      have s: "list_all (shaped lev' (Suc b) (ar_pages s0) k) cs" using a(3) sub by (auto simp: list_all_iff)
      have "ar_pages s0 b = Branch_page u cs" "ar_next s0 = Suc b" using hb page Some a(1) by (simp_all add: s0_def b_def)
      then show ?thesis using Some Suc a(1,2) s r by (simp only: shaped.simps reached.simps option.case page_links.simps list.sel) (simp add: lev'_def b_def)
    qed
  qed
  note sw = link_set_swap [OF ok0 own0 conjunct1 [OF page_ok], folded st']
  have old_nb: "b \<notin> set (reached (ar_pages st) l (link_get st link))" using reached_shaped(1) [OF old, of b] by (auto simp: b_def)
  have tb: "visits st b = 0"
  proof -
    have "x < b" if "x \<in> set (occupied_pages st)" for x
      using that ok reached_shaped(1) unfolding occupied_pages_def arena_shaped_def list_all_iff b_def by fastforce
    then show ?thesis by (auto simp: count_list_0_iff)
  qed
  have tm: "visits st' x + count_list (reached (ar_pages st) l (link_get st link)) x = visits st x
      + count_list (b # (case link_get st link of None \<Rightarrow> [] | Some a \<Rightarrow> tl (reached (ar_pages st) l (Some a)))) x" for x
    using sw(2) [of x] f(2) lg f(5) [OF old] conjunct2 [OF page_ok] by simp
  have cons: "reached (ar_pages st) l (Some a) = a # tl (reached (ar_pages st) l (Some a))" for a by (cases l) simp_all
  have bal: "visits st' x + of_bool (link_get st link = Some x) = visits st x + of_bool (x = b)" for x
  proof (cases "link_get st link")
    case None
    then show ?thesis using tm [of x] by simp
  next
    case (Some a)
    define t where "t = tl (reached (ar_pages st) l (Some a))"
    have "visits st' x + count_list (a # t) x = visits st x + count_list (b # t) x"
      using tm [of x] cons [of a, folded t_def] unfolding Some option.case t_def [symmetric] by (simp only:)
    then show ?thesis unfolding Some by (cases "a = x"; cases "x = b") simp_all
  qed
  show lgs: "link_get st' link = Some b" by (rule sw(3))
  show "lev' b = l" by (simp add: lev'_def b_def)
  show "ar_pages st' b = page" using sw(4) [OF nb] hb by simp
  have "link_get st link \<noteq> Some b" using old_nb cons by (metis list.set_intros(1))
  then show tb1: "visits st' b = 1" using bal [of b] tb by simp
  show other: "visits st' x = visits st x" if "x < ar_next st" "link_get st link \<noteq> Some x" for x
    using bal [of x] that by (simp add: b_def)
  show pages: "ar_pages st' x = ar_pages st x" if "x < ar_next st" "x \<notin> holder link" for x
    using sw(4) [OF that(2)] hx that(1) by (simp add: b_def)
  have views: "view_pages st' = view_pages st" using sw(8) f(4) by simp
  have "b \<notin> set (view_pages st)" using tb visits_split [of st b] by (simp add: count_list_0_iff)
  then have "count_list (root_pages st') b = 1" using tb1 visits_split [of st' b] views by (simp add: count_list_0_iff)
  then show "b \<in> set (root_pages st')" by (metis count_notin zero_neq_one)
  have reach: "set (reached (ar_pages st') l (Some b)) \<subseteq> set (reached (ar_pages st) l (link_get st link)) \<union> {ar_next st..}"
    using sw(6) conjunct2 [OF page_ok] cons by (auto simp: b_def split: option.splits) (metis list.set_sel(2) list.sel(2) empty_iff empty_set)
  have hold: "ar_pages st' p = Branch_page u (cs[i := Some b])" if "link = Child p i" "ar_pages st p = Branch_page u cs" for p i u cs
    using sw(5) [OF that(1)] hx [of p] that held [of p] by auto
  have lv: "visits st' x = visits st x" if "x < ar_next st" "l < lev x" for x
  proof (rule other [OF that(1)])
    show "link_get st link \<noteq> Some x" using reached_shaped(2) [OF old, of x] cons that(2) by (metis leD list.set_intros(1))
  qed
  have root: "link \<noteq> Root \<longrightarrow> ar_root st' = ar_root st" by (cases link) (simp_all add: st' s0_def page_write_def)
  show "spares lev lev' l link st st'"
    unfolding spares_def lgs using sw(1) views reach hold lv pages held root by (auto simp: st' s0_def lev'_def b_def)
qed

lemma root_once:
  assumes "visits st x = 1" "x \<notin> set (view_pages st)"
  shows "x \<in> set (root_pages st)"
  using assms visits_split [of st x] by (metis add_0_right count_notin zero_neq_one)

lemma own_page_spec:
  assumes ok: "arena_shaped lev st" and own: "owned lev st l link" and op: "own_page g (fresh_page l) link st = (whole, st')"
  shows "\<not> whole \<Longrightarrow> st' = st \<and> \<not> g"
    "whole \<Longrightarrow> \<exists>lev' b. spares lev lev' l link st st' \<and> link_get st' link = Some b \<and> lev' b = l \<and> visits st' b = 1 \<and> b \<in> set (root_pages st')
      \<and> ar_pages st' b = (case link_get st link of None \<Rightarrow> fresh_page l | Some a \<Rightarrow> ar_pages st a)
      \<and> (st' = st \<or> b = ar_next st)
      \<and> (\<forall>x < ar_next st. link_get st link \<noteq> Some x \<longrightarrow> visits st' x = visits st x)
      \<and> (\<forall>x < ar_next st. x \<notin> holder link \<longrightarrow> ar_pages st' x = ar_pages st x)"
proof -
  let ?page = "case link_get st link of None \<Rightarrow> fresh_page l | Some a \<Rightarrow> ar_pages st a"
  have cases: "\<not> whole \<and> st' = st \<and> \<not> g \<or> whole \<and> st' = make_page ?page link st
      \<or> whole \<and> st' = st \<and> (\<exists>a. link_get st link = Some a \<and> use_count st a = 1)"
    using op by (auto simp: own_page_def split: option.splits if_splits)
  then show "\<not> whole \<Longrightarrow> st' = st \<and> \<not> g" by blast
  assume whole
  with cases consider "st' = make_page ?page link st" | a where "st' = st" "link_get st link = Some a" "use_count st a = 1" by blast
  then show "\<exists>lev' b. spares lev lev' l link st st' \<and> link_get st' link = Some b \<and> lev' b = l \<and> visits st' b = 1 \<and> b \<in> set (root_pages st')
      \<and> ar_pages st' b = ?page \<and> (st' = st \<or> b = ar_next st)
      \<and> (\<forall>x < ar_next st. link_get st link \<noteq> Some x \<longrightarrow> visits st' x = visits st x)
      \<and> (\<forall>x < ar_next st. x \<notin> holder link \<longrightarrow> ar_pages st' x = ar_pages st x)"
  proof cases
    case 1
    note m = make_page_spares [OF ok own refl, folded 1]
    show ?thesis
      by (intro exI [of _ "lev(ar_next st := l)"] exI [of _ "ar_next st"] conjI allI impI) (use m in \<open>simp_all\<close>)
  next
    case 2
    have "ar_root st = Some a \<or> (\<exists>p. visits st p = 1 \<and> Some a \<in> set (page_links (ar_pages st p)))"
    proof (cases link)
      case Root
      then show ?thesis using 2(2) by simp
    next
      case (Child p i)
      obtain u cs where "ar_pages st p = Branch_page u cs" "i < length cs" "visits st p = 1"
        by (rule owned_page [OF ok own [unfolded Child]]) blast
      then show ?thesis using 2(2) Child by (metis link_get.simps(2) nth_mem page_links.simps(2))
    qed
    then have t: "visits st a = 1" by (rule visits_use_count [OF ok 2(3)])
    have "a \<in> set (reached (ar_pages st) l (link_get st link))" using 2(2) by (cases l) simp_all
    then have "count_list (root_pages st) a \<noteq> 0" using owned_sub [OF ok own, of a] by (metis count_list_0_iff le_zero_eq)
    then have "a \<in> set (root_pages st)" by (simp add: count_list_0_iff)
    moreover have "lev a = l" using owned_shaped [OF ok own] 2(2) by (cases l) auto
    ultimately show ?thesis using 2 t spares_refl [OF ok own] by (intro exI [of _ lev] exI [of _ a]) simp
  qed
qed

lemma sum_two:
  fixes f :: "'a \<Rightarrow> nat"
  assumes "i < length cs" "j < length cs" "i \<noteq> j"
  shows "f (cs ! i) + f (cs ! j) \<le> sum_list (map f cs)"
proof -
  have "(\<Sum>k \<in> {i, j}. f (cs ! k)) \<le> (\<Sum>k = 0..<length cs. f (cs ! k))" using assms by (intro sum_mono2) auto
  then show ?thesis using assms(3) by (simp add: sum_list_sum_nth)
qed

lemma sibling_apart:
  assumes ok: "arena_shaped lev st" and own: "owned lev st l (Child b i)" and b: "ar_pages st b = Branch_page u cs"
    and j: "j < 16" "j \<noteq> i" and x: "x \<in> set (reached (ar_pages st) l (cs ! i))" "visits st x = 1"
  shows "x \<notin> set (reached (ar_pages st) l (cs ! j))"
proof
  assume a: "x \<in> set (reached (ar_pages st) l (cs ! j))"
  let ?f = "\<lambda>c. count_list (reached (ar_pages st) l c) x"
  obtain p: "length cs = 16" "i < length cs" "lev b = Suc l" "b \<in> set (root_pages st)"
    by (rule owned_page [OF ok own]) (use b in simp)
  have "?f (cs ! i) \<noteq> 0" "?f (cs ! j) \<noteq> 0" using x(1) a by (simp_all add: count_list_0_iff)
  then have "2 \<le> sum_list (map ?f cs)" using sum_two [of i cs j ?f] p j by simp
  also have "\<dots> \<le> count_list (reached (ar_pages st) (lev b) (Some b)) x" using b p(3) by (simp add: count_concat comp_def)
  also have "\<dots> \<le> count_list (root_pages st) x" by (rule reached_sub [OF arena_shaped_root [OF ok] p(4)])
  also have "\<dots> \<le> visits st x" using visits_split [of st x] by simp
  finally show False using x(2) by simp
qed

primrec path_pages :: "(nat \<Rightarrow> ('k, 'r) page) \<Rightarrow> nat \<Rightarrow> u64 \<Rightarrow> nat option \<Rightarrow> nat list" where
  "path_pages h 0 slot link = (case link of None \<Rightarrow> [] | Some a \<Rightarrow> [a])"
| "path_pages h (Suc l) slot link = (case link of None \<Rightarrow> [] | Some a \<Rightarrow> a # path_pages h l slot (page_links (h a) ! branch slot (Suc l)))"

lemma privatise_cong: "(\<And>k. k \<le> l \<Longrightarrow> f k = g k) \<Longrightarrow> privatise f l slot link = privatise g l slot link"
  by (induction l arbitrary: link) (simp_all split: node.splits)

text \<open>One level down: making the page at a link private and then a path below one of its children.\<close>

lemma spares_step:
  assumes ok: "arena_shaped lev st" and own: "owned lev st (Suc l) link" and sp1: "spares lev lev1 (Suc l) link st st1"
    and b: "link_get st1 link = Some b" "lev1 b = Suc l" "visits st1 b = 1" "b \<in> set (root_pages st1)" "st1 = st \<or> b = ar_next st"
    and tm: "\<And>x. x < ar_next st \<Longrightarrow> link_get st link \<noteq> Some x \<Longrightarrow> visits st1 x = visits st x"
    and i: "i < 16" and page: "ar_pages st1 b = Branch_page u cs" and sp2: "spares lev1 lev2 l (Child b i) st1 st2"
  shows "spares lev lev2 (Suc l) link st st2" "link_get st2 link = Some b" "ar_pages st2 b = Branch_page u (cs[i := link_get st2 (Child b i)])"
    "\<And>j. j < 16 \<Longrightarrow> j \<noteq> i \<Longrightarrow> tree_at (ar_pages st2) l (cs ! j) = tree_at (ar_pages st1) l (cs ! j)"
    "visits st2 b = 1" "b \<in> set (root_pages st2)" "owned lev1 st1 l (Child b i)"
proof -
  have ok1: "arena_shaped lev1 st1" using sp1 by (simp add: spares_def)
  show own1: "owned lev1 st1 l (Child b i)" using b i by (simp add: owned_def)
  obtain cs16: "length cs = 16" "list_all (shaped lev1 (ar_next st1) (ar_pages st1) l) cs" "b < ar_next st1"
    by (rule owned_page [OF ok1 own1]) (use page in simp)
  note s1 = sp1 [unfolded spares_def] and s2 = sp2 [unfolded spares_def]
  define c where "c = link_get st2 (Child b i)"
  show hb: "ar_pages st2 b = Branch_page u (cs[i := link_get st2 (Child b i)])" using s2 page by blast
  then have hbc: "ar_pages st2 b = Branch_page u (cs[i := c])" by (simp only: c_def)
  have sh: "shaped lev1 (ar_next st1) (ar_pages st1) l (cs ! j)" if "j < 16" for j using cs16 that by (simp add: list_all_length)
  have changed: "x = b \<or> x \<in> set (reached (ar_pages st1) l (cs ! i)) \<and> visits st1 x = 1" if "x < ar_next st1" "ar_pages st2 x \<noteq> ar_pages st1 x" for x
    using s2 that page by auto
  have low: "lev1 x \<le> l" "x < ar_next st1" if "j < 16" "x \<in> set (reached (ar_pages st1) l (cs ! j))" for x j
    using reached_shaped [OF sh [OF that(1)] that(2)] by simp_all
  have sib: "ar_pages st2 x = ar_pages st1 x" if "j < 16" "j \<noteq> i" "x \<in> set (reached (ar_pages st1) l (cs ! j))" for x j
    using changed [of x] low [OF that(1,3)] sibling_apart [OF ok1 own1 page that(1,2), of x] that(3) b(2) by fastforce
  show sibt: "\<And>j. j < 16 \<Longrightarrow> j \<noteq> i \<Longrightarrow> tree_at (ar_pages st2) l (cs ! j) = tree_at (ar_pages st1) l (cs ! j)"
    using read_frame(2) [of "ar_pages st1" l _ "ar_pages st2"] sib by blast
  have sibr: "reached (ar_pages st2) l (cs ! j) = reached (ar_pages st1) l (cs ! j)" if "j < 16" "j \<noteq> i" for j
    using read_frame(1) [of "ar_pages st1" l _ "ar_pages st2"] sib [OF that] by blast
  show t2: "visits st2 b = 1" using s2 b(2,3) cs16(3) by simp
  have "b \<notin> set (view_pages st2)" using visits_once(2) [OF b(3,4)] s2 by simp
  then show "b \<in> set (root_pages st2)" by (rule root_once [OF t2])
  have hold: "ar_pages st2 p = ar_pages st1 p" if "p \<in> holder link" for p
  proof -
    have "p < ar_next st" "lev p = Suc (Suc l)"
      using own that ok by (auto simp: owned_def elim!: reached_shaped(1) [OF arena_shaped_root, rotated] split: link.splits)
    then have p: "p < ar_next st1" "lev1 p = Suc (Suc l)" using s1 by auto
    show ?thesis using changed [OF p(1)] low(1) [OF i, of p] p(2) b(2) by fastforce
  qed
  show lg: "link_get st2 link = Some b"
  proof (cases link)
    case Root
    have "ar_root st2 = ar_root st1" using s2 by simp
    then show ?thesis using b(1) Root by simp
  next
    case (Child p k)
    then show ?thesis using b(1) hold [of p] by simp
  qed
  have sub: "set (reached (ar_pages st1) l (cs ! j)) \<subseteq> set (reached (ar_pages st1) (Suc l) (Some b))" if "j < 16" for j
    using page cs16(1) nth_mem [of j cs] that by auto
  have gl: "link_get st1 (Child b i) = cs ! i" using page by simp
  have child: "set (reached (ar_pages st2) l c) \<subseteq> set (reached (ar_pages st1) l (cs ! i)) \<union> {ar_next st1..}"
    unfolding c_def gl [symmetric] by (insert s2) (elim conjE, assumption)
  have reach: "set (reached (ar_pages st2) (Suc l) (Some b)) \<subseteq> set (reached (ar_pages st1) (Suc l) (Some b)) \<union> {ar_next st1..}"
  proof
    fix x assume "x \<in> set (reached (ar_pages st2) (Suc l) (Some b))"
    then consider "x = b" | d where "d \<in> set (cs[i := c])" "x \<in> set (reached (ar_pages st2) l d)" using hbc by auto
    then show "x \<in> set (reached (ar_pages st1) (Suc l) (Some b)) \<union> {ar_next st1..}"
    proof cases
      case 2
      then obtain j where j: "j < 16" "d = (cs[i := c]) ! j" using cs16(1) by (metis in_set_conv_nth length_list_update)
      show ?thesis
      proof (cases "j = i")
        case True
        then have "x \<in> set (reached (ar_pages st2) l c)" using 2(2) j cs16(1) i by simp
        then have "x \<in> set (reached (ar_pages st1) l (cs ! i)) \<union> {ar_next st1..}" using child by blast
        then show ?thesis using sub [OF i] by blast
      next
        case False
        then have "x \<in> set (reached (ar_pages st1) l (cs ! j))" using 2(2) j sibr [OF j(1)] by simp
        then show ?thesis using sub [OF j(1)] by blast
      qed
    qed simp
  qed
  have old: "x = a \<longrightarrow> lev x = Suc l" if "link_get st link = Some a" for x a using owned_shaped [OF ok own] that by auto
  have ch: "x \<in> holder link \<or> x \<in> set (reached (ar_pages st) (Suc l) (link_get st link)) \<and> visits st x = 1"
    if x: "x < ar_next st" "ar_pages st2 x \<noteq> ar_pages st x" for x
  proof (cases "ar_pages st1 x = ar_pages st x")
    case False
    then show ?thesis using s1 x(1) by blast
  next
    case True
    have "x < ar_next st1" using x(1) s1 by simp
    from changed [OF this] x(2) True consider "x = b" | "x \<in> set (reached (ar_pages st1) l (cs ! i))" "visits st1 x = 1" by auto
    then show ?thesis
    proof cases
      case 1
      then have "st1 = st" using b(5) x(1) by auto
      then show ?thesis using 1 b(1,3) by simp
    next
      case 2
      have "x \<in> set (reached (ar_pages st1) (Suc l) (Some b))" using 2(1) sub [OF i] by blast
      then have "x \<in> set (reached (ar_pages st) (Suc l) (link_get st link))" using s1 x(1) unfolding b(1) by auto
      moreover have "lev x \<le> l" using low(1) [OF i 2(1)] s1 x(1) by auto
      then have "link_get st link \<noteq> Some x" using old by fastforce
      then have "visits st x = 1" using tm [OF x(1)] 2(2) by simp
      ultimately show ?thesis by blast
    qed
  qed
  have hp: "ar_pages st2 p = Branch_page v (ds[k := Some b])" if "link = Child p k" "ar_pages st p = Branch_page v ds" for p k v ds
    using hold [of p] that s1 unfolding b(1) by auto
  have tms: "visits st2 x = visits st x" if "x < ar_next st" "Suc l < lev x" for x
    using s1 s2 that by auto
  have rt: "link \<noteq> Root \<longrightarrow> ar_root st2 = ar_root st" using s1 s2 by auto
  have rch: "set (reached (ar_pages st2) (Suc l) (Some b)) \<subseteq> set (reached (ar_pages st) (Suc l) (link_get st link)) \<union> {ar_next st..}"
  proof -
    have "set (reached (ar_pages st1) (Suc l) (Some b)) \<subseteq> set (reached (ar_pages st) (Suc l) (link_get st link)) \<union> {ar_next st..}"
      unfolding b(1) [symmetric] by (insert s1) (elim conjE, assumption)
    moreover have "{ar_next st1..} \<subseteq> {ar_next st..}" using s1 by simp
    ultimately show ?thesis using reach by (meson Un_mono order_trans subset_refl sup.bounded_iff sup_ge2)
  qed
  have simple: "arena_shaped lev2 st2" "ar_next st \<le> ar_next st2" "ar_height st2 = ar_height st" "ar_views st2 = ar_views st"
    "view_pages st2 = view_pages st" "\<forall>x < ar_next st. lev2 x = lev x" using s1 s2 by auto
  show "spares lev lev2 (Suc l) link st st2"
    unfolding spares_def lg using simple ch hp tms rt rch by blast
qed

text \<open>A private path: the tree is that of the value model, and every page on the path is reached once.\<close>

definition made_private :: "(nat \<Rightarrow> nat) \<Rightarrow> (nat \<Rightarrow> bool) \<Rightarrow> nat \<Rightarrow> u64 \<Rightarrow> link \<Rightarrow> ('k, 'r) arena \<Rightarrow> bool \<Rightarrow> ('k, 'r) arena \<Rightarrow> bool" where
  "made_private lev ok l slot link st whole st' \<longleftrightarrow> (\<exists>lev' flags. spares lev lev' l link st st' \<and> (\<forall>k. ok k \<longrightarrow> flags k)
     \<and> privatise flags l slot (tree_at (ar_pages st) l (link_get st link)) = (whole, tree_at (ar_pages st') l (link_get st' link))
     \<and> (whole \<longrightarrow> (\<forall>x \<in> set (path_pages (ar_pages st') l slot (link_get st' link)). visits st' x = 1)))"

lemma private_same:
  assumes ok: "arena_shaped lev st" and own: "owned lev st l link" and n: "\<not> g l"
  shows "made_private lev g l slot link st False st"
proof -
  have "privatise g l slot t = (False, t)" for t :: "('a, 'b) node option" using n by (cases l) simp_all
  then show ?thesis unfolding made_private_def using spares_refl [OF ok own] by (intro exI [of _ lev] exI [of _ g]) simp
qed

lemma private_tree:
  assumes ok: "arena_shaped lev st" and own: "owned lev st (Suc l) link"
    and page: "ar_pages st1 b = (case link_get st link of None \<Rightarrow> fresh_page (Suc l) | Some a \<Rightarrow> ar_pages st a)"
    and same: "\<And>x. x < ar_next st \<Longrightarrow> x \<notin> holder link \<Longrightarrow> ar_pages st1 x = ar_pages st x"
  obtains u cs where "ar_pages st1 b = Branch_page u cs" "length cs = 16"
    "private_page (Branch 0 (replicate 16 None)) (tree_at (ar_pages st) (Suc l) (link_get st link)) = Branch u (map (tree_at (ar_pages st1) l) cs)"
proof (cases "link_get st link")
  case None
  then show thesis using page by (intro that [of 0 "replicate 16 None"]) (simp_all add: fresh_page_def private_page_def)
next
  case (Some a)
  then obtain u cs where a: "ar_pages st a = Branch_page u cs" "length cs = 16" "list_all (shaped lev (ar_next st) (ar_pages st) l) cs"
    using owned_shaped [OF ok own] by auto
  have up: "l < lev x" if "x \<in> holder link" for x using own that by (cases link) (auto simp: owned_def)
  have "tree_at (ar_pages st1) l c = tree_at (ar_pages st) l c" if "c \<in> set cs" for c
  proof (rule read_frame(2))
    fix x assume x: "x \<in> set (reached (ar_pages st) l c)"
    have "shaped lev (ar_next st) (ar_pages st) l c" using a(3) that by (simp add: list_all_iff)
    from reached_shaped [OF this x] show "ar_pages st1 x = ar_pages st x" using up [of x] by (intro same) auto
  qed
  then have "map (tree_at (ar_pages st) l) cs = map (tree_at (ar_pages st1) l) cs" by simp
  then show thesis using page Some a by (intro that [of u cs]) (simp_all add: private_page_def)
qed

lemma own_path_spec:
  assumes "arena_shaped lev st" "owned lev st l link" "own_path ok l slot link st = (whole, st')"
  shows "made_private lev ok l slot link st whole st'"
  using assms
proof (induction l arbitrary: lev link st)
  case 0
  have op: "own_page (ok 0) (fresh_page 0) link st = (whole, st')" using 0(3) by (simp add: fresh_page_def)
  note o = own_page_spec [OF 0(1,2) op]
  show ?case
  proof (cases whole)
    case True
    obtain lev' b where b: "spares lev lev' 0 link st st'" "link_get st' link = Some b" "visits st' b = 1"
        "ar_pages st' b = (case link_get st link of None \<Rightarrow> fresh_page 0 | Some a \<Rightarrow> ar_pages st a)"
      using o(2) [OF True] by blast
    have "Some (private_page (Leaf 0 0 (replicate 64 None)) (tree_at (ar_pages st) 0 (link_get st link))) = tree_at (ar_pages st') 0 (Some b)"
      using b(4) by (simp add: private_page_def fresh_page_def split: option.split)
    then show ?thesis unfolding made_private_def using b True
      by (intro exI [of _ lev'] exI [of _ "\<lambda>_. True"]) simp
  next
    case False
    then show ?thesis using o(1) private_same [OF 0(1,2)] by simp
  qed
next
  case (Suc l)
  obtain w1 st1 where op: "own_page (ok (Suc l)) (fresh_page (Suc l)) link st = (w1, st1)" by fastforce
  note o = own_page_spec [OF Suc.prems(1,2) op]
  have run: "if w1 then own_path ok l slot (Child (the (link_get st1 link)) (branch slot (Suc l))) st1 = (whole, st') else \<not> whole \<and> st' = st1"
    using Suc.prems(3) op by (auto simp: fresh_page_def split: if_splits)
  show ?case
  proof (cases w1)
    case False
    then show ?thesis using o(1) run private_same [OF Suc.prems(1,2)] by simp
  next
    case True
    let ?i = "branch slot (Suc l)"
    obtain lev1 b where b: "spares lev lev1 (Suc l) link st st1" "link_get st1 link = Some b" "lev1 b = Suc l" "visits st1 b = 1" "b \<in> set (root_pages st1)"
        "ar_pages st1 b = (case link_get st link of None \<Rightarrow> fresh_page (Suc l) | Some a \<Rightarrow> ar_pages st a)" "st1 = st \<or> b = ar_next st"
        "\<forall>x < ar_next st. link_get st link \<noteq> Some x \<longrightarrow> visits st1 x = visits st x"
        "\<forall>x < ar_next st. x \<notin> holder link \<longrightarrow> ar_pages st1 x = ar_pages st x"
      using o(2) [OF True] by blast
    have same: "\<And>x. x < ar_next st \<Longrightarrow> x \<notin> holder link \<Longrightarrow> ar_pages st1 x = ar_pages st x" using b(9) by blast
    obtain u cs where cs: "ar_pages st1 b = Branch_page u cs" "length cs = 16"
        "private_page (Branch 0 (replicate 16 None)) (tree_at (ar_pages st) (Suc l) (link_get st link)) = Branch u (map (tree_at (ar_pages st1) l) cs)"
      by (rule private_tree [OF Suc.prems(1,2) b(6) same])
    have ok1: "arena_shaped lev1 st1" using b(1) by (simp add: spares_def)
    have own1: "owned lev1 st1 l (Child b ?i)" using b by (simp add: owned_def)
    have "own_path ok l slot (Child b ?i) st1 = (whole, st')" using run True b(2) by simp
    then have "made_private lev1 ok l slot (Child b ?i) st1 whole st'" by (rule Suc.IH [OF ok1 own1])
    then obtain lev2 flags where m: "spares lev1 lev2 l (Child b ?i) st1 st'" "\<And>k. ok k \<Longrightarrow> flags k"
        "privatise flags l slot (tree_at (ar_pages st1) l (cs ! ?i)) = (whole, tree_at (ar_pages st') l (link_get st' (Child b ?i)))"
        "whole \<Longrightarrow> \<forall>x \<in> set (path_pages (ar_pages st') l slot (link_get st' (Child b ?i))). visits st' x = 1"
      unfolding made_private_def using cs(1) by auto
    define c where "c = link_get st' (Child b ?i)"
    note s = spares_step [OF Suc.prems(1,2) b(1-5,7) b(8) [rule_format] branch_less cs(1) m(1)]
    have hb: "ar_pages st' b = Branch_page u (cs[?i := c])" using s(3) unfolding c_def .
    have lg: "link_get st' link = Some b" by (rule s(2))
    define flags' where "flags' = flags(Suc l := True)"
    have fl: "privatise (flags(Suc l := True)) l slot t = privatise flags l slot t" for t :: "('a, 'b) node option"
      by (rule privatise_cong) simp
    have "map (tree_at (ar_pages st') l) (cs[?i := c]) = (map (tree_at (ar_pages st1) l) cs)[?i := tree_at (ar_pages st') l c]"
      by (rule nth_equalityI) (use cs(2) s(4) in \<open>auto simp: nth_list_update\<close>)
    then have "privatise flags' (Suc l) slot (tree_at (ar_pages st) (Suc l) (link_get st link)) = (whole, tree_at (ar_pages st') (Suc l) (link_get st' link))"
      using cs m(3) hb unfolding lg c_def [symmetric] by (simp add: fl flags'_def lg)
    moreover have "\<forall>x \<in> set (path_pages (ar_pages st') (Suc l) slot (link_get st' link)). visits st' x = 1" if whole
      using m(4) [OF that] s(5) hb cs(2) unfolding c_def [symmetric] by (simp add: lg)
    moreover have "\<forall>k. ok k \<longrightarrow> flags' k" using m(2) by (simp add: flags'_def)
    ultimately show ?thesis unfolding made_private_def using s(1) by blast
  qed
qed

end
