(* ===== verification/Pages_Shared_Write.thy ===== *)
theory Pages_Shared_Write
  imports Pages_Shared_Path
begin

text \<open>
  Growing, setting and erasing in place are the operations on values, and leave the pages of held views alone.
\<close>

lemma tree_used: "link_used (tree_at (ar_pages st) l r) = link_used_at st r"
  by (cases l; cases r) (auto simp: link_used_def link_used_at_def split: page.splits)

lemma tree_at_None_iff [simp]: "tree_at h l r = None \<longleftrightarrow> r = None"
  by (cases l; cases r) simp_all

lemma view_pages_less: "arena_shaped lev st \<Longrightarrow> x \<in> set (view_pages st) \<Longrightarrow> x < ar_next st"
  unfolding view_pages_def arena_shaped_def handles_def list_all_iff by (fastforce dest: reached_shaped(1))

text \<open>A larger root leaves every page as it is.\<close>

lemma grow_step:
  assumes ok: "arena_shaped lev st"
  defines "st' \<equiv> (make_page (Branch_page (link_used_at st (ar_root st)) (ar_root st # replicate 15 None)) Root st)\<lparr>ar_height := ar_height st + 1\<rparr>"
  shows "arena_shaped (lev(ar_next st := Suc (ar_height st))) st'"
    "arena_index st' = \<lparr>pg_root = Some (Branch (link_used (pg_root (arena_index st))) (pg_root (arena_index st) # replicate 15 None)), pg_height = pg_height (arena_index st) + 1\<rparr>"
    "ar_views st' = ar_views st" "x < ar_next st \<Longrightarrow> ar_pages st' x = ar_pages st x" "ar_next st' = Suc (ar_next st)" "ar_height st' = Suc (ar_height st)"
proof -
  let ?b = "ar_next st" and ?p = "Branch_page (link_used_at st (ar_root st)) (ar_root st # replicate 15 None) :: ('a, 'b) page"
  define s0 where "s0 = add_page ?p st"
  note f = add_page_frame [OF ok, where page = ?p, folded s0_def]
  have st': "st' = s0\<lparr>ar_root := Some ?b, ar_height := Suc (ar_height st)\<rparr>" by (simp add: st'_def make_page_add s0_def)
  have hb: "ar_pages s0 ?b = ?p" by (simp add: s0_def add_page_def)
  have old: "shaped (lev(?b := Suc (ar_height st))) (Suc ?b) (ar_pages s0) (ar_height st) (ar_root st)" by (rule f(7) [OF arena_shaped_root [OF ok]])
  have vs: "list_all (\<lambda>(r, l). shaped (lev(?b := Suc (ar_height st))) (Suc ?b) (ar_pages s0) l r) (ar_views st)"
    using f(1) by (simp add: arena_shaped_def handles_def s0_def)
  have root: "shaped (lev(?b := Suc (ar_height st))) (Suc ?b) (ar_pages s0) (Suc (ar_height st)) (Some ?b)" using hb old by (simp add: list_all_iff)
  show "arena_shaped (lev(?b := Suc (ar_height st))) st'"
    using vs root unfolding arena_shaped_def handles_def st' by (simp add: s0_def)
  have "tree_at (ar_pages s0) (ar_height st) (ar_root st) = tree_at (ar_pages st) (ar_height st) (ar_root st)" by (rule f(6) [OF arena_shaped_root [OF ok]])
  then show "arena_index st' = \<lparr>pg_root = Some (Branch (link_used (pg_root (arena_index st))) (pg_root (arena_index st) # replicate 15 None)), pg_height = pg_height (arena_index st) + 1\<rparr>"
    using hb unfolding arena_index_def st' by (simp add: tree_used)
  show "ar_views st' = ar_views st" "ar_next st' = Suc (ar_next st)" "ar_height st' = Suc (ar_height st)" by (simp_all add: st' s0_def)
  show "x < ar_next st \<Longrightarrow> ar_pages st' x = ar_pages st x" by (simp add: st' s0_def add_page_def)
qed

lemma arena_grow_spec:
  assumes "arena_shaped lev st" "arena_grow ok slot st = (g, st')"
  shows "\<exists>lev'. arena_shaped lev' st' \<and> grow ok slot (arena_index st) = (g, arena_index st') \<and> ar_views st' = ar_views st
    \<and> ar_next st \<le> ar_next st' \<and> (\<forall>x < ar_next st. ar_pages st' x = ar_pages st x)"
  using assms
proof (induction ok slot st arbitrary: lev rule: arena_grow.induct)
  case (1 ok slot st)
  let ?st = "(make_page (Branch_page (link_used_at st (ar_root st)) (ar_root st # replicate 15 None)) Root st)\<lparr>ar_height := ar_height st + 1\<rparr>"
  have h: "pg_height (arena_index st) = ar_height st" by (simp add: arena_index_def)
  consider "\<not> beyond (ar_height st) slot" | "beyond (ar_height st) slot" "\<not> ok (ar_height st)" | "beyond (ar_height st) slot" "ok (ar_height st)" by blast
  then show ?case
  proof cases
    case 3
    note s = grow_step [OF 1(2)]
    have "arena_grow ok slot ?st = (g, st')" using 1(3) 3 by (simp add: arena_grow.simps [of ok slot st])
    then obtain lev' where l: "arena_shaped lev' st'" "grow ok slot (arena_index ?st) = (g, arena_index st')" "ar_views st' = ar_views ?st"
        "ar_next ?st \<le> ar_next st'" "\<forall>x < ar_next ?st. ar_pages st' x = ar_pages ?st x"
      using 1(1) [OF 3 s(1)] by blast
    have "grow ok slot (arena_index st) = (g, arena_index st')"
      using l(2) 3 unfolding grow.simps [of ok slot "arena_index st"] s(2) h by simp
    moreover have "\<forall>x < ar_next st. ar_pages st' x = ar_pages st x" using l(5) s(4,5) by auto
    ultimately show ?thesis using l(1,3,4) s(3,5) by (intro exI [of _ lev']) simp
  next
    case 2
    then have "g = False" "st' = st" using 1(3) by (simp_all add: arena_grow.simps [of ok slot st])
    then show ?thesis using 1(2) 2 h by (intro exI [of _ lev]) (simp add: grow.simps [of ok slot "arena_index st"])
  next
    case 1
    then have "g = True" "st' = st" using "1.prems"(2) by (simp_all add: arena_grow.simps [of ok slot st])
    then show ?thesis using "1.prems"(1) 1 h by (intro exI [of _ lev]) (simp add: grow.simps [of ok slot "arena_index st"])
  qed
qed

lemma arena_prepare_spec:
  assumes ok: "arena_shaped lev st" and p: "arena_prepare roots paths slot st = (whole, st')"
  obtains lev' flags where "arena_shaped lev' st'" "page_prepare roots flags slot (arena_index st) = (whole, arena_index st')" "\<forall>k. paths k \<longrightarrow> flags k"
    "ar_views st' = ar_views st" "\<forall>x \<in> set (view_pages st). ar_pages st' x = ar_pages st x"
    "whole \<longrightarrow> (\<forall>x \<in> set (path_pages (ar_pages st') (ar_height st') slot (ar_root st')). visits st' x = 1)"
proof -
  obtain g st1 where g: "arena_grow roots slot st = (g, st1)" by fastforce
  obtain lev1 where s1: "arena_shaped lev1 st1" "grow roots slot (arena_index st) = (g, arena_index st1)" "ar_views st1 = ar_views st"
      "\<forall>x < ar_next st. ar_pages st1 x = ar_pages st x"
    using arena_grow_spec [OF ok g] by blast
  have v1: "ar_pages st1 x = ar_pages st x" if "x \<in> set (view_pages st)" for x using s1(4) view_pages_less [OF ok that] by blast
  show thesis
  proof (cases g)
    case False
    then have "whole = False" "st' = st1" using p g by (simp_all add: arena_prepare_def)
    then show thesis using False s1 v1 by (intro that [of lev1 paths]) (simp_all add: page_prepare_def)
  next
    case True
    have run: "own_path paths (ar_height st1) slot Root st1 = (whole, st')" using p g True by (simp add: arena_prepare_def)
    have own: "owned lev1 st1 (ar_height st1) Root" by (simp add: owned_def)
    from own_path_spec [OF s1(1) own run] obtain lev' flags where m: "spares lev1 lev' (ar_height st1) Root st1 st'" "\<forall>k. paths k \<longrightarrow> flags k"
        "privatise flags (ar_height st1) slot (tree_at (ar_pages st1) (ar_height st1) (ar_root st1)) = (whole, tree_at (ar_pages st') (ar_height st1) (ar_root st'))"
        "whole \<longrightarrow> (\<forall>x \<in> set (path_pages (ar_pages st') (ar_height st1) slot (ar_root st')). visits st' x = 1)"
      unfolding made_private_def by auto
    have sp: "arena_shaped lev' st'" "ar_height st' = ar_height st1" "ar_views st' = ar_views st1"
        "\<forall>x < ar_next st1. ar_pages st' x \<noteq> ar_pages st1 x \<longrightarrow> x \<in> set (root_pages st1) \<and> visits st1 x = 1"
      using m(1) unfolding spares_def by simp_all
    have vp: "view_pages st1 = view_pages st" using v1 s1(3) by (intro view_pages_frame(1))
    have v: "ar_pages st' x = ar_pages st x" if "x \<in> set (view_pages st)" for x
    proof -
      have "x < ar_next st1" using view_pages_less [OF s1(1)] that vp by simp
      then have "ar_pages st' x = ar_pages st1 x" using sp(4) visits_once(2) [of st1 x] that vp by auto
      then show ?thesis using v1 [OF that] by simp
    qed
    have "page_prepare roots flags slot (arena_index st) = (whole, arena_index st')"
      using s1(2) True m(3) sp(2) by (simp add: page_prepare_def arena_index_def)
    then show thesis using m(2,4) sp s1(3) v by (intro that [of lev' flags]) simp_all
  qed
qed

subsection \<open>Committing in place\<close>

text \<open>Pages that keep their kind and their links.\<close>

definition alike :: "('k, 'r) page \<Rightarrow> ('k, 'r) page \<Rightarrow> bool" where
  "alike p q \<longleftrightarrow> page_links p = page_links q \<and> ((\<exists>u cs. p = Branch_page u cs) \<longleftrightarrow> (\<exists>u cs. q = Branch_page u cs))"

lemma alike_refl [simp]: "alike p p" and alike_used [simp]: "alike (set_used n p) p" "alike (Leaf_page u o1 rs) (Leaf_page v o2 ss)"
  by (simp_all add: alike_def) (cases p; simp add: alike_def)+

lemma alike_trans: "alike p q \<Longrightarrow> alike q r \<Longrightarrow> alike p r"
  by (simp add: alike_def)

lemma alike_reached:
  assumes "\<And>x. alike (h' x) (h x)"
  shows "reached h' l link = reached h l link" "path_pages h' l slot link = path_pages h l slot link" "shaped lev n h l link \<Longrightarrow> shaped lev n h' l link"
proof -
  have e: "page_links (h' x) = page_links (h x)" for x using assms [of x] by (simp add: alike_def)
  show "reached h' l link = reached h l link"
  proof (induction l arbitrary: link)
    case (Suc l)
    have "reached h' l = reached h l" using Suc by (rule ext)
    then show ?case by (simp add: e split: option.split)
  qed (simp split: option.split)
  show "path_pages h' l slot link = path_pages h l slot link"
    by (induction l arbitrary: link) (simp_all add: e split: option.split)
  show "shaped lev n h l link \<Longrightarrow> shaped lev n h' l link"
  proof (induction l arbitrary: link)
    case 0
    show ?case
    proof (cases link)
      case (Some a)
      then obtain u oc rows where a: "h a = Leaf_page u oc rows" "a < n" "lev a = 0" using 0 by auto
      then have "\<exists>u oc rows. h' a = Leaf_page u oc rows" using assms [of a] by (cases "h' a") (auto simp: alike_def)
      then show ?thesis using Some a by simp
    qed simp
  next
    case (Suc l)
    show ?case
    proof (cases link)
      case (Some a)
      then obtain u cs where a: "h a = Branch_page u cs" "a < n" "lev a = Suc l" "length cs = 16" "list_all (shaped lev n h l) cs" using Suc.prems by auto
      then obtain v where "h' a = Branch_page v cs" using assms [of a] by (cases "h' a") (auto simp: alike_def)
      moreover have "list_all (shaped lev n h' l) cs" using a(5) Suc.IH by (auto simp: list_all_iff)
      ultimately show ?thesis using Some a by simp
    qed simp
  qed
qed

lemma path_sub:
  assumes "shaped lev n h l link"
  shows "set (path_pages h l slot link) \<subseteq> set (reached h l link)"
  using assms
proof (induction l arbitrary: link)
  case (Suc l)
  show ?case
  proof (cases link)
    case (Some a)
    then obtain u cs where a: "h a = Branch_page u cs" "length cs = 16" "list_all (shaped lev n h l) cs" using Suc.prems by auto
    have i: "branch slot (Suc l) < length cs" using a(2) by simp
    then have "set (path_pages h l slot (cs ! branch slot (Suc l))) \<subseteq> set (reached h l (cs ! branch slot (Suc l)))"
      using a(3) by (intro Suc.IH) (simp add: list_all_length)
    then show ?thesis using Some a(1) nth_mem [OF i] by auto
  qed simp
qed simp

lemma count_child:
  assumes "h a = Branch_page u cs" "i < length cs" "x \<in> set (reached h l (cs ! i))" "count_list (reached h (Suc l) (Some a)) x = 1"
  shows "count_list (reached h l (cs ! i)) x = 1" "x \<noteq> a" "j < length cs \<Longrightarrow> j \<noteq> i \<Longrightarrow> x \<notin> set (reached h l (cs ! j))"
proof -
  let ?f = "\<lambda>c. count_list (reached h l c) x"
  have t: "of_bool (a = x) + sum_list (map ?f cs) = 1" using assms(1,4) by (simp add: count_concat comp_def split: if_splits)
  have p: "?f (cs ! i) \<noteq> 0" using assms(3) by (simp add: count_list_0_iff)
  have le: "?f (cs ! i) \<le> sum_list (map ?f cs)" using assms(2) by (intro member_le_sum_list) auto
  show "?f (cs ! i) = 1" using t p le by linarith
  show "x \<noteq> a"
  proof
    assume "x = a"
    then have "1 + sum_list (map ?f cs) = 1" using t by (simp only: simp_thms of_bool_eq)
    then show False using p le by linarith
  qed
  show "x \<notin> set (reached h l (cs ! j))" if "j < length cs" "j \<noteq> i"
  proof
    assume "x \<in> set (reached h l (cs ! j))"
    then have "?f (cs ! j) \<noteq> 0" by (simp add: count_list_0_iff)
    then show False using sum_two [of i cs j ?f] assms(2) that t p by linarith
  qed
qed

lemma store_at_frame [simp]:
  "ar_next (store_at l slot key rec a st) = ar_next st" "ar_height (store_at l slot key rec a st) = ar_height st"
  "ar_views (store_at l slot key rec a st) = ar_views st" "ar_root (store_at l slot key rec a st) = ar_root st"
proof -
  have "ar_next (store_at l slot key rec a st) = ar_next st \<and> ar_height (store_at l slot key rec a st) = ar_height st
      \<and> ar_views (store_at l slot key rec a st) = ar_views st \<and> ar_root (store_at l slot key rec a st) = ar_root st"
  proof (induction l arbitrary: a st)
    case (Suc l)
    then show ?case unfolding store_at.simps Let_def by (simp only: page_write_def arena.simps arena.update_convs split: option.split) auto
  qed (simp add: page_write_def Let_def split: page.split)
  then show "ar_next (store_at l slot key rec a st) = ar_next st" "ar_height (store_at l slot key rec a st) = ar_height st"
    "ar_views (store_at l slot key rec a st) = ar_views st" "ar_root (store_at l slot key rec a st) = ar_root st" by blast+
qed

lemma store_at_spec:
  assumes "shaped lev n (ar_pages st) l (Some a)" "\<forall>x \<in> set (path_pages (ar_pages st) l slot (Some a)). count_list (reached (ar_pages st) l (Some a)) x = 1"
  shows "(\<forall>x. alike (ar_pages (store_at l slot key rec a st) x) (ar_pages st x))
    \<and> (\<forall>x. x \<notin> set (path_pages (ar_pages st) l slot (Some a)) \<longrightarrow> ar_pages (store_at l slot key rec a st) x = ar_pages st x)
    \<and> tree_at (ar_pages (store_at l slot key rec a st)) l (Some a) = node_set l slot key rec (tree_at (ar_pages st) l (Some a))"
  using assms
proof (induction l arbitrary: a st)
  case 0
  then obtain u oc rows where a: "ar_pages st a = Leaf_page u oc rows" by auto
  then show ?case by (simp add: page_write_def Let_def)
next
  case (Suc l)
  let ?i = "branch slot (Suc l)"
  obtain u cs where a: "ar_pages st a = Branch_page u cs" "length cs = 16" "list_all (shaped lev n (ar_pages st) l) cs" "lev a = Suc l"
    using Suc.prems(1) by auto
  define st1 where "st1 = page_write a (Branch_page (u + of_bool (key \<noteq> None)) cs) st"
  have h1: "ar_pages st1 x = (if x = a then Branch_page (u + of_bool (key \<noteq> None)) cs else ar_pages st x)" for x by (simp add: st1_def page_write_def)
  have al: "alike (ar_pages st1 x) (ar_pages st x)" for x using a(1) by (simp add: h1 alike_def)
  note r1 = alike_reached [of "ar_pages st1" "ar_pages st", OF al]
  have run: "store_at (Suc l) slot key rec a st = (case cs ! ?i of None \<Rightarrow> st1 | Some b \<Rightarrow> store_at l slot key rec b st1)"
    unfolding store_at.simps a(1) set_used.simps page_used.simps st1_def [symmetric] Let_def link_get.simps h1 by simp
  have i: "?i < length cs" using a(2) by simp
  have sh: "shaped lev n (ar_pages st) l (cs ! j)" if "j < 16" for j using a(2,3) that by (simp add: list_all_length)
  have na: "a \<notin> set (reached (ar_pages st) l (cs ! j))" if "j < 16" for j
    using reached_shaped(2) [OF sh [OF that], of a] a(4) by fastforce
  have t1: "tree_at (ar_pages st1) l (cs ! j) = tree_at (ar_pages st) l (cs ! j)" if "j < 16" for j
    using na [OF that] by (intro read_frame(2)) (auto simp: h1)
  show ?case
  proof (cases "cs ! ?i")
    case None
    have "map (tree_at (ar_pages st1) l) cs = (map (tree_at (ar_pages st) l) cs)[?i := node_set l slot key rec (tree_at (ar_pages st) l (cs ! ?i))]"
      by (rule nth_equalityI) (use a(2) t1 None in \<open>auto simp: nth_list_update\<close>, cases l, auto)
    moreover have "ar_pages st1 a = Branch_page (u + of_bool (key \<noteq> None)) cs" using h1 by simp
    ultimately have "tree_at (ar_pages st1) (Suc l) (Some a) = node_set (Suc l) slot key rec (tree_at (ar_pages st) (Suc l) (Some a))"
      using a(1) i by (simp add: Let_def)
    moreover have "store_at (Suc l) slot key rec a st = st1" using run None by simp
    moreover have "ar_pages st1 x = ar_pages st x" if "x \<notin> set (path_pages (ar_pages st) (Suc l) slot (Some a))" for x using that h1 by simp
    ultimately show ?thesis using al by simp
  next
    case (Some b)
    let ?st = "store_at l slot key rec b st1"
    have path: "path_pages (ar_pages st) (Suc l) slot (Some a) = a # path_pages (ar_pages st) l slot (Some b)" using a(1) Some by simp
    have pb: "x \<in> set (reached (ar_pages st) l (cs ! ?i))" if "x \<in> set (path_pages (ar_pages st) l slot (Some b))" for x
      using path_sub [of lev n "ar_pages st" l "Some b" slot] sh [of ?i] that Some by auto
    note cc = count_child [OF a(1) i pb]
    have one: "\<forall>x \<in> set (path_pages (ar_pages st1) l slot (Some b)). count_list (reached (ar_pages st1) l (Some b)) x = 1"
      using cc(1) Suc.prems(2) unfolding path r1(1,2) Some [symmetric] by (simp add: Some)
    have "shaped lev n (ar_pages st1) l (Some b)" using r1(3) sh [of ?i] Some by simp
    note ih = Suc.IH [OF this one]
    have keep: "ar_pages ?st x = ar_pages st1 x" if "x \<notin> set (path_pages (ar_pages st) l slot (Some b))" for x using ih that r1(2) by simp
    have "tree_at (ar_pages ?st) l (cs ! j) = tree_at (ar_pages st) l (cs ! j)" if j: "j < 16" "j \<noteq> ?i" for j
    proof -
      have "tree_at (ar_pages ?st) l (cs ! j) = tree_at (ar_pages st1) l (cs ! j)"
        using cc(3) [of _ j] Suc.prems(2) j a(2) unfolding path by (intro read_frame(2) keep) (auto simp: r1(1))
      then show ?thesis using t1 [OF j(1)] by simp
    qed
    moreover have "tree_at (ar_pages ?st) l (cs ! ?i) = node_set l slot key rec (tree_at (ar_pages st) l (cs ! ?i))"
      using ih t1 [of ?i] Some by simp
    ultimately have m: "map (tree_at (ar_pages ?st) l) cs = (map (tree_at (ar_pages st) l) cs)[?i := node_set l slot key rec (tree_at (ar_pages st) l (cs ! ?i))]"
      by (intro nth_equalityI) (use a(2) in \<open>auto simp: nth_list_update\<close>)
    have "a \<notin> set (path_pages (ar_pages st) l slot (Some b))" using pb na [of ?i] by auto
    then have ha: "ar_pages ?st a = Branch_page (u + of_bool (key \<noteq> None)) cs" using keep h1 by simp
    have "tree_at (ar_pages ?st) (Suc l) (Some a) = node_set (Suc l) slot key rec (tree_at (ar_pages st) (Suc l) (Some a))"
      using ha a(1) m i by (simp add: Let_def)
    moreover have "\<forall>x. alike (ar_pages ?st x) (ar_pages st x)" using ih al alike_trans by blast
    moreover have "ar_pages ?st x = ar_pages st x" if "x \<notin> set (path_pages (ar_pages st) (Suc l) slot (Some a))" for x
      using keep that h1 unfolding path by simp
    ultimately show ?thesis using run Some by simp
  qed
qed

lemma arena_shaped_alike:
  assumes "arena_shaped lev st" "\<And>x. alike (ar_pages st' x) (ar_pages st x)" "handles st' = handles st" "ar_next st' = ar_next st"
  shows "arena_shaped lev st'"
  using assms(1) alike_reached(3) [OF assms(2)] by (auto simp: arena_shaped_def assms(3,4) list_all_iff)

lemma link_clear_shaped:
  assumes ok: "arena_shaped lev st" and p: "\<forall>p i. link = Child p i \<longrightarrow> (\<exists>u cs l. ar_pages st p = Branch_page u cs \<and> lev p = Suc l \<and> i < length cs)"
  shows "arena_shaped lev (link_set link None st)"
proof (cases link)
  case Root
  then show ?thesis using ok by (simp add: arena_shaped_def handles_def)
next
  case (Child p i)
  then obtain u cs l where c: "ar_pages st p = Branch_page u cs" "lev p = Suc l" "i < length cs" using p by blast
  have "shaped lev (ar_next st) ((ar_pages st)(p := Branch_page u (cs[i := None]))) k r" if "shaped lev (ar_next st) (ar_pages st) k r" for k r
    by (rule reached_swap(2) [OF c shaped_None that])
  then show ?thesis using ok Child c(1) by (auto simp: arena_shaped_def handles_def page_write_def list_all_iff)
qed

lemma count_down_spec:
  assumes ok: "arena_shaped lev st" and p: "\<forall>p i. link = Child p i \<longrightarrow> (\<exists>u cs l. ar_pages st p = Branch_page u cs \<and> lev p = Suc l \<and> i < length cs)"
    and a: "link_get st link = Some a" "a \<notin> holder link"
  defines "st' \<equiv> count_down link a st" and "n \<equiv> page_used (ar_pages st a) - 1"
  shows "arena_shaped lev st'" "link_get st' link = (if n = 0 then None else Some a)" "ar_pages st' a = set_used n (ar_pages st a)"
    "x \<noteq> a \<Longrightarrow> x \<notin> holder link \<Longrightarrow> ar_pages st' x = ar_pages st x"
    "link = Child q i \<Longrightarrow> ar_pages st q = Branch_page u cs \<Longrightarrow> ar_pages st' q = Branch_page u (cs[i := link_get st' link])"
    "ar_next st' = ar_next st" "ar_height st' = ar_height st" "ar_views st' = ar_views st" "link \<noteq> Root \<Longrightarrow> ar_root st' = ar_root st"
proof -
  define s1 where "s1 = page_write a (set_used n (ar_pages st a)) st"
  have st': "st' = (if n = 0 then link_set link None s1 else s1)" by (simp add: st'_def count_down_def Let_def n_def s1_def)
  have h1: "ar_pages s1 x = (if x = a then set_used n (ar_pages st a) else ar_pages st x)" for x by (simp add: s1_def page_write_def)
  have f1: "ar_next s1 = ar_next st" "ar_height s1 = ar_height st" "ar_views s1 = ar_views st" "ar_root s1 = ar_root st" by (simp_all add: s1_def page_write_def)
  have ok1: "arena_shaped lev s1" by (rule arena_shaped_alike [OF ok]) (simp_all add: h1 handles_def f1)
  have p1: "\<forall>p i. link = Child p i \<longrightarrow> (\<exists>u cs l. ar_pages s1 p = Branch_page u cs \<and> lev p = Suc l \<and> i < length cs)"
    using p a(2) by (auto simp: h1)
  have g1: "link_get s1 link = Some a" using a by (cases link) (auto simp: h1 f1)
  show "arena_shaped lev st'" using ok1 link_clear_shaped [OF ok1 p1] by (simp add: st')
  show l': "link_get st' link = (if n = 0 then None else Some a)"
  proof (cases link)
    case Root
    then show ?thesis using g1 by (simp add: st')
  next
    case (Child q i)
    then show ?thesis using g1 p1 by (auto simp: st' page_write_def)
  qed
  show "ar_pages st' a = set_used n (ar_pages st a)" using a(2) by (cases link) (auto simp: st' h1 page_write_def)
  show "x \<noteq> a \<Longrightarrow> x \<notin> holder link \<Longrightarrow> ar_pages st' x = ar_pages st x" by (cases link) (auto simp: st' h1 page_write_def)
  show "ar_pages st' q = Branch_page u (cs[i := link_get st' link])" if c: "link = Child q i" "ar_pages st q = Branch_page u cs"
  proof -
    have "q \<noteq> a" "cs ! i = Some a" using a c by auto
    then have "cs[i := Some a] = cs" by (metis list_update_id)
    then show ?thesis using l' c \<open>q \<noteq> a\<close> by (auto simp: st' h1 page_write_def)
  qed
  show "ar_next st' = ar_next st" "ar_height st' = ar_height st" "ar_views st' = ar_views st" by (simp_all add: st' f1)
  show "link \<noteq> Root \<Longrightarrow> ar_root st' = ar_root st" by (cases link) (simp_all add: st' f1 page_write_def)
qed

definition removed :: "(nat \<Rightarrow> nat) \<Rightarrow> nat \<Rightarrow> u64 \<Rightarrow> link \<Rightarrow> ('k, 'r) arena \<Rightarrow> ('k, 'r) arena \<Rightarrow> bool" where
  "removed lev l slot link st st' \<longleftrightarrow> arena_shaped lev st' \<and> ar_next st' = ar_next st \<and> ar_height st' = ar_height st \<and> ar_views st' = ar_views st
     \<and> (link \<noteq> Root \<longrightarrow> ar_root st' = ar_root st)
     \<and> (\<forall>x. ar_pages st' x \<noteq> ar_pages st x \<longrightarrow> x \<in> holder link \<or> x \<in> set (path_pages (ar_pages st) l slot (link_get st link)))
     \<and> (\<forall>p i u cs. link = Child p i \<longrightarrow> ar_pages st p = Branch_page u cs \<longrightarrow> ar_pages st' p = Branch_page u (cs[i := link_get st' link]))
     \<and> shaped lev (ar_next st) (ar_pages st') l (link_get st' link)
     \<and> tree_at (ar_pages st') l (link_get st' link) = node_remove l slot (tree_at (ar_pages st) l (link_get st link))"

lemma owned_holder:
  assumes "arena_shaped lev st" "owned lev st l link" "link = Child p i"
  shows "\<exists>u cs k. ar_pages st p = Branch_page u cs \<and> lev p = Suc k \<and> i < length cs"
  by (rule owned_page [OF assms(1) assms(2) [unfolded assms(3)]]) blast

lemma owned_above: "owned lev st l link \<Longrightarrow> p \<in> holder link \<Longrightarrow> lev p = Suc l"
  by (cases link) (simp_all add: owned_def)

lemma remove_at_spec:
  assumes "arena_shaped lev st" "owned lev st l link" "\<forall>x \<in> set (path_pages (ar_pages st) l slot (link_get st link)). visits st x = 1"
  shows "removed lev l slot link st (remove_at l slot link st)"
  using assms
proof (induction l arbitrary: link st)
  case 0
  show ?case
  proof (cases "link_get st link")
    case None
    then show ?thesis using 0(1) by (auto simp: removed_def)
  next
    case (Some a)
    obtain u oc rows where a: "ar_pages st a = Leaf_page u oc rows" "lev a = 0" using owned_shaped [OF 0(1,2)] Some by auto
    define s1 where "s1 = page_write a (Leaf_page u (oc AND NOT (push_bit (leaf_row slot) 1)) (rows[leaf_row slot := None])) st"
    have run: "remove_at 0 slot link st = count_down link a s1" using Some a by (simp add: s1_def Let_def)
    have h1: "ar_pages s1 x = (if x = a then Leaf_page u (oc AND NOT (push_bit (leaf_row slot) 1)) (rows[leaf_row slot := None]) else ar_pages st x)" for x
      by (simp add: s1_def page_write_def)
    have f1: "ar_next s1 = ar_next st" "ar_height s1 = ar_height st" "ar_views s1 = ar_views st" "ar_root s1 = ar_root st" by (simp_all add: s1_def page_write_def)
    have ok1: "arena_shaped lev s1" by (rule arena_shaped_alike [OF 0(1)]) (simp_all add: h1 handles_def f1 a)
    have na: "a \<notin> holder link" using owned_above [OF 0(2)] a(2) by fastforce
    have p1: "\<forall>p i. link = Child p i \<longrightarrow> (\<exists>u cs l. ar_pages s1 p = Branch_page u cs \<and> lev p = Suc l \<and> i < length cs)"
      using owned_holder [OF 0(1,2)] na by (fastforce simp: h1)
    have g1: "link_get s1 link = Some a" using Some na by (cases link) (auto simp: h1 f1)
    note c = count_down_spec [OF ok1 p1 g1 na]
    have "tree_at (ar_pages (count_down link a s1)) 0 (link_get (count_down link a s1) link) = node_remove 0 slot (tree_at (ar_pages st) 0 (Some a))"
      using c(2,3) a(1) by (simp add: h1 release_def Let_def)
    moreover have "x \<in> holder link \<or> x = a" if "ar_pages (count_down link a s1) x \<noteq> ar_pages st x" for x
      using c(4) [of x] that by (auto simp: h1)
    moreover have "ar_pages (count_down link a s1) q = Branch_page v (cs[i := link_get (count_down link a s1) link])"
      if "link = Child q i" "ar_pages st q = Branch_page v cs" for q i v cs using c(5) [OF that(1)] that na by (auto simp: h1)
    moreover have "shaped lev (ar_next st) (ar_pages (count_down link a s1)) 0 (link_get (count_down link a s1) link)"
      using c(2,3) a owned_shaped [OF 0(1,2)] Some by (simp add: h1)
    ultimately show ?thesis using c(1,6-9) Some unfolding removed_def run by (simp add: f1)
  qed
next
  case (Suc l)
  show ?case
  proof (cases "link_get st link")
    case None
    then show ?thesis using Suc.prems(1) by (auto simp: removed_def)
  next
    case (Some a)
    let ?i = "branch slot (Suc l)"
    obtain u cs where a: "ar_pages st a = Branch_page u cs" "lev a = Suc l" "length cs = 16" "list_all (shaped lev (ar_next st) (ar_pages st) l) cs"
      using owned_shaped [OF Suc.prems(1,2)] Some by auto
    have path: "path_pages (ar_pages st) (Suc l) slot (link_get st link) = a # path_pages (ar_pages st) l slot (cs ! ?i)" using Some a(1) by simp
    have one: "visits st a = 1" "\<forall>x \<in> set (path_pages (ar_pages st) l slot (cs ! ?i)). visits st x = 1" using Suc.prems(3) unfolding path by simp_all
    have "a \<in> set (reached (ar_pages st) (Suc l) (link_get st link))" using Some by simp
    then have "a \<in> set (root_pages st)" using owned_sub [OF Suc.prems(1,2), of a] by (metis count_list_0_iff le_zero_eq)
    then have own: "owned lev st l (Child a ?i)" using one(1) a(2) by (simp add: owned_def)
    define s1 where "s1 = remove_at l slot (Child a ?i) st"
    have gi: "link_get st (Child a ?i) = cs ! ?i" using a(1) by simp
    have "removed lev l slot (Child a ?i) st s1" unfolding s1_def by (rule Suc.IH [OF Suc.prems(1) own]) (use one(2) gi in simp)
    note r = this [unfolded removed_def]
    define c where "c = link_get s1 (Child a ?i)"
    have ha: "ar_pages s1 a = Branch_page u (cs[?i := c])" using r a(1) unfolding c_def by blast
    have sh: "shaped lev (ar_next st) (ar_pages st) l (cs ! j)" if "j < 16" for j using a(3,4) that by (simp add: list_all_length)
    have pr: "x \<in> set (reached (ar_pages st) l (cs ! ?i))" if "x \<in> set (path_pages (ar_pages st) l slot (cs ! ?i))" for x
      using path_sub [OF sh [OF branch_less]] that by blast
    have ch: "x = a \<or> x \<in> set (path_pages (ar_pages st) l slot (cs ! ?i))" if "ar_pages s1 x \<noteq> ar_pages st x" for x
      using r that gi by auto
    have up: "ar_pages s1 x = ar_pages st x" if "Suc l < lev x" for x
      using ch [of x] pr [of x] reached_shaped(2) [OF sh [OF branch_less], of x] that a(2) by fastforce
    have na: "a \<notin> holder link" using owned_above [OF Suc.prems(2)] a(2) by fastforce
    have hold: "ar_pages s1 p = ar_pages st p" if "p \<in> holder link" for p using up [of p] owned_above [OF Suc.prems(2) that] by simp
    have p1: "\<forall>p i. link = Child p i \<longrightarrow> (\<exists>u cs l. ar_pages s1 p = Branch_page u cs \<and> lev p = Suc l \<and> i < length cs)"
      using owned_holder [OF Suc.prems(1,2)] hold by fastforce
    have root1: "ar_root s1 = ar_root st" using r by simp
    have g1: "link_get s1 link = Some a"
    proof (cases link)
      case Root
      then show ?thesis using Some root1 by simp
    next
      case (Child p k)
      then show ?thesis using Some hold [of p] by simp
    qed
    have ok1: "arena_shaped lev s1" using r by blast
    define s2 where "s2 = count_down link a s1"
    have run: "remove_at (Suc l) slot link st = s2" using Some by (simp add: s1_def s2_def)
    note d = count_down_spec [OF ok1 p1 g1 na, folded s2_def]
    have h2: "ar_pages s2 a = Branch_page (u - 1) (cs[?i := c])" using d(3) ha by simp
    have low: "ar_pages s2 x = ar_pages s1 x" if "lev x \<le> l" for x
      using d(4) [of x] that a(2) owned_above [OF Suc.prems(2), of x] by fastforce
    have ok2: "arena_shaped lev s2" by (rule d(1))
    have sc: "shaped lev (ar_next st) (ar_pages s1) l c" "tree_at (ar_pages s1) l c = node_remove l slot (tree_at (ar_pages st) l (cs ! ?i))"
      using r unfolding gi c_def by blast+
    have s12: "tree_at (ar_pages s2) l d = tree_at (ar_pages s1) l d" "shaped lev (ar_next st) (ar_pages s2) l d"
      if "shaped lev (ar_next st) (ar_pages s1) l d" for d
    proof -
      have f: "\<And>x. x \<in> set (reached (ar_pages s1) l d) \<Longrightarrow> ar_pages s2 x = ar_pages s1 x" using low reached_shaped(2) [OF that] by blast
      show "tree_at (ar_pages s2) l d = tree_at (ar_pages s1) l d" by (rule read_frame(2) [OF f])
      show "shaped lev (ar_next st) (ar_pages s2) l d" using shaped_frame [OF that, of "ar_pages s2" lev "ar_next st"] f by simp
    qed
    have sib: "tree_at (ar_pages s1) l (cs ! j) = tree_at (ar_pages st) l (cs ! j)" "shaped lev (ar_next st) (ar_pages s1) l (cs ! j)"
      if j: "j < 16" "j \<noteq> ?i" for j
    proof -
      have f: "ar_pages s1 x = ar_pages st x" if x: "x \<in> set (reached (ar_pages st) l (cs ! j))" for x
        using ch [of x] sibling_apart [OF Suc.prems(1) own a(1) j, of x] pr [of x] one(2) x reached_shaped(2) [OF sh [OF j(1)] x] a(2) by fastforce
      show "tree_at (ar_pages s1) l (cs ! j) = tree_at (ar_pages st) l (cs ! j)" by (rule read_frame(2) [OF f])
      show "shaped lev (ar_next st) (ar_pages s1) l (cs ! j)" using shaped_frame [OF sh [OF j(1)], of "ar_pages s1" lev "ar_next st"] f by simp
    qed
    have kids: "list_all (shaped lev (ar_next st) (ar_pages s2) l) (cs[?i := c])"
      unfolding list_all_length using a(3) s12(2) sib(2) sc(1) by (auto simp: nth_list_update)
    have trees: "map (tree_at (ar_pages s2) l) (cs[?i := c]) = (map (tree_at (ar_pages st) l) cs)[?i := node_remove l slot (tree_at (ar_pages st) l (cs ! ?i))]"
      by (rule nth_equalityI) (use a(3) s12(1) sib sc in \<open>auto simp: nth_list_update\<close>)
    have used: "page_used (ar_pages s1 a) = u" using ha by simp
    have lg: "link_get s2 link = (if u - 1 = 0 then None else Some a)" using d(2) unfolding used .
    have "a < ar_next st" using owned_shaped [OF Suc.prems(1,2)] Some by auto
    then have shaped: "shaped lev (ar_next st) (ar_pages s2) (Suc l) (link_get s2 link)" using lg h2 kids a(2,3) by simp
    have tree: "tree_at (ar_pages s2) (Suc l) (link_get s2 link) = node_remove (Suc l) slot (tree_at (ar_pages st) (Suc l) (link_get st link))"
      using lg h2 trees a(1,3) Some by (simp add: release_def Let_def)
    have changed: "x \<in> holder link \<or> x \<in> set (path_pages (ar_pages st) (Suc l) slot (link_get st link))" if "ar_pages s2 x \<noteq> ar_pages st x" for x
      using that d(4) [of x] ch [of x] unfolding path by (cases "x = a"; cases "x \<in> holder link") auto
    have hp: "ar_pages s2 q = Branch_page v (ds[k := link_get s2 link])" if "link = Child q k" "ar_pages st q = Branch_page v ds" for q k v ds
      using d(5) [OF that(1)] hold [of q] that by simp
    have fields: "ar_next s2 = ar_next st" "ar_height s2 = ar_height st" "ar_views s2 = ar_views st" "link \<noteq> Root \<longrightarrow> ar_root s2 = ar_root st"
      using d(6-9) r root1 by simp_all
    show ?thesis unfolding removed_def run using ok2 fields changed hp shaped tree by blast
  qed
qed

lemma arena_shrink_spec:
  assumes "arena_shaped lev st" "ar_height st = h"
  shows "arena_shaped lev (arena_shrink h st) \<and> arena_index (arena_shrink h st) = shrink h (tree_at (ar_pages st) h (ar_root st))
    \<and> ar_pages (arena_shrink h st) = ar_pages st \<and> ar_views (arena_shrink h st) = ar_views st"
  using assms
proof (induction h arbitrary: st)
  case 0
  then show ?case by (simp add: arena_index_def)
next
  case (Suc h)
  show ?case
  proof (cases "ar_root st")
    case None
    then show ?thesis using Suc.prems by (simp add: arena_index_def)
  next
    case (Some a)
    then obtain u cs where a: "ar_pages st a = Branch_page u cs" "length cs = 16" "list_all (shaped lev (ar_next st) (ar_pages st) h) cs"
      using arena_shaped_root [OF Suc.prems(1)] Suc.prems(2) by auto
    obtain child others where cs: "cs = child # others" using a(2) by (cases cs) auto
    let ?stop = "child = None \<or> link_used_at st child \<noteq> u \<or> list_ex (\<lambda>c. c \<noteq> None) others"
    have stop: "(tree_at (ar_pages st) h child = None \<or> link_used (tree_at (ar_pages st) h child) \<noteq> u
        \<or> list_ex (\<lambda>c. c \<noteq> None) (map (tree_at (ar_pages st) h) others)) \<longleftrightarrow> ?stop"
      by (simp only: tree_used tree_at_None_iff list_ex_iff set_map bex_simps ball_simps image_iff)
    show ?thesis
    proof (cases ?stop)
      case True
      then show ?thesis using Some a(1) cs Suc.prems stop by (auto simp: arena_index_def)
    next
      case False
      let ?st = "st\<lparr>ar_root := child, ar_height := h\<rparr>"
      have "arena_shaped lev ?st" using Suc.prems(1) a(3) cs by (simp add: arena_shaped_def handles_def)
      from Suc.IH [OF this] show ?thesis using Some a(1) cs stop False by auto
    qed
  qed
qed

text \<open>What a write keeps: the shape, and every page that a held view reaches.\<close>

definition keeps_views :: "('k, 'r) arena \<Rightarrow> ('k, 'r) arena \<Rightarrow> bool" where
  "keeps_views st st' \<longleftrightarrow> ar_views st' = ar_views st \<and> (\<forall>x \<in> set (view_pages st). ar_pages st' x = ar_pages st x)"

lemma keeps_views_trans: "keeps_views st st1 \<Longrightarrow> keeps_views st1 st2 \<Longrightarrow> keeps_views st st2"
  using view_pages_frame(1) [of st st1] by (auto simp: keeps_views_def)

lemma path_apart:
  assumes "arena_shaped lev st" "\<forall>x \<in> set (path_pages (ar_pages st) (ar_height st) slot (ar_root st)). visits st x = 1"
    "x \<in> set (path_pages (ar_pages st) (ar_height st) slot (ar_root st))"
  shows "x \<notin> set (view_pages st)" "count_list (root_pages st) x = 1"
  using visits_once [of st x] path_sub [OF arena_shaped_root [OF assms(1)], of slot] assms(2,3) by auto

lemma arena_set_spec:
  assumes ok: "arena_shaped lev st" and one: "\<forall>x \<in> set (path_pages (ar_pages st) (ar_height st) slot (ar_root st)). visits st x = 1"
  shows "arena_shaped lev (arena_set slot key rec st)" "arena_index (arena_set slot key rec st) = page_set slot key rec (arena_index st)"
    "keeps_views st (arena_set slot key rec st)"
proof -
  have "arena_shaped lev (arena_set slot key rec st) \<and> arena_index (arena_set slot key rec st) = page_set slot key rec (arena_index st)
      \<and> keeps_views st (arena_set slot key rec st)"
  proof (cases "ar_root st")
    case None
    then show ?thesis using ok by (cases "ar_height st") (simp_all add: arena_set_def arena_index_def page_set_def keeps_views_def)
  next
    case (Some a)
    let ?st = "store_at (ar_height st) slot key rec a st"
    have s: "arena_set slot key rec st = ?st" using Some by (simp add: arena_set_def)
    have "\<forall>x \<in> set (path_pages (ar_pages st) (ar_height st) slot (Some a)). count_list (reached (ar_pages st) (ar_height st) (Some a)) x = 1"
      using path_apart(2) [OF ok one] Some by simp
    note c = store_at_spec [OF arena_shaped_root [OF ok, unfolded Some] this, of key rec]
    have al: "\<And>x. alike (ar_pages ?st x) (ar_pages st x)" using c by blast
    have "arena_shaped lev ?st" by (rule arena_shaped_alike [OF ok al]) (simp_all add: handles_def)
    moreover have "arena_index ?st = page_set slot key rec (arena_index st)" using c Some by (simp add: arena_index_def page_set_def)
    moreover have "keeps_views st ?st" using c path_apart(1) [OF ok one] Some by (auto simp: keeps_views_def)
    ultimately show ?thesis unfolding s by blast
  qed
  then show "arena_shaped lev (arena_set slot key rec st)" "arena_index (arena_set slot key rec st) = page_set slot key rec (arena_index st)"
    "keeps_views st (arena_set slot key rec st)" by blast+
qed

lemma arena_erase_spec:
  assumes ok: "arena_shaped lev st" and one: "\<forall>x \<in> set (path_pages (ar_pages st) (ar_height st) slot (ar_root st)). visits st x = 1"
  shows "arena_shaped lev (arena_erase slot st)" "arena_index (arena_erase slot st) = page_erase slot (arena_index st)"
    "keeps_views st (arena_erase slot st)"
proof -
  define s1 where "s1 = remove_at (ar_height st) slot Root st"
  have "removed lev (ar_height st) slot Root st s1"
    unfolding s1_def by (rule remove_at_spec [OF ok]) (use one in \<open>simp_all add: owned_def\<close>)
  then have r: "arena_shaped lev s1" "ar_height s1 = ar_height st" "ar_views s1 = ar_views st"
      "\<And>x. ar_pages s1 x \<noteq> ar_pages st x \<Longrightarrow> x \<in> set (path_pages (ar_pages st) (ar_height st) slot (ar_root st))"
      "tree_at (ar_pages s1) (ar_height st) (ar_root s1) = node_remove (ar_height st) slot (tree_at (ar_pages st) (ar_height st) (ar_root st))"
    unfolding removed_def by auto
  have k: "keeps_views st s1" using r(3,4) path_apart(1) [OF ok one] by (auto simp: keeps_views_def)
  note sh = arena_shrink_spec [OF r(1,2)]
  have "arena_shaped lev (arena_erase slot st) \<and> arena_index (arena_erase slot st) = page_erase slot (arena_index st) \<and> keeps_views st (arena_erase slot st)"
  proof (cases "ar_root s1 = None")
    case True
    then have e: "arena_erase slot st = s1\<lparr>ar_height := 0\<rparr>" by (simp add: arena_erase_def s1_def [symmetric])
    have "arena_shaped lev (s1\<lparr>ar_height := 0\<rparr>)" using r(1) True by (simp add: arena_shaped_def handles_def)
    moreover have "keeps_views st (s1\<lparr>ar_height := 0\<rparr>)" using k by (simp add: keeps_views_def)
    moreover have "node_remove (ar_height st) slot (tree_at (ar_pages st) (ar_height st) (ar_root st)) = None" using r(5) True by simp
    ultimately show ?thesis unfolding e using True by (simp add: arena_index_def page_erase_def)
  next
    case False
    then have e: "arena_erase slot st = arena_shrink (ar_height st) s1" using r(2) by (auto simp: arena_erase_def s1_def [symmetric])
    have "page_erase slot (arena_index st) = shrink (ar_height st) (tree_at (ar_pages s1) (ar_height st) (ar_root s1))"
      using False by (auto simp: page_erase_def arena_index_def r(5) [symmetric])
    then have "arena_index (arena_shrink (ar_height st) s1) = page_erase slot (arena_index st)" using sh by simp
    moreover have "keeps_views st (arena_shrink (ar_height st) s1)" using sh k by (simp add: keeps_views_def)
    ultimately show ?thesis unfolding e using sh by blast
  qed
  then show "arena_shaped lev (arena_erase slot st)" "arena_index (arena_erase slot st) = page_erase slot (arena_index st)"
    "keeps_views st (arena_erase slot st)" by blast+
qed

end
