(* ===== verification/Pages_Shared_Rules.thy ===== *)
theory Pages_Shared_Rules
  imports Pages_Shared_Write "HOL-Library.Code_Target_Nat"
begin

text \<open>
  A writer and its readers: the pages they share behave as values.
\<close>

subsection \<open>Runs\<close>

text \<open>A writer and its readers, with the contents the index should have and those each held view was captured at.  The writer's steps run
  under the lock of the owning state: it prepares a path, which may fail, and then commits on it or not; views are captured in between
  and released at any time.\<close>

definition view_index :: "('k, 'r) view \<Rightarrow> ('k, 'r) pages" where
  "view_index v = \<lparr>pg_root = vw_root v, pg_height = vw_height v\<rparr>"

lemma view_index_capture [simp]: "view_index (capture p) = p" "capture (view_index v) = v"
  by (simp_all add: view_index_def capture_def)

inductive arena_run :: "('k, 'r) arena \<Rightarrow> (u64 \<rightharpoonup> 'k \<times> 'r) \<Rightarrow> (u64 \<rightharpoonup> 'k \<times> 'r) list \<Rightarrow> bool" where
  start: "arena_run arena_new Map.empty []"
| prepare: "arena_run st m vs \<Longrightarrow> arena_prepare roots paths slot st = (whole, st') \<Longrightarrow> arena_run st' m vs"
| set: "arena_run st m vs \<Longrightarrow> arena_prepare roots paths slot st = (True, st') \<Longrightarrow> slot \<noteq> - 1 \<Longrightarrow> (key \<noteq> None) = (m slot = None) \<Longrightarrow>
    arena_run (arena_set slot key rec st') (m(slot := set_row key rec (m slot))) vs"
| erase: "arena_run st m vs \<Longrightarrow> arena_prepare roots paths slot st = (True, st') \<Longrightarrow> m slot \<noteq> None \<Longrightarrow>
    arena_run (arena_erase slot st') (m(slot := None)) vs"
| capture: "arena_run st m vs \<Longrightarrow> arena_run (arena_capture st) m (vs @ [m])"
| release: "arena_run st m vs \<Longrightarrow> arena_run (arena_release i st) m (take i vs @ drop (Suc i) vs)"

definition arena_holds :: "('k, 'r) arena \<Rightarrow> (u64 \<rightharpoonup> 'k \<times> 'r) \<Rightarrow> (u64 \<rightharpoonup> 'k \<times> 'r) list \<Rightarrow> bool" where
  "arena_holds st m vs \<longleftrightarrow> (\<exists>lev. arena_shaped lev st) \<and> pages_ok (arena_index st) \<and> page_find (arena_index st) = m
     \<and> map (page_find \<circ> view_index \<circ> arena_view st) (ar_views st) = vs \<and> list_all (pages_ok \<circ> view_index \<circ> arena_view st) (ar_views st)"

lemma keeps_views_same:
  assumes "keeps_views st st'"
  shows "map (f \<circ> arena_view st') (ar_views st') = map (f \<circ> arena_view st) (ar_views st)"
    "list_all (P \<circ> arena_view st') (ar_views st') = list_all (P \<circ> arena_view st) (ar_views st)"
proof -
  have m: "map (arena_view st') (ar_views st') = map (arena_view st) (ar_views st)" using assms by (intro view_pages_frame(2)) (auto simp: keeps_views_def)
  then show "map (f \<circ> arena_view st') (ar_views st') = map (f \<circ> arena_view st) (ar_views st)" by (metis map_map)
  show "list_all (P \<circ> arena_view st') (ar_views st') = list_all (P \<circ> arena_view st) (ar_views st)"
    using m by (metis list.pred_map)
qed

text \<open>One write: a prepared path, and what is committed on it.\<close>

lemma write_holds:
  assumes h: "arena_holds st m vs" and p: "arena_prepare roots paths slot st = (whole, st')"
  shows "arena_holds st' m vs" "keeps_views st st'"
    "whole \<Longrightarrow> slot \<noteq> - 1 \<Longrightarrow> (key \<noteq> None) = (m slot = None) \<Longrightarrow> arena_holds (arena_set slot key rec st') (m(slot := set_row key rec (m slot))) vs"
    "whole \<Longrightarrow> keeps_views st (arena_set slot key rec st')"
    "whole \<Longrightarrow> m slot \<noteq> None \<Longrightarrow> arena_holds (arena_erase slot st') (m(slot := None)) vs" "whole \<Longrightarrow> keeps_views st (arena_erase slot st')"
    "(\<forall>k. roots k) \<Longrightarrow> (\<forall>k. paths k) \<Longrightarrow> whole"
proof -
  obtain lev where lev: "arena_shaped lev st" using h by (auto simp: arena_holds_def)
  have ok: "pages_ok (arena_index st)" and m: "page_find (arena_index st) = m" using h by (simp_all add: arena_holds_def)
  obtain lev' flags where q: "arena_shaped lev' st'" "page_prepare roots flags slot (arena_index st) = (whole, arena_index st')" "\<forall>k. paths k \<longrightarrow> flags k"
      "ar_views st' = ar_views st" "\<forall>x \<in> set (view_pages st). ar_pages st' x = ar_pages st x"
      "whole \<longrightarrow> (\<forall>x \<in> set (path_pages (ar_pages st') (ar_height st') slot (ar_root st')). visits st' x = 1)"
    by (rule arena_prepare_spec [OF lev p])
  show k: "keeps_views st st'" using q(4,5) by (simp add: keeps_views_def)
  have vs: "map (page_find \<circ> view_index \<circ> arena_view s) (ar_views s) = vs \<and> list_all (pages_ok \<circ> view_index \<circ> arena_view s) (ar_views s)" if "keeps_views st s" for s
    using keeps_views_same(1) [OF that, of "page_find \<circ> view_index"] keeps_views_same(2) [OF that, of "pages_ok \<circ> view_index"] h
    by (simp add: arena_holds_def)
  note pk = pages_index.prepare_keeps [OF ok q(2)]
  show "arena_holds st' m vs" using q(1) pk vs [OF k] m by (auto simp: arena_holds_def)
  { assume w: whole
    note c = arena_set_spec [OF q(1) mp [OF q(6) w], of key rec] and e = arena_erase_spec [OF q(1) mp [OF q(6) w]]
    show ks: "keeps_views st (arena_set slot key rec st')" by (rule keeps_views_trans [OF k c(3)])
    show ke: "keeps_views st (arena_erase slot st')" by (rule keeps_views_trans [OF k e(3)])
    show "arena_holds (arena_set slot key rec st') (m(slot := set_row key rec (m slot))) vs" if "slot \<noteq> - 1" "(key \<noteq> None) = (m slot = None)"
      using pages_index.store_writes [of "arena_index st'" slot key rec] pk m w that c vs [OF ks] by (auto simp: arena_holds_def)
    show "arena_holds (arena_erase slot st') (m(slot := None)) vs" if "m slot \<noteq> None"
      using pages_index.drop_clears [of "arena_index st'" slot] pk m w that e vs [OF ke] by (auto simp: arena_holds_def) }
  show "(\<forall>k. roots k) \<Longrightarrow> (\<forall>k. paths k) \<Longrightarrow> whole"
    using page_prepare_succeeds [OF ok, of roots flags slot] q(2,3) by simp
qed

lemma arena_new_holds: "arena_holds (arena_new :: ('k, 'r) arena) Map.empty []"
proof -
  have "arena_shaped (\<lambda>_. 0) (arena_new :: ('k, 'r) arena)" by (simp add: arena_shaped_def handles_def arena_new_def)
  moreover have "arena_index (arena_new :: ('k, 'r) arena) = pages_new" "ar_views (arena_new :: ('k, 'r) arena) = []"
    by (simp_all add: arena_index_def arena_new_def pages_new_def)
  moreover have "page_find (pages_new :: ('k, 'r) pages) = Map.empty" by (rule ext) (rule page_new_ok(2))
  ultimately show ?thesis using page_new_ok(1) by (auto simp: arena_holds_def)
qed

lemma arena_run_holds: "arena_run st m vs \<Longrightarrow> arena_holds st m vs"
proof (induction rule: arena_run.induct)
  case start
  show ?case by (rule arena_new_holds)
next
  case (capture st m vs)
  have e: "arena_index (arena_capture st) = arena_index st" "arena_view (arena_capture st) = arena_view st"
    by (simp_all add: arena_index_def arena_view_def arena_capture_def)
  have v: "view_index (arena_view st (ar_root st, ar_height st)) = arena_index st" by (simp add: arena_view_def arena_index_def view_index_def)
  have "arena_shaped lev (arena_capture st)" if "arena_shaped lev st" for lev
    using that by (simp add: arena_shaped_def handles_def arena_capture_def)
  then show ?case using capture.IH v unfolding arena_holds_def e by (auto simp: arena_capture_def)
next
  case (release st m vs i)
  have e: "arena_index (arena_release i st) = arena_index st" "arena_view (arena_release i st) = arena_view st"
    by (simp_all add: arena_index_def arena_view_def arena_release_def)
  have "arena_shaped lev (arena_release i st)" if "arena_shaped lev st" for lev
    using that by (auto simp: arena_shaped_def handles_def arena_release_def list_all_iff dest: in_set_takeD in_set_dropD)
  then show ?case using release.IH unfolding arena_holds_def e
    by (auto simp: arena_release_def take_map drop_map list_all_iff dest: in_set_takeD in_set_dropD)
next
  case (prepare st m vs roots paths slot whole st')
  show ?case by (rule write_holds(1) [OF prepare.IH prepare.hyps(2)])
next
  case (set st m vs roots paths slot st' key rec)
  show ?case by (rule write_holds(3) [OF set.IH set.hyps(2) TrueI set.hyps(3,4)])
next
  case (erase st m vs roots paths slot st')
  show ?case by (rule write_holds(5) [OF erase.IH erase.hyps(2) TrueI erase.hyps(3)])
qed

subsection \<open>Properties\<close>

text \<open>C3: Shared pages behave as values.  Over any run of a writer that prepares, sets and erases, with allocations that fail or not, and of
  readers that capture and release views in between: the index finds exactly what was committed, and every view that is still held
  finds exactly what was committed when it was captured.  A step of the writer never changes a page that a held view can reach, so a
  reader needs no lock; with memory a path can be prepared.\<close>

theorem shared_pages_isolated:
  assumes "arena_run st m vs" "arena_prepare roots paths slot st = (whole, st')"
  shows "page_find (arena_index st) = m \<and> map (page_find \<circ> view_index \<circ> arena_view st) (ar_views st) = vs
    \<and> list_all (\<lambda>v. set (view_entries (arena_view st v)) = {e. \<exists>s. page_find (view_index (arena_view st v)) s = Some e}) (ar_views st)
    \<and> (\<forall>a \<in> set (view_pages st). ar_pages st' a = ar_pages st a
         \<and> (whole \<longrightarrow> ar_pages (arena_set slot key rec st') a = ar_pages st a \<and> ar_pages (arena_erase slot st') a = ar_pages st a))
    \<and> ((\<forall>k. roots k) \<and> (\<forall>k. paths k) \<longrightarrow> whole)"
proof -
  have h: "arena_holds st m vs" by (rule arena_run_holds [OF assms(1)])
  note w = write_holds [OF h assms(2)]
  have "set (view_entries v) = {e. \<exists>s. page_find (view_index v) s = Some e}" if "pages_ok (view_index v)" for v :: "('a, 'b) view"
    using view_entries_find [OF that] by simp
  then show ?thesis using h w(2,4,6,7) by (auto simp: arena_holds_def keeps_views_def list_all_iff)
qed

text \<open>A record that is replaced while a reader holds a view of it.\<close>

definition everywhere :: "nat \<Rightarrow> bool" where
  "everywhere _ = True"

definition first_arena :: "(string, nat) arena" where
  "first_arena = arena_capture (arena_set 70 (Some ''a'') 7 (snd (arena_prepare everywhere everywhere 70 arena_new)))"

definition second_arena :: "(string, nat) arena" where
  "second_arena = arena_set 70 None 8 (snd (arena_prepare everywhere everywhere 70 first_arena))"

lemma prepared_pair: "fst (arena_prepare roots paths slot st) \<Longrightarrow> arena_prepare roots paths slot st = (True, snd (arena_prepare roots paths slot st))"
  by (cases "arena_prepare roots paths slot st") simp

lemma second_arena_run: "arena_run second_arena [70 \<mapsto> (''a'', 8)] [[70 \<mapsto> (''a'', 7)]]"
proof -
  have p: "fst (arena_prepare everywhere everywhere 70 (arena_new :: (string, nat) arena))" "fst (arena_prepare everywhere everywhere 70 first_arena)"
    by code_simp+
  have one: "arena_run first_arena [70 \<mapsto> (''a'', 7)] [[70 \<mapsto> (''a'', 7)]]"
    using arena_run.capture [OF arena_run.set [OF arena_run.start prepared_pair [OF p(1)], of "Some ''a''" 7]]
    by (simp add: first_arena_def set_row_def)
  show ?thesis using arena_run.set [OF one prepared_pair [OF p(2)], of None 8] by (simp add: second_arena_def set_row_def)
qed

theorem shared_pages_isolated_witness:
  "page_find (arena_index second_arena) 70 = Some (''a'', 8) \<and> ar_views second_arena \<noteq> []
    \<and> page_find (view_index (arena_view second_arena (hd (ar_views second_arena)))) 70 = Some (''a'', 7)"
proof -
  obtain whole st' where "arena_prepare everywhere everywhere 3 second_arena = (whole, st')" by fastforce
  from shared_pages_isolated [OF second_arena_run this] have
    "page_find (arena_index second_arena) = [70 \<mapsto> (''a'', 8)]"
    "map (page_find \<circ> view_index \<circ> arena_view second_arena) (ar_views second_arena) = [[70 \<mapsto> (''a'', 7)]]" by blast+
  then show ?thesis by (cases "ar_views second_arena") auto
qed

end
