(* ===== verification/Scene.thy ===== *)
theory Scene
  imports Pages_Index Types "HOL-Library.AList"
begin

text \<open>
  The visible contents of one scope of live state, \<^verbatim>\<open>astra/star/src/scene.hpp\<close>: a directory of keys over the page index, the history
  of events that a late reader may be sent, single changes that are prepared and then committed or abandoned, and batches that are assembled
  beside the scene and exchanged with it.  A \<^verbatim>\<open>std::size_t\<close> is a natural number with the tests of its range that the code makes; which
  allocations succeed is an argument.
\<close>

subsection \<open>Data\<close>

record origin_name =
  on_scope :: scope
  on_key :: string

record ('n, 'r) event =
  ev_name :: "'n option"
  ev_record :: "'r option"
  ev_version :: u64
  ev_data :: bool
  ev_bytes :: nat
  ev_stored :: int

record scene_limits =
  lm_records :: nat
  lm_bytes :: nat
  lm_history :: nat
  lm_backlog :: nat
  lm_retention :: int

datatype scene_error = Sn_input | Sn_capacity | Sn_version | Sn_history

text \<open>A call returns a value, returns an error of \<^verbatim>\<open>std::expected\<close>, or throws.\<close>

datatype 'a scene_result = Scene_done 'a | Scene_refused scene_error | Scene_thrown

record 'r scene_point =
  pt_name :: "origin_name option"
  pt_record :: "'r option"
  pt_version :: u64

record ('n, 'r) scene_view =
  sv_root :: "('n, 'r) view"
  sv_version :: u64
  sv_size :: nat
  sv_bytes :: nat

text \<open>Sizes of the C++ types that enter the accounting, and the largest value of \<^verbatim>\<open>std::size_t\<close>.\<close>

record scene_sizes =
  sz_item :: nat
  sz_name :: nat
  sz_event :: nat
  sz_max :: nat

record 'r scene =
  sn_measure :: "'r \<Rightarrow> nat"
  sn_limits :: scene_limits
  sn_tree :: "(origin_name, 'r) pages"
  sn_entries :: "(string \<times> u64) list"
  sn_history :: "(origin_name, 'r) event list"
  sn_version :: u64
  sn_bytes :: nat
  sn_backlog :: nat
  sn_editing :: bool

record 'r scene_edit =
  et_slot :: u64
  et_bytes :: nat
  et_evicted :: nat
  et_added :: bool
  et_queued :: bool
  et_event :: "(origin_name, 'r) event"
  et_old :: "'r option"

record 'r scene_retired =
  rt_event :: "(origin_name, 'r) event"
  rt_record :: "'r option"
  rt_events :: "(origin_name, 'r) event list"

text \<open>Which allocations of a call succeed.\<close>

record scene_grants =
  sg_entry :: bool
  sg_roots :: "nat \<Rightarrow> bool"
  sg_pages :: "nat \<Rightarrow> bool"
  sg_history :: bool
  sg_retired :: bool
  sg_events :: bool
  sg_seen :: bool
  sg_names :: bool

definition scene_new :: "('r \<Rightarrow> nat) \<Rightarrow> scene_limits \<Rightarrow> 'r scene option" where
  "scene_new meter limits =
     (if lm_retention limits < 0 then None
      else Some \<lparr>sn_measure = meter, sn_limits = limits, sn_tree = pages_new, sn_entries = [], sn_history = [], sn_version = 0,
        sn_bytes = 0, sn_backlog = 0, sn_editing = False\<rparr>)"

definition scene_weight :: "scene_sizes \<Rightarrow> ('r \<Rightarrow> nat) \<Rightarrow> string \<Rightarrow> 'r \<Rightarrow> nat option" where
  "scene_weight sz meter key record =
     (let metadata = sz_item sz + sz_name sz + length key + 128; payload = meter record
      in if payload > sz_max sz - metadata then None else Some (metadata + payload))"

subsection \<open>Reading\<close>

definition scene_empty :: "('n, 'r) scene_view" where
  "scene_empty = \<lparr>sv_root = capture pages_new, sv_version = 0, sv_size = unat (view_size (capture pages_new :: ('n, 'r) view)), sv_bytes = 0\<rparr>"

definition scene_capture :: "'r scene \<Rightarrow> (origin_name, 'r) scene_view scene_result" where
  "scene_capture s =
     (if sn_editing s then Scene_thrown
      else Scene_done \<lparr>sv_root = capture (sn_tree s), sv_version = sn_version s, sv_size = unat (view_size (capture (sn_tree s))), sv_bytes = sn_bytes s\<rparr>)"

definition scene_find :: "string \<Rightarrow> 'r scene \<Rightarrow> 'r scene_point scene_result" where
  "scene_find key s =
     (if sn_editing s then Scene_thrown
      else Scene_done (case map_of (sn_entries s) key of
             None \<Rightarrow> \<lparr>pt_name = None, pt_record = None, pt_version = sn_version s\<rparr>
           | Some slot \<Rightarrow> let (name, record) = the (page_find (sn_tree s) slot)
                         in \<lparr>pt_name = Some name, pt_record = Some record, pt_version = sn_version s\<rparr>))"

definition scene_history :: "'r scene \<Rightarrow> nat scene_result" where
  "scene_history s = (if sn_editing s then Scene_thrown else Scene_done (sn_backlog s))"

definition scene_replay :: "u64 \<Rightarrow> 'r scene \<Rightarrow> (origin_name, 'r) event list scene_result" where
  "scene_replay since s =
     (if sn_editing s then Scene_thrown
      else if since > sn_version s then Scene_refused Sn_version
      else if since = sn_version s then Scene_done []
      else if sn_history s = [] \<or> ev_version (hd (sn_history s)) - 1 > since then Scene_refused Sn_history
      else let found = dropWhile (\<lambda>e. \<not> since < ev_version e) (sn_history s)
           in if found = [] then Scene_refused Sn_history else Scene_done found)"

subsection \<open>One change\<close>

definition scene_abort :: "'r scene_edit \<Rightarrow> 'r scene \<Rightarrow> 'r scene" where
  "scene_abort e s =
     (let s1 = (if et_queued e then s\<lparr>sn_backlog := sn_backlog s - ev_bytes (last (sn_history s)), sn_history := butlast (sn_history s)\<rparr> else s);
          s2 = (if et_added e then s1\<lparr>sn_entries := AList.delete (on_key (the (ev_name (et_event e)))) (sn_entries s1)\<rparr> else s1)
      in s2\<lparr>sn_editing := False\<rparr>)"

text \<open>Whether the oldest event has to go; \<open>retained\<close> and \<open>backlog\<close> count it and the later ones.\<close>

definition outdated :: "scene_limits \<Rightarrow> nat \<Rightarrow> int \<Rightarrow> nat \<Rightarrow> nat \<Rightarrow> ('n, 'r) event \<Rightarrow> bool" where
  "outdated lm retention now retained backlog e \<longleftrightarrow>
     retained > lm_history lm \<or> backlog > min (lm_backlog lm) retention \<or> (now \<ge> ev_stored e \<and> now - ev_stored e \<ge> lm_retention lm)"

fun scene_evict :: "scene_limits \<Rightarrow> nat \<Rightarrow> int \<Rightarrow> ('n, 'r) event list \<Rightarrow> nat \<Rightarrow> nat" where
  "scene_evict lm retention now [] backlog = 0"
| "scene_evict lm retention now (e # es) backlog =
     (if outdated lm retention now (length (e # es)) backlog e then Suc (scene_evict lm retention now es (backlog - ev_bytes e)) else 0)"

text \<open>The last part of \<^verbatim>\<open>prepare\<close>, after the slot and its path are ready: the event is charged and queued.\<close>

definition scene_queue :: "scene_sizes \<Rightarrow> scene_grants \<Rightarrow> nat \<Rightarrow> 'r scene_edit \<Rightarrow> 'r scene \<Rightarrow> 'r scene_edit scene_result \<times> 'r scene" where
  "scene_queue sz gr retention e s =
     (let event = et_event e;
          metadata = sz_event sz + sz_name sz + length (on_key (the (ev_name event)));
          payload = (case ev_record event of None \<Rightarrow> 0 | Some r \<Rightarrow> sn_measure s r)
      in if payload > sz_max sz - metadata \<or> metadata + payload > sz_max sz - sn_backlog s then (Scene_refused Sn_capacity, scene_abort e s)
         else let event' = event\<lparr>ev_bytes := metadata + payload\<rparr>
              in if \<not> sg_history gr then (Scene_thrown, scene_abort e s)
                 else let s1 = s\<lparr>sn_history := sn_history s @ [event'], sn_backlog := sn_backlog s + ev_bytes event'\<rparr>;
                          e1 = e\<lparr>et_event := event', et_queued := True,
                                 et_evicted := scene_evict (sn_limits s) retention (ev_stored event') (sn_history s1) (sn_backlog s1)\<rparr>
                      in if \<not> sg_retired gr then (Scene_thrown, scene_abort e1 s1) else (Scene_done e1, s1))"

definition scene_prepare :: "scene_sizes \<Rightarrow> scene_grants \<Rightarrow> origin_name option \<Rightarrow> 'r option \<Rightarrow> int \<Rightarrow> bool \<Rightarrow> nat \<Rightarrow> 'r scene
    \<Rightarrow> 'r scene_edit scene_result \<times> 'r scene" where
  "scene_prepare sz gr name record now data retention s =
     (if sn_editing s then (Scene_thrown, s)
      else case name of
        None \<Rightarrow> (Scene_refused Sn_input, s)
      | Some n \<Rightarrow>
        if on_key n = [] \<or> length (on_key n) > 1024 then (Scene_refused Sn_input, s)
        else if sn_version s = - 1 then (Scene_refused Sn_version, s)
        else let found = map_of (sn_entries s) (on_key n); exists = (found \<noteq> None)
        in if (record = None \<and> \<not> exists) \<or> (data \<and> (record = None \<or> \<not> exists)) then (Scene_refused Sn_input, s)
        else let s1 = s\<lparr>sn_editing := True\<rparr>;
                 row = (case found of None \<Rightarrow> None | Some slot \<Rightarrow> page_find (sn_tree s) slot);
                 n1 = (if exists then fst (the row) else n);
                 e1 = \<lparr>et_slot = (if exists then the found else 0), et_bytes = 0, et_evicted = 0, et_added = False, et_queued = False,
                       et_event = \<lparr>ev_name = Some n1, ev_record = record, ev_version = sn_version s + 1, ev_data = data, ev_bytes = 0, ev_stored = now\<rparr>,
                       et_old = (if exists then Some (snd (the row)) else None)\<rparr>;
                 before = (case et_old e1 of None \<Rightarrow> Some 0 | Some old \<Rightarrow> scene_weight sz (sn_measure s) (on_key n1) old);
                 after = (case record of None \<Rightarrow> Some 0 | Some r \<Rightarrow> scene_weight sz (sn_measure s) (on_key n1) r)
             in if before = None \<or> after = None \<or> the after > lm_bytes (sn_limits s)
                   \<or> sn_bytes s - the before > lm_bytes (sn_limits s) - the after
                   \<or> (\<not> exists \<and> length (sn_entries s) = lm_records (sn_limits s))
                then (Scene_refused Sn_capacity, scene_abort e1 s1)
                else let e2 = e1\<lparr>et_bytes := sn_bytes s - the before + the after\<rparr>
                in case (if exists then Inr (the found) else page_next (sn_tree s)) of
                     Inl _ \<Rightarrow> (Scene_thrown, scene_abort e2 s1)
                   | Inr slot \<Rightarrow>
                     let e3 = e2\<lparr>et_slot := slot\<rparr>
                     in if \<not> exists \<and> \<not> sg_entry gr then (Scene_thrown, scene_abort e3 s1)
                        else let e4 = (if exists then e3 else e3\<lparr>et_added := True\<rparr>);
                                 s2 = (if exists then s1 else s1\<lparr>sn_entries := (on_key n1, slot) # sn_entries s1\<rparr>);
                                 (ready, tree) = page_prepare (sg_roots gr) (sg_pages gr) slot (sn_tree s2);
                                 s3 = s2\<lparr>sn_tree := tree\<rparr>
                             in if \<not> ready then (Scene_thrown, scene_abort e4 s3) else scene_queue sz gr retention e4 s3)"

definition scene_commit :: "'r scene_edit \<Rightarrow> 'r scene \<Rightarrow> 'r scene_retired \<times> 'r scene" where
  "scene_commit e s =
     (let event = et_event e;
          s1 = (case ev_record event of
                  Some r \<Rightarrow> s\<lparr>sn_tree := page_set (et_slot e) (if et_added e then ev_name event else None) r (sn_tree s)\<rparr>
                | None \<Rightarrow> s\<lparr>sn_tree := page_erase (et_slot e) (sn_tree s),
                            sn_entries := AList.delete (on_key (the (ev_name event))) (sn_entries s)\<rparr>);
          gone = take (et_evicted e) (sn_history s)
      in (\<lparr>rt_event = event, rt_record = et_old e, rt_events = gone\<rparr>,
          s1\<lparr>sn_bytes := et_bytes e, sn_version := ev_version event, sn_history := drop (et_evicted e) (sn_history s),
             sn_backlog := sn_backlog s - sum_list (map ev_bytes gone), sn_editing := False\<rparr>))"

subsection \<open>Batches\<close>

record 'r scene_batch =
  bt_tree :: "(origin_name, 'r) pages"
  bt_history :: "(origin_name, 'r) event list"
  bt_events :: "(origin_name, 'r) event list"
  bt_added :: "origin_name list"
  bt_removed :: "origin_name list"
  bt_seen :: "string list"
  bt_bytes :: nat
  bt_backlog :: nat
  bt_version :: u64
  bt_retention :: nat
  bt_failed :: bool

record 'r batch_retired =
  br_root :: "(origin_name, 'r) pages"
  br_history :: "(origin_name, 'r) event list"
  br_events :: "(origin_name, 'r) event list"

definition scene_batch_new :: "bool \<Rightarrow> nat \<Rightarrow> 'r scene \<Rightarrow> 'r scene_batch scene_result \<times> 'r scene" where
  "scene_batch_new copied retention s =
     (if sn_editing s \<or> \<not> copied then (Scene_thrown, s)
      else (Scene_done \<lparr>bt_tree = sn_tree s, bt_history = sn_history s, bt_events = [], bt_added = [], bt_removed = [], bt_seen = [],
              bt_bytes = sn_bytes s, bt_backlog = sn_backlog s, bt_version = sn_version s, bt_retention = retention, bt_failed = False\<rparr>,
            s\<lparr>sn_editing := True\<rparr>))"

definition batch_find :: "string \<Rightarrow> 'r scene \<Rightarrow> 'r scene_point" where
  "batch_find key s =
     (let absent = \<lparr>pt_name = None, pt_record = None, pt_version = sn_version s\<rparr>
      in case map_of (sn_entries s) key of
           None \<Rightarrow> absent
         | Some slot \<Rightarrow>
             (case page_find (sn_tree s) slot of
                None \<Rightarrow> absent
              | Some (name, record) \<Rightarrow>
                  if on_key name = key then \<lparr>pt_name = Some name, pt_record = Some record, pt_version = sn_version s\<rparr> else absent))"

fun scene_trim :: "scene_limits \<Rightarrow> nat \<Rightarrow> int \<Rightarrow> ('n, 'r) event list \<Rightarrow> nat \<Rightarrow> ('n, 'r) event list \<times> nat" where
  "scene_trim lm retention now [] backlog = ([], backlog)"
| "scene_trim lm retention now (e # es) backlog =
     (if outdated lm retention now (length (e # es)) backlog e then scene_trim lm retention now es (backlog - ev_bytes e) else (e # es, backlog))"

text \<open>What \<^verbatim>\<open>set\<close> does once the change is admitted.  The flag is false where an allocation throws; the candidate and the
  directory are then as they are left behind.\<close>

definition batch_store :: "scene_grants \<Rightarrow> (origin_name, 'r) event \<Rightarrow> bool \<Rightarrow> u64 \<Rightarrow> nat \<Rightarrow> 'r scene_batch \<Rightarrow> 'r scene
    \<Rightarrow> bool \<times> 'r scene_batch \<times> 'r scene" where
  "batch_store gr event exists slot bytes b s =
     (let n = the (ev_name event); key = on_key n
      in if \<not> sg_events gr then (False, b, s)
         else let b1 = b\<lparr>bt_events := bt_events b @ [event]\<rparr>
         in if \<not> sg_seen gr then (False, b1, s)
         else let b2 = b1\<lparr>bt_seen := key # bt_seen b\<rparr>
         in if \<not> sg_names gr \<and> (\<not> exists \<or> ev_record event = None) then (False, b2, s)
         else let b3 = (if \<not> exists then b2\<lparr>bt_added := bt_added b @ [n]\<rparr>
                        else if ev_record event = None then b2\<lparr>bt_removed := bt_removed b @ [n]\<rparr> else b2)
         in if \<not> exists \<and> \<not> sg_entry gr then (False, b3, s)
         else let s1 = (if exists then s else s\<lparr>sn_entries := (key, slot) # sn_entries s\<rparr>);
                  (ready, tree) = page_prepare (sg_roots gr) (sg_pages gr) slot (bt_tree b)
         in if \<not> ready then (False, b3\<lparr>bt_tree := tree\<rparr>, s1)
         else let b4 = b3\<lparr>bt_tree := (case ev_record event of Some r \<Rightarrow> page_set slot (if exists then None else Some n) r tree
                                      | None \<Rightarrow> page_erase slot tree)\<rparr>
         in if \<not> sg_history gr then (False, b4, s1)
         else let (kept, backlog) = scene_trim (sn_limits s) (bt_retention b) (ev_stored event) (bt_history b @ [event]) (bt_backlog b + ev_bytes event)
         in (True, b4\<lparr>bt_history := kept, bt_backlog := backlog, bt_bytes := bytes, bt_version := bt_version b + 1, bt_failed := False\<rparr>, s1))"

definition batch_set :: "scene_sizes \<Rightarrow> scene_grants \<Rightarrow> origin_name option \<Rightarrow> 'r option \<Rightarrow> int \<Rightarrow> bool \<Rightarrow> 'r scene_batch \<Rightarrow> 'r scene
    \<Rightarrow> unit scene_result \<times> 'r scene_batch \<times> 'r scene" where
  "batch_set sz gr name record now data b s =
     (let b0 = b\<lparr>bt_failed := True\<rparr>
      in if bt_failed b then (Scene_refused Sn_input, b0, s)
      else case name of
        None \<Rightarrow> (Scene_refused Sn_input, b0, s)
      | Some n \<Rightarrow>
        if on_key n = [] \<or> length (on_key n) > 1024 then (Scene_refused Sn_input, b0, s)
        else if bt_version b = - 1 then (Scene_refused Sn_version, b0, s)
        else let found = map_of (sn_entries s) (on_key n); exists = (found \<noteq> None)
        in if (record = None \<and> \<not> exists) \<or> (data \<and> (record = None \<or> \<not> exists)) \<or> on_key n \<in> set (bt_seen b) then (Scene_refused Sn_input, b0, s)
        else case (if exists then Inr (the found) else page_next (bt_tree b)) of
          Inl _ \<Rightarrow> (Scene_thrown, b0, s)
        | Inr slot \<Rightarrow>
          let old = (if exists then page_find (sn_tree s) slot else None);
              n1 = (if exists then fst (the old) else n);
              before = (if exists then scene_weight sz (sn_measure s) (on_key n1) (snd (the old)) else Some 0);
              after = (case record of None \<Rightarrow> Some 0 | Some r \<Rightarrow> scene_weight sz (sn_measure s) (on_key n1) r)
          in if before = None \<or> after = None \<or> the after > lm_bytes (sn_limits s)
                \<or> bt_bytes b - the before > lm_bytes (sn_limits s) - the after
                \<or> (\<not> exists \<and> length (sn_entries s) - length (bt_removed b) = lm_records (sn_limits s))
             then (Scene_refused Sn_capacity, b0, s)
             else let metadata = sz_event sz + sz_name sz + length (on_key n1);
                      payload = (case record of None \<Rightarrow> 0 | Some r \<Rightarrow> sn_measure s r)
             in if payload > sz_max sz - metadata \<or> metadata + payload > sz_max sz - bt_backlog b then (Scene_refused Sn_capacity, b0, s)
             else let event = \<lparr>ev_name = Some n1, ev_record = record, ev_version = bt_version b + 1, ev_data = data,
                               ev_bytes = metadata + payload, ev_stored = now\<rparr>;
                      (whole, b1, s1) = batch_store gr event exists slot (bt_bytes b - the before + the after) b0 s
             in (if whole then Scene_done () else Scene_thrown, b1, s1))"

definition batch_commit :: "'r scene_batch \<Rightarrow> 'r scene \<Rightarrow> 'r batch_retired \<times> 'r scene" where
  "batch_commit b s =
     (\<lparr>br_root = sn_tree s, br_history = sn_history s, br_events = bt_events b\<rparr>,
      s\<lparr>sn_history := bt_history b, sn_tree := bt_tree b,
        sn_entries := fold (\<lambda>n. AList.delete (on_key n)) (bt_removed b) (sn_entries s),
        sn_bytes := bt_bytes b, sn_backlog := bt_backlog b, sn_version := bt_version b, sn_editing := False\<rparr>)"

definition batch_abort :: "'r scene_batch \<Rightarrow> 'r scene \<Rightarrow> 'r scene" where
  "batch_abort b s = s\<lparr>sn_entries := fold (\<lambda>n. AList.delete (on_key n)) (bt_added b) (sn_entries s), sn_editing := False\<rparr>"

end
