(* ===== verification/Comet_Table.thy ===== *)
theory Comet_Table
  imports Pages_Cells "HOL-Library.AList"
begin

text \<open>
  The client's paged dictionary (\<^verbatim>\<open>astra/comet/cpp/src/table.hpp\<close>): 256 hash pages shared between versions, edited through a draft that
  copies the pages it touches, with a bit per edited page.  A \<^verbatim>\<open>std::unordered_map\<close> is the list of its entries with its bucket count.
  \<^verbatim>\<open>size_t\<close> values are natural numbers: under the invariant no subtraction goes below zero, and the code's own tests of the range are part
  of the model.  Allocation failures are not represented.
\<close>

subsection \<open>Settings\<close>

text \<open>\<^verbatim>\<open>std::hash\<close>, the space a record reports, sizes of C++ types, and the bucket counts of the hash tables of the standard library: of a
  fresh table, of a copy and of a table that has grown by one element, given the number of elements and of buckets before, and of a
  set that has grown from nothing to a number of elements.\<close>

record 'r setting =
  se_hash :: "string \<Rightarrow> u64"
  se_bytes :: "'r \<Rightarrow> nat"
  se_extra :: nat
  se_page :: nat
  se_pointer :: nat
  se_table :: nat
  se_draft :: nat
  se_value :: nat
  se_fresh :: nat
  se_copy :: "nat \<Rightarrow> nat \<Rightarrow> nat"
  se_grow :: "nat \<Rightarrow> nat \<Rightarrow> nat"
  se_string :: nat
  se_vector :: nat
  se_seen :: "nat \<Rightarrow> nat"

definition size_max :: nat where
  "size_max = 2 ^ 64 - 1"

subsection \<open>State\<close>

record 'r tpage =
  tp_rows :: "(string \<times> 'r) list"
  tp_buckets :: nat

record 'r table =
  tb_pages :: "'r tpage option list"
  tb_size :: nat
  tb_bytes :: nat
  tb_overhead :: nat

record 'r tdraft =
  dr_pages :: "'r tpage option list"
  dr_dirty :: "'r tpage option list"
  dr_changed :: "u64 list"
  dr_size :: nat
  dr_bytes :: nat
  dr_overhead :: nat

definition table_new :: "'r table" where
  "table_new = \<lparr>tb_pages = replicate 256 None, tb_size = 0, tb_bytes = 0, tb_overhead = 0\<rparr>"

definition table_measure :: "'r setting \<Rightarrow> 'r tpage \<Rightarrow> nat" where
  "table_measure st p = se_page st + 32 + tp_buckets p * se_pointer st"

definition table_footprint :: "'r setting \<Rightarrow> 'r table \<Rightarrow> nat" where
  "table_footprint st t = tb_bytes t + se_table st + tb_size t * (se_value st + se_extra st + 32) + tb_overhead t"

definition table_slot :: "'r setting \<Rightarrow> string \<Rightarrow> nat" where
  "table_slot st key = unat (se_hash st key AND 255)"

definition table_find :: "'r setting \<Rightarrow> string \<Rightarrow> 'r table \<Rightarrow> 'r option" where
  "table_find st key t = (case tb_pages t ! table_slot st key of None \<Rightarrow> None | Some p \<Rightarrow> map_of (tp_rows p) key)"

text \<open>The records \<^verbatim>\<open>each\<close> hands to its reader, in the order of the pages.\<close>

definition table_each :: "'r table \<Rightarrow> (string \<times> 'r) list" where
  "table_each t = concat (map (\<lambda>q. case q of None \<Rightarrow> [] | Some p \<Rightarrow> tp_rows p) (tb_pages t))"

subsection \<open>Drafts\<close>

definition draft_new :: "'r table \<Rightarrow> 'r tdraft" where
  "draft_new t = \<lparr>dr_pages = tb_pages t, dr_dirty = replicate 256 None, dr_changed = replicate 4 0,
     dr_size = tb_size t, dr_bytes = tb_bytes t, dr_overhead = tb_overhead t\<rparr>"

definition draft_footprint :: "'r setting \<Rightarrow> 'r tdraft \<Rightarrow> nat" where
  "draft_footprint st d = dr_bytes d + se_draft st + dr_size d * (se_value st + se_extra st + 32) + dr_overhead d"

definition draft_edit :: "'r setting \<Rightarrow> nat \<Rightarrow> 'r tdraft \<Rightarrow> 'r tdraft" where
  "draft_edit st slot d =
     (if dr_dirty d ! slot = None then
        let page = (case dr_pages d ! slot of
                      Some p \<Rightarrow> p\<lparr>tp_buckets := se_copy st (length (tp_rows p)) (tp_buckets p)\<rparr>
                    | None \<Rightarrow> \<lparr>tp_rows = [], tp_buckets = se_fresh st\<rparr>);
            old = (case dr_pages d ! slot of Some p \<Rightarrow> table_measure st p | None \<Rightarrow> 0)
        in d\<lparr>dr_overhead := dr_overhead d - old + table_measure st page,
             dr_dirty := (dr_dirty d)[slot := Some page],
             dr_changed := (dr_changed d)[slot div 64 := dr_changed d ! (slot div 64) OR push_bit (slot mod 64) 1]\<rparr>
      else d)"

text \<open>The flag of \<^verbatim>\<open>set\<close> is false when it throws \<^verbatim>\<open>std::length_error\<close>; the draft is then the one it leaves behind.\<close>

definition tdraft_set :: "'r setting \<Rightarrow> string \<Rightarrow> 'r \<Rightarrow> 'r tdraft \<Rightarrow> bool \<times> 'r tdraft" where
  "tdraft_set st key record d =
     (let payload = se_bytes st record
      in if payload > size_max - length key then (False, d)
         else let cost = length key + payload;
                  slot = table_slot st key;
                  d1 = draft_edit st slot d;
                  page = the (dr_dirty d1 ! slot);
                  old = map_of (tp_rows page) key;
                  previous = (case old of None \<Rightarrow> 0 | Some r \<Rightarrow> length key + se_bytes st r)
              in if cost > size_max - (dr_bytes d1 - previous) then (False, d1)
                 else let d2 = (if old \<noteq> None
                                then d1\<lparr>dr_dirty := (dr_dirty d1)[slot := Some (page\<lparr>tp_rows := AList.update key record (tp_rows page)\<rparr>)]\<rparr>
                                else let page' = page\<lparr>tp_rows := tp_rows page @ [(key, record)],
                                                      tp_buckets := se_grow st (length (tp_rows page)) (tp_buckets page)\<rparr>
                                     in d1\<lparr>dr_dirty := (dr_dirty d1)[slot := Some page'],
                                           dr_overhead := dr_overhead d1 - table_measure st page + table_measure st page',
                                           dr_size := dr_size d1 + 1\<rparr>)
                      in (True, d2\<lparr>dr_bytes := dr_bytes d1 - previous + cost\<rparr>))"

definition draft_erase :: "'r setting \<Rightarrow> string \<Rightarrow> 'r tdraft \<Rightarrow> 'r tdraft" where
  "draft_erase st key d =
     (let slot = table_slot st key
      in if dr_dirty d ! slot = None \<and> (case dr_pages d ! slot of None \<Rightarrow> True | Some p \<Rightarrow> map_of (tp_rows p) key = None) then d
         else let d1 = draft_edit st slot d;
                  page = the (dr_dirty d1 ! slot)
              in case map_of (tp_rows page) key of
                   None \<Rightarrow> d1
                 | Some r \<Rightarrow> d1\<lparr>dr_bytes := dr_bytes d1 - (length key + se_bytes st r), dr_size := dr_size d1 - 1,
                                dr_dirty := (dr_dirty d1)[slot := Some (page\<lparr>tp_rows := AList.delete key (tp_rows page)\<rparr>)]\<rparr>)"

text \<open>Publication walks the set bits of the four change words.\<close>

function finish_group :: "'r setting \<Rightarrow> 'r tpage option list \<Rightarrow> nat \<Rightarrow> u64 \<Rightarrow> 'r tpage option list \<times> nat \<Rightarrow> 'r tpage option list \<times> nat" where
  "finish_group st dirty quarter bits (pages, overhead) =
     (if bits = 0 then (pages, overhead)
      else let slot = quarter * 64 + countr_zero bits; page = the (dirty ! slot)
           in finish_group st dirty quarter (bits AND (bits - 1))
                (if tp_rows page = [] then (pages[slot := None], overhead - table_measure st page)
                 else (pages[slot := Some page], overhead)))"
  by pat_completeness auto

termination
  by (relation "measure (\<lambda>(st, dirty, quarter, bits, acc). unat bits)") (auto intro: clear_lowest_less)

declare finish_group.simps [simp del]

definition draft_finish :: "'r setting \<Rightarrow> 'r tdraft \<Rightarrow> 'r table" where
  "draft_finish st d =
     (let (pages, overhead) = fold (\<lambda>quarter. finish_group st (dr_dirty d) quarter (dr_changed d ! quarter)) [0..<4] (dr_pages d, dr_overhead d)
      in \<lparr>tb_pages = pages, tb_size = dr_size d, tb_bytes = dr_bytes d, tb_overhead = overhead\<rparr>)"

end
