(* ===== verification/Comet_Install.thy ===== *)
theory Comet_Install
  imports Comet_Table Types
begin

text \<open>
  The installers of watch replies in the client: \<^verbatim>\<open>astra/comet/cpp/src/projection.cpp\<close> (almanac), \<^verbatim>\<open>subscription.cpp\<close> (catalog) and
  \<^verbatim>\<open>selection.cpp\<close> (ephemeris).  The three classes have the same text except for how a change is read, which versions count as older, and the
  repair state of the ephemeris; the common text is modelled once, with these as arguments.  One network task calls an installer; what the
  shared budget grants (\<open>grant\<close>) is an argument of each call.
\<close>

subsection \<open>Messages and views\<close>

text \<open>The fields of the generated watch replies that the installers read, with the length their encoding reports.\<close>

datatype wire_mode = Mode_unspecified | Mode_reset | Mode_apply | Mode_other int

record 'c wpage =
  wp_mode :: wire_mode
  wp_complete :: bool
  wp_version :: "u64 option"
  wp_instance :: string
  wp_changes :: "'c list"
  wp_size :: nat

datatype comet_code = Co_input | Co_session | Co_closed | Co_version | Co_conflict | Co_ended | Co_obsolete | Co_history | Co_limit | Co_busy
  | Co_instance | Co_clock | Co_timeout | Co_transport | Co_protocol | Co_internal

datatype comet_effect = Effect_unknown | Effect_unapplied

record comet_error =
  ce_code :: comet_code
  ce_effect :: comet_effect
  ce_instance :: string
  ce_version :: "u64 option"
  ce_retry :: int

record 'r published =
  pb_data :: "'r table"
  pb_instance :: string
  pb_version :: u64

datatype view_state = View_waiting | View_ready | View_stale | View_failed | View_closed

record 'r cview =
  cv_contents :: "'r published option"
  cv_state :: view_state
  cv_scope :: scope
  cv_target :: string
  cv_error :: "comet_error option"

definition view_instance :: "'r cview \<Rightarrow> string" where
  "view_instance v = (case cv_contents v of None \<Rightarrow> [] | Some c \<Rightarrow> pb_instance c)"

definition view_version :: "'r cview \<Rightarrow> u64 option" where
  "view_version v = map_option pb_version (cv_contents v)"

definition cview_size :: "'r cview \<Rightarrow> nat" where
  "cview_size v = (case cv_contents v of None \<Rightarrow> 0 | Some c \<Rightarrow> tb_size (pb_data c))"

definition view_find :: "'r setting \<Rightarrow> string \<Rightarrow> 'r cview \<Rightarrow> 'r option" where
  "view_find st key v = (case cv_contents v of None \<Rightarrow> None | Some c \<Rightarrow> table_find st key (pb_data c))"

definition view_visit :: "'r cview \<Rightarrow> (string \<times> 'r) list" where
  "view_visit v = (case cv_contents v of None \<Rightarrow> [] | Some c \<Rightarrow> table_each (pb_data c))"

subsection \<open>The state of an installer\<close>

text \<open>\<open>in_held\<close> is the amount the shared budget last granted; \<open>in_budgeted\<close> says that there is one.\<close>

record 'r installer =
  in_scope :: scope
  in_target :: string
  in_bytes :: nat
  in_records :: nat
  in_budgeted :: bool
  in_held :: nat
  in_current :: "'r published option"
  in_draft :: "'r tdraft option"
  in_seen :: "string list"
  in_seen_bytes :: nat
  in_expected :: string
  in_mode :: wire_mode
  in_first :: bool
  in_valid :: bool

datatype 'v accepted = Failed comet_error | Pending | Installed 'v | Thrown

definition installer_new :: "scope \<Rightarrow> string \<Rightarrow> nat \<Rightarrow> nat \<Rightarrow> bool \<Rightarrow> 'r installer option" where
  "installer_new scope target bytes records budgeted =
     (if bytes = 0 \<or> bytes > 1024 * 1024 * 1024 \<or> records = 0 \<or> records > 65536 then None
      else Some \<lparr>in_scope = scope, in_target = target, in_bytes = bytes, in_records = records, in_budgeted = budgeted, in_held = 0,
        in_current = None, in_draft = None, in_seen = [], in_seen_bytes = 0, in_expected = [], in_mode = Mode_unspecified,
        in_first = True, in_valid = False\<rparr>)"

definition installer_footprint :: "'r setting \<Rightarrow> ('r, 'z) installer_scheme \<Rightarrow> nat" where
  "installer_footprint st s = (case in_current s of None \<Rightarrow> 0 | Some c \<Rightarrow> table_footprint st (pb_data c))"

definition installer_discard :: "'r setting \<Rightarrow> ('r, 'z) installer_scheme \<Rightarrow> ('r, 'z) installer_scheme" where
  "installer_discard st s = s\<lparr>in_draft := None, in_seen := [], in_seen_bytes := 0, in_mode := Mode_unspecified,
     in_held := (if in_budgeted s then installer_footprint st s else in_held s)\<rparr>"

definition installer_begin :: "'r setting \<Rightarrow> string \<Rightarrow> ('r, 'z) installer_scheme \<Rightarrow> ('r, 'z) installer_scheme" where
  "installer_begin st expected s = (installer_discard st s)\<lparr>in_expected := expected, in_first := True, in_valid := True\<rparr>"

definition installer_fail :: "'r setting \<Rightarrow> comet_code \<Rightarrow> ('r, 'z) installer_scheme \<Rightarrow> 'v accepted \<times> ('r, 'z) installer_scheme" where
  "installer_fail st code s =
     (Failed \<lparr>ce_code = code, ce_effect = Effect_unapplied, ce_instance = [], ce_version = None, ce_retry = 0\<rparr>,
      (installer_discard st s)\<lparr>in_valid := False\<rparr>)"

text \<open>The destructor returns what the budget holds.\<close>

definition installer_close :: "('r, 'z) installer_scheme \<Rightarrow> ('r, 'z) installer_scheme" where
  "installer_close s = s\<lparr>in_held := (if in_budgeted s then 0 else in_held s)\<rparr>"

definition installer_view :: "view_state \<Rightarrow> comet_error option \<Rightarrow> ('r, 'z) installer_scheme \<Rightarrow> 'r cview" where
  "installer_view state error s =
     \<lparr>cv_contents = in_current s, cv_state = state, cv_scope = in_scope s, cv_target = in_target s, cv_error = error\<rparr>"

subsection \<open>Accepting a page\<close>

text \<open>The three installers differ in how they read one change and in which versions they call older.\<close>

datatype 'd step = Step 'd | Step_fail comet_code | Step_thrown 'd

record ('c, 'r) wdomain =
  do_key :: "'c \<Rightarrow> string"
  do_valid :: "string \<Rightarrow> bool"
  do_step :: "'c \<Rightarrow> wire_mode \<Rightarrow> 'r published option \<Rightarrow> 'r tdraft \<Rightarrow> 'r tdraft step"
  do_older :: "string \<Rightarrow> u64 \<Rightarrow> 'r published \<Rightarrow> bool"

datatype flow = Go | Stop comet_code | Throw

fun install_changes :: "('c, 'r) wdomain \<Rightarrow> bool \<Rightarrow> 'c list \<Rightarrow> ('r, 'z) installer_scheme \<Rightarrow> flow \<times> ('r, 'z) installer_scheme" where
  "install_changes dm track [] s = (Go, s)"
| "install_changes dm track (c # cs) s =
     (let key = do_key dm c
      in if \<not> do_valid dm key \<or> (in_target s \<noteq> [] \<and> in_target s \<noteq> key) then (Stop Co_protocol, s)
         else if track \<and> length (in_seen s) = in_records s * 2
         then (Stop (if key \<in> set (in_seen s) then Co_protocol else Co_limit), s)
         else if track \<and> key \<in> set (in_seen s) then (Stop Co_protocol, s)
         else let s1 = (if track then s\<lparr>in_seen := key # in_seen s, in_seen_bytes := in_seen_bytes s + length key\<rparr> else s)
              in case do_step dm c (in_mode s1) (in_current s1) (the (in_draft s1)) of
                   Step_fail e \<Rightarrow> (Stop e, s1)
                 | Step_thrown d \<Rightarrow> (Throw, s1\<lparr>in_draft := Some d\<rparr>)
                 | Step d \<Rightarrow>
                     let s2 = s1\<lparr>in_draft := Some d\<rparr>
                     in if dr_size d > in_records s * 2 \<or> dr_bytes d > in_bytes s * 2 then (Stop Co_limit, s2)
                        else install_changes dm track cs s2)"

definition install_tail :: "'r setting \<Rightarrow> (nat \<Rightarrow> bool) \<Rightarrow> 'c wpage \<Rightarrow> ('r, 'z) installer_scheme \<Rightarrow> 'r cview accepted \<times> ('r, 'z) installer_scheme" where
  "install_tail st grant page s =
     (let d = the (in_draft s);
          metadata = in_seen_bytes s + length (in_seen s) * (se_string st + 32) + se_seen st (length (in_seen s)) * se_pointer st;
          prepared = draft_footprint st d + metadata
      in if prepared > in_bytes s * 2 \<or> (in_budgeted s \<and> \<not> grant (prepared + installer_footprint st s)) then installer_fail st Co_limit s
         else let s1 = (if in_budgeted s then s\<lparr>in_held := prepared + installer_footprint st s\<rparr> else s)
              in if \<not> wp_complete page then (Pending, s1)
                 else if dr_size d > in_records s \<or> dr_bytes d > in_bytes s then installer_fail st Co_limit s1
                 else if the (wp_version page) = 0 \<and> dr_size d \<noteq> 0 then installer_fail st Co_protocol s1
                 else let contents = \<lparr>pb_data = draft_finish st d, pb_instance = wp_instance page, pb_version = the (wp_version page)\<rparr>
                      in if table_footprint st (pb_data contents) > in_bytes s then installer_fail st Co_limit s1
                         else (Installed ((installer_view View_ready None s1)\<lparr>cv_contents := Some contents\<rparr>),
                               installer_discard st (s1\<lparr>in_current := Some contents, in_expected := wp_instance page, in_first := False\<rparr>)))"

definition installer_accept :: "'r setting \<Rightarrow> (nat \<Rightarrow> bool) \<Rightarrow> ('c, 'r) wdomain \<Rightarrow> bool \<Rightarrow> 'c wpage \<Rightarrow> ('r, 'z) installer_scheme
    \<Rightarrow> 'r cview accepted \<times> ('r, 'z) installer_scheme" where
  "installer_accept st grant dm barred page s =
     (if \<not> in_valid s \<or> (wp_mode page \<noteq> Mode_reset \<and> wp_mode page \<noteq> Mode_apply) \<or> wp_complete page \<noteq> (wp_version page \<noteq> None)
         \<or> wp_complete page \<noteq> (wp_instance page \<noteq> []) \<or> (\<not> wp_complete page \<and> wp_changes page = []) \<or> wp_size page > 8 * 1024 * 1024
      then installer_fail st Co_protocol s
      else if wp_complete page \<and> (\<not> scope_text (wp_instance page) 128 \<or> (in_expected s \<noteq> [] \<and> in_expected s \<noteq> wp_instance page)
         \<or> (case in_current s of None \<Rightarrow> False | Some c \<Rightarrow> do_older dm (wp_instance page) (the (wp_version page)) c))
      then installer_fail st Co_protocol s
      else if in_draft s = None \<and> ((wp_mode page = Mode_reset \<and> \<not> in_first s) \<or> (wp_mode page = Mode_apply \<and> (in_current s = None \<or> barred)))
      then installer_fail st Co_protocol s
      else if in_draft s \<noteq> None \<and> in_mode s \<noteq> wp_mode page then installer_fail st Co_protocol s
      else let s1 = (if in_draft s = None
                     then s\<lparr>in_mode := wp_mode page,
                            in_draft := Some (draft_new (if wp_mode page = Mode_reset then table_new else pb_data (the (in_current s))))\<rparr>
                     else s)
           in if wp_complete page \<and> in_mode s1 = Mode_apply \<and> (pb_instance (the (in_current s1)) \<noteq> wp_instance page
                 \<or> (the (wp_version page) = pb_version (the (in_current s1)) \<and> (\<not> in_first s1 \<or> in_seen s1 \<noteq> [] \<or> wp_changes page \<noteq> [])))
              then installer_fail st Co_protocol s1
              else case install_changes dm (\<not> wp_complete page \<or> length (wp_changes page) \<noteq> 1 \<or> in_seen s1 \<noteq> []) (wp_changes page) s1 of
                     (Stop e, s2) \<Rightarrow> installer_fail st e s2
                   | (Throw, s2) \<Rightarrow> (Thrown, s2)
                   | (Go, s2) \<Rightarrow> install_tail st grant page s2)"

definition step_set :: "'r setting \<Rightarrow> string \<Rightarrow> 'r \<Rightarrow> 'r tdraft \<Rightarrow> 'r tdraft step" where
  "step_set st key record d = (case tdraft_set st key record d of (True, d') \<Rightarrow> Step d' | (False, d') \<Rightarrow> Step_thrown d')"

subsection \<open>Almanac\<close>

datatype almanac_action = Av_value bytes | Av_erase | Av_unset

record almanac_change =
  ac_key :: string
  ac_action :: almanac_action

definition datum_setting :: "bytes setting \<Rightarrow> bytes setting" where
  "datum_setting st = st\<lparr>se_bytes := length, se_extra := se_vector st + 32\<rparr>"

definition projection_step :: "bytes setting \<Rightarrow> almanac_change \<Rightarrow> wire_mode \<Rightarrow> bytes published option \<Rightarrow> bytes tdraft \<Rightarrow> bytes tdraft step" where
  "projection_step st c mode current d =
     (case ac_action c of
        Av_value v \<Rightarrow> if length v > 1024 * 1024 then Step_fail Co_limit else step_set st (ac_key c) v d
      | Av_erase \<Rightarrow> if mode \<noteq> Mode_apply then Step_fail Co_protocol else Step (draft_erase st (ac_key c) d)
      | Av_unset \<Rightarrow> Step_fail Co_protocol)"

definition projection_domain :: "bytes setting \<Rightarrow> (almanac_change, bytes) wdomain" where
  "projection_domain st = \<lparr>do_key = ac_key, do_valid = \<lambda>key. scope_text key 1024, do_step = projection_step st,
     do_older = \<lambda>instance version c. version < pb_version c\<rparr>"

definition projection_accept :: "bytes setting \<Rightarrow> (nat \<Rightarrow> bool) \<Rightarrow> almanac_change wpage \<Rightarrow> bytes installer \<Rightarrow> bytes cview accepted \<times> bytes installer" where
  "projection_accept st grant page s = installer_accept (datum_setting st) grant (projection_domain (datum_setting st)) False page s"

subsection \<open>Catalog\<close>

record publication =
  pu_version :: u64
  pu_value :: bytes

datatype catalog_action = Cv_value bytes | Cv_erase | Cv_unset

record catalog_wchange =
  cw_key :: string
  cw_action :: catalog_action
  cw_version :: u64

definition publication_setting :: "publication setting \<Rightarrow> publication setting" where
  "publication_setting st = st\<lparr>se_bytes := \<lambda>r. length (pu_value r), se_extra := se_vector st + 32\<rparr>"

definition subscription_step :: "publication setting \<Rightarrow> catalog_wchange \<Rightarrow> wire_mode \<Rightarrow> publication published option \<Rightarrow> publication tdraft
    \<Rightarrow> publication tdraft step" where
  "subscription_step st c mode current d =
     (case cw_action c of
        Cv_value v \<Rightarrow>
          if cw_version c = 0 then Step_fail Co_protocol
          else if length v > 1024 * 1024 then Step_fail Co_limit
          else step_set st (cw_key c) \<lparr>pu_version = cw_version c, pu_value = v\<rparr> d
      | Cv_erase \<Rightarrow> if mode \<noteq> Mode_apply \<or> cw_version c \<noteq> 0 then Step_fail Co_protocol else Step (draft_erase st (cw_key c) d)
      | Cv_unset \<Rightarrow> Step_fail Co_protocol)"

definition subscription_domain :: "publication setting \<Rightarrow> (catalog_wchange, publication) wdomain" where
  "subscription_domain st = \<lparr>do_key = cw_key, do_valid = \<lambda>key. scope_text key 1024, do_step = subscription_step st,
     do_older = \<lambda>instance version c. pb_instance c = instance \<and> version < pb_version c\<rparr>"

definition subscription_accept :: "publication setting \<Rightarrow> (nat \<Rightarrow> bool) \<Rightarrow> catalog_wchange wpage \<Rightarrow> publication installer
    \<Rightarrow> publication cview accepted \<times> publication installer" where
  "subscription_accept st grant page s =
     installer_accept (publication_setting st) grant (subscription_domain (publication_setting st)) False page s"

subsection \<open>Ephemeris\<close>

record registration =
  rg_attr :: bytes
  rg_data :: bytes

datatype ephemeris_action = Ev_record bytes bytes | Ev_data bytes | Ev_erase | Ev_unset

record ephemeris_wchange =
  ew_uuid :: string
  ew_action :: ephemeris_action

record selection = "registration installer" +
  sl_repaired :: bool
  sl_fresh :: bool

definition selection_valid :: "string \<Rightarrow> bool" where
  "selection_valid uuid \<longleftrightarrow> length uuid = 16 \<and> (of_char (uuid ! 6) :: u8) AND 0xf0 = 0x40 \<and> (of_char (uuid ! 8) :: u8) AND 0xc0 = 0x80"

definition registration_setting :: "registration setting \<Rightarrow> registration setting" where
  "registration_setting st = st\<lparr>se_bytes := \<lambda>r. length (rg_attr r) + length (rg_data r), se_extra := 2 * (se_vector st + 32)\<rparr>"

definition selection_step :: "registration setting \<Rightarrow> ephemeris_wchange \<Rightarrow> wire_mode \<Rightarrow> registration published option \<Rightarrow> registration tdraft
    \<Rightarrow> registration tdraft step" where
  "selection_step st c mode current d =
     (let old = (case current of None \<Rightarrow> None | Some p \<Rightarrow> table_find st (ew_uuid c) (pb_data p))
      in case ew_action c of
           Ev_record attr data \<Rightarrow>
             if length attr > 1024 * 1024 \<or> length data > 1024 * 1024 then Step_fail Co_limit
             else let same = (case old of None \<Rightarrow> False | Some r \<Rightarrow> rg_attr r = attr)
                  in if mode = Mode_apply \<and> old \<noteq> None \<and> \<not> same then Step_fail Co_protocol
                     else step_set st (ew_uuid c) \<lparr>rg_attr = (if same then rg_attr (the old) else attr), rg_data = data\<rparr> d
         | Ev_data data \<Rightarrow>
             if mode \<noteq> Mode_apply then Step_fail Co_protocol
             else if length data > 1024 * 1024 then Step_fail Co_limit
             else (case old of None \<Rightarrow> Step_fail Co_history
                   | Some r \<Rightarrow> step_set st (ew_uuid c) \<lparr>rg_attr = rg_attr r, rg_data = data\<rparr> d)
         | Ev_erase \<Rightarrow> if mode \<noteq> Mode_apply then Step_fail Co_protocol else Step (draft_erase st (ew_uuid c) d)
         | Ev_unset \<Rightarrow> Step_fail Co_protocol)"

definition selection_domain :: "registration setting \<Rightarrow> (ephemeris_wchange, registration) wdomain" where
  "selection_domain st = \<lparr>do_key = ew_uuid, do_valid = selection_valid, do_step = selection_step st,
     do_older = \<lambda>instance version c. pb_instance c = instance \<and> version < pb_version c\<rparr>"

definition selection_accept :: "registration setting \<Rightarrow> (nat \<Rightarrow> bool) \<Rightarrow> ephemeris_wchange wpage \<Rightarrow> selection \<Rightarrow> registration cview accepted \<times> selection" where
  "selection_accept st grant page s =
     (case installer_accept (registration_setting st) grant (selection_domain (registration_setting st)) (sl_fresh s) page s of
        (Installed v, s') \<Rightarrow> (Installed v, s'\<lparr>sl_fresh := False\<rparr>)
      | (r, s') \<Rightarrow> (r, s'))"

definition selection_repair :: "comet_code \<Rightarrow> selection \<Rightarrow> bool \<times> selection" where
  "selection_repair code s =
     (if code \<noteq> Co_history \<or> sl_repaired s then (False, s) else (True, s\<lparr>sl_repaired := True, sl_fresh := True\<rparr>))"

definition selection_resume :: "selection \<Rightarrow> bool" where
  "selection_resume s \<longleftrightarrow> \<not> sl_fresh s"

end
