(* ===== verification/Edition.thy ===== *)
theory Edition
  imports Scene Comet_Install "HOL-Library.Char_ord" "HOL-Library.List_Lexorder" "HOL-Library.Product_Lexorder"
begin

text \<open>
  The editions a Star sends to a watcher, \<^verbatim>\<open>astra/star/src/pagination.hpp\<close> with the encodings of \<^verbatim>\<open>catalog_edition.cpp\<close> and
  \<^verbatim>\<open>ephemeris_edition.cpp\<close>: a frozen view, point or list of changes, cut into pages within the limits on rows and bytes.  The messages are
  those the client's installers take (\<^verbatim>\<open>proto::comet::v1\<close>, here the records of \<open>Comet_Install\<close>).
\<close>

subsection \<open>Encodings\<close>

text \<open>The static functions of an encoding.  A payload of \<open>None\<close> is the exception for an invalid row; \<open>en_change\<close> is the row that
  \<^verbatim>\<open>append\<close> adds to the reply.\<close>

record ('n, 'r, 'c) encoding =
  en_key :: "'n \<Rightarrow> string"
  en_target :: "string \<Rightarrow> bool"
  en_measure :: "'r \<Rightarrow> nat"
  en_merge :: "('n, 'r) event \<Rightarrow> ('n, 'r) event \<Rightarrow> ('n, 'r) event"
  en_payload :: "string \<Rightarrow> 'r option \<Rightarrow> bool \<Rightarrow> nat option"
  en_change :: "string \<Rightarrow> 'r option \<Rightarrow> bool \<Rightarrow> 'c"

subsection \<open>Frozen editions\<close>

datatype ('n, 'r) frozen = Whole "('n, 'r) scene_view" | Point string "'r option" | Changes "('n, 'r) event list"

record ('n, 'r) edition =
  ed_data :: "('n, 'r) frozen"
  ed_mode :: wire_mode
  ed_version :: u64
  ed_bytes :: nat
  ed_offset :: nat
  ed_complete :: bool

definition edition_whole :: "('n, 'r) scene_view \<Rightarrow> ('n, 'r) edition" where
  "edition_whole view = \<lparr>ed_data = Whole view, ed_mode = Mode_reset, ed_version = sv_version view, ed_bytes = sv_bytes view, ed_offset = 0, ed_complete = False\<rparr>"

definition edition_point :: "('n, 'r, 'c) encoding \<Rightarrow> nat \<Rightarrow> string \<Rightarrow> 'r option \<Rightarrow> u64 \<Rightarrow> ('n, 'r) edition" where
  "edition_point en size_of key record version =
     \<lparr>ed_data = Point key record, ed_mode = Mode_reset, ed_version = version,
      ed_bytes = size_of + length key + (case record of None \<Rightarrow> 0 | Some r \<Rightarrow> en_measure en r), ed_offset = 0, ed_complete = False\<rparr>"

definition event_key :: "('n, 'r, 'c) encoding \<Rightarrow> ('n, 'r) event \<Rightarrow> string" where
  "event_key en e = en_key en (the (ev_name e))"

text \<open>One group of events with the same name is merged from left to right.\<close>

fun merge_group :: "('n, 'r, 'c) encoding \<Rightarrow> ('n, 'r) event \<Rightarrow> ('n, 'r) event list \<Rightarrow> ('n, 'r) event \<times> ('n, 'r) event list" where
  "merge_group en latest [] = (latest, [])"
| "merge_group en latest (e # es) =
     (if event_key en e = event_key en latest then merge_group en (en_merge en latest e) es else (latest, e # es))"

lemma merge_group_le: "merge_group en latest es = (a, rest) \<Longrightarrow> length rest \<le> length es"
  by (induction es arbitrary: latest) (auto split: if_splits intro: le_SucI)

function compress :: "('n, 'r, 'c) encoding \<Rightarrow> ('n, 'r) event list \<Rightarrow> ('n, 'r) event list" where
  "compress en [] = []"
| "compress en (e # es) = (let (latest, rest) = merge_group en e es in latest # compress en rest)"
  by pat_completeness auto

termination
  by (relation "measure (\<lambda>(en, es). length es)") (auto simp: less_Suc_eq_le dest!: merge_group_le [OF sym])

definition event_invalid :: "u64 \<Rightarrow> ('n, 'r) event \<Rightarrow> bool" where
  "event_invalid version e \<longleftrightarrow> ev_name e = None \<or> ev_version e = 0 \<or> ev_version e > version \<or> (ev_data e \<and> ev_record e = None)"

definition events_order :: "('n, 'r, 'c) encoding \<Rightarrow> ('n, 'r) event \<Rightarrow> string \<times> u64" where
  "events_order en e = (event_key en e, ev_version e)"

text \<open>\<open>capacity\<close> is the capacity of the vector the caller moves in; a refused batch is \<open>None\<close>.  The order of the sort leaves open how equal keys
  with equal versions are placed; a scene never gives two events the same version.\<close>

definition edition_changes :: "('n, 'r, 'c) encoding \<Rightarrow> nat \<Rightarrow> nat \<Rightarrow> u64 \<Rightarrow> ('n, 'r) event list \<Rightarrow> string \<Rightarrow> ('n, 'r) edition option" where
  "edition_changes en size_of capacity version changes target =
     (if list_ex (event_invalid version) changes then None
      else let matching = (if target = [] then changes else filter (\<lambda>e. event_key en e = target) changes);
               ordered = (if sorted (map (events_order en) matching) then matching else sort_key (events_order en) matching);
               kept = compress en ordered
           in Some \<lparr>ed_data = Changes kept, ed_mode = Mode_apply, ed_version = version,
                ed_bytes = sum_list (map ev_bytes kept) + (capacity - length kept) * size_of, ed_offset = 0, ed_complete = False\<rparr>)"

subsection \<open>Pages\<close>

text \<open>\<^verbatim>\<open>append\<close> on the rows of the page so far and the bytes they count for; \<open>None\<close> is an exception.\<close>

definition append_row :: "('n, 'r, 'c) encoding \<Rightarrow> 'c list \<times> nat \<Rightarrow> string \<Rightarrow> 'r option \<Rightarrow> bool \<Rightarrow> (bool \<times> ('c list \<times> nat)) option" where
  "append_row en acc key record data =
     (case en_payload en key record data of
        None \<Rightarrow> None
      | Some payload \<Rightarrow>
          let hard = 8 * 1024 * 1024; rows = fst acc; bytes = snd acc; cost = length key + payload + 48
          in if length key > hard \<or> payload > hard then None
             else if bytes \<ge> hard \<or> cost > hard - bytes then None
             else if rows \<noteq> [] \<and> (length rows \<ge> 256 \<or> cost > 256 * 1024 - min bytes (256 * 1024)) then Some (False, acc)
             else Some (True, rows @ [en_change en key record data], bytes + cost))"

fun append_changes :: "('n, 'r, 'c) encoding \<Rightarrow> ('n, 'r) event list \<Rightarrow> 'c list \<times> nat \<Rightarrow> (nat \<times> ('c list \<times> nat)) option" where
  "append_changes en [] acc = Some (0, acc)"
| "append_changes en (e # es) acc =
     (case append_row en acc (event_key en e) (ev_record e) (ev_data e) of
        None \<Rightarrow> None
      | Some (False, acc') \<Rightarrow> Some (0, acc')
      | Some (True, acc') \<Rightarrow> map_option (\<lambda>(n, a). (Suc n, a)) (append_changes en es acc'))"

datatype edition_error = Edition_completed | Invalid_instance | Row_raised

text \<open>\<open>encoded\<close> is the length of a reply's encoding, which the generated message reports.\<close>

definition edition_next :: "('n, 'r, 'c) encoding \<Rightarrow> ('c wpage \<Rightarrow> nat) \<Rightarrow> string \<Rightarrow> ('n, 'r) edition \<Rightarrow> edition_error + 'c wpage \<times> ('n, 'r) edition" where
  "edition_next en encoded inst e =
     (if ed_complete e then Inl Edition_completed
      else if inst = [] \<or> length inst > 128 then Inl Invalid_instance
      else let start = ([], length inst + 64);
               read = (case ed_data e of
                  Whole view \<Rightarrow>
                    (case view_page (sv_root view) (ed_offset e) 256 (\<lambda>acc name r. append_row en acc (en_key en name) (Some r) False) start of
                       Inl _ \<Rightarrow> None
                     | Inr (consumed, rows, bytes) \<Rightarrow> Some (consumed, rows, ed_offset e + consumed = sv_size view))
                | Point key record \<Rightarrow>
                    (case record of
                       None \<Rightarrow> Some (0, [], True)
                     | Some r \<Rightarrow> map_option (\<lambda>(_, rows, bytes). (1, rows, True)) (append_row en start key (Some r) False))
                | Changes changes \<Rightarrow>
                    map_option (\<lambda>(consumed, rows, bytes). (consumed, rows, ed_offset e + consumed = length changes))
                      (append_changes en (drop (ed_offset e) changes) start))
           in case read of
                None \<Rightarrow> Inl Row_raised
              | Some (consumed, rows, finished) \<Rightarrow>
                  let page = \<lparr>wp_mode = ed_mode e, wp_complete = finished, wp_version = (if finished then Some (ed_version e) else None),
                              wp_instance = (if finished then inst else []), wp_changes = rows, wp_size = 0\<rparr>
                  in Inr (page\<lparr>wp_size := encoded page\<rparr>, e\<lparr>ed_offset := ed_offset e + consumed, ed_complete := finished\<rparr>))"

subsection \<open>Catalog and ephemeris\<close>

record catalog_content =
  kc_version :: u64
  kc_value :: "bytes option"

definition catalog_payload :: "string \<Rightarrow> catalog_content option \<Rightarrow> bool \<Rightarrow> nat option" where
  "catalog_payload key record data =
     (if \<not> scope_text key 1024 \<or> (case record of None \<Rightarrow> False | Some r \<Rightarrow> kc_value r = None \<or> kc_version r = 0) then None
      else Some (case record of None \<Rightarrow> 0 | Some r \<Rightarrow> length (the (kc_value r))))"

definition catalog_append :: "string \<Rightarrow> catalog_content option \<Rightarrow> bool \<Rightarrow> catalog_wchange" where
  "catalog_append key record data =
     (case record of
        None \<Rightarrow> \<lparr>cw_key = key, cw_action = Cv_erase, cw_version = 0\<rparr>
      | Some r \<Rightarrow> \<lparr>cw_key = key, cw_action = Cv_value (the (kc_value r)), cw_version = kc_version r\<rparr>)"

definition catalog_encoding :: "(origin_name, catalog_content, catalog_wchange) encoding" where
  "catalog_encoding = \<lparr>en_key = on_key, en_target = \<lambda>key. scope_text key 1024, en_measure = \<lambda>r. length (the (kc_value r)),
     en_merge = \<lambda>previous current. current, en_payload = catalog_payload, en_change = catalog_append\<rparr>"

record ephemeris_content =
  ke_attr :: "bytes option"
  ke_data :: "bytes option"

definition ephemeris_merge :: "(origin_name, ephemeris_content) event \<Rightarrow> (origin_name, ephemeris_content) event \<Rightarrow> (origin_name, ephemeris_content) event" where
  "ephemeris_merge previous current =
     (if ev_record current \<noteq> None \<and> (ev_record previous = None \<or> \<not> ev_data previous) then current\<lparr>ev_data := False\<rparr> else current)"

definition ephemeris_payload :: "string \<Rightarrow> ephemeris_content option \<Rightarrow> bool \<Rightarrow> nat option" where
  "ephemeris_payload key record data =
     (if \<not> selection_valid key \<or> (case record of None \<Rightarrow> False | Some r \<Rightarrow> ke_attr r = None \<or> ke_data r = None) then None
      else Some (case record of None \<Rightarrow> 0 | Some r \<Rightarrow> length (the (ke_data r)) + (if data then 0 else length (the (ke_attr r)))))"

definition ephemeris_append :: "string \<Rightarrow> ephemeris_content option \<Rightarrow> bool \<Rightarrow> ephemeris_wchange" where
  "ephemeris_append key record data =
     \<lparr>ew_uuid = key, ew_action = (case record of
        None \<Rightarrow> Ev_erase
      | Some r \<Rightarrow> if data then Ev_data (the (ke_data r)) else Ev_record (the (ke_attr r)) (the (ke_data r)))\<rparr>"

definition ephemeris_encoding :: "(origin_name, ephemeris_content, ephemeris_wchange) encoding" where
  "ephemeris_encoding = \<lparr>en_key = on_key, en_target = selection_valid, en_measure = \<lambda>r. length (the (ke_attr r)) + length (the (ke_data r)),
     en_merge = ephemeris_merge, en_payload = ephemeris_payload, en_change = ephemeris_append\<rparr>"

end
