(* ===== verification/Scene_Index.thy ===== *)
theory Scene_Index
  imports Scene
begin

text \<open>
  The directory of a scene over its page index as one map from keys to records, the accounting of its bytes, the invariant of a scene, and
  the evicted prefix of a history.
\<close>

subsection \<open>The directory of a scene\<close>

definition dir_ok :: "(string \<times> u64) list \<Rightarrow> (origin_name, 'r) pages \<Rightarrow> bool" where
  "dir_ok es t \<longleftrightarrow> pages_ok t \<and> distinct (map fst es)
     \<and> (\<forall>k slot. map_of es k = Some slot \<longleftrightarrow> (\<exists>n r. page_find t slot = Some (n, r) \<and> on_key n = k))"

definition dir_map :: "(string \<times> u64) list \<Rightarrow> (origin_name, 'r) pages \<Rightarrow> string \<rightharpoonup> 'r" where
  "dir_map es t k = (case map_of es k of None \<Rightarrow> None | Some slot \<Rightarrow> map_option snd (page_find t slot))"

lemma dir_found:
  assumes "dir_ok es t" "map_of es k = Some slot"
  obtains n r where "page_find t slot = Some (n, r)" "on_key n = k" "dir_map es t k = Some r" "slot \<noteq> - 1"
proof -
  obtain n r where n: "page_find t slot = Some (n, r)" "on_key n = k" using assms by (auto simp: dir_ok_def)
  moreover have "slot \<noteq> - 1"
  proof
    assume "slot = - 1"
    moreover have "page_find t (- 1) = None" using pages_index.last_vacant assms(1) unfolding dir_ok_def by blast
    ultimately show False using n(1) by simp
  qed
  ultimately show thesis using that assms(2) by (simp add: dir_map_def)
qed

lemma dir_none: "map_of es k = None \<Longrightarrow> dir_map es t k = None"
  by (simp add: dir_map_def)

lemma dir_dom: "dir_ok es t \<Longrightarrow> dom (dir_map es t) = fst ` set es"
proof -
  assume ok: "dir_ok es t"
  have "dir_map es t k \<noteq> None \<longleftrightarrow> map_of es k \<noteq> None" for k
  proof (cases "map_of es k")
    case (Some slot)
    then show ?thesis using dir_found [OF ok Some] by auto
  qed (simp add: dir_map_def)
  then show ?thesis by (auto simp: dom_def map_of_eq_None_iff simp del: not_None_eq)
qed

lemma dir_size: "dir_ok es t \<Longrightarrow> card (dom (dir_map es t)) = length es"
  using dir_dom [of es t] distinct_card [of "map fst es"] by (simp add: dir_ok_def)

lemma dir_finite: "dir_ok es t \<Longrightarrow> finite (dom (dir_map es t))"
  using dir_dom [of es t] by simp

lemma dir_prepare:
  assumes "dir_ok es t" "page_prepare rs ps slot t = (b, t')"
  shows "dir_ok es t'" "dir_map es t' = dir_map es t" "b \<Longrightarrow> page_ready t' slot" "page_find t' = page_find t"
proof -
  have p: "pages_ok t'" "page_find t' = page_find t" "b \<longrightarrow> page_ready t' slot"
    using pages_index.prepare_keeps [OF _ assms(2)] assms(1) by (auto simp: dir_ok_def)
  then show "dir_ok es t'" "b \<Longrightarrow> page_ready t' slot" "page_find t' = page_find t" using assms(1) by (simp_all add: dir_ok_def)
  show "dir_map es t' = dir_map es t" unfolding dir_map_def p(2) ..
qed

lemma dir_add:
  assumes ok: "dir_ok es t" "map_of es (on_key n) = None" and slot: "page_find t slot = None" "page_ready t slot" "slot \<noteq> - 1"
  shows "dir_ok ((on_key n, slot) # es) (page_set slot (Some n) r t)"
    "dir_map ((on_key n, slot) # es) (page_set slot (Some n) r t) = (dir_map es t)(on_key n \<mapsto> r)"
proof -
  let ?t = "page_set slot (Some n) r t"
  have w: "pages_ok ?t" "page_find ?t = (page_find t)(slot \<mapsto> (n, r))"
    using pages_index.store_writes [OF _ slot(2,3), of "Some n" r] ok(1) slot(1) by (simp_all add: dir_ok_def set_row_def)
  have at: "map_of es k = Some s \<longleftrightarrow> (\<exists>n r. page_find t s = Some (n, r) \<and> on_key n = k)" for k s using ok(1) by (simp add: dir_ok_def)
  have ne: "map_of es k \<noteq> Some slot" for k using at slot(1) by simp
  have nk: "on_key n \<notin> fst ` set es" using ok(2) by (simp add: map_of_eq_None_iff)
  have "map_of ((on_key n, slot) # es) k = Some s \<longleftrightarrow> (\<exists>n' r'. page_find ?t s = Some (n', r') \<and> on_key n' = k)" for k s
  proof (cases "s = slot")
    case True
    then show ?thesis using ne by (auto simp: w(2))
  next
    case False
    have "(\<exists>n' r'. page_find t s = Some (n', r') \<and> on_key n' = k) \<Longrightarrow> k \<noteq> on_key n" using at [of k s] ok(2) by auto
    then show ?thesis using False at [of k s] by (auto simp: w(2))
  qed
  then show "dir_ok ((on_key n, slot) # es) ?t" using w(1) nk ok(1) by (simp add: dir_ok_def)
  show "dir_map ((on_key n, slot) # es) ?t = (dir_map es t)(on_key n \<mapsto> r)"
  proof
    fix k
    show "dir_map ((on_key n, slot) # es) ?t k = ((dir_map es t)(on_key n \<mapsto> r)) k"
      using ne [of k] by (auto simp: dir_map_def w(2) split: option.split)
  qed
qed

lemma dir_change:
  assumes ok: "dir_ok es t" and at: "map_of es k = Some slot" "page_find t' = (page_find t)(slot := v)" "pages_ok t'"
    and v: "\<And>n. page_find t slot = Some n \<Longrightarrow> on_key (fst n) = k \<Longrightarrow> (case v of None \<Rightarrow> True | Some x \<Rightarrow> fst x = fst n)"
    and es': "es' = (if v = None then AList.delete k es else es)"
  shows "dir_ok es' t'" "dir_map es' t' = (dir_map es t)(k := map_option snd v)"
proof -
  obtain n r where n: "page_find t slot = Some (n, r)" "on_key n = k" using dir_found [OF ok at(1)] by blast
  have iff: "map_of es k' = Some s \<longleftrightarrow> (\<exists>n r. page_find t s = Some (n, r) \<and> on_key n = k')" for k' s using ok by (simp add: dir_ok_def)
  have ne: "map_of es k' = Some slot \<longleftrightarrow> k' = k" for k' using iff [of k' slot] n by auto
  have m: "map_of es' k' = (if v = None \<and> k' = k then None else map_of es k')" for k' by (simp add: es' delete_conv')
  have "map_of es' k' = Some s \<longleftrightarrow> (\<exists>n' r'. page_find t' s = Some (n', r') \<and> on_key n' = k')" for k' s
  proof (cases "s = slot")
    case True
    then show ?thesis
    proof (cases v)
      case None
      then show ?thesis using True ne [of k'] by (auto simp: m at(2))
    next
      case (Some x)
      then have "fst x = n" using v n by auto
      then show ?thesis using True Some ne [of k'] n(2) by (cases x) (auto simp: m at(2))
    qed
  next
    case False
    then show ?thesis using iff [of k' s] at(1) by (auto simp: m at(2))
  qed
  moreover have "distinct (map fst es')" using ok by (simp add: es' dir_ok_def distinct_delete)
  ultimately show "dir_ok es' t'" using at(3) by (simp add: dir_ok_def)
  show "dir_map es' t' = (dir_map es t)(k := map_option snd v)"
  proof
    fix k'
    show "dir_map es' t' k' = ((dir_map es t)(k := map_option snd v)) k'"
    proof (cases "k' = k")
      case True
      then show ?thesis using at(1) by (auto simp: dir_map_def m at(2))
    next
      case False
      then show ?thesis using ne [of k'] by (auto simp: dir_map_def m at(2) split: option.split)
    qed
  qed
qed

lemma dir_replace:
  assumes "dir_ok es t" "map_of es k = Some slot" "page_ready t slot"
  shows "dir_ok es (page_set slot None r t)" "dir_map es (page_set slot None r t) = (dir_map es t)(k \<mapsto> r)"
proof -
  obtain n r0 where n: "page_find t slot = Some (n, r0)" "on_key n = k" "slot \<noteq> - 1" using dir_found [OF assms(1,2)] by blast
  have w: "pages_ok (page_set slot None r t)" "page_find (page_set slot None r t) = (page_find t)(slot := Some (n, r))"
    using pages_index.store_writes [OF _ assms(3) n(3), of None r] assms(1) n(1) by (simp_all add: dir_ok_def set_row_def)
  show "dir_ok es (page_set slot None r t)" "dir_map es (page_set slot None r t) = (dir_map es t)(k \<mapsto> r)"
    using dir_change [OF assms(1,2) w(2,1), of es] n(1) by simp_all
qed

lemma dir_remove:
  assumes "dir_ok es t" "map_of es k = Some slot"
  shows "dir_ok (AList.delete k es) (page_erase slot t)" "dir_map (AList.delete k es) (page_erase slot t) = (dir_map es t)(k := None)"
proof -
  obtain n r0 where n: "page_find t slot = Some (n, r0)" using dir_found [OF assms] by blast
  have w: "pages_ok (page_erase slot t)" "page_find (page_erase slot t) = (page_find t)(slot := None)"
    using pages_index.drop_clears [of t slot] assms(1) n by (simp_all add: dir_ok_def)
  show "dir_ok (AList.delete k es) (page_erase slot t)" "dir_map (AList.delete k es) (page_erase slot t) = (dir_map es t)(k := None)"
    using dir_change [OF assms w(2,1), of "AList.delete k es"] by simp_all
qed

text \<open>What a view of the tree shows.\<close>

lemma taken_distinct:
  assumes "\<And>i j a b. i < length xs \<Longrightarrow> j < length xs \<Longrightarrow> xs ! i = Some a \<Longrightarrow> xs ! j = Some b \<Longrightarrow> f a = f b \<Longrightarrow> i = j"
  shows "distinct (map f (taken xs))"
  using assms
proof (induction xs)
  case (Cons x xs)
  have ih: "distinct (map f (taken xs))"
  proof (rule Cons.IH)
    fix i j a b assume "i < length xs" "j < length xs" "xs ! i = Some a" "xs ! j = Some b" "f a = f b"
    then show "i = j" using Cons.prems [of "Suc i" "Suc j" a b] by simp
  qed
  show ?case
  proof (cases x)
    case (Some a)
    have "f a \<noteq> f b" if "b \<in> set (taken xs)" for b
    proof
      assume eq: "f a = f b"
      from that have "Some b \<in> set xs" by (auto simp: taken_def)
      then obtain j where "j < length xs" "xs ! j = Some b" by (auto simp: in_set_conv_nth)
      then show False using Cons.prems [of 0 "Suc j" a b] Some eq by simp
    qed
    then show ?thesis using ih Some by (auto simp: taken_def)
  qed (use ih in \<open>simp add: taken_def\<close>)
qed (simp add: taken_def)

lemma dir_view:
  assumes "dir_ok es t"
  shows "distinct (map (\<lambda>(n, x). on_key n) (view_entries (capture t)))"
    "map_of (map (\<lambda>(n, x). (on_key n, x)) (view_entries (capture t))) = dir_map es t"
    "length (view_entries (capture t)) = length es"
proof -
  have po: "pages_ok t" using assms by (simp add: dir_ok_def)
  note p = pages_okD [OF po]
  have iff: "map_of es k = Some s \<longleftrightarrow> (\<exists>n r. page_find t s = Some (n, r) \<and> on_key n = k)" for k s using assms by (simp add: dir_ok_def)
  have at: "page_find t (of_nat i) = Some a \<and> unat (of_nat i :: u64) = i" if i: "i < length (pages_cells t)" "pages_cells t ! i = Some a" for i a
  proof -
    have "\<not> 2 ^ 64 - 1 \<le> i" using po i unfolding pages_ok_iff using p(3) by (metis option.distinct(1))
    then have u: "unat (of_nat i :: u64) = i" unfolding unat_of_nat by simp
    then show ?thesis using page_find_cells [OF p(2,1), of "of_nat i"] i p(3) by simp
  qed
  have d: "distinct (map (on_key \<circ> fst) (taken (pages_cells t)))"
  proof (rule taken_distinct)
    fix i j a b assume h: "i < length (pages_cells t)" "j < length (pages_cells t)" "pages_cells t ! i = Some a" "pages_cells t ! j = Some b"
      "(on_key \<circ> fst) a = (on_key \<circ> fst) b"
    have "map_of es (on_key (fst a)) = Some (of_nat i)" using iff at [OF h(1,3)] by (metis prod.collapse)
    moreover have "map_of es (on_key (fst a)) = Some (of_nat j)" using iff at [OF h(2,4)] h(5) by (metis prod.collapse comp_apply)
    ultimately have "(of_nat i :: u64) = of_nat j" by simp
    then show "i = j" using at [OF h(1,3)] at [OF h(2,4)] by metis
  qed
  then show dis: "distinct (map (\<lambda>(n, x). on_key n) (view_entries (capture t)))" by (simp add: view_entries_capture comp_def case_prod_unfold)
  let ?l = "map (\<lambda>(n, x). (on_key n, x)) (view_entries (capture t))"
  have keys: "distinct (map fst ?l)" using dis by (simp add: comp_def case_prod_unfold)
  have mem: "(k, x) \<in> set ?l \<longleftrightarrow> dir_map es t k = Some x" for k x
  proof -
    have "(k, x) \<in> set ?l \<longleftrightarrow> (\<exists>s n. page_find t s = Some (n, x) \<and> on_key n = k)" using view_entries_find [OF po] by force
    also have "\<dots> \<longleftrightarrow> (\<exists>s n. map_of es k = Some s \<and> page_find t s = Some (n, x))" using iff by (metis (no_types, lifting) option.inject prod.inject)
    also have "\<dots> \<longleftrightarrow> dir_map es t k = Some x" by (auto simp: dir_map_def split: option.splits)
    finally show ?thesis .
  qed
  show m: "map_of ?l = dir_map es t"
  proof
    fix k
    show "map_of ?l k = dir_map es t k" using map_of_eq_Some_iff [OF keys, of k] mem [of k] by (metis option.exhaust_sel option.collapse)
  qed
  have "length (view_entries (capture t)) = card (set (map fst ?l))" using distinct_card [OF keys] by simp
  also have "set (map fst ?l) = dom (dir_map es t)" unfolding m [symmetric] by (simp only: dom_map_of_conv_image_fst list.set_map)
  finally show "length (view_entries (capture t)) = length es" using dir_size [OF assms] by simp
qed

subsection \<open>Accounting\<close>

definition map_bytes :: "(string \<Rightarrow> 'r \<Rightarrow> nat) \<Rightarrow> (string \<rightharpoonup> 'r) \<Rightarrow> nat" where
  "map_bytes w m = (\<Sum>k \<in> dom m. w k (the (m k)))"

lemma map_bytes_split:
  assumes "finite (dom m)" "m k = Some r"
  shows "map_bytes w m = w k r + map_bytes w (m(k := None))"
proof -
  have "dom m = insert k (dom m - {k})" using assms(2) by auto
  then have "map_bytes w m = w k r + (\<Sum>k' \<in> dom m - {k}. w k' (the (m k')))"
    using assms unfolding map_bytes_def by (metis (no_types, lifting) sum.remove domI option.sel)
  moreover have "(\<Sum>k' \<in> dom m - {k}. w k' (the (m k'))) = map_bytes w (m(k := None))"
    unfolding map_bytes_def by (rule sum.cong) auto
  ultimately show ?thesis by simp
qed

lemma map_bytes_change:
  assumes "finite (dom m)"
  shows "map_bytes w (m(k := v)) = map_bytes w m - (case m k of None \<Rightarrow> 0 | Some r \<Rightarrow> w k r) + (case v of None \<Rightarrow> 0 | Some r \<Rightarrow> w k r)"
proof -
  have a: "map_bytes w m = (case m k of None \<Rightarrow> 0 | Some r \<Rightarrow> w k r) + map_bytes w (m(k := None))"
  proof (cases "m k")
    case None
    then have "m(k := None) = m" by auto
    then show ?thesis using None by simp
  next
    case (Some r)
    then show ?thesis using map_bytes_split [OF assms Some] by simp
  qed
  have "finite (dom (m(k := v)))" using assms by (rule finite_subset [rotated, of "insert k (dom m)", simplified]) auto
  then have b: "map_bytes w (m(k := v)) = (case v of None \<Rightarrow> 0 | Some r \<Rightarrow> w k r) + map_bytes w (m(k := None))"
    using map_bytes_split [of "m(k := v)" k _ w] by (cases v) simp_all
  show ?thesis using a b by simp
qed

subsection \<open>The invariant\<close>

abbreviation scene_map :: "'r scene \<Rightarrow> string \<rightharpoonup> 'r" where
  "scene_map s \<equiv> dir_map (sn_entries s) (sn_tree s)"

definition weighed :: "scene_sizes \<Rightarrow> ('r \<Rightarrow> nat) \<Rightarrow> string \<Rightarrow> 'r \<Rightarrow> nat" where
  "weighed sz meter k r = the (scene_weight sz meter k r)"

definition content_ok :: "scene_sizes \<Rightarrow> ('r \<Rightarrow> nat) \<Rightarrow> scene_limits \<Rightarrow> (string \<rightharpoonup> 'r) \<Rightarrow> nat \<Rightarrow> bool" where
  "content_ok sz meter lm m bytes \<longleftrightarrow> finite (dom m) \<and> card (dom m) \<le> lm_records lm \<and> bytes = map_bytes (weighed sz meter) m \<and> bytes \<le> lm_bytes lm
     \<and> (\<forall>k r. m k = Some r \<longrightarrow> scene_weight sz meter k r \<noteq> None \<and> k \<noteq> [] \<and> length k \<le> 1024)"

definition event_ok :: "('n, 'r) event \<Rightarrow> bool" where
  "event_ok e \<longleftrightarrow> ev_name e \<noteq> None \<and> (ev_data e \<longrightarrow> ev_record e \<noteq> None)"

definition events_ok :: "('n, 'r) event list \<Rightarrow> u64 \<Rightarrow> bool" where
  "events_ok h v \<longleftrightarrow> length h \<le> unat v \<and> (\<forall>i < length h. unat (ev_version (h ! i)) + (length h - 1 - i) = unat v) \<and> list_all event_ok h"

definition history_ok :: "scene_limits \<Rightarrow> ('n, 'r) event list \<Rightarrow> u64 \<Rightarrow> nat \<Rightarrow> bool" where
  "history_ok lm h v backlog \<longleftrightarrow> events_ok h v \<and> backlog = sum_list (map ev_bytes h) \<and> length h \<le> lm_history lm \<and> backlog \<le> lm_backlog lm"

definition scene_ok :: "scene_sizes \<Rightarrow> 'r scene \<Rightarrow> bool" where
  "scene_ok sz s \<longleftrightarrow> \<not> sn_editing s \<and> dir_ok (sn_entries s) (sn_tree s)
     \<and> content_ok sz (sn_measure s) (sn_limits s) (scene_map s) (sn_bytes s) \<and> history_ok (sn_limits s) (sn_history s) (sn_version s) (sn_backlog s)"

lemma scene_new_ok: "scene_new meter limits = Some s \<Longrightarrow> scene_ok sz s"
proof -
  assume "scene_new meter limits = Some s"
  then have s: "s = \<lparr>sn_measure = meter, sn_limits = limits, sn_tree = pages_new, sn_entries = [], sn_history = [], sn_version = 0,
      sn_bytes = 0, sn_backlog = 0, sn_editing = False\<rparr>" by (simp add: scene_new_def split: if_splits)
  have "dir_ok [] (pages_new :: (origin_name, 'a) pages)" by (simp add: dir_ok_def page_new_ok)
  moreover have "dir_map [] pages_new = (Map.empty :: string \<rightharpoonup> 'a)" by (simp add: dir_map_def fun_eq_iff)
  ultimately show ?thesis by (simp add: scene_ok_def s content_ok_def history_ok_def events_ok_def map_bytes_def)
qed

lemma content_change:
  assumes c: "content_ok sz meter lm m bytes"
    and before: "before = (case m k of None \<Rightarrow> Some 0 | Some r \<Rightarrow> scene_weight sz meter k r)"
    and after: "after = (case v of None \<Rightarrow> Some 0 | Some r \<Rightarrow> scene_weight sz meter k r)" "after \<noteq> None"
    and room: "the after \<le> lm_bytes lm" "bytes - the before \<le> lm_bytes lm - the after" "m k = None \<longrightarrow> card (dom m) < lm_records lm"
    and k: "k \<noteq> []" "length k \<le> 1024"
  shows "content_ok sz meter lm (m(k := v)) (bytes - the before + the after)"
proof -
  have f: "finite (dom m)" using c by (simp add: content_ok_def)
  have bs: "the before = (case m k of None \<Rightarrow> 0 | Some r \<Rightarrow> weighed sz meter k r)" "the after = (case v of None \<Rightarrow> 0 | Some r \<Rightarrow> weighed sz meter k r)"
    unfolding before after(1) weighed_def by (simp_all split: option.split)
  have "bytes - the before + the after = map_bytes (weighed sz meter) (m(k := v))"
    using c map_bytes_change [OF f, of "weighed sz meter" k v] unfolding bs content_ok_def by simp
  moreover have "bytes - the before + the after \<le> lm_bytes lm" using room(1,2) by simp
  moreover have "card (dom (m(k := v))) \<le> lm_records lm"
  proof -
    have "dom (m(k := v)) = (if v = None then dom m - {k} else insert k (dom m))" by auto
    moreover have "card (dom m - {k}) \<le> lm_records lm" using c card_Diff1_le [of "dom m" k] by (simp add: content_ok_def)
    moreover have "card (insert k (dom m)) \<le> lm_records lm" using c f room(3) by (cases "m k") (auto simp: content_ok_def card_insert_if)
    ultimately show ?thesis by simp
  qed
  moreover have "finite (dom (m(k := v)))" using f by (simp add: dom_fun_upd)
  ultimately show ?thesis using c k after by (auto simp: content_ok_def split: option.splits)
qed

subsection \<open>History\<close>

lemma events_drop: "events_ok h v \<Longrightarrow> events_ok (drop k h) v"
proof -
  assume h: "events_ok h v"
  have "unat (ev_version (drop k h ! i)) + (length (drop k h) - 1 - i) = unat v" if "i < length (drop k h)" for i
  proof -
    have "unat (ev_version (h ! (k + i))) + (length h - 1 - (k + i)) = unat v" using h that by (simp add: events_ok_def)
    then show ?thesis using that by simp
  qed
  then show ?thesis using h by (auto simp: events_ok_def list_all_iff dest: in_set_dropD)
qed

lemma events_snoc:
  assumes "events_ok h v" "v \<noteq> - 1" "ev_version e = v + 1" "event_ok e"
  shows "events_ok (h @ [e]) (v + 1)"
proof -
  note u = unat_next [OF assms(2)]
  have "unat (ev_version ((h @ [e]) ! i)) + (length (h @ [e]) - 1 - i) = unat (v + 1)" if "i < length (h @ [e])" for i
  proof (cases "i < length h")
    case True
    then have "unat (ev_version (h ! i)) + (length h - 1 - i) = unat v" using assms(1) by (simp add: events_ok_def)
    then show ?thesis using True u by (simp add: nth_append)
  next
    case False
    then show ?thesis using that assms(3) by (simp add: nth_append)
  qed
  then show ?thesis using assms(1,4) u by (simp add: events_ok_def)
qed

lemma evict_fits:
  assumes "backlog = sum_list (map ev_bytes h)"
  shows "scene_evict lm retention now h backlog \<le> length h \<and> length (drop (scene_evict lm retention now h backlog) h) \<le> lm_history lm
    \<and> sum_list (map ev_bytes (drop (scene_evict lm retention now h backlog) h)) \<le> min (lm_backlog lm) retention"
  using assms by (induction h arbitrary: backlog) (auto simp: outdated_def)

lemma trim_evict:
  "scene_trim lm retention now h backlog =
     (drop (scene_evict lm retention now h backlog) h, backlog - sum_list (map ev_bytes (take (scene_evict lm retention now h backlog) h)))"
  by (induction h arbitrary: backlog) simp_all

lemma history_push:
  assumes h: "history_ok lm h v backlog" and e: "v \<noteq> - 1" "ev_version e = v + 1" "event_ok e"
    and k: "k = scene_evict lm retention now (h @ [e]) (backlog + ev_bytes e)"
  shows "history_ok lm (drop k (h @ [e])) (v + 1) (backlog + ev_bytes e - sum_list (map ev_bytes (take k (h @ [e]))))"
proof -
  have b: "backlog + ev_bytes e = sum_list (map ev_bytes (h @ [e]))" using h by (simp add: history_ok_def)
  have s: "sum_list (map ev_bytes (h @ [e])) = sum_list (map ev_bytes (take k (h @ [e]))) + sum_list (map ev_bytes (drop k (h @ [e])))"
    by (metis append_take_drop_id map_append sum_list_append)
  note f = evict_fits [OF b, of lm retention now, folded k]
  have "events_ok (drop k (h @ [e])) (v + 1)" using events_drop [OF events_snoc [OF _ e]] h unfolding history_ok_def by blast
  then show ?thesis using f s b unfolding history_ok_def by simp
qed

end
