(* ===== verification/Scene_Edit.thy ===== *)
theory Scene_Edit
  imports Scene_Index
begin

text \<open>
  A prepared change on every branch: what its commit, its abandonment and its failures do to the contents.
\<close>

subsection \<open>One change\<close>

lemma abort_plain: "\<not> et_queued e \<Longrightarrow> \<not> et_added e \<Longrightarrow> scene_abort e s = s\<lparr>sn_editing := False\<rparr>"
  by (simp add: scene_abort_def)

lemma abort_added:
  "\<not> et_queued e \<Longrightarrow> et_added e \<Longrightarrow> ev_name (et_event e) = Some n \<Longrightarrow> sn_entries s = (on_key n, slot) # es \<Longrightarrow> on_key n \<notin> fst ` set es
   \<Longrightarrow> scene_abort e s = s\<lparr>sn_entries := es, sn_editing := False\<rparr>"
  by (simp add: scene_abort_def)

lemma scene_queue_cases:
  assumes q: "scene_queue sz gr retention e s = (out, s')" and e: "\<not> et_queued e" "ev_bytes (et_event e) = 0"
  obtains (failed) "\<And>x. out \<noteq> Scene_done x" "s' = scene_abort e s"
  | (queued) ev where "ev = (et_event e)\<lparr>ev_bytes := sz_event sz + sz_name sz + length (on_key (the (ev_name (et_event e))))
        + (case ev_record (et_event e) of None \<Rightarrow> 0 | Some r \<Rightarrow> sn_measure s r)\<rparr>"
      "s' = s\<lparr>sn_history := sn_history s @ [ev], sn_backlog := sn_backlog s + ev_bytes ev\<rparr>"
      "out = Scene_done (e\<lparr>et_event := ev, et_queued := True,
        et_evicted := scene_evict (sn_limits s) retention (ev_stored ev) (sn_history s @ [ev]) (sn_backlog s + ev_bytes ev)\<rparr>)"
proof -
  define ev where "ev = (et_event e)\<lparr>ev_bytes := sz_event sz + sz_name sz + length (on_key (the (ev_name (et_event e))))
        + (case ev_record (et_event e) of None \<Rightarrow> 0 | Some r \<Rightarrow> sn_measure s r)\<rparr>"
  define s1 where "s1 = s\<lparr>sn_history := sn_history s @ [ev], sn_backlog := sn_backlog s + ev_bytes ev\<rparr>"
  define e1 where "e1 = e\<lparr>et_event := ev, et_queued := True,
        et_evicted := scene_evict (sn_limits s) retention (ev_stored ev) (sn_history s @ [ev]) (sn_backlog s + ev_bytes ev)\<rparr>"
  have ab: "scene_abort e1 s1 = scene_abort e s" using e(1) by (simp add: scene_abort_def Let_def e1_def s1_def ev_def)
  have "((\<forall>x. out \<noteq> Scene_done x) \<and> s' = scene_abort e s) \<or> (s' = s1 \<and> out = Scene_done e1)"
  proof -
    have "scene_queue sz gr retention e s = (Scene_refused Sn_capacity, scene_abort e s) \<or> scene_queue sz gr retention e s = (Scene_thrown, scene_abort e s)
        \<or> scene_queue sz gr retention e s = (Scene_thrown, scene_abort e1 s1) \<or> scene_queue sz gr retention e s = (Scene_done e1, s1)"
      unfolding scene_queue_def Let_def ev_def [symmetric] s1_def [symmetric]
      by (simp add: s1_def [symmetric] e1_def [symmetric] ev_def [symmetric]) (simp add: s1_def e1_def ev_def)
    then show ?thesis using q ab by auto
  qed
  then show thesis using failed queued [OF ev_def] unfolding s1_def e1_def by blast
qed

lemma scene_prepare_cases:
  assumes p: "scene_prepare sz gr name record now data retention s = (out, s')" and ok: "scene_ok sz s"
  obtains (failed) t where "\<And>x. out \<noteq> Scene_done x" "s' = s\<lparr>sn_tree := t\<rparr>" "dir_ok (sn_entries s) t" "dir_map (sn_entries s) t = scene_map s"
  | (ready) n n1 slot t ev e where "name = Some n" "on_key n \<noteq> []" "length (on_key n) \<le> 1024" "sn_version s \<noteq> - 1" "on_key n1 = on_key n"
      "record = None \<longrightarrow> scene_map s (on_key n) \<noteq> None" "data \<longrightarrow> record \<noteq> None \<and> scene_map s (on_key n) \<noteq> None"
      "dir_ok (sn_entries s) t" "dir_map (sn_entries s) t = scene_map s" "page_ready t slot"
      "case map_of (sn_entries s) (on_key n) of None \<Rightarrow> page_find t slot = None \<and> slot \<noteq> - 1 \<and> n1 = n | Some x \<Rightarrow> slot = x"
      "content_ok sz (sn_measure s) (sn_limits s) ((scene_map s)(on_key n := record)) (et_bytes e)"
      "ev = \<lparr>ev_name = Some n1, ev_record = record, ev_version = sn_version s + 1, ev_data = data,
         ev_bytes = sz_event sz + sz_name sz + length (on_key n) + (case record of None \<Rightarrow> 0 | Some r \<Rightarrow> sn_measure s r), ev_stored = now\<rparr>"
      "out = Scene_done e" "et_slot e = slot" "et_added e = (map_of (sn_entries s) (on_key n) = None)" "et_queued e" "et_event e = ev"
      "et_old e = scene_map s (on_key n)"
      "et_evicted e = scene_evict (sn_limits s) retention now (sn_history s @ [ev]) (sn_backlog s + ev_bytes ev)"
      "s' = s\<lparr>sn_editing := True, sn_tree := t,
         sn_entries := (if map_of (sn_entries s) (on_key n) = None then (on_key n, slot) # sn_entries s else sn_entries s),
         sn_history := sn_history s @ [ev], sn_backlog := sn_backlog s + ev_bytes ev\<rparr>"
proof -
  have idle: "\<not> sn_editing s" and dir: "dir_ok (sn_entries s) (sn_tree s)"
    and con: "content_ok sz (sn_measure s) (sn_limits s) (scene_map s) (sn_bytes s)" using ok by (simp_all add: scene_ok_def)
  have same: "s\<lparr>sn_tree := sn_tree s\<rparr> = s" "s\<lparr>sn_editing := False\<rparr> = s" using idle by simp_all
  have still: thesis if "\<And>x. out \<noteq> Scene_done x" "s' = s" using failed [of "sn_tree s"] that dir same by simp
  consider "\<exists>c. (out, s') = (Scene_refused c, s)"
    | n where "name = Some n" "\<not> (on_key n = [] \<or> length (on_key n) > 1024)" "sn_version s \<noteq> - 1"
        "\<not> ((record = None \<and> map_of (sn_entries s) (on_key n) = None) \<or> (data \<and> (record = None \<or> map_of (sn_entries s) (on_key n) = None)))"
    using p idle unfolding scene_prepare_def Let_def by (cases name) (auto split: if_splits)
  then show thesis
  proof cases
    case 1
    then show thesis using still by auto
  next
    case (2 n)
    let ?key = "on_key n"
    define found where "found = map_of (sn_entries s) ?key"
    have guards: "sn_editing s = False" "(on_key n = [] \<or> 1024 < length (on_key n)) = False" "(sn_version s = - 1) = False"
      and shape: "((record = None \<and> \<not> found \<noteq> None) \<or> (data \<and> (record = None \<or> \<not> found \<noteq> None))) = False"
      using 2 idle by (auto simp: found_def)
    define row where "row = (case found of None \<Rightarrow> None | Some slot \<Rightarrow> page_find (sn_tree s) slot)"
    define n1 where "n1 = (if found \<noteq> None then fst (the row) else n)"
    have "row = map_option (\<lambda>r. (n1, r)) (scene_map s ?key) \<and> on_key n1 = ?key \<and> (scene_map s ?key = None \<longleftrightarrow> found = None)"
    proof (cases found)
      case None
      then show ?thesis using dir_none [of "sn_entries s" ?key "sn_tree s"] by (simp add: row_def n1_def found_def)
    next
      case (Some slot)
      obtain m r where "page_find (sn_tree s) slot = Some (m, r)" "on_key m = ?key" "scene_map s ?key = Some r"
        by (rule dir_found [OF dir Some [unfolded found_def]])
      then show ?thesis using Some by (simp add: row_def n1_def)
    qed
    then have row: "row = map_option (\<lambda>r. (n1, r)) (scene_map s ?key)" and n1: "on_key n1 = ?key" and old: "scene_map s ?key = None \<longleftrightarrow> found = None"
      by blast+
    have oldr: "(if found \<noteq> None then Some (snd (the row)) else None) = scene_map s ?key" using row old by (cases "scene_map s ?key") auto
    define e1 where "e1 = \<lparr>et_slot = (if found \<noteq> None then the found else 0), et_bytes = 0, et_evicted = 0, et_added = False, et_queued = False,
         et_event = \<lparr>ev_name = Some n1, ev_record = record, ev_version = sn_version s + 1, ev_data = data, ev_bytes = 0, ev_stored = now\<rparr>,
         et_old = (if found \<noteq> None then Some (snd (the row)) else None)\<rparr>"
    define before where "before = (case et_old e1 of None \<Rightarrow> Some 0 | Some old \<Rightarrow> scene_weight sz (sn_measure s) (on_key n1) old)"
    define after where "after = (case record of None \<Rightarrow> Some 0 | Some r \<Rightarrow> scene_weight sz (sn_measure s) (on_key n1) r)"
    define full where "full \<longleftrightarrow> before = None \<or> after = None \<or> the after > lm_bytes (sn_limits s)
                   \<or> sn_bytes s - the before > lm_bytes (sn_limits s) - the after
                   \<or> (\<not> found \<noteq> None \<and> length (sn_entries s) = lm_records (sn_limits s))"
    define s1 where "s1 = s\<lparr>sn_editing := True\<rparr>"
    define e2 where "e2 = e1\<lparr>et_bytes := sn_bytes s - the before + the after\<rparr>"
    define e3 where "e3 slot = e2\<lparr>et_slot := slot\<rparr>" for slot
    define e4 where "e4 slot = (if found \<noteq> None then e3 slot else (e3 slot)\<lparr>et_added := True\<rparr>)" for slot
    define s2 where "s2 slot = (if found \<noteq> None then s1 else s1\<lparr>sn_entries := (on_key n1, slot) # sn_entries s1\<rparr>)" for slot
    have run: "scene_prepare sz gr name record now data retention s =
       (if full then (Scene_refused Sn_capacity, scene_abort e1 s1)
        else case (if found \<noteq> None then Inr (the found) else page_next (sn_tree s)) of
          Inl _ \<Rightarrow> (Scene_thrown, scene_abort e2 s1)
        | Inr slot \<Rightarrow>
            if \<not> found \<noteq> None \<and> \<not> sg_entry gr then (Scene_thrown, scene_abort (e3 slot) s1)
            else case page_prepare (sg_roots gr) (sg_pages gr) slot (sn_tree (s2 slot)) of (good, tree) \<Rightarrow>
              (if \<not> good then (Scene_thrown, scene_abort (e4 slot) ((s2 slot)\<lparr>sn_tree := tree\<rparr>))
               else scene_queue sz gr retention (e4 slot) ((s2 slot)\<lparr>sn_tree := tree\<rparr>)))"
      unfolding scene_prepare_def 2(1) option.case guards if_False Let_def found_def [symmetric] row_def [symmetric] n1_def [symmetric]
        e1_def [symmetric] s1_def [symmetric] before_def [symmetric] after_def [symmetric] full_def [symmetric]
        e2_def [symmetric] e3_def [symmetric] e4_def [symmetric] s2_def [symmetric]
      unfolding shape if_False e1_def [symmetric] s1_def [symmetric] before_def [symmetric] after_def [symmetric] full_def [symmetric]
        e2_def [symmetric] e3_def [symmetric] e4_def [symmetric] s2_def [symmetric] ..
    have plain: "scene_abort e1 s1 = s" "scene_abort e2 s1 = s" "scene_abort (e3 slot) s1 = s" for slot
      using idle by (simp_all add: scene_abort_def e1_def e2_def e3_def s1_def)
    have fresh: "found = None \<Longrightarrow> ?key \<notin> fst ` set (sn_entries s)" by (simp add: found_def map_of_eq_None_iff)
    have undone: "scene_abort (e4 slot) ((s2 slot)\<lparr>sn_tree := t\<rparr>) = s\<lparr>sn_tree := t\<rparr>" for slot t
      using idle fresh n1 by (cases found) (simp_all add: scene_abort_def e4_def e3_def e2_def e1_def s2_def s1_def)
    show thesis
    proof (cases full)
      case True
      then show thesis using p run plain by (intro still) auto
    next
      case nfull: False
      show thesis
      proof (cases "if found \<noteq> None then Inr (the found) else page_next (sn_tree s)")
        case (Inl x)
        then show thesis using p run nfull plain by (intro still) auto
      next
        case slot: (Inr slot)
        have vac: "case found of None \<Rightarrow> page_find (sn_tree s) slot = None \<and> slot \<noteq> - 1 | Some x \<Rightarrow> slot = x"
          using slot pages_index.fresh_vacant [of "sn_tree s" slot] dir by (cases found) (simp_all add: dir_ok_def)
        show thesis
        proof (cases "\<not> found \<noteq> None \<and> \<not> sg_entry gr")
          case True
          then show thesis using p run nfull slot plain by (intro still) auto
        next
          case entry: False
          obtain good t where pp: "page_prepare (sg_roots gr) (sg_pages gr) slot (sn_tree s) = (good, t)" by fastforce
          have t2: "sn_tree (s2 slot) = sn_tree s" by (simp add: s2_def s1_def)
          note dp = dir_prepare [OF dir pp]
          have run': "(out, s') = (if \<not> good then (Scene_thrown, scene_abort (e4 slot) ((s2 slot)\<lparr>sn_tree := t\<rparr>))
               else scene_queue sz gr retention (e4 slot) ((s2 slot)\<lparr>sn_tree := t\<rparr>))"
            using p nfull slot entry unfolding run by (simp add: t2 pp split: if_splits)
          show thesis
          proof (cases good)
            case False
            then show thesis using run' undone dp(1,2) by (intro failed [of t]) auto
          next
            case True
            then have q: "scene_queue sz gr retention (e4 slot) ((s2 slot)\<lparr>sn_tree := t\<rparr>) = (out, s')" using run' by simp
            have e4: "\<not> et_queued (e4 slot)" "ev_bytes (et_event (e4 slot)) = 0"
                "et_event (e4 slot) = \<lparr>ev_name = Some n1, ev_record = record, ev_version = sn_version s + 1, ev_data = data, ev_bytes = 0, ev_stored = now\<rparr>"
                "et_slot (e4 slot) = slot" "et_added (e4 slot) = (found = None)" "et_old (e4 slot) = scene_map s ?key" "et_bytes (e4 slot) = sn_bytes s - the before + the after"
              unfolding oldr [symmetric] by (simp_all add: e4_def e3_def e2_def e1_def)
            from q e4(1,2) show thesis
            proof (cases rule: scene_queue_cases)
              case failed
              then show thesis using undone dp(1,2) by (intro that(1) [of t]) auto
            next
              case (queued ev)
              have room: "after \<noteq> None" "the after \<le> lm_bytes (sn_limits s)" "sn_bytes s - the before \<le> lm_bytes (sn_limits s) - the after"
                "scene_map s ?key = None \<longrightarrow> card (dom (scene_map s)) < lm_records (sn_limits s)"
                using nfull con dir_size [OF dir] old unfolding full_def content_ok_def by auto
              have bo: "before = (case scene_map s ?key of None \<Rightarrow> Some 0 | Some r \<Rightarrow> scene_weight sz (sn_measure s) ?key r)"
                "after = (case record of None \<Rightarrow> Some 0 | Some r \<Rightarrow> scene_weight sz (sn_measure s) ?key r)"
                using oldr unfolding before_def after_def n1 e1_def by simp_all
              have cc: "content_ok sz (sn_measure s) (sn_limits s) ((scene_map s)(?key := record)) (sn_bytes s - the before + the after)"
                using content_change [OF con bo room] 2(2) by simp
              define e where "e = (e4 slot)\<lparr>et_event := ev, et_queued := True,
                et_evicted := scene_evict (sn_limits s) retention now (sn_history s @ [ev]) (sn_backlog s + ev_bytes ev)\<rparr>"
              have s2: "sn_measure (s2 slot) = sn_measure s" "sn_limits (s2 slot) = sn_limits s" "sn_history (s2 slot) = sn_history s" "sn_backlog (s2 slot) = sn_backlog s"
                by (simp_all add: s2_def s1_def)
              have ev: "ev = \<lparr>ev_name = Some n1, ev_record = record, ev_version = sn_version s + 1, ev_data = data,
                  ev_bytes = sz_event sz + sz_name sz + length ?key + (case record of None \<Rightarrow> 0 | Some r \<Rightarrow> sn_measure s r), ev_stored = now\<rparr>"
                using queued(1) unfolding e4(3) by (cases "record") (simp_all add: s2 n1)
              have out: "out = Scene_done e" using queued(3) unfolding e_def by (simp add: s2 ev)
              show thesis
              proof (rule ready [OF 2(1) _ _ 2(3) n1 _ _ dp(1,2) dp(3) [OF True] _ _ ev out])
                show "?key \<noteq> []" "length ?key \<le> 1024" using 2(2) by auto
                show "record = None \<longrightarrow> scene_map s ?key \<noteq> None" "data \<longrightarrow> record \<noteq> None \<and> scene_map s ?key \<noteq> None"
                  using 2(4) old unfolding found_def by metis+
                show "case map_of (sn_entries s) ?key of None \<Rightarrow> page_find t slot = None \<and> slot \<noteq> - 1 \<and> n1 = n | Some x \<Rightarrow> slot = x"
                  using vac dp(4) unfolding found_def [symmetric] n1_def by (simp split: option.splits)
                show "content_ok sz (sn_measure s) (sn_limits s) ((scene_map s)(?key := record)) (et_bytes e)" using cc by (simp add: e_def e4)
                show "s' = s\<lparr>sn_editing := True, sn_tree := t,
                    sn_entries := (if map_of (sn_entries s) ?key = None then (?key, slot) # sn_entries s else sn_entries s),
                    sn_history := sn_history s @ [ev], sn_backlog := sn_backlog s + ev_bytes ev\<rparr>"
                  using queued(2) n1 unfolding found_def [symmetric] by (simp add: s2_def s1_def)
              qed (simp_all add: e_def e4 found_def)
            qed
          qed
        qed
      qed
    qed
  qed
qed

definition same_scene :: "'r scene \<Rightarrow> 'r scene \<Rightarrow> bool" where
  "same_scene s s' \<longleftrightarrow> scene_map s' = scene_map s \<and> sn_version s' = sn_version s \<and> sn_history s' = sn_history s \<and> sn_backlog s' = sn_backlog s
     \<and> sn_bytes s' = sn_bytes s \<and> sn_limits s' = sn_limits s \<and> sn_measure s' = sn_measure s"

abbreviation event_name :: "(origin_name, 'r) event \<Rightarrow> string" where
  "event_name e \<equiv> on_key (the (ev_name e))"

text \<open>A committed change: the next version, one record changed, one event added at the end of the history.\<close>

definition commits :: "'r scene \<Rightarrow> (origin_name, 'r) event \<Rightarrow> 'r scene \<Rightarrow> bool" where
  "commits s ev s' \<longleftrightarrow> sn_version s \<noteq> - 1 \<and> sn_version s' = sn_version s + 1 \<and> ev_version ev = sn_version s' \<and> event_ok ev
     \<and> scene_map s' = (scene_map s)(event_name ev := ev_record ev) \<and> (\<exists>k. sn_history s' = drop k (sn_history s @ [ev]))
     \<and> (ev_data ev \<longrightarrow> scene_map s (event_name ev) \<noteq> None) \<and> sn_limits s' = sn_limits s \<and> sn_measure s' = sn_measure s"

lemma scene_ok_tree:
  assumes "scene_ok sz s" "dir_ok (sn_entries s) t" "dir_map (sn_entries s) t = scene_map s"
  shows "scene_ok sz (s\<lparr>sn_tree := t\<rparr>)" "same_scene s (s\<lparr>sn_tree := t\<rparr>)"
  using assms by (simp_all add: scene_ok_def same_scene_def)

lemma commit_fields:
  assumes "scene_commit e s = (ret, s')"
  shows "sn_version s' = ev_version (et_event e)" "sn_history s' = drop (et_evicted e) (sn_history s)"
    "sn_backlog s' = sn_backlog s - sum_list (map ev_bytes (take (et_evicted e) (sn_history s)))" "sn_bytes s' = et_bytes e" "\<not> sn_editing s'"
    "sn_limits s' = sn_limits s" "sn_measure s' = sn_measure s"
    "ret = \<lparr>rt_event = et_event e, rt_record = et_old e, rt_events = take (et_evicted e) (sn_history s)\<rparr>"
    "sn_tree s' = (case ev_record (et_event e) of Some r \<Rightarrow> page_set (et_slot e) (if et_added e then ev_name (et_event e) else None) r (sn_tree s)
       | None \<Rightarrow> page_erase (et_slot e) (sn_tree s))"
    "sn_entries s' = (if ev_record (et_event e) = None then AList.delete (event_name (et_event e)) (sn_entries s) else sn_entries s)"
  using assms unfolding scene_commit_def Let_def by (cases "ev_record (et_event e)"; auto)+

lemma scene_prepare_spec:
  assumes p: "scene_prepare sz gr name record now data retention s = (out, s')" and ok: "scene_ok sz s"
  shows "(\<forall>e. out \<noteq> Scene_done e) \<Longrightarrow> scene_ok sz s' \<and> same_scene s s'"
    "out = Scene_done e \<Longrightarrow> scene_ok sz (scene_abort e s') \<and> same_scene s (scene_abort e s')"
    "out = Scene_done e \<Longrightarrow> scene_commit e s' = (ret, s'') \<Longrightarrow> scene_ok sz s'' \<and> commits s (rt_event ret) s''
       \<and> name \<noteq> None \<and> event_name (rt_event ret) = on_key (the name) \<and> ev_record (rt_event ret) = record \<and> ev_data (rt_event ret) = data
       \<and> rt_record ret = scene_map s (on_key (the name)) \<and> rt_events ret @ sn_history s'' = sn_history s @ [rt_event ret]"
proof -
  have "((\<forall>e. out \<noteq> Scene_done e) \<longrightarrow> scene_ok sz s' \<and> same_scene s s')
    \<and> (out = Scene_done e \<longrightarrow> scene_ok sz (scene_abort e s') \<and> same_scene s (scene_abort e s'))
    \<and> (out = Scene_done e \<and> scene_commit e s' = (ret, s'') \<longrightarrow> scene_ok sz s'' \<and> commits s (rt_event ret) s''
       \<and> name \<noteq> None \<and> event_name (rt_event ret) = on_key (the name) \<and> ev_record (rt_event ret) = record \<and> ev_data (rt_event ret) = data
       \<and> rt_record ret = scene_map s (on_key (the name)) \<and> rt_events ret @ sn_history s'' = sn_history s @ [rt_event ret])"
    using p ok
  proof (cases rule: scene_prepare_cases)
    case (failed t)
    then show ?thesis using scene_ok_tree [OF ok failed(3,4)] by simp
  next
    case (ready n n1 slot t ev e1)
    let ?k = "on_key n" and ?es = "sn_entries s"
    have idle: "\<not> sn_editing s" and dir: "dir_ok ?es (sn_tree s)" and hist: "history_ok (sn_limits s) (sn_history s) (sn_version s) (sn_backlog s)"
      using ok by (simp_all add: scene_ok_def)
    have evf: "ev_name ev = Some n1" "ev_record ev = record" "ev_version ev = sn_version s + 1" "ev_data ev = data" "event_name ev = ?k"
      using ready(5,13) by simp_all
    have undo: "scene_abort e1 s' = s\<lparr>sn_tree := t\<rparr>"
      using ready(16-18) evf idle unfolding ready(21) by (auto simp: scene_abort_def Let_def map_of_eq_None_iff)
    have eo: "event_ok ev" using evf ready(7) by (simp add: event_ok_def)
    note hp = history_push [OF hist ready(4) evf(3) eo ready(20)]
    have commit: "scene_ok sz s2 \<and> commits s ev s2 \<and> ret = \<lparr>rt_event = ev, rt_record = scene_map s ?k, rt_events = take (et_evicted e1) (sn_history s @ [ev])\<rparr>
        \<and> sn_history s2 = drop (et_evicted e1) (sn_history s @ [ev])"
      if c: "scene_commit e1 s' = (ret, s2)" for ret s2
    proof -
      note f = commit_fields [OF c, unfolded ready(18) evf]
      have hs: "sn_history s' = sn_history s @ [ev]" "sn_backlog s' = sn_backlog s + ev_bytes ev" "sn_limits s' = sn_limits s" "sn_measure s' = sn_measure s"
          "sn_tree s' = t" "sn_entries s' = (if map_of ?es ?k = None then (?k, slot) # ?es else ?es)"
        unfolding ready(21) by simp_all
      note fields = f(1-7) [unfolded hs] f(8) [unfolded hs ready(19)]
      define es2 where "es2 = sn_entries s2"
      define t2 where "t2 = sn_tree s2"
      have d: "dir_ok es2 t2 \<and> dir_map es2 t2 = (scene_map s)(?k := record)"
      proof (cases "record")
        case None
        then have "scene_map s ?k \<noteq> None" using ready(6) by blast
        then obtain x where x: "map_of ?es ?k = Some x" using dir_none [of ?es ?k "sn_tree s"] by (cases "map_of ?es ?k") auto
        then have "es2 = AList.delete ?k ?es" "t2 = page_erase x t"
          using x ready(5,11) None ready(15) unfolding es2_def t2_def f(9,10) hs by simp_all
        then show ?thesis using dir_remove [OF ready(8) x] None ready(9) by simp
      next
        case (Some r)
        show ?thesis
        proof (cases "map_of ?es ?k")
          case None
          then have v: "page_find t slot = None" "slot \<noteq> - 1" "n1 = n" using ready(11) by simp_all
          have "es2 = (?k, slot) # ?es" "t2 = page_set slot (Some n) r t"
            using Some None v ready(15,16) unfolding es2_def t2_def f(9,10) hs by simp_all
          then show ?thesis using dir_add [OF ready(8) None v(1) ready(10) v(2), of r] Some ready(9) by simp
        next
          case at: (Some x)
          then have "slot = x" using ready(11) by simp
          moreover have "es2 = ?es" "t2 = page_set slot None r t"
            using Some at ready(15,16) unfolding es2_def t2_def f(9,10) hs by simp_all
          ultimately show ?thesis using dir_replace [OF ready(8) at, of r] ready(9,10) Some by simp
        qed
      qed
      then have "scene_ok sz s2" using ready(12) hp fields(5) unfolding scene_ok_def fields(1-4,6,7) es2_def t2_def by simp
      moreover have "commits s ev s2"
        using d ready(4,7) evf eo unfolding commits_def fields(1-4,6,7) es2_def t2_def by auto
      ultimately show ?thesis using fields(2,8) by simp
    qed
    have nm: "name \<noteq> None" "on_key (the name) = ?k" using ready(1) by simp_all
    show ?thesis
    proof (intro conjI impI)
      assume "\<forall>e. out \<noteq> Scene_done e"
      then show "scene_ok sz s'" "same_scene s s'" using ready(14) by blast+
    next
      assume "out = Scene_done e"
      then show "scene_ok sz (scene_abort e s')" "same_scene s (scene_abort e s')"
        using ready(14) undo scene_ok_tree [OF ok ready(8,9)] by simp_all
    next
      assume a: "out = Scene_done e \<and> scene_commit e s' = (ret, s'')"
      then have c: "scene_commit e1 s' = (ret, s'')" using ready(14) by simp
      note cm = commit [OF c]
      then have rf: "rt_event ret = ev" "rt_record ret = scene_map s ?k" "rt_events ret = take (et_evicted e1) (sn_history s @ [ev])" by simp_all
      show "scene_ok sz s''" "commits s (rt_event ret) s''" using cm rf(1) by simp_all
      show "name \<noteq> None" using nm by simp
      show "event_name (rt_event ret) = on_key (the name)" "ev_record (rt_event ret) = record" "ev_data (rt_event ret) = data" using evf rf(1) nm(2) by simp_all
      show "rt_record ret = scene_map s (on_key (the name))" using rf(2) nm(2) by simp
      show "rt_events ret @ sn_history s'' = sn_history s @ [rt_event ret]" using cm unfolding rf by (metis append_take_drop_id)
    qed
  qed
  then show "(\<forall>e. out \<noteq> Scene_done e) \<Longrightarrow> scene_ok sz s' \<and> same_scene s s'"
    "out = Scene_done e \<Longrightarrow> scene_ok sz (scene_abort e s') \<and> same_scene s (scene_abort e s')"
    "out = Scene_done e \<Longrightarrow> scene_commit e s' = (ret, s'') \<Longrightarrow> scene_ok sz s'' \<and> commits s (rt_event ret) s''
       \<and> name \<noteq> None \<and> event_name (rt_event ret) = on_key (the name) \<and> ev_record (rt_event ret) = record \<and> ev_data (rt_event ret) = data
       \<and> rt_record ret = scene_map s (on_key (the name)) \<and> rt_events ret @ sn_history s'' = sn_history s @ [rt_event ret]"
    by blast+
qed

end
