(* ===== verification/Scene_Batch.thy ===== *)
theory Scene_Batch
  imports Scene_Edit
begin

text \<open>
  Batches: the candidate that is assembled beside the scene, and what is left of a batch that fails part of the way.
\<close>

subsection \<open>Batches\<close>

lemma batch_store_cases:
  assumes r: "batch_store gr ev exists slot bytes b s = (whole, b', s')"
    and p: "page_prepare (sg_roots gr) (sg_pages gr) slot (bt_tree b) = (good, t)" and n: "ev_name ev = Some n"
  obtains (failed) "\<not> whole" "bt_failed b' = bt_failed b" "bt_added b' = bt_added b \<or> (\<not> exists \<and> bt_added b' = bt_added b @ [n])"
      "s' = s \<or> (\<not> exists \<and> bt_added b' = bt_added b @ [n] \<and> s' = s\<lparr>sn_entries := (on_key n, slot) # sn_entries s\<rparr>)"
  | (stored) k where whole good "k = scene_evict (sn_limits s) (bt_retention b) (ev_stored ev) (bt_history b @ [ev]) (bt_backlog b + ev_bytes ev)"
      "b' = b\<lparr>bt_events := bt_events b @ [ev], bt_seen := on_key n # bt_seen b, bt_added := (if exists then bt_added b else bt_added b @ [n]),
         bt_removed := (if exists \<and> ev_record ev = None then bt_removed b @ [n] else bt_removed b),
         bt_tree := (case ev_record ev of Some r \<Rightarrow> page_set slot (if exists then None else Some n) r t | None \<Rightarrow> page_erase slot t),
         bt_history := drop k (bt_history b @ [ev]), bt_backlog := bt_backlog b + ev_bytes ev - sum_list (map ev_bytes (take k (bt_history b @ [ev]))),
         bt_bytes := bytes, bt_version := bt_version b + 1, bt_failed := False\<rparr>"
      "s' = (if exists then s else s\<lparr>sn_entries := (on_key n, slot) # sn_entries s\<rparr>)"
proof (cases whole)
  case False
  have "bt_failed b' = bt_failed b \<and> (bt_added b' = bt_added b \<or> (\<not> exists \<and> bt_added b' = bt_added b @ [n]))
      \<and> (s' = s \<or> (\<not> exists \<and> bt_added b' = bt_added b @ [n] \<and> s' = s\<lparr>sn_entries := (on_key n, slot) # sn_entries s\<rparr>))"
    using r False n p unfolding batch_store_def Let_def trim_evict by (auto split: if_splits)
  then show thesis using failed False by blast
next
  case True
  then have g: "sg_events gr" "sg_seen gr" "sg_names gr \<or> exists \<and> ev_record ev \<noteq> None" "exists \<or> sg_entry gr" good "sg_history gr"
    using r p unfolding batch_store_def Let_def trim_evict by (auto split: if_splits)
  show thesis
    by (rule stored [OF True g(5) refl]) (use r p n g in \<open>auto simp: batch_store_def Let_def trim_evict\<close>)
qed

definition apply_event :: "(origin_name, 'r) event \<Rightarrow> (string \<rightharpoonup> 'r) \<Rightarrow> string \<rightharpoonup> 'r" where
  "apply_event e m = m(event_name e := ev_record e)"

text \<open>What a batch under way may add to the directory of its scene; abandoning it takes exactly that away.\<close>

definition staged :: "'r scene \<Rightarrow> 'r scene_batch \<Rightarrow> 'r scene \<Rightarrow> bool" where
  "staged s0 b s \<longleftrightarrow> (\<exists>more. s = s0\<lparr>sn_editing := True, sn_entries := more @ sn_entries s0\<rparr> \<and> fst ` set more \<subseteq> on_key ` set (bt_added b))
     \<and> on_key ` set (bt_added b) \<inter> fst ` set (sn_entries s0) = {}"

definition dropped :: "origin_name list \<Rightarrow> (string \<times> u64) list \<Rightarrow> (string \<times> u64) list" where
  "dropped names es = fold (\<lambda>n. AList.delete (on_key n)) names es"

lemma dropped_filter: "dropped names es = filter (\<lambda>e. fst e \<notin> on_key ` set names) es"
  by (induction names arbitrary: es) (auto simp: dropped_def AList.delete_eq intro!: filter_cong)

lemma dropped_map: "map_of (dropped names es) k = (if k \<in> on_key ` set names then None else map_of es k)"
  unfolding dropped_filter by (induction es) auto

lemma dropped_keys: "fst ` set (dropped names es) = fst ` set es - on_key ` set names"
  unfolding dropped_filter by auto

lemma dropped_distinct: "distinct (map fst es) \<Longrightarrow> distinct (map fst (dropped names es))"
  unfolding dropped_filter by (simp add: distinct_map_filter)

lemma dropped_snoc: "dropped (names @ [n]) es = AList.delete (on_key n) (dropped names es)"
  by (simp add: dropped_def)

lemma dropped_length:
  assumes "distinct (map on_key names)" "on_key ` set names \<subseteq> fst ` set es" "distinct (map fst es)"
  shows "length (dropped names es) = length es - length names"
proof -
  have "length (dropped names es) = card (fst ` set (dropped names es))" using distinct_card [OF dropped_distinct [OF assms(3), of names]] by simp
  also have "\<dots> = card (fst ` set es) - card (on_key ` set names)" unfolding dropped_keys by (rule card_Diff_subset) (use assms(2) in auto)
  finally show ?thesis using distinct_card [OF assms(1)] distinct_card [OF assms(3)] by simp
qed

lemma batch_abort_spec:
  assumes "scene_ok sz s0" "staged s0 b s"
  shows "batch_abort b s = s0"
proof -
  obtain more where m: "s = s0\<lparr>sn_editing := True, sn_entries := more @ sn_entries s0\<rparr>" "fst ` set more \<subseteq> on_key ` set (bt_added b)"
      "on_key ` set (bt_added b) \<inter> fst ` set (sn_entries s0) = {}" using assms(2) by (auto simp: staged_def)
  have "filter (\<lambda>e. fst e \<notin> on_key ` set (bt_added b)) more = []" using m(2) unfolding filter_empty_conv by (auto simp: subset_iff)
  moreover have "filter (\<lambda>e. fst e \<notin> on_key ` set (bt_added b)) (sn_entries s0) = sn_entries s0" using m(3) unfolding filter_id_conv by blast
  ultimately have "dropped (bt_added b) (more @ sn_entries s0) = sn_entries s0" unfolding dropped_filter by simp
  then have "batch_abort b s = s0\<lparr>sn_editing := False\<rparr>" unfolding batch_abort_def m(1) dropped_def by simp
  then show ?thesis using assms(1) by (simp add: scene_ok_def)
qed

text \<open>A batch that has not failed: the candidate holds the contents of the scene with the events so far.\<close>

definition assembled :: "scene_sizes \<Rightarrow> 'r scene \<Rightarrow> 'r scene_batch \<Rightarrow> 'r scene \<Rightarrow> bool" where
  "assembled sz s0 b s \<longleftrightarrow>
     dir_ok (dropped (bt_removed b) (sn_entries s)) (bt_tree b)
     \<and> dir_map (dropped (bt_removed b) (sn_entries s)) (bt_tree b) = fold apply_event (bt_events b) (scene_map s0)
     \<and> content_ok sz (sn_measure s0) (sn_limits s0) (fold apply_event (bt_events b) (scene_map s0)) (bt_bytes b)
     \<and> history_ok (sn_limits s0) (bt_history b) (bt_version b) (bt_backlog b) \<and> (\<exists>k. bt_history b = drop k (sn_history s0 @ bt_events b))
     \<and> unat (bt_version b) = unat (sn_version s0) + length (bt_events b)
     \<and> (\<forall>i < length (bt_events b). unat (ev_version (bt_events b ! i)) = unat (sn_version s0) + i + 1) \<and> list_all event_ok (bt_events b)
     \<and> (\<forall>e \<in> set (bt_events b). ev_data e \<longrightarrow> scene_map s0 (event_name e) \<noteq> None)
     \<and> set (bt_seen b) = event_name ` set (bt_events b) \<and> distinct (map event_name (bt_events b))
     \<and> distinct (map on_key (bt_removed b)) \<and> on_key ` set (bt_removed b) \<subseteq> fst ` set (sn_entries s) \<inter> set (bt_seen b)
     \<and> on_key ` set (bt_added b) \<subseteq> set (bt_seen b) \<and> distinct (map fst (sn_entries s))"

lemma batch_new_spec:
  assumes "scene_ok sz s" "scene_batch_new copied retention s = (Scene_done b, s')"
  shows "staged s b s' \<and> assembled sz s b s' \<and> \<not> bt_failed b \<and> bt_events b = []"
proof -
  have b: "b = \<lparr>bt_tree = sn_tree s, bt_history = sn_history s, bt_events = [], bt_added = [], bt_removed = [], bt_seen = [],
              bt_bytes = sn_bytes s, bt_backlog = sn_backlog s, bt_version = sn_version s, bt_retention = retention, bt_failed = False\<rparr>"
    "s' = s\<lparr>sn_editing := True\<rparr>" using assms(2) by (auto simp: scene_batch_new_def split: if_splits)
  have "sn_history s = drop 0 (sn_history s @ [])" by simp
  then have "\<exists>k. sn_history s = drop k (sn_history s @ [])" by blast
  then show ?thesis using assms(1) unfolding b by (simp add: staged_def assembled_def scene_ok_def dropped_def dir_ok_def)
qed

lemma fold_event_other: "k \<notin> event_name ` set evs \<Longrightarrow> fold apply_event evs m k = m k"
  by (induction evs arbitrary: m) (auto simp: apply_event_def)

lemma batch_commit_spec:
  assumes ok: "scene_ok sz s0" and st: "staged s0 b s" and as: "assembled sz s0 b s" and c: "batch_commit b s = (ret, s')"
  shows "scene_ok sz s' \<and> scene_map s' = fold apply_event (bt_events b) (scene_map s0) \<and> unat (sn_version s') = unat (sn_version s0) + length (bt_events b)
    \<and> (\<exists>k. sn_history s' = drop k (sn_history s0 @ bt_events b)) \<and> sn_limits s' = sn_limits s0 \<and> sn_measure s' = sn_measure s0
    \<and> br_events ret = bt_events b \<and> br_root ret = sn_tree s0 \<and> br_history ret = sn_history s0"
proof -
  obtain more where m: "s = s0\<lparr>sn_editing := True, sn_entries := more @ sn_entries s0\<rparr>" using st by (auto simp: staged_def)
  have f: "sn_entries s' = dropped (bt_removed b) (sn_entries s)" "sn_tree s' = bt_tree b" "sn_version s' = bt_version b" "sn_history s' = bt_history b"
      "sn_backlog s' = bt_backlog b" "sn_bytes s' = bt_bytes b" "sn_editing s' = False" "sn_limits s' = sn_limits s0" "sn_measure s' = sn_measure s0"
      "ret = \<lparr>br_root = sn_tree s0, br_history = sn_history s0, br_events = bt_events b\<rparr>"
    using c unfolding batch_commit_def dropped_def m by auto
  show ?thesis using as unfolding scene_ok_def assembled_def f by simp
qed

text \<open>One change of a batch, admitted or not.\<close>

lemma batch_set_cases:
  assumes r: "batch_set sz gr name record now data b s = (out, b', s')"
  obtains (refused) c where "out = Scene_refused c" "b' = b\<lparr>bt_failed := True\<rparr>" "s' = s"
  | (exhausted) "out = Scene_thrown" "b' = b\<lparr>bt_failed := True\<rparr>" "s' = s"
  | (admitted) n found slot old n1 before after ev whole where "\<not> bt_failed b" "name = Some n" "on_key n \<noteq> []" "length (on_key n) \<le> 1024"
      "bt_version b \<noteq> - 1" "found = map_of (sn_entries s) (on_key n)" "record = None \<longrightarrow> found \<noteq> None" "data \<longrightarrow> record \<noteq> None \<and> found \<noteq> None"
      "on_key n \<notin> set (bt_seen b)" "(if found \<noteq> None then Inr (the found) else page_next (bt_tree b)) = Inr slot"
      "old = (if found \<noteq> None then page_find (sn_tree s) slot else None)" "n1 = (if found \<noteq> None then fst (the old) else n)"
      "before = (if found \<noteq> None then scene_weight sz (sn_measure s) (on_key n1) (snd (the old)) else Some 0)"
      "after = (case record of None \<Rightarrow> Some 0 | Some r \<Rightarrow> scene_weight sz (sn_measure s) (on_key n1) r)"
      "before \<noteq> None" "after \<noteq> None" "the after \<le> lm_bytes (sn_limits s)" "bt_bytes b - the before \<le> lm_bytes (sn_limits s) - the after"
      "found = None \<longrightarrow> length (sn_entries s) - length (bt_removed b) \<noteq> lm_records (sn_limits s)"
      "ev = \<lparr>ev_name = Some n1, ev_record = record, ev_version = bt_version b + 1, ev_data = data,
         ev_bytes = sz_event sz + sz_name sz + length (on_key n1) + (case record of None \<Rightarrow> 0 | Some r \<Rightarrow> sn_measure s r), ev_stored = now\<rparr>"
      "batch_store gr ev (found \<noteq> None) slot (bt_bytes b - the before + the after) (b\<lparr>bt_failed := True\<rparr>) s = (whole, b', s')"
      "out = (if whole then Scene_done () else Scene_thrown)"
proof -
  define b0 where "b0 = b\<lparr>bt_failed := True\<rparr>"
  consider "\<exists>c. (out, b', s') = (Scene_refused c, b0, s)"
    | n where "\<not> bt_failed b" "name = Some n" "\<not> (on_key n = [] \<or> length (on_key n) > 1024)" "bt_version b \<noteq> - 1"
        "\<not> ((record = None \<and> \<not> map_of (sn_entries s) (on_key n) \<noteq> None) \<or> (data \<and> (record = None \<or> \<not> map_of (sn_entries s) (on_key n) \<noteq> None))
            \<or> on_key n \<in> set (bt_seen b))"
    using r unfolding batch_set_def Let_def b0_def [symmetric] by (cases name) (auto split: if_splits)
  then show thesis
  proof cases
    case 1
    then show thesis using refused unfolding b0_def by blast
  next
    case (2 n)
    define found where "found = map_of (sn_entries s) (on_key n)"
    note shape = 2(5) [folded found_def]
    have guards: "bt_failed b = False" "(on_key n = [] \<or> 1024 < length (on_key n)) = False" "(bt_version b = - 1) = False"
        "((record = None \<and> \<not> found \<noteq> None) \<or> (data \<and> (record = None \<or> \<not> found \<noteq> None)) \<or> on_key n \<in> set (bt_seen b)) = False"
      using 2(1,3,4) shape by simp_all
    note run = r [unfolded batch_set_def 2(2) option.case Let_def b0_def [symmetric] found_def [symmetric] guards if_False]
    show thesis
    proof (cases "if found \<noteq> None then Inr (the found) else page_next (bt_tree b)")
      case (Inl x)
      then show thesis using run exhausted unfolding b0_def by simp
    next
      case slot: (Inr slot)
      define old where "old = (if found \<noteq> None then page_find (sn_tree s) slot else None)"
      define n1 where "n1 = (if found \<noteq> None then fst (the old) else n)"
      define before where "before = (if found \<noteq> None then scene_weight sz (sn_measure s) (on_key n1) (snd (the old)) else Some 0)"
      define after where "after = (case record of None \<Rightarrow> Some 0 | Some r \<Rightarrow> scene_weight sz (sn_measure s) (on_key n1) r)"
      define cost where "cost = sz_event sz + sz_name sz + length (on_key n1) + (case record of None \<Rightarrow> 0 | Some r \<Rightarrow> sn_measure s r)"
      define ev where "ev = \<lparr>ev_name = Some n1, ev_record = record, ev_version = bt_version b + 1, ev_data = data, ev_bytes = cost, ev_stored = now\<rparr>"
      define full where "full \<longleftrightarrow> before = None \<or> after = None \<or> the after > lm_bytes (sn_limits s)
                \<or> bt_bytes b - the before > lm_bytes (sn_limits s) - the after
                \<or> (\<not> found \<noteq> None \<and> length (sn_entries s) - length (bt_removed b) = lm_records (sn_limits s))"
      note run' = run [unfolded slot sum.case old_def [symmetric], unfolded n1_def [symmetric], unfolded before_def [symmetric] after_def [symmetric],
          unfolded full_def [symmetric], unfolded cost_def [symmetric], unfolded ev_def [symmetric]]
      show thesis
      proof (cases "\<exists>c. (out, b', s') = (Scene_refused c, b0, s)")
        case True
        then show thesis using refused unfolding b0_def by blast
      next
        case False
        obtain whole b1 s1 where st: "batch_store gr ev (found \<noteq> None) slot (bt_bytes b - the before + the after) b0 s = (whole, b1, s1)" by (metis prod_cases3)
        have "\<not> full \<and> out = (if whole then Scene_done () else Scene_thrown) \<and> b1 = b' \<and> s1 = s'"
          using run' False unfolding st by (auto split: if_splits)
        then have full: "\<not> full" "out = (if whole then Scene_done () else Scene_thrown)" "b1 = b'" "s1 = s'" by blast+
        show thesis
        proof (rule admitted [OF 2(1,2) _ _ 2(4) found_def _ _ _ slot old_def n1_def before_def after_def _ _ _ _ _ ev_def [unfolded cost_def]])
          show "batch_store gr ev (found \<noteq> None) slot (bt_bytes b - the before + the after) (b\<lparr>bt_failed := True\<rparr>) s = (whole, b', s')"
            using st full(3,4) unfolding b0_def by simp
          show "out = (if whole then Scene_done () else Scene_thrown)" by (rule full(2))
        qed (use 2(3) shape full(1) in \<open>auto simp: full_def\<close>)
      qed
    qed
  qed
qed

lemma drop_drop_append: "\<exists>j. drop k (drop k0 xs @ ys) = drop j (xs @ ys)"
proof (cases "k0 \<le> length xs")
  case True
  then have "drop k (drop k0 xs @ ys) = drop (k + k0) (xs @ ys)" by (metis drop_append drop_drop drop_0 diff_is_0_eq)
  then show ?thesis by blast
next
  case False
  then have "drop k (drop k0 xs @ ys) = drop (length xs + k) (xs @ ys)" by simp
  then show ?thesis by blast
qed

lemma staged_more:
  assumes "staged s0 b s" "bt_added b' = bt_added b \<or> (on_key n \<notin> fst ` set (sn_entries s) \<and> bt_added b' = bt_added b @ [n])"
    "s' = s \<or> (bt_added b' = bt_added b @ [n] \<and> s' = s\<lparr>sn_entries := (on_key n, slot) # sn_entries s\<rparr>)"
  shows "staged s0 b' s'"
proof -
  obtain more where m: "s = s0\<lparr>sn_editing := True, sn_entries := more @ sn_entries s0\<rparr>" "fst ` set more \<subseteq> on_key ` set (bt_added b)"
      "on_key ` set (bt_added b) \<inter> fst ` set (sn_entries s0) = {}" using assms(1) by (auto simp: staged_def)
  have a: "on_key ` set (bt_added b) \<subseteq> on_key ` set (bt_added b')" using assms(2) by auto
  have "fst ` set (sn_entries s0) \<subseteq> fst ` set (sn_entries s)" using m(1) by auto
  then have dis: "on_key ` set (bt_added b') \<inter> fst ` set (sn_entries s0) = {}" using assms(2)
  proof (elim disjE conjE)
    assume "bt_added b' = bt_added b"
    then show ?thesis using m(3) by simp
  next
    assume "fst ` set (sn_entries s0) \<subseteq> fst ` set (sn_entries s)" "on_key n \<notin> fst ` set (sn_entries s)" "bt_added b' = bt_added b @ [n]"
    then show ?thesis using m(3) by (simp only: set_append image_Un list.set image_insert image_empty) blast
  qed
  from assms(3) show ?thesis
  proof
    assume "s' = s"
    then show ?thesis unfolding staged_def using m(1,2) a dis by blast
  next
    assume n: "bt_added b' = bt_added b @ [n] \<and> s' = s\<lparr>sn_entries := (on_key n, slot) # sn_entries s\<rparr>"
    then have "s' = s0\<lparr>sn_editing := True, sn_entries := ((on_key n, slot) # more) @ sn_entries s0\<rparr>" using m(1) by simp
    moreover have "fst ` set ((on_key n, slot) # more) \<subseteq> on_key ` set (bt_added b')" using n m(2) by auto
    ultimately show ?thesis unfolding staged_def using dis by blast
  qed
qed

lemma assembled_push:
  assumes ok: "scene_ok sz s0" and st: "staged s0 b s" and as: "assembled sz s0 b s"
    and n: "on_key n \<noteq> []" "length (on_key n) \<le> 1024" "bt_version b \<noteq> - 1" "found = map_of (sn_entries s) (on_key n)"
      "record = None \<longrightarrow> found \<noteq> None" "data \<longrightarrow> record \<noteq> None \<and> found \<noteq> None" "on_key n \<notin> set (bt_seen b)"
    and slot: "(if found \<noteq> None then Inr (the found) else page_next (bt_tree b)) = Inr slot"
      "old = (if found \<noteq> None then page_find (sn_tree s) slot else None)" "n1 = (if found \<noteq> None then fst (the old) else n)"
    and room: "before = (if found \<noteq> None then scene_weight sz (sn_measure s) (on_key n1) (snd (the old)) else Some 0)"
      "after = (case record of None \<Rightarrow> Some 0 | Some r \<Rightarrow> scene_weight sz (sn_measure s) (on_key n1) r)"
      "after \<noteq> None" "the after \<le> lm_bytes (sn_limits s)" "bt_bytes b - the before \<le> lm_bytes (sn_limits s) - the after"
      "found = None \<longrightarrow> length (sn_entries s) - length (bt_removed b) \<noteq> lm_records (sn_limits s)"
    and ev: "ev_name ev = Some n1" "ev_record ev = record" "ev_version ev = bt_version b + 1" "ev_data ev = data"
    and t: "page_prepare rs ps slot (bt_tree b) = (True, t)"
    and b': "k = scene_evict (sn_limits s) retention now (bt_history b @ [ev]) (bt_backlog b + ev_bytes ev)"
      "bt_events b' = bt_events b @ [ev]" "set (bt_seen b') = insert (on_key n1) (set (bt_seen b))" "bt_added b' = (if found \<noteq> None then bt_added b else bt_added b @ [n1])"
      "bt_removed b' = (if found \<noteq> None \<and> record = None then bt_removed b @ [n1] else bt_removed b)"
      "bt_tree b' = (case record of Some r \<Rightarrow> page_set slot (if found \<noteq> None then None else Some n1) r t | None \<Rightarrow> page_erase slot t)"
      "bt_history b' = drop k (bt_history b @ [ev])" "bt_backlog b' = bt_backlog b + ev_bytes ev - sum_list (map ev_bytes (take k (bt_history b @ [ev])))"
      "bt_bytes b' = bt_bytes b - the before + the after" "bt_version b' = bt_version b + 1"
    and s': "sn_entries s' = (if found \<noteq> None then sn_entries s else (on_key n1, slot) # sn_entries s)"
  shows "assembled sz s0 b' s' \<and> on_key n1 = on_key n"
proof -
  let ?k = "on_key n" and ?live = "dropped (bt_removed b) (sn_entries s)" and ?m = "fold apply_event (bt_events b) (scene_map s0)"
  obtain more where m: "s = s0\<lparr>sn_editing := True, sn_entries := more @ sn_entries s0\<rparr>" "fst ` set more \<subseteq> on_key ` set (bt_added b)"
    using st by (auto simp: staged_def)
  note a = as [unfolded assembled_def]
  have dir: "dir_ok ?live (bt_tree b)" "dir_map ?live (bt_tree b) = ?m" and con: "content_ok sz (sn_measure s0) (sn_limits s0) ?m (bt_bytes b)"
    and hist: "history_ok (sn_limits s0) (bt_history b) (bt_version b) (bt_backlog b)" using a by simp_all
  have parts: "unat (bt_version b) = unat (sn_version s0) + length (bt_events b)" "\<forall>i < length (bt_events b). unat (ev_version (bt_events b ! i)) = unat (sn_version s0) + i + 1"
      "list_all event_ok (bt_events b)" "\<forall>e \<in> set (bt_events b). ev_data e \<longrightarrow> scene_map s0 (event_name e) \<noteq> None"
      "set (bt_seen b) = event_name ` set (bt_events b)" "distinct (map event_name (bt_events b))" "distinct (map on_key (bt_removed b))"
      "on_key ` set (bt_removed b) \<subseteq> fst ` set (sn_entries s)" "on_key ` set (bt_removed b) \<subseteq> set (bt_seen b)"
      "on_key ` set (bt_added b) \<subseteq> set (bt_seen b)" "distinct (map fst (sn_entries s))"
    by (insert a [unfolded le_inf_iff]) (elim conjE, assumption)+
  have sf: "sn_measure s = sn_measure s0" "sn_limits s = sn_limits s0" "sn_tree s = sn_tree s0" using m(1) by simp_all
  have seen: "?k \<notin> event_name ` set (bt_events b)" "?k \<notin> on_key ` set (bt_removed b)" "?k \<notin> on_key ` set (bt_added b)" using n(7) parts(5,9,10) by auto
  have mk: "?m ?k = scene_map s0 ?k" by (rule fold_event_other [OF seen(1)])
  have "?k \<notin> fst ` set more" using m(2) seen(3) by blast
  then have "map_of more ?k = None" by (simp add: map_of_eq_None_iff)
  then have f0: "found = map_of (sn_entries s0) ?k" using n(4) m(1) by (simp add: map_add_def)
  have live: "map_of ?live ?k = found" using seen(2) n(4) by (simp add: dropped_map)
  have "on_key n1 = ?k \<and> (found \<noteq> None \<longrightarrow> scene_map s0 ?k = Some (snd (the old)))"
  proof (cases found)
    case None
    then show ?thesis using slot(3) by simp
  next
    case (Some x)
    have "x = slot" using slot(1) Some by simp
    obtain q r where "page_find (sn_tree s0) x = Some (q, r)" "on_key q = ?k" "scene_map s0 ?k = Some r"
      by (rule dir_found [of "sn_entries s0" "sn_tree s0" ?k x]) (use ok Some f0 in \<open>auto simp: scene_ok_def\<close>)
    then show ?thesis using slot(2,3) Some \<open>x = slot\<close> sf by simp
  qed
  then have n1: "on_key n1 = ?k" and old: "found \<noteq> None \<Longrightarrow> scene_map s0 ?k = Some (snd (the old))" by blast+
  have none: "found = None \<longleftrightarrow> ?m ?k = None" using mk old dir_none [of "sn_entries s0" ?k "sn_tree s0"] f0 by (metis option.distinct(1))
  have bo: "before = (case ?m ?k of None \<Rightarrow> Some 0 | Some r \<Rightarrow> scene_weight sz (sn_measure s0) ?k r)"
    using room(1) old mk none n1 sf by (cases found) auto
  have ao: "after = (case record of None \<Rightarrow> Some 0 | Some r \<Rightarrow> scene_weight sz (sn_measure s0) ?k r)" using room(2) unfolding n1 sf .
  have "length ?live = length (sn_entries s) - length (bt_removed b)" by (rule dropped_length [OF parts(7,8,11)])
  then have "?m ?k = None \<longrightarrow> card (dom ?m) < lm_records (sn_limits s0)"
    using room(6) none dir_size [OF dir(1)] con sf unfolding dir(2) content_ok_def by auto
  then have con': "content_ok sz (sn_measure s0) (sn_limits s0) (?m(?k := record)) (bt_bytes b')"
    using content_change [OF con bo ao room(3)] room(4,5) n(1,2) sf b'(9) by simp
  have m': "fold apply_event (bt_events b') (scene_map s0) = ?m(?k := record)" using b'(2) ev n1 by (simp add: apply_event_def)
  note dp = dir_prepare [OF dir(1) t]
  have dir': "dir_ok (dropped (bt_removed b') (sn_entries s')) (bt_tree b') \<and> dir_map (dropped (bt_removed b') (sn_entries s')) (bt_tree b') = ?m(?k := record)"
  proof (cases found)
    case None
    then obtain r where r: "record = Some r" using n(5) by auto
    have v: "slot \<noteq> - 1" "page_find t slot = None"
      using pages_index.fresh_vacant [of "bt_tree b" slot] slot(1) None dir(1) dp(4) by (auto simp: dir_ok_def)
    have "dropped (bt_removed b') (sn_entries s') = (on_key n1, slot) # ?live" using None b'(5) s' seen(2) n1 by (simp add: dropped_filter)
    then show ?thesis using dir_add [OF dp(1) _ v(2) _ v(1), of n1 r] dp(2,3) live None n1 r dir(2) b'(6) by simp
  next
    case (Some x)
    then have x: "slot = x" "map_of ?live ?k = Some slot" using slot(1) live by simp_all
    show ?thesis
    proof (cases "record")
      case None
      have "dropped (bt_removed b') (sn_entries s') = AList.delete ?k ?live" using Some None b'(5) s' n1 by (simp add: dropped_snoc)
      then show ?thesis using dir_remove [OF dp(1) x(2)] None b'(6) dp(2) dir(2) by simp
    next
      case (Some r)
      have "dropped (bt_removed b') (sn_entries s') = ?live" using Some \<open>found = Some x\<close> b'(5) s' by simp
      then show ?thesis using dir_replace [OF dp(1) x(2), of r] dp(2,3) Some \<open>found = Some x\<close> b'(6) dir(2) by simp
    qed
  qed
  have eo: "event_ok ev" using ev n(6) by (simp add: event_ok_def)
  have hist': "history_ok (sn_limits s0) (bt_history b') (bt_version b') (bt_backlog b')"
    using history_push [OF hist n(3) ev(3) eo b'(1) [unfolded sf]] b'(7,8,10) by simp
  have "\<exists>j. bt_history b = drop j (sn_history s0 @ bt_events b)" using a by (elim conjE)
  then obtain j where "bt_history b = drop j (sn_history s0 @ bt_events b)" ..
  then have kept: "\<exists>j. bt_history b' = drop j (sn_history s0 @ bt_events b')" using drop_drop_append [of k j "sn_history s0 @ bt_events b" "[ev]"] b'(2,7) by simp
  have ver: "unat (bt_version b') = unat (sn_version s0) + length (bt_events b')" using unat_next [OF n(3)] parts(1) b'(2,10) by simp
  have vers: "unat (ev_version (bt_events b' ! i)) = unat (sn_version s0) + i + 1" if "i < length (bt_events b')" for i
  proof (cases "i < length (bt_events b)")
    case True
    then show ?thesis using parts(2) b'(2) by (simp add: nth_append)
  next
    case False
    then have "bt_events b' ! i = ev" "i = length (bt_events b)" using that b'(2) by (simp_all add: nth_append)
    then show ?thesis using ver b'(2,10) ev(3) by simp
  qed
  have data': "\<forall>e \<in> set (bt_events b'). ev_data e \<longrightarrow> scene_map s0 (event_name e) \<noteq> None" using parts(4) b'(2) ev n(6) old n1 by auto
  have keys: "set (bt_seen b') = event_name ` set (bt_events b')" "distinct (map event_name (bt_events b'))" using parts(5,6) b'(2,3) ev n1 seen(1) by auto
  have at: "found \<noteq> None \<longleftrightarrow> ?k \<in> fst ` set (sn_entries s)" using n(4) by (simp add: map_of_eq_None_iff)
  have rem: "distinct (map on_key (bt_removed b'))" using parts(7) b'(5) n1 seen(2) by auto
  have rems: "on_key ` set (bt_removed b') \<subseteq> fst ` set (sn_entries s') \<inter> set (bt_seen b')"
    using parts(8,9) b'(3,5) s' n1 at by (auto split: if_splits)
  have "on_key ` set (bt_added b') \<subseteq> set (bt_seen b')" using parts(10) b'(3,4) by auto
  moreover have "distinct (map fst (sn_entries s'))" using parts(11) s' n1 at by auto
  moreover have "list_all event_ok (bt_events b')" using parts(3) eo b'(2) by simp
  moreover have "\<forall>i < length (bt_events b'). unat (ev_version (bt_events b' ! i)) = unat (sn_version s0) + i + 1" using vers by blast
  ultimately show ?thesis using conjunct1 [OF dir'] conjunct2 [OF dir'] con' hist' kept ver data' keys rem rems n1 unfolding assembled_def m'
    by (intro conjI)
qed

end
