(* ===== verification/Scene_Rules.thy ===== *)
theory Scene_Rules
  imports Scene_Batch "HOL-Library.Code_Target_Nat"
begin

text \<open>
  Any sequence of changes and batches, and what a scene promises its readers.
\<close>

lemma batch_set_spec:
  assumes ok: "scene_ok sz s0" and st: "staged s0 b s" and as: "\<not> bt_failed b \<Longrightarrow> assembled sz s0 b s"
    and r: "batch_set sz gr name record now data b s = (out, b', s')"
  shows "staged s0 b' s' \<and> bt_failed b' = (out \<noteq> Scene_done ()) \<and> (out = Scene_done () \<longrightarrow> assembled sz s0 b' s' \<and> name \<noteq> None
    \<and> (\<exists>ev. bt_events b' = bt_events b @ [ev] \<and> event_name ev = on_key (the name) \<and> ev_record ev = record \<and> ev_data ev = data))"
  using r
proof (cases rule: batch_set_cases)
  case (refused c)
  then show ?thesis using st by (simp add: staged_def)
next
  case exhausted
  then show ?thesis using st by (simp add: staged_def)
next
  case (admitted n found slot old n1 before after ev whole)
  have n1: "n1 = n" if "found = None" using admitted(12) that by simp
  have nk: "on_key n \<notin> fst ` set (sn_entries s)" if "found = None" using admitted(6) that map_of_eq_None_iff [of "sn_entries s" "on_key n"] by simp
  let ?b = "b\<lparr>bt_failed := True\<rparr>"
  have stb: "staged s0 ?b s" using st by (simp add: staged_def)
  obtain good t where p: "page_prepare (sg_roots gr) (sg_pages gr) slot (bt_tree ?b) = (good, t)" by fastforce
  have en: "ev_name ev = Some n1" "ev_record ev = record" "ev_version ev = bt_version b + 1" "ev_data ev = data" using admitted(20) by simp_all
  from admitted(21) p en(1) show ?thesis
  proof (cases rule: batch_store_cases)
    case failed
    have "staged s0 b' s'"
      by (rule staged_more [OF stb, of b' n1 s' slot]) (use failed(3,4) n1 nk in auto)
    then show ?thesis using failed(1,2) admitted(22) by simp
  next
    case (stored k)
    have "staged s0 b' s'"
      by (rule staged_more [OF stb, of b' n1 s' slot]) (use stored(4,5) n1 nk in auto)
    moreover have "assembled sz s0 b' s' \<and> on_key n1 = on_key n"
    proof (rule assembled_push [OF ok st as [OF admitted(1)] admitted(3-14) admitted(16-19) en])
      show "page_prepare (sg_roots gr) (sg_pages gr) slot (bt_tree b) = (True, t)" using p stored(2) by simp
      show "k = scene_evict (sn_limits s) (bt_retention b) (ev_stored ev) (bt_history b @ [ev]) (bt_backlog b + ev_bytes ev)" using stored(3) by simp
    qed (use stored(4,5) en in simp_all)
    moreover have "out = Scene_done ()" "bt_failed b' = False" "bt_events b' = bt_events b @ [ev]" using stored(1,4) admitted(22) by simp_all
    ultimately show ?thesis using en admitted(2) by simp
  qed
qed

subsection \<open>Runs\<close>

text \<open>Operations of the callers, each committed or abandoned; a batch that has failed is abandoned.\<close>

type_synonym 'r set_args = "scene_grants \<times> origin_name option \<times> 'r option \<times> int \<times> bool"

datatype 'r scene_op = Edit_op "'r set_args" nat bool | Batch_op bool nat "'r set_args list" bool

fun batch_sets :: "scene_sizes \<Rightarrow> 'r set_args list \<Rightarrow> 'r scene_batch \<Rightarrow> 'r scene \<Rightarrow> 'r scene_batch \<times> 'r scene" where
  "batch_sets sz [] b s = (b, s)"
| "batch_sets sz ((gr, name, record, now, data) # xs) b s = (case batch_set sz gr name record now data b s of (out, b', s') \<Rightarrow> batch_sets sz xs b' s')"

fun scene_step :: "scene_sizes \<Rightarrow> 'r scene_op \<Rightarrow> 'r scene \<Rightarrow> (origin_name, 'r) event list \<times> 'r scene" where
  "scene_step sz (Edit_op (gr, name, record, now, data) retention go) s =
     (case scene_prepare sz gr name record now data retention s of
        (Scene_done e, s') \<Rightarrow> if go then (case scene_commit e s' of (ret, s'') \<Rightarrow> ([rt_event ret], s'')) else ([], scene_abort e s')
      | (_, s') \<Rightarrow> ([], s'))"
| "scene_step sz (Batch_op copied retention xs go) s =
     (case scene_batch_new copied retention s of
        (Scene_done b, s') \<Rightarrow>
          (case batch_sets sz xs b s' of (b', s'') \<Rightarrow>
             if go \<and> \<not> bt_failed b' then (case batch_commit b' s'' of (ret, s3) \<Rightarrow> (br_events ret, s3)) else ([], batch_abort b' s''))
      | (_, s') \<Rightarrow> ([], s'))"

fun scene_run :: "scene_sizes \<Rightarrow> 'r scene_op list \<Rightarrow> 'r scene \<Rightarrow> (origin_name, 'r) event list \<times> 'r scene" where
  "scene_run sz [] s = ([], s)"
| "scene_run sz (x # xs) s = (case scene_step sz x s of (evs, s') \<Rightarrow> case scene_run sz xs s' of (evs', s'') \<Rightarrow> (evs @ evs', s''))"

text \<open>A change of the data alone finds a record.\<close>

fun data_ok :: "(string \<rightharpoonup> 'r) \<Rightarrow> (origin_name, 'r) event list \<Rightarrow> bool" where
  "data_ok m [] \<longleftrightarrow> True"
| "data_ok m (e # es) \<longleftrightarrow> (ev_data e \<longrightarrow> m (event_name e) \<noteq> None) \<and> data_ok (apply_event e m) es"

lemma data_ok_append: "data_ok m (xs @ ys) \<longleftrightarrow> data_ok m xs \<and> data_ok (fold apply_event xs m) ys"
  by (induction xs arbitrary: m) auto

lemma data_ok_distinct:
  assumes "distinct (map event_name evs)" "\<forall>e \<in> set evs. ev_data e \<longrightarrow> m (event_name e) \<noteq> None"
  shows "data_ok m evs"
  using assms
proof (induction evs arbitrary: m)
  case (Cons e es)
  have "apply_event e m (event_name x) = m (event_name x)" if "x \<in> set es" for x
  proof -
    have "event_name x \<in> event_name ` set es" using that by (rule imageI)
    then have "event_name x \<noteq> event_name e" using Cons.prems(1) by (metis distinct.simps(2) list.set_map list.simps(9))
    then show ?thesis by (simp add: apply_event_def)
  qed
  then have "data_ok (apply_event e m) es" using Cons by auto
  then show ?case using Cons.prems(2) by simp
qed simp

text \<open>The events take the scene from one state to the other, one version each, and the history ends with what is kept of them.\<close>

definition advances :: "'r scene \<Rightarrow> (origin_name, 'r) event list \<Rightarrow> 'r scene \<Rightarrow> bool" where
  "advances s evs s' \<longleftrightarrow> unat (sn_version s') = unat (sn_version s) + length evs
     \<and> (\<forall>i < length evs. unat (ev_version (evs ! i)) = unat (sn_version s) + i + 1) \<and> list_all event_ok evs \<and> data_ok (scene_map s) evs
     \<and> scene_map s' = fold apply_event evs (scene_map s) \<and> (\<exists>k. sn_history s' = drop k (sn_history s @ evs))
     \<and> sn_limits s' = sn_limits s \<and> sn_measure s' = sn_measure s"

lemma advances_same: "same_scene s s' \<Longrightarrow> advances s [] s'"
  unfolding advances_def same_scene_def by (auto intro: exI [of _ 0])

lemma advances_commit: "commits s ev s' \<Longrightarrow> advances s [ev] s'"
  unfolding commits_def advances_def by (auto simp: unat_next apply_event_def)

lemma advances_trans:
  assumes "advances s xs s1" "advances s1 ys s2"
  shows "advances s (xs @ ys) s2"
proof -
  note a = assms [unfolded advances_def]
  have v: "unat (ev_version ((xs @ ys) ! i)) = unat (sn_version s) + i + 1" if "i < length (xs @ ys)" for i
  proof (cases "i < length xs")
    case True
    then show ?thesis using a(1) by (simp add: nth_append)
  next
    case False
    then have "unat (ev_version (ys ! (i - length xs))) = unat (sn_version s1) + (i - length xs) + 1" using a(2) that by simp
    then show ?thesis using a(1) False by (simp add: nth_append)
  qed
  obtain k0 k where "sn_history s1 = drop k0 (sn_history s @ xs)" "sn_history s2 = drop k (sn_history s1 @ ys)" using a by blast
  then have "\<exists>j. sn_history s2 = drop j (sn_history s @ xs @ ys)" using drop_drop_append [of k k0 "sn_history s @ xs" ys] by simp
  then show ?thesis using a v unfolding advances_def by (simp add: data_ok_append)
qed

lemma batch_sets_spec:
  assumes "scene_ok sz s0" "staged s0 b s" "\<not> bt_failed b \<Longrightarrow> assembled sz s0 b s" "batch_sets sz xs b s = (b', s')"
  shows "staged s0 b' s' \<and> (\<not> bt_failed b' \<longrightarrow> assembled sz s0 b' s')"
  using assms(2-)
proof (induction xs arbitrary: b s)
  case (Cons x xs)
  obtain gr name "record" now data where x: "x = (gr, name, record, now, data)" by (metis prod_cases5)
  obtain out b1 s1 where r: "batch_set sz gr name record now data b s = (out, b1, s1)" by (metis prod_cases3)
  note sp = batch_set_spec [OF assms(1) Cons.prems(1,2) r]
  have "batch_sets sz xs b1 s1 = (b', s')" using Cons.prems(3) r by (simp add: x)
  then show ?case using Cons.IH [of b1 s1] sp by blast
qed simp

lemma batch_advances:
  assumes ok: "scene_ok sz s0" and st: "staged s0 b s" and as: "assembled sz s0 b s" and c: "batch_commit b s = (ret, s')"
  shows "scene_ok sz s' \<and> advances s0 (br_events ret) s'"
proof -
  note sp = batch_commit_spec [OF assms]
  have p: "\<forall>i < length (bt_events b). unat (ev_version (bt_events b ! i)) = unat (sn_version s0) + i + 1" "list_all event_ok (bt_events b)"
      "\<forall>e \<in> set (bt_events b). ev_data e \<longrightarrow> scene_map s0 (event_name e) \<noteq> None" "distinct (map event_name (bt_events b))"
    by (insert as [unfolded assembled_def]) (elim conjE, assumption)+
  have "data_ok (scene_map s0) (bt_events b)" by (rule data_ok_distinct [OF p(4,3)])
  then show ?thesis using sp p(1,2) unfolding advances_def by simp
qed

lemma scene_step_spec:
  assumes ok: "scene_ok sz s" and r: "scene_step sz x s = (evs, s')"
  shows "scene_ok sz s' \<and> advances s evs s'"
proof (cases x)
  case (Edit_op args retention go)
  obtain gr name "record" now data where x: "args = (gr, name, record, now, data)" by (metis prod_cases5)
  obtain out s1 where p: "scene_prepare sz gr name record now data retention s = (out, s1)" by fastforce
  note sp = scene_prepare_spec [OF p ok]
  show ?thesis
  proof (cases "\<exists>e. out = Scene_done e")
    case True
    then obtain e where e: "out = Scene_done e" ..
    obtain ret s2 where c: "scene_commit e s1 = (ret, s2)" by fastforce
    show ?thesis using r sp(2) [OF e] sp(3) [OF e c] advances_same advances_commit by (auto simp: Edit_op x p e c split: if_splits)
  next
    case False
    then have "evs = [] \<and> s' = s1" using r by (cases out) (auto simp: Edit_op x p)
    then show ?thesis using sp(1) False advances_same by auto
  qed
next
  case (Batch_op copied retention xs go)
  obtain out s1 where n: "scene_batch_new copied retention s = (out, s1)" by fastforce
  show ?thesis
  proof (cases "\<exists>b. out = Scene_done b")
    case True
    then obtain b where b: "out = Scene_done b" ..
    note bn = batch_new_spec [OF ok n [unfolded b]]
    obtain b2 s2 where bs: "batch_sets sz xs b s1 = (b2, s2)" by fastforce
    have st: "staged s b2 s2" "\<not> bt_failed b2 \<Longrightarrow> assembled sz s b2 s2" using batch_sets_spec [OF ok _ _ bs] bn by blast+
    show ?thesis
    proof (cases "go \<and> \<not> bt_failed b2")
      case True
      obtain ret s3 where c: "batch_commit b2 s2 = (ret, s3)" by fastforce
      have "evs = br_events ret" "s' = s3" using r True by (simp_all add: Batch_op n b bs c)
      then show ?thesis using batch_advances [OF ok st(1) st(2) c] True by simp
    next
      case False
      then have "evs = []" "s' = s" using r batch_abort_spec [OF ok st(1)] by (auto simp: Batch_op n b bs)
      then show ?thesis using ok advances_same [of s s] by (simp add: same_scene_def)
    qed
  next
    case False
    have "s1 = s" using n False by (auto simp: scene_batch_new_def split: if_splits)
    then have "evs = [] \<and> s' = s" using r False by (cases out) (auto simp: Batch_op n)
    then show ?thesis using ok advances_same [of s s] by (simp add: same_scene_def)
  qed
qed

lemma scene_run_spec:
  assumes "scene_ok sz s" "scene_run sz ops s = (evs, s')"
  shows "scene_ok sz s' \<and> advances s evs s'"
  using assms
proof (induction ops arbitrary: s evs)
  case Nil
  then show ?case using advances_same [of s s] by (simp add: same_scene_def)
next
  case (Cons x ops)
  obtain e1 s1 where x: "scene_step sz x s = (e1, s1)" by fastforce
  obtain e2 s2 where y: "scene_run sz ops s1 = (e2, s2)" by fastforce
  have "evs = e1 @ e2" "s' = s2" using Cons.prems(2) x y by simp_all
  then show ?case using scene_step_spec [OF Cons.prems(1) x] Cons.IH [of s1 e2] y advances_trans by blast
qed

subsection \<open>Replay\<close>

lemma event_front:
  assumes "events_ok h v" "h \<noteq> []"
  shows "unat (ev_version (hd h)) + (length h - 1) = unat v" "unat (ev_version (hd h) - 1) = unat v - length h"
proof -
  have l: "length h \<le> unat v" using assms(1) by (simp add: events_ok_def)
  have "\<forall>i < length h. unat (ev_version (h ! i)) + (length h - 1 - i) = unat v" using assms(1) unfolding events_ok_def by blast
  from this [rule_format, of 0] show f: "unat (ev_version (hd h)) + (length h - 1) = unat v" using assms(2) by (simp add: hd_conv_nth)
  have "0 < length h" using assms(2) by simp
  then have "1 \<le> unat (ev_version (hd h))" using f l by linarith
  then have "unat (ev_version (hd h) - 1) = unat (ev_version (hd h)) - 1" by (metis unat_minus_one unat_0 not_one_le_zero)
  then show "unat (ev_version (hd h) - 1) = unat v - length h" using f \<open>0 < length h\<close> by linarith
qed

lemma scene_replay_exact:
  assumes ok: "scene_ok sz s" and v: "unat since \<le> unat (sn_version s)"
  defines "d \<equiv> unat (sn_version s) - unat since"
  shows "scene_replay since s = (if d \<le> length (sn_history s) then Scene_done (drop (length (sn_history s) - d) (sn_history s)) else Scene_refused Sn_history)"
proof -
  let ?h = "sn_history s" and ?v = "sn_version s"
  have h: "events_ok ?h ?v" "\<not> sn_editing s" using ok by (simp_all add: scene_ok_def history_ok_def)
  have le: "\<not> since > ?v" using v by (simp add: word_less_nat_alt)
  show ?thesis
  proof (cases "since = ?v")
    case True
    then show ?thesis using h(2) by (simp add: scene_replay_def d_def)
  next
    case False
    then have "unat since \<noteq> unat ?v" by (simp add: word_unat_eq_iff)
    then have d0: "0 < d" using v unfolding d_def by linarith
    show ?thesis
    proof (cases "?h = []")
      case True
      then show ?thesis using h(2) le False d0 by (simp add: scene_replay_def)
    next
      case ne: False
      have l: "length ?h \<le> unat ?v" using h(1) by (simp add: events_ok_def)
      have front: "ev_version (hd ?h) - 1 > since \<longleftrightarrow> length ?h < d"
        unfolding word_less_nat_alt event_front(2) [OF h(1) ne] d_def using v l by linarith
      have ver: "unat (ev_version (?h ! i)) + (length ?h - 1 - i) = unat ?v" if "i < length ?h" for i using h(1) that unfolding events_ok_def by blast
      have dw: "dropWhile (\<lambda>e. \<not> since < ev_version e) ?h = drop (length ?h - d) ?h" if "d \<le> length ?h"
      proof (rule dropWhile_prefix)
        show "\<not> since < ev_version (?h ! i)" if "i < length ?h - d" "i < length ?h" for i
          unfolding word_less_nat_alt using ver [OF that(2)] that d_def v by linarith
        show "\<not> \<not> since < ev_version (?h ! (length ?h - d))" if "length ?h - d < length ?h"
          unfolding word_less_nat_alt not_not using ver [OF that] \<open>d \<le> length ?h\<close> that d_def v by linarith
      qed
      show ?thesis
      proof (cases "d \<le> length ?h")
        case True
        then have "drop (length ?h - d) ?h \<noteq> []" using d0 ne by simp
        then show ?thesis using True h(2) le False ne front unfolding scene_replay_def Let_def dw [OF True] by simp
      next
        case False
        then show ?thesis using h(2) le \<open>since \<noteq> ?v\<close> ne front by (simp add: scene_replay_def)
      qed
    qed
  qed
qed

lemma advances_replay:
  assumes ok: "scene_ok sz s'" and a: "advances s evs s'"
  shows "scene_replay (sn_version s) s' = (if length evs \<le> length (sn_history s') then Scene_done evs else Scene_refused Sn_history)"
proof -
  have v: "unat (sn_version s') = unat (sn_version s) + length evs" using a by (simp add: advances_def)
  obtain k where k: "sn_history s' = drop k (sn_history s @ evs)" using a by (auto simp: advances_def)
  have "drop (length (sn_history s') - length evs) (sn_history s') = evs" if "length evs \<le> length (sn_history s')"
  proof -
    have "k \<le> length (sn_history s) \<or> length evs = 0" using that unfolding k length_drop length_append by linarith
    then show ?thesis unfolding k by auto
  qed
  then show ?thesis using scene_replay_exact [OF ok, of "sn_version s"] v by simp
qed

subsection \<open>Properties\<close>

text \<open>C34: One change of a scene is atomic.  A change that is prepared and committed gives the scene its next version, sets or erases exactly its
  key, hands out one event with the record it replaced, and appends the event to the history, of which only the oldest part is given up; the
  index, the accounting and the limits hold again.  A change that is refused, that throws at whatever allocation, or that is prepared and
  abandoned leaves the contents, the version, the history and the accounting as they were.\<close>

theorem scene_change_atomic:
  assumes "scene_ok sz s" "scene_prepare sz gr name record now data retention s = (out, s')"
  shows "case out of
      Scene_done e \<Rightarrow>
        (case scene_commit e s' of (ret, s'') \<Rightarrow> scene_ok sz s'' \<and> commits s (rt_event ret) s'' \<and> name \<noteq> None
           \<and> scene_map s'' = (scene_map s)(on_key (the name) := record) \<and> rt_record ret = scene_map s (on_key (the name))
           \<and> rt_events ret @ sn_history s'' = sn_history s @ [rt_event ret])
        \<and> scene_ok sz (scene_abort e s') \<and> same_scene s (scene_abort e s')
    | _ \<Rightarrow> scene_ok sz s' \<and> same_scene s s'"
proof (cases out)
  case (Scene_done e)
  obtain ret s'' where c: "scene_commit e s' = (ret, s'')" by fastforce
  note sp = scene_prepare_spec(2) [OF assms(2,1) Scene_done] scene_prepare_spec(3) [OF assms(2,1) Scene_done c]
  then have "scene_map s'' = (scene_map s)(on_key (the name) := record)" unfolding commits_def by simp
  then show ?thesis using sp Scene_done c by simp
qed (use scene_prepare_spec(1) [OF assms(2,1)] in simp_all)

text \<open>C4: A scene replays exactly.  After any sequence of changes and batches, committed or abandoned, a reader of an earlier version gets
  exactly the events since then, in order, which turn the contents it has into the present contents, or is told that the history no longer
  reaches back, exactly when fewer events are kept than have happened.  Point reads and captured views show the present contents at the
  present version, and contents and history stay within their limits.\<close>

theorem scene_replays:
  assumes ok: "scene_ok sz s" and run: "scene_run sz ops s = (evs, s')"
  shows "scene_ok sz s' \<and> unat (sn_version s') = unat (sn_version s) + length evs
    \<and> (case scene_replay (sn_version s) s' of
         Scene_done es \<Rightarrow> es = evs \<and> fold apply_event es (scene_map s) = scene_map s'
       | Scene_refused c \<Rightarrow> c = Sn_history \<and> length (sn_history s') < length evs
       | Scene_thrown \<Rightarrow> False)
    \<and> (case scene_find key s' of
         Scene_done p \<Rightarrow> pt_record p = scene_map s' key \<and> pt_version p = sn_version s' \<and> (pt_name p \<noteq> None \<longrightarrow> on_key (the (pt_name p)) = key)
       | _ \<Rightarrow> False)
    \<and> (case scene_capture s' of
         Scene_done v \<Rightarrow> sv_version v = sn_version s' \<and> map_of (map (\<lambda>(n, x). (on_key n, x)) (view_entries (sv_root v))) = scene_map s'
           \<and> distinct (map (\<lambda>(n, x). on_key n) (view_entries (sv_root v))) \<and> sv_size v = card (dom (scene_map s'))
       | _ \<Rightarrow> False)
    \<and> card (dom (scene_map s')) \<le> lm_records (sn_limits s) \<and> sn_bytes s' \<le> lm_bytes (sn_limits s)
    \<and> length (sn_history s') \<le> lm_history (sn_limits s) \<and> scene_history s' = Scene_done (sn_backlog s') \<and> sn_backlog s' \<le> lm_backlog (sn_limits s)"
proof -
  have ok': "scene_ok sz s'" and adv: "advances s evs s'" using scene_run_spec [OF ok run] by blast+
  have dir: "dir_ok (sn_entries s') (sn_tree s')" and idle: "\<not> sn_editing s'" using ok' by (simp_all add: scene_ok_def)
  have limits: "sn_limits s' = sn_limits s" "scene_map s' = fold apply_event evs (scene_map s)" using adv by (simp_all add: advances_def)
  have "case scene_replay (sn_version s) s' of
         Scene_done es \<Rightarrow> es = evs \<and> fold apply_event es (scene_map s) = scene_map s'
       | Scene_refused c \<Rightarrow> c = Sn_history \<and> length (sn_history s') < length evs
       | Scene_thrown \<Rightarrow> False"
    unfolding advances_replay [OF ok' adv] limits(2) by simp
  moreover have "case scene_find key s' of
         Scene_done p \<Rightarrow> pt_record p = scene_map s' key \<and> pt_version p = sn_version s' \<and> (pt_name p \<noteq> None \<longrightarrow> on_key (the (pt_name p)) = key)
       | _ \<Rightarrow> False"
  proof (cases "map_of (sn_entries s') key")
    case None
    then show ?thesis using idle dir_none [OF None, of "sn_tree s'"] by (simp add: scene_find_def)
  next
    case (Some slot)
    obtain n r where "page_find (sn_tree s') slot = Some (n, r)" "on_key n = key" "scene_map s' key = Some r" by (rule dir_found [OF dir Some])
    then show ?thesis using idle Some by (simp add: scene_find_def)
  qed
  moreover have "case scene_capture s' of
         Scene_done v \<Rightarrow> sv_version v = sn_version s' \<and> map_of (map (\<lambda>(n, x). (on_key n, x)) (view_entries (sv_root v))) = scene_map s'
           \<and> distinct (map (\<lambda>(n, x). on_key n) (view_entries (sv_root v))) \<and> sv_size v = card (dom (scene_map s'))
       | _ \<Rightarrow> False"
  proof -
    have "pages_ok (sn_tree s')" using dir by (simp add: dir_ok_def)
    from view_page_read(1) [OF capture_ok [OF this]] show ?thesis using idle dir_view [OF dir] dir_size [OF dir] by (simp add: scene_capture_def)
  qed
  ultimately show ?thesis
    using ok' adv idle limits(1) by (simp add: scene_ok_def content_ok_def history_ok_def scene_history_def advances_def)
qed

text \<open>Two changes and a batch of a small scene.\<close>

definition sample_sizes :: scene_sizes where
  "sample_sizes = \<lparr>sz_item = 16, sz_name = 32, sz_event = 64, sz_max = 1000000\<rparr>"

definition sample_scene :: "bytes scene" where
  "sample_scene = the (scene_new length \<lparr>lm_records = 4, lm_bytes = 10000, lm_history = 5, lm_backlog = 10000, lm_retention = 600\<rparr>)"

definition sample_grants :: scene_grants where
  "sample_grants = \<lparr>sg_entry = True, sg_roots = \<lambda>_. True, sg_pages = \<lambda>_. True, sg_history = True, sg_retired = True, sg_events = True, sg_seen = True, sg_names = True\<rparr>"

definition sample_name :: "string \<Rightarrow> origin_name" where
  "sample_name k = \<lparr>on_scope = \<lparr>sc_sector = ''prod'', sc_spectrum = ''eu''\<rparr>, on_key = k\<rparr>"

definition sample_ops :: "bytes scene_op list" where
  "sample_ops = [Edit_op (sample_grants, Some (sample_name ''a''), Some [1], 10, False) 5000 True,
     Batch_op True 5000 [(sample_grants, Some (sample_name ''b''), Some [2], 20, False), (sample_grants, Some (sample_name ''a''), None, 20, False)] True,
     Edit_op (sample_grants, Some (sample_name ''b''), Some [3], 30, False) 5000 False]"

lemma sample_scene_ok: "scene_ok sz sample_scene"
  by (rule scene_new_ok [of length "\<lparr>lm_records = 4, lm_bytes = 10000, lm_history = 5, lm_backlog = 10000, lm_retention = 600\<rparr>"])
    (simp add: sample_scene_def scene_new_def)

theorem scene_replays_witness:
  "\<exists>evs s'. scene_run sample_sizes sample_ops sample_scene = (evs, s') \<and> length evs = 3 \<and> scene_replay (sn_version sample_scene) s' = Scene_done evs
    \<and> fold apply_event evs (scene_map sample_scene) = scene_map s' \<and> sn_version s' = 3"
proof -
  obtain evs s' where run: "scene_run sample_sizes sample_ops sample_scene = (evs, s')" by fastforce
  have "length (fst (scene_run sample_sizes sample_ops sample_scene)) = 3 \<and> length (sn_history (snd (scene_run sample_sizes sample_ops sample_scene))) = 3
      \<and> sn_version (snd (scene_run sample_sizes sample_ops sample_scene)) = 3"
    by code_simp
  then have l: "length evs = 3" "length (sn_history s') = 3" "sn_version s' = 3" using run by simp_all
  note r = scene_replays [OF sample_scene_ok run]
  then have "case scene_replay (sn_version sample_scene) s' of
         Scene_done es \<Rightarrow> es = evs \<and> fold apply_event es (scene_map sample_scene) = scene_map s'
       | Scene_refused c \<Rightarrow> c = Sn_history \<and> length (sn_history s') < length evs
       | Scene_thrown \<Rightarrow> False" by blast
  then show ?thesis using run l by (auto split: scene_result.splits)
qed

theorem scene_change_atomic_witness:
  "\<exists>e s'. scene_prepare sample_sizes sample_grants (Some (sample_name ''a'')) (Some [1]) 10 False 5000 sample_scene = (Scene_done e, s')
    \<and> scene_map (snd (scene_commit e s')) = (scene_map sample_scene)(''a'' \<mapsto> [1]) \<and> same_scene sample_scene (scene_abort e s')"
proof -
  obtain out s' where p: "scene_prepare sample_sizes sample_grants (Some (sample_name ''a'')) (Some [1]) 10 False 5000 sample_scene = (out, s')" by fastforce
  have "case fst (scene_prepare sample_sizes sample_grants (Some (sample_name ''a'')) (Some [1]) 10 False 5000 sample_scene) of Scene_done e \<Rightarrow> True | _ \<Rightarrow> False"
    by code_simp
  then obtain e where e: "out = Scene_done e" using p by (auto split: scene_result.splits)
  show ?thesis using scene_change_atomic [OF sample_scene_ok p] p unfolding e by (auto simp: sample_name_def)
qed

end
