(* ===== verification/Comet_Table_Rules.thy ===== *)
theory Comet_Table_Rules
  imports Comet_Table
begin

text \<open>
  The paged dictionary is a map: what edits and publication do to it, and its counters.
\<close>

subsection \<open>Tables as lists of pages\<close>

definition rows_at :: "'r tpage option \<Rightarrow> (string \<times> 'r) list" where
  "rows_at q = (case q of None \<Rightarrow> [] | Some p \<Rightarrow> tp_rows p)"

definition weight_at :: "'r setting \<Rightarrow> 'r tpage option \<Rightarrow> nat" where
  "weight_at st q = (case q of None \<Rightarrow> 0 | Some p \<Rightarrow> table_measure st p)"

definition page_bytes :: "'r setting \<Rightarrow> (string \<times> 'r) list \<Rightarrow> nat" where
  "page_bytes st rs = sum_list (map (\<lambda>(k, r). length k + se_bytes st r) rs)"

definition page_ok :: "'r setting \<Rightarrow> nat \<Rightarrow> 'r tpage option \<Rightarrow> bool" where
  "page_ok st i q \<longleftrightarrow> distinct (map fst (rows_at q)) \<and> (\<forall>k \<in> fst ` set (rows_at q). table_slot st k = i)"

definition shape :: "'r setting \<Rightarrow> 'r tpage option list \<Rightarrow> nat \<Rightarrow> nat \<Rightarrow> nat \<Rightarrow> bool" where
  "shape st ps n b w \<longleftrightarrow> b \<le> size_max \<and> length ps = 256 \<and> (\<forall>i<256. page_ok st i (ps ! i))
     \<and> n = sum_list (map (\<lambda>q. length (rows_at q)) ps) \<and> b = sum_list (map (\<lambda>q. page_bytes st (rows_at q)) ps)
     \<and> w = sum_list (map (weight_at st) ps)"

definition pages_map :: "'r setting \<Rightarrow> 'r tpage option list \<Rightarrow> string \<Rightarrow> 'r option" where
  "pages_map st ps key = map_of (rows_at (ps ! table_slot st key)) key"

lemma rows_at_simps [simp]: "rows_at None = []" "rows_at (Some p) = tp_rows p"
  by (simp_all add: rows_at_def)

lemma weight_at_simps [simp]: "weight_at st None = 0" "weight_at st (Some p) = table_measure st p"
  by (simp_all add: weight_at_def)

lemma table_slot_less [simp]: "table_slot st key < 256"
proof -
  have "(255 :: u64) = mask 8" by (simp add: mask_eq_exp_minus_1)
  then have "table_slot st key = unat (se_hash st key) mod 2 ^ 8" unfolding table_slot_def using unat_and_mask by metis
  then show ?thesis by simp
qed

lemma sum_list_replace:
  assumes "i < length ps"
  shows "sum_list (map f (ps[i := q])) = sum_list (map f ps) - f (ps ! i) + (f q :: nat)" "f (ps ! i) \<le> sum_list (map f ps)"
proof -
  show le: "f (ps ! i) \<le> sum_list (map f ps)" using assms by (simp add: member_le_sum_list)
  show "sum_list (map f (ps[i := q])) = sum_list (map f ps) - f (ps ! i) + f q"
    using sum_list_update [of i "map f ps" "f q"] assms le by (simp add: map_update)
qed

lemma shape_replace:
  assumes "shape st ps n b w" "i < 256" "page_ok st i q" "b - page_bytes st (rows_at (ps ! i)) + page_bytes st (rows_at q) \<le> size_max"
  shows "shape st (ps[i := q]) (n - length (rows_at (ps ! i)) + length (rows_at q))
      (b - page_bytes st (rows_at (ps ! i)) + page_bytes st (rows_at q)) (w - weight_at st (ps ! i) + weight_at st q)"
    "length (rows_at (ps ! i)) \<le> n" "weight_at st (ps ! i) \<le> w"
proof -
  have sh: "length ps = 256" "\<forall>i<256. page_ok st i (ps ! i)" "n = sum_list (map (\<lambda>q. length (rows_at q)) ps)"
    "b = sum_list (map (\<lambda>q. page_bytes st (rows_at q)) ps)" "w = sum_list (map (weight_at st) ps)"
    using assms(1) unfolding shape_def by blast+
  have i: "i < length ps" using assms(2) sh(1) by simp
  note r = sum_list_replace(1) [OF i, of "\<lambda>q. length (rows_at q)" q] sum_list_replace(1) [OF i, of "\<lambda>q. page_bytes st (rows_at q)" q]
    sum_list_replace(1) [OF i, of "weight_at st" q]
  have "\<forall>j<256. page_ok st j (ps[i := q] ! j)" using sh(1,2) assms(2,3) by (simp add: nth_list_update)
  then show "shape st (ps[i := q]) (n - length (rows_at (ps ! i)) + length (rows_at q))
      (b - page_bytes st (rows_at (ps ! i)) + page_bytes st (rows_at q)) (w - weight_at st (ps ! i) + weight_at st q)"
    using assms(4) unfolding shape_def sh(3-5) r by (simp only: length_list_update sh(1) simp_thms)
  show "length (rows_at (ps ! i)) \<le> n" "weight_at st (ps ! i) \<le> w"
    using sum_list_replace(2) [OF i, of "\<lambda>q. length (rows_at q)"] sum_list_replace(2) [OF i, of "weight_at st"] unfolding sh(3-5) by blast+
qed

lemma shape_bytes:
  assumes "shape st ps n b w" "i < 256"
  shows "page_bytes st (rows_at (ps ! i)) \<le> b" "b \<le> size_max"
  using assms sum_list_replace(2) [of i ps "\<lambda>q. page_bytes st (rows_at q)"] by (simp_all add: shape_def)

lemma pages_map_replace:
  assumes "length ps = 256" "page_ok st i q" "page_ok st i (ps ! i)" "i < 256"
  shows "pages_map st (ps[i := q]) k = (if table_slot st k = i then map_of (rows_at q) k else pages_map st ps k)"
  using assms by (auto simp: pages_map_def)

text \<open>The pages a draft stands for: the edited ones over those of its base.\<close>

definition draft_pages :: "'r tdraft \<Rightarrow> 'r tpage option list" where
  "draft_pages d = map (\<lambda>i. case dr_dirty d ! i of Some p \<Rightarrow> Some p | None \<Rightarrow> dr_pages d ! i) [0..<256]"

definition table_ok :: "'r setting \<Rightarrow> 'r table \<Rightarrow> bool" where
  "table_ok st t \<longleftrightarrow> shape st (tb_pages t) (tb_size t) (tb_bytes t) (tb_overhead t)
     \<and> (\<forall>i<256. tb_pages t ! i \<noteq> None \<longrightarrow> rows_at (tb_pages t ! i) \<noteq> [])"

definition tdraft_ok :: "'r setting \<Rightarrow> 'r tdraft \<Rightarrow> bool" where
  "tdraft_ok st d \<longleftrightarrow> shape st (draft_pages d) (dr_size d) (dr_bytes d) (dr_overhead d)
     \<and> length (dr_pages d) = 256 \<and> length (dr_dirty d) = 256 \<and> length (dr_changed d) = 4
     \<and> (\<forall>i<256. bit (dr_changed d ! (i div 64)) (i mod 64) = (dr_dirty d ! i \<noteq> None))
     \<and> (\<forall>i<256. dr_pages d ! i \<noteq> None \<longrightarrow> rows_at (dr_pages d ! i) \<noteq> [])"

abbreviation table_map :: "'r setting \<Rightarrow> 'r table \<Rightarrow> string \<Rightarrow> 'r option" where
  "table_map st t \<equiv> pages_map st (tb_pages t)"

abbreviation draft_map :: "'r setting \<Rightarrow> 'r tdraft \<Rightarrow> string \<Rightarrow> 'r option" where
  "draft_map st d \<equiv> pages_map st (draft_pages d)"

lemma table_find_map: "table_find st key t = table_map st t key"
  by (simp add: table_find_def pages_map_def split: option.split)

lemma draft_pages_length [simp]: "length (draft_pages d) = 256"
  by (simp add: draft_pages_def)

lemma draft_pages_nth: "i < 256 \<Longrightarrow> draft_pages d ! i = (case dr_dirty d ! i of Some p \<Rightarrow> Some p | None \<Rightarrow> dr_pages d ! i)"
  by (simp add: draft_pages_def split: option.split)

lemma draft_pages_dirty:
  assumes "length (dr_dirty d) = 256" "dr_dirty e = (dr_dirty d)[i := Some p]" "dr_pages e = dr_pages d"
  shows "draft_pages e = (draft_pages d)[i := Some p]"
proof (rule nth_equalityI)
  fix j
  assume "j < length (draft_pages e)"
  then have "j < 256" by simp
  then show "draft_pages e ! j = (draft_pages d)[i := Some p] ! j" using assms by (cases "j = i"; cases "dr_dirty d ! j") (simp_all add: draft_pages_nth)
qed simp

lemma table_new_ok: "table_ok st table_new" "table_map st table_new = Map.empty"
proof -
  have "sum_list (map f (replicate 256 None)) = 0" if "f None = (0 :: nat)" for f :: "'r tpage option \<Rightarrow> nat"
    using that by (simp add: sum_list_replicate)
  note z = this [of "\<lambda>q. length (rows_at q)"] this [of "\<lambda>q. page_bytes st (rows_at q)"] this [of "weight_at st"]
  show "table_ok st table_new" using z by (simp add: table_ok_def shape_def table_new_def page_ok_def page_bytes_def)
  show "table_map st table_new = Map.empty" by (rule ext) (simp add: table_new_def pages_map_def)
qed

lemma draft_new_ok:
  assumes "table_ok st t"
  shows "tdraft_ok st (draft_new t)" "draft_pages (draft_new t) = tb_pages t"
proof -
  have len: "length (tb_pages t) = 256" using assms by (simp add: table_ok_def shape_def)
  show p: "draft_pages (draft_new t) = tb_pages t" using len by (intro nth_equalityI) (simp_all add: draft_pages_nth draft_new_def)
  have "i div 64 < 4" if "i < 256" for i :: nat using that by simp
  then show "tdraft_ok st (draft_new t)" using assms len unfolding tdraft_ok_def p by (simp add: table_ok_def draft_new_def)
qed

lemma word_of_bit:
  assumes "length ws = 4" "i < 256" "j < 256"
  shows "bit (ws[i div 64 := ws ! (i div 64) OR push_bit (i mod 64) (1 :: u64)] ! (j div 64)) (j mod 64) = (bit (ws ! (j div 64)) (j mod 64) \<or> i = j)"
proof -
  have "i = j \<longleftrightarrow> i div 64 = j div 64 \<and> i mod 64 = j mod 64" by (metis div_mult_mod_eq)
  moreover have "j div 64 < 4" "i div 64 < 4" using assms(2,3) by simp_all
  ultimately show ?thesis using assms(1) by (auto simp: nth_list_update bit_or_iff bit_exp_iff)
qed

lemma draft_edit_ok:
  assumes ok: "tdraft_ok st d" and i: "i < 256"
  shows "tdraft_ok st (draft_edit st i d)" "dr_dirty (draft_edit st i d) ! i \<noteq> None" "draft_map st (draft_edit st i d) = draft_map st d"
    "dr_size (draft_edit st i d) = dr_size d" "dr_bytes (draft_edit st i d) = dr_bytes d"
proof -
  have "tdraft_ok st (draft_edit st i d) \<and> dr_dirty (draft_edit st i d) ! i \<noteq> None \<and> draft_map st (draft_edit st i d) = draft_map st d
      \<and> dr_size (draft_edit st i d) = dr_size d \<and> dr_bytes (draft_edit st i d) = dr_bytes d"
  proof (cases "dr_dirty d ! i")
    case (Some p)
    then show ?thesis using ok by (simp add: draft_edit_def)
  next
    case None
    define page where "page = (case dr_pages d ! i of
        Some p \<Rightarrow> p\<lparr>tp_buckets := se_copy st (length (tp_rows p)) (tp_buckets p)\<rparr> | None \<Rightarrow> \<lparr>tp_rows = [], tp_buckets = se_fresh st\<rparr>)"
    define e where "e = draft_edit st i d"
    have e: "dr_dirty e = (dr_dirty d)[i := Some page]" "dr_pages e = dr_pages d" "dr_size e = dr_size d" "dr_bytes e = dr_bytes d"
      "dr_overhead e = dr_overhead d - weight_at st (dr_pages d ! i) + table_measure st page"
      "dr_changed e = (dr_changed d)[i div 64 := dr_changed d ! (i div 64) OR push_bit (i mod 64) 1]"
      using None by (simp_all add: e_def draft_edit_def page_def Let_def weight_at_def)
    have ob: "draft_pages d ! i = dr_pages d ! i" using None i by (simp add: draft_pages_nth)
    have rows: "tp_rows page = rows_at (draft_pages d ! i)" by (simp add: page_def ob split: option.split)
    have len: "length (dr_dirty d) = 256" and sh: "shape st (draft_pages d) (dr_size d) (dr_bytes d) (dr_overhead d)"
      and ch: "length (dr_changed d) = 4" "\<And>i. i < 256 \<Longrightarrow> bit (dr_changed d ! (i div 64)) (i mod 64) = (dr_dirty d ! i \<noteq> None)"
      using ok unfolding tdraft_ok_def by blast+
    have pk: "page_ok st i (draft_pages d ! i)" using sh i by (simp add: shape_def)
    then have pk': "page_ok st i (Some page)" using rows by (simp add: page_ok_def)
    have dp: "draft_pages e = (draft_pages d)[i := Some page]" using draft_pages_dirty [OF len e(1,2)] .
    have by': "dr_bytes d - page_bytes st (rows_at (draft_pages d ! i)) + page_bytes st (rows_at (Some page)) = dr_bytes d"
      using shape_bytes [OF sh i] rows by simp
    note rep = shape_replace [OF sh i pk', unfolded by', OF shape_bytes(2) [OF sh i]]
    have "shape st (draft_pages e) (dr_size e) (dr_bytes e) (dr_overhead e)"
      using rep(1,2) rows ob unfolding dp e(3,4,5) by simp
    moreover have "bit (dr_changed e ! (j div 64)) (j mod 64) = (dr_dirty e ! j \<noteq> None)" if "j < 256" for j
      unfolding e(1,6) word_of_bit [OF ch(1) i that] ch(2) [OF that] using len that by (cases "i = j") auto
    ultimately have "tdraft_ok st e" using ok e len unfolding tdraft_ok_def by simp
    moreover have "draft_map st e = draft_map st d"
      by (rule ext) (use pages_map_replace [OF _ pk' pk i] rows in \<open>auto simp: dp pages_map_def\<close>)
    ultimately show ?thesis using e len i by (simp add: e_def)
  qed
  then show "tdraft_ok st (draft_edit st i d)" "dr_dirty (draft_edit st i d) ! i \<noteq> None" "draft_map st (draft_edit st i d) = draft_map st d"
    "dr_size (draft_edit st i d) = dr_size d" "dr_bytes (draft_edit st i d) = dr_bytes d" by blast+
qed

subsection \<open>Editing and publishing\<close>

text \<open>Replacing an edited page of a draft.\<close>

lemma draft_replace:
  assumes ok: "tdraft_ok st d" and i: "i < 256" and p: "dr_dirty d ! i = Some p" and q: "page_ok st i (Some q)"
    and e: "dr_dirty e = (dr_dirty d)[i := Some q]" "dr_pages e = dr_pages d" "dr_changed e = dr_changed d"
      "dr_size e = dr_size d - length (tp_rows p) + length (tp_rows q)"
      "dr_bytes e = dr_bytes d - page_bytes st (tp_rows p) + page_bytes st (tp_rows q)"
      "dr_overhead e = dr_overhead d - table_measure st p + table_measure st q" "dr_bytes e \<le> size_max"
  shows "tdraft_ok st e" "draft_map st e k = (if table_slot st k = i then map_of (tp_rows q) k else draft_map st d k)"
proof -
  have len: "length (dr_dirty d) = 256" and sh: "shape st (draft_pages d) (dr_size d) (dr_bytes d) (dr_overhead d)"
    using ok unfolding tdraft_ok_def by blast+
  have dp: "draft_pages e = (draft_pages d)[i := Some q]" using draft_pages_dirty [OF len e(1,2)] .
  have at: "draft_pages d ! i = Some p" using p i by (simp add: draft_pages_nth)
  have pk: "page_ok st i (draft_pages d ! i)" using sh i by (simp add: shape_def)
  have "shape st (draft_pages e) (dr_size e) (dr_bytes e) (dr_overhead e)"
    using shape_replace(1) [OF sh i q] e(7) unfolding dp e(4-6) at by simp
  moreover have "(dr_dirty e ! j \<noteq> None) = (dr_dirty d ! j \<noteq> None)" if "j < 256" for j
    using that p len unfolding e(1) by (cases "j = i") auto
  ultimately show "tdraft_ok st e" using ok len e(2,3) unfolding tdraft_ok_def by (simp add: e(1))
  show "draft_map st e k = (if table_slot st k = i then map_of (tp_rows q) k else draft_map st d k)"
    using pages_map_replace [OF draft_pages_length q pk i, of k] by (simp add: dp)
qed

lemma page_bytes_simps [simp]:
  "page_bytes st [] = 0" "page_bytes st ((k, r) # rs) = length k + se_bytes st r + page_bytes st rs"
  "page_bytes st (rs @ ss) = page_bytes st rs + page_bytes st ss"
  by (simp_all add: page_bytes_def)

lemma page_bytes_update:
  assumes "distinct (map fst rs)" "map_of rs k = Some r"
  shows "page_bytes st (AList.update k x rs) = page_bytes st rs - (length k + se_bytes st r) + (length k + se_bytes st x)"
    "length k + se_bytes st r \<le> page_bytes st rs" "length (AList.update k x rs) = length rs"
proof -
  have "page_bytes st (AList.update k x rs) + (length k + se_bytes st r) = page_bytes st rs + (length k + se_bytes st x)
      \<and> length k + se_bytes st r \<le> page_bytes st rs \<and> length (AList.update k x rs) = length rs"
    using assms by (induction rs) (auto split: if_splits)
  then show "page_bytes st (AList.update k x rs) = page_bytes st rs - (length k + se_bytes st r) + (length k + se_bytes st x)"
    "length k + se_bytes st r \<le> page_bytes st rs" "length (AList.update k x rs) = length rs" by auto
qed

lemma page_bytes_delete:
  assumes "distinct (map fst rs)" "map_of rs k = Some r"
  shows "page_bytes st (AList.delete k rs) = page_bytes st rs - (length k + se_bytes st r)"
    "length (AList.delete k rs) = length rs - 1" "0 < length rs"
proof -
  have "page_bytes st (AList.delete k rs) + (length k + se_bytes st r) = page_bytes st rs \<and> Suc (length (AList.delete k rs)) = length rs"
    using assms
  proof (induction rs)
    case (Cons x rs)
    obtain k' r' where x: "x = (k', r')" by (cases x)
    show ?case
    proof (cases "k' = k")
      case True
      then have "k \<notin> fst ` set rs" using Cons.prems x by auto
      then have "AList.delete k rs = rs" by (simp add: delete_id)
      then show ?thesis using Cons.prems x True by (simp add: AList.delete_eq)
    next
      case False
      then show ?thesis using Cons x by (auto simp: AList.delete_eq)
    qed
  qed simp
  then show "page_bytes st (AList.delete k rs) = page_bytes st rs - (length k + se_bytes st r)"
    "length (AList.delete k rs) = length rs - 1" "0 < length rs" by auto
qed

lemma slot_rows:
  assumes "tdraft_ok st d" "dr_dirty d ! table_slot st key = Some p"
  shows "page_ok st (table_slot st key) (Some p)" "draft_map st d key = map_of (tp_rows p) key"
    "length (tp_rows p) \<le> dr_size d" "page_bytes st (tp_rows p) \<le> dr_bytes d" "table_measure st p \<le> dr_overhead d"
proof -
  let ?i = "table_slot st key"
  have at: "draft_pages d ! ?i = Some p" using assms(2) by (simp add: draft_pages_nth)
  have sh: "shape st (draft_pages d) (dr_size d) (dr_bytes d) (dr_overhead d)" using assms(1) unfolding tdraft_ok_def by blast
  show pk: "page_ok st ?i (Some p)" using sh at unfolding shape_def by (metis table_slot_less)
  show "draft_map st d key = map_of (tp_rows p) key" by (simp add: pages_map_def at)
  show "length (tp_rows p) \<le> dr_size d" "page_bytes st (tp_rows p) \<le> dr_bytes d" "table_measure st p \<le> dr_overhead d"
    using shape_replace(2,3) [OF sh table_slot_less pk] shape_bytes [OF sh table_slot_less [of st key]] unfolding at by simp_all
qed

lemma tdraft_set_ok:
  assumes ok: "tdraft_ok st d" and st: "tdraft_set st key r d = (fine, e)"
  shows "tdraft_ok st e" "draft_map st e = (if fine then (draft_map st d)(key \<mapsto> r) else draft_map st d)"
    "fine \<longleftrightarrow> length key + se_bytes st r + (dr_bytes d - (case draft_map st d key of None \<Rightarrow> 0 | Some o' \<Rightarrow> length key + se_bytes st o')) \<le> size_max"
proof -
  let ?i = "table_slot st key"
  define d1 where "d1 = draft_edit st ?i d"
  note ed = draft_edit_ok [OF ok table_slot_less [of st key], folded d1_def]
  obtain p where p: "dr_dirty d1 ! ?i = Some p" using ed(2) by blast
  note sl = slot_rows [OF ed(1) p]
  have m: "draft_map st d key = map_of (tp_rows p) key" using sl(2) ed(3) by simp
  define previous where "previous = (case map_of (tp_rows p) key of None \<Rightarrow> 0 | Some o' \<Rightarrow> length key + se_bytes st o')"
  have dis: "distinct (map fst (tp_rows p))" and ats: "\<forall>k \<in> fst ` set (tp_rows p). table_slot st k = ?i"
    using sl(1) by (simp_all add: page_ok_def)
  have slim: "dr_bytes d \<le> size_max" using ok by (simp add: tdraft_ok_def shape_def)
  have "tdraft_ok st e \<and> draft_map st e = (if fine then (draft_map st d)(key \<mapsto> r) else draft_map st d)
    \<and> (fine \<longleftrightarrow> length key + se_bytes st r + (dr_bytes d - previous) \<le> size_max)"
  proof (cases "se_bytes st r > size_max - length key")
    case True
    then have "fine = False" "e = d" using st by (simp_all add: tdraft_set_def)
    then show ?thesis using ok True by auto
  next
    case small: False
    show ?thesis
    proof (cases "length key + se_bytes st r > size_max - (dr_bytes d1 - previous)")
      case True
      then have "fine = False" "e = d1" using st small p by (simp_all add: tdraft_set_def Let_def previous_def d1_def)
      then show ?thesis using ed True by auto
    next
      case False
      have fits: "length key + se_bytes st r + (dr_bytes d - previous) \<le> size_max" using False small ed(5) slim by linarith
      show ?thesis
      proof (cases "map_of (tp_rows p) key")
        case (Some r')
        let ?q = "p\<lparr>tp_rows := AList.update key r (tp_rows p)\<rparr>"
        note ub = page_bytes_update(1) [OF dis Some, of st r] page_bytes_update(2) [OF dis Some, of st] page_bytes_update(3) [OF dis Some, of r]
        have e: "fine = True" "e = d1\<lparr>dr_dirty := (dr_dirty d1)[?i := Some ?q], dr_bytes := dr_bytes d1 - previous + (length key + se_bytes st r)\<rparr>"
          using st small False p Some by (simp_all add: tdraft_set_def Let_def previous_def d1_def)
        have pq: "page_ok st ?i (Some ?q)" using dis ats by (simp add: page_ok_def distinct_update dom_update)
        have pr: "previous = length key + se_bytes st r'" using Some by (simp add: previous_def)
        have "dr_size e = dr_size d1 - length (tp_rows p) + length (tp_rows ?q)" using e(2) ub(3) sl(3) by simp
        moreover have "dr_bytes e = dr_bytes d1 - page_bytes st (tp_rows p) + page_bytes st (tp_rows ?q)" using e(2) ub(1,2) sl(4) pr by simp
        moreover have "dr_overhead e = dr_overhead d1 - table_measure st p + table_measure st ?q" using e(2) sl(5) by (simp add: table_measure_def)
        ultimately have "tdraft_ok st e" "\<And>k. draft_map st e k = (if table_slot st k = ?i then map_of (tp_rows ?q) k else draft_map st d1 k)"
          using draft_replace [OF ed(1) table_slot_less p pq, of e] e(2) fits ed(5) by simp_all
        moreover have "map_of (tp_rows ?q) k = (if k = key then Some r else map_of (tp_rows p) k)" for k by (simp add: update_conv)
        moreover have "draft_map st d k = map_of (tp_rows p) k" if "table_slot st k = ?i" for k
          using slot_rows(2) [OF ed(1), of k p] p that ed(3) by simp
        ultimately show ?thesis using e(1) fits ed(3) by auto
      next
        case None
        let ?q = "p\<lparr>tp_rows := tp_rows p @ [(key, r)], tp_buckets := se_grow st (length (tp_rows p)) (tp_buckets p)\<rparr>"
        have e: "fine = True" "e = d1\<lparr>dr_dirty := (dr_dirty d1)[?i := Some ?q], dr_overhead := dr_overhead d1 - table_measure st p + table_measure st ?q,
            dr_size := dr_size d1 + 1, dr_bytes := dr_bytes d1 - previous + (length key + se_bytes st r)\<rparr>"
          using st small False p None by (simp_all add: tdraft_set_def Let_def previous_def d1_def)
        have fresh: "key \<notin> fst ` set (tp_rows p)" using None by (simp add: map_of_eq_None_iff)
        have pq: "page_ok st ?i (Some ?q)" using dis ats fresh by (auto simp: page_ok_def)
        have pr: "previous = 0" using None by (simp add: previous_def)
        have "tdraft_ok st e" "\<And>k. draft_map st e k = (if table_slot st k = ?i then map_of (tp_rows ?q) k else draft_map st d1 k)"
          using draft_replace [OF ed(1) table_slot_less p pq, of e] e(2) pr sl(3,4) fits ed(5) by simp_all
        moreover have "map_of (tp_rows ?q) k = (if k = key then Some r else map_of (tp_rows p) k)" for k
          using None by (simp add: map_add_def split: option.split)
        moreover have "draft_map st d k = map_of (tp_rows p) k" if "table_slot st k = ?i" for k
          using slot_rows(2) [OF ed(1), of k p] p that ed(3) by simp
        ultimately show ?thesis using e(1) fits ed(3) by auto
      qed
    qed
  qed
  then show "tdraft_ok st e" "draft_map st e = (if fine then (draft_map st d)(key \<mapsto> r) else draft_map st d)"
    "fine \<longleftrightarrow> length key + se_bytes st r + (dr_bytes d - (case draft_map st d key of None \<Rightarrow> 0 | Some o' \<Rightarrow> length key + se_bytes st o')) \<le> size_max"
    using m unfolding previous_def by simp_all
qed

lemma draft_erase_ok:
  assumes ok: "tdraft_ok st d"
  shows "tdraft_ok st (draft_erase st key d)" "draft_map st (draft_erase st key d) = (draft_map st d)(key := None)"
proof -
  let ?i = "table_slot st key"
  define d1 where "d1 = draft_edit st ?i d"
  note ed = draft_edit_ok [OF ok table_slot_less [of st key], folded d1_def]
  obtain p where p: "dr_dirty d1 ! ?i = Some p" using ed(2) by blast
  note sl = slot_rows [OF ed(1) p]
  have m: "draft_map st d key = map_of (tp_rows p) key" using sl(2) ed(3) by simp
  have dis: "distinct (map fst (tp_rows p))" and ats: "\<forall>k \<in> fst ` set (tp_rows p). table_slot st k = ?i"
    using sl(1) by (simp_all add: page_ok_def)
  have "tdraft_ok st (draft_erase st key d) \<and> draft_map st (draft_erase st key d) = (draft_map st d)(key := None)"
  proof (cases "dr_dirty d ! ?i = None \<and> (case dr_pages d ! ?i of None \<Rightarrow> True | Some p \<Rightarrow> map_of (tp_rows p) key = None)")
    case True
    then have "draft_map st d key = None" by (simp add: pages_map_def draft_pages_nth split: option.splits)
    then show ?thesis using True ok by (auto simp: draft_erase_def)
  next
    case go: False
    show ?thesis
    proof (cases "map_of (tp_rows p) key")
      case None
      have "draft_erase st key d = d1" using go None p unfolding draft_erase_def Let_def d1_def by (simp only: if_False) simp
      then show ?thesis using ed m None by auto
    next
      case (Some r)
      let ?q = "p\<lparr>tp_rows := AList.delete key (tp_rows p)\<rparr>"
      define e where "e = draft_erase st key d"
      have e: "e = d1\<lparr>dr_bytes := dr_bytes d1 - (length key + se_bytes st r), dr_size := dr_size d1 - 1, dr_dirty := (dr_dirty d1)[?i := Some ?q]\<rparr>"
        using go Some p unfolding e_def draft_erase_def Let_def d1_def by (simp only: if_False) simp
      note db = page_bytes_delete(1) [OF dis Some, of st] page_bytes_delete(2,3) [OF dis Some] page_bytes_update(2) [OF dis Some, of st]
      have qr: "rows_at (Some ?q) = AList.delete key (tp_rows p)" by simp
      have pq: "page_ok st ?i (Some ?q)" unfolding page_ok_def qr
        using distinct_delete [OF dis, of key] ats dom_delete_subset [of key "tp_rows p"] by (meson subsetD)
      have "dr_size e = dr_size d1 - length (tp_rows p) + length (tp_rows ?q)" using e db(2,3) sl(3) by (cases "length (tp_rows p)") simp_all
      moreover have "dr_bytes e = dr_bytes d1 - page_bytes st (tp_rows p) + page_bytes st (tp_rows ?q)" using e db(1,4) sl(4) by simp
      moreover have "dr_overhead e = dr_overhead d1 - table_measure st p + table_measure st ?q" using e sl(5) by (simp add: table_measure_def)
      moreover have "dr_bytes d1 \<le> size_max" using ed(1) by (simp add: tdraft_ok_def shape_def)
      then have "dr_bytes e \<le> size_max" using e by simp
      ultimately have "tdraft_ok st e" "\<And>k. draft_map st e k = (if table_slot st k = ?i then map_of (tp_rows ?q) k else draft_map st d1 k)"
        using draft_replace [OF ed(1) table_slot_less p pq, of e] e by simp_all
      moreover have "map_of (tp_rows ?q) k = (if k = key then None else map_of (tp_rows p) k)" for k by (simp add: delete_conv)
      moreover have "draft_map st d k = map_of (tp_rows p) k" if "table_slot st k = ?i" for k
        using slot_rows(2) [OF ed(1), of k p] p that ed(3) by simp
      ultimately show ?thesis using ed(3) unfolding e_def by auto
    qed
  qed
  then show "tdraft_ok st (draft_erase st key d)" "draft_map st (draft_erase st key d) = (draft_map st d)(key := None)" by blast+
qed

definition finish_slot :: "'r setting \<Rightarrow> 'r tpage option list \<Rightarrow> nat \<Rightarrow> 'r tpage option list \<times> nat \<Rightarrow> 'r tpage option list \<times> nat" where
  "finish_slot st dirty slot acc =
     (let page = the (dirty ! slot)
      in if tp_rows page = [] then ((fst acc)[slot := None], snd acc - table_measure st page) else ((fst acc)[slot := Some page], snd acc))"

lemma finish_group_fold:
  "finish_group st dirty k bits acc = fold (finish_slot st dirty) (map (\<lambda>i. k * 64 + i) (filter (bit bits) [0..<64])) acc"
proof (induction st dirty k bits acc rule: finish_group.induct)
  case (1 st dirty k bits pages overhead)
  show ?case
  proof (cases "bits = 0")
    case True
    then have "filter (bit bits) [0..<64] = []" by (simp add: filter_empty_conv)
    then show ?thesis using True by (subst finish_group.simps) simp
  next
    case False
    let ?slot = "k * 64 + countr_zero bits"
    let ?acc = "if tp_rows (the (dirty ! ?slot)) = [] then (pages[?slot := None], overhead - table_measure st (the (dirty ! ?slot)))
      else (pages[?slot := Some (the (dirty ! ?slot))], overhead)"
    have "finish_group st dirty k bits (pages, overhead) = finish_group st dirty k (bits AND (bits - 1)) ?acc"
      using False by (subst finish_group.simps) (simp add: Let_def)
    also have "\<dots> = fold (finish_slot st dirty) (map (\<lambda>i. k * 64 + i) (filter (bit (bits AND (bits - 1))) [0..<64])) ?acc"
      using 1 [OF False refl refl] by simp
    also have "?acc = finish_slot st dirty ?slot (pages, overhead)" by (simp add: finish_slot_def Let_def)
    finally show ?thesis unfolding filter_set_bits [OF False] by simp
  qed
qed

definition staged :: "nat list \<Rightarrow> 'r tpage option list \<Rightarrow> 'r tpage option list \<Rightarrow> 'r tpage option list" where
  "staged xs E pages = map (\<lambda>i. if i \<in> set xs then E ! i else pages ! i) [0..<256]"

lemma staged_nth: "i < 256 \<Longrightarrow> staged xs E pages ! i = (if i \<in> set xs then E ! i else pages ! i)"
  by (simp add: staged_def)

lemma staged_length [simp]: "length (staged xs E pages) = 256"
  by (simp add: staged_def)

lemma finish_slots:
  assumes "distinct xs" "\<And>x. x \<in> set xs \<Longrightarrow> x < 256 \<and> dirty ! x = E ! x \<and> E ! x \<noteq> None" "shape st (staged xs E pages) n b w" "length pages = 256"
    "\<And>i. i < 256 \<Longrightarrow> i \<notin> set xs \<Longrightarrow> pages ! i \<noteq> None \<Longrightarrow> rows_at (pages ! i) \<noteq> []" "fold (finish_slot st dirty) xs (pages, w) = (pages', w')"
  shows "shape st pages' n b w' \<and> pages_map st pages' = pages_map st (staged xs E pages) \<and> (\<forall>i<256. pages' ! i \<noteq> None \<longrightarrow> rows_at (pages' ! i) \<noteq> [])"
  using assms
proof (induction xs arbitrary: pages w)
  case Nil
  have "staged [] E pages = pages" using Nil.prems(4) by (intro nth_equalityI) (simp_all add: staged_nth)
  then show ?case using Nil.prems by simp
next
  case (Cons x xs)
  obtain p where p: "x < 256" "dirty ! x = Some p" "E ! x = Some p" using Cons.prems(2) [of x] by auto
  have at: "staged (x # xs) E pages ! x = Some p" using p by (simp add: staged_nth)
  have xs: "x \<notin> set xs" "distinct xs" using Cons.prems(1) by simp_all
  have pk: "page_ok st x (staged (x # xs) E pages ! x)" using Cons.prems(3) p(1) by (simp add: shape_def)
  define q where "q = (if tp_rows p = [] then None else Some p)"
  define w1 where "w1 = (if tp_rows p = [] then w - table_measure st p else w)"
  have step: "finish_slot st dirty x (pages, w) = (pages[x := q], w1)" by (simp add: finish_slot_def p q_def w1_def)
  have sg: "staged xs E (pages[x := q]) = (staged (x # xs) E pages)[x := q]"
    using Cons.prems(4) xs(1) p(1) by (intro nth_equalityI) (auto simp: staged_nth nth_list_update)
  have qk: "page_ok st x q" "rows_at q = tp_rows p" using pk unfolding at q_def by (simp_all add: page_ok_def)
  have wq: "w - weight_at st (Some p) + weight_at st q = w1"
    using shape_replace(3) [OF Cons.prems(3) p(1) pk] shape_bytes [OF Cons.prems(3) p(1)] unfolding at q_def w1_def by simp
  have nb: "n - length (rows_at (Some p)) + length (rows_at q) = n" "b - page_bytes st (rows_at (Some p)) + page_bytes st (rows_at q) = b"
    using shape_replace(2) [OF Cons.prems(3) p(1) pk] shape_bytes [OF Cons.prems(3) p(1)] unfolding at qk(2) by simp_all
  have sh: "shape st (staged xs E (pages[x := q])) n b w1"
    using shape_replace(1) [OF Cons.prems(3) p(1) qk(1)] shape_bytes(2) [OF Cons.prems(3) p(1)] unfolding sg at nb wq by simp
  have mp: "pages_map st (staged xs E (pages[x := q])) = pages_map st (staged (x # xs) E pages)"
    by (rule ext) (use pages_map_replace [OF staged_length qk(1) pk p(1)] qk(2) at in \<open>auto simp: sg pages_map_def\<close>)
  have ne: "rows_at (pages[x := q] ! i) \<noteq> []" if "i < 256" "i \<notin> set xs" "pages[x := q] ! i \<noteq> None" for i
    using that Cons.prems(4) Cons.prems(5) [of i] p(1) by (cases "i = x") (auto simp: q_def split: if_splits)
  have "fold (finish_slot st dirty) xs (pages[x := q], w1) = (pages', w')" using Cons.prems(6) step by simp
  then show ?case using Cons.IH [OF xs(2) _ sh _ ne] Cons.prems(2,4) mp by simp
qed

lemma slots_quarter: "map (\<lambda>i. k * 64 + i) (filter (P k) [0..<64]) = filter (\<lambda>j. P (j div 64) (j mod 64)) [k * 64..<Suc k * 64]"
proof -
  have "[k * 64..<Suc k * 64] = map (\<lambda>i. k * 64 + i) [0..<64]" by (rule nth_equalityI) simp_all
  moreover have "filter (\<lambda>i. P ((k * 64 + i) div 64) ((k * 64 + i) mod 64)) [0..<64] = filter (P k) [0..<64]"
    by (rule filter_cong) simp_all
  ultimately show ?thesis by (simp only: filter_map comp_def)
qed

lemma finish_groups:
  "fold (\<lambda>k. finish_group st dirty k (ws ! k)) [0..<n] acc
    = fold (finish_slot st dirty) (filter (\<lambda>j. bit (ws ! (j div 64)) (j mod 64)) [0..<n * 64]) acc"
proof (induction n arbitrary: acc)
  case (Suc n)
  have "[0..<Suc n * 64] = [0..<n * 64] @ [n * 64..<Suc n * 64]" using upt_add_eq_append [of 0 "n * 64" 64] by (simp add: add.commute)
  then show ?case
    using Suc slots_quarter [of n "\<lambda>k. bit (ws ! k)"] by (simp only: upt_Suc le0 if_True fold_append filter_append comp_def finish_group_fold fold.simps id_apply)
qed simp

lemma draft_finish_ok:
  assumes ok: "tdraft_ok st d"
  shows "table_ok st (draft_finish st d)" "table_map st (draft_finish st d) = draft_map st d"
    "tb_size (draft_finish st d) = dr_size d" "tb_bytes (draft_finish st d) = dr_bytes d"
proof -
  define xs where "xs = filter (\<lambda>j. bit (dr_changed d ! (j div 64)) (j mod 64)) [0..<256]"
  obtain pages w where pw: "fold (finish_slot st (dr_dirty d)) xs (dr_pages d, dr_overhead d) = (pages, w)" by fastforce
  have "fold (\<lambda>k. finish_group st (dr_dirty d) k (dr_changed d ! k)) [0..<4] acc = fold (finish_slot st (dr_dirty d)) xs acc" for acc
    using finish_groups [of st "dr_dirty d" "dr_changed d" 4 acc] by (simp only: xs_def) simp
  then have f: "draft_finish st d = \<lparr>tb_pages = pages, tb_size = dr_size d, tb_bytes = dr_bytes d, tb_overhead = w\<rparr>"
    using pw by (simp add: draft_finish_def)
  have D: "shape st (draft_pages d) (dr_size d) (dr_bytes d) (dr_overhead d)" "length (dr_pages d) = 256"
    "\<And>i. i < 256 \<Longrightarrow> bit (dr_changed d ! (i div 64)) (i mod 64) = (dr_dirty d ! i \<noteq> None)"
    "\<And>i. i < 256 \<Longrightarrow> dr_pages d ! i \<noteq> None \<Longrightarrow> rows_at (dr_pages d ! i) \<noteq> []"
    using ok unfolding tdraft_ok_def by blast+
  have in_xs: "i \<in> set xs \<longleftrightarrow> i < 256 \<and> dr_dirty d ! i \<noteq> None" for i using D(3) by (auto simp: xs_def)
  have sg: "staged xs (draft_pages d) (dr_pages d) = draft_pages d"
    by (rule nth_equalityI) (auto simp: staged_nth in_xs draft_pages_nth)
  have "shape st pages (dr_size d) (dr_bytes d) w \<and> pages_map st pages = pages_map st (staged xs (draft_pages d) (dr_pages d))
      \<and> (\<forall>i<256. pages ! i \<noteq> None \<longrightarrow> rows_at (pages ! i) \<noteq> [])"
  proof (rule finish_slots [OF _ _ _ D(2) _ pw])
    show "x < 256 \<and> dr_dirty d ! x = draft_pages d ! x \<and> draft_pages d ! x \<noteq> None" if "x \<in> set xs" for x
      using that by (auto simp: in_xs draft_pages_nth)
  qed (use D(1,4) sg in \<open>auto simp: xs_def\<close>)
  then show "table_ok st (draft_finish st d)" "table_map st (draft_finish st d) = draft_map st d"
    "tb_size (draft_finish st d) = dr_size d" "tb_bytes (draft_finish st d) = dr_bytes d"
    unfolding f sg by (simp_all add: table_ok_def)
qed

subsection \<open>What a table holds\<close>

definition all_rows :: "'r tpage option list \<Rightarrow> (string \<times> 'r) list" where
  "all_rows ps = concat (map rows_at ps)"

lemma table_each_rows: "table_each t = all_rows (tb_pages t)"
  by (simp add: table_each_def all_rows_def rows_at_def [abs_def])

lemma all_rows_sums: "length (all_rows ps) = sum_list (map (\<lambda>q. length (rows_at q)) ps)"
  "page_bytes st (all_rows ps) = sum_list (map (\<lambda>q. page_bytes st (rows_at q)) ps)"
  by (induction ps) (simp_all add: all_rows_def)

lemma all_rows_distinct:
  assumes "\<forall>i<length ps. page_ok st (j + i) (ps ! i)"
  shows "distinct (map fst (all_rows ps))" "k \<in> fst ` set (all_rows ps) \<Longrightarrow> j \<le> table_slot st k"
proof -
  have "distinct (map fst (all_rows ps)) \<and> (\<forall>k \<in> fst ` set (all_rows ps). j \<le> table_slot st k)" using assms
  proof (induction ps arbitrary: j)
    case Nil
    then show ?case by (simp add: all_rows_def)
  next
    case (Cons q ps)
    have q: "page_ok st j q" using Cons.prems by force
    have "\<forall>i<length ps. page_ok st (Suc j + i) (ps ! i)" using Cons.prems by fastforce
    then have ih: "distinct (map fst (all_rows ps))" "\<forall>k \<in> fst ` set (all_rows ps). Suc j \<le> table_slot st k" using Cons.IH by blast+
    have qk: "distinct (map fst (rows_at q))" "\<forall>k \<in> fst ` set (rows_at q). table_slot st k = j" using q by (simp_all add: page_ok_def)
    have "fst ` set (rows_at q) \<inter> fst ` set (all_rows ps) = {}" using ih(2) qk(2) by fastforce
    moreover have "\<forall>k \<in> fst ` set (rows_at q) \<union> fst ` set (all_rows ps). j \<le> table_slot st k" using ih(2) qk(2) by fastforce
    moreover have "all_rows (q # ps) = rows_at q @ all_rows ps" by (simp add: all_rows_def)
    ultimately show ?case using ih(1) qk(1) by (simp add: image_Un)
  qed
  then show "distinct (map fst (all_rows ps))" "k \<in> fst ` set (all_rows ps) \<Longrightarrow> j \<le> table_slot st k" by blast+
qed

lemma all_rows_map:
  assumes "shape st ps n b w"
  shows "distinct (map fst (all_rows ps))" "set (all_rows ps) = {(k, r). pages_map st ps k = Some r}"
    "n = card (dom (pages_map st ps))" "finite (dom (pages_map st ps))" "b = page_bytes st (all_rows ps)"
proof -
  have sh: "length ps = 256" "\<And>i. i < 256 \<Longrightarrow> page_ok st i (ps ! i)" "n = sum_list (map (\<lambda>q. length (rows_at q)) ps)"
    "b = sum_list (map (\<lambda>q. page_bytes st (rows_at q)) ps)" using assms unfolding shape_def by blast+
  show d: "distinct (map fst (all_rows ps))" using all_rows_distinct(1) [of ps st 0] sh(1,2) by simp
  show rows: "set (all_rows ps) = {(k, r). pages_map st ps k = Some r}"
  proof (rule set_eqI, clarify)
    fix k r
    have dis: "distinct (map fst (rows_at (ps ! i)))" "\<forall>k \<in> fst ` set (rows_at (ps ! i)). table_slot st k = i" if "i < 256" for i
      using sh(2) [OF that] by (simp_all add: page_ok_def)
    show "(k, r) \<in> set (all_rows ps) \<longleftrightarrow> (k, r) \<in> {(k, r). pages_map st ps k = Some r}"
    proof
      assume "(k, r) \<in> set (all_rows ps)"
      then obtain i where i: "i < 256" "(k, r) \<in> set (rows_at (ps ! i))" using sh(1) by (auto simp: all_rows_def in_set_conv_nth [of _ ps])
      then have "table_slot st k = i" using dis(2) [OF i(1)] by force
      then show "(k, r) \<in> {(k, r). pages_map st ps k = Some r}" using i dis(1) by (simp add: pages_map_def)
    next
      assume "(k, r) \<in> {(k, r). pages_map st ps k = Some r}"
      then have "(k, r) \<in> set (rows_at (ps ! table_slot st k))" by (simp add: pages_map_def map_of_SomeD)
      moreover have "ps ! table_slot st k \<in> set ps" using sh(1) by simp
      ultimately show "(k, r) \<in> set (all_rows ps)" by (auto simp: all_rows_def)
    qed
  qed
  have dm: "dom (pages_map st ps) = fst ` set (all_rows ps)" unfolding rows by (auto simp: dom_def image_iff)
  then show "finite (dom (pages_map st ps))" by simp
  have "card (fst ` set (all_rows ps)) = length (all_rows ps)" using distinct_card [OF d] by simp
  then show "n = card (dom (pages_map st ps))" using dm all_rows_sums(1) [of ps] sh(3) by simp
  show "b = page_bytes st (all_rows ps)" using all_rows_sums(2) [of st ps] sh(4) by simp
qed

subsection \<open>Properties\<close>

datatype 'r tedit = Edit_set string 'r | Edit_erase string

primrec edit_draft :: "'r setting \<Rightarrow> 'r tedit list \<Rightarrow> 'r tdraft \<Rightarrow> bool \<times> 'r tdraft" where
  "edit_draft st [] d = (True, d)"
| "edit_draft st (e # es) d =
     (case e of
        Edit_set key r \<Rightarrow> (case tdraft_set st key r d of (True, d') \<Rightarrow> edit_draft st es d' | (False, d') \<Rightarrow> (False, d'))
      | Edit_erase key \<Rightarrow> edit_draft st es (draft_erase st key d))"

primrec edit_map :: "'r tedit \<Rightarrow> (string \<rightharpoonup> 'r) \<Rightarrow> (string \<rightharpoonup> 'r)" where
  "edit_map (Edit_set key r) m = m(key \<mapsto> r)"
| "edit_map (Edit_erase key) m = m(key := None)"

lemma edit_draft_ok:
  assumes "tdraft_ok st d" "edit_draft st es d = (fine, e)"
  shows "tdraft_ok st e \<and> (fine \<longrightarrow> draft_map st e = fold edit_map es (draft_map st d))"
  using assms
proof (induction es arbitrary: d)
  case (Cons x es)
  show ?case
  proof (cases x)
    case (Edit_set key r)
    obtain ok d' where s: "tdraft_set st key r d = (ok, d')" by fastforce
    note so = tdraft_set_ok [OF Cons.prems(1) s]
    show ?thesis using Cons.IH [OF so(1)] Cons.prems(2) so(1,2) s Edit_set by (cases ok) (simp_all del: fun_upd_apply)
  next
    case (Edit_erase key)
    note eo = draft_erase_ok [OF Cons.prems(1), of key]
    show ?thesis using Cons.IH [OF eo(1)] Cons.prems(2) eo Edit_erase by (simp del: fun_upd_apply)
  qed
qed simp

text \<open>The byte counter grows at most by what is written, so edits whose total fits in its range are all taken.\<close>

primrec edit_cost :: "'r setting \<Rightarrow> 'r tedit \<Rightarrow> nat" where
  "edit_cost st (Edit_set key r) = length key + se_bytes st r"
| "edit_cost st (Edit_erase key) = 0"

lemma draft_edit_bytes [simp]: "dr_bytes (draft_edit st i d) = dr_bytes d"
  by (simp add: draft_edit_def Let_def)

lemma draft_erase_bytes: "dr_bytes (draft_erase st key d) \<le> dr_bytes d"
  by (simp add: draft_erase_def Let_def split: option.split)

lemma draft_set_bytes: "dr_bytes (snd (tdraft_set st key r d)) \<le> dr_bytes d + (length key + se_bytes st r)"
  by (simp add: tdraft_set_def Let_def)

lemma edit_draft_fits:
  assumes "tdraft_ok st d" "dr_bytes d + sum_list (map (edit_cost st) es) \<le> size_max"
  shows "fst (edit_draft st es d)"
  using assms
proof (induction es arbitrary: d)
  case (Cons x es)
  show ?case
  proof (cases x)
    case (Edit_set key r)
    obtain ok d' where s: "tdraft_set st key r d = (ok, d')" by fastforce
    note so = tdraft_set_ok [OF Cons.prems(1) s]
    have "ok" unfolding so(3) using Cons.prems(2) Edit_set by simp
    moreover have "dr_bytes d' \<le> dr_bytes d + (length key + se_bytes st r)" using draft_set_bytes [of st key r d] s by simp
    ultimately show ?thesis using Cons.IH [OF so(1)] Cons.prems(2) s Edit_set by simp
  next
    case (Edit_erase key)
    then show ?thesis using Cons.IH [OF draft_erase_ok(1) [OF Cons.prems(1), of key]] Cons.prems(2) draft_erase_bytes [of st key d] by simp
  qed
qed simp


definition plain_setting :: "('r \<Rightarrow> nat) \<Rightarrow> 'r setting" where
  "plain_setting bytes = \<lparr>se_hash = \<lambda>k. of_nat (length k), se_bytes = bytes, se_extra = 56, se_page = 56, se_pointer = 8, se_table = 2072, se_draft = 4152,
     se_value = 48, se_fresh = 1, se_copy = \<lambda>n b. b, se_grow = \<lambda>n b. max b (n + 1), se_string = 32, se_vector = 24, se_seen = \<lambda>n. n + 1\<rparr>"


end
