(* ===== verification/Comet_Install_Rules.thy ===== *)
theory Comet_Install_Rules
  imports Comet_Install Comet_Table_Rules
begin

text \<open>
  The invariant of an installer, one page and a run of pages, proved once for any domain that keeps the contract \<open>wire_domain\<close>; the three
  domains keep it.
\<close>

subsection \<open>The invariant of an installer\<close>

definition contents_map :: "'r setting \<Rightarrow> 'r published option \<Rightarrow> string \<Rightarrow> 'r option" where
  "contents_map st current = (case current of None \<Rightarrow> Map.empty | Some p \<Rightarrow> table_map st (pb_data p))"

definition published_ok :: "'r setting \<Rightarrow> nat \<Rightarrow> nat \<Rightarrow> 'r published \<Rightarrow> bool" where
  "published_ok st bytes records p \<longleftrightarrow> table_ok st (pb_data p) \<and> tb_size (pb_data p) \<le> records \<and> tb_bytes (pb_data p) \<le> bytes
     \<and> table_footprint st (pb_data p) \<le> bytes \<and> (pb_version p = 0 \<longrightarrow> tb_size (pb_data p) = 0)"

definition frame_ok :: "'r setting \<Rightarrow> ('r, 'z) installer_scheme \<Rightarrow> bool" where
  "frame_ok st s \<longleftrightarrow> in_bytes s \<le> 1024 * 1024 * 1024 \<and> in_records s \<le> 65536
     \<and> pred_option (published_ok st (in_bytes s) (in_records s)) (in_current s)"

definition prepared_ok :: "'r setting \<Rightarrow> ('r, 'z) installer_scheme \<Rightarrow> 'r tdraft \<Rightarrow> bool" where
  "prepared_ok st s d \<longleftrightarrow> tdraft_ok st d \<and> dr_size d \<le> in_records s * 2 \<and> dr_bytes d \<le> in_bytes s * 2
     \<and> (in_mode s = Mode_reset \<or> in_mode s = Mode_apply \<and> in_current s \<noteq> None)"

definition installer_ok :: "'r setting \<Rightarrow> ('r, 'z) installer_scheme \<Rightarrow> bool" where
  "installer_ok st s \<longleftrightarrow> frame_ok st s \<and> (case in_draft s of
      None \<Rightarrow> in_seen s = [] \<and> (in_budgeted s \<longrightarrow> in_held s = installer_footprint st s)
    | Some d \<Rightarrow> prepared_ok st s d)"

lemma discard_ok:
  assumes "frame_ok st s"
  shows "installer_ok st (installer_discard st s)" "in_draft (installer_discard st s) = None" "in_current (installer_discard st s) = in_current s"
  using assms by (simp_all add: installer_ok_def frame_ok_def installer_discard_def installer_footprint_def)

lemma fail_ok:
  assumes "frame_ok st s" "installer_fail st code s = (r, s')"
  shows "\<exists>e. r = Failed e" "installer_ok st s'" "in_draft s' = None" "in_current s' = in_current s" "\<not> in_valid s'"
proof -
  have s': "s' = (installer_discard st s)\<lparr>in_valid := False\<rparr>" "\<exists>e. r = Failed e" using assms(2) by (auto simp: installer_fail_def)
  show "\<exists>e. r = Failed e" by (rule s'(2))
  show "installer_ok st s'" "in_draft s' = None" "in_current s' = in_current s" "\<not> in_valid s'"
    using discard_ok [OF assms(1)] by (simp_all add: s'(1) installer_ok_def frame_ok_def installer_footprint_def prepared_ok_def)
qed

lemma begin_ok:
  assumes "frame_ok st s"
  shows "installer_ok st (installer_begin st expected s)" "in_draft (installer_begin st expected s) = None"
  using assms by (simp_all add: installer_begin_def installer_ok_def frame_ok_def installer_discard_def installer_footprint_def)

subsection \<open>One domain\<close>

text \<open>What the installers rely on of a domain: a change that is taken acts on the draft as its effect on a map, given the contents the
  batch started from; it never throws within the limits; and a version that is not called older is at least the installed one.\<close>

locale wire_domain =
  fixes st :: "'r setting" and dm :: "('c, 'r) wdomain" and eff :: "'c \<Rightarrow> (string \<Rightarrow> 'r option) \<Rightarrow> (string \<Rightarrow> 'r option) \<Rightarrow> (string \<Rightarrow> 'r option)"
  assumes step_taken: "tdraft_ok st d \<Longrightarrow> do_step dm c mode current d = Step d' \<Longrightarrow>
      tdraft_ok st d' \<and> draft_map st d' = eff c (contents_map st current) (draft_map st d)"
    and step_safe: "tdraft_ok st d \<Longrightarrow> do_valid dm (do_key dm c) \<Longrightarrow> dr_bytes d \<le> 1024 * 1024 * 1024 * 2 \<Longrightarrow>
      pred_option (\<lambda>p. table_ok st (pb_data p) \<and> tb_bytes (pb_data p) \<le> 1024 * 1024 * 1024) current \<Longrightarrow>
      do_step dm c mode current d \<noteq> Step_thrown d'"
    and older: "pb_version p \<le> v \<or> do_older dm (pb_instance p) v p"
begin

definition collected :: "('r, 'z) installer_scheme \<Rightarrow> 'c list \<Rightarrow> 'r tdraft \<Rightarrow> bool" where
  "collected s cs d \<longleftrightarrow> draft_map st d = fold (\<lambda>c. eff c (contents_map st (in_current s))) cs
      (if in_mode s = Mode_reset then Map.empty else contents_map st (in_current s))
    \<and> distinct (map (do_key dm) cs)"

lemma changes_ok:
  assumes "frame_ok st s" "in_draft s = Some d" "prepared_ok st s d" "collected s cs0 d"
    "if track then set (in_seen s) = do_key dm ` set cs0 else cs0 = [] \<and> length cs \<le> 1"
    "install_changes dm track cs s = (f, s2)"
  shows "f \<noteq> Throw \<and> (\<exists>d2 sn sb. s2 = s\<lparr>in_draft := Some d2, in_seen := sn, in_seen_bytes := sb\<rparr>
    \<and> (f = Go \<longrightarrow> prepared_ok st s d2 \<and> collected s (cs0 @ cs) d2 \<and> (track \<longrightarrow> set sn = do_key dm ` set (cs0 @ cs)) \<and> (\<not> track \<longrightarrow> sn = in_seen s)))"
  using assms
proof (induction cs arbitrary: s d cs0)
  case Nil
  have "s2 = s\<lparr>in_draft := Some d, in_seen := in_seen s, in_seen_bytes := in_seen_bytes s\<rparr>" "f = Go" using Nil.prems(2,6) by simp_all
  moreover have "track \<longrightarrow> set (in_seen s) = do_key dm ` set (cs0 @ [])" using Nil.prems(5) by auto
  ultimately show ?case using Nil.prems(3,4) by (metis append_Nil2 flow.distinct(3))
next
  case (Cons c cs)
  let ?key = "do_key dm c"
  have id: "s = s\<lparr>in_draft := Some d, in_seen := in_seen s, in_seen_bytes := in_seen_bytes s\<rparr>" using Cons.prems(2) by simp
  show ?case
  proof (cases "\<not> do_valid dm ?key \<or> (in_target s \<noteq> [] \<and> in_target s \<noteq> ?key) \<or> (track \<and> (length (in_seen s) = in_records s * 2 \<or> ?key \<in> set (in_seen s)))")
    case True
    then have "s2 = s" "f \<noteq> Throw \<and> f \<noteq> Go" using Cons.prems(6) by (auto simp: Let_def split: if_splits)
    then show ?thesis using id by blast
  next
    case False
    define s1 where "s1 = (if track then s\<lparr>in_seen := ?key # in_seen s, in_seen_bytes := in_seen_bytes s + length ?key\<rparr> else s)"
    have s1: "in_mode s1 = in_mode s" "in_current s1 = in_current s" "in_draft s1 = Some d" using Cons.prems(2) by (simp_all add: s1_def)
    have s1u: "s1 = s\<lparr>in_draft := Some d, in_seen := in_seen s1, in_seen_bytes := in_seen_bytes s1\<rparr>" using id by (simp add: s1_def)
    have run: "(case do_step dm c (in_mode s) (in_current s) d of
          Step_fail e \<Rightarrow> (Stop e, s1) | Step_thrown d' \<Rightarrow> (Throw, s1\<lparr>in_draft := Some d'\<rparr>)
        | Step d' \<Rightarrow> if dr_size d' > in_records s * 2 \<or> dr_bytes d' > in_bytes s * 2 then (Stop Co_limit, s1\<lparr>in_draft := Some d'\<rparr>)
            else install_changes dm track cs (s1\<lparr>in_draft := Some d'\<rparr>)) = (f, s2)"
    proof -
      have c: "(\<not> do_valid dm ?key \<or> (in_target s \<noteq> [] \<and> in_target s \<noteq> ?key)) = False" "(track \<and> length (in_seen s) = in_records s * 2) = False"
        "(track \<and> ?key \<in> set (in_seen s)) = False" using False by blast+
      show ?thesis using Cons.prems(6) unfolding install_changes.simps Let_def s1_def [symmetric] by (simp only: c if_False s1 option.sel)
    qed
    have dk: "tdraft_ok st d" using Cons.prems(3) by (simp add: prepared_ok_def)
    show ?thesis
    proof (cases "do_step dm c (in_mode s) (in_current s) d")
      case (Step_fail e)
      then show ?thesis using run s1u by auto
    next
      case (Step_thrown d')
      have "dr_bytes d \<le> 1024 * 1024 * 1024 * 2" using Cons.prems(1,3) by (simp add: prepared_ok_def frame_ok_def)
      moreover have "pred_option (\<lambda>p. table_ok st (pb_data p) \<and> tb_bytes (pb_data p) \<le> 1024 * 1024 * 1024) (in_current s)"
        using Cons.prems(1) by (cases "in_current s") (auto simp: frame_ok_def published_ok_def)
      ultimately show ?thesis using step_safe [OF dk] False Step_thrown by blast
    next
      case (Step d')
      note tk = step_taken [OF dk Step]
      define s3 where "s3 = s1\<lparr>in_draft := Some d'\<rparr>"
      have s3u: "s3 = s\<lparr>in_draft := Some d', in_seen := in_seen s1, in_seen_bytes := in_seen_bytes s1\<rparr>" using s1u by (simp add: s3_def s1_def)
      show ?thesis
      proof (cases "dr_size d' > in_records s * 2 \<or> dr_bytes d' > in_bytes s * 2")
        case True
        then show ?thesis using run Step s3u by (auto simp: s3_def)
      next
        case small: False
        have run3: "install_changes dm track cs s3 = (f, s2)" using run Step small by (simp add: s3_def)
        have fr: "frame_ok st s3" "prepared_ok st s3 d'" "in_draft s3 = Some d'"
          using Cons.prems(1,3) small tk by (simp_all add: s3u frame_ok_def prepared_ok_def)
        have new: "?key \<notin> do_key dm ` set cs0" using False Cons.prems(5) by (cases track) auto
        have ga: "collected s3 (cs0 @ [c]) d'" using Cons.prems(4) tk new by (simp add: collected_def s3u)
        have tr: "if track then set (in_seen s3) = do_key dm ` set (cs0 @ [c]) else cs = []"
          using Cons.prems(5) by (auto simp: s3u s1_def)
        show ?thesis
        proof (cases track)
          case True
          obtain d2 sn sb where r: "f \<noteq> Throw" "s2 = s3\<lparr>in_draft := Some d2, in_seen := sn, in_seen_bytes := sb\<rparr>"
            "f = Go \<longrightarrow> prepared_ok st s3 d2 \<and> collected s3 ((cs0 @ [c]) @ cs) d2 \<and> set sn = do_key dm ` set ((cs0 @ [c]) @ cs)"
            using Cons.IH [OF fr(1,3,2) ga _ run3] tr True by auto
          have "s2 = s\<lparr>in_draft := Some d2, in_seen := sn, in_seen_bytes := sb\<rparr>" using r(2) by (simp add: s3u)
          moreover have "prepared_ok st s d2 = prepared_ok st s3 d2" "collected s (cs0 @ c # cs) d2 = collected s3 ((cs0 @ [c]) @ cs) d2"
            by (simp_all add: prepared_ok_def collected_def s3u)
          moreover have "f = Go \<longrightarrow> set sn = do_key dm ` set (cs0 @ c # cs)" using r(3) by simp
          ultimately show ?thesis using r(1,3) True by blast
        next
          case False
          then have "s2 = s3" "f = Go" "cs = []" using run3 tr by simp_all
          moreover have "in_seen s1 = in_seen s" using False by (simp add: s1_def)
          moreover have "prepared_ok st s d' = prepared_ok st s3 d'" "collected s (cs0 @ [c]) d' = collected s3 (cs0 @ [c]) d'"
            by (simp_all add: prepared_ok_def collected_def s3u)
          ultimately show ?thesis using s3u fr(2) ga False by (metis flow.distinct(3))
        qed
      qed
    qed
  qed
qed

end

lemma tail_ok:
  assumes fr: "frame_ok st s" and d: "in_draft s = Some d" "prepared_ok st s d" and r: "install_tail st grant page s = (r, s')"
  shows "r \<noteq> Thrown" "installer_ok st s'" "r = Failed e \<Longrightarrow> in_current s' = in_current s \<and> in_draft s' = None \<and> \<not> in_valid s'"
    "r = Pending \<Longrightarrow> \<not> wp_complete page \<and> (\<exists>h. s' = s\<lparr>in_held := h\<rparr>)"
    "r = Installed v \<Longrightarrow> wp_complete page \<and> (\<exists>c. cv_contents v = Some c \<and> in_current s' = Some c \<and> in_draft s' = None \<and> in_valid s' = in_valid s
       \<and> table_map st (pb_data c) = draft_map st d \<and> pb_version c = the (wp_version page) \<and> pb_instance c = wp_instance page)"
proof -
  define metadata where "metadata = in_seen_bytes s + length (in_seen s) * (se_string st + 32) + se_seen st (length (in_seen s)) * se_pointer st"
  define prepared where "prepared = draft_footprint st d + metadata"
  define s1 where "s1 = (if in_budgeted s then s\<lparr>in_held := prepared + installer_footprint st s\<rparr> else s)"
  define c where "c = \<lparr>pb_data = draft_finish st d, pb_instance = wp_instance page, pb_version = the (wp_version page)\<rparr>"
  have s1u: "\<exists>h. s1 = s\<lparr>in_held := h\<rparr>" unfolding s1_def by (cases "in_budgeted s") (auto intro: exI [of _ "in_held s"])
  then have fr1: "frame_ok st s1" "in_current s1 = in_current s" "in_valid s1 = in_valid s" "in_draft s1 = Some d" "prepared_ok st s1 d"
    "in_bytes s1 = in_bytes s" "in_records s1 = in_records s" using fr d by (auto simp: frame_ok_def prepared_ok_def)
  have dk: "tdraft_ok st d" using d(2) by (simp add: prepared_ok_def)
  note fo = draft_finish_ok [OF dk]
  have tail: "(if prepared > in_bytes s * 2 \<or> (in_budgeted s \<and> \<not> grant (prepared + installer_footprint st s)) then installer_fail st Co_limit s
      else if \<not> wp_complete page then (Pending, s1)
      else if dr_size d > in_records s \<or> dr_bytes d > in_bytes s then installer_fail st Co_limit s1
      else if the (wp_version page) = 0 \<and> dr_size d \<noteq> 0 then installer_fail st Co_protocol s1
      else if table_footprint st (pb_data c) > in_bytes s then installer_fail st Co_limit s1
      else (Installed ((installer_view View_ready None s1)\<lparr>cv_contents := Some c\<rparr>),
        installer_discard st (s1\<lparr>in_current := Some c, in_expected := wp_instance page, in_first := False\<rparr>))) = (r, s')"
    using r unfolding install_tail_def Let_def d(1) option.sel metadata_def [symmetric] prepared_def [symmetric] s1_def [symmetric] c_def [symmetric] .
  have failing: "r \<noteq> Thrown \<and> installer_ok st s' \<and> (\<forall>e. r = Failed e \<longrightarrow> in_current s' = in_current s \<and> in_draft s' = None \<and> \<not> in_valid s')
      \<and> r \<noteq> Pending \<and> (\<forall>v. r \<noteq> Installed v)" if "installer_fail st code t = (r, s')" "frame_ok st t" "in_current t = in_current s" for code t
    using fail_ok [OF that(2,1)] that(3) by auto
  have all: "r \<noteq> Thrown \<and> installer_ok st s' \<and> (\<forall>e. r = Failed e \<longrightarrow> in_current s' = in_current s \<and> in_draft s' = None \<and> \<not> in_valid s')
      \<and> (r = Pending \<longrightarrow> \<not> wp_complete page \<and> (\<exists>h. s' = s\<lparr>in_held := h\<rparr>))
      \<and> (\<forall>v. r = Installed v \<longrightarrow> wp_complete page \<and> (\<exists>c. cv_contents v = Some c \<and> in_current s' = Some c \<and> in_draft s' = None \<and> in_valid s' = in_valid s
       \<and> table_map st (pb_data c) = draft_map st d \<and> pb_version c = the (wp_version page) \<and> pb_instance c = wp_instance page))"
  proof (cases "prepared > in_bytes s * 2 \<or> (in_budgeted s \<and> \<not> grant (prepared + installer_footprint st s))")
    case True
    then have "installer_fail st Co_limit s = (r, s')" using tail by (simp only: if_True)
    then show ?thesis using failing [OF _ fr] by blast
  next
    case low: False
    show ?thesis
    proof (cases "wp_complete page")
      case False
      then have "r = Pending" "s' = s1" using tail low by simp_all
      moreover have "installer_ok st s1" using fr1 by (simp add: installer_ok_def)
      ultimately show ?thesis using s1u False by blast
    next
      case complete: True
      define w where "w = (Installed ((installer_view View_ready None s1)\<lparr>cv_contents := Some c\<rparr>),
        installer_discard st (s1\<lparr>in_current := Some c, in_expected := wp_instance page, in_first := False\<rparr>))"
      have inner: "(if dr_size d > in_records s \<or> dr_bytes d > in_bytes s then installer_fail st Co_limit s1
          else if the (wp_version page) = 0 \<and> dr_size d \<noteq> 0 then installer_fail st Co_protocol s1
          else if table_footprint st (pb_data c) > in_bytes s then installer_fail st Co_limit s1 else w) = (r, s')"
        using tail low complete unfolding w_def [symmetric] by (simp only: if_False not_True_eq_False)
      consider code where "installer_fail st code s1 = (r, s')"
        | "\<not> (dr_size d > in_records s \<or> dr_bytes d > in_bytes s)" "\<not> (the (wp_version page) = 0 \<and> dr_size d \<noteq> 0)" "\<not> table_footprint st (pb_data c) > in_bytes s" "w = (r, s')"
        using inner by metis
      then show ?thesis
      proof cases
        case 1
        then show ?thesis using failing [OF _ fr1(1,2)] by blast
      next
        case 2
        let ?t = "s1\<lparr>in_current := Some c, in_expected := wp_instance page, in_first := False\<rparr>"
        have rs: "r = Installed ((installer_view View_ready None s1)\<lparr>cv_contents := Some c\<rparr>)"
          "s' = installer_discard st (s1\<lparr>in_current := Some c, in_expected := wp_instance page, in_first := False\<rparr>)"
          using 2(4) by (simp_all add: w_def)
        have pd: "pb_data c = draft_finish st d" "pb_version c = the (wp_version page)" "pb_instance c = wp_instance page" by (simp_all add: c_def)
        have "published_ok st (in_bytes s) (in_records s) c"
          using 2(1,2,3) fo unfolding published_ok_def pd by auto
        then have "frame_ok st ?t" using fr1 by (simp add: frame_ok_def)
        note dc = discard_ok [OF this]
        have "in_valid s' = in_valid s" using fr1(3) rs(2) by (simp add: installer_discard_def)
        then show ?thesis using dc rs complete fo(2) pd by auto
      qed
    qed
  qed
  show "r \<noteq> Thrown" "installer_ok st s'" "r = Failed e \<Longrightarrow> in_current s' = in_current s \<and> in_draft s' = None \<and> \<not> in_valid s'"
    "r = Pending \<Longrightarrow> \<not> wp_complete page \<and> (\<exists>h. s' = s\<lparr>in_held := h\<rparr>)"
    "r = Installed v \<Longrightarrow> wp_complete page \<and> (\<exists>c. cv_contents v = Some c \<and> in_current s' = Some c \<and> in_draft s' = None \<and> in_valid s' = in_valid s
       \<and> table_map st (pb_data c) = draft_map st d \<and> pb_version c = the (wp_version page) \<and> pb_instance c = wp_instance page)"
    using all by simp_all
qed

context wire_domain
begin

text \<open>The changes of the batch so far.\<close>

definition underway :: "('r, 'z) installer_scheme \<Rightarrow> 'c list \<Rightarrow> bool" where
  "underway s cs \<longleftrightarrow> (case in_draft s of None \<Rightarrow> cs = [] | Some d \<Rightarrow> collected s cs d \<and> set (in_seen s) = do_key dm ` set cs)"

text \<open>The contents a batch of changes in a mode makes of the current ones.\<close>

definition batch_outcome :: "('r, 'z) installer_scheme \<Rightarrow> wire_mode \<Rightarrow> 'c list \<Rightarrow> string \<Rightarrow> 'r option" where
  "batch_outcome s mode cs = fold (\<lambda>c. eff c (contents_map st (in_current s))) cs (if mode = Mode_reset then Map.empty else contents_map st (in_current s))"

lemma open_ok:
  assumes ok: "installer_ok st s" and un: "underway s cs" and m: "mode = Mode_reset \<or> mode = Mode_apply \<and> (in_draft s = None \<longrightarrow> in_current s \<noteq> None)"
    and s1: "s1 = (if in_draft s = None then s\<lparr>in_mode := mode, in_draft := Some (draft_new (if mode = Mode_reset then table_new else pb_data (the (in_current s))))\<rparr> else s)"
    and same: "in_draft s \<noteq> None \<Longrightarrow> in_mode s = mode"
  obtains d where "frame_ok st s1" "in_draft s1 = Some d" "prepared_ok st s1 d" "collected s1 cs d" "set (in_seen s1) = do_key dm ` set cs"
    "in_mode s1 = mode" "in_current s1 = in_current s" "in_valid s1 = in_valid s"
proof (cases "in_draft s")
  case (Some d)
  then have "s1 = s" using s1 by simp
  then show thesis using that [of d] ok un Some same by (simp add: installer_ok_def underway_def)
next
  case None
  let ?t = "if mode = Mode_reset then table_new else pb_data (the (in_current s))"
  have fr: "frame_ok st s" "in_seen s = []" using ok None by (simp_all add: installer_ok_def)
  have cs: "cs = []" using un None by (simp add: underway_def)
  have s1': "s1 = s\<lparr>in_mode := mode, in_draft := Some (draft_new ?t)\<rparr>" using s1 None by simp
  have t: "table_ok st ?t" "tb_size ?t \<le> in_records s * 2" "tb_bytes ?t \<le> in_bytes s * 2"
    using fr(1) m None table_new_ok(1) by (auto simp: frame_ok_def published_ok_def table_new_def)
  note dn = draft_new_ok [OF t(1)]
  have "prepared_ok st s1 (draft_new ?t)" using dn(1) t(2,3) m None by (auto simp: s1' prepared_ok_def draft_new_def)
  moreover have "collected s1 cs (draft_new ?t)" unfolding collected_def dn(2) cs s1'
    using m None table_new_ok(2) by (auto simp: contents_map_def)
  moreover have "frame_ok st s1" using fr(1) by (simp add: s1' frame_ok_def)
  ultimately show thesis using that [of "draft_new ?t"] fr(2) cs by (simp add: s1')
qed

end

primrec accept_all :: "('g \<Rightarrow> 'p \<Rightarrow> 's \<Rightarrow> 'v accepted \<times> 's) \<Rightarrow> ('g \<times> 'p) list \<Rightarrow> 's \<Rightarrow> 'v accepted list \<times> 's" where
  "accept_all acc [] s = ([], s)"
| "accept_all acc (x # xs) s = (let (r, s1) = acc (fst x) (snd x) s; (rs, s2) = accept_all acc xs s1 in (r # rs, s2))"

context wire_domain
begin

lemma accept_ok:
  assumes ok: "installer_ok st s" and un: "underway s cs" and acc: "installer_accept st grant dm barred page s = (r, s')"
  shows "r \<noteq> Thrown \<and> installer_ok st s'
    \<and> (\<forall>e. r = Failed e \<longrightarrow> in_current s' = in_current s \<and> in_draft s' = None \<and> \<not> in_valid s')
    \<and> (r = Pending \<longrightarrow> in_valid s \<and> in_current s' = in_current s \<and> in_mode s' = wp_mode page \<and> (in_draft s \<noteq> None \<longrightarrow> in_mode s = wp_mode page)
        \<and> in_draft s' \<noteq> None \<and> underway s' (cs @ wp_changes page))
    \<and> (\<forall>v. r = Installed v \<longrightarrow> in_valid s \<and> in_draft s' = None \<and> (in_draft s \<noteq> None \<longrightarrow> in_mode s = wp_mode page)
        \<and> (\<exists>c. cv_contents v = Some c \<and> in_current s' = Some c \<and> table_map st (pb_data c) = batch_outcome s (wp_mode page) (cs @ wp_changes page)
            \<and> distinct (map (do_key dm) (cs @ wp_changes page)) \<and> wp_version page = Some (pb_version c) \<and> wp_instance page = pb_instance c
            \<and> (\<forall>p. in_current s = Some p \<and> pb_instance p = pb_instance c \<longrightarrow> pb_version p \<le> pb_version c)))"
proof -
  let ?goal = "?thesis"
  have fr: "frame_ok st s" using ok by (simp add: installer_ok_def)
  have failing: ?goal if "installer_fail st code t = (r, s')" "frame_ok st t" "in_current t = in_current s" for code t
    using fail_ok [OF that(2,1)] that(3) by auto
  define c1 where "c1 \<longleftrightarrow> \<not> in_valid s \<or> (wp_mode page \<noteq> Mode_reset \<and> wp_mode page \<noteq> Mode_apply) \<or> wp_complete page \<noteq> (wp_version page \<noteq> None)
         \<or> wp_complete page \<noteq> (wp_instance page \<noteq> []) \<or> (\<not> wp_complete page \<and> wp_changes page = []) \<or> wp_size page > 8 * 1024 * 1024"
  define c2 where "c2 \<longleftrightarrow> wp_complete page \<and> (\<not> scope_text (wp_instance page) 128 \<or> (in_expected s \<noteq> [] \<and> in_expected s \<noteq> wp_instance page)
         \<or> (case in_current s of None \<Rightarrow> False | Some c \<Rightarrow> do_older dm (wp_instance page) (the (wp_version page)) c))"
  define c3 where "c3 \<longleftrightarrow> in_draft s = None \<and> ((wp_mode page = Mode_reset \<and> \<not> in_first s) \<or> (wp_mode page = Mode_apply \<and> (in_current s = None \<or> barred)))"
  define c4 where "c4 \<longleftrightarrow> in_draft s \<noteq> None \<and> in_mode s \<noteq> wp_mode page"
  define s1 where "s1 = (if in_draft s = None then s\<lparr>in_mode := wp_mode page,
      in_draft := Some (draft_new (if wp_mode page = Mode_reset then table_new else pb_data (the (in_current s))))\<rparr> else s)"
  define c5 where "c5 \<longleftrightarrow> wp_complete page \<and> in_mode s1 = Mode_apply \<and> (pb_instance (the (in_current s1)) \<noteq> wp_instance page
                 \<or> (the (wp_version page) = pb_version (the (in_current s1)) \<and> (\<not> in_first s1 \<or> in_seen s1 \<noteq> [] \<or> wp_changes page \<noteq> [])))"
  define track where "track \<longleftrightarrow> \<not> wp_complete page \<or> length (wp_changes page) \<noteq> 1 \<or> in_seen s1 \<noteq> []"
  have run: "(if c1 then installer_fail st Co_protocol s else if c2 then installer_fail st Co_protocol s else if c3 then installer_fail st Co_protocol s
      else if c4 then installer_fail st Co_protocol s else if c5 then installer_fail st Co_protocol s1
      else case install_changes dm track (wp_changes page) s1 of (Stop e, s2) \<Rightarrow> installer_fail st e s2 | (Throw, s2) \<Rightarrow> (Thrown, s2)
        | (Go, s2) \<Rightarrow> install_tail st grant page s2) = (r, s')"
    using acc unfolding installer_accept_def Let_def c1_def [symmetric] c2_def [symmetric] c3_def [symmetric] c4_def [symmetric] s1_def [symmetric]
      c5_def [symmetric] track_def [symmetric] .
  show ?goal
  proof (cases "c1 \<or> c2 \<or> c3 \<or> c4")
    case True
    then have "installer_fail st Co_protocol s = (r, s')" using run by (auto split: if_splits)
    then show ?thesis by (rule failing [OF _ fr refl])
  next
    case no: False
    have m: "wp_mode page = Mode_reset \<or> wp_mode page = Mode_apply \<and> (in_draft s = None \<longrightarrow> in_current s \<noteq> None)"
      using no unfolding c1_def c3_def by argo
    obtain d where o: "frame_ok st s1" "in_draft s1 = Some d" "prepared_ok st s1 d" "collected s1 cs d" "set (in_seen s1) = do_key dm ` set cs"
        "in_mode s1 = wp_mode page" "in_current s1 = in_current s" "in_valid s1 = in_valid s"
      using open_ok [OF ok un m s1_def] no unfolding c4_def by metis
    show ?thesis
    proof (cases c5)
      case True
      then have "installer_fail st Co_protocol s1 = (r, s')" using run no by simp
      then show ?thesis by (rule failing [OF _ o(1,7)])
    next
      case False
      obtain f s2 where ch: "install_changes dm track (wp_changes page) s1 = (f, s2)" by fastforce
      have tr: "if track then set (in_seen s1) = do_key dm ` set cs else cs = [] \<and> length (wp_changes page) \<le> 1"
        using o(5) by (auto simp: track_def)
      note co = changes_ok [OF o(1,2,3,4) tr ch]
      then obtain d2 sn sb where s2: "s2 = s1\<lparr>in_draft := Some d2, in_seen := sn, in_seen_bytes := sb\<rparr>"
        and go: "f = Go \<Longrightarrow> prepared_ok st s1 d2 \<and> collected s1 (cs @ wp_changes page) d2 \<and> (track \<longrightarrow> set sn = do_key dm ` set (cs @ wp_changes page))"
        by blast
      have fr2: "frame_ok st s2" "in_current s2 = in_current s" using o(1,7) by (simp_all add: s2 frame_ok_def)
      show ?thesis
      proof (cases f)
        case (Stop e)
        then have "installer_fail st e s2 = (r, s')" using run no False ch by simp
        then show ?thesis by (rule failing [OF _ fr2])
      next
        case Throw
        then show ?thesis using co by blast
      next
        case Go
        then have tl: "install_tail st grant page s2 = (r, s')" using run no False ch by simp
        have pr: "prepared_ok st s2 d2" "in_draft s2 = Some d2" using go [OF Go] by (simp_all add: s2 prepared_ok_def)
        have ga: "collected s1 (cs @ wp_changes page) d2" "track \<longrightarrow> set sn = do_key dm ` set (cs @ wp_changes page)" using go [OF Go] by blast+
        have map2: "draft_map st d2 = batch_outcome s (wp_mode page) (cs @ wp_changes page)" "distinct (map (do_key dm) (cs @ wp_changes page))"
          using ga(1) o(6,7) unfolding collected_def batch_outcome_def by simp_all
        note ta = tail_ok [OF fr2(1) pr(2,1) tl]
        have vd: "in_valid s" "wp_complete page \<Longrightarrow> wp_version page \<noteq> None" using no unfolding c1_def by argo+
        have md: "in_draft s \<noteq> None \<longrightarrow> in_mode s = wp_mode page" using no unfolding c4_def by argo
        have pend: "in_current s' = in_current s \<and> in_mode s' = wp_mode page \<and> in_draft s' \<noteq> None \<and> underway s' (cs @ wp_changes page)" if rp: "r = Pending"
        proof -
          obtain h where h: "s' = s2\<lparr>in_held := h\<rparr>" "\<not> wp_complete page" using ta(4) [OF rp] by blast
          have track using h(2) by (simp add: track_def)
          then show ?thesis using ga o(6,7) by (simp add: h(1) s2 underway_def collected_def)
        qed
        have inst: "in_draft s' = None \<and> (\<exists>c. cv_contents v = Some c \<and> in_current s' = Some c \<and> table_map st (pb_data c) = batch_outcome s (wp_mode page) (cs @ wp_changes page)
            \<and> wp_version page = Some (pb_version c) \<and> wp_instance page = pb_instance c
            \<and> (\<forall>p. in_current s = Some p \<and> pb_instance p = pb_instance c \<longrightarrow> pb_version p \<le> pb_version c))" if ri: "r = Installed v" for v
        proof -
          obtain c where c: "wp_complete page" "cv_contents v = Some c" "in_current s' = Some c" "in_draft s' = None"
            "table_map st (pb_data c) = draft_map st d2" "pb_version c = the (wp_version page)" "pb_instance c = wp_instance page"
            using ta(5) [OF ri] by blast
          have vs: "wp_version page = Some (pb_version c)" using vd(2) c(1,6) by simp
          have "pb_version p \<le> pb_version c" if "in_current s = Some p" "pb_instance p = pb_instance c" for p
          proof -
            have "\<not> do_older dm (pb_instance p) (pb_version c) p" using no c(1,6,7) that unfolding c2_def by simp
            then show ?thesis using older by blast
          qed
          then show ?thesis using c(2-5,7) vs map2(1) by metis
        qed
        show ?thesis using ta(1,2,3) fr2(2) vd(1) md pend inst map2(2) by simp
      qed
    qed
  qed
qed

end

lemma truncate_fields:
  assumes "installer.truncate a = installer.truncate b"
  shows "in_bytes a = in_bytes b" "in_records a = in_records b" "in_budgeted a = in_budgeted b" "in_held a = in_held b"
    "in_current a = in_current b" "in_draft a = in_draft b" "in_seen a = in_seen b" "in_mode a = in_mode b" "in_valid a = in_valid b"
    "in_target a = in_target b" "in_expected a = in_expected b" "in_first a = in_first b"
  using assms by (cases a; cases b; simp add: installer.defs)+

lemma truncate_ok:
  assumes "installer.truncate a = installer.truncate b"
  shows "installer_ok st a = installer_ok st b"
proof -
  note f = truncate_fields [OF assms]
  have p: "prepared_ok st a d = prepared_ok st b d" for d unfolding prepared_ok_def f ..
  have e: "frame_ok st a = frame_ok st b" "installer_footprint st a = installer_footprint st b" unfolding frame_ok_def installer_footprint_def f by (rule refl)+
  show ?thesis unfolding installer_ok_def f p e ..
qed

text \<open>An installer is its domain with an operation that accepts pages as described, and may keep more state.\<close>

locale wire_installer = wire_domain st dm eff
  for st :: "'r setting" and dm :: "('c, 'r) wdomain" and eff +
  fixes acc :: "(nat \<Rightarrow> bool) \<Rightarrow> 'c wpage \<Rightarrow> ('r, 'z) installer_scheme \<Rightarrow> 'r cview accepted \<times> ('r, 'z) installer_scheme"
  assumes accepts: "\<exists>barred s1. installer_accept st grant dm barred page s = (fst (acc grant page s), s1)
      \<and> installer.truncate (snd (acc grant page s)) = installer.truncate s1"
begin

lemma acc_ok:
  assumes ok: "installer_ok st s" and un: "underway s cs" and run: "acc grant page s = (r, s')"
  shows "r \<noteq> Thrown" "installer_ok st s'" "r = Failed e \<Longrightarrow> in_current s' = in_current s \<and> in_draft s' = None \<and> \<not> in_valid s'"
    "r = Pending \<Longrightarrow> in_valid s \<and> in_current s' = in_current s \<and> in_mode s' = wp_mode page \<and> (in_draft s \<noteq> None \<longrightarrow> in_mode s = wp_mode page)
        \<and> in_draft s' \<noteq> None \<and> underway s' (cs @ wp_changes page)"
    "r = Installed v \<Longrightarrow> in_valid s \<and> in_draft s' = None \<and> (in_draft s \<noteq> None \<longrightarrow> in_mode s = wp_mode page)
        \<and> (\<exists>c. cv_contents v = Some c \<and> in_current s' = Some c \<and> table_map st (pb_data c) = batch_outcome s (wp_mode page) (cs @ wp_changes page)
            \<and> distinct (map (do_key dm) (cs @ wp_changes page)) \<and> wp_version page = Some (pb_version c) \<and> wp_instance page = pb_instance c
            \<and> (\<forall>p. in_current s = Some p \<and> pb_instance p = pb_instance c \<longrightarrow> pb_version p \<le> pb_version c))"
proof -
  obtain barred s1 where a: "installer_accept st grant dm barred page s = (r, s1)" "installer.truncate s' = installer.truncate s1"
    using accepts [of grant page s] run by auto
  note f = truncate_fields [OF a(2)]
  have u: "underway s' xs = underway s1 xs" for xs unfolding underway_def collected_def f ..
  note acc = accept_ok [OF ok un a(1), folded f truncate_ok [OF a(2)] u]
  show "r \<noteq> Thrown" "installer_ok st s'" "r = Failed e \<Longrightarrow> in_current s' = in_current s \<and> in_draft s' = None \<and> \<not> in_valid s'"
    using acc by simp_all
  show "r = Pending \<Longrightarrow> in_valid s \<and> in_current s' = in_current s \<and> in_mode s' = wp_mode page \<and> (in_draft s \<noteq> None \<longrightarrow> in_mode s = wp_mode page)
        \<and> in_draft s' \<noteq> None \<and> underway s' (cs @ wp_changes page)"
    "r = Installed v \<Longrightarrow> in_valid s \<and> in_draft s' = None \<and> (in_draft s \<noteq> None \<longrightarrow> in_mode s = wp_mode page)
        \<and> (\<exists>c. cv_contents v = Some c \<and> in_current s' = Some c \<and> table_map st (pb_data c) = batch_outcome s (wp_mode page) (cs @ wp_changes page)
            \<and> distinct (map (do_key dm) (cs @ wp_changes page)) \<and> wp_version page = Some (pb_version c) \<and> wp_instance page = pb_instance c
            \<and> (\<forall>p. in_current s = Some p \<and> pb_instance p = pb_instance c \<longrightarrow> pb_version p \<le> pb_version c))"
    using acc by simp_all
qed

lemma run_keeps:
  assumes "installer_ok st s" "underway s cs" "accept_all acc xs s = (rs, s')"
  shows "installer_ok st s' \<and> Thrown \<notin> set rs \<and> ((\<forall>v. Installed v \<notin> set rs) \<longrightarrow> in_current s' = in_current s)
    \<and> (in_valid s' \<longrightarrow> (\<forall>e. Failed e \<notin> set rs) \<and> (xs \<noteq> [] \<longrightarrow> in_valid s)) \<and> (in_draft s' = None \<and> in_budgeted s' \<longrightarrow> in_held s' = installer_footprint st s')"
  using assms
proof (induction xs arbitrary: s cs rs)
  case Nil
  then show ?case by (auto simp: installer_ok_def)
next
  case (Cons x xs)
  obtain r s1 where r: "acc (fst x) (snd x) s = (r, s1)" by fastforce
  obtain rs1 where rs: "accept_all acc xs s1 = (rs1, s')" "rs = r # rs1" using Cons.prems(3) r by (auto simp: Let_def split: prod.splits)
  note a = acc_ok [OF Cons.prems(1,2) r]
  show ?case
  proof (cases r)
    case (Failed e)
    then have "underway s1 []" "\<not> in_valid s1" "in_current s1 = in_current s" using a(3) by (simp_all add: underway_def)
    then show ?thesis using Cons.IH [OF a(2) _ rs(1)] Failed rs by (cases xs) (auto simp: Let_def)
  next
    case Pending
    then have "underway s1 (cs @ wp_changes (snd x))" "in_valid s" "in_current s1 = in_current s" using a(4) by simp_all
    then show ?thesis using Cons.IH [OF a(2) _ rs(1)] Pending rs by auto
  next
    case (Installed v)
    then have "underway s1 []" "in_valid s" using a(5) by (simp_all add: underway_def)
    then show ?thesis using Cons.IH [OF a(2) _ rs(1)] Installed rs by auto
  next
    case Thrown
    then show ?thesis using a(1) by simp
  qed
qed

lemma run_installs:
  assumes "installer_ok st s" "underway s cs" "accept_all acc (xs @ [x]) s = (map (\<lambda>_. Pending) xs @ [Installed v], s')"
  shows "in_draft s' = None \<and> (\<forall>y \<in> set xs. wp_mode (snd y) = wp_mode (snd x)) \<and> (in_draft s \<noteq> None \<longrightarrow> in_mode s = wp_mode (snd x))
    \<and> (\<exists>c. cv_contents v = Some c \<and> in_current s' = Some c
        \<and> table_map st (pb_data c) = batch_outcome s (wp_mode (snd x)) (cs @ concat (map (wp_changes \<circ> snd) (xs @ [x])))
        \<and> distinct (map (do_key dm) (cs @ concat (map (wp_changes \<circ> snd) (xs @ [x]))))
        \<and> wp_version (snd x) = Some (pb_version c) \<and> wp_instance (snd x) = pb_instance c
        \<and> (\<forall>p. in_current s = Some p \<and> pb_instance p = pb_instance c \<longrightarrow> pb_version p \<le> pb_version c))"
  using assms
proof (induction xs arbitrary: s cs)
  case Nil
  obtain r s1 where r: "acc (fst x) (snd x) s = (r, s1)" by fastforce
  then have "r = Installed v" "s1 = s'" using Nil.prems(3) by (auto simp: Let_def)
  then show ?case using acc_ok(5) [OF Nil.prems(1,2) r] by simp
next
  case (Cons y xs)
  obtain r s1 where r: "acc (fst y) (snd y) s = (r, s1)" by fastforce
  then have rp: "r = Pending" and rest: "accept_all acc (xs @ [x]) s1 = (map (\<lambda>_. Pending) xs @ [Installed v], s')"
    using Cons.prems(3) by (auto simp: Let_def split: prod.splits)
  note a = acc_ok(2) [OF Cons.prems(1,2) r] acc_ok(4) [OF Cons.prems(1,2) r rp]
  have o: "batch_outcome s1 = batch_outcome s" using a(2) by (simp add: batch_outcome_def fun_eq_iff)
  show ?case using Cons.IH [OF a(1) _ rest, of "cs @ wp_changes (snd y)"] a(2) unfolding o by simp
qed

end

subsection \<open>The three domains\<close>

lemma find_bytes:
  assumes "table_ok st t" "table_find st k t = Some r"
  shows "length k + se_bytes st r \<le> tb_bytes t"
proof -
  have sh: "shape st (tb_pages t) (tb_size t) (tb_bytes t) (tb_overhead t)" using assms(1) by (simp add: table_ok_def)
  have "(k, r) \<in> set (all_rows (tb_pages t))" using assms(2) unfolding all_rows_map(2) [OF sh] by (simp add: table_find_map)
  then have "(\<lambda>(k, r). length k + se_bytes st r) (k, r) \<le> sum_list (map (\<lambda>(k, r). length k + se_bytes st r) (all_rows (tb_pages t)))"
    by (intro member_le_sum_list) (auto intro: rev_image_eqI)
  then show ?thesis unfolding all_rows_map(5) [OF sh] by (simp add: page_bytes_def)
qed

lemma step_set_ok:
  assumes "tdraft_ok st d" "step_set st k r d = Step d'"
  shows "tdraft_ok st d'" "draft_map st d' = (draft_map st d)(k \<mapsto> r)"
proof -
  obtain fine e where e: "tdraft_set st k r d = (fine, e)" by fastforce
  then have "fine" "e = d'" using assms(2) by (cases fine; simp add: step_set_def)+
  then show "tdraft_ok st d'" "draft_map st d' = (draft_map st d)(k \<mapsto> r)" using tdraft_set_ok [OF assms(1) e] by simp_all
qed

lemma step_set_safe:
  assumes "tdraft_ok st d" "length k + se_bytes st r + dr_bytes d \<le> size_max"
  shows "step_set st k r d \<noteq> Step_thrown d'"
proof -
  obtain fine e where e: "tdraft_set st k r d = (fine, e)" by fastforce
  have "fine" unfolding tdraft_set_ok(3) [OF assms(1) e] using assms(2) by simp
  then show ?thesis using e by (simp add: step_set_def)
qed

lemma size_max_large: "4 * 1024 * 1024 * 1024 \<le> size_max"
  by (simp add: size_max_def)

lemma step_set_small:
  assumes "tdraft_ok st d" "dr_bytes d \<le> 1024 * 1024 * 1024 * 2" "length k \<le> 1024" "se_bytes st r \<le> 1024 * 1024 * 1024 + 2 * 1024 * 1024"
  shows "step_set st k r d \<noteq> Step_thrown d'"
proof (rule step_set_safe [OF assms(1)])
  have "length k + se_bytes st r + dr_bytes d \<le> 4 * 1024 * 1024 * 1024" using assms(2-4) by simp
  then show "length k + se_bytes st r + dr_bytes d \<le> size_max" using size_max_large by (rule order_trans)
qed

definition projection_effect :: "almanac_change \<Rightarrow> (string \<Rightarrow> bytes option) \<Rightarrow> (string \<Rightarrow> bytes option) \<Rightarrow> string \<Rightarrow> bytes option" where
  "projection_effect c b m = (case ac_action c of Av_value v \<Rightarrow> m(ac_key c \<mapsto> v) | Av_erase \<Rightarrow> m(ac_key c := None) | Av_unset \<Rightarrow> m)"

definition subscription_effect :: "catalog_wchange \<Rightarrow> (string \<Rightarrow> publication option) \<Rightarrow> (string \<Rightarrow> publication option) \<Rightarrow> string \<Rightarrow> publication option" where
  "subscription_effect c b m = (case cw_action c of
     Cv_value v \<Rightarrow> m(cw_key c \<mapsto> \<lparr>pu_version = cw_version c, pu_value = v\<rparr>) | Cv_erase \<Rightarrow> m(cw_key c := None) | Cv_unset \<Rightarrow> m)"

text \<open>A change of the data alone keeps the attributes the batch started from.\<close>

definition selection_effect :: "ephemeris_wchange \<Rightarrow> (string \<Rightarrow> registration option) \<Rightarrow> (string \<Rightarrow> registration option) \<Rightarrow> string \<Rightarrow> registration option" where
  "selection_effect c b m = (case ew_action c of
     Ev_record attr data \<Rightarrow> m(ew_uuid c \<mapsto> \<lparr>rg_attr = attr, rg_data = data\<rparr>)
   | Ev_data data \<Rightarrow> (case b (ew_uuid c) of None \<Rightarrow> m | Some r \<Rightarrow> m(ew_uuid c \<mapsto> \<lparr>rg_attr = rg_attr r, rg_data = data\<rparr>))
   | Ev_erase \<Rightarrow> m(ew_uuid c := None) | Ev_unset \<Rightarrow> m)"

lemma scope_text_short: "scope_text k 1024 \<Longrightarrow> length k \<le> 1024"
  by (simp add: scope_text_def)

interpretation reader: wire_installer "datum_setting st" "projection_domain (datum_setting st)" projection_effect "projection_accept st"
proof unfold_locales
  let ?st = "datum_setting st" and ?dm = "projection_domain (datum_setting st)"
  show "tdraft_ok ?st d' \<and> draft_map ?st d' = projection_effect c (contents_map ?st current) (draft_map ?st d)"
    if "tdraft_ok ?st d" "do_step ?dm c mode current d = Step d'" for d c mode current d'
    using that step_set_ok [OF that(1)] draft_erase_ok [OF that(1)]
    by (auto simp: projection_domain_def projection_step_def projection_effect_def simp del: fun_upd_apply split: almanac_action.splits if_splits)
  show "do_step ?dm c mode current d \<noteq> Step_thrown d'"
    if "tdraft_ok ?st d" "do_valid ?dm (do_key ?dm c)" "dr_bytes d \<le> 1024 * 1024 * 1024 * 2" for d c mode current d'
  proof (cases "ac_action c")
    case (Av_value v)
    have "length (ac_key c) \<le> 1024" using that(2) by (simp add: projection_domain_def scope_text_short)
    moreover have "se_bytes ?st v \<le> 1024 * 1024 * 1024 + 2 * 1024 * 1024" if "length v \<le> 1024 * 1024" using that by (simp add: datum_setting_def)
    ultimately show ?thesis using step_set_small [OF that(1,3)] Av_value by (simp add: projection_domain_def projection_step_def)
  qed (simp_all add: projection_domain_def projection_step_def)
  show "pb_version p \<le> v \<or> do_older ?dm (pb_instance p) v p" for p v using le_less_linear [of "pb_version p" v] by (simp add: projection_domain_def)
  show "\<exists>barred s1. installer_accept ?st grant ?dm barred page s = (fst (projection_accept st grant page s), s1)
      \<and> installer.truncate (snd (projection_accept st grant page s)) = installer.truncate s1" for grant page s
    unfolding projection_accept_def by (metis prod.collapse)
qed

interpretation subscriber: wire_installer "publication_setting st" "subscription_domain (publication_setting st)" subscription_effect "subscription_accept st"
proof unfold_locales
  let ?st = "publication_setting st" and ?dm = "subscription_domain (publication_setting st)"
  show "tdraft_ok ?st d' \<and> draft_map ?st d' = subscription_effect c (contents_map ?st current) (draft_map ?st d)"
    if "tdraft_ok ?st d" "do_step ?dm c mode current d = Step d'" for d c mode current d'
    using that step_set_ok [OF that(1)] draft_erase_ok [OF that(1)]
    by (auto simp: subscription_domain_def subscription_step_def subscription_effect_def simp del: fun_upd_apply split: catalog_action.splits if_splits)
  show "do_step ?dm c mode current d \<noteq> Step_thrown d'"
    if "tdraft_ok ?st d" "do_valid ?dm (do_key ?dm c)" "dr_bytes d \<le> 1024 * 1024 * 1024 * 2" for d c mode current d'
  proof (cases "cw_action c")
    case (Cv_value v)
    let ?r = "\<lparr>pu_version = cw_version c, pu_value = v\<rparr>"
    have "length (cw_key c) \<le> 1024" using that(2) by (simp add: subscription_domain_def scope_text_short)
    moreover have "se_bytes ?st ?r \<le> 1024 * 1024 * 1024 + 2 * 1024 * 1024" if "length v \<le> 1024 * 1024" using that by (simp add: publication_setting_def)
    ultimately show ?thesis using step_set_small [OF that(1,3)] Cv_value by (simp add: subscription_domain_def subscription_step_def)
  qed (simp_all add: subscription_domain_def subscription_step_def)
  show "pb_version p \<le> v \<or> do_older ?dm (pb_instance p) v p" for p v using le_less_linear [of "pb_version p" v] by (simp add: subscription_domain_def)
  show "\<exists>barred s1. installer_accept ?st grant ?dm barred page s = (fst (subscription_accept st grant page s), s1)
      \<and> installer.truncate (snd (subscription_accept st grant page s)) = installer.truncate s1" for grant page s
    unfolding subscription_accept_def by (metis prod.collapse)
qed

lemma selection_accept_core:
  "\<exists>barred s1. installer_accept (registration_setting st) grant (selection_domain (registration_setting st)) barred page s = (fst (selection_accept st grant page s), s1)
    \<and> installer.truncate (snd (selection_accept st grant page s)) = installer.truncate s1"
proof -
  obtain r s1 where a: "installer_accept (registration_setting st) grant (selection_domain (registration_setting st)) (sl_fresh s) page s = (r, s1)" by fastforce
  have "fst (selection_accept st grant page s) = r" "installer.truncate (snd (selection_accept st grant page s)) = installer.truncate s1"
    unfolding selection_accept_def a by (cases r; simp add: installer.defs)+
  then show ?thesis using a by blast
qed

interpretation observer: wire_installer "registration_setting st" "selection_domain (registration_setting st)" selection_effect "selection_accept st"
proof unfold_locales
  let ?st = "registration_setting st" and ?dm = "selection_domain (registration_setting st)"
  show "tdraft_ok ?st d' \<and> draft_map ?st d' = selection_effect c (contents_map ?st current) (draft_map ?st d)"
    if "tdraft_ok ?st d" "do_step ?dm c mode current d = Step d'" for d c mode current d'
    using that step_set_ok [OF that(1)] draft_erase_ok [OF that(1)]
    by (auto simp: selection_domain_def selection_step_def selection_effect_def contents_map_def table_find_map Let_def simp del: fun_upd_apply
      split: ephemeris_action.splits if_splits option.splits)
  show "do_step ?dm c mode current d \<noteq> Step_thrown d'"
    if "tdraft_ok ?st d" "do_valid ?dm (do_key ?dm c)" "dr_bytes d \<le> 1024 * 1024 * 1024 * 2"
      and cur: "pred_option (\<lambda>p. table_ok ?st (pb_data p) \<and> tb_bytes (pb_data p) \<le> 1024 * 1024 * 1024) current" for d c mode current d'
  proof -
    have k: "length (ew_uuid c) \<le> 1024" using that(2) by (simp add: selection_domain_def selection_valid_def)
    have small: "step_set ?st (ew_uuid c) \<lparr>rg_attr = attr, rg_data = data\<rparr> d \<noteq> Step_thrown d'"
      if "length attr \<le> 1024 * 1024 * 1024 + 1024 * 1024" "length data \<le> 1024 * 1024" for attr data
      using step_set_small [OF \<open>tdraft_ok ?st d\<close> \<open>dr_bytes d \<le> 1024 * 1024 * 1024 * 2\<close> k] that by (simp add: registration_setting_def)
    have old: "length (rg_attr r) \<le> 1024 * 1024 * 1024 + 1024 * 1024" if "current = Some p" "table_find ?st (ew_uuid c) (pb_data p) = Some r" for p r
      using find_bytes [of ?st "pb_data p", OF _ that(2)] cur that(1) by (simp add: registration_setting_def)
    show ?thesis
    proof (cases "ew_action c")
      case (Ev_record attr data)
      then show ?thesis using small by (auto simp: selection_domain_def selection_step_def Let_def split: option.split)
    next
      case (Ev_data data)
      then show ?thesis using small old by (auto simp: selection_domain_def selection_step_def Let_def split: option.split)
    qed (simp_all add: selection_domain_def selection_step_def)
  qed
  show "pb_version p \<le> v \<or> do_older ?dm (pb_instance p) v p" for p v using le_less_linear [of "pb_version p" v] by (simp add: selection_domain_def)
  show "\<exists>barred s1. installer_accept ?st grant ?dm barred page s = (fst (selection_accept st grant page s), s1)
      \<and> installer.truncate (snd (selection_accept st grant page s)) = installer.truncate s1" for grant page s
    by (rule selection_accept_core)
qed

end
