(* ===== verification/Comet_Rules.thy ===== *)
theory Comet_Rules
  imports Comet_Install_Rules "HOL-Library.Code_Target_Nat"
begin

text \<open>
  What the client's views promise: complete batches are installed exactly, and nothing else changes them.
\<close>

subsection \<open>Properties\<close>

text \<open>What an installed batch is: the view of the last page, which is now the current one, holds exactly what the changes of all pages
  make of the contents the batch started from (of nothing, when the batch replaces everything); no key occurs twice in the batch;
  version and instance are those of the last page, and the version of an instance never falls.\<close>

definition installs :: "'r setting \<Rightarrow> ('c \<Rightarrow> string) \<Rightarrow> ('c \<Rightarrow> (string \<Rightarrow> 'r option) \<Rightarrow> (string \<Rightarrow> 'r option) \<Rightarrow> (string \<Rightarrow> 'r option))
    \<Rightarrow> 'c wpage list \<Rightarrow> ('r, 'z) installer_scheme \<Rightarrow> 'r cview \<Rightarrow> ('r, 'z) installer_scheme \<Rightarrow> bool" where
  "installs st key eff pages s v s' \<longleftrightarrow>
     (let mode = wp_mode (last pages); changes = concat (map wp_changes pages); before = contents_map st (in_current s)
      in in_draft s' = None \<and> cv_contents v = in_current s' \<and> in_current s' \<noteq> None \<and> (\<forall>p \<in> set pages. wp_mode p = mode) \<and> distinct (map key changes)
         \<and> (\<lambda>k. view_find st k v) = fold (\<lambda>c. eff c before) changes (if mode = Mode_reset then Map.empty else before)
         \<and> wp_version (last pages) = view_version v \<and> wp_instance (last pages) = view_instance v
         \<and> cview_size v = card {k. view_find st k v \<noteq> None} \<and> cview_size v \<le> in_records s'
         \<and> (\<forall>p. in_current s = Some p \<and> pb_instance p = view_instance v \<longrightarrow> pb_version p \<le> the (view_version v)))"

text \<open>What a run of pages leaves intact in any case: nothing is thrown; without an installation the contents stay; an installer that is
  still usable has refused nothing; and between batches the shared budget holds exactly the contents.\<close>

definition undisturbed :: "'r setting \<Rightarrow> ('r, 'z) installer_scheme \<Rightarrow> 'v accepted list \<Rightarrow> ('r, 'z) installer_scheme \<Rightarrow> bool" where
  "undisturbed st s rs s' \<longleftrightarrow> installer_ok st s' \<and> Thrown \<notin> set rs \<and> ((\<forall>v. Installed v \<notin> set rs) \<longrightarrow> in_current s' = in_current s)
     \<and> (in_valid s' \<longrightarrow> (\<forall>e. Failed e \<notin> set rs)) \<and> (in_draft s' = None \<and> in_budgeted s' \<longrightarrow> in_held s' = installer_footprint st s')"

context wire_installer
begin

lemma run_summary:
  assumes "installer_ok st s" "in_draft s = None" "accept_all acc (xs @ [x]) s = (rs, s')"
  shows "undisturbed st s rs s' \<and> (rs = map (\<lambda>_. Pending) xs @ [Installed v] \<longrightarrow> installs st (do_key dm) eff (map snd (xs @ [x])) s v s')"
proof -
  have un: "underway s []" using assms(2) by (simp add: underway_def)
  note keep = run_keeps [OF assms(1) un assms(3)]
  have "installs st (do_key dm) eff (map snd (xs @ [x])) s v s'" if rs: "rs = map (\<lambda>_. Pending) xs @ [Installed v]"
  proof -
    obtain c where c: "in_draft s' = None" "\<forall>y \<in> set xs. wp_mode (snd y) = wp_mode (snd x)" "cv_contents v = Some c" "in_current s' = Some c"
        "table_map st (pb_data c) = batch_outcome s (wp_mode (snd x)) (concat (map (wp_changes \<circ> snd) (xs @ [x])))"
        "distinct (map (do_key dm) (concat (map (wp_changes \<circ> snd) (xs @ [x]))))"
        "wp_version (snd x) = Some (pb_version c)" "wp_instance (snd x) = pb_instance c"
        "\<forall>p. in_current s = Some p \<and> pb_instance p = pb_instance c \<longrightarrow> pb_version p \<le> pb_version c"
      using run_installs [OF assms(1) un, of xs x v s'] assms(3) rs by auto
    have ch: "concat (map wp_changes (map snd (xs @ [x]))) = concat (map (wp_changes \<circ> snd) (xs @ [x]))" by (simp add: comp_def)
    have f: "(\<lambda>k. view_find st k v) = table_map st (pb_data c)" by (simp add: view_find_def c(3) table_find_map)
    have ok: "table_ok st (pb_data c)" "tb_size (pb_data c) \<le> in_records s'"
      using keep c(4) by (auto simp: installer_ok_def frame_ok_def published_ok_def)
    then have sh: "shape st (tb_pages (pb_data c)) (tb_size (pb_data c)) (tb_bytes (pb_data c)) (tb_overhead (pb_data c))" by (simp add: table_ok_def)
    have "cview_size v = card {k. view_find st k v \<noteq> None}" "cview_size v \<le> in_records s'"
      using all_rows_map(3) [OF sh] ok(2) by (simp_all add: cview_size_def view_find_def c(3) table_find_map dom_def)
    then show ?thesis unfolding installs_def Let_def ch f c(5) batch_outcome_def
      using c by (auto simp: view_version_def view_instance_def)
  qed
  then show ?thesis using keep unfolding undisturbed_def by blast
qed

end

lemma new_ok: "installer_new scope target bytes records budgeted = Some s \<Longrightarrow> frame_ok st s"
  by (auto simp: installer_new_def frame_ok_def split: if_splits)

text \<open>An installer for a scope at the start of a stream, and evaluation of its runs.\<close>

definition stream_start :: "'r setting \<Rightarrow> 'r installer" where
  "stream_start st = installer_begin st [] (the (installer_new \<lparr>sc_sector = ''prod'', sc_spectrum = ''eu''\<rparr> [] 65536 100 True))"

lemma stream_start_ok: "installer_ok st (stream_start st)" "in_draft (stream_start st) = None"
proof -
  obtain s :: "'a installer" where s: "installer_new \<lparr>sc_sector = ''prod'', sc_spectrum = ''eu''\<rparr> [] 65536 100 True = Some s"
    by (simp add: installer_new_def)
  then have "stream_start st = installer_begin st [] s" by (simp add: stream_start_def)
  then show "installer_ok st (stream_start st)" "in_draft (stream_start st) = None" using begin_ok [OF new_ok [OF s], of st] by simp_all
qed

definition pending_then_installed :: "'v accepted list \<Rightarrow> bool" where
  "pending_then_installed rs \<longleftrightarrow> (case rs of [Pending, Installed v] \<Rightarrow> True | _ \<Rightarrow> False)"

lemma pending_then_installedD:
  assumes "pending_then_installed rs"
  shows "\<exists>v. rs = map (\<lambda>_. Pending) [y] @ [Installed v]"
proof -
  obtain v where "rs = [Pending, Installed v]" using assms by (auto simp: pending_then_installed_def split: list.splits accepted.splits)
  then show ?thesis by simp
qed

lemma utf8_tail_code [code]:
  "utf8_tail n code s = (if n = 0 then Some (code, s) else case s of [] \<Rightarrow> None
     | c # s' \<Rightarrow> let b = code_of c in if and b 0xc0 \<noteq> 0x80 then None else utf8_tail (n - 1) (or (push_bit 6 code) (and b 0x3f)) s')"
  by (cases n; cases s) (simp_all add: Let_def)

text \<open>The reader of the almanac installs exact batches.  For every sequence of pages, accepted or not: nothing disturbs the current
  contents except a complete batch, and a batch that is accepted to its end is installed exactly.\<close>

theorem projection_installs:
  assumes "installer_ok (datum_setting st) s" "in_draft s = None" "accept_all (projection_accept st) (xs @ [x]) s = (rs, s')"
  shows "undisturbed (datum_setting st) s rs s'
    \<and> (rs = map (\<lambda>_. Pending) xs @ [Installed v] \<longrightarrow> installs (datum_setting st) ac_key projection_effect (map snd (xs @ [x])) s v s')"
  using reader.run_summary [OF assms] by (simp add: projection_domain_def)

definition projection_pages :: "((nat \<Rightarrow> bool) \<times> almanac_change wpage) list" where
  "projection_pages = [(\<lambda>n. n < 100000, \<lparr>wp_mode = Mode_reset, wp_complete = False, wp_version = None, wp_instance = [], wp_changes = [\<lparr>ac_key = ''a'', ac_action = Av_value [1, 2]\<rparr>, \<lparr>ac_key = ''bc'', ac_action = Av_value []\<rparr>], wp_size = 40\<rparr>),
     (\<lambda>n. n < 100000, \<lparr>wp_mode = Mode_reset, wp_complete = True, wp_version = Some 7, wp_instance = ''star'', wp_changes = [\<lparr>ac_key = ''d'', ac_action = Av_value [3]\<rparr>], wp_size = 40\<rparr>)]"

theorem projection_installs_witness:
  "\<exists>v s'. installs (datum_setting (plain_setting (\<lambda>_. 0))) ac_key projection_effect (map snd projection_pages) (stream_start (datum_setting (plain_setting (\<lambda>_. 0)))) v s'"
proof -
  obtain rs s' where run: "accept_all (projection_accept (plain_setting (\<lambda>_. 0))) projection_pages (stream_start (datum_setting (plain_setting (\<lambda>_. 0)))) = (rs, s')" by fastforce
  have "pending_then_installed (fst (accept_all (projection_accept (plain_setting (\<lambda>_. 0))) projection_pages (stream_start (datum_setting (plain_setting (\<lambda>_. 0))))))" by code_simp
  then obtain v where rs: "rs = map (\<lambda>_. Pending) [projection_pages ! 0] @ [Installed v]" using pending_then_installedD [of rs "projection_pages ! 0"] run by auto
  have pages: "projection_pages = [projection_pages ! 0] @ [projection_pages ! 1]" by (simp add: projection_pages_def)
  have "accept_all (projection_accept (plain_setting (\<lambda>_. 0))) ([projection_pages ! 0] @ [projection_pages ! 1]) (stream_start (datum_setting (plain_setting (\<lambda>_. 0)))) = (rs, s')"
    using run pages by metis
  then have "installs (datum_setting (plain_setting (\<lambda>_. 0))) ac_key projection_effect (map snd ([projection_pages ! 0] @ [projection_pages ! 1])) (stream_start (datum_setting (plain_setting (\<lambda>_. 0)))) v s'"
    using projection_installs [OF stream_start_ok] rs by blast
  then show ?thesis using pages by metis
qed

text \<open>The subscriber of the catalog installs exact batches, in the same sense, each value with its version.\<close>

theorem subscription_installs:
  assumes "installer_ok (publication_setting st) s" "in_draft s = None" "accept_all (subscription_accept st) (xs @ [x]) s = (rs, s')"
  shows "undisturbed (publication_setting st) s rs s'
    \<and> (rs = map (\<lambda>_. Pending) xs @ [Installed v] \<longrightarrow> installs (publication_setting st) cw_key subscription_effect (map snd (xs @ [x])) s v s')"
  using subscriber.run_summary [OF assms] by (simp add: subscription_domain_def)

definition subscription_pages :: "((nat \<Rightarrow> bool) \<times> catalog_wchange wpage) list" where
  "subscription_pages = [(\<lambda>n. n < 100000, \<lparr>wp_mode = Mode_reset, wp_complete = False, wp_version = None, wp_instance = [], wp_changes = [\<lparr>cw_key = ''a'', cw_action = Cv_value [1, 2], cw_version = 4\<rparr>, \<lparr>cw_key = ''bc'', cw_action = Cv_value [], cw_version = 1\<rparr>], wp_size = 40\<rparr>),
     (\<lambda>n. n < 100000, \<lparr>wp_mode = Mode_reset, wp_complete = True, wp_version = Some 7, wp_instance = ''star'', wp_changes = [\<lparr>cw_key = ''d'', cw_action = Cv_value [3], cw_version = 9\<rparr>], wp_size = 40\<rparr>)]"

theorem subscription_installs_witness:
  "\<exists>v s'. installs (publication_setting (plain_setting (\<lambda>_. 0))) cw_key subscription_effect (map snd subscription_pages) (stream_start (publication_setting (plain_setting (\<lambda>_. 0)))) v s'"
proof -
  obtain rs s' where run: "accept_all (subscription_accept (plain_setting (\<lambda>_. 0))) subscription_pages (stream_start (publication_setting (plain_setting (\<lambda>_. 0)))) = (rs, s')" by fastforce
  have "pending_then_installed (fst (accept_all (subscription_accept (plain_setting (\<lambda>_. 0))) subscription_pages (stream_start (publication_setting (plain_setting (\<lambda>_. 0))))))" by code_simp
  then obtain v where rs: "rs = map (\<lambda>_. Pending) [subscription_pages ! 0] @ [Installed v]" using pending_then_installedD [of rs "subscription_pages ! 0"] run by auto
  have pages: "subscription_pages = [subscription_pages ! 0] @ [subscription_pages ! 1]" by (simp add: subscription_pages_def)
  have "accept_all (subscription_accept (plain_setting (\<lambda>_. 0))) ([subscription_pages ! 0] @ [subscription_pages ! 1]) (stream_start (publication_setting (plain_setting (\<lambda>_. 0)))) = (rs, s')"
    using run pages by metis
  then have "installs (publication_setting (plain_setting (\<lambda>_. 0))) cw_key subscription_effect (map snd ([subscription_pages ! 0] @ [subscription_pages ! 1])) (stream_start (publication_setting (plain_setting (\<lambda>_. 0)))) v s'"
    using subscription_installs [OF stream_start_ok] rs by blast
  then show ?thesis using pages by metis
qed

lemma selection_fresh:
  assumes "in_draft s = None" "sl_fresh s" "wp_mode page = Mode_apply"
  shows "\<exists>e. fst (selection_accept st grant page s) = Failed e"
  using assms unfolding selection_accept_def installer_accept_def installer_fail_def by (auto simp: Let_def)


definition observer_start :: selection where
  "observer_start = installer.extend (stream_start (registration_setting (plain_setting (\<lambda>_. 0)))) \<lparr>sl_repaired = False, sl_fresh = True\<rparr>"

lemma observer_start_ok: "installer_ok (registration_setting (plain_setting (\<lambda>_. 0))) observer_start" "in_draft observer_start = None"
proof -
  let ?st = "registration_setting (plain_setting (\<lambda>_. 0))"
  have "installer.truncate observer_start = installer.truncate (stream_start ?st)" by (simp add: observer_start_def installer.defs selection.defs)
  then show "installer_ok ?st observer_start" "in_draft observer_start = None"
    using truncate_ok truncate_fields(6) stream_start_ok by metis+
qed

definition selection_pages :: "((nat \<Rightarrow> bool) \<times> ephemeris_wchange wpage) list" where
  "selection_pages = [(\<lambda>n. n < 100000, \<lparr>wp_mode = Mode_reset, wp_complete = False, wp_version = None, wp_instance = [], wp_changes = [\<lparr>ew_uuid = replicate 6 (CHR ''a'') @ CHR 0x41 # CHR ''x'' # CHR 0x80 # replicate 7 (CHR ''y''), ew_action = Ev_record [1] [2]\<rparr>, \<lparr>ew_uuid = replicate 6 (CHR ''b'') @ CHR 0x41 # CHR ''x'' # CHR 0x80 # replicate 7 (CHR ''y''), ew_action = Ev_record [] []\<rparr>], wp_size = 40\<rparr>),
     (\<lambda>n. n < 100000, \<lparr>wp_mode = Mode_reset, wp_complete = True, wp_version = Some 7, wp_instance = ''star'', wp_changes = [\<lparr>ew_uuid = replicate 6 (CHR ''c'') @ CHR 0x41 # CHR ''x'' # CHR 0x80 # replicate 7 (CHR ''y''), ew_action = Ev_record [5] [2]\<rparr>], wp_size = 40\<rparr>)]"


end
