(* ===== verification/Watch_Page.thy ===== *)
theory Watch_Page
  imports Edition Scene_Rules Comet_Rules
begin

text \<open>
  Pages from both ends: what a Star puts into one page of an edition, and which pages a client's installer cannot object to.
\<close>

subsection \<open>A page of rows\<close>

text \<open>What a row is made of: the key, the record or its absence, and whether only the data has changed.\<close>

type_synonym 'x row_source = "string \<times> 'x option \<times> bool"

definition row_cost :: "('n, 'x, 'c) encoding \<Rightarrow> 'x row_source \<Rightarrow> nat" where
  "row_cost en = (\<lambda>(k, x, data). length k + the (en_payload en k x data) + 48)"

definition row_change :: "('n, 'x, 'c) encoding \<Rightarrow> 'x row_source \<Rightarrow> 'c" where
  "row_change en = (\<lambda>(k, x, data). en_change en k x data)"

text \<open>Rows of moderate size: none of them can exceed the hard limit of a page.\<close>

definition row_fits :: "('n, 'x, 'c) encoding \<Rightarrow> 'x row_source \<Rightarrow> bool" where
  "row_fits en = (\<lambda>(k, x, data). length k \<le> 1024 \<and> (\<exists>p \<le> 2 * 1024 * 1024. en_payload en k x data = Some p))"

fun append_rows :: "('n, 'x, 'c) encoding \<Rightarrow> 'x row_source list \<Rightarrow> 'c list \<times> nat \<Rightarrow> (nat \<times> ('c list \<times> nat)) option" where
  "append_rows en [] acc = Some (0, acc)"
| "append_rows en ((k, x, data) # rs) acc =
     (case append_row en acc k x data of
        None \<Rightarrow> None
      | Some (False, acc') \<Rightarrow> Some (0, acc')
      | Some (True, acc') \<Rightarrow> map_option (\<lambda>(n, a). (Suc n, a)) (append_rows en rs acc'))"

lemma append_changes_rows: "append_changes en es acc = append_rows en (map (\<lambda>e. (event_key en e, ev_record e, ev_data e)) es) acc"
  by (induction es arbitrary: acc) (simp_all split: option.split bool.split)

lemma apfst_Suc: "apfst Suc = (\<lambda>(n, a). (Suc n, a))"
  by (auto simp: fun_eq_iff)

lemma read_page_rows:
  "read_page (\<lambda>acc n x. append_row en acc (en_key en n) (Some x) False) es acc = append_rows en (map (\<lambda>(n, x). (en_key en n, Some x, False)) es) acc"
  by (induction es arbitrary: acc) (auto simp: apfst_Suc split: option.split bool.split)

lemma append_row_fits:
  assumes "row_fits en (k, x, data)" "bytes \<le> 3 * 1024 * 1024"
  obtains "append_row en (rows, bytes) k x data = Some (True, rows @ [en_change en k x data], bytes + row_cost en (k, x, data))"
      "rows = [] \<or> bytes + row_cost en (k, x, data) \<le> 256 * 1024"
    | "append_row en (rows, bytes) k x data = Some (False, rows, bytes)" "rows \<noteq> []"
proof -
  obtain p where p: "en_payload en k x data = Some p" "p \<le> 2 * 1024 * 1024" "length k \<le> 1024" using assms(1) by (auto simp: row_fits_def)
  define cost where "cost = length k + p + 48"
  have c: "row_cost en (k, x, data) = cost" "cost \<le> 2 * 1024 * 1024 + 1072" using p by (simp_all add: row_cost_def cost_def)
  have hard: "\<not> (length k > 8 * 1024 * 1024 \<or> p > 8 * 1024 * 1024)" "\<not> (bytes \<ge> 8 * 1024 * 1024 \<or> cost > 8 * 1024 * 1024 - bytes)"
    using p(2,3) assms(2) c(2) by simp_all
  show thesis
  proof (cases "rows \<noteq> [] \<and> (length rows \<ge> 256 \<or> cost > 256 * 1024 - min bytes (256 * 1024))")
    case True
    then have "append_row en (rows, bytes) k x data = Some (False, rows, bytes)"
      using hard p(1) unfolding append_row_def by (simp add: Let_def cost_def [symmetric] del: not_less)
    then show thesis using that(2) True by blast
  next
    case False
    then have a: "append_row en (rows, bytes) k x data = Some (True, rows @ [en_change en k x data], bytes + cost)"
      using hard p(1) unfolding append_row_def by (simp add: Let_def cost_def [symmetric] del: not_less)
    have "rows = [] \<or> bytes + cost \<le> 256 * 1024" using False by (auto simp: cost_def min_def split: if_splits)
    then show thesis using that(1) a unfolding c(1) by fastforce
  qed
qed

text \<open>Reading rows into a page takes a prefix, at least one row when the page is empty, and stays far below the hard limit.\<close>

lemma append_rows_fit:
  assumes "list_all (row_fits en) rs" "bytes \<le> 256 * 1024 \<or> (rows \<noteq> [] \<and> bytes \<le> 3 * 1024 * 1024)"
  shows "\<exists>m bytes'. append_rows en rs (rows, bytes) = Some (m, rows @ map (row_change en) (take m rs), bytes')
    \<and> m \<le> length rs \<and> (rows = [] \<and> rs \<noteq> [] \<longrightarrow> 0 < m) \<and> bytes' \<le> 3 * 1024 * 1024
    \<and> bytes' = bytes + sum_list (map (row_cost en) (take m rs))"
  using assms
proof (induction rs arbitrary: rows bytes)
  case Nil
  then show ?case by auto
next
  case (Cons r rs)
  obtain k x data where r: "r = (k, x, data)" by (metis prod_cases3)
  have fit: "row_fits en (k, x, data)" and b: "bytes \<le> 3 * 1024 * 1024" using Cons.prems r by auto
  have cost: "row_cost en (k, x, data) \<le> 2 * 1024 * 1024 + 1072" using fit by (auto simp: row_fits_def row_cost_def)
  from append_row_fits [OF fit b, of rows] show ?case
  proof cases
    case 1
    let ?bytes = "bytes + row_cost en (k, x, data)" and ?rows = "rows @ [en_change en k x data]"
    have "?bytes \<le> 256 * 1024 \<or> (?rows \<noteq> [] \<and> ?bytes \<le> 3 * 1024 * 1024)" using 1(2) Cons.prems(2) cost by auto
    then obtain m bytes' where m: "append_rows en rs (?rows, ?bytes) = Some (m, ?rows @ map (row_change en) (take m rs), bytes')"
        "m \<le> length rs" "bytes' \<le> 3 * 1024 * 1024" "bytes' = ?bytes + sum_list (map (row_cost en) (take m rs))"
      using Cons.IH [of ?bytes ?rows] Cons.prems(1) by auto
    then have "append_rows en (r # rs) (rows, bytes) = Some (Suc m, rows @ map (row_change en) (take (Suc m) (r # rs)), bytes')"
      using 1(1) r by (simp add: row_change_def)
    then show ?thesis using m r by (intro exI [of _ "Suc m"] exI [of _ bytes']) simp
  next
    case 2
    then have "append_rows en (r # rs) (rows, bytes) = Some (0, rows, bytes)" using r by simp
    then show ?thesis using 2(2) b by (intro exI [of _ 0] exI [of _ bytes]) simp
  qed
qed

subsection \<open>The next page\<close>

text \<open>The rows an edition has frozen.\<close>

definition frozen_rows :: "('n, 'x, 'c) encoding \<Rightarrow> ('n, 'x) frozen \<Rightarrow> 'x row_source list" where
  "frozen_rows en data = (case data of
     Whole view \<Rightarrow> map (\<lambda>(n, x). (en_key en n, Some x, False)) (view_entries (sv_root view))
   | Point key x \<Rightarrow> (case x of None \<Rightarrow> [] | Some r \<Rightarrow> [(key, Some r, False)])
   | Changes es \<Rightarrow> map (\<lambda>e. (event_key en e, ev_record e, ev_data e)) es)"

definition frozen_fine :: "('n, 'x) frozen \<Rightarrow> nat \<Rightarrow> bool" where
  "frozen_fine data offset = (case data of
     Whole view \<Rightarrow> view_ok (sv_root view) \<and> sv_size view = unat (view_size (sv_root view)) | Point key x \<Rightarrow> offset = 0 | Changes es \<Rightarrow> True)"

lemma edition_next_page:
  assumes e: "frozen_fine (ed_data e) (ed_offset e)" "\<not> ed_complete e" "rs = frozen_rows en (ed_data e)" "ed_offset e \<le> length rs"
    and i: "inst \<noteq> []" "length inst \<le> 128" and fit: "list_all (row_fits en) rs"
  obtains m page e' where "edition_next en encoded inst e = Inr (page, e')" "ed_offset e + m \<le> length rs"
    "ed_offset e < length rs \<Longrightarrow> 0 < m" "e' = e\<lparr>ed_offset := ed_offset e + m, ed_complete := (ed_offset e + m = length rs)\<rparr>"
    "wp_mode page = ed_mode e" "wp_complete page = (ed_offset e + m = length rs)"
    "wp_version page = (if wp_complete page then Some (ed_version e) else None)" "wp_instance page = (if wp_complete page then inst else [])"
    "wp_changes page = map (row_change en) (take m (drop (ed_offset e) rs))" "wp_size page = encoded (page\<lparr>wp_size := 0\<rparr>)"
    "length inst + 64 + sum_list (map (row_cost en) (take m (drop (ed_offset e) rs))) \<le> 3 * 1024 * 1024" "\<not> wp_complete page \<Longrightarrow> frozen_fine (ed_data e) (ed_offset e + m)"
proof -
  let ?rest = "drop (ed_offset e) rs"
  define read where "read = (case ed_data e of
                  Whole view \<Rightarrow>
                    (case view_page (sv_root view) (ed_offset e) 256 (\<lambda>acc name r. append_row en acc (en_key en name) (Some r) False) ([], length inst + 64) of
                       Inl _ \<Rightarrow> None
                     | Inr (consumed, rows, bytes) \<Rightarrow> Some (consumed, rows, ed_offset e + consumed = sv_size view))
                | Point key record \<Rightarrow>
                    (case record of
                       None \<Rightarrow> Some (0, [], True)
                     | Some r \<Rightarrow> map_option (\<lambda>(_, rows, bytes). (1, rows, True)) (append_row en ([], length inst + 64) key (Some r) False))
                | Changes changes \<Rightarrow>
                    map_option (\<lambda>(consumed, rows, bytes). (consumed, rows, ed_offset e + consumed = length changes))
                      (append_changes en (drop (ed_offset e) changes) ([], length inst + 64)))"
  have fb: "length inst + 64 \<le> 256 * 1024 \<or> ([] :: 'c list) \<noteq> [] \<and> length inst + 64 \<le> 3 * 1024 * 1024" using i(2) by simp
  have prefix: "\<exists>m bytes. append_rows en (take l ?rest) ([], length inst + 64) = Some (m, map (row_change en) (take m (take l ?rest)), bytes)
      \<and> m \<le> length (take l ?rest) \<and> (take l ?rest \<noteq> [] \<longrightarrow> 0 < m) \<and> length inst + 64 + sum_list (map (row_cost en) (take m (take l ?rest))) \<le> 3 * 1024 * 1024" for l
  proof -
    have "list_all (row_fits en) (take l ?rest)" using fit unfolding list_all_iff by (meson in_set_dropD in_set_takeD)
    then show ?thesis using append_rows_fit [OF _ fb, of en "take l ?rest"] by fastforce
  qed
  have "\<exists>m. read = Some (m, map (row_change en) (take m ?rest), ed_offset e + m = length rs) \<and> ed_offset e + m \<le> length rs \<and> (ed_offset e < length rs \<longrightarrow> 0 < m)
      \<and> length inst + 64 + sum_list (map (row_cost en) (take m ?rest)) \<le> 3 * 1024 * 1024 \<and> (ed_offset e + m \<noteq> length rs \<longrightarrow> frozen_fine (ed_data e) (ed_offset e + m))"
  proof (cases "ed_data e")
    case (Whole view)
    let ?ves = "view_entries (sv_root view)" and ?f = "\<lambda>(n, x). (en_key en n, Some x, False)"
    have v: "view_ok (sv_root view)" "sv_size view = length ?ves" using e(1) Whole view_page_read(1) by (auto simp: frozen_fine_def)
    have rs: "rs = map ?f ?ves" using e(3) Whole by (simp add: frozen_rows_def)
    obtain m bytes where m: "append_rows en (take 256 ?rest) ([], length inst + 64) = Some (m, map (row_change en) (take m (take 256 ?rest)), bytes)"
      "m \<le> length (take 256 ?rest)" "take 256 ?rest \<noteq> [] \<longrightarrow> 0 < m" "length inst + 64 + sum_list (map (row_cost en) (take m (take 256 ?rest))) \<le> 3 * 1024 * 1024"
      using prefix [of 256] by blast
    have tk: "take m (take 256 ?rest) = take m ?rest" using m(2) by simp
    have "take 256 ?rest = map ?f (take 256 (drop (ed_offset e) ?ves))" by (simp add: rs take_map drop_map)
    then have "view_page (sv_root view) (ed_offset e) 256 (\<lambda>acc name r. append_row en acc (en_key en name) (Some r) False) ([], length inst + 64)
        = Inr (m, map (row_change en) (take m ?rest), bytes)"
      using view_page_read(2) [OF v(1), of "ed_offset e" 256 "\<lambda>acc name r. append_row en acc (en_key en name) (Some r) False" "([], length inst + 64)"] m(1) e(4)
      unfolding read_page_rows tk by (simp add: rs)
    then have "read = Some (m, map (row_change en) (take m ?rest), ed_offset e + m = length rs)" using Whole v(2) rs by (simp add: read_def)
    then show ?thesis using m(2-4) e(4) e(1) tk Whole by (intro exI [of _ m]) (auto simp: frozen_fine_def)
  next
    case (Point key x)
    have z: "ed_offset e = 0" using e(1) Point by (simp add: frozen_fine_def)
    show ?thesis
    proof (cases x)
      case None
      then have "rs = []" "read = Some (0, [], True)" using e(3) Point by (simp_all add: frozen_rows_def read_def)
      then show ?thesis using z i(2) by simp
    next
      case (Some r)
      then have rs: "rs = [(key, Some r, False)]" using e(3) Point by (simp add: frozen_rows_def)
      then have f: "row_fits en (key, Some r, False)" "length inst + 64 \<le> 3 * 1024 * 1024" using fit i(2) by simp_all
      have c: "row_cost en (key, Some r, False) \<le> 2 * 1024 * 1024 + 1072" using f(1) by (auto simp: row_fits_def row_cost_def)
      from append_row_fits [OF f, of "[]"] have "append_row en ([], length inst + 64) key (Some r) False
          = Some (True, [en_change en key (Some r) False], length inst + 64 + row_cost en (key, Some r, False))" by auto
      then have "read = Some (1, [row_change en (key, Some r, False)], True)" using Point Some by (simp add: read_def row_change_def)
      then show ?thesis using rs z c i(2) by (intro exI [of _ 1]) simp
    qed
  next
    case (Changes es)
    let ?f = "\<lambda>e. (event_key en e, ev_record e, ev_data e)"
    have rs: "rs = map ?f es" using e(3) Changes by (simp add: frozen_rows_def)
    obtain m bytes where m: "append_rows en ?rest ([], length inst + 64) = Some (m, map (row_change en) (take m ?rest), bytes)"
      "m \<le> length ?rest" "?rest \<noteq> [] \<longrightarrow> 0 < m" "length inst + 64 + sum_list (map (row_cost en) (take m ?rest)) \<le> 3 * 1024 * 1024"
      using prefix [of "length ?rest"] by auto
    have "append_changes en (drop (ed_offset e) es) ([], length inst + 64) = Some (m, map (row_change en) (take m ?rest), bytes)"
      unfolding append_changes_rows using m(1) by (simp add: rs drop_map)
    then have "read = Some (m, map (row_change en) (take m ?rest), ed_offset e + m = length rs)" using Changes rs by (simp add: read_def)
    then show ?thesis using m(2-4) e(4) Changes by (intro exI [of _ m]) (auto simp: frozen_fine_def)
  qed
  then obtain m where m: "read = Some (m, map (row_change en) (take m ?rest), ed_offset e + m = length rs)" "ed_offset e + m \<le> length rs"
    "ed_offset e < length rs \<longrightarrow> 0 < m" "length inst + 64 + sum_list (map (row_cost en) (take m ?rest)) \<le> 3 * 1024 * 1024"
    "ed_offset e + m \<noteq> length rs \<longrightarrow> frozen_fine (ed_data e) (ed_offset e + m)" by blast
  define page where "page = \<lparr>wp_mode = ed_mode e, wp_complete = (ed_offset e + m = length rs),
    wp_version = (if ed_offset e + m = length rs then Some (ed_version e) else None), wp_instance = (if ed_offset e + m = length rs then inst else []),
    wp_changes = map (row_change en) (take m ?rest), wp_size = 0\<rparr>"
  have "edition_next en encoded inst e = Inr (page\<lparr>wp_size := encoded page\<rparr>, e\<lparr>ed_offset := ed_offset e + m, ed_complete := (ed_offset e + m = length rs)\<rparr>)"
    unfolding edition_next_def Let_def read_def [symmetric] m(1) using e(2) i by (simp add: page_def)
  moreover have "page\<lparr>wp_size := encoded page\<rparr>\<lparr>wp_size := 0\<rparr> = page" by (simp add: page_def)
  ultimately show thesis using m(2-5) by (intro that [of "page\<lparr>wp_size := encoded page\<rparr>"]) (auto simp: page_def)
qed

subsection \<open>Pages a client cannot object to\<close>

lemma changes_frame: "\<exists>d sn sb. snd (install_changes dm track cs s) = s\<lparr>in_draft := d, in_seen := sn, in_seen_bytes := sb\<rparr>"
proof (induction cs arbitrary: s)
  case Nil
  have "snd (install_changes dm track [] s) = s\<lparr>in_draft := in_draft s, in_seen := in_seen s, in_seen_bytes := in_seen_bytes s\<rparr>" by simp
  then show ?case by blast
next
  case (Cons c cs)
  let ?key = "do_key dm c"
  define s1 where "s1 = (if track then s\<lparr>in_seen := ?key # in_seen s, in_seen_bytes := in_seen_bytes s + length ?key\<rparr> else s)"
  have s1: "s1\<lparr>in_draft := d, in_seen := sn, in_seen_bytes := sb\<rparr> = s\<lparr>in_draft := d, in_seen := sn, in_seen_bytes := sb\<rparr>" for d sn sb by (simp add: s1_def)
  have id: "x = x\<lparr>in_draft := in_draft x, in_seen := in_seen x, in_seen_bytes := in_seen_bytes x\<rparr>" for x :: "('a, 'b) installer_scheme" by simp
  have "snd (install_changes dm track (c # cs) s) \<in> {s, s1} \<or> (\<exists>d. snd (install_changes dm track (c # cs) s) = s1\<lparr>in_draft := Some d\<rparr>)
      \<or> (\<exists>d. snd (install_changes dm track (c # cs) s) = snd (install_changes dm track cs (s1\<lparr>in_draft := Some d\<rparr>)))"
    unfolding install_changes.simps Let_def s1_def [symmetric] by (simp split: step.split) blast
  then consider "snd (install_changes dm track (c # cs) s) = s" | "snd (install_changes dm track (c # cs) s) = s1"
    | d where "snd (install_changes dm track (c # cs) s) = s1\<lparr>in_draft := Some d\<rparr>"
    | d where "snd (install_changes dm track (c # cs) s) = snd (install_changes dm track cs (s1\<lparr>in_draft := Some d\<rparr>))" by blast
  then show ?case
  proof cases
    case 1
    then show ?thesis using id [of s] by metis
  next
    case 2
    then show ?thesis using id [of s1] s1 by metis
  next
    case (3 d)
    have "s1\<lparr>in_draft := Some d\<rparr> = s1\<lparr>in_draft := Some d, in_seen := in_seen s1, in_seen_bytes := in_seen_bytes s1\<rparr>" by simp
    then show ?thesis using 3 s1 by metis
  next
    case (4 d)
    obtain d' sn sb where "snd (install_changes dm track cs (s1\<lparr>in_draft := Some d\<rparr>)) = s1\<lparr>in_draft := Some d\<rparr>\<lparr>in_draft := d', in_seen := sn, in_seen_bytes := sb\<rparr>"
      using Cons by blast
    moreover have "s1\<lparr>in_draft := Some d\<rparr>\<lparr>in_draft := d', in_seen := sn, in_seen_bytes := sb\<rparr> = s1\<lparr>in_draft := d', in_seen := sn, in_seen_bytes := sb\<rparr>" by simp
    ultimately show ?thesis using 4 s1 by metis
  qed
qed

lemma changes_fields:
  "in_valid (snd (install_changes dm track cs s)) = in_valid s" "in_target (snd (install_changes dm track cs s)) = in_target s"
  "in_expected (snd (install_changes dm track cs s)) = in_expected s" "in_first (snd (install_changes dm track cs s)) = in_first s"
proof -
  obtain d sn sb where "snd (install_changes dm track cs s) = s\<lparr>in_draft := d, in_seen := sn, in_seen_bytes := sb\<rparr>" using changes_frame by blast
  then show "in_valid (snd (install_changes dm track cs s)) = in_valid s" "in_target (snd (install_changes dm track cs s)) = in_target s"
    "in_expected (snd (install_changes dm track cs s)) = in_expected s" "in_first (snd (install_changes dm track cs s)) = in_first s" by simp_all
qed

lemma fail_not_pending: "fst (installer_fail st code s) \<noteq> Pending"
  by (simp add: installer_fail_def)

lemma tail_pending:
  assumes "install_tail st grant page s = (Pending, s')"
  shows "in_valid s' = in_valid s" "in_target s' = in_target s" "in_expected s' = in_expected s" "in_first s' = in_first s"
  using assms fail_not_pending by (auto simp: install_tail_def Let_def installer_fail_def split: if_splits)

lemma pending_fields:
  assumes "installer_accept st grant dm barred page s = (Pending, s')"
  shows "in_valid s' = in_valid s" "in_target s' = in_target s" "in_expected s' = in_expected s" "in_first s' = in_first s"
proof -
  define s1 where "s1 = (if in_draft s = None then s\<lparr>in_mode := wp_mode page,
      in_draft := Some (draft_new (if wp_mode page = Mode_reset then table_new else pb_data (the (in_current s))))\<rparr> else s)"
  define track where "track \<longleftrightarrow> \<not> wp_complete page \<or> length (wp_changes page) \<noteq> 1 \<or> in_seen s1 \<noteq> []"
  obtain f s2 where ch: "install_changes dm track (wp_changes page) s1 = (f, s2)" by fastforce
  have no: "installer_fail st c x = (Pending, s') \<longleftrightarrow> False" for c x using fail_not_pending [of st c x] by (metis fst_conv)
  have "f = Go \<and> install_tail st grant page s2 = (Pending, s')"
    using assms unfolding installer_accept_def Let_def s1_def [symmetric] track_def [symmetric] ch by (cases f) (simp_all add: no split: if_splits)
  moreover have "in_valid s2 = in_valid s1" "in_target s2 = in_target s1" "in_expected s2 = in_expected s1" "in_first s2 = in_first s1"
    using changes_fields [of dm track "wp_changes page" s1] ch by simp_all
  moreover have "in_valid s1 = in_valid s" "in_target s1 = in_target s" "in_expected s1 = in_expected s" "in_first s1 = in_first s" by (simp_all add: s1_def)
  ultimately show "in_valid s' = in_valid s" "in_target s' = in_target s" "in_expected s' = in_expected s" "in_first s' = in_first s" using tail_pending by metis+
qed

lemma tail_installed:
  assumes "install_tail st grant page s = (Installed v, s')"
  shows "in_valid s' = in_valid s" "in_target s' = in_target s" "in_expected s' = wp_instance page"
  using assms by (auto simp: install_tail_def Let_def installer_fail_def installer_discard_def split: if_splits)

lemma installed_fields:
  assumes "installer_accept st grant dm barred page s = (Installed v, s')"
  shows "in_valid s' = in_valid s" "in_target s' = in_target s" "in_expected s' = wp_instance page"
proof -
  define s1 where "s1 = (if in_draft s = None then s\<lparr>in_mode := wp_mode page,
      in_draft := Some (draft_new (if wp_mode page = Mode_reset then table_new else pb_data (the (in_current s))))\<rparr> else s)"
  define track where "track \<longleftrightarrow> \<not> wp_complete page \<or> length (wp_changes page) \<noteq> 1 \<or> in_seen s1 \<noteq> []"
  obtain f s2 where ch: "install_changes dm track (wp_changes page) s1 = (f, s2)" by fastforce
  have no: "installer_fail st c x = (Installed v, s') \<longleftrightarrow> False" for c x by (simp add: installer_fail_def)
  have "install_tail st grant page s2 = (Installed v, s')"
    using assms unfolding installer_accept_def Let_def s1_def [symmetric] track_def [symmetric] ch by (cases f) (simp_all add: no split: if_splits)
  moreover have "in_valid s2 = in_valid s1" "in_target s2 = in_target s1" using changes_fields [of dm track "wp_changes page" s1] ch by simp_all
  moreover have "in_valid s1 = in_valid s" "in_target s1 = in_target s" by (simp_all add: s1_def)
  ultimately show "in_valid s' = in_valid s" "in_target s' = in_target s" "in_expected s' = wp_instance page" using tail_installed by metis+
qed

context wire_domain
begin

definition takes :: "('r, 'z) installer_scheme \<Rightarrow> wire_mode \<Rightarrow> 'c \<Rightarrow> bool" where
  "takes s mode c \<longleftrightarrow> do_valid dm (do_key dm c) \<and> (in_target s = [] \<or> in_target s = do_key dm c)
     \<and> (\<forall>d. tdraft_ok st d \<and> dr_bytes d \<le> 1024 * 1024 * 1024 * 2 \<longrightarrow> (\<exists>d'. do_step dm c mode (in_current s) d = Step d'))"

lemma changes_go:
  assumes "frame_ok st s" "in_draft s = Some d" "prepared_ok st s d" "\<forall>c \<in> set cs. takes s (in_mode s) c"
    "distinct (map (do_key dm) cs)" "track \<longrightarrow> do_key dm ` set cs \<inter> set (in_seen s) = {}"
  shows "fst (install_changes dm track cs s) \<in> {Go, Stop Co_limit}"
  using assms
proof (induction cs arbitrary: s d)
  case (Cons c cs)
  let ?key = "do_key dm c"
  have v: "do_valid dm ?key" "in_target s = [] \<or> in_target s = ?key" "?key \<notin> set (in_seen s) \<or> \<not> track"
    using Cons.prems(4,6) by (auto simp: takes_def)
  define s1 where "s1 = (if track then s\<lparr>in_seen := ?key # in_seen s, in_seen_bytes := in_seen_bytes s + length ?key\<rparr> else s)"
  have dk: "tdraft_ok st d" "dr_bytes d \<le> 1024 * 1024 * 1024 * 2" using Cons.prems(1,3) by (simp_all add: prepared_ok_def frame_ok_def)
  then obtain d' where d': "do_step dm c (in_mode s) (in_current s) d = Step d'" using Cons.prems(4) by (auto simp: takes_def)
  define s2 where "s2 = s1\<lparr>in_draft := Some d'\<rparr>"
  have run: "install_changes dm track (c # cs) s =
      (if track \<and> length (in_seen s) = in_records s * 2 then (Stop Co_limit, s)
       else if dr_size d' > in_records s * 2 \<or> dr_bytes d' > in_bytes s * 2 then (Stop Co_limit, s2) else install_changes dm track cs s2)"
    using v Cons.prems(2) d' by (auto simp: Let_def s2_def s1_def)
  show ?case
  proof (cases "track \<and> length (in_seen s) = in_records s * 2 \<or> dr_size d' > in_records s * 2 \<or> dr_bytes d' > in_bytes s * 2")
    case True
    then show ?thesis unfolding run by auto
  next
    case False
    have f: "in_mode s2 = in_mode s" "in_current s2 = in_current s" "in_target s2 = in_target s" "in_draft s2 = Some d'" "in_records s2 = in_records s"
        "in_bytes s2 = in_bytes s" "in_seen s2 = (if track then ?key # in_seen s else in_seen s)"
      by (simp_all add: s2_def s1_def)
    have "frame_ok st s2" "prepared_ok st s2 d'"
      using Cons.prems(1,3) step_taken [OF dk(1) d'] False by (simp_all add: frame_ok_def prepared_ok_def f)
    moreover have "\<forall>c \<in> set cs. takes s2 (in_mode s2) c" using Cons.prems(4) by (simp add: takes_def f)
    moreover have "track \<longrightarrow> do_key dm ` set cs \<inter> set (in_seen s2) = {}" using Cons.prems(5,6) by (auto simp: f)
    ultimately have "fst (install_changes dm track cs s2) \<in> {Go, Stop Co_limit}" using Cons.IH [of s2 d'] Cons.prems(5) f by simp
    then show ?thesis unfolding run using False by simp
  qed
qed simp

lemma fail_code: "fst (installer_fail st code s) = Failed e \<Longrightarrow> ce_code e = code"
  by (auto simp: installer_fail_def)

lemma tail_code:
  assumes "in_draft s = Some d" "wp_complete page \<and> the (wp_version page) = 0 \<longrightarrow> dr_size d = 0" "fst (install_tail st grant page s) = Failed e"
  shows "ce_code e = Co_limit"
  using assms unfolding install_tail_def Let_def by (auto split: if_splits simp: fail_code)

lemma accept_good:
  assumes ok: "installer_ok st s" and un: "underway s cs" and acc: "installer_accept st grant dm barred page s = (r, s')"
    and wf: "in_valid s" "wp_complete page = (wp_version page \<noteq> None)" "wp_complete page = (wp_instance page \<noteq> [])"
      "wp_complete page \<or> wp_changes page \<noteq> []" "wp_size page \<le> 8 * 1024 * 1024"
    and open_mode: "in_draft s = None \<Longrightarrow> wp_mode page = Mode_reset \<and> in_first s \<or> wp_mode page = Mode_apply \<and> in_current s \<noteq> None \<and> \<not> barred"
    and same_mode: "in_draft s \<noteq> None \<Longrightarrow> in_mode s = wp_mode page" "wp_mode page = Mode_reset \<or> wp_mode page = Mode_apply"
    and final: "wp_complete page \<Longrightarrow> scope_text (wp_instance page) 128 \<and> (in_expected s = [] \<or> in_expected s = wp_instance page)
        \<and> (\<forall>p. in_current s = Some p \<longrightarrow> \<not> do_older dm (wp_instance page) (the (wp_version page)) p)"
      "wp_complete page \<Longrightarrow> wp_mode page = Mode_apply \<Longrightarrow> pb_instance (the (in_current s)) = wp_instance page
        \<and> (pb_version (the (in_current s)) < the (wp_version page)
          \<or> pb_version (the (in_current s)) = the (wp_version page) \<and> in_first s \<and> cs @ wp_changes page = [])"
    and rows: "\<forall>c \<in> set (wp_changes page). takes s (wp_mode page) c" "distinct (map (do_key dm) (cs @ wp_changes page))"
    and blank: "wp_complete page \<Longrightarrow> the (wp_version page) = 0 \<Longrightarrow> wp_mode page = Mode_reset \<and> cs @ wp_changes page = []"
  shows "(r = Pending \<and> \<not> wp_complete page) \<or> (\<exists>v. r = Installed v \<and> wp_complete page) \<or> (\<exists>e. r = Failed e \<and> ce_code e = Co_limit)"
proof -
  define s1 where "s1 = (if in_draft s = None then s\<lparr>in_mode := wp_mode page,
      in_draft := Some (draft_new (if wp_mode page = Mode_reset then table_new else pb_data (the (in_current s))))\<rparr> else s)"
  define track where "track \<longleftrightarrow> \<not> wp_complete page \<or> length (wp_changes page) \<noteq> 1 \<or> in_seen s1 \<noteq> []"
  have m: "wp_mode page = Mode_reset \<or> wp_mode page = Mode_apply \<and> (in_draft s = None \<longrightarrow> in_current s \<noteq> None)"
    using open_mode same_mode by blast
  obtain d where o: "frame_ok st s1" "in_draft s1 = Some d" "prepared_ok st s1 d" "collected s1 cs d" "set (in_seen s1) = do_key dm ` set cs"
      "in_mode s1 = wp_mode page" "in_current s1 = in_current s" "in_valid s1 = in_valid s"
    using open_ok [OF ok un m s1_def] same_mode(1) by metis
  have t1: "in_target s1 = in_target s" by (simp add: s1_def)
  have c1: "(\<not> in_valid s \<or> (wp_mode page \<noteq> Mode_reset \<and> wp_mode page \<noteq> Mode_apply) \<or> wp_complete page \<noteq> (wp_version page \<noteq> None)
         \<or> wp_complete page \<noteq> (wp_instance page \<noteq> []) \<or> (\<not> wp_complete page \<and> wp_changes page = []) \<or> wp_size page > 8 * 1024 * 1024) = False"
    using wf same_mode(2) by (simp add: not_less)
  have c2: "(wp_complete page \<and> (\<not> scope_text (wp_instance page) 128 \<or> (in_expected s \<noteq> [] \<and> in_expected s \<noteq> wp_instance page)
         \<or> (case in_current s of None \<Rightarrow> False | Some c \<Rightarrow> do_older dm (wp_instance page) (the (wp_version page)) c))) = False"
    using final(1) by (auto split: option.split)
  have c3: "(in_draft s = None \<and> ((wp_mode page = Mode_reset \<and> \<not> in_first s) \<or> (wp_mode page = Mode_apply \<and> (in_current s = None \<or> barred)))) = False"
    using open_mode by auto
  have c4: "(in_draft s \<noteq> None \<and> in_mode s \<noteq> wp_mode page) = False" using same_mode(1) by blast
  have c5: "(wp_complete page \<and> in_mode s1 = Mode_apply \<and> (pb_instance (the (in_current s1)) \<noteq> wp_instance page
                 \<or> (the (wp_version page) = pb_version (the (in_current s1)) \<and> (\<not> in_first s1 \<or> in_seen s1 \<noteq> [] \<or> wp_changes page \<noteq> [])))) = False"
  proof -
    have "in_first s1 = in_first s" by (simp add: s1_def)
    moreover have "in_seen s1 = []" if "cs = []" using o(5) that by simp
    ultimately show ?thesis using final(2) unfolding o(6,7) by auto
  qed
  obtain f s2 where ch: "install_changes dm track (wp_changes page) s1 = (f, s2)" by fastforce
  have run: "(case f of Stop e \<Rightarrow> installer_fail st e s2 | Throw \<Rightarrow> (Thrown, s2) | Go \<Rightarrow> install_tail st grant page s2) = (r, s')"
    using acc unfolding installer_accept_def Let_def s1_def [symmetric] track_def [symmetric] c1 c2 c3 c4 c5 if_False ch by (cases f) simp_all
  have tr: "if track then set (in_seen s1) = do_key dm ` set cs else cs = [] \<and> length (wp_changes page) \<le> 1"
    using o(5) by (auto simp: track_def)
  have "\<forall>c \<in> set (wp_changes page). takes s1 (in_mode s1) c" using rows(1) unfolding o(6) by (simp add: takes_def o(7) t1)
  moreover have "track \<longrightarrow> do_key dm ` set (wp_changes page) \<inter> set (in_seen s1) = {}" using rows(2) unfolding o(5) by auto
  ultimately have f: "f = Go \<or> f = Stop Co_limit" using changes_go [OF o(1,2,3), of "wp_changes page" track] rows(2) ch by auto
  show ?thesis
  proof (cases "f = Go")
    case False
    then have "installer_fail st Co_limit s2 = (r, s')" using run f by auto
    then show ?thesis by (auto simp: installer_fail_def)
  next
    case True
    then have tl: "install_tail st grant page s2 = (r, s')" using run by simp
    obtain d2 sn sb where s2: "s2 = s1\<lparr>in_draft := Some d2, in_seen := sn, in_seen_bytes := sb\<rparr>"
      and go: "prepared_ok st s1 d2" "collected s1 (cs @ wp_changes page) d2"
      using changes_ok [OF o(1,2,3,4) tr ch] True by blast
    have fr2: "frame_ok st s2" "in_draft s2 = Some d2" "prepared_ok st s2 d2" using o(1) go(1) by (simp_all add: s2 frame_ok_def prepared_ok_def)
    have "dr_size d2 = 0" if "wp_complete page" "the (wp_version page) = 0"
    proof -
      have "draft_map st d2 = Map.empty" using go(2) blank [OF that] o(6) by (simp add: collected_def)
      moreover have "shape st (draft_pages d2) (dr_size d2) (dr_bytes d2) (dr_overhead d2)" using go(1) by (simp add: prepared_ok_def tdraft_ok_def)
      ultimately show ?thesis using all_rows_map(3) by fastforce
    qed
    then have lim: "r = Failed e \<Longrightarrow> ce_code e = Co_limit" for e using tail_code [OF fr2(2), of page grant e] tl by simp
    show ?thesis using tail_ok [OF fr2 tl] lim by (cases r) blast+
  qed
qed

end

end
