(* ===== verification/Watch.thy ===== *)
theory Watch
  imports Watch_Page
begin

text \<open>
  A watch from the scene of a Star to the view of a client, proved once for any encoding and installer that fit together (locale
  \<open>watch\<close>): delivery of the rows of an edition page by page, and a scene that is followed through a first edition and an
  edition of changes (locale \<open>scene_watch\<close>).
\<close>

subsection \<open>From a Star to a client\<close>

text \<open>One page after another until the client has an answer; one grant of the client's budget per page.\<close>

fun deliver :: "('n, 'x, 'c) encoding \<Rightarrow> ('c wpage \<Rightarrow> nat) \<Rightarrow> string \<Rightarrow> ('g \<Rightarrow> 'c wpage \<Rightarrow> 's \<Rightarrow> 'v accepted \<times> 's) \<Rightarrow> 'g list
    \<Rightarrow> ('n, 'x) edition \<Rightarrow> 's \<Rightarrow> ('v accepted \<times> 's) option" where
  "deliver en encoded inst acc [] e s = None"
| "deliver en encoded inst acc (g # gs) e s =
     (case edition_next en encoded inst e of
        Inl _ \<Rightarrow> None
      | Inr (page, e') \<Rightarrow>
          (case acc g page s of (Pending, s') \<Rightarrow> deliver en encoded inst acc gs e' s' | (r, s') \<Rightarrow> Some (r, s')))"

text \<open>A client that has the contents of a version.\<close>

definition holds :: "'r setting \<Rightarrow> string \<Rightarrow> u64 \<Rightarrow> string \<Rightarrow> (string \<Rightarrow> 'r option) \<Rightarrow> ('r, 'z) installer_scheme \<Rightarrow> bool" where
  "holds st inst version target m s \<longleftrightarrow> installer_ok st s \<and> in_draft s = None \<and> in_valid s \<and> in_target s = target
     \<and> (in_expected s = [] \<or> in_expected s = inst)
     \<and> (case in_current s of None \<Rightarrow> False | Some p \<Rightarrow> pb_instance p = inst \<and> pb_version p = version \<and> table_map st (pb_data p) = m)"

text \<open>What the client has after the exchange: the contents at the version and from the instance, or what it had, and an error of its limits.\<close>

definition outcome_ok :: "'r setting \<Rightarrow> string \<Rightarrow> u64 \<Rightarrow> string \<Rightarrow> (string \<Rightarrow> 'r option) \<Rightarrow> ('r, 'z) installer_scheme \<Rightarrow> 'r cview accepted
    \<Rightarrow> ('r, 'z) installer_scheme \<Rightarrow> bool" where
  "outcome_ok st inst version target m s r s' \<longleftrightarrow>
     (\<exists>v. r = Installed v \<and> cv_contents v = in_current s' \<and> (\<lambda>k. view_find st k v) = m \<and> view_version v = Some version \<and> view_instance v = inst
        \<and> holds st inst version target m s')
     \<or> (\<exists>err. r = Failed err \<and> ce_code err = Co_limit \<and> in_current s' = in_current s \<and> installer_ok st s' \<and> in_draft s' = None)"

text \<open>What the two sides rely on of each other.  \<open>sound\<close> are the keys and records a Star may send; \<open>suits\<close> says that a change fits what the
  client has at its key.  Sound rows have the size the Star accounts for, are taken by the client, and have the effect of the record.\<close>

locale watch = wire_installer st dm eff acc
  for st :: "'r setting" and dm :: "('c, 'r) wdomain" and eff
    and acc :: "(nat \<Rightarrow> bool) \<Rightarrow> 'c wpage \<Rightarrow> ('r, 'z) installer_scheme \<Rightarrow> 'r cview accepted \<times> ('r, 'z) installer_scheme" +
  fixes en :: "('n, 'x, 'c) encoding" and bar :: "('r, 'z) installer_scheme \<Rightarrow> bool" and pub :: "'x \<Rightarrow> 'r" and weight :: "'c \<Rightarrow> nat"
    and sound :: "string \<Rightarrow> 'x option \<Rightarrow> bool" and suits :: "'r option \<Rightarrow> 'x option \<Rightarrow> bool \<Rightarrow> bool"
  assumes accepts_bar: "\<exists>s1. installer_accept st grant dm (bar s) page s = (fst (acc grant page s), s1)
      \<and> installer.truncate (snd (acc grant page s)) = installer.truncate s1"
    and bar_lifted: "acc grant page s = (Installed shown_view, s') \<Longrightarrow> \<not> bar s'"
    and row_size: "sound k x \<Longrightarrow> row_fits en (k, x, data) \<and> weight (en_change en k x data) + 48 \<le> row_cost en (k, x, data)"
    and row_key: "sound k x \<Longrightarrow> do_key dm (en_change en k x data) = k \<and> do_valid dm k"
    and row_effect: "sound k x \<Longrightarrow> (x \<noteq> None \<and> \<not> data) \<or> suits (b k) x data \<Longrightarrow> eff (en_change en k x data) b m = m(k := map_option pub x)"
    and row_taken: "sound k x \<Longrightarrow> mode = Mode_reset \<and> x \<noteq> None \<and> \<not> data \<or> mode = Mode_apply \<and> current \<noteq> None \<and> suits (contents_map st current k) x data
      \<Longrightarrow> tdraft_ok st d \<Longrightarrow> dr_bytes d \<le> 1024 * 1024 * 1024 * 2 \<Longrightarrow> \<exists>d'. do_step dm (en_change en k x data) mode current d = Step d'"
    and older_version: "do_older dm i v p \<Longrightarrow> pb_instance p = i \<and> v < pb_version p"
    and suits_data: "suits r x False \<Longrightarrow> (data \<longrightarrow> x \<noteq> None \<and> r \<noteq> None) \<Longrightarrow> suits r x data"
    and suits_merge: "suits r (ev_record previous) (ev_data previous) \<Longrightarrow> suits r (ev_record next) False \<Longrightarrow> (ev_data next \<longrightarrow> ev_record next \<noteq> None)
      \<Longrightarrow> ev_record (en_merge en previous next) = ev_record next \<and> ev_name (en_merge en previous next) = ev_name next
        \<and> ev_version (en_merge en previous next) = ev_version next
        \<and> suits r (ev_record (en_merge en previous next)) (ev_data (en_merge en previous next))"
begin

text \<open>Rows for a mode: complete records for a reset, suitable changes for an update.\<close>

definition rows_for :: "wire_mode \<Rightarrow> 'r published option \<Rightarrow> string \<Rightarrow> 'x row_source list \<Rightarrow> bool" where
  "rows_for mode current target rs \<longleftrightarrow> list_all (\<lambda>(k, x, data). sound k x \<and> (target = [] \<or> target = k)) rs \<and> distinct (map fst rs)
     \<and> (mode = Mode_reset \<and> list_all (\<lambda>(k, x, data). x \<noteq> None \<and> \<not> data) rs
        \<or> mode = Mode_apply \<and> current \<noteq> None \<and> list_all (\<lambda>(k, x, data). suits (contents_map st current k) x data) rs)"

lemma rows_forD:
  assumes "rows_for mode current target rs" "(k, x, data) \<in> set rs"
  shows "sound k x" "target = [] \<or> target = k"
    "mode = Mode_reset \<and> x \<noteq> None \<and> \<not> data \<or> mode = Mode_apply \<and> current \<noteq> None \<and> suits (contents_map st current k) x data"
  using assms by (auto simp: rows_for_def list_all_iff)

lemma rows_for_keys:
  assumes "rows_for mode current target rs"
  shows "map (do_key dm \<circ> row_change en) rs = map fst rs"
  using rows_forD(1) [OF assms] row_key by (auto simp: row_change_def)

lemma rows_for_effect:
  assumes "rows_for mode current target rs"
  shows "fold (\<lambda>c. eff c (contents_map st current)) (map (row_change en) rs) m
    = (\<lambda>k. case map_of (map (\<lambda>(k, x, data). (k, x)) rs) k of None \<Rightarrow> m k | Some x \<Rightarrow> map_option pub x)"
  using assms
proof (induction rs arbitrary: m)
  case (Cons r rs)
  obtain k x data where r: "r = (k, x, data)" by (metis prod_cases3)
  have tl: "rows_for mode current target rs" using Cons.prems by (auto simp: rows_for_def)
  have "eff (row_change en r) (contents_map st current) m = m(k := map_option pub x)"
    using rows_forD [OF Cons.prems, of k x data] row_effect [of k x data "contents_map st current" m] r by (auto simp: row_change_def)
  moreover have "map_of (map (\<lambda>(k, x, data). (k, x)) rs) k = None"
    using Cons.prems r by (force simp: rows_for_def map_of_eq_None_iff)
  ultimately show ?case using Cons.IH [OF tl] r by (auto simp: fun_eq_iff split: option.split)
qed simp

lemma rows_for_weight:
  assumes "list_all (\<lambda>(k, x, data). sound k x) rs"
  shows "sum_list (map (\<lambda>c. weight c + 48) (map (row_change en) rs)) \<le> sum_list (map (row_cost en) rs)"
  using assms
proof (induction rs)
  case (Cons r rs)
  obtain k x data where r: "r = (k, x, data)" by (metis prod_cases3)
  have "weight (en_change en k x data) + 48 \<le> row_cost en r" using Cons.prems row_size [of k x data] r by simp
  then show ?case using Cons r by (simp add: row_change_def)
qed simp

lemma rows_for_part: "rows_for mode current target rs \<Longrightarrow> list_all (\<lambda>(k, x, data). sound k x) (take m (drop n rs)) \<and> list_all (row_fits en) rs"
proof -
  assume a: "rows_for mode current target rs"
  have "sound k x" if "(k, x, data) \<in> set (take m (drop n rs))" for k x data using rows_forD(1) [OF a] that by (meson in_set_dropD in_set_takeD)
  moreover have "row_fits en r" if "r \<in> set rs" for r
  proof -
    obtain k x data where r: "r = (k, x, data)" by (metis prod_cases3)
    then show ?thesis using row_size [OF rows_forD(1) [OF a], of k x data] that by simp
  qed
  ultimately show ?thesis by (auto simp: list_all_iff)
qed

lemma deliver_rows:
  assumes rs: "rs = frozen_rows en data" "rows_for mode (in_current s0) (in_target s0) rs" "version = 0 \<longrightarrow> mode = Mode_reset \<and> rs = []"
      "mode = Mode_apply \<Longrightarrow> pb_instance (the (in_current s0)) = inst \<and> (pb_version (the (in_current s0)) < version \<or> pb_version (the (in_current s0)) = version \<and> rs = [])"
    and enc: "\<And>page. encoded page \<le> length (wp_instance page) + 64 + sum_list (map (\<lambda>c. weight c + 48) (wp_changes page))"
    and inst: "scope_text inst 128"
    and e: "ed_data e = data" "frozen_fine data (ed_offset e)" "\<not> ed_complete e" "ed_offset e \<le> length rs" "ed_mode e = mode" "ed_version e = version"
    and s: "installer_ok st s" "underway s (map (row_change en) (take (ed_offset e) rs))" "in_valid s" "in_current s = in_current s0" "in_target s = in_target s0"
      "mode = Mode_reset \<or> pb_version (the (in_current s0)) = version \<Longrightarrow> in_first s" "in_draft s = None \<Longrightarrow> mode = Mode_apply \<Longrightarrow> \<not> bar s" "in_draft s \<noteq> None \<Longrightarrow> in_mode s = mode"
      "in_expected s = [] \<or> in_expected s = inst" "\<And>p. in_current s0 = Some p \<Longrightarrow> pb_instance p = inst \<Longrightarrow> pb_version p \<le> version"
    and gs: "length rs - ed_offset e < length gs"
  shows "\<exists>r s'. deliver en encoded inst acc gs e s = Some (r, s') \<and> ((\<exists>v. r = Installed v) \<longrightarrow> \<not> bar s')
    \<and> outcome_ok st inst version (in_target s0) (\<lambda>k. case map_of (map (\<lambda>(k, x, data). (k, x)) rs) k of
         None \<Rightarrow> if mode = Mode_reset then None else contents_map st (in_current s0) k | Some x \<Rightarrow> map_option pub x) s0 r s'"
  using e s gs
proof (induction gs arbitrary: e s)
  case (Cons g gs)
  have i: "inst \<noteq> []" "length inst \<le> 128" using inst by (auto simp: scope_text_def)
  have fits: "list_all (row_fits en) rs" using rows_for_part [OF rs(2)] by blast
  have mode: "mode = Mode_reset \<or> mode = Mode_apply" using rs(2) by (auto simp: rows_for_def)
  obtain m page e' where n: "edition_next en encoded inst e = Inr (page, e')" "ed_offset e + m \<le> length rs"
    "ed_offset e < length rs \<Longrightarrow> 0 < m" "e' = e\<lparr>ed_offset := ed_offset e + m, ed_complete := (ed_offset e + m = length rs)\<rparr>"
    "wp_mode page = ed_mode e" "wp_complete page = (ed_offset e + m = length rs)"
    "wp_version page = (if wp_complete page then Some (ed_version e) else None)" "wp_instance page = (if wp_complete page then inst else [])"
    "wp_changes page = map (row_change en) (take m (drop (ed_offset e) rs))" "wp_size page = encoded (page\<lparr>wp_size := 0\<rparr>)"
    "length inst + 64 + sum_list (map (row_cost en) (take m (drop (ed_offset e) rs))) \<le> 3 * 1024 * 1024" "\<not> wp_complete page \<Longrightarrow> frozen_fine (ed_data e) (ed_offset e + m)"
    using edition_next_page [of e rs en inst encoded] Cons.prems(1-4) rs(1) i fits by blast
  let ?new = "take m (drop (ed_offset e) rs)" and ?old = "take (ed_offset e) rs"
  have both: "?old @ ?new = take (ed_offset e + m) rs" by (simp add: take_add)
  have rows: "map (row_change en) ?old @ wp_changes page = map (row_change en) (take (ed_offset e + m) rs)" unfolding n(9) both [symmetric] by simp
  obtain r s' where a: "acc g page s = (r, s')" by fastforce
  obtain s1 where ia: "installer_accept st g dm (bar s) page s = (r, s1)" and tr: "installer.truncate s' = installer.truncate s1"
    using accepts_bar [of g s page] a by auto
  have size: "wp_size page \<le> 8 * 1024 * 1024"
  proof -
    have "wp_size page \<le> length (wp_instance page) + 64 + sum_list (map (\<lambda>c. weight c + 48) (wp_changes page))" using enc [of "page\<lparr>wp_size := 0\<rparr>"] n(10) by simp
    also have "\<dots> \<le> 3 * 1024 * 1024" using n(11) rows_for_weight [of ?new] rows_for_part [OF rs(2), of m "ed_offset e"] by (simp add: n(8,9))
    finally show ?thesis by simp
  qed
  have keys: "distinct (map (do_key dm) (map (row_change en) ?old @ wp_changes page))"
  proof -
    have "map (do_key dm) (map (row_change en) (take l rs)) = take l (map fst rs)" for l unfolding rows_for_keys [OF rs(2), symmetric] by (simp add: take_map)
    then show ?thesis using rs(2) unfolding rows by (simp add: rows_for_def)
  qed
  have tk: "takes s (wp_mode page) c" if "c \<in> set (wp_changes page)" for c
  proof -
    obtain q where q: "q \<in> set (take m (drop (ed_offset e) rs))" "c = row_change en q" using \<open>c \<in> _\<close> unfolding n(9) by auto
    obtain k x d where kxd: "q = (k, x, d)" by (metis prod_cases3)
    have r: "(k, x, d) \<in> set rs" "c = en_change en k x d" using q in_set_dropD [OF in_set_takeD [OF q(1)]] by (simp_all add: kxd row_change_def)
    note f = rows_forD [OF rs(2) r(1)]
    show ?thesis using f row_key [OF f(1)] row_taken [OF f(1), of mode d "in_current s0"] Cons.prems(5,10,11) unfolding takes_def r(2) n(5) by simp
  qed
  have good: "(r = Pending \<and> \<not> wp_complete page) \<or> (\<exists>v. r = Installed v \<and> wp_complete page) \<or> (\<exists>e. r = Failed e \<and> ce_code e = Co_limit)"
  proof (rule accept_good [OF Cons.prems(7,8) ia Cons.prems(9)])
    show "wp_complete page = (wp_version page \<noteq> None)" "wp_complete page = (wp_instance page \<noteq> [])" using n(7,8) i by auto
    show "wp_complete page \<or> wp_changes page \<noteq> []"
    proof (cases "wp_complete page")
      case False
      then have "ed_offset e < length rs" using n(2,6) by simp
      then show ?thesis using n(3,9) by simp
    qed simp
    show "wp_size page \<le> 8 * 1024 * 1024" by (rule size)
    show "wp_mode page = Mode_reset \<and> in_first s \<or> wp_mode page = Mode_apply \<and> in_current s \<noteq> None \<and> \<not> bar s" if "in_draft s = None"
      using that mode rs(2) Cons.prems(5,10,12,13) n(5) by (auto simp: rows_for_def)
    show "in_mode s = wp_mode page" if "in_draft s \<noteq> None" using that Cons.prems(5,14) n(5) by simp
    show "wp_mode page = Mode_reset \<or> wp_mode page = Mode_apply" using Cons.prems(5) mode n(5) by simp
    show "scope_text (wp_instance page) 128 \<and> (in_expected s = [] \<or> in_expected s = wp_instance page)
        \<and> (\<forall>p. in_current s = Some p \<longrightarrow> \<not> do_older dm (wp_instance page) (the (wp_version page)) p)" if "wp_complete page"
      using that n(7,8) inst Cons.prems(6,10,15,16) by (auto simp: not_less dest!: older_version)
    show "pb_instance (the (in_current s)) = wp_instance page \<and> (pb_version (the (in_current s)) < the (wp_version page)
          \<or> pb_version (the (in_current s)) = the (wp_version page) \<and> in_first s \<and> map (row_change en) ?old @ wp_changes page = [])"
      if "wp_complete page" "wp_mode page = Mode_apply"
      using that rs(4) Cons.prems(5,6,10,12) n(5,7,8,9) by auto
    show "\<forall>c \<in> set (wp_changes page). takes s (wp_mode page) c" using tk by blast
    show "distinct (map (do_key dm) (map (row_change en) ?old @ wp_changes page))" by (rule keys)
    show "wp_mode page = Mode_reset \<and> map (row_change en) ?old @ wp_changes page = []" if "wp_complete page" "the (wp_version page) = 0"
      using that n(5,7,9) Cons.prems(5,6) rs(3) by simp
  qed
  note ao = acc_ok [OF Cons.prems(7,8) a]
  consider "r = Pending" "\<not> wp_complete page" | v where "r = Installed v" "wp_complete page" | err where "r = Failed err" "ce_code err = Co_limit" using good by blast
  then show ?case
  proof cases
    case 1
    note p = ao(4) [OF 1(1)]
    have off: "ed_offset e' = ed_offset e + m" "ed_data e' = data" "\<not> ed_complete e'" "ed_mode e' = mode" "ed_version e' = version"
      using n(4,6) 1(2) Cons.prems(1,5,6) by simp_all
    have m0: "0 < m" using n(2,3,6) 1(2) by simp
    have un: "underway s' (map (row_change en) (take (ed_offset e') rs))" using p unfolding off(1) rows [symmetric] by blast
    have fs: "in_valid s'" "in_target s' = in_target s" "in_expected s' = in_expected s" "in_first s' = in_first s"
      using pending_fields [OF ia [unfolded 1(1)]] truncate_fields [OF tr] Cons.prems(9) by simp_all
    have "\<exists>r s''. deliver en encoded inst acc gs e' s' = Some (r, s'') \<and> ((\<exists>v. r = Installed v) \<longrightarrow> \<not> bar s'')
      \<and> outcome_ok st inst version (in_target s0) (\<lambda>k. case map_of (map (\<lambda>(k, x, data). (k, x)) rs) k of
         None \<Rightarrow> if mode = Mode_reset then None else contents_map st (in_current s0) k | Some x \<Rightarrow> map_option pub x) s0 r s''"
    proof (rule Cons.IH [OF off(2) _ off(3) _ off(4,5) ao(2) un fs(1)])
      show "frozen_fine data (ed_offset e')" using n(12) [OF 1(2)] Cons.prems(1) off(1) by simp
      show "ed_offset e' \<le> length rs" using n(2) off(1) by simp
      show "length rs - ed_offset e' < length gs" using Cons.prems(17) n(2) m0 off(1) by simp
      show "in_mode s' = mode" using p n(5) Cons.prems(5) by simp
    qed (use p Cons.prems(5,10,11,12,15,16) fs(2-4) in auto)
    then show ?thesis using n(1) a 1(1) p by simp
  next
    case 2
    obtain c where c: "cv_contents v = Some c" "in_current s' = Some c" "table_map st (pb_data c) = batch_outcome s (wp_mode page) (map (row_change en) ?old @ wp_changes page)"
        "wp_version page = Some (pb_version c)" "wp_instance page = pb_instance c"
      using ao(5) [OF 2(1)] by blast
    have "map (row_change en) ?old @ wp_changes page = map (row_change en) rs" using 2(2) n(6) unfolding rows by simp
    then have "table_map st (pb_data c) = fold (\<lambda>c. eff c (contents_map st (in_current s0))) (map (row_change en) rs)
        (if mode = Mode_reset then Map.empty else contents_map st (in_current s0))"
      using c(3) n(5) Cons.prems(5,10) by (simp add: batch_outcome_def)
    then have "table_map st (pb_data c) = (\<lambda>k. case map_of (map (\<lambda>(k, x, data). (k, x)) rs) k of
         None \<Rightarrow> if mode = Mode_reset then None else contents_map st (in_current s0) k | Some x \<Rightarrow> map_option pub x)"
      unfolding rows_for_effect [OF rs(2)] by (simp add: fun_eq_iff split: option.split)
    moreover have "in_valid s'" "in_target s' = in_target s0" "in_expected s' = inst" "installer_ok st s'" "in_draft s' = None"
      using installed_fields [OF ia [unfolded 2(1)]] truncate_fields [OF tr] Cons.prems(9,11) n(8) 2(2) ao(2) ao(5) [OF 2(1)] by simp_all
    moreover have "pb_version c = version" "pb_instance c = inst" using c(4,5) n(7,8) 2(2) Cons.prems(6) by simp_all
    moreover have "\<not> bar s'" using bar_lifted a 2(1) by blast
    ultimately show ?thesis using n(1) a 2(1) c(1,2)
      unfolding outcome_ok_def holds_def by (simp add: view_find_def view_version_def view_instance_def table_find_map fun_eq_iff)
  next
    case 3
    then show ?thesis using n(1) a ao(2) ao(3) [OF 3(1)] Cons.prems(10) unfolding outcome_ok_def by simp
  qed
qed simp

end

subsection \<open>Merging events\<close>

lemma fold_events_last:
  "fold apply_event evs m k = (case filter (\<lambda>e. event_name e = k) evs of [] \<Rightarrow> m k | l \<Rightarrow> ev_record (last l))"
proof (induction evs rule: rev_induct)
  case (snoc e evs)
  let ?l = "filter (\<lambda>e. event_name e = k) evs"
  show ?case
  proof (cases "event_name e = k")
    case True
    have "(case ?l @ [e] of [] \<Rightarrow> m k | l \<Rightarrow> ev_record (last l)) = ev_record e" by (cases ?l) simp_all
    then show ?thesis using True by (simp add: apply_event_def)
  next
    case False
    then show ?thesis using snoc by (simp add: apply_event_def)
  qed
qed simp

lemma data_ok_first: "data_ok m evs \<Longrightarrow> filter (\<lambda>e. event_name e = k) evs = e # l \<Longrightarrow> ev_data e \<longrightarrow> m k \<noteq> None"
proof (induction evs arbitrary: m)
  case (Cons x xs)
  show ?case
  proof (cases "event_name x = k")
    case True
    then show ?thesis using Cons.prems by auto
  next
    case False
    have "ev_data e \<longrightarrow> apply_event x m k \<noteq> None" using Cons.IH [of "apply_event x m"] Cons.prems False by simp
    then show ?thesis using False by (simp add: apply_event_def)
  qed
qed simp

lemma sorted_keys: "sorted (map (events_order en) es) \<Longrightarrow> sorted (map (event_key en) es)"
  unfolding sorted_map by (rule sorted_wrt_mono_rel) (auto simp: events_order_def less_eq_prod_def)

text \<open>Sorting keeps the events of each key in the order of their versions.\<close>

lemma sort_filter:
  assumes "sorted (map ev_version es)" "distinct (map ev_version es)"
  shows "filter (\<lambda>e. event_key en e = k) (sort_key (events_order en) es) = filter (\<lambda>e. event_key en e = k) es"
proof (rule map_sorted_distinct_set_unique [where f = ev_version])
  let ?P = "\<lambda>e. event_key en e = k" and ?s = "sort_key (events_order en) es"
  have inj: "inj_on ev_version (set es)" using assms(2) by (simp add: distinct_map)
  then show "inj_on ev_version (set (filter ?P ?s) \<union> set (filter ?P es))" by (rule inj_on_subset) auto
  have "sorted (map (events_order en) (filter ?P ?s))" by (rule sorted_filter) simp
  then have "sorted_wrt (\<lambda>x y. events_order en x \<le> events_order en y) (filter ?P ?s)" by (simp add: sorted_map)
  then have "sorted_wrt (\<lambda>x y. ev_version x \<le> ev_version y) (filter ?P ?s)"
    by (rule sorted_wrt_mono_rel [rotated]) (auto simp: events_order_def less_eq_prod_def)
  then show "sorted (map ev_version (filter ?P ?s))" by (simp add: sorted_map)
  show "sorted (map ev_version (filter ?P es))" using assms(1) by (rule sorted_filter)
  have "distinct (filter ?P ?s)" "distinct (filter ?P es)" using assms(2) by (auto simp: distinct_map)
  then show "distinct (map ev_version (filter ?P ?s))" "distinct (map ev_version (filter ?P es))"
    by (auto simp: distinct_map intro: inj_on_subset [OF inj])
qed simp

context watch
begin

text \<open>Events that fit what the client has: each does for itself.\<close>

definition fitting :: "(string \<Rightarrow> 'r option) \<Rightarrow> ('n, 'x) event list \<Rightarrow> bool" where
  "fitting r es \<longleftrightarrow> list_all (\<lambda>e. (ev_data e \<longrightarrow> ev_record e \<noteq> None) \<and> suits (r (event_key en e)) (ev_record e) False) es"

lemma merge_group_spec:
  assumes "merge_group en latest es = (out, rest)" "suits (r k) (ev_record latest) (ev_data latest)" "event_key en latest = k" "fitting r es"
  shows "\<exists>grp. es = grp @ rest \<and> (\<forall>e \<in> set grp. event_key en e = k) \<and> (rest \<noteq> [] \<longrightarrow> event_key en (hd rest) \<noteq> k) \<and> event_key en out = k
    \<and> ev_record out = ev_record (last (latest # grp)) \<and> suits (r k) (ev_record out) (ev_data out)"
  using assms
proof (induction es arbitrary: latest)
  case Nil
  then show ?case by (intro exI [of _ "[]"]) simp
next
  case (Cons e es)
  show ?case
  proof (cases "event_key en e = k")
    case False
    then have "out = latest" "rest = e # es" using Cons.prems(1,3) by simp_all
    then show ?thesis using False Cons.prems(2,3) by (intro exI [of _ "[]"]) simp
  next
    case True
    have f: "ev_data e \<longrightarrow> ev_record e \<noteq> None" "suits (r k) (ev_record e) False" "fitting r es" using Cons.prems(4) True by (simp_all add: fitting_def)
    note m = suits_merge [OF Cons.prems(2) f(2,1)]
    have "event_key en (en_merge en latest e) = k" using m True by (simp add: event_key_def)
    then obtain grp where "es = grp @ rest" "\<forall>e \<in> set grp. event_key en e = k" "rest \<noteq> [] \<longrightarrow> event_key en (hd rest) \<noteq> k" "event_key en out = k"
        "ev_record out = ev_record (last (en_merge en latest e # grp))" "suits (r k) (ev_record out) (ev_data out)"
      using Cons.IH [of "en_merge en latest e"] Cons.prems(1,3) True m f(3) by auto
    then show ?thesis using True m by (intro exI [of _ "e # grp"]) auto
  qed
qed

lemma compress_spec:
  assumes "sorted (map (event_key en) es)" "fitting r es"
    "\<And>k e l. filter (\<lambda>e. event_key en e = k) es = e # l \<Longrightarrow> ev_data e \<longrightarrow> r k \<noteq> None"
  shows "distinct (map (event_key en) (compress en es)) \<and> event_key en ` set (compress en es) \<subseteq> event_key en ` set es
    \<and> (\<forall>e \<in> set (compress en es). suits (r (event_key en e)) (ev_record e) (ev_data e))
    \<and> (\<forall>k. map_of (map (\<lambda>e. (event_key en e, ev_record e)) (compress en es)) k
         = (case filter (\<lambda>e. event_key en e = k) es of [] \<Rightarrow> None | l \<Rightarrow> Some (ev_record (last l))))"
  using assms
proof (induction "length es" arbitrary: es rule: less_induct)
  case less
  show ?case
  proof (cases es)
    case (Cons e tl)
    let ?k = "event_key en e"
    obtain out rest where g: "merge_group en e tl = (out, rest)" by fastforce
    have ft: "fitting r tl" and fe: "(ev_data e \<longrightarrow> ev_record e \<noteq> None) \<and> suits (r ?k) (ev_record e) False" using less.prems(2) Cons by (simp_all add: fitting_def)
    have "ev_data e \<longrightarrow> r ?k \<noteq> None" using less.prems(3) [of ?k e] Cons by simp
    then have se: "suits (r ?k) (ev_record e) (ev_data e)" using fe suits_data by blast
    obtain grp where grp: "tl = grp @ rest" "\<forall>x \<in> set grp. event_key en x = ?k" "rest \<noteq> [] \<longrightarrow> event_key en (hd rest) \<noteq> ?k" "event_key en out = ?k"
        "ev_record out = ev_record (last (e # grp))" "suits (r ?k) (ev_record out) (ev_data out)"
      using merge_group_spec [OF g se refl ft] by blast
    have srt: "sorted (map (event_key en) rest)" "\<forall>x \<in> set rest. ?k \<le> event_key en x" using less.prems(1) Cons grp(1) by (auto simp: sorted_append)
    have above: "event_key en x \<noteq> ?k" if "x \<in> set rest" for x
    proof
      assume eq: "event_key en x = ?k"
      have "rest \<noteq> []" using that by auto
      then have "event_key en (hd rest) \<le> event_key en x" using srt(1) that by (cases rest) auto
      moreover have "?k \<le> event_key en (hd rest)" using srt(2) \<open>rest \<noteq> []\<close> by simp
      ultimately show False using grp(3) \<open>rest \<noteq> []\<close> eq by simp
    qed
    have fk: "filter (\<lambda>x. event_key en x = ?k) es = e # grp" using Cons grp(1,2) above by (auto simp: filter_empty_conv)
    have fo: "filter (\<lambda>x. event_key en x = k) es = filter (\<lambda>x. event_key en x = k) rest" if "k \<noteq> ?k" for k
      using Cons grp(1,2) that by (auto simp: filter_empty_conv)
    have co: "compress en es = out # compress en rest" using Cons g by simp
    have "distinct (map (event_key en) (compress en rest)) \<and> event_key en ` set (compress en rest) \<subseteq> event_key en ` set rest
      \<and> (\<forall>e \<in> set (compress en rest). suits (r (event_key en e)) (ev_record e) (ev_data e))
      \<and> (\<forall>k. map_of (map (\<lambda>e. (event_key en e, ev_record e)) (compress en rest)) k
           = (case filter (\<lambda>e. event_key en e = k) rest of [] \<Rightarrow> None | l \<Rightarrow> Some (ev_record (last l))))"
    proof (rule less.hyps)
      show "length rest < length es" using Cons grp(1) by simp
      show "sorted (map (event_key en) rest)" by (rule srt(1))
      show "fitting r rest" using ft grp(1) by (simp add: fitting_def)
      show "ev_data x \<longrightarrow> r k \<noteq> None" if "filter (\<lambda>e. event_key en e = k) rest = x # l" for k x l
      proof -
        have "x \<in> set (filter (\<lambda>e. event_key en e = k) rest)" unfolding that by simp
        then have "k \<noteq> ?k" using above by auto
        then show ?thesis using less.prems(3) [of k x l] fo that by simp
      qed
    qed
    note ih = conjunct1 [OF this] conjunct1 [OF conjunct2 [OF this]] conjunct1 [OF conjunct2 [OF conjunct2 [OF this]]]
      conjunct2 [OF conjunct2 [OF conjunct2 [OF this]], rule_format]
    have "?k \<notin> event_key en ` set rest" using above by force
    then have "?k \<notin> event_key en ` set (compress en rest)" using ih(2) by blast
    moreover have "map_of (map (\<lambda>e. (event_key en e, ev_record e)) (compress en es)) k
         = (case filter (\<lambda>e. event_key en e = k) es of [] \<Rightarrow> None | l \<Rightarrow> Some (ev_record (last l)))" for k
    proof (cases "k = ?k")
      case True
      then show ?thesis using fk grp(4,5) unfolding co by simp
    next
      case False
      then show ?thesis using ih(4) [of k] fo grp(4) unfolding co by simp
    qed
    moreover have "event_key en ` set (compress en es) \<subseteq> event_key en ` set es" using ih(2) grp(1,4) unfolding co by (auto simp: Cons)
    ultimately show ?thesis using ih(1,3) grp(4,6) unfolding co by (simp only: list.map distinct.simps list.set_map list.set ball_simps simp_thms)
  qed simp
qed

end

subsection \<open>Following a scene\<close>

text \<open>What a watcher of a whole scope, or of one key, is shown of the contents.\<close>

definition shown :: "('x \<Rightarrow> 'r) \<Rightarrow> string \<Rightarrow> (string \<rightharpoonup> 'x) \<Rightarrow> string \<Rightarrow> 'r option" where
  "shown pub target m k = (if target = [] \<or> k = target then map_option pub (m k) else None)"

text \<open>A client at the start of a stream that has seen nothing newer of the instance.\<close>

definition awaits :: "'r setting \<Rightarrow> string \<Rightarrow> u64 \<Rightarrow> string \<Rightarrow> ('r, 'z) installer_scheme \<Rightarrow> bool" where
  "awaits st inst version target s \<longleftrightarrow> installer_ok st s \<and> in_draft s = None \<and> in_valid s \<and> in_first s \<and> in_target s = target
     \<and> (in_expected s = [] \<or> in_expected s = inst)
     \<and> (case in_current s of None \<Rightarrow> True | Some p \<Rightarrow> pb_instance p = inst \<longrightarrow> pb_version p \<le> version)"

text \<open>The edition a new watcher is sent.\<close>

definition first_edition :: "('n, 'x, 'c) encoding \<Rightarrow> nat \<Rightarrow> string \<Rightarrow> ('n, 'x) scene_view \<Rightarrow> 'x scene_point \<Rightarrow> ('n, 'x) edition" where
  "first_edition en size_of target view p = (if target = [] then edition_whole view else edition_point en size_of target (pt_record p) (pt_version p))"

locale scene_watch = watch st dm eff acc en bar pub weight sound suits
  for st :: "'r setting" and dm :: "('c, 'r) wdomain" and eff
    and acc :: "(nat \<Rightarrow> bool) \<Rightarrow> 'c wpage \<Rightarrow> ('r, 'z) installer_scheme \<Rightarrow> 'r cview accepted \<times> ('r, 'z) installer_scheme"
    and en :: "(origin_name, 'x, 'c) encoding" and bar and pub :: "'x \<Rightarrow> 'r" and weight and sound and suits +
  assumes key_name: "en_key en n = on_key n"
begin

lemma event_key_name: "event_key en = event_name"
  by (rule ext) (simp add: event_key_def key_name)

lemma snapshot_delivered:
  assumes sc: "scene_ok sz sc" "sn_version sc = 0 \<longrightarrow> scene_map sc = Map.empty" "scene_capture sc = Scene_done view" "scene_find target sc = Scene_done p"
    and sound: "\<And>k x. scene_map sc k = Some x \<Longrightarrow> sound k (Some x)"
    and s: "awaits st inst (sn_version sc) target s" and inst: "scope_text inst 128" and gs: "card (dom (scene_map sc)) < length gs"
    and enc: "\<And>page. encoded page \<le> length (wp_instance page) + 64 + sum_list (map (\<lambda>c. weight c + 48) (wp_changes page))"
  shows "\<exists>r s'. deliver en encoded inst acc gs (first_edition en size_of target view p) s = Some (r, s') \<and> ((\<exists>v. r = Installed v) \<longrightarrow> \<not> bar s')
    \<and> outcome_ok st inst (sn_version sc) target (shown pub target (scene_map sc)) s r s'"
proof -
  have idle: "\<not> sn_editing sc" and dir: "dir_ok (sn_entries sc) (sn_tree sc)" using sc(1) by (simp_all add: scene_ok_def)
  have view: "view = \<lparr>sv_root = capture (sn_tree sc), sv_version = sn_version sc, sv_size = unat (view_size (capture (sn_tree sc))), sv_bytes = sn_bytes sc\<rparr>"
    using sc(3) idle by (simp add: scene_capture_def)
  let ?es = "view_entries (capture (sn_tree sc))"
  have "pages_ok (sn_tree sc)" using dir by (simp add: dir_ok_def)
  note vo = capture_ok [OF this]
  have p: "pt_record p = scene_map sc target" "pt_version p = sn_version sc"
  proof -
    have "(pt_record p = scene_map sc target) \<and> pt_version p = sn_version sc"
    proof (cases "map_of (sn_entries sc) target")
      case None
      then show ?thesis using sc(4) idle dir_none [OF None, of "sn_tree sc"] by (auto simp: scene_find_def)
    next
      case (Some slot)
      obtain n r where "page_find (sn_tree sc) slot = Some (n, r)" "scene_map sc target = Some r" by (rule dir_found [OF dir Some])
      then show ?thesis using sc(4) idle Some by (auto simp: scene_find_def)
    qed
    then show "pt_record p = scene_map sc target" "pt_version p = sn_version sc" by blast+
  qed
  define ed where "ed = first_edition en size_of target view p"
  define rs where "rs = frozen_rows en (ed_data ed)"
  define pairs where "pairs = (if target = [] then map (\<lambda>(n, x). (on_key n, x)) ?es else case scene_map sc target of None \<Rightarrow> [] | Some x \<Rightarrow> [(target, x)])"
  have ef: "ed_mode ed = Mode_reset" "ed_version ed = sn_version sc" "ed_offset ed = 0" "\<not> ed_complete ed" "frozen_fine (ed_data ed) 0"
    using vo by (simp_all add: ed_def first_edition_def edition_whole_def edition_point_def frozen_fine_def view p)
  have rsp: "rs = map (\<lambda>(k, x). (k, Some x, False)) pairs"
    by (auto simp: rs_def ed_def first_edition_def edition_whole_def edition_point_def frozen_rows_def view p pairs_def key_name split: option.split)
  have dv: "distinct (map fst (map (\<lambda>(n, x). (on_key n, x)) ?es))" "map_of (map (\<lambda>(n, x). (on_key n, x)) ?es) = scene_map sc" "length ?es = card (dom (scene_map sc))"
    using dir_view [OF dir] dir_size [OF dir] by (simp_all add: comp_def case_prod_unfold)
  have pk: "distinct (map fst pairs)" and pm: "map_of pairs k = (if target = [] \<or> k = target then scene_map sc k else None)" for k
    using dv by (auto simp: pairs_def split: option.split)
  have mem: "scene_map sc k = Some x \<and> (target = [] \<or> target = k)" if "(k, x) \<in> set pairs" for k x
    using pm [of k] map_of_eq_Some_iff [OF pk, of k x] that by (auto split: if_splits)
  have len: "length rs \<le> card (dom (scene_map sc))"
  proof (cases "target = []")
    case True
    then show ?thesis using dv(3) by (simp add: rsp pairs_def)
  next
    case False
    have "0 < card (dom (scene_map sc))" if "scene_map sc target \<noteq> None" using that dir_finite [OF dir] by (auto simp: card_gt_0_iff)
    then show ?thesis using False by (auto simp: rsp pairs_def split: option.split)
  qed
  have rf: "rows_for Mode_reset (in_current s) (in_target s) rs"
  proof -
    have "in_target s = target" using s by (simp add: awaits_def)
    then show ?thesis using mem sound pk unfolding rows_for_def rsp by (auto simp: list_all_iff comp_def case_prod_unfold)
  qed
  have zero: "rs = []" if "sn_version sc = 0" using len sc(2) that by simp
  have mo: "map_of (map (\<lambda>(k, x, data). (k, x)) rs) k = map_option Some (map_of pairs k)" for k
    unfolding rsp by (induction pairs) auto
  have sf: "installer_ok st s" "in_draft s = None" "in_valid s" "in_first s" "in_expected s = [] \<or> in_expected s = inst"
      "\<And>p. in_current s = Some p \<Longrightarrow> pb_instance p = inst \<Longrightarrow> pb_version p \<le> sn_version sc"
    using s unfolding awaits_def by auto
  have "\<exists>r s'. deliver en encoded inst acc gs ed s = Some (r, s') \<and> ((\<exists>v. r = Installed v) \<longrightarrow> \<not> bar s')
    \<and> outcome_ok st inst (sn_version sc) (in_target s) (\<lambda>k. case map_of (map (\<lambda>(k, x, data). (k, x)) rs) k of
         None \<Rightarrow> if Mode_reset = Mode_reset then None else contents_map st (in_current s) k | Some x \<Rightarrow> map_option pub x) s r s'"
    by (rule deliver_rows [OF rs_def rf _ _ enc inst refl _ ef(4) _ ef(1,2) sf(1)])
      (use zero ef(3,5) sf len gs in \<open>auto simp: underway_def\<close>)
  moreover have "(\<lambda>k. case map_of (map (\<lambda>(k, x, data). (k, x)) rs) k of
         None \<Rightarrow> if Mode_reset = Mode_reset then None else contents_map st (in_current s) k | Some x \<Rightarrow> map_option pub x) = shown pub target (scene_map sc)"
    unfolding mo pm shown_def by (auto simp: fun_eq_iff split: option.split)
  moreover have "in_target s = target" using s by (simp add: awaits_def)
  ultimately show ?thesis unfolding ed_def by simp
qed

end

lemma run_versions:
  assumes "advances s evs s'"
  shows "sorted (map ev_version evs)" "distinct (map ev_version evs)" "list_ex (event_invalid (sn_version s')) evs = False"
proof -
  have v: "unat (ev_version (evs ! i)) = unat (sn_version s) + i + 1" if "i < length evs" for i using assms that by (simp add: advances_def)
  have n: "unat (sn_version s') = unat (sn_version s) + length evs" and ok: "list_all event_ok evs" using assms by (simp_all add: advances_def)
  have lt: "ev_version (evs ! i) < ev_version (evs ! j)" if "i < j" "j < length evs" for i j using v that by (simp add: word_less_nat_alt)
  then have "sorted_wrt (<) (map ev_version evs)" by (simp add: sorted_wrt_iff_nth_less)
  then show "sorted (map ev_version evs)" "distinct (map ev_version evs)" by (auto simp: strict_sorted_iff)
  have "\<not> event_invalid (sn_version s') e" if e: "e \<in> set evs" for e
  proof -
    obtain i where i: "i < length evs" "e = evs ! i" using e by (auto simp: in_set_conv_nth)
    have "event_ok e" using ok e by (simp add: list_all_iff)
    moreover have "ev_version e \<noteq> 0" using v [OF i(1)] i(2) by auto
    moreover have "\<not> ev_version e > sn_version s'" using v [OF i(1)] i n by (simp add: word_less_nat_alt)
    ultimately show ?thesis by (auto simp: event_invalid_def event_ok_def)
  qed
  then show "list_ex (event_invalid (sn_version s')) evs = False" by (simp add: list_ex_iff)
qed

context scene_watch
begin

lemma increment_delivered:
  assumes sc: "scene_ok sz s1" "scene_run sz ops s1 = (evs, s2)" "scene_replay (sn_version s1) s2 = Scene_done cs" "evs \<noteq> []"
    and sound: "\<And>e. e \<in> set evs \<Longrightarrow> sound (event_name e) (ev_record e) \<and> suits (map_option pub (scene_map s1 (event_name e))) (ev_record e) False"
    and s: "holds st inst (sn_version s1) target (shown pub target (scene_map s1)) s" "\<not> bar s" and inst: "scope_text inst 128" and gs: "length evs < length gs"
    and enc: "\<And>page. encoded page \<le> length (wp_instance page) + 64 + sum_list (map (\<lambda>c. weight c + 48) (wp_changes page))"
  shows "\<exists>ed r s'. edition_changes en size_of capacity (sn_version s2) cs target = Some ed \<and> deliver en encoded inst acc gs ed s = Some (r, s') \<and> ((\<exists>v. r = Installed v) \<longrightarrow> \<not> bar s')
    \<and> outcome_ok st inst (sn_version s2) target (shown pub target (scene_map s2)) s r s'"
proof -
  have ok2: "scene_ok sz s2" and adv: "advances s1 evs s2" using scene_run_spec [OF sc(1,2)] by blast+
  have cs: "cs = evs" using advances_replay [OF ok2 adv] sc(3) by (simp split: if_splits)
  note rv = run_versions [OF adv]
  have advf: "unat (sn_version s2) = unat (sn_version s1) + length evs" "scene_map s2 = fold apply_event evs (scene_map s1)" "data_ok (scene_map s1) evs"
      "list_all event_ok evs"
    using adv by (simp_all add: advances_def)
  obtain p where p: "in_current s = Some p" "pb_instance p = inst" "pb_version p = sn_version s1" "table_map st (pb_data p) = shown pub target (scene_map s1)"
    using s(1) by (auto simp: holds_def split: option.splits)
  have sf: "installer_ok st s" "in_draft s = None" "in_valid s" "in_target s = target" "in_expected s = [] \<or> in_expected s = inst" using s(1) by (auto simp: holds_def)
  define r where "r = contents_map st (in_current s)"
  have r: "r = shown pub target (scene_map s1)" by (simp add: r_def contents_map_def p)
  define relevant where "relevant k \<longleftrightarrow> target = [] \<or> k = target" for k
  define matching where "matching = (if target = [] then evs else filter (\<lambda>e. event_key en e = target) evs)"
  define kept where "kept = compress en (sort_key (events_order en) matching)"
  have srt: "(if sorted (map (events_order en) matching) then matching else sort_key (events_order en) matching) = sort_key (events_order en) matching"
    by (simp add: sort_key_id_if_sorted)
  define ed where "ed = \<lparr>ed_data = Changes kept, ed_mode = Mode_apply, ed_version = sn_version s2,
                ed_bytes = sum_list (map ev_bytes kept) + (capacity - length kept) * size_of, ed_offset = 0, ed_complete = False\<rparr>"
  have ch: "edition_changes en size_of capacity (sn_version s2) cs target = Some ed"
    unfolding edition_changes_def cs rv(3) if_False Let_def matching_def [symmetric] srt kept_def [symmetric] ed_def ..
  have mm: "set matching \<subseteq> set evs" "sorted (map ev_version matching)" "distinct (map ev_version matching)"
    using rv(1,2) sorted_filter [of ev_version evs] distinct_map_filter by (auto simp: matching_def)
  have mr: "relevant (event_name e)" if "e \<in> set matching" for e
    using that unfolding relevant_def matching_def event_key_name by (cases "target = []") simp_all
  have fm: "filter (\<lambda>e. event_key en e = k) matching = (if relevant k then filter (\<lambda>e. event_name e = k) evs else [])" for k
    unfolding matching_def relevant_def event_key_name by (auto simp: filter_empty_conv conj_commute intro!: filter_cong)
  have fs: "filter (\<lambda>e. event_key en e = k) (sort_key (events_order en) matching) = (if relevant k then filter (\<lambda>e. event_name e = k) evs else [])" for k
    unfolding sort_filter [OF mm(2,3)] fm ..
  have "fitting r (sort_key (events_order en) matching)"
  proof -
    have "(ev_data e \<longrightarrow> ev_record e \<noteq> None) \<and> suits (r (event_key en e)) (ev_record e) False" if e: "e \<in> set matching" for e
    proof -
      have "event_ok e" using advf(4) mm(1) e by (auto simp: list_all_iff)
      moreover have "r (event_name e) = map_option pub (scene_map s1 (event_name e))" using mr [OF e] unfolding r by (auto simp: shown_def relevant_def)
      ultimately show ?thesis using sound [of e] mm(1) e by (auto simp: event_ok_def event_key_name)
    qed
    then show ?thesis by (simp add: fitting_def list_all_iff)
  qed
  moreover have "ev_data e \<longrightarrow> r k \<noteq> None" if "filter (\<lambda>e. event_key en e = k) (sort_key (events_order en) matching) = e # l" for k e l
  proof -
    have k: "relevant k" "filter (\<lambda>e. event_name e = k) evs = e # l" using that unfolding fs by (simp_all split: if_splits)
    have "ev_data e \<longrightarrow> scene_map s1 k \<noteq> None" by (rule data_ok_first [OF advf(3) k(2)])
    then show ?thesis using k(1) unfolding r by (simp add: shown_def relevant_def)
  qed
  moreover have "sorted (map (event_key en) (sort_key (events_order en) matching))" by (rule sorted_keys) simp
  ultimately have k: "distinct (map (event_key en) kept)" "event_key en ` set kept \<subseteq> event_key en ` set matching"
      "\<And>e. e \<in> set kept \<Longrightarrow> suits (r (event_key en e)) (ev_record e) (ev_data e)"
      "\<And>k. map_of (map (\<lambda>e. (event_key en e, ev_record e)) kept) k
         = (case (if relevant k then filter (\<lambda>e. event_name e = k) evs else []) of [] \<Rightarrow> None | l \<Rightarrow> Some (ev_record (last l)))"
    using compress_spec [of "sort_key (events_order en) matching" r] unfolding kept_def [symmetric] fs by auto
  define rs where "rs = map (\<lambda>e. (event_key en e, ev_record e, ev_data e)) kept"
  have rs: "rs = frozen_rows en (ed_data ed)" by (simp add: rs_def ed_def frozen_rows_def)
  have snd: "sound (event_key en e) (ev_record e) \<and> relevant (event_key en e)" if e: "e \<in> set kept" for e
  proof -
    let ?k = "event_key en e"
    have "distinct (map fst (map (\<lambda>e. (event_key en e, ev_record e)) kept))" using k(1) by (simp add: comp_def)
    moreover have "(?k, ev_record e) \<in> set (map (\<lambda>e. (event_key en e, ev_record e)) kept)" using e by auto
    ultimately have "map_of (map (\<lambda>e. (event_key en e, ev_record e)) kept) ?k = Some (ev_record e)" by (rule map_of_is_SomeI)
    then obtain l where l: "relevant ?k" "filter (\<lambda>e. event_name e = ?k) evs = l" "l \<noteq> []" "ev_record e = ev_record (last l)"
      unfolding k(4) by (auto split: list.splits if_splits)
    have "last l \<in> set (filter (\<lambda>e. event_name e = ?k) evs)" unfolding l(2) using l(3) by simp
    then show ?thesis using sound [of "last l"] l(1,4) by auto
  qed
  have rf: "rows_for Mode_apply (in_current s) (in_target s) rs"
    using snd k(1,3) sf(4) p(1) unfolding rows_for_def rs_def r_def by (auto simp: list_all_iff comp_def relevant_def)
  have lt: "sn_version s1 < sn_version s2" "sn_version s2 \<noteq> 0" using advf(1) sc(4) by (auto simp: word_less_nat_alt)
  have len: "length rs < length gs"
  proof -
    have "length rs = card (event_key en ` set kept)" using distinct_card [OF k(1)] by (simp add: rs_def)
    also have "\<dots> \<le> card (event_key en ` set matching)" by (rule card_mono [OF _ k(2)]) simp
    also have "\<dots> \<le> length evs" using card_image_le [of "set matching" "event_key en"] card_length [of evs] card_mono [OF _ mm(1)] by force
    finally show ?thesis using gs by simp
  qed
  have "\<exists>res s'. deliver en encoded inst acc gs ed s = Some (res, s') \<and> ((\<exists>v. res = Installed v) \<longrightarrow> \<not> bar s')
    \<and> outcome_ok st inst (sn_version s2) (in_target s) (\<lambda>k. case map_of (map (\<lambda>(k, x, data). (k, x)) rs) k of
         None \<Rightarrow> if Mode_apply = Mode_reset then None else contents_map st (in_current s) k | Some x \<Rightarrow> map_option pub x) s res s'"
    by (rule deliver_rows [OF rs rf _ _ enc inst refl _ _ _ _ _ sf(1)])
      (use lt p sf s(2) len in \<open>auto simp: underway_def ed_def frozen_fine_def\<close>)
  moreover have "(\<lambda>k. case map_of (map (\<lambda>(k, x, data). (k, x)) rs) k of
         None \<Rightarrow> if Mode_apply = Mode_reset then None else contents_map st (in_current s) k | Some x \<Rightarrow> map_option pub x) = shown pub target (scene_map s2)"
  proof
    fix key
    have "map (\<lambda>(k, x, data). (k, x)) rs = map (\<lambda>e. (event_key en e, ev_record e)) kept" by (simp add: rs_def)
    then have "map_of (map (\<lambda>(k, x, data). (k, x)) rs) key
        = (case (if relevant key then filter (\<lambda>e. event_name e = key) evs else []) of [] \<Rightarrow> None | l \<Rightarrow> Some (ev_record (last l)))" using k(4) by simp
    then show "(case map_of (map (\<lambda>(k, x, data). (k, x)) rs) key of
         None \<Rightarrow> if Mode_apply = Mode_reset then None else contents_map st (in_current s) key | Some x \<Rightarrow> map_option pub x) = shown pub target (scene_map s2) key"
      unfolding advf(2) shown_def fold_events_last relevant_def [symmetric] r_def [symmetric] r
      by (auto simp: shown_def relevant_def [symmetric] split: list.split)
  qed
  ultimately show ?thesis using ch sf(4) by auto
qed

end

end
