(* ===== verification/Watch_Rules.thy ===== *)
theory Watch_Rules
  imports Watch
begin

text \<open>
  The catalog and the ephemeris are watched: both encodings fit their installers, so a client has exactly the contents of the scope.
\<close>

lemma new_scene_map: "scene_new meter lm = Some s \<Longrightarrow> scene_map s = Map.empty \<and> sn_version s = 0 \<and> sn_limits s = lm"
  by (auto simp: scene_new_def dir_map_def fun_eq_iff split: if_splits)

lemma run_origin:
  assumes "scene_map s = fold apply_event evs Map.empty" "scene_map s k = Some x"
  shows "\<exists>e \<in> set evs. event_name e = k \<and> ev_record e = Some x"
proof -
  have "(case filter (\<lambda>e. event_name e = k) evs of [] \<Rightarrow> None | l \<Rightarrow> ev_record (last l)) = Some x" using assms fold_events_last [of evs Map.empty k] by simp
  then obtain l where l: "filter (\<lambda>e. event_name e = k) evs = l" "l \<noteq> []" "ev_record (last l) = Some x" by (auto split: list.splits)
  then have "last l \<in> set (filter (\<lambda>e. event_name e = k) evs)" by simp
  then show ?thesis using l(3) by auto
qed

text \<open>The two exchanges of a watcher, one after the other.\<close>

definition watched :: "(origin_name, 'x, 'c) encoding \<Rightarrow> ('c wpage \<Rightarrow> nat) \<Rightarrow> string \<Rightarrow> 'r setting
    \<Rightarrow> ((nat \<Rightarrow> bool) \<Rightarrow> 'c wpage \<Rightarrow> ('r, 'z) installer_scheme \<Rightarrow> 'r cview accepted \<times> ('r, 'z) installer_scheme) \<Rightarrow> ('x \<Rightarrow> 'r)
    \<Rightarrow> string \<Rightarrow> 'x scene \<Rightarrow> 'x scene \<Rightarrow> (nat \<Rightarrow> bool) list \<Rightarrow> (nat \<Rightarrow> bool) list \<Rightarrow> nat \<Rightarrow> nat \<Rightarrow> ('r, 'z) installer_scheme \<Rightarrow> bool" where
  "watched en encoded inst st acc pub target s1 s2 gs gs' size_of capacity s \<longleftrightarrow>
     (\<exists>view p r s'. scene_capture s1 = Scene_done view \<and> scene_find target s1 = Scene_done p
        \<and> deliver en encoded inst acc gs (first_edition en size_of target view p) s = Some (r, s')
        \<and> outcome_ok st inst (sn_version s1) target (shown pub target (scene_map s1)) s r s'
        \<and> (\<forall>v cs. r = Installed v \<and> scene_replay (sn_version s1) s2 = Scene_done cs \<and> cs \<noteq> [] \<longrightarrow>
             (\<exists>ed r' s''. edition_changes en size_of capacity (sn_version s2) cs target = Some ed \<and> deliver en encoded inst acc gs' ed s' = Some (r', s'')
                \<and> outcome_ok st inst (sn_version s2) target (shown pub target (scene_map s2)) s' r' s'')))"

context scene_watch
begin

lemma followed:
  assumes new: "scene_new meter lm = Some s0" and run: "scene_run sz ops s0 = (evs0, s1)" "scene_run sz ops' s1 = (evs, s2)"
    and sound: "\<And>e. e \<in> set evs0 \<union> set evs \<Longrightarrow> sound (event_name e) (ev_record e)"
    and steady: "\<And>e. e \<in> set evs \<Longrightarrow> suits (map_option pub (scene_map s1 (event_name e))) (ev_record e) False"
    and s: "awaits st inst (sn_version s1) target s" and inst: "scope_text inst 128" and gs: "lm_records lm < length gs" "length evs < length gs'"
    and enc: "\<And>page. encoded page \<le> length (wp_instance page) + 64 + sum_list (map (\<lambda>c. weight c + 48) (wp_changes page))"
  shows "watched en encoded inst st acc pub target s1 s2 gs gs' size_of capacity s"
proof -
  note n = new_scene_map [OF new]
  have ok1: "scene_ok sz s1" and adv: "advances s0 evs0 s1" using scene_run_spec [OF scene_new_ok [OF new] run(1)] by blast+
  have m1: "scene_map s1 = fold apply_event evs0 Map.empty" "unat (sn_version s1) = length evs0" "sn_limits s1 = lm"
    using adv n by (simp_all add: advances_def)
  have zero: "sn_version s1 = 0 \<longrightarrow> scene_map s1 = Map.empty" using m1(1,2) by (metis fold_simps(1) length_0_conv unat_0)
  have sc: "sound k (Some x)" if "scene_map s1 k = Some x" for k x using run_origin [OF m1(1) that] sound by force
  have card: "card (dom (scene_map s1)) < length gs" using ok1 m1(3) gs(1) by (simp add: scene_ok_def content_ok_def)
  have idle: "\<not> sn_editing s1" using ok1 by (simp add: scene_ok_def)
  obtain view p where vp: "scene_capture s1 = Scene_done view" "scene_find target s1 = Scene_done p" using idle by (simp add: scene_capture_def scene_find_def)
  obtain r s' where d: "deliver en encoded inst acc gs (first_edition en size_of target view p) s = Some (r, s')" "(\<exists>v. r = Installed v) \<longrightarrow> \<not> bar s'"
      "outcome_ok st inst (sn_version s1) target (shown pub target (scene_map s1)) s r s'"
    using snapshot_delivered [OF ok1 zero vp sc s inst card enc] by blast
  have "\<exists>ed r' s''. edition_changes en size_of capacity (sn_version s2) cs target = Some ed \<and> deliver en encoded inst acc gs' ed s' = Some (r', s'')
      \<and> outcome_ok st inst (sn_version s2) target (shown pub target (scene_map s2)) s' r' s''"
    if i: "r = Installed v" "scene_replay (sn_version s1) s2 = Scene_done cs" "cs \<noteq> []" for v cs
  proof -
    have adv2: "scene_ok sz s2" "advances s1 evs s2" using scene_run_spec [OF ok1 run(2)] by blast+
    have "cs = evs" using advances_replay [OF adv2] i(2) by (simp split: if_splits)
    then have ne: "evs \<noteq> []" using i(3) by simp
    have h: "holds st inst (sn_version s1) target (shown pub target (scene_map s1)) s'" "\<not> bar s'" using d(2,3) i(1) by (auto simp: outcome_ok_def)
    show ?thesis using increment_delivered [OF ok1 run(2) i(2) ne _ h inst gs(2) enc, of size_of capacity] sound steady by blast
  qed
  then show ?thesis using vp d unfolding watched_def by blast
qed

end

subsection \<open>The catalog and the ephemeris\<close>

lemma step_set_steps:
  assumes "\<And>d'. step_set st k r d \<noteq> Step_thrown d'"
  shows "\<exists>d'. step_set st k r d = Step d'"
proof -
  obtain fine e where "tdraft_set st k r d = (fine, e)" by fastforce
  then show ?thesis using assms [of e] by (cases fine) (auto simp: step_set_def)
qed

definition catalog_sound :: "string \<Rightarrow> catalog_content option \<Rightarrow> bool" where
  "catalog_sound k x \<longleftrightarrow> scope_text k 1024
     \<and> (case x of None \<Rightarrow> True | Some c \<Rightarrow> kc_version c \<noteq> 0 \<and> (case kc_value c of None \<Rightarrow> False | Some v \<Rightarrow> length v \<le> 1024 * 1024))"

definition catalog_publication :: "catalog_content \<Rightarrow> publication" where
  "catalog_publication x = \<lparr>pu_version = kc_version x, pu_value = the (kc_value x)\<rparr>"

definition catalog_weight :: "catalog_wchange \<Rightarrow> nat" where
  "catalog_weight c = length (cw_key c) + (case cw_action c of Cv_value v \<Rightarrow> length v | _ \<Rightarrow> 0)"

interpretation catalog_watch: scene_watch "publication_setting st" "subscription_domain (publication_setting st)" subscription_effect "subscription_accept st"
  catalog_encoding "\<lambda>s. False" catalog_publication catalog_weight catalog_sound "\<lambda>r x data. True"
proof unfold_locales
  let ?st = "publication_setting st"
  show "\<exists>s1. installer_accept ?st grant (subscription_domain ?st) False page s = (fst (subscription_accept st grant page s), s1)
      \<and> installer.truncate (snd (subscription_accept st grant page s)) = installer.truncate s1" for grant s page
    by (intro exI [of _ "snd (subscription_accept st grant page s)"]) (simp add: subscription_accept_def)
  show "row_fits catalog_encoding (k, x, data) \<and> catalog_weight (en_change catalog_encoding k x data) + 48 \<le> row_cost catalog_encoding (k, x, data)"
    if "catalog_sound k x" for k x data
    using that by (auto simp: catalog_sound_def row_fits_def row_cost_def catalog_encoding_def catalog_payload_def catalog_append_def catalog_weight_def
      scope_text_short split: option.splits)
  show "do_key (subscription_domain ?st) (en_change catalog_encoding k x data) = k \<and> do_valid (subscription_domain ?st) k" if "catalog_sound k x" for k x data
    using that by (simp add: catalog_encoding_def catalog_append_def subscription_domain_def catalog_sound_def split: option.split)
  show "subscription_effect (en_change catalog_encoding k x data) b m = m(k := map_option catalog_publication x)" for k x data b m
    by (simp add: catalog_encoding_def catalog_append_def subscription_effect_def catalog_publication_def split: option.split)
  show "\<exists>d'. do_step (subscription_domain ?st) (en_change catalog_encoding k x data) mode current d = Step d'"
    if adm: "catalog_sound k x" "mode = Mode_reset \<and> x \<noteq> None \<and> \<not> data \<or> mode = Mode_apply \<and> current \<noteq> None \<and> True"
      and d: "tdraft_ok ?st d" "dr_bytes d \<le> 1024 * 1024 * 1024 * 2" for k x mode data current d
  proof (cases x)
    case None
    then have "mode = Mode_apply" using adm(2) by simp
    then show ?thesis using None by (simp add: subscription_domain_def subscription_step_def catalog_encoding_def catalog_append_def)
  next
    case (Some c)
    obtain v where v: "kc_value c = Some v" "length v \<le> 1024 * 1024" "kc_version c \<noteq> 0" "scope_text k 1024"
      using adm(1) Some by (auto simp: catalog_sound_def split: option.splits)
    have "step_set ?st k \<lparr>pu_version = kc_version c, pu_value = v\<rparr> d \<noteq> Step_thrown d'" for d'
      using d v by (intro step_set_small) (simp_all add: publication_setting_def scope_text_short)
    then have "\<exists>d'. step_set ?st k \<lparr>pu_version = kc_version c, pu_value = v\<rparr> d = Step d'" by (rule step_set_steps)
    then show ?thesis using v Some by (simp add: subscription_domain_def subscription_step_def catalog_encoding_def catalog_append_def)
  qed
  show "do_older (subscription_domain ?st) i v p \<Longrightarrow> pb_instance p = i \<and> v < pb_version p" for i v p by (simp add: subscription_domain_def)
qed (simp_all add: catalog_encoding_def)

definition ephemeris_sound :: "string \<Rightarrow> ephemeris_content option \<Rightarrow> bool" where
  "ephemeris_sound k x \<longleftrightarrow> selection_valid k
     \<and> (case x of None \<Rightarrow> True | Some c \<Rightarrow> (case ke_attr c of None \<Rightarrow> False | Some v \<Rightarrow> length v \<le> 1024 * 1024)
          \<and> (case ke_data c of None \<Rightarrow> False | Some v \<Rightarrow> length v \<le> 1024 * 1024))"

definition ephemeris_registration :: "ephemeris_content \<Rightarrow> registration" where
  "ephemeris_registration x = \<lparr>rg_attr = the (ke_attr x), rg_data = the (ke_data x)\<rparr>"

definition ephemeris_weight :: "ephemeris_wchange \<Rightarrow> nat" where
  "ephemeris_weight c = length (ew_uuid c) + (case ew_action c of Ev_record attr data \<Rightarrow> length attr + length data | Ev_data data \<Rightarrow> length data | _ \<Rightarrow> 0)"

text \<open>The attributes of a registration never change; a change of the data alone is of a registration the client has.\<close>

definition ephemeris_suits :: "registration option \<Rightarrow> ephemeris_content option \<Rightarrow> bool \<Rightarrow> bool" where
  "ephemeris_suits r x data \<longleftrightarrow> (case x of None \<Rightarrow> \<not> data
     | Some c \<Rightarrow> (case r of None \<Rightarrow> \<not> data | Some r0 \<Rightarrow> rg_attr r0 = the (ke_attr c)))"

interpretation ephemeris_watch: scene_watch "registration_setting st" "selection_domain (registration_setting st)" selection_effect "selection_accept st"
  ephemeris_encoding sl_fresh ephemeris_registration ephemeris_weight ephemeris_sound ephemeris_suits
proof unfold_locales
  let ?st = "registration_setting st"
  show "\<exists>s1. installer_accept ?st grant (selection_domain ?st) (sl_fresh s) page s = (fst (selection_accept st grant page s), s1)
      \<and> installer.truncate (snd (selection_accept st grant page s)) = installer.truncate s1" for grant page and s :: selection
    by (auto simp: selection_accept_def installer.defs split: prod.split accepted.split)
  show "\<not> sl_fresh s'" if "selection_accept st grant page s = (Installed v, s')" for grant page v and s s' :: selection
    using that by (auto simp: selection_accept_def split: prod.splits accepted.splits)
  show "row_fits ephemeris_encoding (k, x, data) \<and> ephemeris_weight (en_change ephemeris_encoding k x data) + 48 \<le> row_cost ephemeris_encoding (k, x, data)"
    if "ephemeris_sound k x" for k x data
    using that by (auto simp: ephemeris_sound_def row_fits_def row_cost_def ephemeris_encoding_def ephemeris_payload_def ephemeris_append_def ephemeris_weight_def
      selection_valid_def split: option.splits)
  show "do_key (selection_domain ?st) (en_change ephemeris_encoding k x data) = k \<and> do_valid (selection_domain ?st) k" if "ephemeris_sound k x" for k x data
    using that by (simp add: ephemeris_encoding_def ephemeris_append_def selection_domain_def ephemeris_sound_def)
  show "selection_effect (en_change ephemeris_encoding k x data) b m = m(k := map_option ephemeris_registration x)"
    if "(x \<noteq> None \<and> \<not> data) \<or> ephemeris_suits (b k) x data" for k x data b m
    using that by (auto simp: ephemeris_encoding_def ephemeris_append_def selection_effect_def ephemeris_registration_def ephemeris_suits_def split: option.splits)
  show "\<exists>d'. do_step (selection_domain ?st) (en_change ephemeris_encoding k x data) mode current d = Step d'"
    if adm: "ephemeris_sound k x" "mode = Mode_reset \<and> x \<noteq> None \<and> \<not> data \<or> mode = Mode_apply \<and> current \<noteq> None \<and> ephemeris_suits (contents_map ?st current k) x data"
      and d: "tdraft_ok ?st d" "dr_bytes d \<le> 1024 * 1024 * 1024 * 2" for k x mode data current d
  proof (cases x)
    case None
    then have "mode = Mode_apply" using adm(2) by simp
    then show ?thesis using None by (simp add: selection_domain_def selection_step_def ephemeris_encoding_def ephemeris_append_def)
  next
    case (Some c)
    obtain u v where v: "ke_attr c = Some u" "length u \<le> 1024 * 1024" "ke_data c = Some v" "length v \<le> 1024 * 1024" "length k \<le> 1024"
      using adm(1) Some by (auto simp: ephemeris_sound_def selection_valid_def split: option.splits)
    define old where "old = (case current of None \<Rightarrow> None | Some p \<Rightarrow> table_find ?st k (pb_data p))"
    have om: "old = contents_map ?st current k" by (simp add: old_def contents_map_def table_find_map split: option.split)
    have "step_set ?st k \<lparr>rg_attr = u, rg_data = v\<rparr> d \<noteq> Step_thrown d'" for d'
      using d v by (intro step_set_small) (simp_all add: registration_setting_def)
    then have step: "\<exists>d'. step_set ?st k \<lparr>rg_attr = u, rg_data = v\<rparr> d = Step d'" by (rule step_set_steps)
    have run: "do_step (selection_domain ?st) (en_change ephemeris_encoding k x data) mode current d =
        selection_step ?st \<lparr>ew_uuid = k, ew_action = (if data then Ev_data v else Ev_record u v)\<rparr> mode current d"
      using v Some by (simp add: selection_domain_def ephemeris_encoding_def ephemeris_append_def)
    show ?thesis
    proof (cases "mode = Mode_apply")
      case True
      then have suit: "ephemeris_suits old x data" using adm(2) om by simp
      show ?thesis unfolding run selection_step_def ephemeris_wchange.simps Let_def old_def [symmetric] using step suit True v Some
        by (auto simp: ephemeris_suits_def split: option.splits)
    next
      case False
      then have "\<not> data" using adm(2) by blast
      then show ?thesis unfolding run selection_step_def ephemeris_wchange.simps Let_def old_def [symmetric] using step False v
        by (auto split: option.splits)
    qed
  qed
  show "do_older (selection_domain ?st) i v p \<Longrightarrow> pb_instance p = i \<and> v < pb_version p" for i v p by (simp add: selection_domain_def)
  show "ephemeris_suits r x False \<Longrightarrow> (data \<longrightarrow> x \<noteq> None \<and> r \<noteq> None) \<Longrightarrow> ephemeris_suits r x data" for r x data
    by (auto simp: ephemeris_suits_def split: option.splits)
  show "ev_record (en_merge ephemeris_encoding previous next) = ev_record next \<and> ev_name (en_merge ephemeris_encoding previous next) = ev_name next
      \<and> ev_version (en_merge ephemeris_encoding previous next) = ev_version next
      \<and> ephemeris_suits r (ev_record (en_merge ephemeris_encoding previous next)) (ev_data (en_merge ephemeris_encoding previous next))"
    if "ephemeris_suits r (ev_record previous) (ev_data previous)" "ephemeris_suits r (ev_record next) False" "ev_data next \<longrightarrow> ev_record next \<noteq> None" for r previous "next"
    using that by (auto simp: ephemeris_encoding_def ephemeris_merge_def ephemeris_suits_def split: option.splits)
qed (simp add: ephemeris_encoding_def)

subsection \<open>Properties\<close>

text \<open>C1: A catalog scope reaches its subscriber and stays with it.  From a new scope, after any changes, a client at the start of a stream of the
  whole scope or of one key is sent the first edition.  As long as the encoding of a page is no longer than the Star accounts for, the
  exchange ends: either the client has installed a view that finds exactly the published records of the scope at its version, or it has
  reported that its own limits are exceeded and keeps what it had; no page is refused as a protocol error.  After any further changes that
  the scope can still replay, the edition of those changes exists, is delivered in the same sense, and the client has exactly the records of
  the new version.\<close>

theorem catalog_watch_follows:
  assumes "scene_new meter lm = Some s0" "scene_run sz ops s0 = (evs0, s1)" "scene_run sz ops' s1 = (evs, s2)"
    and "list_all (\<lambda>e. catalog_sound (event_name e) (ev_record e)) (evs0 @ evs)"
    and "awaits (publication_setting st) inst (sn_version s1) target s" "scope_text inst 128" "lm_records lm < length gs" "length evs < length gs'"
    and "\<And>page. encoded page \<le> length (wp_instance page) + 64 + sum_list (map (\<lambda>c. catalog_weight c + 48) (wp_changes page))"
  shows "watched catalog_encoding encoded inst (publication_setting st) (subscription_accept st) catalog_publication target s1 s2 gs gs' size_of capacity s"
  by (rule catalog_watch.followed [OF assms(1-3) _ _ assms(5-9)]) (use assms(4) in \<open>auto simp: list_all_iff\<close>)


text \<open>A scope of one record that is changed twice, with a client that follows it.\<close>

lemma start_awaits: "awaits st inst version [] (stream_start st)"
proof -
  have "in_valid (stream_start st) \<and> in_first (stream_start st) \<and> in_target (stream_start st) = [] \<and> in_expected (stream_start st) = [] \<and> in_current (stream_start st) = None"
    by (simp add: stream_start_def installer_new_def installer_begin_def installer_discard_def)
  then show ?thesis using stream_start_ok [of st] unfolding awaits_def by simp
qed

definition sample_limits :: scene_limits where
  "sample_limits = \<lparr>lm_records = 1, lm_bytes = 10000, lm_history = 5, lm_backlog = 10000, lm_retention = 600\<rparr>"

definition one_edit :: "string \<Rightarrow> 'x option \<Rightarrow> bool \<Rightarrow> 'x scene_op" where
  "one_edit k x data = Edit_op (sample_grants, Some (sample_name k), x, 10, data) 5000 True"

text \<open>Whether both exchanges of a watcher end with an installed view.\<close>

definition both_installed :: "(origin_name, 'x, 'c) encoding \<Rightarrow> ('c wpage \<Rightarrow> nat) \<Rightarrow> string
    \<Rightarrow> ((nat \<Rightarrow> bool) \<Rightarrow> 'c wpage \<Rightarrow> ('r, 'z) installer_scheme \<Rightarrow> 'r cview accepted \<times> ('r, 'z) installer_scheme)
    \<Rightarrow> 'x scene \<Rightarrow> 'x scene \<Rightarrow> (nat \<Rightarrow> bool) list \<Rightarrow> (nat \<Rightarrow> bool) list \<Rightarrow> ('r, 'z) installer_scheme \<Rightarrow> bool" where
  "both_installed en encoded inst acc s1 s2 gs gs' s =
     (case (scene_capture s1, scene_find [] s1, scene_replay (sn_version s1) s2) of
        (Scene_done v, Scene_done p, Scene_done cs) \<Rightarrow>
          (case deliver en encoded inst acc gs (first_edition en 16 [] v p) s of
             Some (Installed _, s') \<Rightarrow>
               (case edition_changes en 16 4 (sn_version s2) cs [] of
                  Some ed \<Rightarrow> (case deliver en encoded inst acc gs' ed s' of Some (Installed _, _) \<Rightarrow> cs \<noteq> [] | _ \<Rightarrow> False)
                | None \<Rightarrow> False)
           | _ \<Rightarrow> False)
      | _ \<Rightarrow> False)"

definition catalog_scene :: "catalog_content scene" where
  "catalog_scene = the (scene_new (\<lambda>r. length (the (kc_value r))) sample_limits)"

definition catalog_before :: "(origin_name, catalog_content) event list \<times> catalog_content scene" where
  "catalog_before = scene_run sample_sizes [one_edit ''k'' (Some \<lparr>kc_version = 3, kc_value = Some [1, 2]\<rparr>) False] catalog_scene"

definition catalog_after :: "(origin_name, catalog_content) event list \<times> catalog_content scene" where
  "catalog_after = scene_run sample_sizes [one_edit ''k'' None False, one_edit ''l'' (Some \<lparr>kc_version = 1, kc_value = Some [7]\<rparr>) False] (snd catalog_before)"

definition catalog_encoded :: "catalog_wchange wpage \<Rightarrow> nat" where
  "catalog_encoded page = length (wp_instance page) + 64 + sum_list (map (\<lambda>c. catalog_weight c + 48) (wp_changes page))"

lemma catalog_samples:
  "list_all (\<lambda>e. catalog_sound (event_name e) (ev_record e)) (fst catalog_before @ fst catalog_after)" "length (fst catalog_after) = 2" "scope_text ''star'' 128"
  by code_simp+

lemma catalog_both_installed:
  "both_installed catalog_encoding catalog_encoded ''star'' (subscription_accept (plain_setting (\<lambda>_. 0)))
     (snd catalog_before) (snd catalog_after) [\<lambda>_. True, \<lambda>_. True] [\<lambda>_. True, \<lambda>_. True, \<lambda>_. True] (stream_start (publication_setting (plain_setting (\<lambda>_. 0))))"
  by code_simp

theorem catalog_watch_follows_witness:
  "watched catalog_encoding catalog_encoded ''star'' (publication_setting (plain_setting (\<lambda>_. 0))) (subscription_accept (plain_setting (\<lambda>_. 0))) catalog_publication []
     (snd catalog_before) (snd catalog_after) [\<lambda>_. True, \<lambda>_. True] [\<lambda>_. True, \<lambda>_. True, \<lambda>_. True] 16 4 (stream_start (publication_setting (plain_setting (\<lambda>_. 0))))
   \<and> both_installed catalog_encoding catalog_encoded ''star'' (subscription_accept (plain_setting (\<lambda>_. 0)))
     (snd catalog_before) (snd catalog_after) [\<lambda>_. True, \<lambda>_. True] [\<lambda>_. True, \<lambda>_. True, \<lambda>_. True] (stream_start (publication_setting (plain_setting (\<lambda>_. 0))))"
proof (rule conjI, rule catalog_watch_follows [where sz = sample_sizes])
  show "scene_new (\<lambda>r. length (the (kc_value r))) sample_limits = Some catalog_scene" by (simp add: catalog_scene_def scene_new_def sample_limits_def)
  show "scene_run sample_sizes [one_edit ''k'' (Some \<lparr>kc_version = 3, kc_value = Some [1, 2]\<rparr>) False] catalog_scene = (fst catalog_before, snd catalog_before)"
    by (simp add: catalog_before_def)
  show "scene_run sample_sizes [one_edit ''k'' None False, one_edit ''l'' (Some \<lparr>kc_version = 1, kc_value = Some [7]\<rparr>) False] (snd catalog_before)
      = (fst catalog_after, snd catalog_after)" by (simp add: catalog_after_def)
  show "awaits (publication_setting (plain_setting (\<lambda>_. 0))) ''star'' (sn_version (snd catalog_before)) [] (stream_start (publication_setting (plain_setting (\<lambda>_. 0))))"
    by (rule start_awaits)
qed (use catalog_samples catalog_both_installed in \<open>simp_all add: sample_limits_def catalog_encoded_def\<close>)

definition ephemeris_scene :: "ephemeris_content scene" where
  "ephemeris_scene = the (scene_new (\<lambda>r. length (the (ke_attr r)) + length (the (ke_data r))) sample_limits)"

definition ephemeris_uuid :: string where
  "ephemeris_uuid = replicate 6 (CHR ''a'') @ CHR 0x41 # CHR ''x'' # CHR 0x80 # replicate 7 (CHR ''y'')"

definition ephemeris_before :: "(origin_name, ephemeris_content) event list \<times> ephemeris_content scene" where
  "ephemeris_before = scene_run sample_sizes [one_edit ephemeris_uuid (Some \<lparr>ke_attr = Some [1], ke_data = Some [2]\<rparr>) False] ephemeris_scene"

definition ephemeris_after :: "(origin_name, ephemeris_content) event list \<times> ephemeris_content scene" where
  "ephemeris_after = scene_run sample_sizes [one_edit ephemeris_uuid (Some \<lparr>ke_attr = Some [1], ke_data = Some [3]\<rparr>) True] (snd ephemeris_before)"

definition ephemeris_encoded :: "ephemeris_wchange wpage \<Rightarrow> nat" where
  "ephemeris_encoded page = length (wp_instance page) + 64 + sum_list (map (\<lambda>c. ephemeris_weight c + 48) (wp_changes page))"

lemma ephemeris_samples:
  "list_all (\<lambda>e. ephemeris_sound (event_name e) (ev_record e)) (fst ephemeris_before @ fst ephemeris_after)" "length (fst ephemeris_after) = 1"
  "list_all (\<lambda>e. ephemeris_suits (map_option ephemeris_registration (scene_map (snd ephemeris_before) (event_name e))) (ev_record e) False) (fst ephemeris_after)"
  by code_simp+

lemma observer_awaits: "awaits (registration_setting (plain_setting (\<lambda>_. 0))) inst version [] observer_start"
  using start_awaits [of "registration_setting (plain_setting (\<lambda>_. 0))" inst version] observer_start_ok
  unfolding awaits_def observer_start_def installer.defs by simp

lemma ephemeris_both_installed:
  "both_installed ephemeris_encoding ephemeris_encoded ''star'' (selection_accept (plain_setting (\<lambda>_. 0)))
     (snd ephemeris_before) (snd ephemeris_after) [\<lambda>_. True, \<lambda>_. True] [\<lambda>_. True, \<lambda>_. True] observer_start"
  by code_simp


end
