(* ===== verification/Spec2Isabelle.thy ===== *)
theory Spec2Isabelle
  imports Wheel_Fire Clock_Filter Catalog_Merge Ephemeris_Life Types_Rules Agenda Store_Run Topology_Rules Upstream_Rules Almanac_Rules Progress_Rules
    Pages_Shared_Rules Watch_Rules
begin

text \<open>
  A verification library for the C++ core of Astra, a service discovery system (\<^verbatim>\<open>src/astra\<close>).

  \<^bold>\<open>The program.\<close>  Stars form a galaxy.  Each Star keeps three domains of data: the almanac (configuration, replicated from one
  publisher), the catalog (versioned values with leases) and the ephemeris (registrations with leases).  Planets attach to one Star at a
  time.  All nodes follow one epoch time that a Pulsar distributes.  A node's runtime asks a policy which sessions to keep and
  which members to dial; watchers of a scope are told of commits by a rotation over their streams, are sent editions of the scope page by
  page, and install them in tables on the client side (Comet).

  \<^bold>\<open>The theories, and the code they model.\<close>
  \<^item> \<open>Astra_Prelude\<close>: machine integers, two functions of the standard library, generic facts and the collections of simplification rules.
  \<^item> \<open>Wheel\<close>, \<open>Wheel_Place\<close>, \<open>Wheel_Fire\<close>, \<open>Wheel_Togo\<close>: the timing wheel, \<^verbatim>\<open>common/src/wheel.hpp\<close>.  Placement across the wrap of the 64-bit clock, a refinement of
    a flat table of deadlines, firing on time, ticks whose callbacks throw.  The locale \<open>timer_queue\<close> is what its two clients rely on.
  \<^item> \<open>Clock\<close>, \<open>Clock_Slew\<close>, \<open>Clock_Source\<close>, \<open>Clock_Filter\<close>: the epoch clock, \<^verbatim>\<open>common/src/clock.cpp\<close>, \<^verbatim>\<open>clock_filter.hpp\<close>, \<^verbatim>\<open>clock_precision.hpp\<close>.  Monotone
    readings, bounded rate, convergence, soundness of the error bound, termination of the precision measurement.  The locale \<open>time_source\<close>.
  \<^item> \<open>Lease\<close>, \<open>Catalog\<close>, \<open>Catalog_Merge\<close>, \<open>Ephemeris\<close>, \<open>Ephemeris_Life\<close>: the record rules of \<^verbatim>\<open>star/src/catalog.cpp\<close> and \<^verbatim>\<open>ephemeris.cpp\<close>: publication, merge as a
    join, renewal, identifiers.  The locale \<open>lease\<close> is interpreted by both.
  \<^item> \<open>Types\<close>, \<open>Text\<close>, \<open>Types_Rules\<close>: \<^verbatim>\<open>common/src/types.cpp\<close>, \<^verbatim>\<open>scope.cpp\<close>, \<^verbatim>\<open>policy.cpp\<close>: principals, endpoints, members, UTF-8 texts, superseding, retry spacing.
  \<^item> \<open>Agenda\<close>: the deadlines of a group of records, \<^verbatim>\<open>star/src/agenda.hpp\<close>, on the wheel.
  \<^item> \<open>Pages\<close>, \<open>Pages_Cells\<close>, \<open>Pages_Index\<close>: the copy-on-write page index, \<^verbatim>\<open>common/src/pages.hpp\<close>, \<^verbatim>\<open>snapshot_index.hpp\<close>: refinement of a map, lowest
    vacant slot, exact paging of views.  The locale \<open>slot_index\<close> is what the store and the almanac rely on.
  \<^item> \<open>Pages_Shared\<close>, \<open>Pages_Shared_Owners\<close>, \<open>Pages_Shared_Path\<close>, \<open>Pages_Shared_Write\<close>, \<open>Pages_Shared_Rules\<close>: the same methods with the pages in memory:
    links are addresses, use counts decide what is cloned, commits write in place.  The index and every held view behave as the values of
    \<open>Pages\<close>, which the other theories use.
  \<^item> \<open>Store\<close>, \<open>Store_State\<close>, \<open>Store_Commit\<close>, \<open>Store_Tick\<close>, \<open>Store_Run\<close>: the versioned store, \<^verbatim>\<open>common/src/store.cpp\<close>, over the page index, the wheel and the clock:
    extraction replays history, failed operations are atomic, keys expire exactly on time, snapshots are isolated from writers.
  \<^item> \<open>Policy\<close>: the virtual methods of \<^verbatim>\<open>common/include/astra/policy.hpp\<close> as a record, and the locale \<open>session_policy\<close> with the contract a runtime relies on.
  \<^item> \<open>Topology\<close>, \<open>Topology_Refresh\<close>, \<open>Topology_Rules\<close>: the Star policy, \<^verbatim>\<open>star/src/topology.cpp\<close>: session accounting within capacity, agreement of two Stars that
    dial each other, windows of redialling, merging of member lists.
  \<^item> \<open>Upstream\<close>, \<open>Upstream_Rules\<close>: the Planet policy, \<^verbatim>\<open>planet/src/upstream.cpp\<close>: one upstream at a time, the choice of a candidate, quarantine.
  \<^item> \<open>Almanac\<close>, \<open>Almanac_State\<close>, \<open>Almanac_Rules\<close>: one configuration scope, \<^verbatim>\<open>star/src/almanac.cpp\<close>: exact changes in version order, exact replay.
  \<^item> \<open>Progress\<close>, \<open>Progress_Queue\<close>, \<open>Progress_Rules\<close>: the notification rotation, \<^verbatim>\<open>star/src/progress.hpp\<close>, with its intrusive links: every commit reaches every
    stream, fairly; a covered position can be continued.
  \<^item> \<open>Scene\<close>, \<open>Scene_Index\<close>, \<open>Scene_Edit\<close>, \<open>Scene_Batch\<close>, \<open>Scene_Rules\<close>: the visible contents of a scope, \<^verbatim>\<open>star/src/scene.hpp\<close>, over the page index: atomic
    changes and batches, exact replay, limits.
  \<^item> \<open>Comet_Table\<close>, \<open>Comet_Table_Rules\<close>: the client's paged dictionary, \<^verbatim>\<open>comet/cpp/src/table.hpp\<close>: refinement of a map with exact counters.
  \<^item> \<open>Comet_Install\<close>, \<open>Comet_Install_Rules\<close>, \<open>Comet_Rules\<close>: the client's installers, \<^verbatim>\<open>projection.cpp\<close>, \<^verbatim>\<open>subscription.cpp\<close>, \<^verbatim>\<open>selection.cpp\<close>: complete batches are
    installed exactly and nothing else changes a view.  The locales \<open>wire_domain\<close> and \<open>wire_installer\<close> carry what the three have in common.
  \<^item> \<open>Edition\<close>, \<open>Watch_Page\<close>, \<open>Watch\<close>, \<open>Watch_Rules\<close>: what a Star sends to a watcher, \<^verbatim>\<open>star/src/pagination.hpp\<close> with the encodings of \<^verbatim>\<open>catalog_edition.cpp\<close>
    and \<^verbatim>\<open>ephemeris_edition.cpp\<close>, and the whole way from the scene of a Star to the view of a client.  The locales \<open>watch\<close> and \<open>scene_watch\<close> say
    what the two sides rely on of each other and are interpreted for the catalog and for the ephemeris.

  \<^bold>\<open>How the code is represented.\<close>  A class is a record, an enumeration a datatype, a method one definition from state to state.  A
  \<^verbatim>\<open>std::expected\<close> is a sum with the error on the left; an exception is a value of the result.  64-bit counters are words, and wrap;
  durations are integers of nanoseconds, with the wrap written out where the code's own arithmetic can reach it.  Methods that hold the
  object's lock are atomic steps; interleavings are sequences of such steps.  Which allocations succeed is an argument of the
  operations that change state and allocate, so each failure that could leave a trace is a branch; where a read only builds its
  result, one flag stands for its memory or, in \<open>Edition\<close> and in the client's tables, allocation is taken to succeed.  An enumeration has
  only its own values, so checks of its range hold.

  \<^bold>\<open>Parameters.\<close>  \<^verbatim>\<open>inet_pton\<close>, \<^verbatim>\<open>inet_ntop\<close>, \<^verbatim>\<open>std::hash\<close>, the local clock, the random device, sizes of C++ types, bucket counts of hash tables,
  the lengths of encoded messages and what the client's budget grants are arguments.  The local clock is taken not to throw.  What a
  property needs of them is a hypothesis of it and is shown to be satisfiable by its witness.

  \<^bold>\<open>Loops.\<close>  Loops are recursive functions that terminate for every input.  The precision measurement, which runs for as long as its caller's
  clock lets it, is a partial function with its own termination theorem.  The answers of the random device are a list, and running out of
  it is a separate result.  Draining and delivering functions take the number of calls, and the theorems give a number that is enough.

  \<^bold>\<open>Not modelled.\<close>  The runtime and its gRPC sessions, certificates and processes; the RPC handlers, which work on generated message classes;
  replication between Stars and the tables of live state, which apply the record rules, the agenda and the scene modelled here to many
  keys and peers; the dispatch over the rotation; command line parsing; the Pulsar's database, certificate and socket code; the
  sessions of the Comet client; the frozen Redis SDK; the parts in other languages.  Within the modelled parts: profiling marks, memory fences and the addresses of objects, except where the code follows
  pointers (\<open>Progress\<close>, \<open>Pages_Shared\<close>).
\<close>

end
